(* ===== verification/Prelude.thy ===== *)
theory Prelude
  imports Main "HOL-Library.Word"
begin

text \<open>
  Shared vocabulary of the development: the machine types of the Rust sources, the outcome type
  of fallible code (a value, an \<open>Err\<close> of a \<open>Result\<close>, or a panic), the big-endian
  and little-endian byte views of \<open>to_be_bytes\<close>, \<open>from_be_bytes\<close> and
  \<open>from_le_bytes\<close>, and the generic lemmas on lists and words that the component theories use.

  Conventions. An unsigned or signed Rust integer of \<open>n\<close> bits is an \<open>n word\<close>;
  \<open>i64\<close> is a \<open>64 word\<close> read with the signed orders \<open><s\<close> and \<open>\<le>s\<close>, the arithmetic shift
  \<open>signed_drop_bit\<close> and \<open>sint\<close>. Lengths and indices (\<open>usize\<close>) are \<open>nat\<close>, \<open>isize\<close> results are \<open>int\<close>.
  A \<open>&mut Vec\<close> argument that the code appends to is a list argument, and the updated list is
  the result. Pooled scratch buffers (\<open>get_int64s\<close>, \<open>get_byte_buffer\<close>) are cleared before
  use, so they are plain local lists here.
\<close>

unbundle bit_operations_syntax

type_synonym u8 = "8 word"
type_synonym u16 = "16 word"
type_synonym u32 = "32 word"
type_synonym u64 = "64 word"
type_synonym u128 = "128 word"
type_synonym i16 = "16 word"
type_synonym i64 = "64 word"
type_synonym bytes = "8 word list"

named_theorems codec_simps \<open>rewrite rules that evaluate an encoder or a decoder\<close>
named_theorems inv_intros \<open>introduction rules that establish a component invariant\<close>

subsection \<open>Outcomes: values, errors, panics\<close>

datatype ('a, 'e) outcome = Ok 'a | Err 'e | Panic

definition obind :: "('a, 'e) outcome \<Rightarrow> ('a \<Rightarrow> ('b, 'e) outcome) \<Rightarrow> ('b, 'e) outcome" where
  "obind m f = (case m of Ok x \<Rightarrow> f x | Err e \<Rightarrow> Err e | Panic \<Rightarrow> Panic)"

definition map_err :: "('e \<Rightarrow> 'f) \<Rightarrow> ('a, 'e) outcome \<Rightarrow> ('a, 'f) outcome" where
  "map_err g m = (case m of Ok x \<Rightarrow> Ok x | Err e \<Rightarrow> Err (g e) | Panic \<Rightarrow> Panic)"

fun is_Ok :: "('a, 'e) outcome \<Rightarrow> bool" where
  "is_Ok (Ok _) = True"
| "is_Ok _ = False"

lemma obind_simps [simp]:
  "obind (Ok x) f = f x" "obind (Err e) f = Err e" "obind Panic f = Panic"
  by (simp_all add: obind_def)

lemma map_err_simps [simp]:
  "map_err g (Ok x) = Ok x" "map_err g (Err e) = Err (g e)" "map_err g Panic = Panic"
  by (simp_all add: map_err_def)

lemma obind_Ok_iff: "obind m f = Ok y \<longleftrightarrow> (\<exists>x. m = Ok x \<and> f x = Ok y)"
  by (cases m) auto

lemma map_err_Ok_iff [simp]: "map_err g m = Ok y \<longleftrightarrow> m = Ok y"
  by (cases m) auto

lemma map_err_Panic_iff [simp]: "map_err g m = Panic \<longleftrightarrow> m = Panic"
  by (cases m) auto

subsection \<open>Byte views of words\<close>

text \<open>
  \<open>to_be_bytes\<close> of an integer of \<open>n\<close> bytes lists its bytes from the most significant one;
  \<open>from_be_bytes\<close> reads them back. \<open>from_le_bytes\<close> and \<open>to_le_bytes\<close> are the
  little-endian versions.
\<close>

definition to_be_bytes :: "nat \<Rightarrow> 'a::len word \<Rightarrow> bytes" where
  "to_be_bytes n w = map (\<lambda>i. ucast (drop_bit (8 * (n - Suc i)) w)) [0..<n]"

definition to_le_bytes :: "nat \<Rightarrow> 'a::len word \<Rightarrow> bytes" where
  "to_le_bytes n w = map (\<lambda>i. ucast (drop_bit (8 * i) w)) [0..<n]"

primrec from_le_bytes :: "bytes \<Rightarrow> 'a::len word" where
  "from_le_bytes [] = 0"
| "from_le_bytes (b # bs) = ucast b OR push_bit 8 (from_le_bytes bs)"

definition from_be_bytes :: "bytes \<Rightarrow> 'a::len word" where
  "from_be_bytes bs = from_le_bytes (rev bs)"

lemma length_to_be_bytes [simp]: "length (to_be_bytes n w) = n"
  by (simp add: to_be_bytes_def)

lemma length_to_le_bytes [simp]: "length (to_le_bytes n w) = n"
  by (simp add: to_le_bytes_def)

lemma to_le_bytes_Suc:
  "to_le_bytes (Suc n) w = ucast w # to_le_bytes n (drop_bit 8 w)"
  unfolding to_le_bytes_def
  by (simp add: upt_conv_Cons map_Suc_upt [symmetric] del: upt_Suc map_Suc_upt)
     (simp add: comp_def drop_bit_drop_bit add.commute)

lemma rev_to_be_bytes [simp]: "rev (to_be_bytes n w) = to_le_bytes n w"
  by (rule nth_equalityI) (auto simp: to_be_bytes_def to_le_bytes_def rev_nth)

lemma bit_from_to_le_bytes:
  fixes w :: "'a::len word"
  shows "bit (from_le_bytes (to_le_bytes n w) :: 'a word) i \<longleftrightarrow> bit w i \<and> i < 8 * n"
proof (induction n arbitrary: w i)
  case 0
  then show ?case by (simp add: to_le_bytes_def)
next
  case (Suc n)
  have len: "bit w i \<Longrightarrow> i < LENGTH('a)" by (rule bit_imp_le_length)
  show ?case
  proof (cases "i < 8")
    case True
    then show ?thesis using len by (auto simp: to_le_bytes_Suc bit_simps)
  next
    case False
    then show ?thesis using len by (auto simp: to_le_bytes_Suc bit_simps Suc.IH)
  qed
qed

lemma from_to_le_bytes [simp]:
  fixes w :: "'a::len word"
  assumes "LENGTH('a) \<le> 8 * n"
  shows "from_le_bytes (to_le_bytes n w) = w"
  using assms by (auto intro!: bit_word_eqI simp: bit_from_to_le_bytes)

lemma from_to_be_bytes [simp]:
  fixes w :: "'a::len word"
  assumes "LENGTH('a) \<le> 8 * n"
  shows "from_be_bytes (to_be_bytes n w) = w"
  using assms by (simp add: from_be_bytes_def)

subsection \<open>Bits and bounds of words\<close>

declare push_bit_Suc [simp del]

lemma bit_bound: "unat w < 2 ^ n \<Longrightarrow> bit w i \<Longrightarrow> i < n"
proof (rule ccontr)
  assume w: "unat w < 2 ^ n" and b: "bit w i" and "\<not> i < n"
  then have "(2::nat) ^ n \<le> 2 ^ i" by simp
  with w have "unat w div 2 ^ i = 0" by (meson div_less less_le_trans)
  moreover have "odd (unat w div 2 ^ i)"
    using b by (simp flip: bit_iff_odd add: bit_unsigned_iff bit_imp_le_length)
  ultimately show False by simp
qed

lemma less_exp_iff_unat: "n < LENGTH('a) \<Longrightarrow> (w :: 'a::len word) < 2 ^ n \<longleftrightarrow> unat w < 2 ^ n"
proof -
  assume n: "n < LENGTH('a)"
  have "uint w < 2 ^ n \<longleftrightarrow> int (unat w) < int (2 ^ n)" by simp
  then show ?thesis using word_2p_lem [of n w] n by (simp only: word_size of_nat_less_iff)
qed

lemma unat_drop_bit_div: "unat (drop_bit n w) = unat w div 2 ^ n"
  by (subst unat_drop_bit_eq) (rule drop_bit_eq_div)

lemma unat_less_exp_bits:
  fixes w :: "'a::len word"
  assumes "\<And>i. bit w i \<Longrightarrow> i < n"
  shows "unat w < 2 ^ n"
proof -
  have "drop_bit n w = 0"
    using assms by (intro bit_word_eqI) (auto simp: bit_simps)
  then have "unat w div 2 ^ n = 0" by (simp flip: unat_drop_bit_div)
  then show ?thesis by (simp add: div_eq_0_iff)
qed

text \<open>The number of significant bits of an integer (its width less \<open>leading_zeros()\<close>).\<close>

fun bit_len :: "nat \<Rightarrow> nat" where
  "bit_len n = (if n = 0 then 0 else Suc (bit_len (n div 2)))"

declare bit_len.simps [simp del]

lemma bit_len_le: "n < 2 ^ k \<Longrightarrow> bit_len n \<le> k"
proof (induction n arbitrary: k rule: bit_len.induct)
  case (1 n)
  show ?case
  proof (cases "n = 0")
    case False
    with 1 obtain k' where "k = Suc k'" by (cases k) auto
    with 1 False show ?thesis by (subst bit_len.simps) simp
  qed (simp add: bit_len.simps)
qed

lemma less_exp_bit_len: "n < 2 ^ bit_len n"
proof (induction n rule: bit_len.induct)
  case (1 n)
  show ?case
  proof (cases "n = 0")
    case False
    then have "n div 2 < 2 ^ bit_len (n div 2)" by (rule 1)
    then show ?thesis using False by (subst bit_len.simps) simp
  qed simp
qed

lemma bit_len_le_iff: "bit_len n \<le> k \<longleftrightarrow> n < 2 ^ k"
proof
  assume "bit_len n \<le> k"
  then have "(2::nat) ^ bit_len n \<le> 2 ^ k" by simp
  with less_exp_bit_len [of n] show "n < 2 ^ k" by linarith
qed (rule bit_len_le)

subsection \<open>Generic list lemmas\<close>

lemma take_append_length [simp]: "take (length xs) (xs @ ys) = xs"
  by simp

lemma drop_append_length [simp]: "drop (length xs) (xs @ ys) = ys"
  by simp

lemma take_drop_mid: "n = length xs \<Longrightarrow> m = length ys \<Longrightarrow> take m (drop n (xs @ ys @ zs)) = ys"
  by simp

subsection \<open>Vectors\<close>

text \<open>
  \<open>slicesutil::set_length\<close>: shrinking drops the tail, growing appends \<open>T::default()\<close>, which is
  zero for the integer vectors it is used on.
\<close>

definition set_length :: "'a::zero list \<Rightarrow> nat \<Rightarrow> 'a list" where
  "set_length a new_len = take new_len a @ replicate (new_len - length a) 0"

lemma length_set_length [simp]: "length (set_length a n) = n"
  by (simp add: set_length_def)

lemma set_length_Nil [simp]: "set_length [] n = replicate n 0"
  by (simp add: set_length_def)

text \<open>\<open>usize::div_ceil\<close>.\<close>

definition div_ceil :: "nat \<Rightarrow> nat \<Rightarrow> nat" where
  "div_ceil n d = n div d + (if n mod d > 0 then 1 else 0)"

lemma div_ceil_mult: "0 < d \<Longrightarrow> n \<le> d * div_ceil n d"
proof -
  assume "0 < d"
  then have m: "n mod d < d" and n: "d * (n div d) + n mod d = n" by simp_all
  show ?thesis
  proof (cases "n mod d = 0")
    case False
    then have "d * div_ceil n d = d * (n div d) + d" by (simp add: div_ceil_def)
    with m n show ?thesis by linarith
  qed (use n in \<open>auto simp: div_ceil_def\<close>)
qed

lemma div_ceil_least: "0 < d \<Longrightarrow> n \<le> d * k \<Longrightarrow> div_ceil n d \<le> k"
proof -
  assume d: "0 < d" and n: "n \<le> d * k"
  show ?thesis
  proof (cases "n mod d = 0")
    case True
    have "n div d \<le> k" using n d by (metis div_le_mono nonzero_mult_div_cancel_left not_less_zero)
    with True show ?thesis by (simp add: div_ceil_def)
  next
    case False
    have "n div d < k"
    proof (rule ccontr)
      assume "\<not> n div d < k"
      then have "d * k \<le> d * (n div d)" by simp
      with n False mult_div_mod_eq [of d n] show False by linarith
    qed
    then show ?thesis by (simp add: div_ceil_def)
  qed
qed

lemma div_mod_less_iff:
  "(k :: nat) < n \<longleftrightarrow> k div d < n div d \<or> (k div d = n div d \<and> k mod d < n mod d)"
proof (cases "k div d" "n div d" rule: linorder_cases)
  case less
  then have "\<not> n \<le> k" using div_le_mono [of n k d] by auto
  with less show ?thesis by simp
next
  case equal
  have "k = d * (n div d) + k mod d" by (simp flip: equal)
  moreover have "n = d * (n div d) + n mod d" by simp
  ultimately have "k < n \<longleftrightarrow> k mod d < n mod d" by (metis nat_add_left_cancel_less)
  with equal show ?thesis by simp
next
  case greater
  then have "\<not> k \<le> n" using div_le_mono [of k n d] by auto
  with greater show ?thesis by simp
qed

subsection \<open>UTF-8\<close>

text \<open>
  The UTF-8 of the standard library: the first character of a byte string with the number of its
  bytes, and \<open>valid_up_to\<close>, the length of the longest valid prefix.
\<close>

definition cont_byte :: "u8 \<Rightarrow> bool" where
  "cont_byte b \<longleftrightarrow> 128 \<le> b \<and> b < 192"

definition low6 :: "u8 \<Rightarrow> nat" where
  "low6 b = unat (b AND 63)"

definition utf8_first :: "bytes \<Rightarrow> (nat \<times> nat) option" where
  "utf8_first b =
    (case b of
       [] \<Rightarrow> None
     | b0 # r0 \<Rightarrow>
        if b0 < 128 then Some (unat b0, 1)
        else case r0 of
          [] \<Rightarrow> None
        | b1 # r1 \<Rightarrow>
           if 194 \<le> b0 \<and> b0 < 224 then
             (if cont_byte b1 then Some (unat (b0 AND 31) * 64 + low6 b1, 2) else None)
           else case r1 of
             [] \<Rightarrow> None
           | b2 # r2 \<Rightarrow>
              if 224 \<le> b0 \<and> b0 < 240 then
                (if cont_byte b1 \<and> cont_byte b2 \<and> (b0 = 224 \<longrightarrow> 160 \<le> b1) \<and> (b0 = 237 \<longrightarrow> b1 < 160) then
                   Some (unat (b0 AND 15) * 4096 + low6 b1 * 64 + low6 b2, 3)
                 else None)
              else case r2 of
                [] \<Rightarrow> None
              | b3 # r3 \<Rightarrow>
                 if 240 \<le> b0 \<and> b0 < 245 \<and> cont_byte b1 \<and> cont_byte b2 \<and> cont_byte b3 \<and>
                    (b0 = 240 \<longrightarrow> 144 \<le> b1) \<and> (b0 = 244 \<longrightarrow> b1 < 144) then
                   Some (unat (b0 AND 7) * 262144 + low6 b1 * 4096 + low6 b2 * 64 + low6 b3, 4)
                 else None)"

lemma utf8_first_size: "utf8_first b = Some (c, k) \<Longrightarrow> 0 < k \<and> k \<le> length b \<and> k \<le> 4"
  by (auto simp: utf8_first_def split: list.splits if_splits)

function valid_up_to :: "bytes \<Rightarrow> nat" where
  "valid_up_to s = (case utf8_first s of None \<Rightarrow> 0 | Some (_, k) \<Rightarrow> k + valid_up_to (drop k s))"
  by pat_completeness auto
termination
  by (relation "measure length") (auto dest!: utf8_first_size)

declare valid_up_to.simps [simp del]

text \<open>\<open>str::from_utf8\<close> succeeds.\<close>

definition is_utf8 :: "bytes \<Rightarrow> bool" where
  "is_utf8 s \<longleftrightarrow> valid_up_to s = length s"

lemma is_utf8_ascii: "\<forall>b \<in> set s. b < 128 \<Longrightarrow> is_utf8 s"
proof (induction s)
  case Nil
  then show ?case by (simp add: is_utf8_def valid_up_to.simps utf8_first_def)
next
  case (Cons b s)
  then have "valid_up_to s = length s" by (simp add: is_utf8_def)
  with Cons.prems show ?case
    by (subst is_utf8_def, subst valid_up_to.simps) (simp add: utf8_first_def)
qed

end
