(* ===== verification/Codec_Spec.thy ===== *)
theory Codec_Spec
  imports Prelude
begin

text \<open>
  The contract of a self-delimiting codec, as every marshal/unmarshal pair of the storage engine
  promises it: decoding an encoded value followed by any bytes gives the value back and leaves
  exactly those bytes. A client that concatenates encodings relies on this contract only. The
  locale \<open>codec\<close> states it; \<open>codec_progress\<close> adds that a decoder always consumes bytes, which is
  what the loops that decode until the source is empty need in order to stop.
\<close>

text \<open>Decoding \<open>n\<close> consecutive values, and decoding until the source is empty.\<close>

primrec dec_n :: "(bytes \<Rightarrow> ('a \<times> bytes) option) \<Rightarrow> nat \<Rightarrow> bytes \<Rightarrow> ('a list \<times> bytes) option" where
  "dec_n dec 0 src = Some ([], src)"
| "dec_n dec (Suc n) src =
    (case dec src of
       None \<Rightarrow> None
     | Some (x, tail) \<Rightarrow>
        (case dec_n dec n tail of None \<Rightarrow> None | Some (xs, tail') \<Rightarrow> Some (x # xs, tail')))"

locale codec =
  fixes enc :: "'a \<Rightarrow> bytes"
    and dec :: "bytes \<Rightarrow> ('a \<times> bytes) option"
    and valid :: "'a \<Rightarrow> bool"
  assumes dec_enc: "valid x \<Longrightarrow> dec (enc x @ rest) = Some (x, rest)"
begin

lemma enc_prefix_free:
  assumes "valid x" "valid y" "enc x @ r = enc y @ s"
  shows "x = y \<and> r = s"
proof -
  have "Some (x, r) = dec (enc x @ r)" by (rule dec_enc [OF assms(1), symmetric])
  also have "\<dots> = Some (y, s)" unfolding assms(3) by (rule dec_enc [OF assms(2)])
  finally show ?thesis by simp
qed

lemma enc_inj_on: "inj_on enc (Collect valid)"
proof (rule inj_onI)
  fix x y assume "x \<in> Collect valid" "y \<in> Collect valid" "enc x = enc y"
  then show "x = y" using enc_prefix_free [of x y "[]" "[]"] by simp
qed

lemma dec_n_concat:
  assumes "\<forall>x \<in> set xs. valid x"
  shows "dec_n dec (length xs) (concat (map enc xs) @ rest) = Some (xs, rest)"
  using assms by (induction xs) (simp_all add: dec_enc)

lemma concat_enc_prefix_free:
  assumes "\<forall>x \<in> set xs. valid x" "\<forall>y \<in> set ys. valid y" "length xs = length ys"
    and "concat (map enc xs) @ r = concat (map enc ys) @ s"
  shows "xs = ys \<and> r = s"
proof -
  have "Some (xs, r) = dec_n dec (length xs) (concat (map enc xs) @ r)"
    by (rule dec_n_concat [OF assms(1), symmetric])
  also have "\<dots> = Some (ys, s)"
    unfolding assms(3,4) by (rule dec_n_concat [OF assms(2)])
  finally show ?thesis by simp
qed

end

locale codec_progress = codec +
  assumes dec_shrinks: "dec src = Some (x, tail) \<Longrightarrow> length tail < length src"
begin

lemma enc_nonempty: "valid x \<Longrightarrow> enc x \<noteq> []"
  using dec_enc [of x "[]"] dec_shrinks [of "enc x"] by force

lemma length_concat_enc:
  assumes "\<forall>x \<in> set xs. valid x"
  shows "length xs \<le> length (concat (map enc xs))"
  using assms
proof (induction xs)
  case (Cons x xs)
  then have "0 < length (enc x)" using enc_nonempty by simp
  with Cons show ?case by (simp del: length_greater_0_conv)
qed simp

end

end
