(* ===== verification/Int_Encoding.thy ===== *)
theory Int_Encoding
  imports Codec_Spec
begin

text \<open>
  The integer codecs of \<^verbatim>\<open>esl-common/src/encoding.rs\<close> (section \<open>int.go\<close>): fixed-width
  big-endian integers, zig-zag integers, variable-length integers with their single-value and
  batch versions, booleans and length-prefixed byte strings. The batch encoders and decoders
  have a fast path (every value in one byte) and a slow path; the decoders walk the source with
  an index, as the code does. The lemmas relate every encoder to the reference encoding
  \<open>varint_bytes\<close>, every decoder to \<open>uvarint\<close>, and close the round trips.
\<close>

unbundle bit_operations_syntax

subsection \<open>Definitions: fixed-width integers\<close>

definition marshal_uint16 :: "bytes \<Rightarrow> u16 \<Rightarrow> bytes" where
  "marshal_uint16 dst u = dst @ to_be_bytes 2 u"

definition unmarshal_uint16 :: "bytes \<Rightarrow> (u16, 'e) outcome" where
  "unmarshal_uint16 src = (if length src < 2 then Panic else Ok (from_be_bytes (take 2 src)))"

definition marshal_uint32 :: "bytes \<Rightarrow> u32 \<Rightarrow> bytes" where
  "marshal_uint32 dst u = dst @ to_be_bytes 4 u"

definition unmarshal_uint32 :: "bytes \<Rightarrow> (u32, 'e) outcome" where
  "unmarshal_uint32 src = (if length src < 4 then Panic else Ok (from_be_bytes (take 4 src)))"

definition marshal_uint64 :: "bytes \<Rightarrow> u64 \<Rightarrow> bytes" where
  "marshal_uint64 dst u = dst @ to_be_bytes 8 u"

definition unmarshal_uint64 :: "bytes \<Rightarrow> (u64, 'e) outcome" where
  "unmarshal_uint64 src = (if length src < 8 then Panic else Ok (from_be_bytes (take 8 src)))"

text \<open>Zig-zag encoding: \<open>v.wrapping_shl(1) ^ (v >> 15)\<close> and its inverse, at 16, 64 and 8 bits.\<close>

definition marshal_int16 :: "bytes \<Rightarrow> i16 \<Rightarrow> bytes" where
  "marshal_int16 dst v = dst @ to_be_bytes 2 (push_bit 1 v XOR signed_drop_bit 15 v)"

definition unmarshal_int16 :: "bytes \<Rightarrow> (i16, 'e) outcome" where
  "unmarshal_int16 src = (if length src < 2 then Panic else
     (let u = from_be_bytes (take 2 src) :: u16
      in Ok (drop_bit 1 u XOR signed_drop_bit 15 (push_bit 15 u))))"

definition zigzag :: "i64 \<Rightarrow> u64" where
  "zigzag v = push_bit 1 v XOR signed_drop_bit 63 v"

definition unzigzag :: "u64 \<Rightarrow> i64" where
  "unzigzag u = drop_bit 1 u XOR signed_drop_bit 63 (push_bit 63 u)"

definition marshal_int64 :: "bytes \<Rightarrow> i64 \<Rightarrow> bytes" where
  "marshal_int64 dst v = dst @ to_be_bytes 8 (zigzag v)"

definition unmarshal_int64 :: "bytes \<Rightarrow> (i64, 'e) outcome" where
  "unmarshal_int64 src = (if length src < 8 then Panic
     else Ok (unzigzag (from_be_bytes (take 8 src))))"

definition marshal_bool :: "bytes \<Rightarrow> bool \<Rightarrow> bytes" where
  "marshal_bool dst v = dst @ [if v then 1 else 0]"

definition unmarshal_bool :: "bytes \<Rightarrow> (bool, 'e) outcome" where
  "unmarshal_bool src = (case src of [] \<Rightarrow> Panic | b # _ \<Rightarrow> Ok (b \<noteq> 0))"

subsection \<open>Definitions: variable-length integers\<close>

text \<open>
  \<open>cont u k\<close> is \<open>((u >> (k * 7)) | 0x80) as u8\<close>, \<open>lastb u k\<close> is \<open>(u >> (k * 7)) as u8\<close>: the
  two byte expressions of the branch chains.
\<close>

definition cont :: "u64 \<Rightarrow> nat \<Rightarrow> u8" where
  "cont u k = ucast (drop_bit (k * 7) u OR 0x80)"

definition lastb :: "u64 \<Rightarrow> nat \<Rightarrow> u8" where
  "lastb u k = ucast (drop_bit (k * 7) u)"

definition write_var_uint64_slow :: "bytes \<Rightarrow> u64 \<Rightarrow> bytes" where
  "write_var_uint64_slow dst u =
    (if u < 2 ^ 7 then dst @ [ucast u]
     else if u < 2 ^ (2 * 7) then dst @ [cont u 0, lastb u 1]
     else if u < 2 ^ (3 * 7) then dst @ [cont u 0, cont u 1, lastb u 2]
     else if u \<ge> 2 ^ (8 * 7) then
       (if u < 2 ^ (9 * 7) then
          dst @ [cont u 0, cont u 1, cont u 2, cont u 3, cont u 4, cont u 5, cont u 6, cont u 7,
                 lastb u 8]
        else
          dst @ [cont u 0, cont u 1, cont u 2, cont u 3, cont u 4, cont u 5, cont u 6, cont u 7,
                 cont u 8, 1])
     else if u < 2 ^ (4 * 7) then dst @ [cont u 0, cont u 1, cont u 2, lastb u 3]
     else if u < 2 ^ (5 * 7) then dst @ [cont u 0, cont u 1, cont u 2, cont u 3, lastb u 4]
     else if u < 2 ^ (6 * 7) then
       dst @ [cont u 0, cont u 1, cont u 2, cont u 3, cont u 4, lastb u 5]
     else if u < 2 ^ (7 * 7) then
       dst @ [cont u 0, cont u 1, cont u 2, cont u 3, cont u 4, cont u 5, lastb u 6]
     else
       dst @ [cont u 0, cont u 1, cont u 2, cont u 3, cont u 4, cont u 5, cont u 6, lastb u 7])"

definition marshal_var_uint64 :: "bytes \<Rightarrow> u64 \<Rightarrow> bytes" where
  "marshal_var_uint64 dst u =
    (if u < 2 ^ 7 then dst @ [ucast u]
     else if u < 2 ^ (2 * 7) then dst @ [cont u 0, lastb u 1]
     else if u < 2 ^ (3 * 7) then dst @ [cont u 0, cont u 1, lastb u 2]
     else write_var_uint64_slow dst u)"

primrec marshal_var_uint64s_slow :: "bytes \<Rightarrow> u64 list \<Rightarrow> bytes" where
  "marshal_var_uint64s_slow dst [] = dst"
| "marshal_var_uint64s_slow dst (u # us) = marshal_var_uint64s_slow (write_var_uint64_slow dst u) us"

text \<open>
  The fast loop: \<open>None\<close> when it meets a value of more than one byte; the caller then truncates
  \<open>dst\<close> to its original length and takes the slow path over the whole slice.
\<close>

primrec marshal_var_uint64s_fast :: "bytes \<Rightarrow> u64 list \<Rightarrow> bytes option" where
  "marshal_var_uint64s_fast dst [] = Some dst"
| "marshal_var_uint64s_fast dst (u # us) =
    (if u \<ge> 2 ^ 7 then None else marshal_var_uint64s_fast (dst @ [ucast u]) us)"

definition marshal_var_uint64s :: "bytes \<Rightarrow> u64 list \<Rightarrow> bytes" where
  "marshal_var_uint64s dst us =
    (case marshal_var_uint64s_fast dst us of
       Some dst' \<Rightarrow> dst'
     | None \<Rightarrow> marshal_var_uint64s_slow dst us)"

definition marshal_var_int64 :: "bytes \<Rightarrow> i64 \<Rightarrow> bytes" where
  "marshal_var_int64 dst v =
    (let u = zigzag v in
     if v <s 2 ^ 6 \<and> - (2 ^ 6) <s v then dst @ [ucast u]
     else if u < 2 ^ (2 * 7) then dst @ [cont u 0, lastb u 1]
     else if u < 2 ^ (3 * 7) then dst @ [cont u 0, cont u 1, lastb u 2]
     else write_var_uint64_slow dst u)"

primrec marshal_var_int64s_slow :: "bytes \<Rightarrow> i64 list \<Rightarrow> bytes" where
  "marshal_var_int64s_slow dst [] = dst"
| "marshal_var_int64s_slow dst (v # vs) =
    marshal_var_int64s_slow (write_var_uint64_slow dst (zigzag v)) vs"

primrec marshal_var_int64s_fast :: "bytes \<Rightarrow> i64 list \<Rightarrow> bytes option" where
  "marshal_var_int64s_fast dst [] = Some dst"
| "marshal_var_int64s_fast dst (v # vs) =
    (if 2 ^ 6 \<le>s v \<or> v \<le>s - (2 ^ 6) then None
     else marshal_var_int64s_fast (dst @ [ucast (zigzag v)]) vs)"

definition marshal_var_int64s :: "bytes \<Rightarrow> i64 list \<Rightarrow> bytes" where
  "marshal_var_int64s dst vs =
    (case marshal_var_int64s_fast dst vs of
       Some dst' \<Rightarrow> dst'
     | None \<Rightarrow> marshal_var_int64s_slow dst vs)"

text \<open>\<open>uvarint\<close>: the loop over the bytes with its index \<open>i\<close>, accumulator \<open>x\<close> and shift \<open>s\<close>.\<close>

primrec uvarint_loop :: "bytes \<Rightarrow> nat \<Rightarrow> u64 \<Rightarrow> nat \<Rightarrow> u64 \<times> int" where
  "uvarint_loop [] i x s = (0, 0)"
| "uvarint_loop (b # bs) i x s =
    (if i = 10 then (0, - (int i + 1))
     else if b < 0x80 then
       (if i = 10 - 1 \<and> b > 1 then (0, - (int i + 1))
        else (x OR push_bit s (ucast b), int i + 1))
     else uvarint_loop bs (i + 1) (x OR push_bit s (ucast (b AND 0x7f))) (s + 7))"

definition uvarint :: "bytes \<Rightarrow> u64 \<times> int" where
  "uvarint buf = uvarint_loop buf 0 0 0"

definition unmarshal_var_uint64 :: "bytes \<Rightarrow> u64 \<times> int" where
  "unmarshal_var_uint64 src =
    (case src of
       [] \<Rightarrow> (0, 0)
     | c # src' \<Rightarrow>
         if c < 0x80 then (ucast c, 1)
         else (case src' of
             [] \<Rightarrow> (0, 0)
           | d # _ \<Rightarrow> if d < 0x80 then (ucast (c AND 0x7f) OR push_bit 7 (ucast d), 2)
                     else uvarint src))"

definition unmarshal_var_int64 :: "bytes \<Rightarrow> i64 \<times> int" where
  "unmarshal_var_int64 src = (let (u, n_size) = uvarint src in (unzigzag u, n_size))"

text \<open>Errors of the decoders; the payload is what the message prints besides the source bytes.\<close>

datatype varint_error =
    TooSmallSrc nat nat
  | EmptyVarint
  | UnexpectedEnd nat
  | UnexpectedEndTail
  | TooBig
  | TooLong nat

text \<open>The scan of \<open>unmarshal_var_uint64_tail\<close> for the final byte: the index after it.\<close>

function varint_end :: "bytes \<Rightarrow> nat \<Rightarrow> nat option" where
  "varint_end src idx =
    (if idx \<ge> length src then None
     else if src ! idx < 0x80 then Some (idx + 1)
     else varint_end src (idx + 1))"
  by pat_completeness auto
termination
  by (relation "measure (\<lambda>(src, idx). length src - idx)") auto

declare varint_end.simps [simp del]

text \<open>\<open>grp b k\<close> is \<open>((b & 0x7f) as u64) << (k * 7)\<close> and \<open>fin b k\<close> is \<open>(b as u64) << (k * 7)\<close>.\<close>

definition grp :: "u8 \<Rightarrow> nat \<Rightarrow> u64" where
  "grp b k = push_bit (k * 7) (ucast (b AND 0x7f))"

definition fin :: "u8 \<Rightarrow> nat \<Rightarrow> u64" where
  "fin b k = push_bit (k * 7) (ucast b)"

definition unmarshal_var_uint64_tail ::
    "bytes \<Rightarrow> nat \<Rightarrow> u64 \<Rightarrow> (u64 \<times> nat, varint_error) outcome" where
  "unmarshal_var_uint64_tail src j u =
    (case varint_end src j of
       None \<Rightarrow> Err UnexpectedEndTail
     | Some idx \<Rightarrow>
        (let b = (\<lambda>i. src ! (j + i)); n = idx - j in
         if n = 1 then Ok (u OR fin (b 0) 3, idx)
         else if n = 2 then Ok (u OR (grp (b 0) 3 OR fin (b 1) 4), idx)
         else if n = 3 then Ok (u OR (grp (b 0) 3 OR grp (b 1) 4 OR fin (b 2) 5), idx)
         else if n = 4 then
           Ok (u OR (grp (b 0) 3 OR grp (b 1) 4 OR grp (b 2) 5 OR fin (b 3) 6), idx)
         else if n = 5 then
           Ok (u OR (grp (b 0) 3 OR grp (b 1) 4 OR grp (b 2) 5 OR grp (b 3) 6 OR fin (b 4) 7), idx)
         else if n = 6 then
           Ok (u OR (grp (b 0) 3 OR grp (b 1) 4 OR grp (b 2) 5 OR grp (b 3) 6 OR grp (b 4) 7
                 OR fin (b 5) 8), idx)
         else if n = 7 then
           (if b 6 > 1 then Err TooBig
            else Ok (u OR (grp (b 0) 3 OR grp (b 1) 4 OR grp (b 2) 5 OR grp (b 3) 6 OR grp (b 4) 7
                     OR grp (b 5) 8 OR push_bit (9 * 7) 1), idx))
         else Err (TooLong (n + 3))))"

text \<open>
  One iteration of the slow batch decoders: the raw 64-bit value at \<open>idx\<close> and the next index.
  The signed decoder reads a one-byte value with 8-bit arithmetic, the others with \<open>unzigzag\<close>.
\<close>

definition unmarshal_var_step :: "bytes \<Rightarrow> nat \<Rightarrow> (u64 \<times> nat, varint_error) outcome" where
  "unmarshal_var_step src idx =
    (if idx \<ge> length src then Err EmptyVarint
     else let c = src ! idx in
       if c < 0x80 then Ok (ucast c, idx + 1)
       else if idx + 1 \<ge> length src then Err (UnexpectedEnd 1)
       else let d = src ! (idx + 1) in
         if d < 0x80 then Ok (ucast (c AND 0x7f) OR push_bit 7 (ucast d), idx + 2)
         else if idx + 2 \<ge> length src then Err (UnexpectedEnd 2)
         else let e = src ! (idx + 2) in
           if e < 0x80 then
             Ok (ucast (c AND 0x7f) OR push_bit 7 (ucast (d AND 0x7f)) OR fin e 2, idx + 3)
           else unmarshal_var_uint64_tail src (idx + 3)
                  (ucast (c AND 0x7f) OR push_bit 7 (ucast (d AND 0x7f)) OR grp e 2))"

primrec unmarshal_var_uint64s_slow ::
    "nat \<Rightarrow> bytes \<Rightarrow> nat \<Rightarrow> (u64 list \<times> nat, varint_error) outcome" where
  "unmarshal_var_uint64s_slow 0 src idx = Ok ([], idx)"
| "unmarshal_var_uint64s_slow (Suc n) src idx =
    obind (unmarshal_var_step src idx) (\<lambda>(u, idx').
      obind (unmarshal_var_uint64s_slow n src idx') (\<lambda>(us, idx''). Ok (u # us, idx'')))"

text \<open>\<open>(((c >> 1) as i8) ^ (((c << 7) as i8) >> 7)) as i64\<close>: sign-extending 8-bit zig-zag.\<close>

definition unzigzag8 :: "u8 \<Rightarrow> i64" where
  "unzigzag8 c = scast (drop_bit 1 c XOR signed_drop_bit 7 (push_bit 7 c))"

definition unmarshal_var_int_step :: "bytes \<Rightarrow> nat \<Rightarrow> (i64 \<times> nat, varint_error) outcome" where
  "unmarshal_var_int_step src idx =
    (if idx < length src \<and> src ! idx < 0x80 then Ok (unzigzag8 (src ! idx), idx + 1)
     else obind (unmarshal_var_step src idx) (\<lambda>(u, idx'). Ok (unzigzag u, idx')))"

primrec unmarshal_var_int64s_slow ::
    "nat \<Rightarrow> bytes \<Rightarrow> nat \<Rightarrow> (i64 list \<times> nat, varint_error) outcome" where
  "unmarshal_var_int64s_slow 0 src idx = Ok ([], idx)"
| "unmarshal_var_int64s_slow (Suc n) src idx =
    obind (unmarshal_var_int_step src idx) (\<lambda>(v, idx').
      obind (unmarshal_var_int64s_slow n src idx') (\<lambda>(vs, idx''). Ok (v # vs, idx'')))"

text \<open>
  \<open>unmarshal_var_uint64s\<close> and \<open>unmarshal_var_int64s\<close> fill a slice of \<open>n\<close> elements and return the
  tail: the model returns both. The fast path applies when the first \<open>n\<close> bytes are below \<open>0x80\<close>.
\<close>

definition unmarshal_var_uint64s ::
    "nat \<Rightarrow> bytes \<Rightarrow> (u64 list \<times> bytes, varint_error) outcome" where
  "unmarshal_var_uint64s n src =
    (if length src < n then Err (TooSmallSrc (length src) n)
     else if \<exists>c \<in> set (take n src). c \<ge> 0x80 then
       obind (unmarshal_var_uint64s_slow n src 0) (\<lambda>(us, idx). Ok (us, drop idx src))
     else Ok (map ucast (take n src), drop n src))"

definition unmarshal_var_int64s ::
    "nat \<Rightarrow> bytes \<Rightarrow> (i64 list \<times> bytes, varint_error) outcome" where
  "unmarshal_var_int64s n src =
    (if length src < n then Err (TooSmallSrc (length src) n)
     else if \<exists>c \<in> set (take n src). c \<ge> 0x80 then
       obind (unmarshal_var_int64s_slow n src 0) (\<lambda>(vs, idx). Ok (vs, drop idx src))
     else Ok (map unzigzag8 (take n src), drop n src))"

definition marshal_bytes :: "bytes \<Rightarrow> bytes \<Rightarrow> bytes" where
  "marshal_bytes dst b = marshal_var_uint64 dst (of_nat (length b)) @ b"

definition unmarshal_bytes :: "bytes \<Rightarrow> bytes option \<times> int" where
  "unmarshal_bytes src =
    (let (n, n_size) = unmarshal_var_uint64 src in
     if n_size \<le> 0 then (None, 0)
     else let start = nat n_size in
       if unat n > length src - start then (None, 0)
       else let stop = start + unat n in (Some (take (unat n) (drop start src)), int stop))"


subsection \<open>Zig-zag\<close>

lemma unzigzag_zigzag [simp]: "unzigzag (zigzag v) = v"
proof (rule bit_word_eqI)
  fix n assume "n < LENGTH(64)"
  then show "bit (unzigzag (zigzag v)) n = bit v n"
    by (cases "n = 63") (auto simp: zigzag_def unzigzag_def bit_simps dest: bit_imp_le_length)
qed

lemma zigzag_unzigzag [simp]: "zigzag (unzigzag u) = u"
proof (rule bit_word_eqI)
  fix n assume "n < LENGTH(64)"
  then show "bit (zigzag (unzigzag u)) n = bit u n"
    by (cases n) (auto simp: zigzag_def unzigzag_def bit_simps dest: bit_imp_le_length)
qed

lemma zigzag16:
  "drop_bit 1 (push_bit 1 v XOR signed_drop_bit 15 v) XOR
     signed_drop_bit 15 (push_bit 15 (push_bit 1 v XOR signed_drop_bit 15 v)) = (v :: i16)"
proof (rule bit_word_eqI)
  fix n assume "n < LENGTH(16)"
  then show "bit (drop_bit 1 (push_bit 1 v XOR signed_drop_bit 15 v) XOR
     signed_drop_bit 15 (push_bit 15 (push_bit 1 v XOR signed_drop_bit 15 v))) n = bit v n"
    by (cases "n = 15") (auto simp: bit_simps dest: bit_imp_le_length)
qed

text \<open>A one-byte zig-zag value reads the same at 8 and at 64 bits.\<close>

lemma u8_small_bits: "(c::u8) < 0x80 \<Longrightarrow> bit c i \<Longrightarrow> i < 7"
  using bit_bound [of c 7 i] by (simp add: word_less_nat_alt)

lemma unzigzag8_eq: "c < 0x80 \<Longrightarrow> unzigzag8 c = unzigzag (ucast c)"
proof (rule bit_word_eqI)
  fix n assume c: "c < 0x80" and n: "n < LENGTH(64)"
  have "\<And>i. bit c i \<Longrightarrow> i < 7" using c by (rule u8_small_bits)
  then have "\<not> bit c 7" "\<And>i. 7 \<le> i \<Longrightarrow> \<not> bit c i" by fastforce+
  then show "bit (unzigzag8 c) n = bit (unzigzag (ucast c)) n"
    using n by (auto simp: unzigzag8_def unzigzag_def bit_simps min_def)
qed

subsection \<open>The reference encoding\<close>

lemma drop_bit_less: "0x80 \<le> (u::u64) \<Longrightarrow> unat (drop_bit 7 u) < unat u"
  by (simp add: unat_drop_bit_div word_le_nat_alt)

function varint_bytes :: "u64 \<Rightarrow> bytes" where
  "varint_bytes u =
    (if u < 0x80 then [ucast u] else ucast (u OR 0x80) # varint_bytes (drop_bit 7 u))"
  by pat_completeness auto
termination
  by (relation "measure unat") (auto simp: drop_bit_less not_less)

declare varint_bytes.simps [simp del]

lemma drop_bit_less_iff: "drop_bit n (u::u64) < 0x80 \<longleftrightarrow> unat u < 2 ^ (n + 7)"
  by (simp add: word_less_nat_alt unat_drop_bit_div div_less_iff_less_mult power_add mult.commute)

lemma varint_bytes_drop:
  "varint_bytes (drop_bit (k * 7) u) =
    (if unat u < 2 ^ (Suc k * 7) then [lastb u k]
     else cont u k # varint_bytes (drop_bit (Suc k * 7) u))"
  by (subst varint_bytes.simps)
     (simp add: drop_bit_less_iff lastb_def cont_def drop_bit_drop_bit add.commute)

lemma lastb_top: "\<not> unat u < 2 ^ 63 \<Longrightarrow> lastb u 9 = 1"
proof -
  assume "\<not> unat u < 2 ^ 63"
  moreover have "unat u < 2 ^ 64" using unsigned_less [of u, where ?'a = nat] by simp
  ultimately have "unat u div 2 ^ 63 = 1" by (simp add: div_nat_eqI)
  then have "drop_bit 63 u = 1" by (simp add: word_unat_eq_iff unat_drop_bit_div)
  then show ?thesis by (simp add: lastb_def)
qed

lemma unat_u64_bound: "unat (u::u64) < 2 ^ 70"
  using unsigned_less [of u, where ?'a = nat] by simp

lemma varint_bytes_unfold:
  "varint_bytes u =
    (if unat u < 2 ^ (1 * 7) then [lastb u 0] else cont u 0 #
    (if unat u < 2 ^ (2 * 7) then [lastb u 1] else cont u 1 #
    (if unat u < 2 ^ (3 * 7) then [lastb u 2] else cont u 2 #
    (if unat u < 2 ^ (4 * 7) then [lastb u 3] else cont u 3 #
    (if unat u < 2 ^ (5 * 7) then [lastb u 4] else cont u 4 #
    (if unat u < 2 ^ (6 * 7) then [lastb u 5] else cont u 5 #
    (if unat u < 2 ^ (7 * 7) then [lastb u 6] else cont u 6 #
    (if unat u < 2 ^ (8 * 7) then [lastb u 7] else cont u 7 #
    (if unat u < 2 ^ (9 * 7) then [lastb u 8] else cont u 8 # [lastb u 9])))))))))"
proof -
  have e: "varint_bytes (drop_bit (k * 7) u) =
    (if unat u < 2 ^ (m * 7) then [lastb u k] else cont u k # varint_bytes (drop_bit (m * 7) u))"
    if "m = Suc k" for k m
    using varint_bytes_drop [of k u] that by simp
  have z: "varint_bytes u = varint_bytes (drop_bit (0 * 7) u)" by simp
  have t: "varint_bytes (drop_bit (9 * 7) u) = [lastb u 9]"
    using varint_bytes_drop [of 9 u] unat_u64_bound [of u] by simp
  show ?thesis
    by (subst z, subst e [of 1 0], simp, subst e [of 2 1], simp, subst e [of 3 2], simp,
        subst e [of 4 3], simp, subst e [of 5 4], simp, subst e [of 6 5], simp,
        subst e [of 7 6], simp, subst e [of 8 7], simp, subst e [of 9 8], simp, subst t, rule refl)
qed

lemma u64_size_cases:
  obtains "unat (u::u64) < 2 ^ 7" | "2 ^ 7 \<le> unat u" "unat u < 2 ^ 14"
    | "2 ^ 14 \<le> unat u" "unat u < 2 ^ 21" | "2 ^ 21 \<le> unat u" "unat u < 2 ^ 28"
    | "2 ^ 28 \<le> unat u" "unat u < 2 ^ 35" | "2 ^ 35 \<le> unat u" "unat u < 2 ^ 42"
    | "2 ^ 42 \<le> unat u" "unat u < 2 ^ 49" | "2 ^ 49 \<le> unat u" "unat u < 2 ^ 56"
    | "2 ^ 56 \<le> unat u" "unat u < 2 ^ 63" | "2 ^ 63 \<le> unat u"
  by linarith

lemma write_var_uint64_slow_eq [codec_simps]: "write_var_uint64_slow dst u = dst @ varint_bytes u"
  by (cases rule: u64_size_cases [of u])
     (simp_all add: write_var_uint64_slow_def varint_bytes_unfold word_less_nat_alt word_le_nat_alt
        lastb_def [of u 0] lastb_top)

lemma marshal_var_uint64_eq [codec_simps]: "marshal_var_uint64 dst u = dst @ varint_bytes u"
proof -
  have "marshal_var_uint64 dst u = write_var_uint64_slow dst u"
    by (simp add: marshal_var_uint64_def write_var_uint64_slow_def)
  then show ?thesis by (simp add: write_var_uint64_slow_eq)
qed

lemma varint_bytes_small: "u < 0x80 \<Longrightarrow> varint_bytes u = [ucast u]"
  by (subst varint_bytes.simps) simp

lemma varint_bytes_nonempty [simp]: "varint_bytes u \<noteq> []"
  by (subst varint_bytes.simps) simp

lemma length_varint_bytes_le: "length (varint_bytes u) \<le> 10"
  by (simp add: varint_bytes_unfold)

subsection \<open>Batch encoders equal the concatenation of single encodings\<close>

lemma marshal_var_uint64s_slow_eq:
  "marshal_var_uint64s_slow dst us = dst @ concat (map varint_bytes us)"
  by (induction us arbitrary: dst) (simp_all add: write_var_uint64_slow_eq)

lemma marshal_var_uint64s_fast_eq:
  "marshal_var_uint64s_fast dst us = Some dst' \<Longrightarrow> dst' = dst @ concat (map varint_bytes us)"
  by (induction us arbitrary: dst) (fastforce simp: varint_bytes_small not_le split: if_splits)+

lemma marshal_var_uint64s_eq [codec_simps]:
  "marshal_var_uint64s dst us = dst @ concat (map varint_bytes us)"
  by (auto simp: marshal_var_uint64s_def marshal_var_uint64s_slow_eq
      dest: marshal_var_uint64s_fast_eq split: option.splits)

text \<open>The value of a zig-zag code: \<open>0, -1, 1, -2, ...\<close> become \<open>0, 1, 2, 3, ...\<close>.\<close>

lemma signed_drop_bit_63: "signed_drop_bit 63 (v::i64) = (if sint v < 0 then - 1 else 0)"
proof -
  have "bit v 63 \<longleftrightarrow> sint v < 0" using bit_last_iff [of v] by simp
  show ?thesis
  proof (rule bit_word_eqI)
    fix n assume "n < LENGTH(64)"
    then show "bit (signed_drop_bit 63 v) n = bit (if sint v < 0 then - 1 else (0::i64)) n"
      using \<open>bit v 63 \<longleftrightarrow> sint v < 0\<close>
      by (cases "n = 0") (auto simp: bit_simps dest: bit_imp_le_length)
  qed
qed

lemma len64: "LENGTH(64) = 64"
  by simp

lemma uint_zigzag: "uint (zigzag v) = (if sint v < 0 then - 2 * sint v - 1 else 2 * sint v)"
proof -
  let ?k = "if sint v < 0 then - 2 * sint v - 1 else 2 * sint v"
  have r: "- (2 ^ 63) \<le> sint v" "sint v < 2 ^ 63"
    using sint_greater_eq [of v] sint_less [of v] by simp_all
  have p: "push_bit 1 v = word_of_int (2 * sint v)"
    by (simp add: push_bit_eq_mult)
  have "zigzag v = word_of_int ?k"
    unfolding zigzag_def p signed_drop_bit_63 by (simp add: not_eq_complement)
  moreover have "0 \<le> ?k" "?k < 2 ^ 64" using r by auto
  ultimately show ?thesis
    using uint_word_of_int_eq [of ?k, where ?'a = 64] by (simp only: take_bit_int_eq_self len64)
qed

lemma zigzag_less_iff: "zigzag v < 0x80 \<longleftrightarrow> sint v < 64 \<and> - 64 \<le> sint v"
  by (auto simp: word_less_def uint_zigzag)

lemma zigzag_small: "v <s 2 ^ 6 \<Longrightarrow> - (2 ^ 6) <s v \<Longrightarrow> zigzag v < 0x80"
  by (simp add: zigzag_less_iff word_sless_alt)

lemma marshal_var_int64s_slow_eq:
  "marshal_var_int64s_slow dst vs = dst @ concat (map (varint_bytes \<circ> zigzag) vs)"
  by (induction vs arbitrary: dst) (simp_all add: write_var_uint64_slow_eq)

lemma marshal_var_int64s_fast_eq:
  "marshal_var_int64s_fast dst vs = Some dst' \<Longrightarrow>
     dst' = dst @ concat (map (varint_bytes \<circ> zigzag) vs)"
  by (induction vs arbitrary: dst)
     (fastforce simp: varint_bytes_small zigzag_small signed.not_le split: if_splits)+

lemma marshal_var_int64s_eq [codec_simps]:
  "marshal_var_int64s dst vs = dst @ concat (map (varint_bytes \<circ> zigzag) vs)"
  by (auto simp: marshal_var_int64s_def marshal_var_int64s_slow_eq
      dest: marshal_var_int64s_fast_eq split: option.splits)

text \<open>
  \<open>marshal_var_int64\<close> is the reference encoding of the zig-zag value except at \<open>-64\<close>: the open
  bound of its one-byte test sends \<open>-64\<close> (zig-zag value 127) to the two-byte branch.
\<close>

lemma marshal_var_int64_eq:
  "marshal_var_int64 dst v =
    dst @ (if v = - 64 then [0xff, 0] else varint_bytes (zigzag v))"
proof (cases "v <s 2 ^ 6 \<and> - (2 ^ 6) <s v")
  case True
  then have "v \<noteq> - 64" by auto
  with True show ?thesis
    by (simp add: marshal_var_int64_def zigzag_small varint_bytes_small Let_def)
next
  case False
  show ?thesis
  proof (cases "v = - 64")
    case True
    have "zigzag (- 64) = 127" by (simp add: zigzag_def)
    with True False show ?thesis
      by (simp add: marshal_var_int64_def cont_def lastb_def)
  next
    case ne: False
    have "marshal_var_int64 dst v = write_var_uint64_slow dst (zigzag v)" if "\<not> zigzag v < 0x80"
      using that False by (auto simp: marshal_var_int64_def write_var_uint64_slow_def Let_def)
    moreover have "\<not> zigzag v < 0x80"
      using False ne by (auto simp: zigzag_less_iff word_sless_alt signed_word_eqI)
    ultimately show ?thesis using ne by (simp add: write_var_uint64_slow_eq)
  qed
qed

subsection \<open>Single-value decoders\<close>

lemma ucast_byte_small: "(u::u64) < 0x80 \<Longrightarrow> ucast (ucast u :: u8) = u"
proof (rule bit_word_eqI)
  fix n assume "u < 0x80"
  then have "bit u n \<Longrightarrow> n < 7" using bit_bound [of u 7 n] by (simp add: word_less_nat_alt)
  then show "bit (ucast (ucast u :: u8) :: u64) n = bit u n" by (auto simp: bit_simps)
qed

lemma ucast_byte_small_less: "(u::u64) < 0x80 \<Longrightarrow> (ucast u :: u8) < 0x80"
  by (simp add: word_less_nat_alt unsigned_ucast_eq take_bit_nat_eq_self)

lemma cont_byte_large: "\<not> (ucast (u OR 0x80 :: u64) :: u8) < 0x80"
  using u8_small_bits [of "ucast (u OR 0x80)" 7] by (auto simp: bit_simps)

lemma low_seven: "(ucast ((ucast (u OR 0x80 :: u64) :: u8) AND 0x7f) :: u64) = u AND 0x7f"
proof (rule bit_word_eqI)
  fix n assume "n < LENGTH(64)"
  have "bit (0x7f :: u8) n \<longleftrightarrow> n < 7" "bit (0x7f :: u64) n \<longleftrightarrow> n < 7"
    using bit_mask_iff [of 7 n, where ?'a = u8] bit_mask_iff [of 7 n, where ?'a = u64] \<open>n < LENGTH(64)\<close>
    by (auto simp: mask_eq_exp_minus_1)
  moreover have "bit (0x80 :: u64) n \<longleftrightarrow> n = 7"
    using bit_exp_iff [of 7 n, where ?'a = u64] \<open>n < LENGTH(64)\<close> by auto
  ultimately show "bit (ucast ((ucast (u OR 0x80) :: u8) AND 0x7f) :: u64) n = bit (u AND 0x7f) n"
    by (auto simp: bit_simps)
qed

lemma split_seven: "push_bit s (u AND 0x7f) OR push_bit (s + 7) (drop_bit 7 u) = push_bit s (u :: u64)"
proof (rule bit_word_eqI)
  fix n assume n: "n < LENGTH(64)"
  have "bit (0x7f :: u64) i \<longleftrightarrow> i < 7" if "i < 64" for i
    using bit_mask_iff [of 7 i, where ?'a = u64] that by (auto simp: mask_eq_exp_minus_1)
  with n show "bit (push_bit s (u AND 0x7f) OR push_bit (s + 7) (drop_bit 7 u)) n = bit (push_bit s u) n"
    by (cases "s + 7 \<le> n") (auto simp: bit_simps)
qed

lemma split_seven_acc:
  "(x OR push_bit s (u AND 0x7f)) OR push_bit (s + 7) (drop_bit 7 u) = x OR push_bit s (u :: u64)"
  by (simp only: or.assoc split_seven)

lemma uvarint_loop_varint:
  assumes "unat u < 2 ^ (64 - 7 * i)" "i \<le> 9"
  shows "uvarint_loop (varint_bytes u @ rest) i x (7 * i) =
    (x OR push_bit (7 * i) u, int i + int (length (varint_bytes u)))"
  using assms
proof (induction u arbitrary: i x rule: varint_bytes.induct)
  case (1 u)
  show ?case
  proof (cases "u < 0x80")
    case True
    have "\<not> (1 < (ucast u :: u8))" if "i = 9"
    proof -
      have "unat u < 2" using "1.prems"(1) that by simp
      then have "u = 0 \<or> u = 1" by (auto simp: less_2_cases_iff word_unat_eq_iff)
      then show ?thesis by auto
    qed
    with True "1.prems" show ?thesis
      by (simp add: varint_bytes_small ucast_byte_small ucast_byte_small_less)
  next
    case False
    have i: "i < 9"
    proof (rule ccontr)
      assume "\<not> i < 9"
      with "1.prems" have "unat u < 2" by simp
      with False show False by (simp add: word_less_nat_alt)
    qed
    have d: "unat (drop_bit 7 u) < 2 ^ (64 - 7 * Suc i)"
    proof -
      have "64 - 7 * i = (64 - 7 * Suc i) + 7" using i by simp
      then have "2 ^ (64 - 7 * i) = 2 ^ (64 - 7 * Suc i) * (2 ^ 7 :: nat)"
        by (simp only: power_add)
      with "1.prems"(1) show ?thesis
        by (simp add: unat_drop_bit_div div_less_iff_less_mult)
    qed
    have "uvarint_loop (varint_bytes u @ rest) i x (7 * i) =
        uvarint_loop (varint_bytes (drop_bit 7 u) @ rest) (Suc i)
          (x OR push_bit (7 * i) (u AND 0x7f)) (7 * Suc i)"
      using False i by (subst varint_bytes.simps) (simp add: cont_byte_large low_seven add.commute)
    also have "\<dots> = ((x OR push_bit (7 * i) (u AND 0x7f)) OR push_bit (7 * i + 7) (drop_bit 7 u),
        int (Suc i) + int (length (varint_bytes (drop_bit 7 u))))"
      using "1.IH" [OF False d] i by (simp add: add.commute)
    also have "\<dots> = (x OR push_bit (7 * i) u, int i + int (length (varint_bytes u)))"
      unfolding split_seven_acc using False by (subst (2) varint_bytes.simps) simp
    finally show ?thesis .
  qed
qed

lemma uvarint_varint [codec_simps]:
  "uvarint (varint_bytes u @ rest) = (u, int (length (varint_bytes u)))"
  using uvarint_loop_varint [of u 0 rest 0] unsigned_less [of u, where ?'a = nat]
  by (simp add: uvarint_def)

text \<open>The two shortcut branches of \<open>unmarshal_var_uint64\<close> do what \<open>uvarint\<close> does.\<close>

lemma byte_and_7f_small: "(c::u8) < 0x80 \<Longrightarrow> c AND 0x7f = c"
proof (rule bit_word_eqI)
  fix n assume c: "c < 0x80" and "n < LENGTH(8)"
  then have "bit (0x7f :: u8) n \<longleftrightarrow> n < 7"
    using bit_mask_iff [of 7 n, where ?'a = u8] by (auto simp: mask_eq_exp_minus_1)
  with u8_small_bits [OF c, of n] show "bit (c AND 0x7f) n = bit c n" by (auto simp: bit_simps)
qed

lemma unmarshal_var_uint64_eq_uvarint: "unmarshal_var_uint64 src = uvarint src"
  by (auto simp: unmarshal_var_uint64_def uvarint_def split: list.splits)

lemma unmarshal_var_uint64_varint [codec_simps]:
  "unmarshal_var_uint64 (varint_bytes u @ rest) = (u, int (length (varint_bytes u)))"
  by (simp add: unmarshal_var_uint64_eq_uvarint uvarint_varint)

lemma unmarshal_var_int64_varint [codec_simps]:
  "unmarshal_var_int64 (varint_bytes (zigzag v) @ rest) = (v, int (length (varint_bytes (zigzag v))))"
  by (simp add: unmarshal_var_int64_def uvarint_varint)

lemma uvarint_size_le: "snd (uvarint src) \<le> int (length src)"
proof -
  have "snd (uvarint_loop src i x s) \<le> int i + int (length src)" for i x s
  proof (induction src arbitrary: i x s)
    case (Cons b bs)
    from Cons [of "i + 1" "x OR push_bit s (ucast (b AND 0x7f))" "s + 7"] show ?case by auto
  qed simp
  from this [of 0 0 0] show ?thesis by (simp add: uvarint_def)
qed

subsection \<open>The slow batch decoder against \<open>uvarint\<close>\<close>

text \<open>
  \<open>ends_at ys p\<close>: byte \<open>p\<close> is the first byte of \<open>ys\<close> without the continuation bit.
  \<open>vsum ys p\<close> collects the seven-bit groups before it.
\<close>

definition ends_at :: "bytes \<Rightarrow> nat \<Rightarrow> bool" where
  "ends_at ys p \<longleftrightarrow> p < length ys \<and> ys ! p < 0x80 \<and> (\<forall>k<p. \<not> ys ! k < 0x80)"

primrec vsum :: "bytes \<Rightarrow> nat \<Rightarrow> u64" where
  "vsum ys 0 = 0"
| "vsum ys (Suc k) = vsum ys k OR grp (ys ! k) k"

lemma uvarint_loop_ends:
  assumes "ends_at ys p" "k \<le> p" "k \<le> 10"
  shows "uvarint_loop (drop k ys) k (vsum ys k) (7 * k) =
    (if p < 9 \<or> p = 9 \<and> ys ! p \<le> 1 then (vsum ys p OR fin (ys ! p) p, int p + 1)
     else if p = 9 then (0, - 10) else (0, - 11))"
  using assms(2,3)
proof (induction "p - k" arbitrary: k)
  case 0
  then have "k = p" by simp
  moreover from assms(1) have "drop p ys = ys ! p # drop (Suc p) ys"
    by (simp add: ends_at_def Cons_nth_drop_Suc)
  ultimately show ?case using assms(1) 0 by (auto simp: ends_at_def fin_def mult.commute not_le)
next
  case (Suc n)
  then have "k < p" by simp
  with assms(1) have d: "drop k ys = ys ! k # drop (Suc k) ys" and c: "\<not> ys ! k < 0x80"
    by (simp_all add: ends_at_def Cons_nth_drop_Suc)
  show ?case
  proof (cases "k = 10")
    case True
    with \<open>k < p\<close> d show ?thesis by simp
  next
    case False
    with Suc.hyps(1) [of "Suc k"] Suc.hyps(2) Suc.prems \<open>k < p\<close> d c show ?thesis
      by (simp add: grp_def mult.commute add.commute)
  qed
qed

lemma uvarint_ends:
  assumes "ends_at ys p"
  shows "uvarint ys =
    (if p < 9 \<or> p = 9 \<and> ys ! p \<le> 1 then (vsum ys p OR fin (ys ! p) p, int p + 1)
     else if p = 9 then (0, - 10) else (0, - 11))"
  using uvarint_loop_ends [OF assms, of 0] by (simp add: uvarint_def)

lemma uvarint_not_ends:
  assumes "\<forall>b \<in> set ys. \<not> b < 0x80"
  shows "snd (uvarint ys) \<le> 0"
proof -
  have "snd (uvarint_loop ys i x s) \<le> 0" for i x s
    using assms by (induction ys arbitrary: i x s) auto
  then show ?thesis by (simp add: uvarint_def)
qed

lemma ends_at_exists: "(\<exists>p. ends_at ys p) \<or> (\<forall>b \<in> set ys. \<not> b < 0x80)"
proof (induction ys)
  case (Cons y ys)
  show ?case
  proof (cases "y < 0x80")
    case True
    then have "ends_at (y # ys) 0" by (simp add: ends_at_def)
    then show ?thesis by blast
  next
    case False
    have "ends_at (y # ys) (Suc p)" if "ends_at ys p" for p
      using that False by (auto simp: ends_at_def nth_Cons split: nat.splits)
    with Cons.IH False show ?thesis by auto
  qed
qed simp

lemma varint_end_ends:
  assumes "ends_at ys p" "k \<le> p"
  shows "varint_end (pre @ ys) (length pre + k) = Some (length pre + p + 1)"
  using assms(2)
proof (induction "p - k" arbitrary: k)
  case 0
  with assms(1) show ?case by (subst varint_end.simps) (auto simp: ends_at_def nth_append)
next
  case (Suc n)
  then have "varint_end (pre @ ys) (length pre + k) = varint_end (pre @ ys) (length pre + Suc k)"
    using assms(1) by (subst varint_end.simps) (auto simp: ends_at_def nth_append)
  with Suc.hyps(1) [of "Suc k"] Suc.hyps(2) show ?case by simp
qed

lemma nth_append_add: "(pre @ ys) ! (length pre + k) = ys ! k"
  by (simp add: nth_append)

lemma ends_at_bytes:
  assumes "ends_at ys p"
  shows "p < length ys" "ys ! p < 0x80" "\<And>k. k < p \<Longrightarrow> \<not> ys ! k < 0x80"
  using assms by (auto simp: ends_at_def)

lemma vsum_numeral:
  "vsum ys 1 = grp (ys ! 0) 0" "vsum ys (numeral n) = vsum ys (pred_numeral n) OR grp (ys ! pred_numeral n) (pred_numeral n)"
  by (simp_all add: numeral_eq_Suc)

lemma vsum_tail:
  "vsum ys 4 = vsum ys 3 OR grp (ys ! 3) 3"
  "vsum ys 5 = vsum ys 3 OR grp (ys ! 3) 3 OR grp (ys ! 4) 4"
  "vsum ys 6 = vsum ys 3 OR grp (ys ! 3) 3 OR grp (ys ! 4) 4 OR grp (ys ! 5) 5"
  "vsum ys 7 = vsum ys 3 OR grp (ys ! 3) 3 OR grp (ys ! 4) 4 OR grp (ys ! 5) 5 OR grp (ys ! 6) 6"
  "vsum ys 8 = vsum ys 3 OR grp (ys ! 3) 3 OR grp (ys ! 4) 4 OR grp (ys ! 5) 5 OR grp (ys ! 6) 6
     OR grp (ys ! 7) 7"
  "vsum ys 9 = vsum ys 3 OR grp (ys ! 3) 3 OR grp (ys ! 4) 4 OR grp (ys ! 5) 5 OR grp (ys ! 6) 6
     OR grp (ys ! 7) 7 OR grp (ys ! 8) 8"
  by (simp_all add: numeral_eq_Suc or.assoc)

lemma grp01: "grp b 0 = ucast (b AND 0x7f)" "grp b 1 = push_bit 7 (ucast (b AND 0x7f))"
  "grp b (Suc 0) = push_bit 7 (ucast (b AND 0x7f))"
  "fin b 0 = ucast b" "fin b 1 = push_bit 7 (ucast b)" "fin b (Suc 0) = push_bit 7 (ucast b)"
  by (simp_all add: grp_def fin_def)

lemma unmarshal_var_step_ends:
  assumes e: "ends_at ys p" and p: "p < 9 \<or> p = 9 \<and> ys ! 9 = 1"
  shows "unmarshal_var_step (pre @ ys) (length pre) = Ok (vsum ys p OR fin (ys ! p) p, length pre + p + 1)"
proof -
  note b = ends_at_bytes [OF e]
  consider "p = 0" | "p = 1" | "p = 2" | "3 \<le> p" by linarith
  then show ?thesis
  proof cases
    case 4
    then have l: "\<not> ys ! 0 < 0x80" "\<not> ys ! 1 < 0x80" "\<not> ys ! 2 < 0x80" "2 < length ys" "ys \<noteq> []"
      using b(3) [of 0] b(3) [of 1] b(3) [of 2] b(1) by auto
    have v: "varint_end (pre @ ys) (length pre + 3) = Some (length pre + p + 1)"
      using varint_end_ends [OF e] 4 by simp
    have t: "unmarshal_var_step (pre @ ys) (length pre) =
        unmarshal_var_uint64_tail (pre @ ys) (length pre + 3) (vsum ys 3)"
      using l nth_append_add [of pre ys 0] nth_append_add [of pre ys 1] nth_append_add [of pre ys 2]
      by (simp add: unmarshal_var_step_def Let_def vsum_numeral grp01 or.assoc)
    have n: "(pre @ ys) ! (length pre + 3 + i) = ys ! (3 + i)" for i
      using nth_append_add [of pre ys "3 + i"] by (simp add: add.assoc)
    have m: "length pre + p + 1 - (length pre + 3) = p - 2" using 4 by simp
    have o: "fin 1 9 = push_bit (9 * 7) 1" by (simp add: fin_def)
    consider "p = 3" | "p = 4" | "p = 5" | "p = 6" | "p = 7" | "p = 8" | "p = 9" "ys ! 9 = 1"
      using 4 p by linarith
    then show ?thesis
      unfolding t unmarshal_var_uint64_tail_def v option.case n m Let_def
      by cases (simp_all add: vsum_tail or.assoc o del: push_bit_numeral)
  qed (use b nth_append_add [of pre ys 0] nth_append_add [of pre ys 1] nth_append_add [of pre ys 2]
      in \<open>auto simp: unmarshal_var_step_def Let_def vsum_numeral grp01 or.assoc\<close>)
qed

text \<open>
  Where \<open>uvarint\<close> reads a value of at most nine bytes, or of ten bytes ending in 1, the batch
  step reads the same value and advances by the same number of bytes.
\<close>

lemma unmarshal_var_step_uvarint:
  assumes "uvarint ys = (u, n)" "0 < n" "n = 10 \<Longrightarrow> ys ! 9 \<noteq> 0"
  shows "unmarshal_var_step (pre @ ys) (length pre) = Ok (u, length pre + nat n)"
proof -
  from assms(1,2) have "\<not> (\<forall>b \<in> set ys. \<not> b < 0x80)" using uvarint_not_ends [of ys] by auto
  then obtain p where e: "ends_at ys p" using ends_at_exists by blast
  have "ys ! 9 = 1" if "ys ! 9 \<le> 1" "ys ! 9 \<noteq> 0"
    using that by (simp add: word_le_nat_alt word_unat_eq_iff)
  with uvarint_ends [OF e] assms have "p < 9 \<or> p = 9 \<and> ys ! 9 = 1"
    and "u = vsum ys p OR fin (ys ! p) p" "n = int p + 1"
    by (auto split: if_splits)
  with unmarshal_var_step_ends [OF e, of pre] show ?thesis by simp
qed

lemma varint_bytes_tenth: "length (varint_bytes u) = 10 \<Longrightarrow> varint_bytes u ! 9 = 1"
  by (simp add: varint_bytes_unfold lastb_top split: if_splits)

lemma unmarshal_var_step_varint:
  "unmarshal_var_step (pre @ varint_bytes u @ rest) (length pre) =
    Ok (u, length pre + length (varint_bytes u))"
  using unmarshal_var_step_uvarint [OF uvarint_varint, of u rest pre] varint_bytes_tenth [of u]
  by (simp add: nth_append)

lemma unmarshal_var_int_step_eq:
  "unmarshal_var_int_step src idx =
    obind (unmarshal_var_step src idx) (\<lambda>(u, idx'). Ok (unzigzag u, idx'))"
  by (simp add: unmarshal_var_int_step_def unmarshal_var_step_def unzigzag8_eq)

subsection \<open>Batch decoders: the fast path is the slow path\<close>

lemma unmarshal_var_uint64s_slow_small:
  assumes "\<forall>c \<in> set ys. c < 0x80"
  shows "unmarshal_var_uint64s_slow (length ys) (pre @ ys @ rest) (length pre) =
    Ok (map ucast ys, length pre + length ys)"
  using assms
proof (induction ys arbitrary: pre)
  case (Cons y ys)
  then have "unmarshal_var_step (pre @ (y # ys) @ rest) (length pre) = Ok (ucast y, Suc (length pre))"
    by (simp add: unmarshal_var_step_def nth_append)
  with Cons.IH [of "pre @ [y]"] Cons.prems show ?case by simp
qed simp

lemma unmarshal_var_int64s_slow_eq:
  "unmarshal_var_int64s_slow n src idx =
    obind (unmarshal_var_uint64s_slow n src idx) (\<lambda>(us, idx'). Ok (map unzigzag us, idx'))"
proof (induction n arbitrary: idx)
  case (Suc n)
  show ?case
    by (cases "unmarshal_var_step src idx")
       (auto simp: unmarshal_var_int_step_eq Suc.IH obind_def split: outcome.splits)
qed simp

lemma unmarshal_var_uint64s_as_slow:
  "n \<le> length src \<Longrightarrow> unmarshal_var_uint64s n src =
    obind (unmarshal_var_uint64s_slow n src 0) (\<lambda>(us, idx). Ok (us, drop idx src))"
  using unmarshal_var_uint64s_slow_small [of "take n src" "[]" "drop n src"]
  by (auto simp: unmarshal_var_uint64s_def not_le min_absorb2)

lemma unmarshal_var_int64s_as_uint64s:
  "unmarshal_var_int64s n src =
    obind (unmarshal_var_uint64s n src) (\<lambda>(us, tail). Ok (map unzigzag us, tail))"
proof -
  have "map unzigzag8 (take n src) = map (unzigzag \<circ> ucast) (take n src)"
    if "\<not> (\<exists>c \<in> set (take n src). c \<ge> 0x80)"
    using that by (auto simp: unzigzag8_eq not_le)
  then show ?thesis
    by (cases "unmarshal_var_uint64s_slow n src 0")
       (auto simp: unmarshal_var_int64s_def unmarshal_var_uint64s_def unmarshal_var_int64s_slow_eq)
qed

subsection \<open>Round trips\<close>

lemma unmarshal_var_uint64s_slow_varints:
  "unmarshal_var_uint64s_slow (length us) (pre @ concat (map varint_bytes us) @ rest) (length pre) =
    Ok (us, length pre + length (concat (map varint_bytes us)))"
proof (induction us arbitrary: pre)
  case (Cons u us)
  from Cons.IH [of "pre @ varint_bytes u"]
    unmarshal_var_step_varint [of pre u "concat (map varint_bytes us) @ rest"]
  show ?case by (simp add: add.assoc)
qed simp

lemma length_concat_varints: "length us \<le> length (concat (map varint_bytes us))"
proof (induction us)
  case (Cons u us)
  have "0 < length (varint_bytes u)" by simp
  with Cons show ?case by (simp del: length_greater_0_conv)
qed simp

lemma unmarshal_var_uint64s_varints [codec_simps]:
  "unmarshal_var_uint64s (length us) (concat (map varint_bytes us) @ rest) = Ok (us, rest)"
  using unmarshal_var_uint64s_slow_varints [of us "[]" rest] length_concat_varints [of us]
  by (simp add: unmarshal_var_uint64s_as_slow)

lemma unmarshal_var_int64s_varints [codec_simps]:
  "unmarshal_var_int64s (length vs) (concat (map (varint_bytes \<circ> zigzag) vs) @ rest) = Ok (vs, rest)"
  using unmarshal_var_uint64s_varints [of "map zigzag vs" rest]
  by (simp add: unmarshal_var_int64s_as_uint64s comp_def)

lemma unmarshal_bytes_marshal [codec_simps]:
  assumes "length b < 2 ^ 64"
  shows "unmarshal_bytes (marshal_bytes [] b @ rest) =
    (Some b, int (length (marshal_bytes [] b)))"
proof -
  have "unat (of_nat (length b) :: u64) = length b"
    using assms by (simp add: unat_of_nat take_bit_nat_eq_self)
  then show ?thesis
    by (simp add: unmarshal_bytes_def marshal_bytes_def codec_simps)
qed

lemma marshal_bytes_append: "marshal_bytes dst b = dst @ marshal_bytes [] b"
  by (simp add: marshal_bytes_def codec_simps)

lemma marshal_bytes_nonempty: "marshal_bytes dst b \<noteq> []"
  by (simp add: marshal_bytes_def codec_simps)

lemma unmarshal_bytes_bounds:
  assumes "unmarshal_bytes src = (Some b, n)"
  shows "0 < n" "n \<le> int (length src)" "length b \<le> nat n" "b = take (length b) (drop (nat n - length b) src)"
proof -
  obtain u m where um: "uvarint src = (u, m)" by force
  with assms have m: "0 < m" and l: "\<not> unat u > length src - nat m"
    and b: "b = take (unat u) (drop (nat m) src)" and n: "n = int (nat m + unat u)"
    by (auto simp: unmarshal_bytes_def unmarshal_var_uint64_eq_uvarint Let_def split: if_splits)
  have "nat m \<le> length src" using uvarint_size_le [of src] um m by simp
  moreover have "nat n = nat m + unat u" using n by (simp only: nat_int)
  ultimately show "0 < n" "n \<le> int (length src)" "length b \<le> nat n"
    "b = take (length b) (drop (nat n - length b) src)"
    using m l b by auto
qed

subsection \<open>The codecs as instances of the contract\<close>

text \<open>
  The way every caller reads a value and moves on: \<open>let (n, n_size) = unmarshal_var_uint64(src)\<close>,
  an error when \<open>n_size <= 0\<close>, and \<open>src = &src[n_size..]\<close>.
\<close>

definition take_var_uint64 :: "bytes \<Rightarrow> (u64 \<times> bytes) option" where
  "take_var_uint64 src =
    (let (n, n_size) = unmarshal_var_uint64 src in
     if n_size \<le> 0 then None else Some (n, drop (nat n_size) src))"

definition take_bytes :: "bytes \<Rightarrow> (bytes \<times> bytes) option" where
  "take_bytes src =
    (let (b, n_size) = unmarshal_bytes src in
     case b of None \<Rightarrow> None | Some b \<Rightarrow> if n_size \<le> 0 then None else Some (b, drop (nat n_size) src))"

definition take_uint64 :: "bytes \<Rightarrow> (u64 \<times> bytes) option" where
  "take_uint64 src =
    (case (unmarshal_uint64 src :: (u64, unit) outcome) of Ok u \<Rightarrow> Some (u, drop 8 src) | _ \<Rightarrow> None)"

definition take_int64 :: "bytes \<Rightarrow> (i64 \<times> bytes) option" where
  "take_int64 src =
    (case (unmarshal_int64 src :: (i64, unit) outcome) of Ok v \<Rightarrow> Some (v, drop 8 src) | _ \<Rightarrow> None)"

interpretation var_uint64: codec_progress "marshal_var_uint64 []" take_var_uint64 "\<lambda>_. True"
proof
  show "take_var_uint64 (marshal_var_uint64 [] x @ rest) = Some (x, rest)" for x rest
    by (simp add: take_var_uint64_def codec_simps)
  show "length tail < length src" if "take_var_uint64 src = Some (x, tail)" for src x tail
    using that uvarint_size_le [of src]
    by (auto simp: take_var_uint64_def unmarshal_var_uint64_eq_uvarint split: if_splits prod.splits)
qed

interpretation var_bytes: codec_progress "marshal_bytes []" take_bytes "\<lambda>b. length b < 2 ^ 64"
proof
  show "take_bytes (marshal_bytes [] x @ rest) = Some (x, rest)" if "length x < 2 ^ 64" for x rest
    using that by (simp add: take_bytes_def unmarshal_bytes_marshal marshal_bytes_nonempty)
  show "length tail < length src" if "take_bytes src = Some (x, tail)" for src x tail
  proof -
    from that obtain n where n: "unmarshal_bytes src = (Some x, n)" "tail = drop (nat n) src"
      by (auto simp: take_bytes_def split: prod.splits option.splits if_splits)
    with unmarshal_bytes_bounds [OF n(1)] show ?thesis by auto
  qed
qed

interpretation fixed_uint64: codec_progress "marshal_uint64 []" take_uint64 "\<lambda>_. True"
  by unfold_locales
     (auto simp: take_uint64_def marshal_uint64_def unmarshal_uint64_def split: if_splits outcome.splits)

interpretation fixed_int64: codec_progress "marshal_int64 []" take_int64 "\<lambda>_. True"
  by unfold_locales
     (auto simp: take_int64_def marshal_int64_def unmarshal_int64_def split: if_splits outcome.splits)


subsection \<open>Properties\<close>

text \<open>C24: The batch codec of unsigned integers loses nothing: whatever the destination holds and
  whatever bytes follow, decoding as many values as were encoded (through the one-byte fast path
  or the slow path) returns exactly those values and exactly the bytes that follow.\<close>

theorem var_uint64s_roundtrip:
  "\<exists>enc. marshal_var_uint64s dst us = dst @ enc \<and>
     unmarshal_var_uint64s (length us) (enc @ rest) = Ok (us, rest)"
  by (intro exI [of _ "concat (map varint_bytes us)"] conjI)
    (rule marshal_var_uint64s_eq, rule unmarshal_var_uint64s_varints)

text \<open>The batch codec of signed (zig-zag) integers loses nothing, including the 8-bit shortcut
  that the decoder takes when every encoded value is one byte.\<close>

lemma var_int64s_roundtrip:
  "\<exists>enc. marshal_var_int64s dst vs = dst @ enc \<and>
     unmarshal_var_int64s (length vs) (enc @ rest) = Ok (vs, rest)"
  by (intro exI [of _ "concat (map (varint_bytes \<circ> zigzag) vs)"] conjI)
    (rule marshal_var_int64s_eq, rule unmarshal_var_int64s_varints)

text \<open>The single-value and the batch decoder of variable-length integers agree on every source
  the single-value decoder accepts, unless the varint is ten bytes long and ends in a zero byte:
  the batch iteration started anywhere in a source returns the value that \<open>uvarint\<close> reads there
  and advances by as many bytes.\<close>

lemma batch_decoder_agrees:
  assumes "unmarshal_var_uint64 ys = (u, n)" "0 < n" "\<not> (n = 10 \<and> ys ! 9 = 0)"
  shows "unmarshal_var_step (pre @ ys) (length pre) = Ok (u, length pre + nat n)"
  using assms by (intro unmarshal_var_step_uvarint) (simp_all add: unmarshal_var_uint64_eq_uvarint)

text \<open>The exception is real: on nine bytes \<open>0x80\<close> and a \<open>0x00\<close> the single-value decoders
  read 0, the batch decoders read \<open>2 ^ 63\<close> and, zig-zag decoded, \<open>2 ^ 62\<close>, because the tenth byte's bit is set
  without reading the byte.\<close>

lemma batch_decoder_zero_tail:
  "unmarshal_var_uint64 (replicate 9 0x80 @ [0]) = (0, 10) \<and>
   unmarshal_var_uint64s 1 (replicate 9 0x80 @ [0]) = Ok ([2 ^ 63], []) \<and>
   unmarshal_var_int64 (replicate 9 0x80 @ [0]) = (0, 10) \<and>
   unmarshal_var_int64s 1 (replicate 9 0x80 @ [0]) = Ok ([2 ^ 62], [])"
  by (intro conjI; code_simp)

text \<open>Decoding a length-prefixed byte string returns the string and the number of bytes it
  occupies; and on any source at all a successful decode stays inside the source: the reported
  size is positive and at most the source's length, and the string is the slice of the source
  that ends there.\<close>

lemma bytes_roundtrip_and_bounds:
  "(length b < 2 ^ 64 \<longrightarrow> unmarshal_bytes (marshal_bytes [] b @ rest) =
      (Some b, int (length (marshal_bytes [] b)))) \<and>
   (unmarshal_bytes src = (Some c, n) \<longrightarrow> 0 < n \<and> n \<le> int (length src) \<and>
      length c \<le> nat n \<and> c = take (length c) (drop (nat n - length c) src))"
  using unmarshal_bytes_marshal [of b rest] unmarshal_bytes_bounds [of src c n] by blast

text \<open>The single-value signed codec loses nothing on all of \<open>i64\<close>, although the encoder writes
  the value \<open>-64\<close> with a redundant second byte where the batch encoder writes one byte.\<close>

lemma var_int64_roundtrip:
  "unmarshal_var_int64 (marshal_var_int64 [] v @ rest) =
     (v, int (length (marshal_var_int64 [] v))) \<and>
   marshal_var_int64 [] (- 64) = [0xff, 0] \<and> marshal_var_int64s [] [- 64] = [0x7f]"
proof -
  have enc: "unmarshal_var_int64 (marshal_var_int64 [] v @ rest) =
      (v, int (length (marshal_var_int64 [] v)))"
  proof (cases "v = - 64")
    case True
    have "unzigzag 0x7f = - 64" by code_simp
    with True show ?thesis
      by (simp add: marshal_var_int64_eq unmarshal_var_int64_def uvarint_def)
  next
    case False
    then show ?thesis by (simp add: marshal_var_int64_eq unmarshal_var_int64_varint)
  qed
  have "marshal_var_int64 [] (- 64) = [0xff, 0]" by (simp add: marshal_var_int64_eq)
  moreover have "marshal_var_int64s [] [- 64] = [0x7f]" by code_simp
  ultimately show ?thesis using enc by simp
qed
end
