(* ===== verification/Array_Encoding.thy ===== *)
theory Array_Encoding
  imports Int_Encoding
begin

text \<open>
  Encoding of \<open>i64\<close> arrays (timestamps and numeric columns), the rest of
  \<^verbatim>\<open>esl-common/src/encoding.rs\<close>: the choice of a marshal type, nearest-delta and
  nearest-delta2 encoding with a precision, the compression step, and the decoders. The zstd
  library is a parameter: a \<open>zstd\<close> record with the compressor and the decompressor of the
  \<^verbatim>\<open>zstd\<close> crate; \<open>zstd_ok\<close> states what its documentation promises. The lemmas give the lossless
  round trip at 64 precision bits and the error bound of the lossy encoding.
\<close>

unbundle bit_operations_syntax

subsection \<open>Definitions: the zstd library\<close>

record zstd =
  zcompress :: "nat \<Rightarrow> bytes \<Rightarrow> bytes"
  zdecompress :: "bytes \<Rightarrow> bytes option"

text \<open>
  Decompressing what the library compressed gives the input back, and the compressed block is at
  most \<^verbatim>\<open>ZSTD_compressBound\<close> bytes long (the documented worst case, with its small-input term
  rounded up to 64).
\<close>

definition zstd_ok :: "zstd \<Rightarrow> bool" where
  "zstd_ok z \<longleftrightarrow>
    (\<forall>lvl b. zdecompress z (zcompress z lvl b) = Some b \<and>
       length (zcompress z lvl b) \<le> length b + length b div 256 + 64)"

definition encoder_level_from_zstd :: "nat \<Rightarrow> nat" where
  "encoder_level_from_zstd level =
    (if level < 3 then 1 else if level < 6 then 2 else if level < 10 then 7 else 11)"

definition compress_zstd_level :: "zstd \<Rightarrow> bytes \<Rightarrow> bytes \<Rightarrow> nat \<Rightarrow> bytes" where
  "compress_zstd_level z dst src level = dst @ zcompress z (encoder_level_from_zstd level) src"

definition is_zstd :: "bytes \<Rightarrow> bool" where
  "is_zstd data \<longleftrightarrow> length data \<ge> 4 \<and> (from_le_bytes (take 4 data) :: u32) = 0xFD2FB528"

subsection \<open>Definitions: marshal types\<close>

type_synonym MarshalType = u8

abbreviation (input) ZSTD_NEAREST_DELTA2 :: MarshalType where "ZSTD_NEAREST_DELTA2 \<equiv> 1"
abbreviation (input) DELTA_CONST :: MarshalType where "DELTA_CONST \<equiv> 2"
abbreviation (input) MT_CONST :: MarshalType where "MT_CONST \<equiv> 3"
abbreviation (input) ZSTD_NEAREST_DELTA :: MarshalType where "ZSTD_NEAREST_DELTA \<equiv> 4"
abbreviation (input) NEAREST_DELTA2 :: MarshalType where "NEAREST_DELTA2 \<equiv> 5"
abbreviation (input) NEAREST_DELTA :: MarshalType where "NEAREST_DELTA \<equiv> 6"

datatype array_error =
    BadMarshalType u8
  | BadPrecisionBits nat
  | DecompressFailed
  | AfterZstd array_error
  | DeltaVarint varint_error
  | TailLeft nat
  | ConstDataLeft nat
  | NoDeltaConst
  | TrailingAfterDeltaConst i64 nat
  | UnknownMarshalType u8

definition needs_validation :: "MarshalType \<Rightarrow> bool" where
  "needs_validation mt \<longleftrightarrow> mt = NEAREST_DELTA2 \<or> mt = NEAREST_DELTA"

definition check_marshal_type :: "MarshalType \<Rightarrow> (unit, array_error) outcome" where
  "check_marshal_type mt = (if mt > 6 then Err (BadMarshalType mt) else Ok ())"

definition check_precision_bits :: "nat \<Rightarrow> (unit, array_error) outcome" where
  "check_precision_bits precision_bits =
    (if \<not> (1 \<le> precision_bits \<and> precision_bits \<le> 64) then Err (BadPrecisionBits precision_bits)
     else Ok ())"

subsection \<open>Definitions: shape of an array\<close>

definition is_const :: "i64 list \<Rightarrow> bool" where
  "is_const a =
    (case a of
       [] \<Rightarrow> False
     | v1 # _ \<Rightarrow> list_all (\<lambda>v. v = 0) a \<or> list_all (\<lambda>v. v = 1) a \<or> list_all (\<lambda>v. v = v1) a)"

primrec same_delta :: "i64 \<Rightarrow> i64 \<Rightarrow> i64 list \<Rightarrow> bool" where
  "same_delta d1 prev [] = True"
| "same_delta d1 prev (n # rest) = (if n - prev \<noteq> d1 then False else same_delta d1 n rest)"

definition is_delta_const :: "i64 list \<Rightarrow> bool" where
  "is_delta_const a =
    (case a of v0 # v1 # rest \<Rightarrow> same_delta (v1 - v0) v1 rest | _ \<Rightarrow> False)"

text \<open>The scan of \<open>is_gauge\<close>: \<open>None\<close> for an early \<open>return true\<close>, otherwise the reset count.\<close>

primrec gauge_resets :: "i64 \<Rightarrow> nat \<Rightarrow> i64 list \<Rightarrow> nat option" where
  "gauge_resets v_prev resets [] = Some resets"
| "gauge_resets v_prev resets (v # rest) =
    (if v <s v_prev then
       (if v <s 0 then None
        else if signed_drop_bit 3 v_prev <s v then None
        else gauge_resets v (resets + 1) rest)
     else gauge_resets v resets rest)"

definition is_gauge :: "i64 list \<Rightarrow> bool" where
  "is_gauge a =
    (case a of
       v0 # v1 # rest \<Rightarrow>
         if v0 <s 0 then True
         else (case gauge_resets v0 0 (v1 # rest) of
             None \<Rightarrow> True
           | Some resets \<Rightarrow> if resets \<le> 2 then False else resets > length a div 8)
     | _ \<Rightarrow> False)"

definition get_compress_level :: "nat \<Rightarrow> nat" where
  "get_compress_level items_count =
    (if items_count \<le> 2 ^ 6 then 1 else if items_count \<le> 2 ^ 8 then 2
     else if items_count \<le> 2 ^ 10 then 3 else if items_count \<le> 2 ^ 12 then 4 else 5)"

subsection \<open>Definitions: nearest delta\<close>

text \<open>\<open>64 - (v as u64).leading_zeros()\<close> of a wrapped absolute value.\<close>

definition wrapping_abs :: "i64 \<Rightarrow> i64" where
  "wrapping_abs v = (if v <s 0 then - v else v)"

definition origin_bits :: "i64 \<Rightarrow> nat" where
  "origin_bits v = bit_len (unat (wrapping_abs v))"

definition dec_if_non_zero :: "nat \<Rightarrow> nat" where
  "dec_if_non_zero n = (if n = 0 then 0 else n - 1)"

definition get_trailing_zeros :: "i64 \<Rightarrow> nat \<Rightarrow> nat" where
  "get_trailing_zeros v precision_bits =
    (let v_bits = origin_bits v in if v_bits \<le> precision_bits then 0 else v_bits - precision_bits)"

definition nearest_delta :: "i64 \<Rightarrow> i64 \<Rightarrow> nat \<Rightarrow> nat \<Rightarrow> i64 \<times> nat" where
  "nearest_delta nxt prev precision_bits prev_trailing_zeros =
    (let d = nxt - prev in
     if d = 0 then (0, dec_if_non_zero prev_trailing_zeros)
     else let ob = origin_bits nxt in
       if ob \<le> precision_bits then (d, dec_if_non_zero prev_trailing_zeros)
       else let trailing_zeros = ob - precision_bits in
         if trailing_zeros > prev_trailing_zeros + 4 then (d, prev_trailing_zeros + 2)
         else if trailing_zeros + 4 < prev_trailing_zeros then (d, prev_trailing_zeros - 2)
         else let minus = d <s 0;
                  nd = wrapping_abs d AND push_bit trailing_zeros (- 1)
              in ((if minus then - nd else nd), trailing_zeros))"

primrec deltas64 :: "i64 \<Rightarrow> i64 list \<Rightarrow> i64 list" where
  "deltas64 v [] = []"
| "deltas64 v (nxt # src) = (let d = nxt - v in d # deltas64 (v + d) src)"

primrec deltas :: "nat \<Rightarrow> i64 \<Rightarrow> nat \<Rightarrow> i64 list \<Rightarrow> i64 list" where
  "deltas pb v tz [] = []"
| "deltas pb v tz (nxt # src) =
    (let (d, tzs) = nearest_delta nxt v pb tz in d # deltas pb (v + d) tzs src)"

definition marshal_int64_nearest_delta ::
    "bytes \<Rightarrow> i64 list \<Rightarrow> nat \<Rightarrow> (bytes \<times> i64, array_error) outcome" where
  "marshal_int64_nearest_delta dst src precision_bits =
    (case src of
       [] \<Rightarrow> Panic
     | v # rest \<Rightarrow>
        (case check_precision_bits precision_bits of
           Ok _ \<Rightarrow>
            (let ds = (if precision_bits = 64 then deltas64 v rest
                       else deltas precision_bits v (get_trailing_zeros v precision_bits) rest)
             in Ok (marshal_var_int64s dst ds, v))
         | _ \<Rightarrow> Panic))"

primrec undeltas :: "i64 \<Rightarrow> i64 list \<Rightarrow> i64 list" where
  "undeltas v [] = []"
| "undeltas v (d # ds) = (let v = v + d in v # undeltas v ds)"

definition unmarshal_int64_nearest_delta ::
    "i64 list \<Rightarrow> bytes \<Rightarrow> i64 \<Rightarrow> nat \<Rightarrow> (i64 list, array_error) outcome" where
  "unmarshal_int64_nearest_delta dst src first_value items_count =
    (if items_count < 1 then Panic
     else obind (map_err DeltaVarint (unmarshal_var_int64s (items_count - 1) src)) (\<lambda>(ds, tail).
       if tail \<noteq> [] then Err (TailLeft (length tail))
       else Ok (dst @ first_value # undeltas first_value ds)))"

subsection \<open>Definitions: nearest delta2\<close>

primrec deltas2_64 :: "i64 \<Rightarrow> i64 \<Rightarrow> i64 list \<Rightarrow> i64 list" where
  "deltas2_64 d1 v [] = []"
| "deltas2_64 d1 v (nxt # src) =
    (let d2 = nxt - v - d1; d1' = d1 + d2 in d2 # deltas2_64 d1' (v + d1') src)"

primrec deltas2 :: "nat \<Rightarrow> i64 \<Rightarrow> i64 \<Rightarrow> nat \<Rightarrow> i64 list \<Rightarrow> i64 list" where
  "deltas2 pb d1 v tz [] = []"
| "deltas2 pb d1 v tz (nxt # src) =
    (let (d2, tzs) = nearest_delta (nxt - v) d1 pb tz; d1' = d1 + d2
     in d2 # deltas2 pb d1' (v + d1') tzs src)"

definition marshal_int64_nearest_delta2 ::
    "bytes \<Rightarrow> i64 list \<Rightarrow> nat \<Rightarrow> (bytes \<times> i64, array_error) outcome" where
  "marshal_int64_nearest_delta2 dst src precision_bits =
    (case src of
       v0 # v1 # rest \<Rightarrow>
        (case check_precision_bits precision_bits of
           Ok _ \<Rightarrow>
            (let d1 = v1 - v0;
                 dst1 = marshal_var_int64 dst d1;
                 ds = (if precision_bits = 64 then deltas2_64 d1 v1 rest
                       else deltas2 precision_bits d1 v1 (get_trailing_zeros v1 precision_bits) rest)
             in Ok (marshal_var_int64s dst1 ds, v0))
         | _ \<Rightarrow> Panic)
     | _ \<Rightarrow> Panic)"

primrec undeltas2 :: "i64 \<Rightarrow> i64 \<Rightarrow> i64 list \<Rightarrow> i64 list" where
  "undeltas2 d1 v [] = []"
| "undeltas2 d1 v (d2 # ds) = (let d1 = d1 + d2; v = v + d1 in v # undeltas2 d1 v ds)"

definition unmarshal_int64_nearest_delta2 ::
    "i64 list \<Rightarrow> bytes \<Rightarrow> i64 \<Rightarrow> nat \<Rightarrow> (i64 list, array_error) outcome" where
  "unmarshal_int64_nearest_delta2 dst src first_value items_count =
    (if items_count < 2 then Panic
     else obind (map_err DeltaVarint (unmarshal_var_int64s (items_count - 1) src)) (\<lambda>(ds, tail).
       if tail \<noteq> [] then Err (TailLeft (length tail))
       else (case ds of
           [] \<Rightarrow> Panic
         | d1 # d2s \<Rightarrow> Ok (dst @ first_value # (first_value + d1) #
                             undeltas2 d1 (first_value + d1) d2s))))"

subsection \<open>Definitions: arrays\<close>

text \<open>
  The test \<open>(compressed as f64) > 0.9 * (plain as f64)\<close> is written over the integers; both agree
  for every block below \<open>2 ^ 50\<close> bytes, where the lengths and the rounded product are exact
  enough to separate the two sides.
\<close>

definition marshal_int64_array ::
    "zstd \<Rightarrow> bytes \<Rightarrow> i64 list \<Rightarrow> nat \<Rightarrow> (bytes \<times> MarshalType \<times> i64, array_error) outcome" where
  "marshal_int64_array z dst a precision_bits =
    (case a of
       [] \<Rightarrow> Panic
     | a0 # _ \<Rightarrow>
       if is_const a then Ok (dst, MT_CONST, a0)
       else if is_delta_const a then Ok (marshal_var_int64 dst (a ! 1 - a0), DELTA_CONST, a0)
       else
         (let gauge = is_gauge a in
          obind (if gauge then
                   marshal_int64_nearest_delta [] a
                     (if precision_bits < 6 then precision_bits + 2 else precision_bits)
                 else marshal_int64_nearest_delta2 [] a precision_bits)
           (\<lambda>(bb, first_value).
             let packed = (if length bb \<ge> 128
                 then compress_zstd_level z dst bb (get_compress_level (length a)) else dst)
             in if length bb < 128 \<or> 10 * (length packed - length dst) > 9 * length bb
                then Ok (dst @ bb, if gauge then NEAREST_DELTA else NEAREST_DELTA2, first_value)
                else Ok (packed, if gauge then ZSTD_NEAREST_DELTA else ZSTD_NEAREST_DELTA2,
                         first_value))))"

primrec delta_const_items :: "nat \<Rightarrow> i64 \<Rightarrow> i64 \<Rightarrow> i64 list" where
  "delta_const_items 0 v d = []"
| "delta_const_items (Suc n) v d = v # delta_const_items n (v + d) d"

definition unmarshal_int64_array ::
    "zstd \<Rightarrow> i64 list \<Rightarrow> bytes \<Rightarrow> MarshalType \<Rightarrow> i64 \<Rightarrow> nat \<Rightarrow> (i64 list, array_error) outcome" where
  "unmarshal_int64_array z dst src mt first_value items_count =
    (if mt = ZSTD_NEAREST_DELTA then
       (case zdecompress z src of
          None \<Rightarrow> Err DecompressFailed
        | Some bb \<Rightarrow> map_err AfterZstd (unmarshal_int64_nearest_delta dst bb first_value items_count))
     else if mt = ZSTD_NEAREST_DELTA2 then
       (case zdecompress z src of
          None \<Rightarrow> Err DecompressFailed
        | Some bb \<Rightarrow> map_err AfterZstd (unmarshal_int64_nearest_delta2 dst bb first_value items_count))
     else if mt = NEAREST_DELTA then unmarshal_int64_nearest_delta dst src first_value items_count
     else if mt = NEAREST_DELTA2 then unmarshal_int64_nearest_delta2 dst src first_value items_count
     else if mt = MT_CONST then
       (if src \<noteq> [] then Err (ConstDataLeft (length src))
        else if first_value = 0 then Ok (dst @ replicate items_count 0)
        else if first_value = 1 then Ok (dst @ replicate items_count 1)
        else Ok (dst @ replicate items_count first_value))
     else if mt = DELTA_CONST then
       (let (d, n_len) = unmarshal_var_int64 src in
        if n_len \<le> 0 then Err NoDeltaConst
        else if nat n_len < length src then
          Err (TrailingAfterDeltaConst d (length src - nat n_len))
        else Ok (dst @ delta_const_items items_count first_value d))
     else Err (UnknownMarshalType mt))"

definition marshal_timestamps ::
    "zstd \<Rightarrow> bytes \<Rightarrow> i64 list \<Rightarrow> nat \<Rightarrow> (bytes \<times> MarshalType \<times> i64, array_error) outcome" where
  "marshal_timestamps z dst timestamps precision_bits =
    marshal_int64_array z dst timestamps precision_bits"

definition unmarshal_timestamps ::
    "zstd \<Rightarrow> i64 list \<Rightarrow> bytes \<Rightarrow> MarshalType \<Rightarrow> i64 \<Rightarrow> nat \<Rightarrow> (i64 list, array_error) outcome" where
  "unmarshal_timestamps z dst src mt first_timestamp items_count =
    unmarshal_int64_array z dst src mt first_timestamp items_count"

text \<open>\<open>ensure_non_decreasing_sequence\<close>: the forward pass, then the backward pass from the end.\<close>

primrec raise_prefix :: "i64 \<Rightarrow> i64 list \<Rightarrow> i64 list" where
  "raise_prefix v_prev [] = []"
| "raise_prefix v_prev (v # vs) =
    (let v' = (if v <s v_prev then v_prev else v) in v' # raise_prefix v' vs)"

text \<open>The backward loop, over the reversed items before the last one; it stops at the first small item.\<close>

primrec cap_suffix :: "i64 \<Rightarrow> i64 list \<Rightarrow> i64 list" where
  "cap_suffix v_max [] = []"
| "cap_suffix v_max (v # vs) = (if v \<le>s v_max then v # vs else v_max # cap_suffix v_max vs)"

definition ensure_non_decreasing_sequence ::
    "i64 list \<Rightarrow> i64 \<Rightarrow> i64 \<Rightarrow> (i64 list, array_error) outcome" where
  "ensure_non_decreasing_sequence a v_min v_max =
    (if v_max <s v_min then Panic
     else case a of
       [] \<Rightarrow> Ok []
     | _ # rest \<Rightarrow>
        (let b = v_min # raise_prefix v_min rest in
         if last b \<noteq> v_max then Ok (rev (cap_suffix v_max (rev (butlast b))) @ [v_max])
         else Ok b))"


subsection \<open>Delta lists\<close>

lemma undeltas_deltas64 [simp]: "undeltas v (deltas64 v src) = src"
  by (induction src arbitrary: v) (simp_all add: Let_def)

lemma undeltas2_deltas2_64 [simp]: "undeltas2 d1 v (deltas2_64 d1 v src) = src"
  by (induction src arbitrary: d1 v) (simp_all add: Let_def)

lemma length_deltas64 [simp]: "length (deltas64 v src) = length src"
  by (induction src arbitrary: v) (simp_all add: Let_def)

lemma length_deltas2_64 [simp]: "length (deltas2_64 d1 v src) = length src"
  by (induction src arbitrary: d1 v) (simp_all add: Let_def)

lemma length_deltas [simp]: "length (deltas pb v tz src) = length src"
  by (induction src arbitrary: v tz) (simp_all add: split_beta)

lemma length_deltas2 [simp]: "length (deltas2 pb d1 v tz src) = length src"
  by (induction src arbitrary: d1 v tz) (simp_all add: split_beta Let_def)

lemma length_undeltas [simp]: "length (undeltas v ds) = length ds"
  by (induction ds arbitrary: v) (simp_all add: Let_def)

lemma length_undeltas2 [simp]: "length (undeltas2 d1 v ds) = length ds"
  by (induction ds arbitrary: d1 v) (simp_all add: Let_def)

subsection \<open>Single signed values inside a batch\<close>

text \<open>
  \<open>marshal_int64_nearest_delta2\<close> writes its first delta with \<open>marshal_var_int64\<close> and the rest with
  the batch encoder; the batch decoder reads both, including the two-byte form of \<open>-64\<close>.
\<close>

lemma uvarint_marshal_var_int64:
  "uvarint (marshal_var_int64 [] v @ rest) = (zigzag v, int (length (marshal_var_int64 [] v)))"
proof (cases "v = - 64")
  case True
  have "zigzag (- 64) = 127" by (simp add: zigzag_def)
  with True show ?thesis by (simp add: marshal_var_int64_eq uvarint_def)
next
  case False
  then show ?thesis by (simp add: marshal_var_int64_eq uvarint_varint)
qed

lemma unmarshal_var_int64_marshal:
  "unmarshal_var_int64 (marshal_var_int64 [] v @ rest) = (v, int (length (marshal_var_int64 [] v)))"
  by (simp add: unmarshal_var_int64_def uvarint_marshal_var_int64)

lemma unmarshal_var_step_marshal_int64:
  "unmarshal_var_step (marshal_var_int64 [] v @ rest) 0 =
    Ok (zigzag v, length (marshal_var_int64 [] v))"
  using unmarshal_var_step_uvarint [OF uvarint_marshal_var_int64, of v rest "[]"]
    varint_bytes_tenth [of "zigzag v"]
  by (auto simp: marshal_var_int64_eq nth_append split: if_splits)

lemma marshal_var_int64_append: "marshal_var_int64 dst v = dst @ marshal_var_int64 [] v"
  by (simp add: marshal_var_int64_eq)

lemma marshal_var_int64_nonempty: "marshal_var_int64 [] v \<noteq> []"
  by (simp add: marshal_var_int64_eq)

lemma marshal_var_int64s_append: "marshal_var_int64s dst vs = dst @ marshal_var_int64s [] vs"
  by (simp add: codec_simps)

lemma unmarshal_var_int64s_head:
  "unmarshal_var_int64s (Suc (length vs)) (marshal_var_int64s (marshal_var_int64 [] v) vs) = Ok (v # vs, [])"
proof -
  let ?h = "marshal_var_int64 [] v"
  let ?t = "concat (map varint_bytes (map zigzag vs))"
  have "Suc (length vs) \<le> length (?h @ ?t)"
    using length_concat_varints [of "map zigzag vs"] marshal_var_int64_nonempty [of v]
    by (cases ?h) (auto simp del: map_map)
  moreover have "unmarshal_var_uint64s_slow (Suc (length vs)) (?h @ ?t) 0 =
      Ok (zigzag v # map zigzag vs, length (?h @ ?t))"
    using unmarshal_var_uint64s_slow_varints [of "map zigzag vs" ?h "[]"]
    by (simp add: unmarshal_var_step_marshal_int64 del: map_map)
  ultimately show ?thesis
    using marshal_var_int64s_eq [of ?h vs]
    by (simp add: unmarshal_var_int64s_as_uint64s unmarshal_var_uint64s_as_slow comp_def)
qed

subsection \<open>Lossless arrays\<close>

lemma check_precision_bits_64 [simp]: "check_precision_bits 64 = Ok ()"
  by (simp add: check_precision_bits_def)

lemma nearest_delta_roundtrip:
  assumes "marshal_int64_nearest_delta [] a 64 = Ok (bb, v)"
  shows "unmarshal_int64_nearest_delta out bb v (length a) = Ok (out @ a)"
  using assms unmarshal_var_int64s_varints [of "deltas64 (hd a) (tl a)" "[]"]
  by (auto simp: marshal_int64_nearest_delta_def unmarshal_int64_nearest_delta_def codec_simps
      split: list.splits)

lemma nearest_delta2_roundtrip:
  assumes "marshal_int64_nearest_delta2 [] a 64 = Ok (bb, v)"
  shows "unmarshal_int64_nearest_delta2 out bb v (length a) = Ok (out @ a)"
proof -
  from assms obtain v1 rest where a: "a = v # v1 # rest"
    and bb: "bb = marshal_var_int64s (marshal_var_int64 [] (v1 - v)) (deltas2_64 (v1 - v) v1 rest)"
    by (auto simp: marshal_int64_nearest_delta2_def Let_def split: list.splits)
  show ?thesis
    using unmarshal_var_int64s_head [of "deltas2_64 (v1 - v) v1 rest" "v1 - v"]
    by (simp add: a bb unmarshal_int64_nearest_delta2_def)
qed

lemma nearest_delta_total: "a \<noteq> [] \<Longrightarrow> \<exists>bb v. marshal_int64_nearest_delta [] a 64 = Ok (bb, v)"
  by (auto simp: marshal_int64_nearest_delta_def neq_Nil_conv)

lemma nearest_delta2_total:
  "2 \<le> length a \<Longrightarrow> \<exists>bb v. marshal_int64_nearest_delta2 [] a 64 = Ok (bb, v)"
  by (cases a; cases "tl a") (auto simp: marshal_int64_nearest_delta2_def Let_def)

lemma is_const_replicate: "is_const (v # a) \<Longrightarrow> v # a = replicate (length (v # a)) v"
  using replicate_length_same [of a v] by (auto simp: is_const_def list_all_iff)

lemma same_delta_items: "same_delta d v a \<Longrightarrow> a = delta_const_items (length a) (v + d) d"
proof (induction a arbitrary: v)
  case (Cons x a)
  then have "x = v + d" "same_delta d x a" by (auto split: if_splits simp: algebra_simps)
  with Cons.IH [of x] show ?case by simp
qed simp

lemma is_delta_const_items:
  assumes "is_delta_const a"
  shows "a = delta_const_items (length a) (a ! 0) (a ! 1 - a ! 0)"
proof -
  from assms obtain v0 v1 rest where a: "a = v0 # v1 # rest" "same_delta (v1 - v0) v1 rest"
    by (auto simp: is_delta_const_def split: list.splits)
  with same_delta_items [of "v1 - v0" v1 rest] show ?thesis by simp
qed

lemma not_const_length: "a \<noteq> [] \<Longrightarrow> \<not> is_const a \<Longrightarrow> 2 \<le> length a"
  by (cases a; cases "tl a") (auto simp: is_const_def)

lemma int64_array_lossless:
  assumes z: "zstd_ok z" and a: "a \<noteq> []"
  shows "\<exists>blk mt v. marshal_int64_array z dst a 64 = Ok (dst @ blk, mt, v) \<and>
    unmarshal_int64_array z out blk mt v (length a) = Ok (out @ a)"
proof -
  from a obtain a0 as where aa: "a = a0 # as" by (cases a) auto
  consider "is_const a" | "\<not> is_const a" "is_delta_const a" | "\<not> is_const a" "\<not> is_delta_const a"
    by blast
  then show ?thesis
  proof cases
    case 1
    then have "out @ replicate (length a) a0 = out @ a" using is_const_replicate [of a0 as] aa by simp
    with 1 aa show ?thesis
      by (intro exI [of _ "[]"] exI [of _ 3] exI [of _ a0])
         (auto simp: marshal_int64_array_def unmarshal_int64_array_def)
  next
    case 2
    have "out @ delta_const_items (length a) a0 (a ! 1 - a0) = out @ a"
      using is_delta_const_items [OF 2(2)] aa by simp
    moreover have "marshal_int64_array z dst a 64 =
        Ok (dst @ marshal_var_int64 [] (a ! 1 - a0), DELTA_CONST, a0)"
      using 2 aa marshal_var_int64_append [of dst "a ! 1 - a0"] by (simp add: marshal_int64_array_def)
    ultimately show ?thesis
      using unmarshal_var_int64_marshal [of "a ! 1 - a0" "[]"] marshal_var_int64_nonempty [of "a ! 1 - a0"]
      by (intro exI [of _ "marshal_var_int64 [] (a ! 1 - a0)"] exI [of _ 2] exI [of _ a0])
         (simp add: unmarshal_int64_array_def)
  next
    case 3
    let ?m = "if is_gauge a then marshal_int64_nearest_delta [] a 64
              else marshal_int64_nearest_delta2 [] a 64"
    obtain bb v where bb: "?m = Ok (bb, v)"
      using nearest_delta_total [OF a] nearest_delta2_total [OF not_const_length [OF a 3(1)]] by force
    have un: "(if is_gauge a then unmarshal_int64_nearest_delta out bb v (length a)
        else unmarshal_int64_nearest_delta2 out bb v (length a)) = Ok (out @ a)"
      using bb nearest_delta_roundtrip nearest_delta2_roundtrip by (auto split: if_splits)
    have zd: "zdecompress z (zcompress z l bb) = Some bb" for l
      using z by (simp add: zstd_ok_def)
    let ?c = "zcompress z (encoder_level_from_zstd (get_compress_level (length a))) bb"
    let ?plain = "length bb < 128 \<or> 10 * length ?c > 9 * length bb"
    have m: "marshal_int64_array z dst a 64 = (if ?plain
        then Ok (dst @ bb, if is_gauge a then NEAREST_DELTA else NEAREST_DELTA2, v)
        else Ok (dst @ ?c, if is_gauge a then ZSTD_NEAREST_DELTA else ZSTD_NEAREST_DELTA2, v))"
      using 3 aa bb by (auto simp: marshal_int64_array_def compress_zstd_level_def Let_def)
    have "unmarshal_int64_array z out bb (if is_gauge a then NEAREST_DELTA else NEAREST_DELTA2) v
        (length a) = Ok (out @ a)"
      "unmarshal_int64_array z out ?c (if is_gauge a then ZSTD_NEAREST_DELTA else ZSTD_NEAREST_DELTA2)
        v (length a) = Ok (out @ a)"
      using un zd by (auto simp: unmarshal_int64_array_def split: if_splits)
    with m show ?thesis by (cases ?plain) auto
  qed
qed

subsection \<open>The error bound of the lossy encoding\<close>

lemma origin_bits_le: "origin_bits v \<le> 64"
  using bit_len_le [of "unat (wrapping_abs v)" 64] unsigned_less [of "wrapping_abs v", where ?'a = nat]
  by (simp add: origin_bits_def)

lemma clear_low_bits: "(m :: i64) - (m AND push_bit t (- 1)) = take_bit t m"
proof -
  have "(m AND push_bit t (- 1)) AND take_bit t m = 0"
    by (rule bit_word_eqI) (auto simp: bit_simps)
  moreover have "(m AND push_bit t (- 1)) OR take_bit t m = m"
    by (rule bit_word_eqI) (auto simp: bit_simps)
  ultimately have "m = (m AND push_bit t (- 1)) + take_bit t m"
    using disjunctive_add_eq_or [of "m AND push_bit t (- 1)" "take_bit t m"] by metis
  then show ?thesis by (metis add_diff_cancel_left')
qed

lemma sint_take_bit: "t \<le> 63 \<Longrightarrow> 0 \<le> sint (take_bit t (m :: i64)) \<and> sint (take_bit t m) < 2 ^ t"
proof -
  assume t: "t \<le> 63"
  have "uint (take_bit t m) = take_bit t (uint m)" using t by (simp add: unsigned_take_bit_eq)
  then have u: "0 \<le> uint (take_bit t m)" "uint (take_bit t m) < 2 ^ t"
    by (simp_all add: take_bit_int_less_exp)
  have "(2::int) ^ t \<le> 2 ^ 63" using t by (intro power_increasing) auto
  with u have "sint (take_bit t m) = uint (take_bit t m)"
    unfolding sint_uint by (intro signed_take_bit_int_eq_self) (auto intro: order_trans [of _ 0])
  with u show ?thesis by simp
qed

lemma sint_uminus_small: "\<bar>sint (x :: i64)\<bar> < 2 ^ 63 \<Longrightarrow> sint (- x) = - sint x"
  unfolding sint_word_minus by (intro signed_take_bit_int_eq_self) auto

lemma nearest_delta_error:
  assumes "1 \<le> pb" "nearest_delta nxt prev pb tz = (nd, tz')"
  shows "\<bar>sint (nxt - (prev + nd))\<bar> < 2 ^ (origin_bits nxt - pb)"
proof (cases "nd = nxt - prev")
  case False
  let ?t = "origin_bits nxt - pb"
  let ?d = "nxt - prev"
  let ?nd = "wrapping_abs ?d AND push_bit ?t (- 1)"
  have t: "?t \<le> 63" using origin_bits_le [of nxt] assms(1) by simp
  from assms(2) False have nd: "nd = (if ?d <s 0 then - ?nd else ?nd)"
    by (auto simp: nearest_delta_def Let_def split: if_splits)
  have s: "0 \<le> sint (take_bit ?t (wrapping_abs ?d))" "sint (take_bit ?t (wrapping_abs ?d)) < 2 ^ ?t"
    using sint_take_bit [OF t] by auto
  moreover have "(2::int) ^ ?t \<le> 2 ^ 63" using t by (intro power_increasing) auto
  ultimately have n: "sint (- take_bit ?t (wrapping_abs ?d)) = - sint (take_bit ?t (wrapping_abs ?d))"
    by (intro sint_uminus_small) linarith
  have "nxt - (prev + nd) = (if ?d <s 0 then - (wrapping_abs ?d - ?nd) else wrapping_abs ?d - ?nd)"
    by (simp add: nd wrapping_abs_def algebra_simps)
  also have "\<dots> = (if ?d <s 0 then - take_bit ?t (wrapping_abs ?d) else take_bit ?t (wrapping_abs ?d))"
    by (simp only: clear_low_bits)
  finally show ?thesis using s n by simp
qed simp

lemma nearest_delta_tz:
  assumes "1 \<le> pb" "tz \<le> 63" "nearest_delta nxt prev pb tz = (nd, tz')"
  shows "tz' \<le> 63"
  using assms origin_bits_le [of nxt]
  by (auto simp: nearest_delta_def Let_def dec_if_non_zero_def split: if_splits)

lemma undeltas_error:
  assumes "1 \<le> pb"
  shows "list_all2 (\<lambda>x y. \<bar>sint (x - y)\<bar> < 2 ^ (origin_bits x - pb)) src (undeltas v (deltas pb v tz src))"
  using nearest_delta_error [OF assms]
  by (induction src arbitrary: v tz) (auto simp: Let_def split: prod.splits)

subsection \<open>Repairing timestamps\<close>

lemma raise_prefix_sorted:
  "sorted_wrt (\<le>s) (v # raise_prefix v vs)"
proof (induction vs arbitrary: v)
  case (Cons x vs)
  let ?x = "if x <s v then v else x"
  have le: "v \<le>s ?x" by (auto simp: signed.not_less)
  with Cons.IH [of ?x] show ?case
    by (auto simp: Let_def intro: signed.order_trans)
qed simp

lemma length_raise_prefix [simp]: "length (raise_prefix v vs) = length vs"
  by (induction vs arbitrary: v) (simp_all add: Let_def)

lemma length_cap_suffix [simp]: "length (cap_suffix m vs) = length vs"
  by (induction vs) auto

lemma cap_suffix_sorted:
  assumes "sorted_wrt (\<lambda>x y. y \<le>s x) vs"
  shows "sorted_wrt (\<lambda>x y. y \<le>s x) (m # cap_suffix m vs)"
  using assms
proof (induction vs)
  case (Cons x vs)
  then show ?case by (auto intro: signed.order_trans)
qed simp

lemma cap_suffix_Nil [simp]: "cap_suffix m vs = [] \<longleftrightarrow> vs = []"
  by (cases vs) auto

lemma last_cap_suffix: "vs \<noteq> [] \<Longrightarrow> last vs \<le>s m \<Longrightarrow> last (cap_suffix m vs) = last vs"
  by (induction vs) auto

lemma ensure_non_decreasing_spec:
  assumes "v_min \<le>s v_max" "a \<noteq> []"
  shows "\<exists>b. ensure_non_decreasing_sequence a v_min v_max = Ok b \<and> length b = length a \<and>
    sorted_wrt (\<le>s) b \<and> last b = v_max \<and> (2 \<le> length a \<longrightarrow> hd b = v_min)"
proof -
  from assms(2) obtain x rest where a: "a = x # rest" by (cases a) auto
  let ?b = "v_min # raise_prefix v_min rest"
  have s: "sorted_wrt (\<le>s) ?b" by (rule raise_prefix_sorted)
  have nm: "\<not> v_max <s v_min" using assms(1) by (simp add: signed.not_less)
  show ?thesis
  proof (cases "last ?b = v_max")
    case True
    with a s nm show ?thesis by (simp add: ensure_non_decreasing_sequence_def)
  next
    case False
    let ?c = "cap_suffix v_max (rev (butlast ?b))"
    have e: "ensure_non_decreasing_sequence a v_min v_max = Ok (rev ?c @ [v_max])"
      using a nm False by (simp add: ensure_non_decreasing_sequence_def)
    have "sorted_wrt (\<le>s) (butlast ?b)" using s by (metis append_butlast_last_id list.distinct(1) sorted_wrt_append)
    then have "sorted_wrt (\<lambda>x y. y \<le>s x) (rev (butlast ?b))" by (simp add: sorted_wrt_rev)
    from cap_suffix_sorted [OF this, of v_max] have "sorted_wrt (\<le>s) (rev ?c @ [v_max])"
      by (simp add: sorted_wrt_append sorted_wrt_rev)
    moreover have "hd (rev ?c @ [v_max]) = v_min" if "2 \<le> length a"
    proof -
      have ne: "butlast ?b \<noteq> []" using that a by (cases rest) (simp_all add: Let_def)
      then have "hd (butlast ?b) = v_min" by (cases rest) (auto simp: Let_def)
      then have "last (rev (butlast ?b)) = v_min" using ne by (simp add: last_rev)
      with last_cap_suffix [of "rev (butlast ?b)" v_max] ne assms(1) have "last ?c = v_min" by simp
      moreover have "?c \<noteq> []" using ne by (metis length_0_conv length_cap_suffix length_rev)
      ultimately show ?thesis by (simp add: hd_rev)
    qed
    moreover have "length (rev ?c @ [v_max]) = length a"
      using a by (simp only: length_append length_rev length_cap_suffix length_butlast) simp
    moreover have "last (rev ?c @ [v_max]) = v_max" by (rule last_snoc)
    ultimately show ?thesis unfolding e by blast
  qed
qed


subsection \<open>Properties\<close>

text \<open>C5: Timestamps and numeric columns are stored without loss. Encoding a non-empty array with 64
  precision bits, as the storage does, always succeeds, appends one block to the destination and
  chooses a marshal type; decoding that block with that type, first value and item count gives
  the array back, whichever of the constant, delta, delta-of-delta and compressed encodings was
  chosen. The compression library is only required to decompress what it compressed.\<close>

theorem timestamps_lossless:
  assumes "zstd_ok z" "a \<noteq> []"
  shows "\<exists>blk mt v. marshal_timestamps z dst a 64 = Ok (dst @ blk, mt, v) \<and>
    unmarshal_timestamps z out blk mt v (length a) = Ok (out @ a)"
  using int64_array_lossless [OF assms, of dst out]
  by (simp add: marshal_timestamps_def unmarshal_timestamps_def)

text \<open>A library that stores its input meets \<open>zstd_ok\<close>; the witnesses use it.\<close>

definition stored :: zstd where
  "stored = \<lparr>zcompress = (\<lambda>_ b. 0 # b), zdecompress = (\<lambda>c. if c = [] then None else Some (tl c))\<rparr>"

lemma stored_ok [simp]: "zstd_ok stored"
  by (simp add: stored_def zstd_ok_def)

theorem timestamps_lossless_witness:
  "\<exists>blk mt v. marshal_timestamps stored [] [10, 25, 31, 90] 64 = Ok ([] @ blk, mt, v) \<and>
    unmarshal_timestamps stored [] blk mt v (length [10, 25, 31, 90 :: i64]) = Ok ([] @ [10, 25, 31, 90])"
  using timestamps_lossless [of stored "[10, 25, 31, 90]" "[]" "[]"] by simp

text \<open>C29: The lossy delta encoding loses only what the precision allows. With \<open>pb\<close> precision bits a
  decoded item differs from the encoded one by less than two to the number of its bits beyond
  \<open>pb\<close> (so it is exact when it has at most \<open>pb\<close> bits), at every position: the errors do not add
  up along the array.\<close>

theorem nearest_delta_precision:
  assumes "1 \<le> pb" "pb < 64"
  shows "\<exists>blk ys. marshal_int64_nearest_delta dst (v # src) pb = Ok (dst @ blk, v) \<and>
    unmarshal_int64_nearest_delta out blk v (Suc (length src)) = Ok (out @ v # ys) \<and>
    list_all2 (\<lambda>x y. \<bar>sint (x - y)\<bar> < 2 ^ (origin_bits x - pb)) src ys"
proof -
  let ?ds = "deltas pb v (get_trailing_zeros v pb) src"
  have "marshal_int64_nearest_delta dst (v # src) pb = Ok (dst @ marshal_var_int64s [] ?ds, v)"
    using assms by (simp add: marshal_int64_nearest_delta_def check_precision_bits_def codec_simps)
  moreover have "unmarshal_int64_nearest_delta out (marshal_var_int64s [] ?ds) v (Suc (length src)) =
      Ok (out @ v # undeltas v ?ds)"
    using unmarshal_var_int64s_varints [of ?ds "[]"]
    by (simp add: unmarshal_int64_nearest_delta_def codec_simps)
  ultimately show ?thesis using undeltas_error [OF assms(1)] by blast
qed

theorem nearest_delta_precision_witness:
  "\<exists>blk ys. marshal_int64_nearest_delta [] (0 # [1000, 2001, 3003]) 4 = Ok ([] @ blk, 0) \<and>
    unmarshal_int64_nearest_delta [] blk 0 (Suc (length [1000, 2001, 3003 :: i64])) = Ok ([] @ 0 # ys) \<and>
    list_all2 (\<lambda>x y. \<bar>sint (x - y)\<bar> < 2 ^ (origin_bits x - 4)) [1000, 2001, 3003] ys"
  using nearest_delta_precision [of 4 "[]" 0 "[1000, 2001, 3003]" "[]"] by simp

text \<open>Repairing a damaged timestamp column always yields a usable one: for any non-empty input
  the result has as many items, never decreases, ends at the largest timestamp of the block
  header and, from two items on, starts at the smallest.\<close>

lemma repaired_timestamps_sorted:
  assumes "v_min \<le>s v_max" "a \<noteq> []"
  shows "\<exists>b. ensure_non_decreasing_sequence a v_min v_max = Ok b \<and> length b = length a \<and>
    sorted_wrt (\<le>s) b \<and> last b = v_max \<and> (2 \<le> length a \<longrightarrow> hd b = v_min)"
  by (rule ensure_non_decreasing_spec [OF assms])

end
