(* ===== verification/Block_Encoding.thy ===== *)
theory Block_Encoding
  imports Array_Encoding
begin

text \<open>
  \<^verbatim>\<open>esl-logstorage/src/encoding.rs\<close>: bytes blocks (plain below 128 bytes, zstd above), blocks of
  unsigned integers in the narrowest width that fits (with a special form for constant items), and
  blocks of strings built from both. Error values carry what the messages print. The lemmas close
  the round trip of every block type, and the string block keeps the values even where the encoder
  stored a constant value once.
\<close>

datatype block_error =
    EmptyBlockType
  | EmptyPlainSize
  | ShortPlain nat nat
  | BadCompressedSize
  | ShortCompressed nat nat
  | BlockDecompress
  | UnknownBlockType u8
  | EmptyUintType
  | TooLongDst nat
  | BadUintLength nat nat nat
  | BadConstLength nat nat
  | UnknownUintType u8
  | UintBlock block_error
  | StringLens block_error
  | StringBytes block_error
  | StringTail nat
  | ShortString nat nat

subsection \<open>Definitions: bytes blocks\<close>

definition block_compress_level :: "nat \<Rightarrow> nat" where
  "block_compress_level data_len =
    (if data_len \<le> 512 then 1 else if data_len \<le> 4 * 1024 then 2 else 3)"

definition marshal_bytes_block :: "zstd \<Rightarrow> bytes \<Rightarrow> bytes \<Rightarrow> bytes" where
  "marshal_bytes_block z dst src =
    (if length src < 128 then dst @ [0] @ [of_nat (length src)] @ src
     else let bb = compress_zstd_level z [] src (block_compress_level (length src))
          in marshal_var_uint64 (dst @ [1]) (of_nat (length bb)) @ bb)"

definition unmarshal_bytes_block ::
    "zstd \<Rightarrow> bytes \<Rightarrow> bytes \<Rightarrow> (bytes \<times> bytes, block_error) outcome" where
  "unmarshal_bytes_block z dst src =
    (case src of
       [] \<Rightarrow> Err EmptyBlockType
     | block_type # src \<Rightarrow>
       if block_type = 0 then
         (case src of
            [] \<Rightarrow> Err EmptyPlainSize
          | l # src \<Rightarrow>
             (let block_len = unat l in
              if length src < block_len then Err (ShortPlain block_len (length src))
              else Ok (dst @ take block_len src, drop block_len src)))
       else if block_type = 1 then
         (let (block_len, n_size) = unmarshal_var_uint64 src in
          if n_size \<le> 0 then Err BadCompressedSize
          else let src = drop (nat n_size) src in
            if length src < unat block_len then Err (ShortCompressed (unat block_len) (length src))
            else let compressed_block = take (unat block_len) src;
                     tail = drop (unat block_len) src
                 in case zdecompress z compressed_block of
                      None \<Rightarrow> Err BlockDecompress
                    | Some bb \<Rightarrow> Ok (dst @ bb, tail))
       else Err (UnknownBlockType block_type))"

subsection \<open>Definitions: blocks of unsigned integers\<close>

definition are_const_uint64s :: "u64 list \<Rightarrow> bool" where
  "are_const_uint64s a = (case a of [] \<Rightarrow> False | v # vs \<Rightarrow> list_all (\<lambda>x. x = v) vs)"

definition are_const_values :: "bytes list \<Rightarrow> bool" where
  "are_const_values a = (case a of [] \<Rightarrow> False | v # vs \<Rightarrow> list_all (\<lambda>x. x = v) vs)"

definition marshal_uint64_items :: "bytes \<Rightarrow> u64 list \<Rightarrow> bytes" where
  "marshal_uint64_items dst a =
    (let n_max = fold max a 0;
         are_consts = (length a \<ge> 2 \<and> are_const_uint64s a)
     in if n_max < 2 ^ 8 then
          (if are_consts then dst @ [4] @ [ucast (a ! 0)] else dst @ [0] @ map ucast a)
        else if n_max < 2 ^ 16 then
          (if are_consts then marshal_uint16 (dst @ [5]) (ucast (a ! 0))
           else foldl (\<lambda>d n. marshal_uint16 d (ucast n)) (dst @ [1]) a)
        else if n_max < 2 ^ 32 then
          (if are_consts then marshal_uint32 (dst @ [6]) (ucast (a ! 0))
           else foldl (\<lambda>d n. marshal_uint32 d (ucast n)) (dst @ [2]) a)
        else if are_consts then marshal_uint64 (dst @ [7]) (a ! 0)
        else foldl marshal_uint64 (dst @ [3]) a)"

text \<open>
  \<open>unmarshal_uint64_items\<close> first resizes \<open>dst\<close> to \<open>dst.len() + items_count\<close>. The 8-bit branch
  writes behind the previous contents; every other branch writes \<open>items_count\<close> items from the
  start of \<open>dst\<close>, as the source's note says. \<open>write_prefix\<close> is that second kind of write. The
  sum \<open>dst.len() as u64 + items_count\<close> wraps, as it does in the release profile.
\<close>

definition write_prefix :: "u64 list \<Rightarrow> u64 list \<Rightarrow> u64 list" where
  "write_prefix dst vs = vs @ drop (length vs) dst"

text \<open>\<open>src[i * w .. i * w + w]\<close> for the \<open>i\<close>-th item of width \<open>w\<close>.\<close>

definition item_at :: "nat \<Rightarrow> bytes \<Rightarrow> nat \<Rightarrow> bytes" where
  "item_at w src i = take w (drop (w * i) src)"

definition unmarshal_uint64_items ::
    "u64 list \<Rightarrow> bytes \<Rightarrow> u64 \<Rightarrow> (u64 list, block_error) outcome" where
  "unmarshal_uint64_items dst src items =
    (case src of
       [] \<Rightarrow> Err EmptyUintType
     | block_type # src \<Rightarrow>
       (let dst_len = of_nat (length dst) + items :: u64 in
        if unat dst_len > 2 ^ 63 - 1 then Err (TooLongDst (unat dst_len))
        else let prev_len = length dst;
                 d = set_length dst (unat dst_len);
                 n = unat items;
                 cnt = min n (length d)
          in if block_type = 0 then
               (if length src \<noteq> n then Err (BadUintLength n (length src) n)
                else if prev_len > length d then Panic
                else Ok (take prev_len d @ map ucast src))
             else if block_type = 1 then
               (if length src \<noteq> 2 * n then Err (BadUintLength n (length src) (2 * n))
                else Ok (write_prefix d (map (\<lambda>i. ucast (from_be_bytes (item_at 2 src i) :: u16)) [0..<cnt])))
             else if block_type = 2 then
               (if length src \<noteq> 4 * n then Err (BadUintLength n (length src) (4 * n))
                else Ok (write_prefix d (map (\<lambda>i. ucast (from_be_bytes (item_at 4 src i) :: u32)) [0..<cnt])))
             else if block_type = 3 then
               (if length src \<noteq> 8 * n then Err (BadUintLength n (length src) (8 * n))
                else Ok (write_prefix d (map (\<lambda>i. from_be_bytes (item_at 8 src i)) [0..<cnt])))
             else if block_type = 4 then
               (if length src \<noteq> 1 then Err (BadConstLength (length src) 1)
                else Ok (write_prefix d (replicate cnt (ucast (src ! 0)))))
             else if block_type = 5 then
               (if length src \<noteq> 2 then Err (BadConstLength (length src) 2)
                else Ok (write_prefix d (replicate cnt (ucast (from_be_bytes src :: u16)))))
             else if block_type = 6 then
               (if length src \<noteq> 4 then Err (BadConstLength (length src) 4)
                else Ok (write_prefix d (replicate cnt (ucast (from_be_bytes src :: u32)))))
             else if block_type = 7 then
               (if length src \<noteq> 8 then Err (BadConstLength (length src) 8)
                else Ok (write_prefix d (replicate cnt (from_be_bytes src))))
             else Err (UnknownUintType block_type)))"

definition marshal_uint64_block :: "zstd \<Rightarrow> bytes \<Rightarrow> u64 list \<Rightarrow> bytes" where
  "marshal_uint64_block z dst a = marshal_bytes_block z dst (marshal_uint64_items [] a)"

definition unmarshal_uint64_block ::
    "zstd \<Rightarrow> u64 list \<Rightarrow> bytes \<Rightarrow> u64 \<Rightarrow> (u64 list \<times> bytes, block_error) outcome" where
  "unmarshal_uint64_block z dst src items_count =
    obind (unmarshal_bytes_block z [] src) (\<lambda>(bb, tail).
      obind (map_err UintBlock (unmarshal_uint64_items dst bb items_count)) (\<lambda>dst'. Ok (dst', tail)))"

subsection \<open>Definitions: blocks of strings\<close>

definition marshal_strings_block :: "zstd \<Rightarrow> bytes \<Rightarrow> bytes list \<Rightarrow> bytes" where
  "marshal_strings_block z dst a =
    (let dst1 = marshal_uint64_block z dst (map (\<lambda>s. of_nat (length s)) a)
     in if are_const_values a then marshal_bytes_block z dst1 (a ! 0)
        else marshal_bytes_block z dst1 (concat a))"

fun split_strings :: "u64 list \<Rightarrow> bytes \<Rightarrow> (bytes list, block_error) outcome" where
  "split_strings [] data = Ok []"
| "split_strings (l # ls) data =
    (if length data < unat l then Err (ShortString (unat l) (length data))
     else obind (split_strings ls (drop (unat l) data)) (\<lambda>ss. Ok (take (unat l) data # ss)))"

text \<open>
  \<open>StringsBlockUnmarshaler::unmarshal\<close>: the staging buffer \<open>data\<close> of the unmarshaler is state;
  the block's bytes are appended to it and the strings are cut out of the appended part.
\<close>

record StringsBlockUnmarshaler =
  sbu_data :: bytes

definition sbu_reset :: "StringsBlockUnmarshaler \<Rightarrow> StringsBlockUnmarshaler" where
  "sbu_reset sbu = sbu\<lparr>sbu_data := []\<rparr>"

definition sbu_unmarshal ::
    "zstd \<Rightarrow> StringsBlockUnmarshaler \<Rightarrow> bytes list \<Rightarrow> bytes \<Rightarrow> u64
      \<Rightarrow> (StringsBlockUnmarshaler \<times> bytes list, block_error) outcome" where
  "sbu_unmarshal z sbu dst src items_count =
    obind (map_err StringLens (unmarshal_uint64_block z [] src items_count)) (\<lambda>(a_lens, src).
    obind (map_err StringBytes (unmarshal_bytes_block z (sbu_data sbu) src)) (\<lambda>(data', tail).
      let sbu' = sbu\<lparr>sbu_data := data'\<rparr> in
      if tail \<noteq> [] then Err (StringTail (length tail))
      else let data = drop (length (sbu_data sbu)) data' in
        if length a_lens \<ge> 2 \<and> are_const_uint64s a_lens \<and> length data = unat (a_lens ! 0)
        then Ok (sbu', dst @ replicate (length a_lens) data)
        else obind (split_strings a_lens data) (\<lambda>ss. Ok (sbu', dst @ ss))))"


subsection \<open>Bytes blocks\<close>

lemma unat_of_nat_small: "n < 2 ^ LENGTH('a) \<Longrightarrow> unat (of_nat n :: 'a::len word) = n"
  by (simp add: unat_of_nat take_bit_nat_eq_self)

lemma marshal_bytes_block_append: "marshal_bytes_block z dst src = dst @ marshal_bytes_block z [] src"
  by (simp add: marshal_bytes_block_def Let_def codec_simps)

lemma unmarshal_bytes_block_marshal:
  assumes "zstd_ok z" "length src < 2 ^ 62"
  shows "unmarshal_bytes_block z dst (marshal_bytes_block z [] src @ rest) = Ok (dst @ src, rest)"
proof (cases "length src < 128")
  case True
  then have "unat (of_nat (length src) :: u8) = length src" by (simp add: unat_of_nat_small)
  with True show ?thesis by (simp add: marshal_bytes_block_def unmarshal_bytes_block_def)
next
  case False
  let ?c = "zcompress z (encoder_level_from_zstd (block_compress_level (length src))) src"
  have "length ?c \<le> length src + length src div 256 + 64" and d: "zdecompress z ?c = Some src"
    using assms by (auto simp: zstd_ok_def)
  then have "length ?c < 2 ^ 64" using assms(2) div_le_dividend [of "length src" 256] by simp
  then have "unat (of_nat (length ?c) :: u64) = length ?c" by (simp add: unat_of_nat_small)
  with False d show ?thesis
    by (simp add: marshal_bytes_block_def unmarshal_bytes_block_def Let_def compress_zstd_level_def
        codec_simps)
qed

lemma marshal_bytes_block_nonempty [simp]: "marshal_bytes_block z dst src \<noteq> []"
  by (simp add: marshal_bytes_block_def Let_def codec_simps)

subsection \<open>Blocks of integers\<close>

lemma fold_max_ge: "m \<le> fold max a (m :: u64)" "x \<in> set a \<Longrightarrow> x \<le> fold max a m"
proof (induction a arbitrary: m)
  case (Cons y a)
  case 1
  show ?case using Cons.IH(1) [of "max y m"] by simp
next
  case (Cons y a)
  case 2
  then show ?case using Cons.IH(1) [of "max y m"] Cons.IH(2) [of "max y m"] by auto
qed simp_all

lemma items_below: "fold max a 0 < (m :: u64) \<Longrightarrow> x \<in> set a \<Longrightarrow> x < m"
  using fold_max_ge(2) [of x a 0] by auto

lemma ucast_down_up:
  fixes x :: u64
  assumes "x < 2 ^ n" "n \<le> LENGTH('a::len)" "n < 64"
  shows "ucast (ucast x :: 'a word) = x"
proof (rule bit_word_eqI)
  fix i
  have "unat x < 2 ^ n" using assms less_exp_iff_unat [of n x] by simp
  then have "bit x i \<Longrightarrow> i < LENGTH('a)" using bit_bound [of x n i] assms(2) by linarith
  then show "bit (ucast (ucast x :: 'a word) :: u64) i = bit x i" 
    by (auto simp: bit_simps dest: bit_imp_le_length)
qed

lemma item_at_concat:
  assumes "\<And>x. length (f x) = w" "i < length a"
  shows "item_at w (concat (map f a)) i = f (a ! i)"
  using assms(2)
proof (induction a arbitrary: i)
  case (Cons x a)
  then show ?case by (cases i) (simp_all add: item_at_def assms(1))
qed simp

lemma length_concat_const: "(\<And>x. length (f x) = w) \<Longrightarrow> length (concat (map f a)) = w * length a"
  by (induction a) simp_all

lemma map_item_at:
  assumes "\<And>x. length (f x) = w" "\<And>x. x \<in> set a \<Longrightarrow> g (f x) = x"
  shows "map (\<lambda>i. g (item_at w (concat (map f a)) i)) [0..<length a] = a"
  by (rule nth_equalityI) (auto simp: item_at_concat [of f, OF assms(1)] assms(2))

lemma foldl_append_bytes: "foldl (\<lambda>d n. d @ f n) dst a = dst @ concat (map f a)"
  by (induction a arbitrary: dst) simp_all

lemma foldl_marshal_uint64: "foldl marshal_uint64 dst a = dst @ concat (map (to_be_bytes 8) a)"
  by (induction a arbitrary: dst) (simp_all add: marshal_uint64_def)

lemma are_const_uint64s_replicate:
  "are_const_uint64s a \<Longrightarrow> a = replicate (length a) (a ! 0)"
  using replicate_length_same [of "tl a" "hd a"]
  by (cases a) (auto simp: are_const_uint64s_def list_all_iff)

lemma write_prefix_full: "length d = length vs \<Longrightarrow> write_prefix d vs = vs"
  by (simp add: write_prefix_def)

lemmas uint_item_simps = marshal_uint16_def marshal_uint32_def marshal_uint64_def
  foldl_append_bytes foldl_marshal_uint64 write_prefix_full length_concat_const

lemma uint64_items_roundtrip:
  assumes len: "length a < 2 ^ 63"
  shows "unmarshal_uint64_items [] (marshal_uint64_items [] a) (of_nat (length a)) = Ok a"
proof -
  have n: "unat (of_nat (length a) :: u64) = length a" using len by (simp add: unat_of_nat_small)
  have b: "x < m" if "fold max a 0 < m" "x \<in> set a" for x m
    using that by (rule items_below)
  have c8: "ucast (ucast x :: u8) = x" if "fold max a 0 < 0x100" "x \<in> set a" for x
    using ucast_down_up [of x 8, where ?'a = 8] b [of 256 x] that by simp
  have c16: "ucast (ucast x :: u16) = x" if "fold max a 0 < 0x10000" "x \<in> set a" for x
    using ucast_down_up [of x 16, where ?'a = 16] b [of 65536 x] that by simp
  have c32: "ucast (ucast x :: u32) = x" if "fold max a 0 < 0x100000000" "x \<in> set a" for x
    using ucast_down_up [of x 32, where ?'a = 32] b [of 4294967296 x] that by simp
  have m8: "map (ucast \<circ> (ucast :: u64 \<Rightarrow> u8)) a = a" if "fold max a 0 < 0x100"
    using c8 [OF that] by (simp add: map_idI)
  have m16: "map (\<lambda>i. ucast (from_be_bytes (item_at 2 (concat (map (\<lambda>n. to_be_bytes 2 (ucast n :: u16)) a)) i) :: u16))
      [0..<length a] = a" if "fold max a 0 < 0x10000"
    using c16 [OF that] by (intro map_item_at [where g = "\<lambda>b. ucast (from_be_bytes b :: u16)"]) auto
  have m32: "map (\<lambda>i. ucast (from_be_bytes (item_at 4 (concat (map (\<lambda>n. to_be_bytes 4 (ucast n :: u32)) a)) i) :: u32))
      [0..<length a] = a" if "fold max a 0 < 0x100000000"
    using c32 [OF that] by (intro map_item_at [where g = "\<lambda>b. ucast (from_be_bytes b :: u32)"]) auto
  have m64: "map (\<lambda>i. from_be_bytes (item_at 8 (concat (map (to_be_bytes 8) a)) i)) [0..<length a] = a"
    by (intro map_item_at) auto
  have ne: "a ! 0 \<in> set a" if "2 \<le> length a" using that by (intro nth_mem) auto
  have r: "replicate (length a) (a ! 0) = a" if "2 \<le> length a" "are_const_uint64s a"
    using are_const_uint64s_replicate [OF that(2)] by simp
  have l: "\<not> 9223372036854775807 < length a" using len by simp
  show ?thesis
    using n r l ne c8 c16 c32 m8 m16 m32 m64
    by (simp add: marshal_uint64_items_def unmarshal_uint64_items_def Let_def uint_item_simps)
qed

lemma length_uint64_items: "length (marshal_uint64_items [] a) \<le> 1 + 8 * length a"
proof (cases a)
  case Nil
  then show ?thesis by (simp add: marshal_uint64_items_def uint_item_simps)
next
  case Cons
  then show ?thesis by (auto simp: marshal_uint64_items_def Let_def uint_item_simps)
qed

lemma uint64_block_roundtrip:
  assumes "zstd_ok z" "length a < 2 ^ 58"
  shows "unmarshal_uint64_block z [] (marshal_uint64_block z [] a @ rest) (of_nat (length a)) = Ok (a, rest)"
  using assms length_uint64_items [of a]
  by (simp add: unmarshal_uint64_block_def marshal_uint64_block_def unmarshal_bytes_block_marshal
      uint64_items_roundtrip)

lemma marshal_uint64_block_append: "marshal_uint64_block z dst a = dst @ marshal_uint64_block z [] a"
  unfolding marshal_uint64_block_def by (rule marshal_bytes_block_append)

subsection \<open>Blocks of strings\<close>

lemma split_strings_concat:
  assumes "\<forall>s \<in> set a. length s < 2 ^ 64"
  shows "split_strings (map (\<lambda>s. of_nat (length s)) a) (concat a) = Ok a"
  using assms by (induction a) (simp_all add: unat_of_nat_small)

lemma concat_same_length:
  "\<forall>s \<in> set a. length s = l \<Longrightarrow> length (concat a) = length a * l"
  by (induction a) simp_all

text \<open>
  The decoder takes the constant shortcut exactly when the encoder stored one value: distinct
  values of equal length \<open>l\<close> give a data block of \<open>length a * l\<close> bytes, which is \<open>l\<close> only for
  \<open>l = 0\<close>, and then all values are empty and equal.
\<close>

lemma const_shortcut:
  assumes lens: "\<forall>s \<in> set a. length s < 2 ^ 64" and two: "2 \<le> length a"
    and c: "are_const_uint64s (map (\<lambda>s. of_nat (length s)) a)"
    and d: "length (concat a) = unat (of_nat (length (a ! 0)) :: u64)"
  shows "are_const_values a"
proof -
  from two obtain s0 as where a: "a = s0 # as" "as \<noteq> []" by (cases a; cases "tl a") auto
  have eq: "length s = length s0" if "s \<in> set as" for s
  proof -
    have "(of_nat (length s) :: u64) = of_nat (length s0)"
      using c a that by (auto simp: are_const_uint64s_def list_all_iff)
    then have "unat (of_nat (length s) :: u64) = unat (of_nat (length s0) :: u64)" by simp
    then show ?thesis using lens a that by (simp add: unat_of_nat_small)
  qed
  then have "length (concat a) = length a * length s0"
    using a by (intro concat_same_length) auto
  moreover have "unat (of_nat (length (a ! 0)) :: u64) = length s0"
    using lens a by (simp add: unat_of_nat_small)
  ultimately have "s0 = []" using d a by auto
  with eq a show ?thesis by (auto simp: are_const_values_def list_all_iff)
qed

lemma are_const_values_replicate: "are_const_values a \<Longrightarrow> a = replicate (length a) (a ! 0)"
  using replicate_length_same [of "tl a" "hd a"]
  by (cases a) (auto simp: are_const_values_def list_all_iff)

lemma const_values_lens:
  "are_const_values a \<Longrightarrow> are_const_uint64s (map (\<lambda>s. of_nat (length s)) a)"
  by (cases a) (auto simp: are_const_values_def are_const_uint64s_def list_all_iff)

lemma length_concat_member: "s \<in> set a \<Longrightarrow> length s \<le> length (concat a)"
  by (induction a) auto

lemma strings_block_roundtrip:
  assumes z: "zstd_ok z" and n: "length a < 2 ^ 58" and total: "length (concat a) < 2 ^ 62"
  shows "sbu_unmarshal z sbu dst (marshal_strings_block z [] a) (of_nat (length a)) =
    Ok (sbu\<lparr>sbu_data := sbu_data sbu @ (if are_const_values a then a ! 0 else concat a)\<rparr>, dst @ a)"
proof -
  let ?lens = "map (\<lambda>s. of_nat (length s)) a :: u64 list"
  let ?data = "if are_const_values a then a ! 0 else concat a"
  have lens: "\<forall>s \<in> set a. length s < 2 ^ 64" using length_concat_member [of _ a] total by fastforce
  have small: "length ?data < 2 ^ 62" using total by (cases a) (auto simp: are_const_values_def)
  have m: "marshal_strings_block z [] a = marshal_uint64_block z [] ?lens @ marshal_bytes_block z [] ?data"
    using marshal_bytes_block_append [of z "marshal_uint64_block z [] ?lens"]
    by (simp add: marshal_strings_block_def Let_def)
  have u: "unmarshal_uint64_block z [] (marshal_strings_block z [] a) (of_nat (length a)) =
      Ok (?lens, marshal_bytes_block z [] ?data)"
    unfolding m using uint64_block_roundtrip [OF z, of ?lens "marshal_bytes_block z [] ?data"] n by simp
  have b: "unmarshal_bytes_block z (sbu_data sbu) (marshal_bytes_block z [] ?data) =
      Ok (sbu_data sbu @ ?data, [])"
    using unmarshal_bytes_block_marshal [OF z small, of "sbu_data sbu" "[]"] by simp
  let ?short = "2 \<le> length ?lens \<and> are_const_uint64s ?lens \<and> length ?data = unat (?lens ! 0)"
  have r: "sbu_unmarshal z sbu dst (marshal_strings_block z [] a) (of_nat (length a)) =
      (if ?short then Ok (sbu\<lparr>sbu_data := sbu_data sbu @ ?data\<rparr>, dst @ replicate (length a) ?data)
       else obind (split_strings ?lens ?data) (\<lambda>ss. Ok (sbu\<lparr>sbu_data := sbu_data sbu @ ?data\<rparr>, dst @ ss)))"
    unfolding sbu_unmarshal_def u using b by (simp add: Let_def)
  have nth0: "?lens ! 0 = of_nat (length (a ! 0))" if "a \<noteq> []" using that by (cases a) auto
  show ?thesis
  proof (cases ?short)
    case True
    then have t: "2 \<le> length a" "are_const_uint64s ?lens" "length ?data = unat (?lens ! 0)" by simp_all
    then have "a \<noteq> []" by auto
    have c: "are_const_values a"
    proof (rule ccontr)
      assume "\<not> are_const_values a"
      with t(3) nth0 [OF \<open>a \<noteq> []\<close>] have "length (concat a) = unat (of_nat (length (a ! 0)) :: u64)" by simp
      from const_shortcut [OF lens t(1,2) this] \<open>\<not> are_const_values a\<close> show False by contradiction
    qed
    then have "replicate (length a) ?data = a" using are_const_values_replicate [OF c] by simp
    with r True show ?thesis by simp
  next
    case False
    have "?data = concat a"
    proof (cases "are_const_values a")
      case True
      then have "a \<noteq> []" by (auto simp: are_const_values_def)
      with lens have "length (a ! 0) = unat (?lens ! 0)" by (simp add: nth0 unat_of_nat_small)
      with False True const_values_lens [OF True] have "\<not> 2 \<le> length a" by auto
      with \<open>a \<noteq> []\<close> obtain s where "a = [s]" by (cases a; cases "tl a") auto
      with True show ?thesis by simp
    qed simp
    then have sp: "split_strings ?lens ?data = Ok a" using split_strings_concat [OF lens] by (simp only:)
    show ?thesis unfolding r sp obind_simps using False by (simp only: if_False)
  qed
qed

text \<open>The bytes block meets the codec contract of \<open>Codec_Spec\<close> for every lawful zstd library.\<close>

definition take_bytes_block :: "zstd \<Rightarrow> bytes \<Rightarrow> (bytes \<times> bytes) option" where
  "take_bytes_block z src = (case unmarshal_bytes_block z [] src of Ok r \<Rightarrow> Some r | _ \<Rightarrow> None)"

lemma bytes_block_codec:
  "zstd_ok z \<Longrightarrow> codec (marshal_bytes_block z []) (take_bytes_block z) (\<lambda>b. length b < 2 ^ 62)"
  by unfold_locales (simp add: take_bytes_block_def unmarshal_bytes_block_marshal)


subsection \<open>Properties\<close>

text \<open>A block of unsigned integers is stored without loss, whichever width (8 to 64 bits),
  constant form or compression the encoder chose, and decoding leaves exactly the bytes behind
  it.\<close>

lemma uint64_block_lossless:
  assumes "zstd_ok z" "length a < 2 ^ 58"
  shows "\<exists>blk. marshal_uint64_block z dst a = dst @ blk \<and>
    unmarshal_uint64_block z [] (blk @ rest) (of_nat (length a)) = Ok (a, rest)"
  using uint64_block_roundtrip [OF assms] marshal_uint64_block_append by blast

text \<open>C16: A block of strings is stored without loss. The strings come back in order and with their
  lengths, also when all values were equal and the encoder wrote the value once: the decoder's
  test for that form, which looks only at the lengths, is never fooled by distinct values. The
  unmarshaler's staging buffer keeps its earlier contents and grows by exactly the bytes of the block:
  the value once if all are equal, else the values one after the other.\<close>

theorem strings_block_lossless:
  assumes "zstd_ok z" "length a < 2 ^ 58" "length (concat a) < 2 ^ 62"
  shows "sbu_unmarshal z sbu dst (marshal_strings_block z [] a) (of_nat (length a)) =
    Ok (sbu\<lparr>sbu_data := sbu_data sbu @ (if are_const_values a then a ! 0 else concat a)\<rparr>, dst @ a)"
  by (rule strings_block_roundtrip [OF assms])

theorem strings_block_lossless_witness:
  "sbu_unmarshal stored \<lparr>sbu_data = [7]\<rparr> [] (marshal_strings_block stored [] [[1, 2], [3, 4]]) 2 =
    Ok (\<lparr>sbu_data = [7, 1, 2, 3, 4]\<rparr>, [[1, 2], [3, 4]])"
  using strings_block_lossless [of stored "[[1, 2], [3, 4]]" "\<lparr>sbu_data = [7]\<rparr>" "[]"] by (simp add: are_const_values_def)
end
