(* ===== verification/Bitmap.thy ===== *)
theory Bitmap
  imports Prelude
begin

text \<open>
  The row bitmap of \<^verbatim>\<open>esl-logstorage/src/bitmap.rs\<close>: \<open>bits_len\<close> bits packed into 64-bit words, and
  the pool of bitmaps. The abstraction of a bitmap is the ascending list of its set bits,
  \<open>bit_list\<close>; every operation is shown to refine an operation on that list. The locale
  \<open>row_set\<close> is the part of the contract that the filters of a query rely on.
\<close>

unbundle bit_operations_syntax

subsection \<open>Definitions\<close>

record Bitmap =
  words :: "u64 list"
  bits_len :: nat

definition bitmap_default :: Bitmap where
  "bitmap_default = \<lparr>words = [], bits_len = 0\<rparr>"

definition reset_bits :: "Bitmap \<Rightarrow> Bitmap" where
  "reset_bits bm = bm\<lparr>words := map (\<lambda>_. 0) (words bm)\<rparr>"

definition bitmap_reset :: "Bitmap \<Rightarrow> Bitmap" where
  "bitmap_reset bm = (reset_bits bm)\<lparr>words := [], bits_len := 0\<rparr>"

definition copy_from :: "Bitmap \<Rightarrow> Bitmap \<Rightarrow> Bitmap" where
  "copy_from bm src = (let bm = bitmap_reset bm in bm\<lparr>words := words bm @ words src, bits_len := bits_len src\<rparr>)"

definition resize_no_init :: "Bitmap \<Rightarrow> nat \<Rightarrow> Bitmap" where
  "resize_no_init bm n = bm\<lparr>words := set_length (words bm) (div_ceil n 64), bits_len := n\<rparr>"

definition bitmap_init :: "Bitmap \<Rightarrow> nat \<Rightarrow> Bitmap" where
  "bitmap_init bm n = resize_no_init (bitmap_reset bm) n"

definition set_bits :: "Bitmap \<Rightarrow> Bitmap" where
  "set_bits bm =
    (let a = map (\<lambda>_. NOT 0) (words bm); tail_bits = bits_len bm mod 64 in
     if tail_bits > 0 \<and> a \<noteq> [] then
       (let last = length a - 1 in bm\<lparr>words := a[last := a ! last AND (push_bit tail_bits 1 - 1)]\<rparr>)
     else bm\<lparr>words := a\<rparr>)"

primrec is_zero_words :: "u64 list \<Rightarrow> bool" where
  "is_zero_words [] = True"
| "is_zero_words (w # ws) = (if w \<noteq> 0 then False else is_zero_words ws)"

definition is_zero :: "Bitmap \<Rightarrow> bool" where
  "is_zero bm = is_zero_words (words bm)"

text \<open>The loop of \<open>are_all_bits_set\<close> over the words from index \<open>i\<close> on.\<close>

primrec all_set_loop :: "nat \<Rightarrow> nat \<Rightarrow> nat \<Rightarrow> u64 list \<Rightarrow> bool" where
  "all_set_loop n len i [] = True"
| "all_set_loop n len i (w # ws) =
    (if w \<noteq> - 1 then
       (if i + 1 < len then False
        else
          (let tail_bits = n mod 64 in
           if tail_bits = 0 \<or> w \<noteq> push_bit tail_bits 1 - 1 then False
           else all_set_loop n len (i + 1) ws))
     else all_set_loop n len (i + 1) ws)"

definition are_all_bits_set :: "Bitmap \<Rightarrow> bool" where
  "are_all_bits_set bm = all_set_loop (bits_len bm) (length (words bm)) 0 (words bm)"

definition and_not :: "Bitmap \<Rightarrow> Bitmap \<Rightarrow> (Bitmap, unit) outcome" where
  "and_not bm x =
    (if bits_len bm \<noteq> bits_len x then Panic
     else if is_zero x then Ok bm
     else Ok (bm\<lparr>words := map (\<lambda>(w, b). w AND NOT b) (zip (words bm) (words x)) @
                          drop (length (words x)) (words bm)\<rparr>))"

definition set_bit_at :: "Bitmap \<Rightarrow> nat \<Rightarrow> (Bitmap, unit) outcome" where
  "set_bit_at bm i =
    (let word_idx = i div 64; word_offset = i mod 64 in
     if word_idx < length (words bm) then
       Ok (bm\<lparr>words := (words bm)[word_idx := words bm ! word_idx OR push_bit word_offset 1]\<rparr>)
     else Panic)"

definition is_set_bit :: "Bitmap \<Rightarrow> nat \<Rightarrow> (bool, unit) outcome" where
  "is_set_bit bm i =
    (let word_idx = i div 64; word_offset = i mod 64 in
     if word_idx < length (words bm) then
       Ok (words bm ! word_idx AND push_bit word_offset 1 \<noteq> 0)
     else Panic)"

text \<open>
  \<open>for_each_set_bit\<close>: the closure \<open>f\<close> (an \<open>FnMut\<close>) threads a state. \<open>visit_bits\<close> is the loop over
  the bits \<open>js\<close> of word \<open>i\<close>; its last component tells that the function returned from inside
  the loop, in which case the word is not written back. \<open>visit_words\<close> is the loop over the words.
\<close>

primrec visit_bits ::
  "(nat \<Rightarrow> 's \<Rightarrow> bool \<times> 's) \<Rightarrow> nat \<Rightarrow> nat \<Rightarrow> u64 \<Rightarrow> nat list \<Rightarrow> u64 \<Rightarrow> 's \<Rightarrow> u64 \<times> 's \<times> bool" where
  "visit_bits f n i w [] w_new s = (w_new, s, False)"
| "visit_bits f n i w (j # js) w_new s =
    (let mask = push_bit j 1 in
     if w AND mask = 0 then visit_bits f n i w js w_new s
     else
       (let idx = i * 64 + j in
        if idx \<ge> n then (w_new, s, True)
        else
          (case f idx s of
             (keep, s') \<Rightarrow> visit_bits f n i w js (if \<not> keep then w_new AND NOT mask else w_new) s')))"

primrec visit_words ::
  "(nat \<Rightarrow> 's \<Rightarrow> bool \<times> 's) \<Rightarrow> nat \<Rightarrow> nat \<Rightarrow> u64 list \<Rightarrow> 's \<Rightarrow> u64 list \<times> 's" where
  "visit_words f n i [] s = ([], s)"
| "visit_words f n i (w # ws) s =
    (if w = 0 then (case visit_words f n (i + 1) ws s of (ws', s') \<Rightarrow> (w # ws', s'))
     else
       (case visit_bits f n i w [0..<64] w s of
          (w_new, s', returned) \<Rightarrow>
            if returned then (w # ws, s')
            else (case visit_words f n (i + 1) ws s' of
                    (ws', s'') \<Rightarrow> ((if w \<noteq> w_new then w_new else w) # ws', s''))))"

definition for_each_set_bit :: "(nat \<Rightarrow> 's \<Rightarrow> bool \<times> 's) \<Rightarrow> Bitmap \<Rightarrow> 's \<Rightarrow> Bitmap \<times> 's" where
  "for_each_set_bit f bm s =
    (case visit_words f (bits_len bm) 0 (words bm) s of (ws, s') \<Rightarrow> (bm\<lparr>words := ws\<rparr>, s'))"

text \<open>\<open>for_each_set_bit_readonly\<close>: the same walk, with a shortcut for a full bitmap.\<close>

primrec visit_bits_ro ::
  "(nat \<Rightarrow> 's \<Rightarrow> 's) \<Rightarrow> nat \<Rightarrow> nat \<Rightarrow> u64 \<Rightarrow> nat list \<Rightarrow> 's \<Rightarrow> 's \<times> bool" where
  "visit_bits_ro f n i w [] s = (s, False)"
| "visit_bits_ro f n i w (j # js) s =
    (if w AND push_bit j 1 = 0 then visit_bits_ro f n i w js s
     else
       (let idx = i * 64 + j in
        if idx \<ge> n then (s, True) else visit_bits_ro f n i w js (f idx s)))"

primrec visit_words_ro :: "(nat \<Rightarrow> 's \<Rightarrow> 's) \<Rightarrow> nat \<Rightarrow> nat \<Rightarrow> u64 list \<Rightarrow> 's \<Rightarrow> 's" where
  "visit_words_ro f n i [] s = s"
| "visit_words_ro f n i (w # ws) s =
    (if w = 0 then visit_words_ro f n (i + 1) ws s
     else
       (case visit_bits_ro f n i w [0..<64] s of
          (s', returned) \<Rightarrow> if returned then s' else visit_words_ro f n (i + 1) ws s'))"

definition for_each_set_bit_readonly :: "(nat \<Rightarrow> 's \<Rightarrow> 's) \<Rightarrow> Bitmap \<Rightarrow> 's \<Rightarrow> 's" where
  "for_each_set_bit_readonly f bm s =
    (if are_all_bits_set bm then fold f [0..<bits_len bm] s
     else visit_words_ro f (bits_len bm) 0 (words bm) s)"

definition count_ones :: "u64 \<Rightarrow> nat" where
  "count_ones w = length (filter (bit w) [0..<64])"

definition ones_count :: "Bitmap \<Rightarrow> nat" where
  "ones_count bm = foldl (\<lambda>n w. n + count_ones w) 0 (words bm)"

text \<open>The pool: \<open>get_bitmap\<close> pops the last pooled bitmap, \<open>put_bitmap\<close> resets and pushes one.\<close>

definition get_bitmap :: "Bitmap list \<Rightarrow> nat \<Rightarrow> Bitmap \<times> Bitmap list" where
  "get_bitmap pool n =
    (if pool = [] then (resize_no_init bitmap_default n, [])
     else (resize_no_init (last pool) n, butlast pool))"

definition put_bitmap :: "Bitmap list \<Rightarrow> Bitmap \<Rightarrow> Bitmap list" where
  "put_bitmap pool bm = pool @ [bitmap_reset bm]"

subsection \<open>The abstraction and the invariant\<close>

text \<open>
  \<open>word_bits i ws\<close> lists the set bits of the words \<open>ws\<close> when the first one has index \<open>i\<close>. A
  bitmap is well formed when it has as many words as its length asks for and no bit beyond it.
\<close>

primrec word_bits :: "nat \<Rightarrow> u64 list \<Rightarrow> nat list" where
  "word_bits i [] = []"
| "word_bits i (w # ws) = map (\<lambda>j. i * 64 + j) (filter (bit w) [0..<64]) @ word_bits (i + 1) ws"

definition bit_list :: "Bitmap \<Rightarrow> nat list" where
  "bit_list bm = word_bits 0 (words bm)"

definition bitmap_wf :: "Bitmap \<Rightarrow> bool" where
  "bitmap_wf bm \<longleftrightarrow>
    length (words bm) = div_ceil (bits_len bm) 64 \<and> (\<forall>i \<in> set (bit_list bm). i < bits_len bm)"

definition set_rows :: "Bitmap \<Rightarrow> nat set" where
  "set_rows bm = set (bit_list bm)"

text \<open>Filtering a list with a stateful predicate, the reference for \<open>for_each_set_bit\<close>.\<close>

primrec filter_state :: "(nat \<Rightarrow> 's \<Rightarrow> bool \<times> 's) \<Rightarrow> nat list \<Rightarrow> 's \<Rightarrow> nat list \<times> 's" where
  "filter_state f [] s = ([], s)"
| "filter_state f (x # xs) s =
    (case f x s of (keep, s') \<Rightarrow>
      (case filter_state f xs s' of (ys, s'') \<Rightarrow> (if keep then x # ys else ys, s'')))"


declare upt_rec_numeral [simp del]

subsection \<open>Bits of words\<close>

lemma and_push_bit_iff: "(w AND push_bit j (1 :: u64) = 0) \<longleftrightarrow> \<not> bit w j"
  by (simp add: push_bit_of_1 and_exp_eq_0_iff_not_bit)

lemma mem_word_bits:
  "k \<in> set (word_bits i ws) \<longleftrightarrow>
    i \<le> k div 64 \<and> k div 64 - i < length ws \<and> bit (ws ! (k div 64 - i)) (k mod 64)"
proof (induction ws arbitrary: i)
  case (Cons w ws)
  have "(\<exists>j. k = i * 64 + j \<and> j < 64 \<and> bit w j) \<longleftrightarrow> k div 64 = i \<and> bit w (k mod 64)"
    by (auto intro!: exI [of _ "k mod 64"])
  then have "k \<in> set (map (\<lambda>j. i * 64 + j) (filter (bit w) [0..<64])) \<longleftrightarrow> k div 64 = i \<and> bit w (k mod 64)"
    by auto
  moreover have "k div 64 - i = Suc (k div 64 - Suc i)" if "Suc i \<le> k div 64" using that by simp
  ultimately show ?case by (auto simp: Cons.IH nth_Cons' less_Suc_eq_le)
qed simp

lemma word_bits_ge: "k \<in> set (word_bits i ws) \<Longrightarrow> i * 64 \<le> k"
  by (auto simp: mem_word_bits)

lemma sorted_word_bits: "sorted_wrt (<) (word_bits i ws)"
proof (induction ws arbitrary: i)
  case (Cons w ws)
  have "sorted_wrt (<) (map (\<lambda>j. i * 64 + j) (filter (bit w) [0..<64]))"
    by (simp add: sorted_wrt_map sorted_wrt_filter)
  moreover have "x < y" if "y \<in> set (word_bits (i + 1) ws)" "x \<in> set (map (\<lambda>j. i * 64 + j) (filter (bit w) [0..<64]))" for x y
    using that word_bits_ge [of y "i + 1" ws] by auto
  ultimately show ?case using Cons.IH [of "i + 1"] by (simp add: sorted_wrt_append)
qed simp

lemma distinct_word_bits: "distinct (word_bits i ws)"
  using sorted_word_bits strict_sorted_iff by blast

lemma mem_set_rows:
  "k \<in> set_rows bm \<longleftrightarrow> k div 64 < length (words bm) \<and> bit (words bm ! (k div 64)) (k mod 64)"
  by (simp add: set_rows_def bit_list_def mem_word_bits)

lemma bit_list_sorted: "bit_list bm = sorted_list_of_set (set_rows bm)"
  using sorted_word_bits [of 0 "words bm"]
  by (simp add: set_rows_def bit_list_def strict_sorted_iff sorted_list_of_set.idem_if_sorted_distinct)

lemma bitmap_wf_iff:
  "bitmap_wf bm \<longleftrightarrow> length (words bm) = div_ceil (bits_len bm) 64 \<and> set_rows bm \<subseteq> {..<bits_len bm}"
  by (auto simp: bitmap_wf_def set_rows_def)

lemma row_word_index:
  assumes "length ws = div_ceil n 64" "k < n"
  shows "k div 64 < length ws"
  using div_ceil_mult [of 64 n] assms by (simp add: less_mult_imp_div_less mult.commute)

subsection \<open>Operations on whole bitmaps\<close>

lemma reset_simps [simp]:
  "words (bitmap_reset bm) = []" "bits_len (bitmap_reset bm) = 0" "set_rows (bitmap_reset bm) = {}"
  "bitmap_wf (bitmap_reset bm)"
  by (simp_all add: bitmap_reset_def set_rows_def bit_list_def bitmap_wf_def div_ceil_def)

lemma copy_from_eq: "copy_from bm src = src"
  by (simp add: copy_from_def Let_def)

lemma set_rows_replicate0: "words bm = replicate n 0 \<Longrightarrow> set_rows bm = {}"
  by (auto simp: mem_set_rows)

lemma init_spec:
  "bitmap_wf (bitmap_init bm n)" "bits_len (bitmap_init bm n) = n" "set_rows (bitmap_init bm n) = {}"
proof -
  have w: "words (bitmap_init bm n) = replicate (div_ceil n 64) 0" and l: "bits_len (bitmap_init bm n) = n"
    by (simp_all add: bitmap_init_def resize_no_init_def)
  from l show "bits_len (bitmap_init bm n) = n" .
  from w show e: "set_rows (bitmap_init bm n) = {}" by (rule set_rows_replicate0)
  show "bitmap_wf (bitmap_init bm n)" unfolding bitmap_wf_iff e by (simp add: w l)
qed

lemma reset_bits_spec:
  "set_rows (reset_bits bm) = {}" "bits_len (reset_bits bm) = bits_len bm"
  "bitmap_wf bm \<Longrightarrow> bitmap_wf (reset_bits bm)"
proof -
  show e: "set_rows (reset_bits bm) = {}" by (auto simp: mem_set_rows reset_bits_def)
  show "bits_len (reset_bits bm) = bits_len bm" by (simp add: reset_bits_def)
  show "bitmap_wf bm \<Longrightarrow> bitmap_wf (reset_bits bm)"
    unfolding bitmap_wf_iff e by (simp add: reset_bits_def)
qed

lemma get_bitmap_spec:
  assumes "\<forall>bm \<in> set pool. words bm = []" "get_bitmap pool n = (bm, pool')"
  shows "bitmap_wf bm" "bits_len bm = n" "set_rows bm = {}" "\<forall>bm \<in> set pool'. words bm = []"
proof -
  have "words (if pool = [] then bitmap_default else last pool) = []"
    using assms(1) by (auto simp: bitmap_default_def)
  then have bm: "words bm = replicate (div_ceil n 64) 0" and l: "bits_len bm = n"
    using assms(2) by (auto simp: get_bitmap_def resize_no_init_def split: if_splits)
  from l show "bits_len bm = n" .
  from bm show e: "set_rows bm = {}" by (rule set_rows_replicate0)
  show "bitmap_wf bm" unfolding bitmap_wf_iff e by (simp add: bm l)
  show "\<forall>bm \<in> set pool'. words bm = []"
    using assms by (auto simp: get_bitmap_def split: if_splits dest: in_set_butlastD)
qed

lemma is_zero_words_iff: "is_zero_words ws \<longleftrightarrow> (\<forall>w \<in> set ws. w = 0)"
  by (induction ws) auto

lemma is_zero_iff: "is_zero bm \<longleftrightarrow> set_rows bm = {}"
proof
  show "is_zero bm \<Longrightarrow> set_rows bm = {}"
    unfolding is_zero_def is_zero_words_iff by (auto simp: mem_set_rows all_set_conv_all_nth)
next
  assume e: "set_rows bm = {}"
  have "w = 0" if w: "w \<in> set (words bm)" for w
  proof (rule bit_word_eqI)
    fix j :: nat
    assume "j < LENGTH(64)"
    moreover obtain q where q: "q < length (words bm)" "w = words bm ! q" using w by (auto simp: in_set_conv_nth)
    ultimately have "(q * 64 + j) div 64 = q" "(q * 64 + j) mod 64 = j" by auto
    moreover have "q * 64 + j \<notin> set_rows bm" using e by simp
    ultimately show "bit w j \<longleftrightarrow> bit (0 :: u64) j" using q by (simp add: mem_set_rows)
  qed
  then show "is_zero bm" by (simp add: is_zero_def is_zero_words_iff)
qed

lemma and_not_spec:
  assumes "bitmap_wf bm" "bitmap_wf x" "bits_len bm = bits_len x"
  shows "\<exists>bm'. and_not bm x = Ok bm' \<and> bitmap_wf bm' \<and> bits_len bm' = bits_len bm \<and>
    set_rows bm' = set_rows bm - set_rows x"
proof (cases "is_zero x")
  case True
  with assms show ?thesis by (simp add: and_not_def is_zero_iff)
next
  case False
  define ws where "ws = map (\<lambda>(w, b). w AND NOT b) (zip (words bm) (words x))"
  define bm' where "bm' = bm\<lparr>words := ws\<rparr>"
  have len: "length (words bm) = length (words x)" using assms by (simp add: bitmap_wf_iff)
  then have "and_not bm x = Ok bm'"
    using False assms(3) by (simp add: and_not_def bm'_def ws_def)
  moreover have r: "set_rows bm' = set_rows bm - set_rows x"
    using len by (auto simp: mem_set_rows bm'_def ws_def bit_simps)
  moreover have "bitmap_wf bm'"
    using assms(1) len unfolding bitmap_wf_iff r by (auto simp: bm'_def ws_def)
  ultimately show ?thesis by (simp add: bm'_def)
qed

lemma set_bit_at_spec:
  assumes "bitmap_wf bm" "i < bits_len bm"
  shows "\<exists>bm'. set_bit_at bm i = Ok bm' \<and> bitmap_wf bm' \<and> bits_len bm' = bits_len bm \<and>
    set_rows bm' = insert i (set_rows bm)"
proof -
  define bm' where "bm' = bm\<lparr>words := (words bm)[i div 64 := words bm ! (i div 64) OR push_bit (i mod 64) 1]\<rparr>"
  have i: "i div 64 < length (words bm)"
    using assms by (intro row_word_index) (auto simp: bitmap_wf_iff)
  then have "set_bit_at bm i = Ok bm'" by (simp add: set_bit_at_def bm'_def Let_def)
  moreover have r: "set_rows bm' = insert i (set_rows bm)"
  proof (rule set_eqI)
    fix k
    have "k div 64 = i div 64 \<and> k mod 64 = i mod 64 \<longleftrightarrow> k = i"
      by (metis mult_div_mod_eq)
    then show "k \<in> set_rows bm' \<longleftrightarrow> k \<in> insert i (set_rows bm)"
      using i by (cases "k div 64 = i div 64") (auto simp: mem_set_rows bm'_def bit_simps)
  qed
  moreover have "bitmap_wf bm'"
    using assms unfolding bitmap_wf_iff r by (auto simp: bm'_def)
  ultimately show ?thesis by (simp add: bm'_def)
qed

lemma is_set_bit_spec:
  assumes "bitmap_wf bm" "i < bits_len bm"
  shows "is_set_bit bm i = Ok (i \<in> set_rows bm)"
proof -
  have "i div 64 < length (words bm)"
    using assms by (intro row_word_index) (auto simp: bitmap_wf_iff)
  then show ?thesis by (simp add: is_set_bit_def Let_def and_exp_eq_0_iff_not_bit mem_set_rows)
qed

lemma count_ones_word_bits:
  "foldl (\<lambda>n w. n + count_ones w) m ws = m + length (word_bits i ws)"
proof (induction ws arbitrary: m i)
  case (Cons w ws)
  show ?case using Cons.IH [of "m + count_ones w" "i + 1"] by (simp add: count_ones_def)
qed simp

lemma ones_count_eq: "ones_count bm = card (set_rows bm)"
  using count_ones_word_bits [of 0 "words bm" 0] distinct_word_bits [of 0 "words bm"]
  by (simp add: ones_count_def set_rows_def bit_list_def distinct_card)

subsection \<open>Setting every bit, and the test for it\<close>

lemma words_ext:
  assumes "\<And>j. j < 64 \<Longrightarrow> bit v j \<longleftrightarrow> bit w j"
  shows "v = (w :: u64)"
  using assms by (intro bit_word_eqI) simp

lemma low_mask: "push_bit k 1 - 1 = (mask k :: u64)"
  by (simp add: mask_eq_exp_minus_1)

lemma all_set_loop_iff:
  "all_set_loop n len i ws \<longleftrightarrow>
    (\<forall>q < length ws. ws ! q = - 1 \<or> (len \<le> i + q + 1 \<and> n mod 64 \<noteq> 0 \<and> ws ! q = mask (n mod 64)))"
proof (induction ws arbitrary: i)
  case (Cons w ws)
  show ?case
    unfolding all_set_loop.simps Cons.IH All_less_Suc2 length_Cons nth_Cons_0 nth_Cons_Suc low_mask Let_def
    by (auto simp: not_less)
qed simp

lemma last_word_index:
  assumes "length ws = div_ceil n 64" "n mod 64 \<noteq> 0"
  shows "length ws = Suc (n div 64)"
  using assms by (simp add: div_ceil_def)

lemma set_bits_spec:
  assumes "bitmap_wf bm"
  shows "bitmap_wf (set_bits bm)" "bits_len (set_bits bm) = bits_len bm"
    "set_rows (set_bits bm) = {..<bits_len bm}"
proof -
  let ?n = "bits_len bm" and ?len = "length (words bm)"
  have len: "?len = div_ceil ?n 64" using assms by (simp add: bitmap_wf_iff)
  show l: "bits_len (set_bits bm) = ?n" by (simp add: set_bits_def Let_def)
  have w: "words (set_bits bm) =
      (map (\<lambda>_. - 1) (words bm))[?len - 1 := (if ?n mod 64 = 0 then - 1 else mask (?n mod 64))]"
    by (cases "words bm = []"; cases "?n mod 64 = 0")
       (simp_all add: set_bits_def Let_def mask_eq_exp_minus_1 list_update_same_conv [THEN iffD2])
  show r: "set_rows (set_bits bm) = {..<?n}"
  proof (rule set_eqI)
    fix k
    show "k \<in> set_rows (set_bits bm) \<longleftrightarrow> k \<in> {..<?n}"
    proof (cases "?n mod 64 = 0")
      case True
      then have "?len = ?n div 64" using len by (simp add: div_ceil_def)
      then show ?thesis using True div_mod_less_iff [of k ?n 64]
        by (auto simp: mem_set_rows w nth_list_update)
    next
      case False
      then have n: "?len = Suc (?n div 64)" using len by (simp add: div_ceil_def)
      show ?thesis using False n div_mod_less_iff [of k ?n 64]
        by (auto simp: mem_set_rows w nth_list_update bit_simps)
    qed
  qed
  show "bitmap_wf (set_bits bm)" unfolding bitmap_wf_iff r using len by (simp add: l w)
qed

lemma rows_full_words:
  assumes "bitmap_wf bm" "set_rows bm = {..<bits_len bm}" "q < length (words bm)"
  shows "words bm ! q = (if length (words bm) \<le> q + 1 \<and> bits_len bm mod 64 \<noteq> 0 then mask (bits_len bm mod 64) else - 1)"
proof (rule words_ext)
  fix j :: nat assume j: "j < 64"
  have d: "(q * 64 + j) div 64 = q" "(q * 64 + j) mod 64 = j" using j by auto
  have "bit (words bm ! q) j \<longleftrightarrow> q * 64 + j \<in> set_rows bm" using assms(3) d by (simp add: mem_set_rows)
  also have "\<dots> \<longleftrightarrow> q * 64 + j < bits_len bm" by (simp add: assms(2))
  also have "\<dots> \<longleftrightarrow> q < bits_len bm div 64 \<or> (q = bits_len bm div 64 \<and> j < bits_len bm mod 64)"
    using div_mod_less_iff [of "q * 64 + j" "bits_len bm" 64] d by simp
  finally show "bit (words bm ! q) j \<longleftrightarrow>
      bit (if length (words bm) \<le> q + 1 \<and> bits_len bm mod 64 \<noteq> 0 then mask (bits_len bm mod 64) else - 1 :: u64) j"
    using assms(1,3) j by (auto simp: bitmap_wf_iff div_ceil_def bit_simps split: if_splits)
qed

lemma are_all_bits_set_iff:
  assumes "bitmap_wf bm"
  shows "are_all_bits_set bm \<longleftrightarrow> set_rows bm = {..<bits_len bm}"
proof
  assume "set_rows bm = {..<bits_len bm}"
  with rows_full_words [OF assms this] show "are_all_bits_set bm"
    by (simp add: are_all_bits_set_def all_set_loop_iff)
next
  assume "are_all_bits_set bm"
  then have a: "words bm ! q = - 1 \<or> (length (words bm) \<le> q + 1 \<and> bits_len bm mod 64 \<noteq> 0 \<and>
      words bm ! q = mask (bits_len bm mod 64))" if "q < length (words bm)" for q
    using that by (auto simp: are_all_bits_set_def all_set_loop_iff)
  have "k \<in> set_rows bm" if k: "k < bits_len bm" for k
  proof -
    have q: "k div 64 < length (words bm)"
      using assms k by (intro row_word_index) (auto simp: bitmap_wf_iff)
    have "bit (words bm ! (k div 64)) (k mod 64)"
      using a [OF q] k q assms div_mod_less_iff [of k "bits_len bm" 64]
      by (auto simp: bit_simps bitmap_wf_iff div_ceil_def)
    with q show ?thesis by (simp add: mem_set_rows)
  qed
  then show "set_rows bm = {..<bits_len bm}" using assms by (auto simp: bitmap_wf_iff)
qed

subsection \<open>Iteration over the set bits\<close>

lemma filter_state_append:
  "filter_state f (xs @ ys) s =
    (case filter_state f xs s of (us, s') \<Rightarrow>
      (case filter_state f ys s' of (vs, s'') \<Rightarrow> (us @ vs, s'')))"
  by (induction xs arbitrary: s) (auto split: prod.splits)

lemma set_filter_state: "set (fst (filter_state f xs s)) \<subseteq> set xs"
  by (induction xs arbitrary: s) (auto split: prod.splits, (metis fst_conv subsetD)+)

lemma filter_state_filter:
  "distinct xs \<Longrightarrow> fst (filter_state f xs s) = filter (\<lambda>x. x \<in> set (fst (filter_state f xs s))) xs"
proof (induction xs arbitrary: s)
  case (Cons x xs)
  obtain k s' where f: "f x s = (k, s')" by fastforce
  obtain ys s'' where r: "filter_state f xs s' = (ys, s'')" by fastforce
  have "set ys \<subseteq> set xs" using set_filter_state [of f xs s'] r by simp
  moreover have "ys = filter (\<lambda>x. x \<in> set ys) xs" using Cons.IH [of s'] Cons.prems r by simp
  moreover have "filter (\<lambda>z. z = x \<or> z \<in> set ys) xs = filter (\<lambda>z. z \<in> set ys) xs"
    using Cons.prems by (auto intro!: filter_cong)
  ultimately show ?case using Cons.prems f r by auto
qed simp

lemma filter_state_pure: "filter_state (\<lambda>i s. (P i, g i s)) xs s = (filter P xs, fold g xs s)"
  by (induction xs arbitrary: s) (auto split: prod.splits)

lemma visit_bits_spec:
  assumes "\<forall>j \<in> set js. bit w j \<longrightarrow> i * 64 + j < n" "distinct js" "\<forall>j \<in> set js. bit w j \<longrightarrow> bit w_new j"
  shows "\<exists>v. visit_bits f n i w js w_new s =
      (v, snd (filter_state f (map (\<lambda>j. i * 64 + j) (filter (bit w) js)) s), False) \<and>
    (\<forall>k. bit v k \<longleftrightarrow> bit w_new k \<and>
      (k \<in> set js \<and> bit w k \<longrightarrow>
        i * 64 + k \<in> set (fst (filter_state f (map (\<lambda>j. i * 64 + j) (filter (bit w) js)) s))))"
  using assms
proof (induction js arbitrary: w_new s)
  case (Cons j js)
  show ?case
  proof (cases "bit w j")
    case False
    let ?xs = "map (\<lambda>j. i * 64 + j) (filter (bit w) js)"
    from Cons.IH [of w_new s] Cons.prems obtain v where
      v: "visit_bits f n i w js w_new s = (v, snd (filter_state f ?xs s), False)"
      and b: "\<forall>x. bit v x \<longleftrightarrow> bit w_new x \<and> (x \<in> set js \<and> bit w x \<longrightarrow> i * 64 + x \<in> set (fst (filter_state f ?xs s)))"
      by auto
    with False show ?thesis by (intro exI [of _ v]) (auto simp: and_exp_eq_0_iff_not_bit)
  next
    case True
    obtain k s' where f: "f (i * 64 + j) s = (k, s')" by fastforce
    let ?xs = "map (\<lambda>j. i * 64 + j) (filter (bit w) js)"
    define u where "u = (if \<not> k then w_new AND NOT (push_bit j 1) else w_new)"
    have j: "j < 64" using True by (auto dest: bit_imp_le_length)
    have u: "bit u x \<longleftrightarrow> bit w_new x \<and> (x = j \<longrightarrow> k)" for x
      using j by (auto simp: u_def bit_simps dest: bit_imp_le_length)
    have "\<forall>j' \<in> set js. bit w j' \<longrightarrow> bit u j'" using Cons.prems u by auto
    from Cons.IH [OF _ _ this, of s'] Cons.prems obtain v where
      v: "visit_bits f n i w js u s' = (v, snd (filter_state f ?xs s'), False)"
      and b: "\<forall>x. bit v x \<longleftrightarrow> bit u x \<and> (x \<in> set js \<and> bit w x \<longrightarrow> i * 64 + x \<in> set (fst (filter_state f ?xs s')))"
      by auto
    have "visit_bits f n i w (j # js) w_new s = visit_bits f n i w js u s'"
      using True f Cons.prems(1) by (auto simp: Let_def and_exp_eq_0_iff_not_bit u_def)
    moreover have "i * 64 + j \<notin> set ?xs" using Cons.prems(2) by auto
    then have nj: "i * 64 + j \<notin> set (fst (filter_state f ?xs s'))" using set_filter_state [of f ?xs s'] by blast
    have fs: "filter_state f (map (\<lambda>j. i * 64 + j) (filter (bit w) (j # js))) s =
        (if k then (i * 64 + j) # fst (filter_state f ?xs s') else fst (filter_state f ?xs s'),
         snd (filter_state f ?xs s'))"
      using True f by (simp split: prod.splits)
    have "bit v x \<longleftrightarrow> bit w_new x \<and> (x \<in> set (j # js) \<and> bit w x \<longrightarrow> i * 64 + x \<in> set (fst (filter_state f (map (\<lambda>j. i * 64 + j) (filter (bit w) (j # js))) s)))" for x
      unfolding fs using b [rule_format, of x] u [of x] True nj Cons.prems(2) by (cases "x = j"; cases k) simp_all
    ultimately show ?thesis unfolding fs snd_conv using v by (intro exI [of _ v]) simp
  qed
qed simp

lemma visit_word_spec:
  assumes "\<forall>x \<in> set (map (\<lambda>j. i * 64 + j) (filter (bit w) [0..<64])). x < n"
  shows "\<exists>v. visit_bits f n i w [0..<64] w s =
      (v, snd (filter_state f (map (\<lambda>j. i * 64 + j) (filter (bit w) [0..<64])) s), False) \<and>
    map (\<lambda>j. i * 64 + j) (filter (bit v) [0..<64]) =
      fst (filter_state f (map (\<lambda>j. i * 64 + j) (filter (bit w) [0..<64])) s)"
proof -
  let ?xs = "map (\<lambda>j. i * 64 + j) (filter (bit w) [0..<64])"
  let ?ys = "fst (filter_state f ?xs s)"
  have "\<forall>j \<in> set [0..<64]. bit w j \<longrightarrow> i * 64 + j < n" using assms by auto
  from visit_bits_spec [OF this, of w f s] obtain v where
    v: "visit_bits f n i w [0..<64] w s = (v, snd (filter_state f ?xs s), False)"
    and b: "\<And>k. bit v k \<longleftrightarrow> bit w k \<and> (k \<in> set [0..<64] \<and> bit w k \<longrightarrow> i * 64 + k \<in> set ?ys)" by auto
  have "distinct ?xs" by (simp add: distinct_map inj_on_def)
  then have "?ys = filter (\<lambda>x. x \<in> set ?ys) ?xs" by (rule filter_state_filter)
  also have "\<dots> = map (\<lambda>j. i * 64 + j) (filter (\<lambda>j. i * 64 + j \<in> set ?ys) (filter (bit w) [0..<64]))"
    by (simp add: filter_map comp_def)
  also have "filter (\<lambda>j. i * 64 + j \<in> set ?ys) (filter (bit w) [0..<64]) = filter (bit v) [0..<64]"
    unfolding filter_filter by (rule filter_cong) (auto simp: b)
  finally show ?thesis using v by auto
qed

lemma visit_words_spec:
  assumes "\<forall>x \<in> set (word_bits i ws). x < n"
  shows "\<exists>ws'. visit_words f n i ws s = (ws', snd (filter_state f (word_bits i ws) s)) \<and>
    word_bits i ws' = fst (filter_state f (word_bits i ws) s) \<and> length ws' = length ws"
  using assms
proof (induction ws arbitrary: i s)
  case (Cons w ws)
  let ?xs = "map (\<lambda>j. i * 64 + j) (filter (bit w) [0..<64])"
  have x: "\<forall>x \<in> set ?xs. x < n" and r: "\<forall>x \<in> set (word_bits (i + 1) ws). x < n"
    using Cons.prems by auto
  obtain v where v: "visit_bits f n i w [0..<64] w s = (v, snd (filter_state f ?xs s), False)"
    "map (\<lambda>j. i * 64 + j) (filter (bit v) [0..<64]) = fst (filter_state f ?xs s)"
    using visit_word_spec [OF x, of f s] by (elim exE conjE)
  obtain ys s' where ys: "filter_state f ?xs s = (ys, s')" by fastforce
  obtain ws' where ws': "visit_words f n (i + 1) ws s' = (ws', snd (filter_state f (word_bits (i + 1) ws) s'))"
    "word_bits (i + 1) ws' = fst (filter_state f (word_bits (i + 1) ws) s')" "length ws' = length ws"
    using Cons.IH [OF r, of s'] by (elim exE conjE)
  show ?case
  proof (cases "w = 0")
    case True
    then have "s' = s" "ys = []" using ys by auto
    with True ws' show ?thesis by (intro exI [of _ "0 # ws'"]) simp
  next
    case False
    have v': "visit_bits f n i w [0..<64] w s = (v, s', False)"
      "map (\<lambda>j. i * 64 + j) (filter (bit v) [0..<64]) = ys" using v ys by simp_all
    obtain zs t where zs: "filter_state f (word_bits (i + 1) ws) s' = (zs, t)" by fastforce
    have "visit_words f n i (w # ws) s = (v # ws', t)"
      using False v'(1) ws'(1) zs by simp
    moreover have "filter_state f (word_bits i (w # ws)) s = (ys @ zs, t)"
      using ys zs by (simp add: filter_state_append)
    moreover have "word_bits i (v # ws') = ys @ zs" using v'(2) ws'(2) zs by simp
    ultimately show ?thesis using ws'(3) by (intro exI [of _ "v # ws'"]) (simp del: word_bits.simps visit_words.simps)
  qed
qed simp

lemma for_each_set_bit_refines:
  assumes "bitmap_wf bm" "for_each_set_bit f bm s = (bm', s')"
  shows "filter_state f (bit_list bm) s = (bit_list bm', s')" "bitmap_wf bm'" "bits_len bm' = bits_len bm"
proof -
  have "\<forall>x \<in> set (word_bits 0 (words bm)). x < bits_len bm"
    using assms(1) by (simp add: bitmap_wf_def bit_list_def)
  from visit_words_spec [OF this, of f s] obtain ws' where
    ws': "visit_words f (bits_len bm) 0 (words bm) s = (ws', snd (filter_state f (bit_list bm) s))"
      "word_bits 0 ws' = fst (filter_state f (bit_list bm) s)" "length ws' = length (words bm)"
    by (auto simp: bit_list_def)
  then have bm': "bm' = bm\<lparr>words := ws'\<rparr>" and s': "s' = snd (filter_state f (bit_list bm) s)"
    using assms(2) by (auto simp: for_each_set_bit_def)
  then have l: "bit_list bm' = fst (filter_state f (bit_list bm) s)" using ws' by (simp add: bit_list_def)
  with s' show "filter_state f (bit_list bm) s = (bit_list bm', s')" by simp
  show "bits_len bm' = bits_len bm" by (simp add: bm')
  show "bitmap_wf bm'"
    using assms(1) set_filter_state [of f "bit_list bm" s] ws'(3)
    unfolding bitmap_wf_def l by (auto simp: bm')
qed

lemma for_each_set_bit_filter:
  assumes "bitmap_wf bm" "for_each_set_bit (\<lambda>i s. (P i, g i s)) bm s = (bm', s')"
  shows "set_rows bm' = {i \<in> set_rows bm. P i}" "s' = fold g (bit_list bm) s"
  using for_each_set_bit_refines(1) [OF assms]
  by (auto simp: filter_state_pure set_rows_def simp flip: set_filter)

lemma visit_bits_ro_spec:
  "\<forall>j \<in> set js. bit w j \<longrightarrow> i * 64 + j < n \<Longrightarrow>
    visit_bits_ro f n i w js s = (fold f (map (\<lambda>j. i * 64 + j) (filter (bit w) js)) s, False)"
  by (induction js arbitrary: s) (auto simp: and_exp_eq_0_iff_not_bit Let_def)

lemma visit_words_ro_spec:
  "\<forall>x \<in> set (word_bits i ws). x < n \<Longrightarrow> visit_words_ro f n i ws s = fold f (word_bits i ws) s"
proof (induction ws arbitrary: i s)
  case (Cons w ws)
  have "\<forall>j \<in> set [0..<64]. bit w j \<longrightarrow> i * 64 + j < n" using Cons.prems by auto
  from visit_bits_ro_spec [OF this, of f s] Cons show ?case by auto
qed simp

lemma for_each_set_bit_readonly_eq:
  assumes "bitmap_wf bm"
  shows "for_each_set_bit_readonly f bm s = fold f (bit_list bm) s"
proof (cases "are_all_bits_set bm")
  case True
  then have "bit_list bm = [0..<bits_len bm]"
    using are_all_bits_set_iff [OF assms] by (simp add: bit_list_sorted lessThan_atLeast0)
  with True show ?thesis by (simp add: for_each_set_bit_readonly_def)
next
  case False
  moreover have "\<forall>x \<in> set (word_bits 0 (words bm)). x < bits_len bm"
    using assms by (simp add: bitmap_wf_def bit_list_def)
  ultimately show ?thesis
    by (simp add: for_each_set_bit_readonly_def bit_list_def visit_words_ro_spec)
qed

subsection \<open>The contract that the filters use\<close>

text \<open>
  A set of rows of a block with the operations that combine filters: copying, difference and the
  emptiness test. The combinators of \<^verbatim>\<open>filter_and.rs\<close>, \<^verbatim>\<open>filter_or.rs\<close> and \<^verbatim>\<open>filter_not.rs\<close> use
  nothing else of a bitmap.
\<close>

locale row_set =
  fixes wf :: "'b \<Rightarrow> bool"
    and len :: "'b \<Rightarrow> nat"
    and rows_of :: "'b \<Rightarrow> nat set"
    and copy :: "'b \<Rightarrow> 'b \<Rightarrow> 'b"
    and diff :: "'b \<Rightarrow> 'b \<Rightarrow> ('b, unit) outcome"
    and zero :: "'b \<Rightarrow> bool"
  assumes copy_law: "copy d x = x"
    and diff_law: "wf x \<Longrightarrow> wf y \<Longrightarrow> len x = len y \<Longrightarrow>
      \<exists>z. diff x y = Ok z \<and> wf z \<and> len z = len x \<and> rows_of z = rows_of x - rows_of y"
    and zero_law: "zero x \<longleftrightarrow> rows_of x = {}"
begin

text \<open>\<open>restricts x P y\<close>: \<open>y\<close> is \<open>x\<close> restricted to the rows that satisfy \<open>P\<close>.\<close>

definition restricts :: "'b \<Rightarrow> (nat \<Rightarrow> bool) \<Rightarrow> 'b \<Rightarrow> bool" where
  "restricts x P y \<longleftrightarrow> wf y \<and> len y = len x \<and> rows_of y = {r \<in> rows_of x. P r}"

lemma restricts_wf: "restricts x P y \<Longrightarrow> wf y"
  by (simp add: restricts_def)

lemma restricts_True: "wf x \<Longrightarrow> (\<And>r. r \<in> rows_of x \<Longrightarrow> P r) \<Longrightarrow> restricts x P x"
  by (auto simp: restricts_def)

lemma restricts_trans:
  "restricts x P y \<Longrightarrow> restricts y Q z \<Longrightarrow> restricts x (\<lambda>r. P r \<and> Q r) z"
  by (auto simp: restricts_def)

lemma restricts_zero: "restricts x P y \<Longrightarrow> zero y \<Longrightarrow> restricts x (\<lambda>r. P r \<and> Q r) y"
  by (auto simp: restricts_def zero_law)

lemma diff_restricts:
  assumes "wf x" "restricts x P y"
  shows "\<exists>z. diff x y = Ok z \<and> restricts x (\<lambda>r. \<not> P r) z"
  using diff_law [OF assms(1), of y] assms by (auto simp: restricts_def)

end

interpretation bm: row_set bitmap_wf bits_len set_rows copy_from and_not is_zero
proof unfold_locales
  show "copy_from d x = x" for d x by (rule copy_from_eq)
  show "\<exists>z. and_not x y = Ok z \<and> bitmap_wf z \<and> bits_len z = bits_len x \<and> set_rows z = set_rows x - set_rows y"
    if "bitmap_wf x" "bitmap_wf y" "bits_len x = bits_len y" for x y
    using and_not_spec [OF that] by blast
  show "is_zero x \<longleftrightarrow> set_rows x = {}" for x by (rule is_zero_iff)
qed

subsection \<open>Properties\<close>

text \<open>C19: Visiting the set bits with a callback that may keep or clear each bit and carries its own
  state is the plain left-to-right filter of the ascending list of set rows: every set row is
  visited exactly once, in increasing order, with the state the earlier visits left, exactly the
  rows the callback keeps stay set, and the bitmap stays well formed with its length.\<close>

theorem for_each_set_bit_filters:
  assumes "bitmap_wf bm" "for_each_set_bit f bm s = (bm', s')"
  shows "filter_state f (bit_list bm) s = (bit_list bm', s') \<and> sorted (bit_list bm) \<and>
    distinct (bit_list bm) \<and> bitmap_wf bm' \<and> bits_len bm' = bits_len bm"
  using for_each_set_bit_refines [OF assms] bit_list_sorted [of bm] by simp

theorem for_each_set_bit_filters_witness:
  "filter_state (\<lambda>i s. (i = 1, s + i)) (bit_list \<lparr>words = [7], bits_len = 3\<rparr>) 0 =
    (bit_list \<lparr>words = [2], bits_len = 3\<rparr>, 3)"
proof -
  have "bitmap_wf \<lparr>words = [7], bits_len = 3\<rparr>" by code_simp
  moreover have "for_each_set_bit (\<lambda>i s. (i = 1, s + i)) \<lparr>words = [7], bits_len = 3\<rparr> (0 :: nat) =
      (\<lparr>words = [2], bits_len = 3\<rparr>, 3)" by code_simp
  ultimately show ?thesis
    using for_each_set_bit_filters [of "\<lparr>words = [7], bits_len = 3\<rparr>" "\<lambda>i s. (i = 1, s + i)" 0
        "\<lparr>words = [2], bits_len = 3\<rparr>" 3] by simp
qed

text \<open>C31: The word-parallel bitmap operations are the set operations on rows: clearing the rows of
  another bitmap is set difference, setting all bits sets every row below the length and no bit of
  the last word beyond it, and the tests and the count read the set.\<close>

theorem bitmap_set_algebra:
  assumes "bitmap_wf bm" "bitmap_wf x" "bits_len x = bits_len bm"
  shows "(\<exists>d. and_not bm x = Ok d \<and> bitmap_wf d \<and> set_rows d = set_rows bm - set_rows x) \<and>
    bitmap_wf (set_bits bm) \<and> set_rows (set_bits bm) = {..<bits_len bm} \<and>
    (are_all_bits_set bm \<longleftrightarrow> set_rows bm = {..<bits_len bm}) \<and>
    (is_zero bm \<longleftrightarrow> set_rows bm = {}) \<and> ones_count bm = card (set_rows bm)"
  using and_not_spec [OF assms(1,2)] assms set_bits_spec [OF assms(1)]
  by (auto simp: are_all_bits_set_iff is_zero_iff ones_count_eq)

theorem bitmap_set_algebra_witness:
  "\<exists>d. and_not \<lparr>words = [7], bits_len = 3\<rparr> \<lparr>words = [2], bits_len = 3\<rparr> = Ok d \<and> bitmap_wf d \<and>
    set_rows d = set_rows \<lparr>words = [7], bits_len = 3\<rparr> - set_rows \<lparr>words = [2], bits_len = 3\<rparr>"
proof -
  have "bitmap_wf \<lparr>words = [7], bits_len = 3\<rparr>" "bitmap_wf \<lparr>words = [2], bits_len = 3\<rparr>"
    by code_simp+
  then show ?thesis
    using bitmap_set_algebra [of "\<lparr>words = [7], bits_len = 3\<rparr>" "\<lparr>words = [2], bits_len = 3\<rparr>"] by simp
qed
end
