(* ===== verification/Ids.thy ===== *)
theory Ids
  imports Int_Encoding
begin

text \<open>
  Identifiers of tenants and streams: \<^verbatim>\<open>u128.rs\<close>, \<^verbatim>\<open>hash128.rs\<close>, \<^verbatim>\<open>tenant_id.rs\<close> and
  \<^verbatim>\<open>stream_id.rs\<close> of \<^verbatim>\<open>esl-logstorage/src\<close>. Each identifier has a binary form, a hexadecimal form
  and an order; tenants also have a textual form and a JSON form. The lemmas give the round trips,
  make the identifiers instances of \<open>linorder\<close>, and show that the order is the lexicographic order
  of the binary forms, on which the layout of parts and of the index relies. The 64-bit xxHash of
  the \<^verbatim>\<open>xxhash_rust\<close> crate is a parameter.
\<close>

unbundle bit_operations_syntax

subsection \<open>Definitions: U128\<close>

datatype U128 = U128 (hi: u64) (lo: u64)

definition u128_less :: "U128 \<Rightarrow> U128 \<Rightarrow> bool" where
  "u128_less u a = (if hi u \<noteq> hi a then hi u < hi a else lo u < lo a)"

definition u128_equal :: "U128 \<Rightarrow> U128 \<Rightarrow> bool" where
  "u128_equal u a \<longleftrightarrow> hi u = hi a \<and> lo u = lo a"

definition ascii :: "string \<Rightarrow> bytes" where
  "ascii s = map of_char s"

definition HEX_BYTE_MAP :: bytes where
  "HEX_BYTE_MAP = ascii ''0123456789abcdef''"

definition marshal_byte_hex :: "bytes \<Rightarrow> u8 \<Rightarrow> bytes" where
  "marshal_byte_hex dst x =
    dst @ [HEX_BYTE_MAP ! unat (drop_bit 4 x AND 15)] @ [HEX_BYTE_MAP ! unat (x AND 15)]"

definition marshal_uint64_hex :: "bytes \<Rightarrow> u64 \<Rightarrow> bytes" where
  "marshal_uint64_hex dst n =
    (let dst = marshal_byte_hex dst (ucast (drop_bit 56 n));
         dst = marshal_byte_hex dst (ucast (drop_bit 48 n));
         dst = marshal_byte_hex dst (ucast (drop_bit 40 n));
         dst = marshal_byte_hex dst (ucast (drop_bit 32 n));
         dst = marshal_byte_hex dst (ucast (drop_bit 24 n));
         dst = marshal_byte_hex dst (ucast (drop_bit 16 n));
         dst = marshal_byte_hex dst (ucast (drop_bit 8 n))
     in marshal_byte_hex dst (ucast n))"

definition u128_marshal_string :: "bytes \<Rightarrow> U128 \<Rightarrow> bytes" where
  "u128_marshal_string dst u = marshal_uint64_hex (marshal_uint64_hex dst (hi u)) (lo u)"

definition u128_marshal :: "bytes \<Rightarrow> U128 \<Rightarrow> bytes" where
  "u128_marshal dst u = marshal_uint64 (marshal_uint64 dst (hi u)) (lo u)"

datatype id_error =
    ShortU128 nat
  | ShortTenantID nat
  | InvalidSyntax bytes
  | MissingByte u8
  | TrailingData
  | MissingSeparator
  | UnknownField bytes
  | BadEscape
  | BadUtf8
  | Unterminated
  | MissingNumber

definition u128_unmarshal :: "bytes \<Rightarrow> (U128 \<times> bytes, id_error) outcome" where
  "u128_unmarshal src =
    (if length src < 16 then Err (ShortU128 (length src))
     else obind (unmarshal_uint64 (take 8 src)) (\<lambda>h.
          obind (unmarshal_uint64 (drop 8 src)) (\<lambda>l. Ok (U128 h l, drop 16 src))))"

text \<open>\<open>hash128\<close>: the digest of the data, then the digest after feeding the magic suffix too.\<close>

definition hash128 :: "(bytes \<Rightarrow> u64) \<Rightarrow> bytes \<Rightarrow> U128" where
  "hash128 xxh64 data = U128 (xxh64 data) (xxh64 (data @ ascii ''magic!''))"

subsection \<open>Definitions: TenantID\<close>

datatype TenantID = TenantID (account_id: u32) (project_id: u32)

definition tenant_id_less :: "TenantID \<Rightarrow> TenantID \<Rightarrow> bool" where
  "tenant_id_less tid a =
    (if account_id tid \<noteq> account_id a then account_id tid < account_id a
     else project_id tid < project_id a)"

definition tenant_id_marshal_string :: "bytes \<Rightarrow> TenantID \<Rightarrow> bytes" where
  "tenant_id_marshal_string dst tid =
    marshal_uint64_hex dst (push_bit 32 (ucast (account_id tid)) OR ucast (project_id tid))"

definition tenant_id_marshal :: "bytes \<Rightarrow> TenantID \<Rightarrow> bytes" where
  "tenant_id_marshal dst tid = marshal_uint32 (marshal_uint32 dst (account_id tid)) (project_id tid)"

definition tenant_id_unmarshal :: "bytes \<Rightarrow> (TenantID \<times> bytes, id_error) outcome" where
  "tenant_id_unmarshal src =
    (if length src < 8 then Err (ShortTenantID (length src))
     else obind (unmarshal_uint32 (take 4 src)) (\<lambda>a.
          obind (unmarshal_uint32 (drop 4 src)) (\<lambda>p. Ok (TenantID a p, drop 8 src))))"

text \<open>
  \<open>str::parse::<u32>\<close> on a string: an optional sign is accepted by the standard library, then at
  least one decimal digit and nothing else, without overflow.
\<close>

definition is_digit :: "u8 \<Rightarrow> bool" where
  "is_digit c \<longleftrightarrow> 48 \<le> c \<and> c \<le> 57"

primrec parse_digits :: "nat \<Rightarrow> bytes \<Rightarrow> nat option" where
  "parse_digits acc [] = Some acc"
| "parse_digits acc (c # cs) =
    (if is_digit c then
       (let acc' = acc * 10 + (unat c - 48)
        in if acc' < 2 ^ 32 then parse_digits acc' cs else None)
     else None)"

definition parse_u32 :: "bytes \<Rightarrow> u32 option" where
  "parse_u32 s =
    (let s = (case s of c # cs \<Rightarrow> if c = 43 \<and> cs \<noteq> [] then cs else s | [] \<Rightarrow> []) in
     if s = [] then None else map_option of_nat (parse_digits 0 s))"

definition get_uint32_from_string :: "bytes \<Rightarrow> (u32, id_error) outcome" where
  "get_uint32_from_string s =
    (if s = [] then Ok 0
     else if s ! 0 = 43 then Err (InvalidSyntax s)
     else case parse_u32 s of Some n \<Rightarrow> Ok n | None \<Rightarrow> Err (InvalidSyntax s))"

definition get_uint32_from_header :: "bytes \<Rightarrow> (u32, id_error) outcome" where
  "get_uint32_from_header s = (if s = [] then Ok 0 else get_uint32_from_string s)"

definition get_tenant_id_from_request :: "bytes \<Rightarrow> bytes \<Rightarrow> (TenantID, id_error) outcome" where
  "get_tenant_id_from_request account project =
    obind (get_uint32_from_header account) (\<lambda>a.
    obind (get_uint32_from_header project) (\<lambda>p. Ok (TenantID a p)))"

primrec split_once :: "u8 \<Rightarrow> bytes \<Rightarrow> (bytes \<times> bytes) option" where
  "split_once sep [] = None"
| "split_once sep (c # cs) =
    (if c = sep then Some ([], cs)
     else case split_once sep cs of None \<Rightarrow> None | Some (b, a) \<Rightarrow> Some (c # b, a))"

definition parse_tenant_id :: "bytes \<Rightarrow> (TenantID, id_error) outcome" where
  "parse_tenant_id s =
    (if s = [] then Ok (TenantID 0 0)
     else case split_once 58 s of
         None \<Rightarrow> obind (get_uint32_from_string s) (\<lambda>a. Ok (TenantID a 0))
       | Some (before, after) \<Rightarrow>
           obind (get_uint32_from_string before) (\<lambda>a.
           obind (get_uint32_from_string after) (\<lambda>p. Ok (TenantID a p))))"

text \<open>\<open>{}\<close> formatting of an unsigned integer: decimal digits without leading zeros.\<close>

fun fmt_nat :: "nat \<Rightarrow> bytes" where
  "fmt_nat n = (if n < 10 then [of_nat (48 + n)] else fmt_nat (n div 10) @ [of_nat (48 + n mod 10)])"

declare fmt_nat.simps [simp del]

definition tenant_id_display :: "TenantID \<Rightarrow> bytes" where
  "tenant_id_display tid =
    ascii ''{accountID='' @ fmt_nat (unat (account_id tid)) @ ascii '',projectID='' @
    fmt_nat (unat (project_id tid)) @ ascii ''}''"

definition tenant_id_json :: "TenantID \<Rightarrow> bytes" where
  "tenant_id_json tid =
    ascii ''{\"account_id\":'' @ fmt_nat (unat (account_id tid)) @ ascii '',\"project_id\":'' @
    fmt_nat (unat (project_id tid)) @ ascii ''}''"

fun join_json :: "TenantID list \<Rightarrow> bytes" where
  "join_json [] = []"
| "join_json [t] = tenant_id_json t"
| "join_json (t # ts) = tenant_id_json t @ [44] @ join_json ts"

definition marshal_tenant_ids_to_json :: "TenantID list \<Rightarrow> bytes" where
  "marshal_tenant_ids_to_json tids = [91] @ join_json tids @ [93]"

subsection \<open>Definitions: the JSON parser of tenant lists\<close>

text \<open>
  The parser's state is its remaining input \<open>&src[pos..]\<close>; every operation returns what it leaves.
\<close>

primrec skip_ws :: "bytes \<Rightarrow> bytes" where
  "skip_ws [] = []"
| "skip_ws (c # cs) = (if c = 32 \<or> c = 9 \<or> c = 10 \<or> c = 13 then skip_ws cs else c # cs)"

definition expect :: "u8 \<Rightarrow> bytes \<Rightarrow> (bytes, id_error) outcome" where
  "expect c p = (case p of d # cs \<Rightarrow> if d = c then Ok cs else Err (MissingByte c) | [] \<Rightarrow> Err (MissingByte c))"

definition expect_eof :: "bytes \<Rightarrow> (unit, id_error) outcome" where
  "expect_eof p = (if p \<noteq> [] then Err TrailingData else Ok ())"

definition consume_literal :: "bytes \<Rightarrow> bytes \<Rightarrow> bytes option" where
  "consume_literal lit p = (if take (length lit) p = lit then Some (drop (length lit) p) else None)"

text \<open>
  The scan of \<open>parse_string\<close> up to the closing quote. The scanned bytes must be UTF-8.
\<close>

primrec string_body :: "bytes \<Rightarrow> bytes \<Rightarrow> (bytes \<times> bytes, id_error) outcome" where
  "string_body acc [] = Err Unterminated"
| "string_body acc (c # cs) =
    (if c = 34 then Ok (rev acc, cs)
     else if c = 92 then Err BadEscape
     else string_body (c # acc) cs)"

definition parse_string :: "bytes \<Rightarrow> (bytes \<times> bytes, id_error) outcome" where
  "parse_string p =
    obind (expect 34 p) (\<lambda>p.
    obind (string_body [] p) (\<lambda>(s, p). if is_utf8 s then Ok (s, p) else Err BadUtf8))"

definition parse_uint32 :: "bytes \<Rightarrow> (u32 \<times> bytes, id_error) outcome" where
  "parse_uint32 p =
    (let s = takeWhile is_digit p; p' = dropWhile is_digit p in
     if s = [] then Err MissingNumber
     else case parse_u32 s of Some n \<Rightarrow> Ok (n, p') | None \<Rightarrow> Err (InvalidSyntax s))"

text \<open>One member \<open>"key": value\<close> of the object, and the byte that follows it.\<close>

definition parse_member :: "TenantID \<Rightarrow> bytes \<Rightarrow> (TenantID \<times> bytes, id_error) outcome" where
  "parse_member tid p =
    obind (parse_string (skip_ws p)) (\<lambda>(key, p).
    obind (expect 58 (skip_ws p)) (\<lambda>p.
    obind (parse_uint32 (skip_ws p)) (\<lambda>(v, p).
      if key = ascii ''account_id'' then Ok (TenantID v (project_id tid), skip_ws p)
      else if key = ascii ''project_id'' then Ok (TenantID (account_id tid) v, skip_ws p)
      else Err (UnknownField key))))"

lemma length_skip_ws: "length (skip_ws p) \<le> length p"
  by (induction p) auto

lemma string_body_shrinks: "string_body acc p = Ok (s, p') \<Longrightarrow> length p' < length p"
  by (induction p arbitrary: acc) (force split: if_splits)+

lemma parse_member_shrinks: "parse_member tid p = Ok (tid', p') \<Longrightarrow> length p' < length p"
proof -
  assume "parse_member tid p = Ok (tid', p')"
  then obtain key p1 p2 p3 v q q' where s: "expect 34 (skip_ws p) = Ok q" "string_body [] q = Ok (key, p1)"
    and e: "expect 58 (skip_ws p1) = Ok p2" and n: "parse_uint32 (skip_ws p2) = Ok (v, p3)"
    and p': "p' = skip_ws p3"
    by (auto simp: parse_member_def parse_string_def obind_Ok_iff split: if_splits)
  have "length q < length p" using s(1) length_skip_ws [of p]
    by (auto simp: expect_def split: list.splits if_splits)
  moreover have "length p1 < length q" using s(2) by (rule string_body_shrinks)
  moreover have "length p2 \<le> length p1" using e length_skip_ws [of p1]
    by (auto simp: expect_def split: list.splits if_splits)
  moreover have "length p3 \<le> length p2" using n length_skip_ws [of p2]
      length_dropWhile_le [of is_digit "skip_ws p2"]
    by (auto simp: parse_uint32_def Let_def split: if_splits option.splits)
  ultimately show ?thesis using p' length_skip_ws [of p3] by simp
qed

function parse_members :: "TenantID \<Rightarrow> bytes \<Rightarrow> (TenantID \<times> bytes, id_error) outcome" where
  "parse_members tid p =
    (case parse_member tid p of
       Ok (tid', c # p') \<Rightarrow>
         if c = 44 then parse_members tid' p'
         else if c = 125 then Ok (tid', p')
         else Err MissingSeparator
     | Ok (_, []) \<Rightarrow> Err MissingSeparator
     | Err e \<Rightarrow> Err e
     | Panic \<Rightarrow> Panic)"
  by pat_completeness auto
termination
  by (relation "measure (\<lambda>(_, p). length p)") (auto dest: parse_member_shrinks)

declare parse_members.simps [simp del]

definition parse_tenant_object :: "bytes \<Rightarrow> (TenantID \<times> bytes, id_error) outcome" where
  "parse_tenant_object p =
    obind (expect 123 (skip_ws p)) (\<lambda>p.
      case skip_ws p of
        c # p' \<Rightarrow> if c = 125 then Ok (TenantID 0 0, p') else parse_members (TenantID 0 0) (c # p')
      | [] \<Rightarrow> parse_members (TenantID 0 0) [])"

lemma parse_members_shrinks: "parse_members tid p = Ok (tid', p') \<Longrightarrow> length p' < length p"
proof (induction tid p rule: parse_members.induct)
  case (1 tid p)
  from "1.prems" obtain t c q where m: "parse_member tid p = Ok (t, c # q)"
    by (subst (asm) parse_members.simps) (auto split: outcome.splits list.splits)
  then have l: "length (c # q) < length p" by (rule parse_member_shrinks)
  show ?case
  proof (cases "c = 44")
    case True
    with "1.prems" m have "parse_members t q = Ok (tid', p')"
      by (subst (asm) parse_members.simps) simp
    from "1.IH" [OF m _ _ True this] l show ?thesis by simp
  next
    case False
    with "1.prems" m l show ?thesis
      by (subst (asm) parse_members.simps) (auto split: if_splits)
  qed
qed

lemma parse_tenant_object_shrinks: "parse_tenant_object p = Ok (tid, p') \<Longrightarrow> length p' < length p"
proof -
  assume a: "parse_tenant_object p = Ok (tid, p')"
  then obtain r where "expect 123 (skip_ws p) = Ok r"
    unfolding parse_tenant_object_def obind_Ok_iff by blast
  then obtain q where q: "skip_ws p = 123 # q"
    by (cases "skip_ws p") (auto simp: expect_def split: if_splits)
  with length_skip_ws [of p] length_skip_ws [of q] a show ?thesis
    by (auto simp: parse_tenant_object_def expect_def dest: parse_members_shrinks
        split: list.splits if_splits)
qed

function parse_objects :: "bytes \<Rightarrow> (TenantID list \<times> bytes, id_error) outcome" where
  "parse_objects p =
    (case parse_tenant_object p of
       Ok (tid, p1) \<Rightarrow>
        (case skip_ws p1 of
           c # p2 \<Rightarrow>
             if c = 44 then obind (parse_objects (skip_ws p2)) (\<lambda>(ts, q). Ok (tid # ts, q))
             else if c = 93 then Ok ([tid], p2)
             else Err MissingSeparator
         | [] \<Rightarrow> Err MissingSeparator)
     | Err e \<Rightarrow> Err e
     | Panic \<Rightarrow> Panic)"
  by pat_completeness auto
termination
proof (relation "measure length", goal_cases)
  case (2 p r tid p1 c p2)
  then have "length p1 < length p" by (auto dest: parse_tenant_object_shrinks)
  moreover have "Suc (length p2) \<le> length p1" using 2 length_skip_ws [of p1] by simp
  ultimately show ?case using length_skip_ws [of p2] by simp
qed simp

declare parse_objects.simps [simp del]

definition unmarshal_tenant_ids_from_json :: "bytes \<Rightarrow> (TenantID list, id_error) outcome" where
  "unmarshal_tenant_ids_from_json src =
    (let p = skip_ws src in
     case consume_literal (ascii ''null'') p of
       Some p' \<Rightarrow> obind (expect_eof (skip_ws p')) (\<lambda>_. Ok [])
     | None \<Rightarrow>
        obind (expect 91 p) (\<lambda>p.
          let p = skip_ws p in
          if p \<noteq> [] \<and> p ! 0 = 93 then obind (expect_eof (skip_ws (drop 1 p))) (\<lambda>_. Ok [])
          else obind (parse_objects p) (\<lambda>(ts, p). obind (expect_eof (skip_ws p)) (\<lambda>_. Ok ts))))"

subsection \<open>Definitions: StreamID\<close>

datatype StreamID = StreamID (tenant_id: TenantID) (sid: U128)

definition stream_id_marshal_string :: "bytes \<Rightarrow> StreamID \<Rightarrow> bytes" where
  "stream_id_marshal_string dst s = u128_marshal_string (tenant_id_marshal_string dst (tenant_id s)) (sid s)"

definition stream_id_less :: "StreamID \<Rightarrow> StreamID \<Rightarrow> bool" where
  "stream_id_less s a =
    (if tenant_id s \<noteq> tenant_id a then tenant_id_less (tenant_id s) (tenant_id a)
     else u128_less (sid s) (sid a))"

definition stream_id_equal :: "StreamID \<Rightarrow> StreamID \<Rightarrow> bool" where
  "stream_id_equal s a = (if tenant_id s \<noteq> tenant_id a then False else u128_equal (sid s) (sid a))"

definition stream_id_marshal :: "bytes \<Rightarrow> StreamID \<Rightarrow> bytes" where
  "stream_id_marshal dst s = u128_marshal (tenant_id_marshal dst (tenant_id s)) (sid s)"

definition stream_id_unmarshal :: "bytes \<Rightarrow> (StreamID \<times> bytes, id_error) outcome" where
  "stream_id_unmarshal src =
    obind (tenant_id_unmarshal src) (\<lambda>(t, tail).
    obind (u128_unmarshal tail) (\<lambda>(i, tail). Ok (StreamID t i, tail)))"

text \<open>\<open>char::to_digit(16)\<close> of a byte, and \<open>decode_hex\<close>.\<close>

definition to_digit16 :: "u8 \<Rightarrow> nat option" where
  "to_digit16 c =
    (if 48 \<le> c \<and> c \<le> 57 then Some (unat c - 48)
     else if 97 \<le> c \<and> c \<le> 102 then Some (unat c - 87)
     else if 65 \<le> c \<and> c \<le> 70 then Some (unat c - 55)
     else None)"

fun decode_hex :: "bytes \<Rightarrow> bytes option" where
  "decode_hex [] = Some []"
| "decode_hex [_] = None"
| "decode_hex (a # b # cs) =
    (case (to_digit16 a, to_digit16 b) of
       (Some h, Some l) \<Rightarrow> map_option (Cons (of_nat (h * 16 + l))) (decode_hex cs)
     | _ \<Rightarrow> None)"

definition try_unmarshal_from_string :: "bytes \<Rightarrow> StreamID option" where
  "try_unmarshal_from_string s =
    (case decode_hex s of
       None \<Rightarrow> None
     | Some data \<Rightarrow>
        (case stream_id_unmarshal data of Ok (i, tail) \<Rightarrow> if tail = [] then Some i else None | _ \<Rightarrow> None))"


subsection \<open>Orders\<close>

instantiation U128 :: linorder
begin

definition less_U128 :: "U128 \<Rightarrow> U128 \<Rightarrow> bool" where
  "less_U128 u a = u128_less u a"

definition less_eq_U128 :: "U128 \<Rightarrow> U128 \<Rightarrow> bool" where
  "less_eq_U128 u a \<longleftrightarrow> u128_less u a \<or> u = a"

instance
  by intro_classes (auto simp: less_U128_def less_eq_U128_def u128_less_def split: if_splits intro: U128.expand)

end

instantiation TenantID :: linorder
begin

definition less_TenantID :: "TenantID \<Rightarrow> TenantID \<Rightarrow> bool" where
  "less_TenantID t a = tenant_id_less t a"

definition less_eq_TenantID :: "TenantID \<Rightarrow> TenantID \<Rightarrow> bool" where
  "less_eq_TenantID t a \<longleftrightarrow> tenant_id_less t a \<or> t = a"

instance
  by intro_classes
     (auto simp: less_TenantID_def less_eq_TenantID_def tenant_id_less_def split: if_splits intro: TenantID.expand)

end

instantiation StreamID :: linorder
begin

definition less_StreamID :: "StreamID \<Rightarrow> StreamID \<Rightarrow> bool" where
  "less_StreamID s a = stream_id_less s a"

definition less_eq_StreamID :: "StreamID \<Rightarrow> StreamID \<Rightarrow> bool" where
  "less_eq_StreamID s a \<longleftrightarrow> stream_id_less s a \<or> s = a"

instance
proof
  fix x y z :: StreamID
  have sl: "stream_id_less s a = (if tenant_id s \<noteq> tenant_id a then tenant_id s < tenant_id a else sid s < sid a)" for s a
    by (simp add: stream_id_less_def less_TenantID_def less_U128_def)
  show "(x < y) = (x \<le> y \<and> \<not> y \<le> x)" "x \<le> x" "x \<le> y \<or> y \<le> x"
    by (auto simp: less_StreamID_def less_eq_StreamID_def sl split: if_splits intro: StreamID.expand)
  show "x \<le> y \<Longrightarrow> y \<le> z \<Longrightarrow> x \<le> z"
    by (auto simp: less_StreamID_def less_eq_StreamID_def sl split: if_splits)
  show "x \<le> y \<Longrightarrow> y \<le> x \<Longrightarrow> x = y"
    by (auto simp: less_StreamID_def less_eq_StreamID_def sl split: if_splits)
qed

end

subsection \<open>Binary round trips\<close>

lemma u128_marshal_append: "u128_marshal dst u = dst @ u128_marshal [] u"
  by (simp add: u128_marshal_def marshal_uint64_def)

lemma tenant_id_marshal_append: "tenant_id_marshal dst t = dst @ tenant_id_marshal [] t"
  by (simp add: tenant_id_marshal_def marshal_uint32_def)

lemma stream_id_marshal_append: "stream_id_marshal dst s = dst @ stream_id_marshal [] s"
  by (simp add: stream_id_marshal_def tenant_id_marshal_def u128_marshal_def marshal_uint32_def
      marshal_uint64_def)

lemma length_u128_marshal [simp]: "length (u128_marshal [] u) = 16"
  by (simp add: u128_marshal_def marshal_uint64_def)

lemma length_tenant_id_marshal [simp]: "length (tenant_id_marshal [] t) = 8"
  by (simp add: tenant_id_marshal_def marshal_uint32_def)

lemma u128_unmarshal_marshal [codec_simps]: "u128_unmarshal (u128_marshal [] u @ rest) = Ok (u, rest)"
  by (cases u) (simp add: u128_unmarshal_def u128_marshal_def marshal_uint64_def unmarshal_uint64_def)

lemma tenant_id_unmarshal_marshal [codec_simps]:
  "tenant_id_unmarshal (tenant_id_marshal [] t @ rest) = Ok (t, rest)"
  by (cases t) (simp add: tenant_id_unmarshal_def tenant_id_marshal_def marshal_uint32_def unmarshal_uint32_def)

lemma stream_id_marshal_split: "stream_id_marshal [] s = tenant_id_marshal [] (tenant_id s) @ u128_marshal [] (sid s)"
  by (simp add: stream_id_marshal_def u128_marshal_append [of "tenant_id_marshal [] (tenant_id s)"])

lemma stream_id_unmarshal_marshal [codec_simps]:
  "stream_id_unmarshal (stream_id_marshal [] s @ rest) = Ok (s, rest)"
  by (simp add: stream_id_unmarshal_def stream_id_marshal_split codec_simps)

lemma stream_id_unmarshal_Ok:
  "stream_id_unmarshal src = Ok (s, tail) \<Longrightarrow> length src = 24 + length tail"
  by (auto simp: stream_id_unmarshal_def tenant_id_unmarshal_def u128_unmarshal_def obind_Ok_iff
      split: if_splits)

definition take_tenant_id :: "bytes \<Rightarrow> (TenantID \<times> bytes) option" where
  "take_tenant_id src = (case tenant_id_unmarshal src of Ok r \<Rightarrow> Some r | _ \<Rightarrow> None)"

interpretation tenant_id_codec: codec "tenant_id_marshal []" take_tenant_id "\<lambda>_. True"
  by unfold_locales (simp add: take_tenant_id_def codec_simps)

definition take_stream_id :: "bytes \<Rightarrow> (StreamID \<times> bytes) option" where
  "take_stream_id src = (case stream_id_unmarshal src of Ok r \<Rightarrow> Some r | _ \<Rightarrow> None)"

interpretation stream_id_codec: codec_progress "stream_id_marshal []" take_stream_id "\<lambda>_. True"
  by unfold_locales
     (auto simp: take_stream_id_def codec_simps dest: stream_id_unmarshal_Ok split: outcome.splits)

subsection \<open>The order of identifiers is the order of their bytes\<close>

fun bytes_less :: "bytes \<Rightarrow> bytes \<Rightarrow> bool" where
  "bytes_less [] [] = False"
| "bytes_less [] (b # bs) = True"
| "bytes_less (a # as) [] = False"
| "bytes_less (a # as) (b # bs) = (if a \<noteq> b then a < b else bytes_less as bs)"

primrec be_val :: "bytes \<Rightarrow> nat" where
  "be_val [] = 0"
| "be_val (b # bs) = unat b * 256 ^ length bs + be_val bs"

lemma be_val_bound: "be_val bs < 256 ^ length bs"
proof (induction bs)
  case (Cons b bs)
  have "unat b < 256" using unsigned_less [of b, where ?'a = nat] by simp
  then have "(unat b + 1) * 256 ^ length bs \<le> 256 * 256 ^ length bs" by (intro mult_right_mono) auto
  then have "unat b * 256 ^ length bs + 256 ^ length bs \<le> 256 ^ length (b # bs)"
    by (simp only: add_mult_distrib mult_1 length_Cons power_Suc)
  with Cons show ?case unfolding be_val.simps by linarith
qed simp

lemma bytes_less_be_val: "length xs = length ys \<Longrightarrow> bytes_less xs ys \<longleftrightarrow> be_val xs < be_val ys"
proof (induction xs ys rule: list_induct2)
  case (Cons x xs y ys)
  show ?case
  proof (cases "x = y")
    case False
    let ?m = "256 ^ length ys :: nat"
    have lt: "unat p * ?m + be_val ps < unat q * ?m + be_val qs"
      if "unat p < unat q" "length ps = length ys" for p q :: u8 and ps qs
    proof -
      have "(unat p + 1) * ?m \<le> unat q * ?m" using that(1) by (intro mult_right_mono) auto
      then have "unat p * ?m + ?m \<le> unat q * ?m" by (simp only: add_mult_distrib mult_1)
      with be_val_bound [of ps] that(2) show ?thesis by simp
    qed
    have "unat x < unat y \<or> unat y < unat x" using False by (auto simp: word_unat_eq_iff)
    then show ?thesis
      using False lt [of x y xs ys] lt [of y x ys xs] Cons.hyps by (auto simp: word_less_nat_alt)
  qed (use Cons in simp)
qed simp

lemma be_val_append: "be_val (xs @ ys) = be_val xs * 256 ^ length ys + be_val ys"
  by (induction xs) (simp_all add: algebra_simps power_add)

lemma to_be_bytes_Suc: "to_be_bytes (Suc n) w = to_be_bytes n (drop_bit 8 w) @ [ucast w]"
proof -
  have "rev (to_be_bytes (Suc n) w) = rev (to_be_bytes n (drop_bit 8 w) @ [ucast w])"
    by (simp add: to_le_bytes_Suc)
  then show ?thesis by (metis rev_rev_ident)
qed

lemma be_val_to_be_bytes:
  fixes w :: "'a::len word"
  assumes "8 \<le> LENGTH('a)"
  shows "be_val (to_be_bytes n w) = unat w mod 256 ^ n"
proof (induction n arbitrary: w)
  case (Suc n)
  have "unat (ucast w :: u8) = unat w mod 256"
    using assms by (simp add: unsigned_ucast_eq take_bit_eq_mod)
  then show ?case
    by (simp add: to_be_bytes_Suc be_val_append Suc.IH unat_drop_bit_div mod_mult2_eq mult.commute)
qed (simp add: to_be_bytes_def)

lemma be_val_word:
  fixes w :: "'a::len word"
  assumes "LENGTH('a) = 8 * n" "0 < n"
  shows "be_val (to_be_bytes n w) = unat w"
proof -
  have "(256::nat) ^ n = 2 ^ LENGTH('a)" using assms(1) by (simp add: power_mult)
  then have "unat w < 256 ^ n" using unsigned_less [of w, where ?'a = nat] by simp
  with be_val_to_be_bytes [of n w] assms show ?thesis by simp
qed

lemma be_val_marshal_uint32: "be_val (marshal_uint32 [] a) = unat a"
  unfolding marshal_uint32_def using be_val_word [of 4 a] by simp

lemma be_val_marshal_uint64: "be_val (marshal_uint64 [] a) = unat a"
  unfolding marshal_uint64_def using be_val_word [of 8 a] by simp

lemma bytes_less_append:
  "length xs = length ys \<Longrightarrow>
    bytes_less (xs @ us) (ys @ vs) \<longleftrightarrow> bytes_less xs ys \<or> xs = ys \<and> bytes_less us vs"
  by (induction xs ys rule: list_induct2) auto

lemma tenant_id_bytes_less:
  "bytes_less (tenant_id_marshal [] t) (tenant_id_marshal [] a) \<longleftrightarrow> tenant_id_less t a"
proof -
  have m: "tenant_id_marshal [] x = marshal_uint32 [] (account_id x) @ marshal_uint32 [] (project_id x)" for x
    by (simp add: tenant_id_marshal_def marshal_uint32_def)
  have l: "length (marshal_uint32 [] x) = 4" for x by (simp add: marshal_uint32_def)
  have i: "marshal_uint32 [] x = marshal_uint32 [] y \<longleftrightarrow> x = y" for x y
    using be_val_marshal_uint32 by (metis word_unat_eq_iff)
  have b: "bytes_less (marshal_uint32 [] x) (marshal_uint32 [] y) \<longleftrightarrow> x < y" for x y
    by (simp add: bytes_less_be_val l be_val_marshal_uint32 word_less_nat_alt)
  show ?thesis
    unfolding m tenant_id_less_def by (subst bytes_less_append) (auto simp: l b i)
qed

lemma u128_bytes_less: "bytes_less (u128_marshal [] u) (u128_marshal [] a) \<longleftrightarrow> u128_less u a"
proof -
  have m: "u128_marshal [] x = marshal_uint64 [] (hi x) @ marshal_uint64 [] (lo x)" for x
    by (simp add: u128_marshal_def marshal_uint64_def)
  have l: "length (marshal_uint64 [] x) = 8" for x by (simp add: marshal_uint64_def)
  have i: "marshal_uint64 [] x = marshal_uint64 [] y \<longleftrightarrow> x = y" for x y
    using be_val_marshal_uint64 by (metis word_unat_eq_iff)
  have b: "bytes_less (marshal_uint64 [] x) (marshal_uint64 [] y) \<longleftrightarrow> x < y" for x y
    by (simp add: bytes_less_be_val l be_val_marshal_uint64 word_less_nat_alt)
  show ?thesis
    unfolding m u128_less_def by (subst bytes_less_append) (auto simp: l b i)
qed

lemma tenant_id_marshal_inj: "tenant_id_marshal [] t = tenant_id_marshal [] a \<longleftrightarrow> t = a"
  using tenant_id_codec.enc_prefix_free [where x = t and y = a and r = "[]" and s = "[]"] by auto

lemma stream_id_bytes_less:
  "bytes_less (stream_id_marshal [] s) (stream_id_marshal [] a) \<longleftrightarrow> stream_id_less s a"
proof -
  have "\<not> tenant_id_less t t" for t by (simp add: tenant_id_less_def)
  then show ?thesis
    by (auto simp: stream_id_marshal_split bytes_less_append tenant_id_bytes_less u128_bytes_less
        tenant_id_marshal_inj stream_id_less_def)
qed

subsection \<open>Hexadecimal round trips\<close>

lemma nibble_lt: "unat (x AND 15 :: u8) < 16"
  using word_and_le1 [of x 15] by (simp add: word_le_nat_alt)

lemma to_digit16_table: "list_all (\<lambda>i. to_digit16 (HEX_BYTE_MAP ! i) = Some i) [0..<16]"
  by code_simp

lemma to_digit16_hex: "i < 16 \<Longrightarrow> to_digit16 (HEX_BYTE_MAP ! i) = Some i"
  using to_digit16_table unfolding list_all_iff by simp

lemma nibbles: "of_nat (unat (drop_bit 4 x AND 15 :: u8) * 16 + unat (x AND 15)) = x"
proof -
  have m: "y AND 15 = take_bit 4 y" for y :: u8
    by (simp add: take_bit_eq_mask mask_eq_exp_minus_1)
  have "unat (drop_bit 4 x AND 15) = unat x div 16"
  proof -
    have "unat x div 16 < 16" using unsigned_less [of x, where ?'a = nat] by simp
    then show ?thesis
      by (simp add: m unsigned_take_bit_eq unat_drop_bit_div take_bit_nat_eq_self)
  qed
  moreover have "unat (x AND 15) = unat x mod 16"
    unfolding m unsigned_take_bit_eq take_bit_nat_def by simp
  ultimately have "unat (drop_bit 4 x AND 15) * 16 + unat (x AND 15) = unat x" by simp
  then show ?thesis by (simp only:) simp
qed

lemma decode_hex_byte: "decode_hex (marshal_byte_hex [] x @ cs) = map_option (Cons x) (decode_hex cs)"
  using nibble_lt [of "drop_bit 4 x"] nibble_lt [of x] nibbles [of x]
  by (simp add: marshal_byte_hex_def to_digit16_hex)

lemma marshal_byte_hex_append: "marshal_byte_hex dst x = dst @ marshal_byte_hex [] x"
  by (simp add: marshal_byte_hex_def)

lemma upt8: "[0..<8] = [0, 1, 2, 3, 4, 5, 6, 7 :: nat]"
  by (simp add: upt_rec)

lemma marshal_uint64_hex_eq:
  "marshal_uint64_hex dst n = dst @ concat (map (marshal_byte_hex []) (to_be_bytes 8 n))"
  unfolding marshal_uint64_hex_def Let_def to_be_bytes_def upt8
  by (simp add: marshal_byte_hex_append [of "_ @ _"] marshal_byte_hex_append [of dst])

lemma decode_hex_bytes: "decode_hex (concat (map (marshal_byte_hex []) bs)) = Some bs"
  by (induction bs) (simp_all add: decode_hex_byte)

lemma be_bytes_pair:
  "to_be_bytes 8 (push_bit 32 (ucast (a::u32)) OR ucast (p::u32) :: u64) = to_be_bytes 4 a @ to_be_bytes 4 p"
proof -
  have "ucast (drop_bit k (push_bit 32 (ucast a) OR ucast p :: u64)) = (ucast (drop_bit (k - 32) a) :: u8)"
    if "32 \<le> k" "k \<le> 56" for k
    using that by (intro bit_word_eqI) (auto simp: bit_simps dest: bit_imp_le_length)
  moreover have "ucast (drop_bit k (push_bit 32 (ucast a) OR ucast p :: u64)) = (ucast (drop_bit k p) :: u8)"
    if "k \<le> 24" for k
    using that by (intro bit_word_eqI) (auto simp: bit_simps dest: bit_imp_le_length)
  moreover note this [of 0]
  ultimately show ?thesis
    by (simp add: to_be_bytes_def upt8 upt_rec [of _ 4] del: drop_bit_or)
qed

lemma stream_id_hex:
  "stream_id_marshal_string [] s = concat (map (marshal_byte_hex []) (stream_id_marshal [] s))"
  by (simp add: stream_id_marshal_string_def u128_marshal_string_def tenant_id_marshal_string_def
      marshal_uint64_hex_eq stream_id_marshal_split tenant_id_marshal_def u128_marshal_def
      marshal_uint32_def marshal_uint64_def be_bytes_pair)

lemma stream_id_string_roundtrip:
  "try_unmarshal_from_string (stream_id_marshal_string [] s) = Some s"
  using stream_id_unmarshal_marshal [of s "[]"]
  by (simp add: try_unmarshal_from_string_def stream_id_hex decode_hex_bytes)

subsection \<open>Decimal and JSON round trips\<close>

lemma is_digit_fmt: "n < 10 \<Longrightarrow> is_digit (of_nat (48 + n))"
  by (simp add: is_digit_def word_le_nat_alt unat_of_nat take_bit_nat_eq_self del: of_nat_add)

lemma unat_fmt: "n < 10 \<Longrightarrow> unat (of_nat (48 + n) :: u8) = 48 + n"
  by (simp add: unat_of_nat take_bit_nat_eq_self del: of_nat_add)

lemma fmt_nat_digits: "\<forall>c \<in> set (fmt_nat n). is_digit c"
proof (induction n rule: fmt_nat.induct)
  case (1 n)
  then show ?case
    by (subst fmt_nat.simps) (auto simp: is_digit_fmt simp del: of_nat_add)
qed

lemma fmt_nat_nonempty [simp]: "fmt_nat n \<noteq> []"
  by (subst fmt_nat.simps) simp

lemma parse_digits_append:
  "parse_digits acc (xs @ ys) = (case parse_digits acc xs of None \<Rightarrow> None | Some a \<Rightarrow> parse_digits a ys)"
  by (induction xs arbitrary: acc) (simp_all add: Let_def)

lemma parse_digits_fmt: "n < 2 ^ 32 \<Longrightarrow> parse_digits 0 (fmt_nat n) = Some n"
proof (induction n rule: fmt_nat.induct)
  case (1 n)
  show ?case
  proof (cases "n < 10")
    case True
    then show ?thesis
      by (subst fmt_nat.simps) (simp add: is_digit_fmt unat_fmt Let_def del: of_nat_add)
  next
    case False
    moreover have "n div 10 * 10 + n mod 10 = n" by simp
    ultimately show ?thesis using 1
      by (subst fmt_nat.simps)
         (simp add: parse_digits_append is_digit_fmt unat_fmt Let_def del: of_nat_add)
  qed
qed

lemma fmt_nat_no_plus: "fmt_nat n ! 0 \<noteq> 43"
proof -
  have "is_digit (fmt_nat n ! 0)" using fmt_nat_digits [of n] by (metis fmt_nat_nonempty length_greater_0_conv nth_mem)
  then show ?thesis by (auto simp: is_digit_def)
qed

lemma parse_u32_fmt: "parse_u32 (fmt_nat (unat (u :: u32))) = Some u"
proof -
  obtain c cs where c: "fmt_nat (unat u) = c # cs" by (cases "fmt_nat (unat u)") auto
  then have "c \<noteq> 43" using fmt_nat_no_plus [of "unat u"] by simp
  moreover have "parse_digits 0 (c # cs) = Some (unat u)"
    using parse_digits_fmt [of "unat u"] unsigned_less [of u, where ?'a = nat] c by simp
  ultimately show ?thesis unfolding c by (simp add: parse_u32_def Let_def del: parse_digits.simps)
qed

lemma get_uint32_fmt: "get_uint32_from_string (fmt_nat (unat (u :: u32))) = Ok u"
  by (simp add: get_uint32_from_string_def fmt_nat_no_plus parse_u32_fmt)

lemma split_once_append: "sep \<notin> set xs \<Longrightarrow> split_once sep (xs @ sep # ys) = Some (xs, ys)"
  by (induction xs) auto

lemma digit_not_special:
  "is_digit c \<Longrightarrow> c \<noteq> 58 \<and> c \<noteq> 44 \<and> c \<noteq> 125 \<and> c \<noteq> 32 \<and> c \<noteq> 9 \<and> c \<noteq> 10 \<and> c \<noteq> 13"
  by (auto simp: is_digit_def)

lemma parse_tenant_id_roundtrip:
  "parse_tenant_id (fmt_nat (unat (account_id t)) @ [58] @ fmt_nat (unat (project_id t))) = Ok t"
proof -
  have "58 \<notin> set (fmt_nat n)" for n using fmt_nat_digits [of n] digit_not_special by blast
  then show ?thesis
    by (simp add: parse_tenant_id_def split_once_append get_uint32_fmt)
qed

lemma parse_uint32_fmt:
  assumes "\<not> is_digit c"
  shows "parse_uint32 (fmt_nat (unat u) @ c # rest) = Ok (u, c # rest)"
proof -
  have t: "takeWhile is_digit (fmt_nat (unat u) @ c # rest) = fmt_nat (unat u)"
    "dropWhile is_digit (fmt_nat (unat u) @ c # rest) = c # rest"
    using fmt_nat_digits [of "unat u"] assms by (simp_all add: takeWhile_append dropWhile_append)
  show ?thesis by (simp add: parse_uint32_def t Let_def parse_u32_fmt)
qed

lemma skip_ws_fmt [simp]: "skip_ws (fmt_nat n @ rest) = fmt_nat n @ rest"
proof -
  obtain c cs where c: "fmt_nat n = c # cs" by (cases "fmt_nat n") auto
  then have "is_digit c" using fmt_nat_digits [of n] by simp
  then show ?thesis unfolding c using digit_not_special [of c] by simp
qed

lemma string_body_key:
  "34 \<notin> set k \<Longrightarrow> 92 \<notin> set k \<Longrightarrow> string_body acc (k @ 34 # rest) = Ok (rev acc @ k, rest)"
  by (induction k arbitrary: acc) auto

lemma parse_member_key:
  assumes u: "is_utf8 k" and k: "34 \<notin> set k" "92 \<notin> set k"
    and key: "k = ascii ''account_id'' \<or> k = ascii ''project_id''" and c: "\<not> is_digit c"
  shows "parse_member t (34 # k @ 34 # 58 # fmt_nat (unat v) @ c # rest) =
    Ok (if k = ascii ''account_id'' then TenantID v (project_id t) else TenantID (account_id t) v,
        skip_ws (c # rest))"
  using assms
  by (auto simp: parse_member_def parse_string_def expect_def string_body_key parse_uint32_fmt
      simp del: skip_ws.simps) (simp_all add: parse_uint32_fmt string_body_key)


lemma ascii_append [simp]: "ascii (s @ t) = ascii s @ ascii t"
  by (simp add: ascii_def)

lemma tenant_id_json_eq:
  "tenant_id_json t = 123 # 34 # ascii ''account_id'' @ 34 # 58 # fmt_nat (unat (account_id t)) @
     44 # 34 # ascii ''project_id'' @ 34 # 58 # fmt_nat (unat (project_id t)) @ [125]"
  by (simp add: tenant_id_json_def ascii_def)

lemma keys_plain:
  "34 \<notin> set (ascii ''account_id'')" "92 \<notin> set (ascii ''account_id'')"
  "34 \<notin> set (ascii ''project_id'')" "92 \<notin> set (ascii ''project_id'')"
  "ascii ''project_id'' \<noteq> ascii ''account_id''"
  by (simp_all add: ascii_def)

lemma keys_utf8: "is_utf8 (ascii ''account_id'')" "is_utf8 (ascii ''project_id'')"
  by (rule is_utf8_ascii, simp add: ascii_def)+

lemma parse_members_json:
  shows "parse_members t0 (34 # ascii ''account_id'' @ 34 # 58 # fmt_nat (unat a) @
     44 # 34 # ascii ''project_id'' @ 34 # 58 # fmt_nat (unat p) @ 125 # rest) = Ok (TenantID a p, rest)"
proof -
  have n: "\<not> is_digit 44" "\<not> is_digit 125" by (simp_all add: is_digit_def)
  note m1 = parse_member_key [OF keys_utf8(1) keys_plain(1,2) disjI1 [OF refl [of "ascii ''account_id''"]] n(1)]
  note m2 = parse_member_key [OF keys_utf8(2) keys_plain(3,4) disjI2 [OF refl [of "ascii ''project_id''"]] n(2)]
  show ?thesis
    by (subst parse_members.simps, subst m1)
       (simp, subst parse_members.simps, subst m2, simp add: keys_plain)
qed

lemma parse_tenant_object_json:
  shows "parse_tenant_object (tenant_id_json t @ rest) = Ok (t, rest)"
  using parse_members_json [of "TenantID 0 0" "account_id t" "project_id t" rest]
  by (simp add: parse_tenant_object_def tenant_id_json_eq expect_def)

lemma skip_ws_json [simp]: "skip_ws (tenant_id_json t @ rest) = tenant_id_json t @ rest"
  by (simp add: tenant_id_json_eq)

lemma parse_objects_json:
  assumes "ts \<noteq> []"
  shows "parse_objects (join_json ts @ [93]) = Ok (ts, [])"
  using \<open>ts \<noteq> []\<close>
proof (induction ts rule: join_json.induct)
  case (2 t)
  then show ?case
    by (subst parse_objects.simps) (simp add: parse_tenant_object_json)
next
  case (3 t t' ts)
  moreover have "skip_ws (join_json (t' # ts) @ [93]) = join_json (t' # ts) @ [93]"
    by (cases ts) simp_all
  moreover have "join_json (t # t' # ts) = tenant_id_json t @ 44 # join_json (t' # ts)" by simp
  ultimately show ?case
    by (subst parse_objects.simps) (simp add: parse_tenant_object_json del: join_json.simps)
qed simp

lemma tenant_ids_json_parse:
  shows "unmarshal_tenant_ids_from_json (marshal_tenant_ids_to_json ts) = Ok ts"
proof (cases ts)
  case Nil
  then show ?thesis
    by (simp add: unmarshal_tenant_ids_from_json_def marshal_tenant_ids_to_json_def
        consume_literal_def ascii_def expect_def expect_eof_def)
next
  case (Cons t ts')
  obtain r where r: "join_json ts @ [93] = 123 # r"
    unfolding Cons by (cases ts') (simp_all add: tenant_id_json_eq)
  have "parse_objects (123 # r) = Ok (ts, [])"
    using parse_objects_json [of ts] Cons r by simp
  then show ?thesis
    by (simp add: unmarshal_tenant_ids_from_json_def marshal_tenant_ids_to_json_def
        consume_literal_def ascii_def expect_def expect_eof_def r)
qed

subsection \<open>Properties\<close>

text \<open>C30: Stream identifiers survive their binary form, whatever bytes follow, and the order the code
  defines on them is exactly the byte order of the encoded form, so data sorted by encoded key is
  sorted by stream.\<close>

theorem stream_id_binary_order:
  "stream_id_unmarshal (stream_id_marshal [] s @ rest) = Ok (s, rest) \<and>
   (bytes_less (stream_id_marshal [] s) (stream_id_marshal [] a) \<longleftrightarrow> stream_id_less s a)"
  by (simp add: stream_id_unmarshal_marshal stream_id_bytes_less)

text \<open>The hexadecimal form of a stream identifier, as it is printed in \<open>_stream_id\<close> fields and
  read back from queries, determines the identifier.\<close>

lemma stream_id_hex_roundtrip:
  "try_unmarshal_from_string (stream_id_marshal_string [] s) = Some s"
  by (rule stream_id_string_roundtrip)

text \<open>C36: A list of tenants written as JSON is read back unchanged by the tenant-list parser,
  including the empty list.\<close>

theorem tenant_ids_json_roundtrip:
  "unmarshal_tenant_ids_from_json (marshal_tenant_ids_to_json ts) = Ok ts"
  by (rule tenant_ids_json_parse)

lemma split_once_None: "sep \<notin> set s \<Longrightarrow> split_once sep s = None"
  by (induction s) auto

text \<open>The textual tenant \<open>account:project\<close> is parsed to that tenant; an account alone gives
  project 0, the empty text the zero tenant.\<close>

lemma tenant_id_text_roundtrip:
  "parse_tenant_id (fmt_nat (unat (account_id t)) @ [58] @ fmt_nat (unat (project_id t))) = Ok t \<and>
   parse_tenant_id (fmt_nat (unat (account_id t))) = Ok (TenantID (account_id t) 0) \<and>
   parse_tenant_id [] = Ok (TenantID 0 0)"
proof -
  have "split_once 58 (fmt_nat (unat (account_id t))) = None" 
    using fmt_nat_digits digit_not_special by (intro split_once_None) blast
  moreover have "fmt_nat (unat (account_id t)) \<noteq> []" by (rule fmt_nat_nonempty)
  ultimately show ?thesis
    using parse_tenant_id_roundtrip [of t] get_uint32_fmt [of "account_id t"]
    by (simp add: parse_tenant_id_def)
qed
end
