(* ===== verification/Time_Format.thy ===== *)
theory Time_Format
  imports Ids
begin

text \<open>
  The timestamp formats of \<^verbatim>\<open>esl-logstorage/src/values_encoder.rs\<close>: the calendar arithmetic
  (\<open>days_from_civil\<close>, \<open>civil_from_days\<close>), the parsers of ISO 8601 and RFC 3339 timestamps, their
  printers, and the clamped subtraction of \<open>i64\<close> values. The lemmas show that the calendar
  functions are inverse to each other and that every printed timestamp parses back.

  Calendar values (years to seconds) are \<open>int\<close>: the parsers bound the year by 2262 and every other
  field by 345, so no \<open>i64\<close> operation on them wraps. Euclidean and truncating division agree with
  \<open>div\<close> on the operands of the code. Timestamps in nanoseconds are \<open>i64\<close> words.
\<close>

unbundle bit_operations_syntax

subsection \<open>Definitions: clamped subtraction\<close>

definition i64_MIN :: i64 where
  "i64_MIN = push_bit 63 1"

definition i64_MAX :: i64 where
  "i64_MAX = push_bit 63 1 - 1"

definition sub_int64_no_overflow :: "i64 \<Rightarrow> i64 \<Rightarrow> i64" where
  "sub_int64_no_overflow a b =
    (if 0 \<le>s b then
       (if a = i64_MAX then a
        else if a <s i64_MIN + b then i64_MIN
        else a - b)
     else if a = i64_MIN then a
     else if i64_MAX + b <s a then i64_MAX
     else a - b)"

subsection \<open>Definitions: parsing timestamps\<close>

text \<open>The general path of \<open>try_parse_date_uint64\<close>: one decimal digit per byte, with overflow checks.\<close>

primrec date_digits :: "u64 \<Rightarrow> bytes \<Rightarrow> u64 option" where
  "date_digits n [] = Some n"
| "date_digits n (ch # s) =
    (if \<not> is_digit ch then None
     else if n > (- 1) div 10 then None
     else let n = n * 10; d = ucast (ch - 48) in
       if n > (- 1) - d then None else date_digits (n + d) s)"

definition try_parse_date_uint64 :: "bytes \<Rightarrow> u64 option" where
  "try_parse_date_uint64 s =
    (if s = [] \<or> length s > 9 then None
     else if length s = 2 then
       (if \<not> is_digit (s ! 0) then None
        else Some (10 * ucast (s ! 0 - 48) + ucast (s ! 1 - 48)))
     else date_digits 0 s)"

definition days_from_civil :: "int \<Rightarrow> int \<Rightarrow> int" where
  "days_from_civil y m =
    (let y = (if m \<le> 2 then y - 1 else y);
         era = y div 400;
         yoe = y - era * 400;
         mp = (if m > 2 then m - 3 else m + 9);
         doy = (153 * mp + 2) div 5;
         doe = yoe * 365 + yoe div 4 - yoe div 100 + doy
     in era * 146097 + doe - 719468)"

definition unix_secs_from_date :: "int \<Rightarrow> int \<Rightarrow> int \<Rightarrow> int \<Rightarrow> int \<Rightarrow> int \<Rightarrow> int" where
  "unix_secs_from_date year month day hour minute second =
    (let m = month - 1;
         year = year + m div 12;
         month = m mod 12 + 1;
         days = days_from_civil year month + (day - 1)
     in days * 86400 + hour * 3600 + minute * 60 + second)"

text \<open>
  \<open>try_parse_timestamp_secs\<close>. Both callers pass at least 19 bytes, so every index is in range. The
  bounds are \<open>i64::MIN / 1_000_000_000\<close> and \<open>i64::MAX / 1_000_000_000\<close>.
\<close>

definition try_parse_timestamp_secs :: "bytes \<Rightarrow> (int \<times> bytes) option" where
  "try_parse_timestamp_secs s =
    (if s ! 4 \<noteq> 45 then None else
     Option.bind (try_parse_date_uint64 (take 4 s)) (\<lambda>n.
     if \<not> (1677 \<le> n \<and> n \<le> 2262) then None else
     let year = uint n; s = drop 5 s in
     if s ! 2 \<noteq> 45 then None else
     Option.bind (try_parse_date_uint64 (take 2 s)) (\<lambda>month.
     let s = drop 3 s in
     if s ! 2 \<noteq> 84 \<and> s ! 2 \<noteq> 32 then None else
     Option.bind (try_parse_date_uint64 (take 2 s)) (\<lambda>day.
     let s = drop 3 s in
     if s ! 2 \<noteq> 58 then None else
     Option.bind (try_parse_date_uint64 (take 2 s)) (\<lambda>hour.
     let s = drop 3 s in
     if s ! 2 \<noteq> 58 then None else
     Option.bind (try_parse_date_uint64 (take 2 s)) (\<lambda>minute.
     let s = drop 3 s in
     Option.bind (try_parse_date_uint64 (take 2 s)) (\<lambda>second.
     let s = drop 2 s;
         secs = unix_secs_from_date year (uint month) (uint day) (uint hour) (uint minute) (uint second)
     in if \<not> (- 9223372036 \<le> secs \<and> secs < 9223372036) then None else Some (secs, s))))))))"

text \<open>
  \<open>try_parse_timestamp_iso8601_bytes\<close>. The input has 24 bytes and \<open>try_parse_timestamp_secs\<close>
  consumes 19 of them, so the tail is \<open>.\<close>, three digits and \<open>Z\<close>, and the check for trailing bytes
  at the end of the function cannot fail.
\<close>

definition try_parse_timestamp_iso8601_bytes :: "bytes \<Rightarrow> i64 option" where
  "try_parse_timestamp_iso8601_bytes s =
    (if length s \<noteq> 24 then None else
     Option.bind (try_parse_timestamp_secs s) (\<lambda>(secs, s).
     let nsecs = of_int secs * 1000000000 in
     if s ! 0 \<noteq> 46 then None else
     let s = drop 1 s in
     if s ! 3 \<noteq> 90 then None else
     Option.bind (try_parse_date_uint64 (take 3 s)) (\<lambda>msecs.
     Some (nsecs + msecs * 1000000))))"

definition NSECS_PER_HOUR :: i64 where "NSECS_PER_HOUR = 3600 * 1000000000"
definition NSECS_PER_MINUTE :: i64 where "NSECS_PER_MINUTE = 60 * 1000000000"

definition try_parse_hhmm :: "bytes \<Rightarrow> i64 option" where
  "try_parse_hhmm s =
    (case (if length s = 5 \<and> s ! 2 = 58 then Some (take 2 s, drop 3 s)
           else if length s = 4 then Some (take 2 s, drop 2 s)
           else None) of
       None \<Rightarrow> None
     | Some (hour_str, minute_str) \<Rightarrow>
         Option.bind (try_parse_date_uint64 hour_str) (\<lambda>hours.
         if hours > 24 then None else
         Option.bind (try_parse_date_uint64 minute_str) (\<lambda>minutes.
         if minutes > 60 then None else
         Some (hours * NSECS_PER_HOUR + minutes * NSECS_PER_MINUTE))))"

text \<open>\<open>Iterator::rposition\<close>: the last index whose byte satisfies the predicate.\<close>

fun rposition :: "('a \<Rightarrow> bool) \<Rightarrow> 'a list \<Rightarrow> nat option" where
  "rposition P [] = None"
| "rposition P (x # xs) =
    (case rposition P xs of Some i \<Rightarrow> Some (Suc i) | None \<Rightarrow> if P x then Some 0 else None)"

text \<open>The offset of the local time zone (\<open>get_local_timezone_offset_nsecs\<close>) is an argument.\<close>

definition parse_timezone_offset :: "i64 \<Rightarrow> bytes \<Rightarrow> (i64 \<times> bytes) option" where
  "parse_timezone_offset local_offset s =
    (if s \<noteq> [] \<and> last s = 90 then Some (0, butlast s)
     else case rposition (\<lambda>c. c = 43 \<or> c = 45) s of
       None \<Rightarrow> Some (local_offset, s)
     | Some n \<Rightarrow>
         let offset_str = drop (n + 1) s; is_minus = (s ! n = 45) in
         if offset_str = [] then None else
         Option.bind (try_parse_hhmm offset_str) (\<lambda>offset_nsecs.
         Some (if is_minus then - offset_nsecs else offset_nsecs, take n s)))"

definition POW10_U64 :: "u64 list" where
  "POW10_U64 = [1, 10, 100, 1000, 10000, 100000, 1000000, 10000000, 100000000]"

definition try_parse_timestamp_rfc3339_nano :: "i64 \<Rightarrow> bytes \<Rightarrow> i64 option" where
  "try_parse_timestamp_rfc3339_nano local_offset s =
    (if length s < 19 then None else
     Option.bind (try_parse_timestamp_secs s) (\<lambda>(secs, tail).
     let nsecs = of_int secs * 1000000000 in
     Option.bind (parse_timezone_offset local_offset tail) (\<lambda>(offset_nsecs, s).
     let nsecs = sub_int64_no_overflow nsecs offset_nsecs in
     if s = [] then Some nsecs else
     let s = (if s ! 0 = 46 then drop 1 s else s); digits = length s in
     if digits > 9 then None else
     Option.bind (try_parse_date_uint64 s) (\<lambda>n64.
     let n64 = (if digits < 9 then n64 * POW10_U64 ! (9 - digits) else n64) in
     Some (nsecs + n64)))))"

subsection \<open>Definitions: printing timestamps\<close>

definition civil_from_days :: "int \<Rightarrow> int \<times> int \<times> int" where
  "civil_from_days z =
    (let z = z + 719468;
         era = z div 146097;
         doe = z - era * 146097;
         yoe = (doe - doe div 1460 + doe div 36524 - doe div 146096) div 365;
         y = yoe + era * 400;
         doy = doe - (365 * yoe + yoe div 4 - yoe div 100);
         mp = (5 * doy + 2) div 153;
         d = doy - (153 * mp + 2) div 5 + 1;
         m = (if mp < 10 then mp + 3 else mp - 9)
     in (if m \<le> 2 then y + 1 else y, m, d))"

definition utc_date_time_from_nsecs :: "i64 \<Rightarrow> int \<times> int \<times> int \<times> int \<times> int \<times> int \<times> int" where
  "utc_date_time_from_nsecs nsecs =
    (let secs = sint nsecs div 1000000000;
         nsec = sint nsecs mod 1000000000;
         days = secs div 86400;
         rem = secs mod 86400;
         (year, month, day) = civil_from_days days
     in (year, month, day, rem div 3600, (rem div 60) mod 60, rem mod 60, nsec))"

text \<open>\<open>{:0w}\<close> formatting of a signed integer: zeros between the sign and the digits up to width \<open>w\<close>.\<close>

definition fmt_pad :: "nat \<Rightarrow> int \<Rightarrow> bytes" where
  "fmt_pad w n =
    (let sign = (if n < 0 then [45] else []); d = fmt_nat (nat \<bar>n\<bar>)
     in sign @ replicate (w - length sign - length d) 48 @ d)"

definition fmt_date_time :: "int \<Rightarrow> int \<Rightarrow> int \<Rightarrow> int \<Rightarrow> int \<Rightarrow> int \<Rightarrow> bytes" where
  "fmt_date_time year month day hour minute second =
    fmt_pad 4 year @ [45] @ fmt_pad 2 month @ [45] @ fmt_pad 2 day @ [84] @
    fmt_pad 2 hour @ [58] @ fmt_pad 2 minute @ [58] @ fmt_pad 2 second"

definition marshal_timestamp_iso8601_string :: "bytes \<Rightarrow> i64 \<Rightarrow> bytes" where
  "marshal_timestamp_iso8601_string dst nsecs =
    (let (year, month, day, hour, minute, second, nsec) = utc_date_time_from_nsecs nsecs
     in dst @ fmt_date_time year month day hour minute second @ [46] @ fmt_pad 3 (nsec div 1000000) @ [90])"

text \<open>The loop that removes trailing zeros from the fraction; the code enters it with a positive value.\<close>

function strip_zeros :: "nat \<Rightarrow> int \<Rightarrow> nat \<times> int" where
  "strip_zeros frac_len nsec =
    (if nsec mod 10 = 0 \<and> 0 < nsec then strip_zeros (frac_len - 1) (nsec div 10) else (frac_len, nsec))"
  by pat_completeness auto
termination
  by (relation "measure (\<lambda>(_, n). nat n)") auto

declare strip_zeros.simps [simp del]

definition marshal_timestamp_rfc3339_nano_string :: "bytes \<Rightarrow> i64 \<Rightarrow> bytes" where
  "marshal_timestamp_rfc3339_nano_string dst nsecs =
    (let (year, month, day, hour, minute, second, nsec) = utc_date_time_from_nsecs nsecs
     in dst @ fmt_date_time year month day hour minute second @
        (if nsec \<noteq> 0 then (case strip_zeros 9 nsec of (frac_len, nsec) \<Rightarrow> [46] @ fmt_pad frac_len nsec) else []) @
        [90])"

definition marshal_timestamp_rfc3339_nano_precise_string :: "bytes \<Rightarrow> i64 \<Rightarrow> bytes" where
  "marshal_timestamp_rfc3339_nano_precise_string dst nsecs =
    (let (year, month, day, hour, minute, second, nsec) = utc_date_time_from_nsecs nsecs
     in dst @ fmt_date_time year month day hour minute second @ [46] @ fmt_pad 9 nsec @ [90])"


subsection \<open>Clamped subtraction\<close>

lemma sint_i64_bounds: "- (2 ^ 63) \<le> sint (a :: i64)" "sint (a :: i64) < 2 ^ 63"
  using sint_ge [of a] sint_lt [of a] by simp_all

lemma sint_MIN_MAX: "sint i64_MIN = - (2 ^ 63)" "sint i64_MAX = 2 ^ 63 - 1"
  by (simp_all add: i64_MIN_def i64_MAX_def)

lemma sint_exact_add: "- (2 ^ 63) \<le> sint a + sint b \<Longrightarrow> sint a + sint b < 2 ^ 63 \<Longrightarrow> sint (a + b :: i64) = sint a + sint b"
  by (simp add: sint_word_ariths signed_take_bit_int_eq_self)

lemma sint_exact_sub: "- (2 ^ 63) \<le> sint a - sint b \<Longrightarrow> sint a - sint b < 2 ^ 63 \<Longrightarrow> sint (a - b :: i64) = sint a - sint b"
  by (simp add: sint_word_ariths signed_take_bit_int_eq_self)

lemma sint_sub_int64_no_overflow:
  "sint (sub_int64_no_overflow a b) =
    (if a = i64_MAX \<and> 0 \<le> sint b \<or> a = i64_MIN \<and> sint b < 0 then sint a
     else max (- (2 ^ 63)) (min (2 ^ 63 - 1) (sint a - sint b)))"
proof (cases "0 \<le> sint b")
  case True
  have "sint (i64_MIN + b) = - (2 ^ 63) + sint b"
    using True sint_i64_bounds [of b] by (subst sint_exact_add) (simp_all add: sint_MIN_MAX)
  then have s: "a <s i64_MIN + b \<longleftrightarrow> sint a - sint b < - (2 ^ 63)" by (simp add: word_sless_alt) linarith
  have d: "sint a - sint b < 2 ^ 63" using True sint_i64_bounds [of a] by linarith
  show ?thesis
  proof (cases "a = i64_MAX")
    case False
    with True s d show ?thesis
      by (auto simp: sub_int64_no_overflow_def word_sle_eq sint_MIN_MAX sint_exact_sub)
  qed (use True in \<open>simp add: sub_int64_no_overflow_def word_sle_eq\<close>)
next
  case False
  have "sint (i64_MAX + b) = 2 ^ 63 - 1 + sint b"
    using False sint_i64_bounds [of b] by (subst sint_exact_add) (simp_all add: sint_MIN_MAX)
  then have s: "i64_MAX + b <s a \<longleftrightarrow> 2 ^ 63 - 1 < sint a - sint b" by (simp add: word_sless_alt) linarith
  have d: "- (2 ^ 63) \<le> sint a - sint b" using False sint_i64_bounds [of a] by linarith
  show ?thesis
  proof (cases "a = i64_MIN")
    case F: False
    with False s d show ?thesis
      by (auto simp: sub_int64_no_overflow_def word_sle_eq sint_MIN_MAX sint_exact_sub)
  qed (use False in \<open>simp add: sub_int64_no_overflow_def word_sle_eq\<close>)
qed

subsection \<open>The calendar\<close>

text \<open>The position of a day inside its 400-year era: century, 4-year cycle, year, day of the year.\<close>

lemma year_of_era:
  fixes c q k u :: int
  assumes c: "0 \<le> c" "c \<le> 3" and q: "0 \<le> q" "q \<le> 24" and k: "0 \<le> k" "k \<le> 3"
    and u: "0 \<le> u" "u \<le> 364 \<or> k = 3 \<and> u = 365 \<and> q < 24"
  defines "doe \<equiv> 36524 * c + 1461 * q + 365 * k + u"
  shows "(doe - doe div 1460 + doe div 36524 - doe div 146096) div 365 = 100 * c + 4 * q + k"
proof -
  define t where "t = 365 * k + u"
  have t: "0 \<le> t" "t \<le> 1460" "365 * k \<le> t" "t < 365 * k + 366" "t = 365 * k + 365 \<longrightarrow> t = 1460"
    using k u by (auto simp: t_def)
  have r: "1461 * q + t < 36524" using q u k by (auto simp: t_def)
  have d: "doe = 36524 * c + (1461 * q + t)" by (simp add: doe_def t_def)
  have c1: "doe div 36524 = c" by (rule int_div_pos_eq [OF d]) (use q t r in auto)
  have c2: "doe div 146096 = 0"
    using r q t c unfolding d by (intro div_pos_pos_trivial) auto
  define e where "e = (24 * c + q + t) div 1460"
  have e: "e = 0 \<and> 24 * c + q + t < 1460 \<or> e = 1 \<and> 24 * c + q + t \<ge> 1460"
    using c q t unfolding e_def by linarith
  have "doe = (24 * c + q + t) + 1460 * (25 * c + q)" by (simp add: doe_def t_def)
  then have c3: "doe div 1460 = 25 * c + q + e"
    unfolding e_def by (metis add.commute div_mult_self2 zero_neq_numeral)
  have "doe - doe div 1460 + doe div 36524 - doe div 146096 = 365 * (100 * c + 4 * q + k) + (t - e - 365 * k)"
    unfolding c1 c2 c3 by (simp add: doe_def t_def)
  moreover have "0 \<le> t - e - 365 * k" "t - e - 365 * k < 365" using e t c q k by auto
  ultimately show ?thesis by (auto intro: int_div_pos_eq)
qed

lemma era_position:
  fixes doe :: int
  assumes "0 \<le> doe" "doe < 146096"
  obtains c q k u :: int where "0 \<le> c" "c \<le> 3" "0 \<le> q" "q \<le> 24" "0 \<le> k" "k \<le> 3" "0 \<le> u"
    "u \<le> 364 \<or> k = 3 \<and> u = 365 \<and> q < 24" "doe = 36524 * c + 1461 * q + 365 * k + u"
proof -
  define c where "c = doe div 36524"
  define r where "r = doe mod 36524"
  define q where "q = r div 1461"
  define t where "t = r mod 1461"
  define k where "k = (if t = 1460 then 3 else t div 365)"
  define u where "u = t - 365 * k"
  have r: "0 \<le> r" "r < 36524" "doe = 36524 * c + r" by (simp_all add: r_def c_def)
  have t: "0 \<le> t" "t < 1461" "r = 1461 * q + t" by (simp_all add: t_def q_def)
  have c: "0 \<le> c" "c \<le> 3" using assms r by auto
  have q: "0 \<le> q" "q \<le> 24" "t = 1460 \<longrightarrow> q < 24" using r t by auto
  have k: "0 \<le> k" "k \<le> 3" using t by (auto simp: k_def)
  have u: "0 \<le> u" "u \<le> 364 \<or> k = 3 \<and> u = 365 \<and> q < 24" using t q by (auto simp: k_def u_def)
  show ?thesis
    by (rule that [of c q k u]) (use c q k u r t in \<open>auto simp: u_def\<close>)
qed

lemma year_div:
  fixes c q k :: int
  assumes "0 \<le> c" "0 \<le> q" "q \<le> 24" "0 \<le> k" "k \<le> 3"
  shows "(100 * c + 4 * q + k) div 4 = 25 * c + q" "(100 * c + 4 * q + k) div 100 = c"
  using assms by auto

lemma era_year_bounds:
  fixes doe :: int
  assumes "0 \<le> doe" "doe < 146097"
  defines "yoe \<equiv> (doe - doe div 1460 + doe div 36524 - doe div 146096) div 365"
  shows "0 \<le> yoe \<and> yoe \<le> 399 \<and> 0 \<le> doe - (365 * yoe + yoe div 4 - yoe div 100) \<and>
    doe - (365 * yoe + yoe div 4 - yoe div 100) \<le> 365"
proof (cases "doe = 146096")
  case True
  then show ?thesis by (simp add: yoe_def)
next
  case False
  have "0 \<le> doe" "doe < 146096" using False assms by auto
  then obtain c q k u where b: "0 \<le> c" "c \<le> 3" "0 \<le> q" "q \<le> 24" "0 \<le> k" "k \<le> 3" "0 \<le> u"
    "u \<le> 364 \<or> k = 3 \<and> u = 365 \<and> q < 24" and d: "doe = 36524 * c + 1461 * q + 365 * k + u"
    by (rule era_position)
  have "yoe = 100 * c + 4 * q + k" unfolding yoe_def d by (rule year_of_era) (use b in auto)
  moreover have "(100 * c + 4 * q + k) div 4 = 25 * c + q" "(100 * c + 4 * q + k) div 100 = c"
    using b by (auto intro!: year_div)
  moreover have "100 * c + 4 * q + k \<le> 399" using b by linarith
  ultimately show ?thesis using b by (simp add: d) linarith
qed

lemma month_day_bounds:
  fixes doy :: int
  assumes "0 \<le> doy" "doy \<le> 365"
  defines "mp \<equiv> (5 * doy + 2) div 153"
  shows "0 \<le> mp \<and> mp \<le> 11 \<and> 1 \<le> doy - (153 * mp + 2) div 5 + 1 \<and> doy - (153 * mp + 2) div 5 + 1 \<le> 31"
proof -
  have "153 * mp \<le> 5 * doy + 2" "5 * doy + 2 < 153 * mp + 153" unfolding mp_def by linarith+
  moreover from this have "0 \<le> mp" "mp \<le> 11" using assms by linarith+
  ultimately show ?thesis by linarith
qed

text \<open>
  The components of \<open>civil_from_days\<close>: the year that starts in March, counted from the epoch of
  the calendar, and the day of that year.
\<close>

lemma civil_from_days_cases:
  fixes z :: int
  obtains Y doy mp where "civil_from_days z = (if mp < 10 then Y else Y + 1, if mp < 10 then mp + 3 else mp - 9,
      doy - (153 * mp + 2) div 5 + 1)"
    "mp = (5 * doy + 2) div 153" "0 \<le> doy" "doy \<le> 365"
    "z + 719468 = 365 * Y + Y div 4 - Y div 100 + Y div 400 + doy"
proof -
  define era where "era = (z + 719468) div 146097"
  define doe where "doe = z + 719468 - era * 146097"
  define yoe where "yoe = (doe - doe div 1460 + doe div 36524 - doe div 146096) div 365"
  define doy where "doy = doe - (365 * yoe + yoe div 4 - yoe div 100)"
  have "doe = (z + 719468) mod 146097" by (simp add: doe_def era_def minus_mult_div_eq_mod [symmetric] mult.commute)
  then have doe: "0 \<le> doe" "doe < 146097" by simp_all
  have y: "0 \<le> yoe" "yoe \<le> 399" "0 \<le> doy" "doy \<le> 365"
    using era_year_bounds [OF doe] by (simp_all add: yoe_def doy_def)
  have mp: "0 \<le> (5 * doy + 2) div 153" "(5 * doy + 2) div 153 \<le> 11" using month_day_bounds [OF y(3,4)] by auto
  have Y: "(yoe + era * 400) div 4 = yoe div 4 + 100 * era" "(yoe + era * 400) div 100 = yoe div 100 + 4 * era"
    "(yoe + era * 400) div 400 = era" using y by auto
  show ?thesis
  proof (rule that [of "(5 * doy + 2) div 153" "yoe + era * 400" doy])
    show "civil_from_days z = (if (5 * doy + 2) div 153 < 10 then yoe + era * 400 else yoe + era * 400 + 1,
        if (5 * doy + 2) div 153 < 10 then (5 * doy + 2) div 153 + 3 else (5 * doy + 2) div 153 - 9,
        doy - (153 * ((5 * doy + 2) div 153) + 2) div 5 + 1)"
      using mp unfolding civil_from_days_def Let_def era_def [symmetric] doe_def [symmetric] yoe_def [symmetric]
        doy_def [symmetric] by simp
    show "z + 719468 = 365 * (yoe + era * 400) + (yoe + era * 400) div 4 - (yoe + era * 400) div 100 +
        (yoe + era * 400) div 400 + doy"
      unfolding Y by (simp add: doy_def doe_def)
  qed (use y in auto)
qed

lemma year_days:
  fixes Y :: int
  shows "(Y - Y div 400 * 400) * 365 + (Y - Y div 400 * 400) div 4 - (Y - Y div 400 * 400) div 100 + Y div 400 * 146097 =
    365 * Y + Y div 4 - Y div 100 + Y div 400"
proof -
  define era yoe where "era = Y div 400" and "yoe = Y mod 400"
  have Y: "Y = yoe + era * 400" by (simp add: era_def yoe_def)
  have y: "Y - era * 400 = yoe" "Y div 4 = yoe div 4 + 100 * era" "Y div 100 = yoe div 100 + 4 * era"
    by (simp_all add: Y)
  show ?thesis unfolding era_def [symmetric] y by (simp add: Y)
qed

lemma days_from_civil_from_days:
  assumes "civil_from_days z = (y, m, d)"
  shows "days_from_civil y m + (d - 1) = z" and "1 \<le> m" and "m \<le> 12" and "1 \<le> d" and "d \<le> 31"
proof -
  obtain Y doy mp where c: "civil_from_days z = (if mp < 10 then Y else Y + 1, if mp < 10 then mp + 3 else mp - 9,
      doy - (153 * mp + 2) div 5 + 1)" and mp: "mp = (5 * doy + 2) div 153" "0 \<le> doy" "doy \<le> 365"
    and z: "z + 719468 = 365 * Y + Y div 4 - Y div 100 + Y div 400 + doy"
    by (rule civil_from_days_cases)
  have b: "0 \<le> mp" "mp \<le> 11" "1 \<le> doy - (153 * mp + 2) div 5 + 1" "doy - (153 * mp + 2) div 5 + 1 \<le> 31"
    using month_day_bounds [OF mp(2,3)] mp(1) by auto
  show "1 \<le> m" "m \<le> 12" "1 \<le> d" "d \<le> 31" using c b assms by (auto split: if_splits)
  have e: "(Y - Y div 400 * 400) * 365 + (Y - Y div 400 * 400) div 4 - (Y - Y div 400 * 400) div 100 + Y div 400 * 146097 =
    365 * Y + Y div 4 - Y div 100 + Y div 400" by (rule year_days)
  have "days_from_civil y m = 365 * Y + Y div 4 - Y div 100 + Y div 400 + (153 * mp + 2) div 5 - 719468"
  proof (cases "mp < 10")
    case True
    then have "y = Y" "m = mp + 3" using c assms by simp_all
    then show ?thesis using True b unfolding days_from_civil_def Let_def by (simp flip: e)
  next
    case False
    then have "y = Y + 1" "m = mp - 9" using c assms by simp_all
    then show ?thesis using False b unfolding days_from_civil_def Let_def by (simp flip: e)
  qed
  moreover have "d = doy - (153 * mp + 2) div 5 + 1" using c assms by simp
  ultimately show "days_from_civil y m + (d - 1) = z" using z by simp
qed


text \<open>Every \<open>i64\<close> timestamp lies between the years 1677 and 2262.\<close>

lemma civil_year_bounds:
  assumes "civil_from_days z = (y, m, d)" "- 106752 \<le> z" "z \<le> 106751"
  shows "1677 \<le> y" "y \<le> 2262"
proof -
  obtain Y doy mp where c: "civil_from_days z = (if mp < 10 then Y else Y + 1, if mp < 10 then mp + 3 else mp - 9,
      doy - (153 * mp + 2) div 5 + 1)" and mp: "mp = (5 * doy + 2) div 153" "0 \<le> doy" "doy \<le> 365"
    and z: "z + 719468 = 365 * Y + Y div 4 - Y div 100 + Y div 400 + doy"
    by (rule civil_from_days_cases)
  have lo: "1677 \<le> Y" using assms z mp by linarith
  have hi: "Y \<le> 2262" using assms z mp by linarith
  have "mp < 10 \<or> Y < 2262" using z assms mp hi by (cases "Y = 2262") auto
  then show "1677 \<le> y" "y \<le> 2262" using c assms(1) lo hi by (auto split: if_splits)
qed

lemma utc_date_time:
  assumes "utc_date_time_from_nsecs t = (year, month, day, hour, minute, second, nsec)"
  shows "unix_secs_from_date year month day hour minute second = sint t div 1000000000"
    and "nsec = sint t mod 1000000000"
    and "1677 \<le> year" "year \<le> 2262" "1 \<le> month" "month \<le> 12" "1 \<le> day" "day \<le> 31"
    and "0 \<le> hour" "hour < 24" "0 \<le> minute" "minute < 60" "0 \<le> second" "second < 60"
proof -
  define secs where "secs = sint t div 1000000000"
  define r where "r = secs mod 86400"
  obtain y m d where c: "civil_from_days (secs div 86400) = (y, m, d)" by (cases "civil_from_days (secs div 86400)") auto
  have e: "year = y" "month = m" "day = d" "hour = r div 3600" "minute = (r div 60) mod 60" "second = r mod 60"
    and n: "nsec = sint t mod 1000000000"
    using assms c by (auto simp: utc_date_time_from_nsecs_def Let_def secs_def r_def)
  have "- 106752 \<le> secs div 86400" "secs div 86400 \<le> 106751"
    using sint_i64_bounds [of t] unfolding secs_def by auto
  note b = civil_year_bounds [OF c this] days_from_civil_from_days [OF c]
  have r: "0 \<le> r" "r < 86400" "secs = 86400 * (secs div 86400) + r" by (simp_all add: r_def)
  have h: "r = 3600 * (r div 3600) + 60 * ((r div 60) mod 60) + r mod 60" 
  proof -
    have "r div 3600 = r div 60 div 60" using zdiv_zmult2_eq [of 60 r 60] by simp
    then have "r div 60 = 60 * (r div 3600) + (r div 60) mod 60" by simp
    moreover have "r = 60 * (r div 60) + r mod 60" by simp
    ultimately show ?thesis by linarith
  qed
  show "nsec = sint t mod 1000000000" by (rule n)
  show "1677 \<le> year" "year \<le> 2262" "1 \<le> month" "month \<le> 12" "1 \<le> day" "day \<le> 31"
    "0 \<le> hour" "hour < 24" "0 \<le> minute" "minute < 60" "0 \<le> second" "second < 60"
    using b(1,2,4-7) r(1,2) unfolding e by simp_all
  have "(m - 1) div 12 = 0" by (rule div_pos_pos_trivial) (use b in auto)
  moreover have "(m - 1) mod 12 = m - 1" by (rule mod_pos_pos_trivial) (use b in auto)
  ultimately have "unix_secs_from_date year month day hour minute second =
      (days_from_civil y m + (d - 1)) * 86400 + r div 3600 * 3600 + (r div 60) mod 60 * 60 + r mod 60"
    unfolding e unix_secs_from_date_def Let_def by simp
  also have "\<dots> = 86400 * (secs div 86400) + r" unfolding b(3) using h by linarith
  also have "\<dots> = sint t div 1000000000" using r(3) by (simp only: secs_def)
  finally show "unix_secs_from_date year month day hour minute second = sint t div 1000000000" .
qed

subsection \<open>Decimal fields\<close>

text \<open>A field of \<open>w\<close> decimal digits, most significant digit first.\<close>

primrec digits :: "nat \<Rightarrow> nat \<Rightarrow> bytes" where
  "digits 0 n = []"
| "digits (Suc w) n = digits w (n div 10) @ [of_nat (48 + n mod 10)]"

lemma length_digits [simp]: "length (digits w n) = w"
  by (induction w arbitrary: n) auto

lemma digits_zero: "digits w 0 = replicate w 48"
  by (induction w) (auto simp: replicate_append_same)

lemma fmt_nat_length: "0 < w \<Longrightarrow> n < 10 ^ w \<Longrightarrow> length (fmt_nat n) \<le> w"
proof (induction w arbitrary: n)
  case (Suc w)
  show ?case
  proof (cases "n < 10")
    case False
    then have "0 < w" using Suc.prems by (cases w) auto
    moreover have "n div 10 < 10 ^ w" using Suc.prems by auto
    ultimately show ?thesis using False Suc.IH by (subst fmt_nat.simps) auto
  qed (subst fmt_nat.simps, simp)
qed simp

lemma digits_fmt_nat: "0 < w \<Longrightarrow> n < 10 ^ w \<Longrightarrow> replicate (w - length (fmt_nat n)) 48 @ fmt_nat n = digits w n"
proof (induction w arbitrary: n)
  case (Suc w)
  show ?case
  proof (cases "n < 10")
    case True
    then show ?thesis by (subst (1 2) fmt_nat.simps) (simp add: digits_zero)
  next
    case False
    then have "0 < w" using Suc.prems by (cases w) auto
    moreover have "n div 10 < 10 ^ w" using Suc.prems by auto
    ultimately show ?thesis using False Suc.IH [of "n div 10"] by (subst (1 2) fmt_nat.simps) (simp flip: append_assoc)
  qed
qed simp

lemma fmt_pad_digits: "0 < w \<Longrightarrow> 0 \<le> n \<Longrightarrow> n < 10 ^ w \<Longrightarrow> fmt_pad w n = digits w (nat n)"
  using digits_fmt_nat [of w "nat n"] by (simp add: fmt_pad_def Let_def nat_less_iff)

lemma digit_value: "k < 10 \<Longrightarrow> ucast (of_nat (48 + k) - 48 :: u8) = (of_nat k :: u64)"
  by (intro word_unat_eq_iff [THEN iffD2])
     (simp add: unsigned_ucast_eq unat_of_nat take_bit_nat_eq_self)

lemma date_digits_append:
  "date_digits n (s @ t) = Option.bind (date_digits n s) (\<lambda>n. date_digits n t)"
  by (induction s arbitrary: n) (simp_all add: Let_def)

lemma date_digits_field: "w \<le> 9 \<Longrightarrow> n < 10 ^ w \<Longrightarrow> date_digits 0 (digits w n) = Some (of_nat n)"
proof (induction w arbitrary: n)
  case (Suc w)
  have n: "n div 10 < 10 ^ w" using Suc.prems by auto
  moreover have "(10::nat) ^ w \<le> 10 ^ 8" using Suc.prems by (intro power_increasing) auto
  ultimately have b: "n div 10 < 10 ^ 8" by linarith
  have u: "unat (of_nat (n div 10) :: u64) = n div 10" "unat (of_nat (n div 10 * 10) :: u64) = n div 10 * 10"
    "unat (of_nat (n mod 10) :: u64) = n mod 10"
    using b by (simp_all only: unat_of_nat) (simp_all add: take_bit_nat_eq_self)
  have g1: "\<not> (of_nat (n div 10) :: u64) > (- 1) div 10" using b by (simp add: word_less_nat_alt u)
  have g2: "\<not> (of_nat (n div 10) * 10 :: u64) > (- 1) - of_nat (n mod 10)"
  proof -
    have "unat (- 1 :: u64) = 2 ^ 64 - 1" by (simp add: unsigned_minus_1_eq_mask mask_eq_exp_minus_1)
    moreover have "(of_nat (n mod 10) :: u64) \<le> - 1" by simp
    ultimately have "unat ((- 1) - (of_nat (n mod 10) :: u64)) = 2 ^ 64 - 1 - n mod 10"
      using u(3) by (metis unat_sub)
    then show ?thesis using b u(2) by (simp add: word_less_nat_alt)
  qed
  have "(of_nat (n div 10) * 10 + of_nat (n mod 10) :: u64) = of_nat (n div 10 * 10 + n mod 10)" by (simp only: of_nat_add of_nat_mult of_nat_numeral)
  then have e: "(of_nat (n div 10) * 10 + of_nat (n mod 10) :: u64) = of_nat n" by simp
  show ?case
    using Suc.IH [OF _ n] Suc.prems g1 g2 e
    by (simp add: date_digits_append Let_def is_digit_fmt digit_value del: of_nat_add)
qed simp

lemma try_parse_date_field:
  assumes "0 < w" "w \<le> 9" "n < 10 ^ w"
  shows "try_parse_date_uint64 (digits w n) = Some (of_nat n)"
proof (cases "w = 2")
  case True
  have d: "digits w n = [of_nat (48 + n div 10), of_nat (48 + n mod 10)]"
    using True assms by (simp add: numeral_2_eq_2)
  have "n div 10 < 10" using True assms by auto
  moreover have "(10 * of_nat (n div 10) + of_nat (n mod 10) :: u64) = of_nat (10 * (n div 10) + n mod 10)"
    by (simp only: of_nat_add of_nat_mult of_nat_numeral)
  ultimately show ?thesis
    unfolding d try_parse_date_uint64_def by (simp add: is_digit_fmt digit_value del: of_nat_add)
next
  case False
  have "digits w n \<noteq> []" using assms by (metis length_digits less_irrefl list.size(3))
  then show ?thesis using False assms by (simp add: try_parse_date_uint64_def date_digits_field)
qed


subsection \<open>Printed timestamps parse back\<close>

lemma uint_field: "0 \<le> i \<Longrightarrow> i < 2 ^ 64 \<Longrightarrow> uint (of_nat (nat i) :: u64) = i"
  by (simp add: unsigned_of_int take_bit_int_eq_self)

lemma fmt_date_time_digits:
  assumes "0 \<le> year" "year < 10000" "0 \<le> month" "month < 100" "0 \<le> day" "day < 100" "0 \<le> hour" "hour < 100"
    "0 \<le> minute" "minute < 100" "0 \<le> second" "second < 100"
  shows "fmt_date_time year month day hour minute second =
    digits 4 (nat year) @ [45] @ digits 2 (nat month) @ [45] @ digits 2 (nat day) @ [84] @
    digits 2 (nat hour) @ [58] @ digits 2 (nat minute) @ [58] @ digits 2 (nat second)"
  using assms by (simp add: fmt_date_time_def fmt_pad_digits)

lemma parse_secs_digits:
  assumes "1677 \<le> year" "year \<le> 2262" "month < 100" "day < 100" "hour < 100" "minute < 100" "second < 100"
  defines "secs \<equiv> unix_secs_from_date (int year) (int month) (int day) (int hour) (int minute) (int second)"
  shows "try_parse_timestamp_secs
    ((digits 4 year @ [45] @ digits 2 month @ [45] @ digits 2 day @ [84] @
      digits 2 hour @ [58] @ digits 2 minute @ [58] @ digits 2 second) @ rest) =
    (if - 9223372036 \<le> secs \<and> secs < 9223372036 then Some (secs, rest) else None)"
proof -
  have u: "uint (of_nat k :: u64) = int k" if "k < 3000" for k
    using that by (simp add: unsigned_of_nat take_bit_nat_eq_self)
  have y: "1677 \<le> (of_nat year :: u64)" "(of_nat year :: u64) \<le> 2262"
    using assms(1,2) by (simp_all add: word_le_nat_alt unat_of_nat take_bit_nat_eq_self)
  have p4: "try_parse_date_uint64 (digits 4 year) = Some (of_nat year)"
    by (rule try_parse_date_field) (use assms(1,2) in auto)
  have p2: "try_parse_date_uint64 (digits 2 k) = Some (of_nat k)" if "k < 100" for k
    by (rule try_parse_date_field) (use that in auto)
  show ?thesis
    using assms(1-7) y unfolding try_parse_timestamp_secs_def secs_def
    by (simp add: nth_append p4 p2 u Let_def)
qed

lemma try_parse_secs_fmt:
  assumes "utc_date_time_from_nsecs t = (year, month, day, hour, minute, second, nsec)"
  defines "secs \<equiv> sint t div 1000000000"
  shows "try_parse_timestamp_secs (fmt_date_time year month day hour minute second @ rest) =
    (if - 9223372036 \<le> secs \<and> secs < 9223372036 then Some (secs, rest) else None)"
    and "length (fmt_date_time year month day hour minute second) = 19"
proof -
  note b = utc_date_time [OF assms(1)]
  have f: "fmt_date_time year month day hour minute second =
    digits 4 (nat year) @ [45] @ digits 2 (nat month) @ [45] @ digits 2 (nat day) @ [84] @
    digits 2 (nat hour) @ [58] @ digits 2 (nat minute) @ [58] @ digits 2 (nat second)"
    by (rule fmt_date_time_digits) (use b in auto)
  then show "length (fmt_date_time year month day hour minute second) = 19" by simp
  have i: "int (nat year) = year" "int (nat month) = month" "int (nat day) = day" "int (nat hour) = hour"
    "int (nat minute) = minute" "int (nat second) = second" using b by auto
  show "try_parse_timestamp_secs (fmt_date_time year month day hour minute second @ rest) =
    (if - 9223372036 \<le> secs \<and> secs < 9223372036 then Some (secs, rest) else None)"
    unfolding f secs_def b(1) [symmetric]
    by (subst parse_secs_digits) (use b in \<open>auto simp: i\<close>)
qed

lemma split_nsecs:
  "of_int (sint t div 1000000000) * 1000000000 + of_int (sint t mod 1000000000) = (t :: i64)"
proof -
  have "of_int (sint t div 1000000000) * 1000000000 + of_int (sint t mod 1000000000) =
    (of_int (sint t div 1000000000 * 1000000000 + sint t mod 1000000000) :: i64)"
    by (simp only: of_int_add of_int_mult of_int_numeral)
  then show ?thesis by simp
qed

lemma of_nat_nat_word: "0 \<le> i \<Longrightarrow> of_nat (nat i) = (of_int i :: i64)"
  by (simp add: of_nat_nat)

text \<open>The value of a timestamp cut to milliseconds.\<close>

definition to_msecs :: "i64 \<Rightarrow> i64" where
  "to_msecs t = of_int (sint t div 1000000 * 1000000)"

lemma to_msecs_split:
  "of_int (sint t div 1000000000) * 1000000000 + of_int (sint t mod 1000000000 div 1000000) * 1000000 = to_msecs t"
proof -
  have e: "sint t div 1000000000 * 1000000000 + sint t mod 1000000000 div 1000000 * 1000000 = sint t div 1000000 * 1000000"
  proof -
    have "sint t div 1000000000 = sint t div 1000000 div 1000" using zdiv_zmult2_eq [of 1000 "sint t" 1000000] by simp
    moreover have "sint t mod 1000000000 div 1000000 = sint t div 1000000 mod 1000"
      using zmod_zmult2_eq [of 1000 "sint t" 1000000] by simp
    moreover have "sint t div 1000000 div 1000 * 1000 + sint t div 1000000 mod 1000 = sint t div 1000000" by simp
    ultimately show ?thesis by linarith
  qed
  show ?thesis unfolding to_msecs_def e [symmetric] by (simp only: of_int_add of_int_mult of_int_numeral)
qed

lemma iso8601_print_parse:
  "try_parse_timestamp_iso8601_bytes (marshal_timestamp_iso8601_string [] t) =
    (if - 9223372036 \<le> sint t div 1000000000 \<and> sint t div 1000000000 < 9223372036 then Some (to_msecs t) else None)"
proof -
  obtain year month day hour minute second nsec where
    u: "utc_date_time_from_nsecs t = (year, month, day, hour, minute, second, nsec)"
    by (cases "utc_date_time_from_nsecs t") auto
  define ms where "ms = nsec div 1000000"
  have n: "nsec = sint t mod 1000000000" by (rule utc_date_time(2) [OF u])
  then have ms: "0 \<le> ms" "ms < 1000" by (auto simp: ms_def)
  have m: "marshal_timestamp_iso8601_string [] t =
    fmt_date_time year month day hour minute second @ [46] @ digits 3 (nat ms) @ [90]"
    using ms by (simp add: marshal_timestamp_iso8601_string_def u fmt_pad_digits ms_def)
  have p: "try_parse_date_uint64 (digits 3 (nat ms)) = Some (of_nat (nat ms))"
    by (rule try_parse_date_field) (use ms in auto)
  show ?thesis
    unfolding m try_parse_timestamp_iso8601_bytes_def to_msecs_split [of t, symmetric] n [symmetric] ms_def [symmetric]
    using ms by (simp add: try_parse_secs_fmt [OF u] p nth_append Let_def)
qed

lemma strip_zeros_spec:
  assumes "strip_zeros f n = (f', n')" "0 < n" "n < 10 ^ f"
  shows "0 < f' \<and> f' \<le> f \<and> 0 < n' \<and> n' < 10 ^ f' \<and> n = n' * 10 ^ (f - f')"
  using assms
proof (induction f n arbitrary: f' n' rule: strip_zeros.induct)
  case (1 f n)
  have f: "0 < f" using "1.prems"(2,3) by (cases f) auto
  show ?case
  proof (cases "n mod 10 = 0")
    case True
    have s: "strip_zeros (f - 1) (n div 10) = (f', n')" using "1.prems" True by (subst (asm) strip_zeros.simps) auto
    have d: "0 < n div 10" "n = n div 10 * 10" using True "1.prems"(2) by auto
    have "n div 10 < 10 ^ (f - 1)" using "1.prems"(3) d(2) f by (cases f) auto
    then have "0 < f' \<and> f' \<le> f - 1 \<and> 0 < n' \<and> n' < 10 ^ f' \<and> n div 10 = n' * 10 ^ (f - 1 - f')"
      using "1.IH" [OF _ s d(1)] True "1.prems"(2) by simp
    moreover from this have "f - f' = Suc (f - 1 - f')" using f by auto
    ultimately show ?thesis using d(2) by auto
  next
    case False
    then have "f' = f" "n' = n" using "1.prems" by (subst (asm) strip_zeros.simps, simp)+
    then show ?thesis using "1.prems"(2,3) f by simp
  qed
qed

lemma POW10_U64_nth: "k \<le> 8 \<Longrightarrow> POW10_U64 ! k = 10 ^ k"
proof -
  assume "k \<le> 8"
  then have "k \<in> {0, 1, 2, 3, 4, 5, 6, 7, 8}" by auto
  then show ?thesis by (auto simp: POW10_U64_def)
qed

lemma sub_int64_zero [simp]: "sub_int64_no_overflow a 0 = a"
proof -
  have "\<not> a <s i64_MIN" using sint_i64_bounds [of a] by (simp add: word_sless_alt sint_MIN_MAX)
  then show ?thesis by (simp add: sub_int64_no_overflow_def)
qed

text \<open>
  The fraction of a second, printed with its trailing zeros cut or not, is read back with the
  weight of its last digit.
\<close>

lemma rfc3339_nano_fraction:
  assumes u: "utc_date_time_from_nsecs t = (year, month, day, hour, minute, second, nsec)"
    and f: "0 < f" "f \<le> 9" and n: "0 \<le> n" "n < 10 ^ f" "nsec = n * 10 ^ (9 - f)"
    and secs: "- 9223372036 \<le> sint t div 1000000000 \<and> sint t div 1000000000 < 9223372036"
  shows "try_parse_timestamp_rfc3339_nano tz
    (fmt_date_time year month day hour minute second @ [46] @ fmt_pad f n @ [90]) = Some t"
proof -
  have p: "try_parse_date_uint64 (digits f (nat n)) = Some (of_int n)"
    using f n try_parse_date_field [of f "nat n"] by (simp add: nat_less_iff of_nat_nat)
  have l: "digits f (nat n) \<noteq> []" using f by (metis length_digits less_irrefl list.size(3))
  have w: "(if f < 9 then of_int n * POW10_U64 ! (9 - f) else of_int n) = (of_int nsec :: i64)"
    using f n(3) by (auto simp: POW10_U64_nth)
  have nsec: "nsec = sint t mod 1000000000" by (rule utc_date_time(2) [OF u])
  show ?thesis
    using secs f n w l p split_nsecs [of t] unfolding try_parse_timestamp_rfc3339_nano_def parse_timezone_offset_def
    by (cases "f < 9") (simp_all add: try_parse_secs_fmt [OF u] fmt_pad_digits p butlast_append nsec Let_def)
qed

lemma rfc3339_nano_whole:
  assumes u: "utc_date_time_from_nsecs t = (year, month, day, hour, minute, second, 0)"
    and secs: "- 9223372036 \<le> sint t div 1000000000 \<and> sint t div 1000000000 < 9223372036"
  shows "try_parse_timestamp_rfc3339_nano tz (fmt_date_time year month day hour minute second @ [90]) = Some t"
proof -
  have "sint t mod 1000000000 = 0" using utc_date_time(2) [OF u] by simp
  then show ?thesis
    using secs split_nsecs [of t] unfolding try_parse_timestamp_rfc3339_nano_def parse_timezone_offset_def
    by (simp add: try_parse_secs_fmt [OF u] Let_def)
qed

lemma rfc3339_nano_out_of_range:
  assumes u: "utc_date_time_from_nsecs t = (year, month, day, hour, minute, second, nsec)"
    and secs: "\<not> (- 9223372036 \<le> sint t div 1000000000 \<and> sint t div 1000000000 < 9223372036)"
  shows "try_parse_timestamp_rfc3339_nano tz (fmt_date_time year month day hour minute second @ rest) = None"
  using secs unfolding try_parse_timestamp_rfc3339_nano_def by (auto simp: try_parse_secs_fmt [OF u])

text \<open>C18: A timestamp printed as RFC 3339 with nanoseconds (trailing zeros of the fraction cut, or all
  nine digits) parses back to the same \<open>i64\<close>, whatever the local time zone, and printed as ISO 8601
  it parses back to its value cut to milliseconds. This holds for every timestamp but those of the
  first and last second of the \<open>i64\<close> range, which the parsers reject.
\<close>

theorem timestamps_print_parse:
  "try_parse_timestamp_rfc3339_nano tz (marshal_timestamp_rfc3339_nano_string [] t) =
     (if - 9223372036 \<le> sint t div 1000000000 \<and> sint t div 1000000000 < 9223372036 then Some t else None) \<and>
   try_parse_timestamp_rfc3339_nano tz (marshal_timestamp_rfc3339_nano_precise_string [] t) =
     (if - 9223372036 \<le> sint t div 1000000000 \<and> sint t div 1000000000 < 9223372036 then Some t else None) \<and>
   try_parse_timestamp_iso8601_bytes (marshal_timestamp_iso8601_string [] t) =
     (if - 9223372036 \<le> sint t div 1000000000 \<and> sint t div 1000000000 < 9223372036 then Some (to_msecs t) else None)"
proof (intro conjI)
  obtain year month day hour minute second nsec where
    u: "utc_date_time_from_nsecs t = (year, month, day, hour, minute, second, nsec)"
    by (cases "utc_date_time_from_nsecs t") auto
  have n: "0 \<le> nsec" "nsec < 10 ^ 9" using utc_date_time(2) [OF u] by simp_all
  obtain f n' where s: "strip_zeros 9 nsec = (f, n')" by (cases "strip_zeros 9 nsec") auto
  show "try_parse_timestamp_rfc3339_nano tz (marshal_timestamp_rfc3339_nano_string [] t) =
     (if - 9223372036 \<le> sint t div 1000000000 \<and> sint t div 1000000000 < 9223372036 then Some t else None)"
  proof (cases "nsec = 0")
    case True
    then show ?thesis using u
      by (auto simp: marshal_timestamp_rfc3339_nano_string_def rfc3339_nano_whole rfc3339_nano_out_of_range)
  next
    case False
    then have "0 < nsec" using n by simp
    with s n have "0 < f \<and> f \<le> 9 \<and> 0 < n' \<and> n' < 10 ^ f \<and> nsec = n' * 10 ^ (9 - f)"
      by (intro strip_zeros_spec) auto
    with False show ?thesis using u s rfc3339_nano_fraction [OF u, of f n' tz]
      by (auto simp: marshal_timestamp_rfc3339_nano_string_def rfc3339_nano_out_of_range)
  qed
  show "try_parse_timestamp_rfc3339_nano tz (marshal_timestamp_rfc3339_nano_precise_string [] t) =
     (if - 9223372036 \<le> sint t div 1000000000 \<and> sint t div 1000000000 < 9223372036 then Some t else None)"
    using u n rfc3339_nano_fraction [OF u, of 9 nsec tz]
    by (auto simp: marshal_timestamp_rfc3339_nano_precise_string_def rfc3339_nano_out_of_range)
qed (rule iso8601_print_parse)

text \<open>\<open>civil_from_days\<close> and \<open>days_from_civil\<close> are inverse: the date of a day number is a valid
  month and day of month, and it is turned back into that day number.
\<close>

lemma calendar_roundtrip:
  "(case civil_from_days z of (y, m, d) \<Rightarrow>
     days_from_civil y m + (d - 1) = z \<and> 1 \<le> m \<and> m \<le> 12 \<and> 1 \<le> d \<and> d \<le> 31)"
  using days_from_civil_from_days by (auto split: prod.splits)

end
