(* ===== verification/Filters.thy ===== *)
theory Filters
  imports Bitmap Time_Format
begin

text \<open>
  The filter tree of a query: \<^verbatim>\<open>filter_and.rs\<close>, \<^verbatim>\<open>filter_or.rs\<close>, \<^verbatim>\<open>filter_not.rs\<close>, \<^verbatim>\<open>filter_noop.rs\<close>,
  \<^verbatim>\<open>filter_time.rs\<close>, the stream filter of \<^verbatim>\<open>stream_filter.rs\<close>, and the rewriting passes of
  \<^verbatim>\<open>parser/query.rs\<close> (\<open>optimize_filters\<close>). Applying a tree to a block narrows a bitmap of candidate
  rows with shortcuts; the reference is \<open>match_row\<close>, which decides one row. The lemmas show that
  the two agree on every row and that the rewriting passes keep the set of matching rows.

  The remaining leaf filters are of a type variable \<open>'l\<close>, with their matcher as a parameter.
\<close>

unbundle bit_operations_syntax

subsection \<open>Definitions: stream filters\<close>

text \<open>
  The compiled regular expression of a tag filter is of a type variable; matching with it
  (\<open>PromRegex::match_bytes\<close>, over the \<^verbatim>\<open>regex\<close> crate) is the parameter \<open>re_match\<close>.
\<close>

datatype 're StreamTagFilter =
  StreamTagFilter (tag_name: bytes) (tag_op: bytes) (tag_value: bytes) (tag_regexp: "'re option")

datatype 're AndStreamFilter = AndStreamFilter (tag_filters: "'re StreamTagFilter list")

datatype 're StreamFilter = StreamFilter (or_filters: "'re AndStreamFilter list")

type_synonym stream_name = "(bytes \<times> bytes) list"

primrec get_tag_value_by_tag_name :: "stream_name \<Rightarrow> bytes \<Rightarrow> bytes" where
  "get_tag_value_by_tag_name [] name = []"
| "get_tag_value_by_tag_name (t # ts) name =
    (if fst t = name then snd t else get_tag_value_by_tag_name ts name)"

definition sn_matches ::
  "('re \<Rightarrow> bytes \<Rightarrow> bool) \<Rightarrow> stream_name \<Rightarrow> 're StreamTagFilter \<Rightarrow> (bool, unit) outcome" where
  "sn_matches re_match tags tf =
    (let v = get_tag_value_by_tag_name tags (tag_name tf) in
     if tag_op tf = ascii ''='' then Ok (v = tag_value tf)
     else if tag_op tf = ascii ''!='' then Ok (v \<noteq> tag_value tf)
     else if tag_op tf = ascii ''=~'' then
       (case tag_regexp tf of Some re \<Rightarrow> Ok (re_match re v) | None \<Rightarrow> Panic)
     else if tag_op tf = ascii ''!~'' then
       (case tag_regexp tf of Some re \<Rightarrow> Ok (\<not> re_match re v) | None \<Rightarrow> Panic)
     else Panic)"

primrec match_and_filters ::
  "('re \<Rightarrow> bytes \<Rightarrow> bool) \<Rightarrow> stream_name \<Rightarrow> 're StreamTagFilter list \<Rightarrow> (bool, unit) outcome" where
  "match_and_filters re_match tags [] = Ok True"
| "match_and_filters re_match tags (tf # tfs) =
    obind (sn_matches re_match tags tf) (\<lambda>m.
      if \<not> m then Ok False else match_and_filters re_match tags tfs)"

primrec match_or_filters ::
  "('re \<Rightarrow> bytes \<Rightarrow> bool) \<Rightarrow> stream_name \<Rightarrow> 're AndStreamFilter list \<Rightarrow> (bool, unit) outcome" where
  "match_or_filters re_match tags [] = Ok False"
| "match_or_filters re_match tags (af # afs) =
    obind (match_and_filters re_match tags (tag_filters af)) (\<lambda>m.
      if m then Ok True else match_or_filters re_match tags afs)"

text \<open>\<open>match_stream_name\<close>, on the result of \<open>StreamName::parse\<close> (\<open>None\<close> when it fails).\<close>

definition match_stream_name ::
  "('re \<Rightarrow> bytes \<Rightarrow> bool) \<Rightarrow> 're StreamFilter \<Rightarrow> stream_name option \<Rightarrow> (bool, unit) outcome" where
  "match_stream_name re_match sf parsed =
    (case parsed of
       None \<Rightarrow> Ok False
     | Some tags \<Rightarrow> match_or_filters re_match tags (or_filters sf))"

primrec stream_filter_is_empty_loop :: "'re AndStreamFilter list \<Rightarrow> bool" where
  "stream_filter_is_empty_loop [] = True"
| "stream_filter_is_empty_loop (af # afs) =
    (if tag_filters af \<noteq> [] then False else stream_filter_is_empty_loop afs)"

definition stream_filter_is_empty :: "'re StreamFilter \<Rightarrow> bool" where
  "stream_filter_is_empty sf = stream_filter_is_empty_loop (or_filters sf)"

definition marshal_tag_filter_key :: "bytes \<Rightarrow> 're StreamTagFilter \<Rightarrow> bytes" where
  "marshal_tag_filter_key dst f =
    marshal_bytes (marshal_bytes (marshal_bytes dst (tag_name f)) (tag_op f)) (tag_value f)"

definition marshal_and_filter_key :: "bytes \<Rightarrow> 're AndStreamFilter \<Rightarrow> bytes" where
  "marshal_and_filter_key dst af =
    foldl marshal_tag_filter_key (marshal_var_uint64 dst (of_nat (length (tag_filters af)))) (tag_filters af)"

definition marshal_for_cache_key :: "bytes \<Rightarrow> 're StreamFilter \<Rightarrow> bytes" where
  "marshal_for_cache_key dst sf =
    foldl marshal_and_filter_key (marshal_var_uint64 dst (of_nat (length (or_filters sf)))) (or_filters sf)"

subsection \<open>Definitions: the filter tree\<close>

datatype ('l, 're) Filter =
    FilterNoop
  | FilterAnd "('l, 're) Filter list"
  | FilterOr "('l, 're) Filter list"
  | FilterNot "('l, 're) Filter"
  | FilterStream "'re StreamFilter"
  | FilterLeaf 'l

text \<open>\<open>Filter::match_row\<close>, with the matchers of the stream filter and of the other leaves.\<close>

fun match_row :: "('l \<Rightarrow> bool) \<Rightarrow> ('re StreamFilter \<Rightarrow> bool) \<Rightarrow> ('l, 're) Filter \<Rightarrow> bool" where
  "match_row leaf stream FilterNoop = True"
| "match_row leaf stream (FilterAnd fs) = list_all (match_row leaf stream) fs"
| "match_row leaf stream (FilterOr fs) = list_ex (match_row leaf stream) fs"
| "match_row leaf stream (FilterNot f) = (\<not> match_row leaf stream f)"
| "match_row leaf stream (FilterStream sf) = stream sf"
| "match_row leaf stream (FilterLeaf l) = leaf l"

text \<open>
  \<open>apply_to_block_search\<close> and \<open>apply_to_block_result\<close> of the combinators, which have the same body.
  The pool of bitmaps is threaded through. \<open>apply_or\<close> is the loop of \<open>FilterOr\<close>; its flag tells that
  the loop returned early, because no candidate row is left.
\<close>

type_synonym applied = "(Bitmap \<times> Bitmap list, unit) outcome"

fun apply_filter ::
    "('l \<Rightarrow> Bitmap \<Rightarrow> (Bitmap, unit) outcome) \<Rightarrow> ('re StreamFilter \<Rightarrow> Bitmap \<Rightarrow> (Bitmap, unit) outcome) \<Rightarrow>
     ('l, 're) Filter \<Rightarrow> Bitmap \<Rightarrow> Bitmap list \<Rightarrow> applied"
  and apply_and ::
    "('l \<Rightarrow> Bitmap \<Rightarrow> (Bitmap, unit) outcome) \<Rightarrow> ('re StreamFilter \<Rightarrow> Bitmap \<Rightarrow> (Bitmap, unit) outcome) \<Rightarrow>
     ('l, 're) Filter list \<Rightarrow> Bitmap \<Rightarrow> Bitmap list \<Rightarrow> applied"
  and apply_or ::
    "('l \<Rightarrow> Bitmap \<Rightarrow> (Bitmap, unit) outcome) \<Rightarrow> ('re StreamFilter \<Rightarrow> Bitmap \<Rightarrow> (Bitmap, unit) outcome) \<Rightarrow>
     ('l, 're) Filter list \<Rightarrow> Bitmap \<Rightarrow> Bitmap \<Rightarrow> Bitmap list \<Rightarrow>
     (Bitmap \<times> Bitmap \<times> Bitmap list \<times> bool, unit) outcome" where
  "apply_filter leaf stream FilterNoop bm pool = Ok (bm, pool)"
| "apply_filter leaf stream (FilterAnd fs) bm pool = apply_and leaf stream fs bm pool"
| "apply_filter leaf stream (FilterOr fs) bm pool =
    (case get_bitmap pool (bits_len bm) of
       (bm_result, pool) \<Rightarrow>
        (case get_bitmap pool (bits_len bm) of
           (bm_tmp, pool) \<Rightarrow>
             obind (apply_or leaf stream fs (copy_from bm_result bm) bm_tmp pool)
               (\<lambda>(bm_result, bm_tmp, pool, returned).
                 if returned then Ok (bm, put_bitmap (put_bitmap pool bm_tmp) bm_result)
                 else
                   obind (and_not bm bm_result) (\<lambda>bm.
                     Ok (bm, put_bitmap (put_bitmap pool bm_tmp) bm_result)))))"
| "apply_filter leaf stream (FilterNot f) bm pool =
    (case get_bitmap pool (bits_len bm) of
       (bm_tmp, pool) \<Rightarrow>
         obind (apply_filter leaf stream f (copy_from bm_tmp bm) pool) (\<lambda>(bm_tmp, pool).
         obind (and_not bm bm_tmp) (\<lambda>bm. Ok (bm, put_bitmap pool bm_tmp))))"
| "apply_filter leaf stream (FilterStream sf) bm pool =
    obind (stream sf bm) (\<lambda>bm. Ok (bm, pool))"
| "apply_filter leaf stream (FilterLeaf l) bm pool = obind (leaf l bm) (\<lambda>bm. Ok (bm, pool))"
| "apply_and leaf stream [] bm pool = Ok (bm, pool)"
| "apply_and leaf stream (f # fs) bm pool =
    obind (apply_filter leaf stream f bm pool) (\<lambda>(bm, pool).
      if is_zero bm then Ok (bm, pool) else apply_and leaf stream fs bm pool)"
| "apply_or leaf stream [] bm_result bm_tmp pool = Ok (bm_result, bm_tmp, pool, False)"
| "apply_or leaf stream (f # fs) bm_result bm_tmp pool =
    obind (apply_filter leaf stream f (copy_from bm_tmp bm_result) pool) (\<lambda>(bm_tmp, pool).
    obind (and_not bm_result bm_tmp) (\<lambda>bm_result.
      if is_zero bm_result then Ok (bm_result, bm_tmp, pool, True)
      else apply_or leaf stream fs bm_result bm_tmp pool))"

text \<open>\<open>visit_filter_recursive\<close>: sub-filters first, then the filter itself, until a visit says stop.\<close>

fun visit_filter_recursive :: "(('l, 're) Filter \<Rightarrow> 's \<Rightarrow> bool \<times> 's) \<Rightarrow> ('l, 're) Filter \<Rightarrow> 's \<Rightarrow> bool \<times> 's"
  and visit_filters_recursive :: "(('l, 're) Filter \<Rightarrow> 's \<Rightarrow> bool \<times> 's) \<Rightarrow> ('l, 're) Filter list \<Rightarrow> 's \<Rightarrow> bool \<times> 's" where
  "visit_filter_recursive v f s =
    (case (case f of
             FilterAnd fs \<Rightarrow> visit_filters_recursive v fs s
           | FilterOr fs \<Rightarrow> visit_filters_recursive v fs s
           | FilterNot g \<Rightarrow> visit_filter_recursive v g s
           | _ \<Rightarrow> (False, s)) of
       (True, s') \<Rightarrow> (True, s')
     | (False, s') \<Rightarrow> v f s')"
| "visit_filters_recursive v [] s = (False, s)"
| "visit_filters_recursive v (f # fs) s =
    (case visit_filter_recursive v f s of
       (True, s') \<Rightarrow> (True, s')
     | (False, s') \<Rightarrow> visit_filters_recursive v fs s')"

subsection \<open>Definitions: the rewriting passes\<close>

fun take_and_children :: "('l, 're) Filter \<Rightarrow> ('l, 're) Filter list option" where
  "take_and_children (FilterAnd fs) = Some fs"
| "take_and_children _ = None"

fun take_or_children :: "('l, 're) Filter \<Rightarrow> ('l, 're) Filter list option" where
  "take_or_children (FilterOr fs) = Some fs"
| "take_or_children _ = None"

fun take_stream_filter :: "('l, 're) Filter \<Rightarrow> 're StreamFilter option" where
  "take_stream_filter (FilterStream sf) = Some sf"
| "take_stream_filter _ = None"

definition merge_filters_and :: "('l, 're) Filter \<Rightarrow> ('l, 're) Filter \<Rightarrow> ('l, 're) Filter" where
  "merge_filters_and f1 f2 =
    (let filters = (case take_and_children f1 of Some cs \<Rightarrow> cs | None \<Rightarrow> [f1]);
         filters = filters @ (case take_and_children f2 of Some cs \<Rightarrow> cs | None \<Rightarrow> [f2])
     in FilterAnd filters)"

fun flatten_filters_and :: "('l, 're) Filter \<Rightarrow> ('l, 're) Filter" where
  "flatten_filters_and (FilterOr cs) = FilterOr (map flatten_filters_and cs)"
| "flatten_filters_and (FilterAnd cs) =
    FilterAnd (concat (map (\<lambda>c. let child = flatten_filters_and c in
      (case take_and_children child of Some gs \<Rightarrow> gs | None \<Rightarrow> [child])) cs))"
| "flatten_filters_and f = f"

fun flatten_filters_or :: "('l, 're) Filter \<Rightarrow> ('l, 're) Filter" where
  "flatten_filters_or (FilterAnd cs) = FilterAnd (map flatten_filters_or cs)"
| "flatten_filters_or (FilterOr cs) =
    FilterOr (concat (map (\<lambda>c. let child = flatten_filters_or c in
      (case take_or_children child of Some gs \<Rightarrow> gs | None \<Rightarrow> [child])) cs))"
| "flatten_filters_or f = f"

text \<open>\<open>Filter::is_match_all\<close>; the parameter \<open>star\<close> is the test of the leaves (\<open>FilterGeneric\<close>).\<close>

fun is_match_all :: "('l \<Rightarrow> bool) \<Rightarrow> ('l, 're) Filter \<Rightarrow> bool" where
  "is_match_all star FilterNoop = True"
| "is_match_all star (FilterLeaf l) = star l"
| "is_match_all star _ = False"

fun remove_star_filters :: "('l \<Rightarrow> bool) \<Rightarrow> ('l, 're) Filter \<Rightarrow> ('l, 're) Filter" where
  "remove_star_filters star (FilterOr cs) =
    (let children = map (remove_star_filters star) cs in
     if list_ex (is_match_all star) children then FilterNoop else FilterOr children)"
| "remove_star_filters star (FilterAnd cs) =
    (let children = filter (\<lambda>c. \<not> is_match_all star c) (map (remove_star_filters star) cs) in
     case children of
       [] \<Rightarrow> FilterNoop
     | [c] \<Rightarrow> c
     | _ \<Rightarrow> FilterAnd children)"
| "remove_star_filters star f = (if is_match_all star f then FilterNoop else f)"

definition merge_filters_stream_internal :: "'re StreamFilter list \<Rightarrow> 're StreamFilter list" where
  "merge_filters_stream_internal fss =
    (if length fss < 2 then fss
     else if list_ex (\<lambda>sf. length (or_filters sf) \<noteq> 1) fss then fss
     else [StreamFilter [AndStreamFilter (concat (map (\<lambda>sf. tag_filters (last (or_filters sf))) fss))]])"

definition merge_filters_stream :: "('l, 're) Filter \<Rightarrow> ('l, 're) Filter" where
  "merge_filters_stream f =
    (case take_and_children f of
       None \<Rightarrow> f
     | Some children \<Rightarrow>
        (let fss = List.map_filter take_stream_filter children;
             other_filters = filter (\<lambda>c. take_stream_filter c = None) children
         in if fss = [] then FilterAnd other_filters
            else FilterAnd (map FilterStream (merge_filters_stream_internal fss) @ other_filters)))"

definition optimize_filters :: "('l \<Rightarrow> bool) \<Rightarrow> ('l, 're) Filter \<Rightarrow> ('l, 're) Filter" where
  "optimize_filters star f =
    merge_filters_stream (remove_star_filters star (flatten_filters_or (flatten_filters_and f)))"

subsection \<open>Definitions: the leaves the passes look at\<close>

text \<open>
  \<open>FilterGeneric\<close> of \<^verbatim>\<open>filter_generic.rs\<close> applies a filter to one field. Of the field filters only the prefix
  filter of \<^verbatim>\<open>filter_prefix.rs\<close> matters to the passes: with an empty prefix, on the message field, it is the \<open>*\<close> that
  \<open>remove_star_filters\<close> takes for a filter that matches everything. It matches the rows with a message that is
  not empty (\<open>match_prefix\<close>). The other filters are of type variables, with \<open>lm\<close> for what they match.
\<close>

datatype 'f FieldFilter = FilterPrefix (fp_prefix: bytes) | OtherFieldFilter 'f

datatype ('f, 'l) LeafFilter =
    FilterGeneric (gen_field_name: bytes) (gen_is_wildcard: bool) (gen_f: "'f FieldFilter")
  | OtherLeaf 'l

fun is_empty_prefix :: "'f FieldFilter \<Rightarrow> bool" where
  "is_empty_prefix (FilterPrefix p) \<longleftrightarrow> p = []"
| "is_empty_prefix (OtherFieldFilter _) \<longleftrightarrow> False"

definition is_msg_field_name :: "bytes \<Rightarrow> bool" where
  "is_msg_field_name name \<longleftrightarrow> name = [] \<or> name = ascii ''_msg''"

fun leaf_is_match_all :: "('f, 'l) LeafFilter \<Rightarrow> bool" where
  "leaf_is_match_all (FilterGeneric name is_wildcard f) \<longleftrightarrow> \<not> is_wildcard \<and> is_msg_field_name name \<and> is_empty_prefix f"
| "leaf_is_match_all (OtherLeaf _) \<longleftrightarrow> False"

definition leaf_matches :: "('r \<Rightarrow> bytes) \<Rightarrow> (('f, 'l) LeafFilter \<Rightarrow> 'r \<Rightarrow> bool) \<Rightarrow> ('f, 'l) LeafFilter \<Rightarrow> 'r \<Rightarrow> bool" where
  "leaf_matches msg lm l r = (if leaf_is_match_all l then msg r \<noteq> [] else lm l r)"

text \<open>
  \<open>FilterStream::apply_to_block_search\<close>: a block holds rows of one stream, \<open>blk\<close>; \<open>ids\<close> is the search of the index for the
  streams of a filter, a parameter. An empty filter keeps all rows.
\<close>

definition filter_stream_apply :: "('re StreamFilter \<Rightarrow> StreamID set) \<Rightarrow> StreamID \<Rightarrow> 're StreamFilter \<Rightarrow> Bitmap \<Rightarrow> (Bitmap, unit) outcome" where
  "filter_stream_apply ids blk sf bm =
    (if stream_filter_is_empty sf then Ok bm else if blk \<notin> ids sf then Ok (reset_bits bm) else Ok bm)"

subsection \<open>Definitions: the time filter\<close>

record FilterTime =
  min_timestamp :: i64
  max_timestamp :: i64

definition match_timestamp_value :: "FilterTime \<Rightarrow> i64 \<Rightarrow> bool" where
  "match_timestamp_value ft timestamp \<longleftrightarrow> min_timestamp ft \<le>s timestamp \<and> timestamp \<le>s max_timestamp ft"

text \<open>What the filter reads of the searched block: the bounds in its header and the timestamps.\<close>

record time_block =
  th_min :: i64
  th_max :: i64
  timestamps :: "i64 list"

text \<open>The indexing \<open>timestamps[idx]\<close> of the closure panics out of range; the flag records it.\<close>

definition filter_time_apply :: "time_block \<Rightarrow> FilterTime \<Rightarrow> Bitmap \<Rightarrow> (Bitmap, unit) outcome" where
  "filter_time_apply bs ft bm =
    (if max_timestamp ft <s min_timestamp ft then Ok (reset_bits bm)
     else if th_max bs <s min_timestamp ft \<or> max_timestamp ft <s th_min bs then Ok (reset_bits bm)
     else if min_timestamp ft \<le>s th_min bs \<and> th_max bs \<le>s max_timestamp ft then Ok bm
     else
       (case for_each_set_bit
               (\<lambda>idx panicked.
                  if idx < length (timestamps bs) then (match_timestamp_value ft (timestamps bs ! idx), panicked)
                  else (False, True))
               bm False of
          (bm, panicked) \<Rightarrow> if panicked then Panic else Ok bm))"

text \<open>The shift of a time filter.\<close>

definition update_with_time_offset :: "i64 \<Rightarrow> FilterTime \<Rightarrow> FilterTime" where
  "update_with_time_offset offset ft =
    ft\<lparr>min_timestamp := sub_int64_no_overflow (min_timestamp ft) offset,
       max_timestamp := sub_int64_no_overflow (max_timestamp ft) offset\<rparr>"


subsection \<open>The rewriting passes keep the matching rows\<close>

lemma flatten_and_child:
  "list_all P (case take_and_children c of Some gs \<Rightarrow> gs | None \<Rightarrow> [c]) \<longleftrightarrow>
    (case c of FilterAnd gs \<Rightarrow> list_all P gs | _ \<Rightarrow> P c)"
  by (cases c) auto

lemma match_flatten_filters_and:
  "match_row leaf stream (flatten_filters_and f) = match_row leaf stream f"
proof (induction f rule: flatten_filters_and.induct)
  case (1 cs)
  then show ?case by (auto simp: list_ex_iff)
next
  case (2 cs)
  have "list_all (match_row leaf stream) (case take_and_children (flatten_filters_and c) of Some gs \<Rightarrow> gs | None \<Rightarrow> [flatten_filters_and c])
      \<longleftrightarrow> match_row leaf stream c" if "c \<in> set cs" for c
    using 2 [OF that] unfolding flatten_and_child by (cases "flatten_filters_and c") auto
  then show ?case by (auto simp: list_all_iff Let_def)
qed simp_all

lemma match_flatten_filters_or:
  "match_row leaf stream (flatten_filters_or f) = match_row leaf stream f"
proof (induction f rule: flatten_filters_or.induct)
  case (1 cs)
  then show ?case by (auto simp: list_all_iff)
next
  case (2 cs)
  have "list_ex (match_row leaf stream) (case take_or_children (flatten_filters_or c) of Some gs \<Rightarrow> gs | None \<Rightarrow> [flatten_filters_or c])
      \<longleftrightarrow> match_row leaf stream c" if "c \<in> set cs" for c
    using 2 [OF that] by (cases "flatten_filters_or c") auto
  then show ?case by (auto simp: list_ex_iff Let_def)
qed simp_all

lemma match_is_match_all:
  "(\<And>l. star l \<Longrightarrow> leaf l) \<Longrightarrow> is_match_all star f \<Longrightarrow> match_row leaf stream f"
  by (cases f) auto

lemma match_and_singleton:
  "match_row leaf stream (case fs of [] \<Rightarrow> FilterNoop | [c] \<Rightarrow> c | _ \<Rightarrow> FilterAnd fs) =
    list_all (match_row leaf stream) fs"
  by (auto split: list.splits)

lemma match_remove_star_filters:
  assumes "\<And>l. star l \<Longrightarrow> leaf l"
  shows "match_row leaf stream (remove_star_filters star f) = match_row leaf stream f"
proof (induction f rule: remove_star_filters.induct [where P = "\<lambda>s f. s = star \<longrightarrow> match_row leaf stream (remove_star_filters star f) = match_row leaf stream f", THEN mp, OF _ _ _ _ _ _ refl])
  case (1 s cs)
  then show ?case
    using match_is_match_all [where star = star and leaf = leaf and stream = stream] assms
    by (auto simp: list_ex_iff Let_def)
next
  case (2 s cs)
  then show ?case
    using match_is_match_all [where star = star and leaf = leaf and stream = stream] assms
    by (auto simp: Let_def match_and_singleton list_all_iff) (metis imageI)
qed (use assms in auto)

subsection \<open>Merging stream filters\<close>

definition tag_filter_ok :: "'re StreamTagFilter \<Rightarrow> bool" where
  "tag_filter_ok tf \<longleftrightarrow>
    tag_op tf \<in> {ascii ''='', ascii ''!=''} \<or> (tag_op tf \<in> {ascii ''=~'', ascii ''!~''} \<and> tag_regexp tf \<noteq> None)"

definition stream_filter_ok :: "'re StreamFilter \<Rightarrow> bool" where
  "stream_filter_ok sf \<longleftrightarrow> list_all (\<lambda>af. list_all tag_filter_ok (tag_filters af)) (or_filters sf)"

lemma ops_distinct:
  "ascii ''='' \<noteq> ascii ''!=''" "ascii ''='' \<noteq> ascii ''=~''" "ascii ''='' \<noteq> ascii ''!~''"
  "ascii ''!='' \<noteq> ascii ''=~''" "ascii ''!='' \<noteq> ascii ''!~''" "ascii ''=~'' \<noteq> ascii ''!~''"
  by (simp_all add: ascii_def)

lemma sn_matches_total: "tag_filter_ok tf \<Longrightarrow> \<exists>m. sn_matches re_match tags tf = Ok m"
  by (auto simp: tag_filter_ok_def sn_matches_def Let_def)

lemma match_and_filters_iff:
  "list_all tag_filter_ok tfs \<Longrightarrow>
    \<exists>m. match_and_filters re_match tags tfs = Ok m \<and> (m \<longleftrightarrow> (\<forall>tf \<in> set tfs. sn_matches re_match tags tf = Ok True))"
proof (induction tfs)
  case (Cons tf tfs)
  obtain m where "sn_matches re_match tags tf = Ok m" using sn_matches_total [of tf] Cons.prems by auto
  with Cons show ?case by (cases m) auto
qed (auto intro: exI [of _ True] exI [of _ False])

lemma match_or_filters_iff:
  "list_all (\<lambda>af. list_all tag_filter_ok (tag_filters af)) afs \<Longrightarrow>
    \<exists>m. match_or_filters re_match tags afs = Ok m \<and>
      (m \<longleftrightarrow> (\<exists>af \<in> set afs. \<forall>tf \<in> set (tag_filters af). sn_matches re_match tags tf = Ok True))"
proof (induction afs)
  case (Cons af afs)
  obtain m where "match_and_filters re_match tags (tag_filters af) = Ok m"
    "m \<longleftrightarrow> (\<forall>tf \<in> set (tag_filters af). sn_matches re_match tags tf = Ok True)"
    using match_and_filters_iff [of "tag_filters af"] Cons.prems by auto
  with Cons show ?case by (cases m) auto
qed (auto intro: exI [of _ True] exI [of _ False])

lemma match_stream_name_iff:
  assumes "stream_filter_ok sf"
  shows "match_stream_name re_match sf parsed = Ok True \<longleftrightarrow>
    (\<exists>tags. parsed = Some tags \<and>
      (\<exists>af \<in> set (or_filters sf). \<forall>tf \<in> set (tag_filters af). sn_matches re_match tags tf = Ok True))"
proof (cases parsed)
  case (Some tags)
  show ?thesis
    using match_or_filters_iff [of "or_filters sf" re_match tags] assms Some
    by (auto simp: match_stream_name_def stream_filter_ok_def)
qed (simp add: match_stream_name_def)

lemma single_and_filter:
  "length (or_filters sf) = 1 \<Longrightarrow> or_filters sf = [last (or_filters sf)]"
  by (cases "or_filters sf") auto

lemma merge_internal_match:
  assumes "\<forall>sf \<in> set fss. stream_filter_ok sf"
  shows "(\<forall>sf \<in> set (merge_filters_stream_internal fss). match_stream_name re_match sf parsed = Ok True) \<longleftrightarrow>
    (\<forall>sf \<in> set fss. match_stream_name re_match sf parsed = Ok True)"
proof (cases "length fss < 2 \<or> list_ex (\<lambda>sf. length (or_filters sf) \<noteq> 1) fss")
  case True
  then show ?thesis by (auto simp: merge_filters_stream_internal_def)
next
  case False
  let ?t = "\<lambda>sf. tag_filters (last (or_filters sf))"
  let ?m = "StreamFilter [AndStreamFilter (concat (map ?t fss))]"
  have one: "or_filters sf = [last (or_filters sf)]" if "sf \<in> set fss" for sf
    using False that by (intro single_and_filter) (auto simp: list_ex_iff)
  have ok: "list_all tag_filter_ok (?t sf)" if sf: "sf \<in> set fss" for sf
  proof -
    obtain af where "or_filters sf = [af]" using one [OF sf] by metis
    then show ?thesis using assms sf by (auto simp: stream_filter_ok_def)
  qed
  then have "stream_filter_ok ?m" by (auto simp: stream_filter_ok_def list_all_iff)
  then have "match_stream_name re_match ?m parsed = Ok True \<longleftrightarrow>
      (\<exists>tags. parsed = Some tags \<and> (\<forall>sf \<in> set fss. \<forall>tf \<in> set (?t sf). sn_matches re_match tags tf = Ok True))"
    by (auto simp: match_stream_name_iff)
  moreover have "match_stream_name re_match sf parsed = Ok True \<longleftrightarrow>
      (\<exists>tags. parsed = Some tags \<and> (\<forall>tf \<in> set (?t sf). sn_matches re_match tags tf = Ok True))"
    if sf: "sf \<in> set fss" for sf
  proof -
    obtain af where "or_filters sf = [af]" using one [OF sf] by metis
    moreover have "stream_filter_ok sf" using assms sf by blast
    ultimately show ?thesis by (simp add: match_stream_name_iff)
  qed
  moreover have "fss \<noteq> []" using False by auto
  then obtain sf0 where "sf0 \<in> set fss" by (cases fss) auto
  ultimately show ?thesis using False
    by (auto simp: merge_filters_stream_internal_def) (metis option.inject)+
qed

fun stream_filters :: "('l, 're) Filter \<Rightarrow> 're StreamFilter list" where
  "stream_filters (FilterAnd fs) = concat (map stream_filters fs)"
| "stream_filters (FilterOr fs) = concat (map stream_filters fs)"
| "stream_filters (FilterNot f) = stream_filters f"
| "stream_filters (FilterStream sf) = [sf]"
| "stream_filters _ = []"

lemma list_all_partition_stream:
  "list_all (match_row leaf stream) fs \<longleftrightarrow>
    (\<forall>sf \<in> set (List.map_filter take_stream_filter fs). stream sf) \<and>
    list_all (match_row leaf stream) (filter (\<lambda>c. take_stream_filter c = None) fs)"
proof (induction fs)
  case (Cons f fs)
  then show ?case by (cases f) (auto simp: List.map_filter_simps)
qed (simp add: List.map_filter_simps)

lemma map_filter_stream_filters:
  "set (List.map_filter take_stream_filter fs) \<subseteq> set (stream_filters (FilterAnd fs))"
proof (induction fs)
  case (Cons f fs)
  then show ?case by (cases f) (auto simp: List.map_filter_simps)
qed (simp add: List.map_filter_simps)

lemma match_merge_filters_stream:
  assumes "\<forall>sf \<in> set (stream_filters f). stream_filter_ok sf"
    and stream: "stream = (\<lambda>sf. match_stream_name re_match sf parsed = Ok True)"
  shows "match_row leaf stream (merge_filters_stream f) = match_row leaf stream f"
proof (cases "take_and_children f")
  case (Some cs)
  then have f: "f = FilterAnd cs" by (cases f) auto
  have ok: "\<forall>sf \<in> set (List.map_filter take_stream_filter cs). stream_filter_ok sf"
    using assms(1) map_filter_stream_filters [of cs] unfolding f by blast
  have "list_all (match_row leaf stream) (map FilterStream (merge_filters_stream_internal (List.map_filter take_stream_filter cs)))
      \<longleftrightarrow> (\<forall>sf \<in> set (List.map_filter take_stream_filter cs). stream sf)"
    using merge_internal_match [OF ok, of re_match parsed] by (simp add: list_all_iff stream)
  then show ?thesis
    using list_all_partition_stream [of leaf stream cs]
    by (auto simp: merge_filters_stream_def f Let_def)
qed (simp add: merge_filters_stream_def)

lemma stream_filters_flatten_and: "set (stream_filters (flatten_filters_and f)) \<subseteq> set (stream_filters f)"
proof (induction f rule: flatten_filters_and.induct)
  case (2 cs)
  have "set (stream_filters (FilterAnd (case take_and_children (flatten_filters_and c) of Some gs \<Rightarrow> gs | None \<Rightarrow> [flatten_filters_and c])))
      \<subseteq> set (stream_filters c)" if "c \<in> set cs" for c
    using 2 [OF that] by (cases "flatten_filters_and c") auto
  then show ?case by (fastforce simp: Let_def)
qed fastforce+

lemma stream_filters_flatten_or: "set (stream_filters (flatten_filters_or f)) \<subseteq> set (stream_filters f)"
proof (induction f rule: flatten_filters_or.induct)
  case (2 cs)
  have "set (stream_filters (FilterAnd (case take_or_children (flatten_filters_or c) of Some gs \<Rightarrow> gs | None \<Rightarrow> [flatten_filters_or c])))
      \<subseteq> set (stream_filters c)" if "c \<in> set cs" for c
    using 2 [OF that] by (cases "flatten_filters_or c") auto
  then show ?case by (fastforce simp: Let_def)
qed fastforce+

lemma stream_filters_and_singleton:
  "set (stream_filters (case fs of [] \<Rightarrow> FilterNoop | [c] \<Rightarrow> c | _ \<Rightarrow> FilterAnd fs)) \<subseteq> set (stream_filters (FilterAnd fs))"
  by (auto split: list.splits)

lemma stream_filters_remove_star: "set (stream_filters (remove_star_filters star f)) \<subseteq> set (stream_filters f)"
proof (induction star f rule: remove_star_filters.induct)
  case (1 star cs)
  then have "(\<Union>x \<in> set cs. set (stream_filters (remove_star_filters star x))) \<subseteq> (\<Union>x \<in> set cs. set (stream_filters x))"
    by (intro UN_mono) auto
  then show ?case by (simp add: Let_def)
next
  case (2 star cs)
  let ?cs = "filter (\<lambda>c. \<not> is_match_all star c) (map (remove_star_filters star) cs)"
  have "set (stream_filters (remove_star_filters star (FilterAnd cs))) \<subseteq> set (stream_filters (FilterAnd ?cs))"
    using stream_filters_and_singleton [of ?cs] by (simp add: Let_def)
  also have "\<dots> \<subseteq> set (stream_filters (FilterAnd cs))" using 2 by fastforce
  finally show ?case .
qed auto

lemma match_optimize_filters:
  assumes "\<And>l. star l \<Longrightarrow> leaf l"
    and "\<forall>sf \<in> set (stream_filters f). stream_filter_ok sf"
    and "stream = (\<lambda>sf. match_stream_name re_match sf parsed = Ok True)"
  shows "match_row leaf stream (optimize_filters star f) = match_row leaf stream f"
proof -
  let ?g = "remove_star_filters star (flatten_filters_or (flatten_filters_and f))"
  have "set (stream_filters ?g) \<subseteq> set (stream_filters f)"
    using stream_filters_remove_star stream_filters_flatten_or stream_filters_flatten_and
    by (metis (no_types, lifting) subset_trans)
  then have "\<forall>sf \<in> set (stream_filters ?g). stream_filter_ok sf" using assms(2) by blast
  from match_merge_filters_stream [OF this assms(3)] show ?thesis
    using match_remove_star_filters [where star = star and leaf = leaf and stream = stream, OF assms(1)]
    by (simp add: optimize_filters_def match_flatten_filters_or match_flatten_filters_and)
qed

lemma stream_filter_is_empty_iff: "stream_filter_is_empty sf \<longleftrightarrow> (\<forall>af \<in> set (or_filters sf). tag_filters af = [])"
proof -
  have "stream_filter_is_empty_loop afs \<longleftrightarrow> (\<forall>af \<in> set afs. tag_filters af = [])" for afs :: "'a AndStreamFilter list"
    by (induction afs) auto
  then show ?thesis by (simp add: stream_filter_is_empty_def)
qed

lemma merge_internal_not_empty:
  assumes "\<forall>sf \<in> set fss. \<not> stream_filter_is_empty sf" "sf \<in> set (merge_filters_stream_internal fss)"
  shows "\<not> stream_filter_is_empty sf"
proof (cases "length fss < 2 \<or> list_ex (\<lambda>sf. length (or_filters sf) \<noteq> 1) fss")
  case True
  then show ?thesis using assms by (auto simp: merge_filters_stream_internal_def split: if_splits)
next
  case False
  then obtain sf0 where s: "sf0 \<in> set fss" by (cases fss) auto
  then have "or_filters sf0 = [last (or_filters sf0)]" using False by (intro single_and_filter) (auto simp: list_ex_iff)
  then have "tag_filters (last (or_filters sf0)) \<noteq> []" using assms(1) s by (metis stream_filter_is_empty_iff list.set_intros(1) empty_set singletonD list.simps(15))
  then show ?thesis using False assms(2) s by (auto simp: merge_filters_stream_internal_def stream_filter_is_empty_iff)
qed

lemma stream_filters_optimize:
  assumes "\<forall>sf \<in> set (stream_filters f). \<not> stream_filter_is_empty sf" "sf \<in> set (stream_filters (optimize_filters star f))"
  shows "\<not> stream_filter_is_empty sf"
proof -
  let ?g = "remove_star_filters star (flatten_filters_or (flatten_filters_and f))"
  have "set (stream_filters ?g) \<subseteq> set (stream_filters f)"
    using stream_filters_remove_star stream_filters_flatten_or stream_filters_flatten_and
    by (metis (no_types, lifting) subset_trans)
  then have g: "\<forall>sf \<in> set (stream_filters ?g). \<not> stream_filter_is_empty sf" using assms(1) by blast
  show ?thesis
  proof (cases "take_and_children ?g")
    case None
    then show ?thesis using assms(2) g by (simp add: optimize_filters_def merge_filters_stream_def)
  next
    case (Some cs)
    then have c: "?g = FilterAnd cs" by (cases ?g) auto
    let ?fss = "List.map_filter take_stream_filter cs"
    have "\<forall>sf \<in> set ?fss. \<not> stream_filter_is_empty sf" using g map_filter_stream_filters [of cs] unfolding c by blast
    then have "\<not> stream_filter_is_empty sf" if "sf \<in> set (merge_filters_stream_internal ?fss)" using that by (rule merge_internal_not_empty)
    moreover have "sf \<in> set (merge_filters_stream_internal ?fss) \<or> sf \<in> set (stream_filters ?g)"
      using assms(2) unfolding optimize_filters_def merge_filters_stream_def Some option.case c
      by (auto simp: Let_def split: if_splits)
    ultimately show ?thesis using g by blast
  qed
qed

lemma match_row_stream_cong:
  assumes "\<And>sf. sf \<in> set (stream_filters f) \<Longrightarrow> stream sf = stream' sf"
  shows "match_row leaf stream f = match_row leaf stream' f"
  using assms by (induction f) (auto simp: list_all_iff list_ex_iff)

text \<open>After flattening, no AND is a direct child of an AND, at any depth outside a negation.\<close>

fun and_flat :: "('l, 're) Filter \<Rightarrow> bool" where
  "and_flat (FilterAnd fs) \<longleftrightarrow> list_all (\<lambda>f. take_and_children f = None \<and> and_flat f) fs"
| "and_flat (FilterOr fs) \<longleftrightarrow> list_all and_flat fs"
| "and_flat _ \<longleftrightarrow> True"

lemma flatten_filters_and_flat: "and_flat (flatten_filters_and f)"
proof (induction f rule: flatten_filters_and.induct)
  case (1 cs)
  then show ?case by (auto simp: list_all_iff)
next
  case (2 cs)
  have "list_all (\<lambda>f. take_and_children f = None \<and> and_flat f)
      (case take_and_children (flatten_filters_and c) of Some gs \<Rightarrow> gs | None \<Rightarrow> [flatten_filters_and c])"
    if "c \<in> set cs" for c
    using 2 [OF that] by (cases "flatten_filters_and c") auto
  then show ?case by (auto simp: list_all_iff Let_def)
qed simp_all

lemma match_merge_filters_and:
  "match_row leaf stream (merge_filters_and f1 f2) \<longleftrightarrow> match_row leaf stream f1 \<and> match_row leaf stream f2"
  by (cases f1; cases f2) (auto simp: merge_filters_and_def)

subsection \<open>Applying a tree to a block\<close>

definition pool_ok :: "Bitmap list \<Rightarrow> bool" where
  "pool_ok pool \<longleftrightarrow> (\<forall>bm \<in> set pool. words bm = [])"

lemma pool_ok_get: "pool_ok pool \<Longrightarrow> pool_ok (snd (get_bitmap pool n))"
  by (auto simp: pool_ok_def get_bitmap_def dest: in_set_butlastD)

lemma pool_ok_put: "pool_ok pool \<Longrightarrow> pool_ok (put_bitmap pool bm)"
  by (simp add: pool_ok_def put_bitmap_def)

text \<open>The contract of a leaf: it narrows a well-formed bitmap to the rows that it matches.\<close>

definition leaf_ok :: "('l \<Rightarrow> Bitmap \<Rightarrow> (Bitmap, unit) outcome) \<Rightarrow> ('l \<Rightarrow> nat \<Rightarrow> bool) \<Rightarrow> nat \<Rightarrow> bool" where
  "leaf_ok apply matches n \<longleftrightarrow>
    (\<forall>l bm. bitmap_wf bm \<and> bits_len bm = n \<longrightarrow> (\<exists>bm'. apply l bm = Ok bm' \<and> bm.restricts bm (matches l) bm'))"

lemma restricts_cong: "bm.restricts x P y \<Longrightarrow> (\<And>r. r \<in> set_rows x \<Longrightarrow> P r = Q r) \<Longrightarrow> bm.restricts x Q y"
  by (auto simp: bm.restricts_def)

text \<open>\<open>applies leaf stream lm sm n f\<close>: applying \<open>f\<close> narrows a bitmap to the rows that \<open>match_row\<close> accepts.\<close>

definition applies ::
  "('l \<Rightarrow> Bitmap \<Rightarrow> (Bitmap, unit) outcome) \<Rightarrow> ('re StreamFilter \<Rightarrow> Bitmap \<Rightarrow> (Bitmap, unit) outcome) \<Rightarrow>
   ('l \<Rightarrow> nat \<Rightarrow> bool) \<Rightarrow> ('re StreamFilter \<Rightarrow> nat \<Rightarrow> bool) \<Rightarrow> nat \<Rightarrow> ('l, 're) Filter \<Rightarrow> bool" where
  "applies leaf stream lm sm n f \<longleftrightarrow>
    (\<forall>bm pool. bitmap_wf bm \<and> bits_len bm = n \<and> pool_ok pool \<longrightarrow>
      (\<exists>bm' pool'. apply_filter leaf stream f bm pool = Ok (bm', pool') \<and> pool_ok pool' \<and>
        bm.restricts bm (\<lambda>r. match_row (\<lambda>l. lm l r) (\<lambda>sf. sm sf r) f) bm'))"

lemma appliesE:
  assumes "applies leaf stream lm sm n f" "bitmap_wf bm" "bits_len bm = n" "pool_ok pool"
  obtains bm' pool' where "apply_filter leaf stream f bm pool = Ok (bm', pool')" "pool_ok pool'"
    "bm.restricts bm (\<lambda>r. match_row (\<lambda>l. lm l r) (\<lambda>sf. sm sf r) f) bm'"
    "bitmap_wf bm'" "bits_len bm' = n"
proof -
  have "\<exists>bm' pool'. apply_filter leaf stream f bm pool = Ok (bm', pool') \<and> pool_ok pool' \<and>
      bm.restricts bm (\<lambda>r. match_row (\<lambda>l. lm l r) (\<lambda>sf. sm sf r) f) bm'"
    using assms unfolding applies_def by blast
  then show ?thesis using that assms(3) unfolding bm.restricts_def by blast
qed

lemma apply_and_correct:
  assumes "\<forall>f \<in> set fs. applies leaf stream lm sm n f" "bitmap_wf bm" "bits_len bm = n" "pool_ok pool"
  shows "\<exists>bm' pool'. apply_and leaf stream fs bm pool = Ok (bm', pool') \<and> pool_ok pool' \<and>
    bm.restricts bm (\<lambda>r. list_all (match_row (\<lambda>l. lm l r) (\<lambda>sf. sm sf r)) fs) bm'"
  using assms
proof (induction fs arbitrary: bm pool)
  case Nil
  then show ?case by (auto intro: bm.restricts_True)
next
  case (Cons f fs)
  obtain bm1 pool1 where f: "apply_filter leaf stream f bm pool = Ok (bm1, pool1)" "pool_ok pool1"
    "bm.restricts bm (\<lambda>r. match_row (\<lambda>l. lm l r) (\<lambda>sf. sm sf r) f) bm1" "bitmap_wf bm1" "bits_len bm1 = n"
    by (rule appliesE [of leaf stream lm sm n f bm pool]) (use Cons.prems in auto)
  show ?case
  proof (cases "is_zero bm1")
    case True
    then show ?thesis using f bm.restricts_zero [OF f(3) True] by auto
  next
    case False
    obtain bm2 pool2 where "apply_and leaf stream fs bm1 pool1 = Ok (bm2, pool2)" "pool_ok pool2"
      "bm.restricts bm1 (\<lambda>r. list_all (match_row (\<lambda>l. lm l r) (\<lambda>sf. sm sf r)) fs) bm2"
      using Cons.IH [OF _ f(4,5,2)] Cons.prems(1) by (simp, elim exE conjE)
    with False f show ?thesis using bm.restricts_trans [OF f(3)] by auto
  qed
qed

lemma apply_or_correct:
  assumes "\<forall>f \<in> set fs. applies leaf stream lm sm n f" "bitmap_wf bm" "bits_len bm = n" "pool_ok pool"
  shows "\<exists>bm' tmp' pool' ret. apply_or leaf stream fs bm tmp pool = Ok (bm', tmp', pool', ret) \<and> pool_ok pool' \<and>
    bm.restricts bm (\<lambda>r. \<not> list_ex (match_row (\<lambda>l. lm l r) (\<lambda>sf. sm sf r)) fs) bm' \<and> (ret \<longrightarrow> is_zero bm')"
  using assms
proof (induction fs arbitrary: bm tmp pool)
  case Nil
  then show ?case by (auto intro: bm.restricts_True)
next
  case (Cons f fs)
  obtain bm1 pool1 where f: "apply_filter leaf stream f bm pool = Ok (bm1, pool1)" "pool_ok pool1"
    "bm.restricts bm (\<lambda>r. match_row (\<lambda>l. lm l r) (\<lambda>sf. sm sf r) f) bm1"
    by (rule appliesE [of leaf stream lm sm n f bm pool]) (use Cons.prems in auto)
  obtain bm2 where d: "and_not bm bm1 = Ok bm2"
    "bm.restricts bm (\<lambda>r. \<not> match_row (\<lambda>l. lm l r) (\<lambda>sf. sm sf r) f) bm2"
    using bm.diff_restricts [OF Cons.prems(2) f(3)] by blast
  have wf2: "bitmap_wf bm2" "bits_len bm2 = n" using d(2) Cons.prems(3) by (auto simp: bm.restricts_def)
  show ?case
  proof (cases "is_zero bm2")
    case True
    then show ?thesis using f d bm.restricts_zero [OF d(2) True] by (auto simp: copy_from_eq)
  next
    case False
    obtain bm3 tmp3 pool3 ret where "apply_or leaf stream fs bm2 bm1 pool1 = Ok (bm3, tmp3, pool3, ret)" "pool_ok pool3"
      "bm.restricts bm2 (\<lambda>r. \<not> list_ex (match_row (\<lambda>l. lm l r) (\<lambda>sf. sm sf r)) fs) bm3" "ret \<longrightarrow> is_zero bm3"
      using Cons.IH [OF _ wf2 f(2), of bm1] Cons.prems(1) by (simp, elim exE conjE)
    with False f d show ?thesis using bm.restricts_trans [OF d(2)] by (auto simp: copy_from_eq)
  qed
qed

lemma applies_not: "applies leaf stream lm sm n f \<Longrightarrow> applies leaf stream lm sm n (FilterNot f)"
  unfolding applies_def [of _ _ _ _ _ "FilterNot f"]
proof (intro allI impI, elim conjE)
  fix bm pool
  assume a: "applies leaf stream lm sm n f" and bm: "bitmap_wf bm" "bits_len bm = n" and p: "pool_ok pool"
  obtain tmp pool0 where g: "get_bitmap pool (bits_len bm) = (tmp, pool0)" by fastforce
  then have "pool_ok pool0" using pool_ok_get [OF p, of "bits_len bm"] by simp
  then obtain bm1 pool1 where f: "apply_filter leaf stream f bm pool0 = Ok (bm1, pool1)" "pool_ok pool1"
    "bm.restricts bm (\<lambda>r. match_row (\<lambda>l. lm l r) (\<lambda>sf. sm sf r) f) bm1"
    by (rule appliesE [OF a bm])
  with bm.diff_restricts [OF bm(1) f(3)] show "\<exists>bm' pool'. apply_filter leaf stream (FilterNot f) bm pool = Ok (bm', pool') \<and>
      pool_ok pool' \<and> bm.restricts bm (\<lambda>r. match_row (\<lambda>l. lm l r) (\<lambda>sf. sm sf r) (FilterNot f)) bm'"
    using g by (auto simp: copy_from_eq intro: pool_ok_put)
qed

lemma applies_or: "\<forall>f \<in> set fs. applies leaf stream lm sm n f \<Longrightarrow> applies leaf stream lm sm n (FilterOr fs)"
  unfolding applies_def [of _ _ _ _ _ "FilterOr fs"]
proof (intro allI impI, elim conjE)
  fix bm pool
  assume a: "\<forall>f \<in> set fs. applies leaf stream lm sm n f" and bm: "bitmap_wf bm" "bits_len bm = n" and p: "pool_ok pool"
  obtain b1 pool0 where g: "get_bitmap pool (bits_len bm) = (b1, pool0)" by fastforce
  obtain b2 pool1 where h: "get_bitmap pool0 (bits_len bm) = (b2, pool1)" by fastforce
  have p1: "pool_ok pool1" using pool_ok_get [of pool0 "bits_len bm"] pool_ok_get [OF p, of "bits_len bm"] g h by simp
  let ?P = "\<lambda>r. list_ex (match_row (\<lambda>l. lm l r) (\<lambda>sf. sm sf r)) fs"
  obtain res tmp pool2 ret where o: "apply_or leaf stream fs bm b2 pool1 = Ok (res, tmp, pool2, ret)" "pool_ok pool2"
    "bm.restricts bm (\<lambda>r. \<not> ?P r) res" "ret \<longrightarrow> is_zero res"
    using apply_or_correct [OF a bm p1, of b2] by (elim exE conjE)
  have full: "bm.restricts bm ?P bm" if "is_zero res"
    using that o(3) bm by (intro bm.restricts_True) (auto simp: bm.restricts_def is_zero_iff)
  have part: "\<exists>z. and_not bm res = Ok z \<and> bm.restricts bm ?P z"
    using bm.diff_restricts [OF bm(1) o(3)] by simp
  show "\<exists>bm' pool'. apply_filter leaf stream (FilterOr fs) bm pool = Ok (bm', pool') \<and> pool_ok pool' \<and>
      bm.restricts bm (\<lambda>r. match_row (\<lambda>l. lm l r) (\<lambda>sf. sm sf r) (FilterOr fs)) bm'"
  proof (cases ret)
    case True
    then have "apply_filter leaf stream (FilterOr fs) bm pool = Ok (bm, put_bitmap (put_bitmap pool2 tmp) res)"
      using g h o(1) by (simp add: copy_from_eq)
    moreover have "bm.restricts bm ?P bm" using True o(4) full by simp
    ultimately show ?thesis using o(2) by (simp add: pool_ok_put)
  next
    case False
    obtain z where z: "and_not bm res = Ok z" "bm.restricts bm ?P z" using part by (elim exE conjE)
    then have "apply_filter leaf stream (FilterOr fs) bm pool = Ok (z, put_bitmap (put_bitmap pool2 tmp) res)"
      using g h o(1) False by (simp add: copy_from_eq)
    then show ?thesis using o(2) z(2) by (simp add: pool_ok_put)
  qed
qed

lemma apply_filter_correct:
  assumes "leaf_ok leaf lm n" "leaf_ok stream sm n"
  shows "applies leaf stream lm sm n f"
proof (induction f)
  case FilterNoop
  show ?case by (auto simp: applies_def intro: bm.restricts_True)
next
  case (FilterAnd fs)
  then show ?case using apply_and_correct [of fs leaf stream lm sm n] by (auto simp: applies_def)
next
  case (FilterOr fs)
  then show ?case by (intro applies_or) blast
next
  case (FilterNot f)
  then show ?case by (rule applies_not)
next
  case (FilterStream sf)
  show ?case unfolding applies_def
    using assms(2) [unfolded leaf_ok_def, rule_format, of _ sf] by fastforce
next
  case (FilterLeaf l)
  show ?case unfolding applies_def
    using assms(1) [unfolded leaf_ok_def, rule_format, of _ l] by fastforce
qed

subsection \<open>The time filter\<close>

lemma filter_state_cong:
  "(\<And>x s. x \<in> set xs \<Longrightarrow> f x s = g x s) \<Longrightarrow> filter_state f xs s = filter_state g xs s"
  by (induction xs arbitrary: s) (auto split: prod.splits)

lemma fold_ignore: "fold (\<lambda>_ p. p) xs s = s"
  by (induction xs) auto

lemma reset_restricts:
  assumes "bitmap_wf bm" "\<And>r. r \<in> set_rows bm \<Longrightarrow> \<not> P r"
  shows "bm.restricts bm P (reset_bits bm)"
  using assms reset_bits_spec [of bm] by (auto simp: bm.restricts_def)

lemma sless_sle_trans: "(a :: i64) <s b \<Longrightarrow> b \<le>s c \<Longrightarrow> \<not> c \<le>s a"
  by (simp add: word_sless_alt word_sle_eq)

lemma for_each_checked:
  assumes "bitmap_wf bm" "bits_len bm \<le> length ts"
    and "for_each_set_bit (\<lambda>idx p. if idx < length ts then (Q (ts ! idx), p) else (False, True)) bm False = (bm', p')"
  shows "\<not> p'" "bm.restricts bm (\<lambda>r. Q (ts ! r)) bm'"
proof -
  note r = for_each_set_bit_refines [OF assms(1,3)]
  have "filter_state (\<lambda>idx p. if idx < length ts then (Q (ts ! idx), p) else (False, True)) (bit_list bm) False =
      filter_state (\<lambda>idx p. (Q (ts ! idx), (\<lambda>_ p. p) idx p)) (bit_list bm) False"
    using assms(1,2) by (intro filter_state_cong) (auto simp: bitmap_wf_def)
  also have "\<dots> = (filter (\<lambda>idx. Q (ts ! idx)) (bit_list bm), fold (\<lambda>_ p. p) (bit_list bm) False)"
    by (rule filter_state_pure)
  also have "fold (\<lambda>_ p. p) (bit_list bm) False = False" by (rule fold_ignore)
  finally have e: "bit_list bm' = filter (\<lambda>idx. Q (ts ! idx)) (bit_list bm)" "p' = False" using r(1) by simp_all
  then show "\<not> p'" by simp
  show "bm.restricts bm (\<lambda>r. Q (ts ! r)) bm'"
    using r(2,3) e by (auto simp: bm.restricts_def set_rows_def)
qed

lemma filter_time_restricts:
  assumes wf: "bitmap_wf bm" "bits_len bm = length (timestamps bs)"
    and th: "\<And>t. t \<in> set (timestamps bs) \<Longrightarrow> th_min bs \<le>s t \<and> t \<le>s th_max bs"
  shows "\<exists>bm'. filter_time_apply bs ft bm = Ok bm' \<and>
    bm.restricts bm (\<lambda>r. match_timestamp_value ft (timestamps bs ! r)) bm'"
proof -
  have r: "timestamps bs ! i \<in> set (timestamps bs)" if "i \<in> set_rows bm" for i
    using wf that by (auto simp: bitmap_wf_iff)
  consider (empty) "max_timestamp ft <s min_timestamp ft"
    | (before) "th_max bs <s min_timestamp ft" | (after) "max_timestamp ft <s th_min bs"
    | (inside) "min_timestamp ft \<le>s th_min bs \<and> th_max bs \<le>s max_timestamp ft"
      "\<not> max_timestamp ft <s min_timestamp ft" "\<not> th_max bs <s min_timestamp ft" "\<not> max_timestamp ft <s th_min bs"
    | (scan) "\<not> max_timestamp ft <s min_timestamp ft"
      "\<not> (th_max bs <s min_timestamp ft \<or> max_timestamp ft <s th_min bs)"
      "\<not> (min_timestamp ft \<le>s th_min bs \<and> th_max bs \<le>s max_timestamp ft)" by blast
  then show ?thesis
  proof cases
    case scan
    obtain bm' p where f: "for_each_set_bit (\<lambda>idx p. if idx < length (timestamps bs)
        then (match_timestamp_value ft (timestamps bs ! idx), p) else (False, True)) bm False = (bm', p)" by fastforce
    from for_each_checked [OF wf(1) _ f] wf(2) scan f show ?thesis by (auto simp: filter_time_apply_def)
  next
    case inside
    have "match_timestamp_value ft (timestamps bs ! i)" if "i \<in> set_rows bm" for i
      using inside(1) th [OF r [OF that]] by (auto simp: match_timestamp_value_def word_sle_eq)
    with wf(1) inside show ?thesis by (auto simp: filter_time_apply_def intro: bm.restricts_True)
  next
    case before
    have "\<not> match_timestamp_value ft (timestamps bs ! i)" if "i \<in> set_rows bm" for i
      using before th [OF r [OF that]] by (auto simp: match_timestamp_value_def word_sle_eq word_sless_alt)
    with wf(1) before reset_restricts [of bm "\<lambda>r. match_timestamp_value ft (timestamps bs ! r)"] show ?thesis
      by (auto simp: filter_time_apply_def)
  next
    case after
    have "\<not> match_timestamp_value ft (timestamps bs ! i)" if "i \<in> set_rows bm" for i
      using after th [OF r [OF that]] by (auto simp: match_timestamp_value_def word_sle_eq word_sless_alt)
    with wf(1) after reset_restricts [of bm "\<lambda>r. match_timestamp_value ft (timestamps bs ! r)"] show ?thesis
      by (auto simp: filter_time_apply_def)
  next
    case empty
    have "\<not> match_timestamp_value ft t" for t
      using empty by (auto simp: match_timestamp_value_def word_sle_eq word_sless_alt)
    with wf(1) empty reset_restricts [of bm "\<lambda>r. match_timestamp_value ft (timestamps bs ! r)"] show ?thesis
      by (auto simp: filter_time_apply_def)
  qed
qed

lemma filter_time_leaf_ok:
  assumes "\<And>t. t \<in> set (timestamps bs) \<Longrightarrow> th_min bs \<le>s t \<and> t \<le>s th_max bs"
  shows "leaf_ok (filter_time_apply bs) (\<lambda>ft r. match_timestamp_value ft (timestamps bs ! r)) (length (timestamps bs))"
  using filter_time_restricts assms unfolding leaf_ok_def by blast

subsection \<open>Cache keys of stream filters\<close>

text \<open>Two stream filters with the same cache key have the same tag names, operations and values.\<close>

definition tag_key :: "'re StreamTagFilter \<Rightarrow> bytes \<times> bytes \<times> bytes" where
  "tag_key tf = (tag_name tf, tag_op tf, tag_value tf)"

definition tag_key_small :: "bytes \<times> bytes \<times> bytes \<Rightarrow> bool" where
  "tag_key_small k \<longleftrightarrow> length (fst k) < 2 ^ 64 \<and> length (fst (snd k)) < 2 ^ 64 \<and> length (snd (snd k)) < 2 ^ 64"

definition enc_tag_key :: "bytes \<times> bytes \<times> bytes \<Rightarrow> bytes" where
  "enc_tag_key k = marshal_bytes [] (fst k) @ marshal_bytes [] (fst (snd k)) @ marshal_bytes [] (snd (snd k))"

definition dec_tag_key :: "bytes \<Rightarrow> ((bytes \<times> bytes \<times> bytes) \<times> bytes) option" where
  "dec_tag_key src =
    (case take_bytes src of None \<Rightarrow> None | Some (n, src) \<Rightarrow>
    (case take_bytes src of None \<Rightarrow> None | Some (p, src) \<Rightarrow>
    (case take_bytes src of None \<Rightarrow> None | Some (v, src) \<Rightarrow> Some ((n, p, v), src))))"

interpretation tag_key: codec enc_tag_key dec_tag_key tag_key_small
  by unfold_locales (auto simp: dec_tag_key_def enc_tag_key_def tag_key_small_def var_bytes.dec_enc)

definition enc_and_key :: "(bytes \<times> bytes \<times> bytes) list \<Rightarrow> bytes" where
  "enc_and_key ks = marshal_var_uint64 [] (of_nat (length ks)) @ concat (map enc_tag_key ks)"

definition dec_and_key :: "bytes \<Rightarrow> ((bytes \<times> bytes \<times> bytes) list \<times> bytes) option" where
  "dec_and_key src =
    (case take_var_uint64 src of None \<Rightarrow> None | Some (n, src) \<Rightarrow> dec_n dec_tag_key (unat n) src)"

interpretation and_key: codec enc_and_key dec_and_key "\<lambda>ks. length ks < 2 ^ 64 \<and> list_all tag_key_small ks"
proof unfold_locales
  fix ks rest
  assume "length ks < 2 ^ 64 \<and> list_all tag_key_small ks"
  moreover from this have "unat (of_nat (length ks) :: u64) = length ks"
    by (simp add: unat_of_nat take_bit_nat_eq_self)
  ultimately show "dec_and_key (enc_and_key ks @ rest) = Some (ks, rest)"
    using var_uint64.dec_enc [of "of_nat (length ks)"]
    by (simp add: dec_and_key_def enc_and_key_def tag_key.dec_n_concat list_all_iff)
qed

definition enc_or_key :: "(bytes \<times> bytes \<times> bytes) list list \<Rightarrow> bytes" where
  "enc_or_key kss = marshal_var_uint64 [] (of_nat (length kss)) @ concat (map enc_and_key kss)"

definition dec_or_key :: "bytes \<Rightarrow> ((bytes \<times> bytes \<times> bytes) list list \<times> bytes) option" where
  "dec_or_key src =
    (case take_var_uint64 src of None \<Rightarrow> None | Some (n, src) \<Rightarrow> dec_n dec_and_key (unat n) src)"

definition small_keys :: "(bytes \<times> bytes \<times> bytes) list list \<Rightarrow> bool" where
  "small_keys kss \<longleftrightarrow> length kss < 2 ^ 64 \<and> list_all (\<lambda>ks. length ks < 2 ^ 64 \<and> list_all tag_key_small ks) kss"

interpretation or_key: codec enc_or_key dec_or_key small_keys
proof unfold_locales
  fix kss rest
  assume "small_keys kss"
  moreover from this have "unat (of_nat (length kss) :: u64) = length kss"
    by (simp add: unat_of_nat take_bit_nat_eq_self small_keys_def)
  ultimately show "dec_or_key (enc_or_key kss @ rest) = Some (kss, rest)"
    using var_uint64.dec_enc [of "of_nat (length kss)"]
    by (simp add: dec_or_key_def enc_or_key_def and_key.dec_n_concat list_all_iff small_keys_def)
qed

definition filter_keys :: "'re StreamFilter \<Rightarrow> (bytes \<times> bytes \<times> bytes) list list" where
  "filter_keys sf = map (\<lambda>af. map tag_key (tag_filters af)) (or_filters sf)"

lemma marshal_tag_filter_key_eq: "marshal_tag_filter_key dst f = dst @ enc_tag_key (tag_key f)"
  by (simp add: marshal_tag_filter_key_def enc_tag_key_def tag_key_def marshal_bytes_def marshal_var_uint64_eq)

lemma foldl_append_enc: "(\<And>d x. f d x = d @ g x) \<Longrightarrow> foldl f dst xs = dst @ concat (map g xs)"
  by (induction xs arbitrary: dst) simp_all

lemma foldl_tag_keys:
  "foldl marshal_tag_filter_key dst fs = dst @ concat (map (\<lambda>f. enc_tag_key (tag_key f)) fs)"
  by (rule foldl_append_enc) (rule marshal_tag_filter_key_eq)

lemma marshal_and_filter_key_eq:
  "marshal_and_filter_key dst af = dst @ enc_and_key (map tag_key (tag_filters af))"
  by (simp add: marshal_and_filter_key_def enc_and_key_def marshal_var_uint64_eq comp_def foldl_tag_keys)

lemma foldl_and_keys:
  "foldl marshal_and_filter_key dst afs = dst @ concat (map (\<lambda>af. enc_and_key (map tag_key (tag_filters af))) afs)"
  by (rule foldl_append_enc) (rule marshal_and_filter_key_eq)

lemma marshal_for_cache_key_eq: "marshal_for_cache_key dst sf = dst @ enc_or_key (filter_keys sf)"
  by (simp add: marshal_for_cache_key_def enc_or_key_def filter_keys_def marshal_var_uint64_eq comp_def foldl_and_keys)

lemma cache_key_inj:
  assumes "small_keys (filter_keys sf)" "small_keys (filter_keys sf')"
    and "marshal_for_cache_key [] sf = marshal_for_cache_key [] sf'"
  shows "filter_keys sf = filter_keys sf'"
proof -
  have "enc_or_key (filter_keys sf) @ [] = enc_or_key (filter_keys sf') @ []"
    using assms(3) by (simp add: marshal_for_cache_key_eq)
  from or_key.enc_prefix_free [OF assms(1,2) this] show ?thesis by (rule conjunct1)
qed

subsection \<open>Properties\<close>

text \<open>C3: Applying a filter tree to a block selects exactly the rows that the tree matches. Whatever
  nesting of AND, OR and NOT, with the early exits on an empty bitmap, the recycled scratch
  bitmaps of the pool and the complement trick of OR, the resulting bitmap holds precisely the
  candidate rows that \<open>match_row\<close> accepts one by one, stays well formed, and no panic occurs; the
  leaves are only required to do the same for themselves.\<close>

theorem filter_tree_selects:
  assumes "leaf_ok leaf lm n" "leaf_ok stream sm n" "bitmap_wf bm" "bits_len bm = n" "pool_ok pool"
  shows "\<exists>bm' pool'. apply_filter leaf stream f bm pool = Ok (bm', pool') \<and> pool_ok pool' \<and>
    bitmap_wf bm' \<and> bits_len bm' = n \<and>
    set_rows bm' = {r \<in> set_rows bm. match_row (\<lambda>l. lm l r) (\<lambda>sf. sm sf r) f}"
  by (rule appliesE [OF apply_filter_correct [OF assms(1,2)] assms(3-5)])
    (auto simp: bm.restricts_def)

text \<open>C32: The time filter selects the rows whose timestamp lies in the range, also when it decides
  from the block header alone that no row or every row matches, and it never reads a timestamp out
  of range.\<close>

theorem time_filter_selects:
  assumes "bitmap_wf bm" "bits_len bm = length (timestamps bs)"
    and "list_all (\<lambda>t. th_min bs \<le>s t \<and> t \<le>s th_max bs) (timestamps bs)"
  shows "\<exists>bm'. filter_time_apply bs ft bm = Ok bm' \<and> bitmap_wf bm' \<and> bits_len bm' = bits_len bm \<and>
    set_rows bm' = {r \<in> set_rows bm. match_timestamp_value ft (timestamps bs ! r)}"
  using filter_time_restricts [OF assms(1,2), of ft] assms(3) by (auto simp: list_all_iff bm.restricts_def)

definition demo_block :: time_block where
  "demo_block = \<lparr>th_min = 10, th_max = 30, timestamps = [10, 20, 30]\<rparr>"

definition demo_rows :: Bitmap where
  "demo_rows = \<lparr>words = [7], bits_len = 3\<rparr>"

lemma demo_ok: "bitmap_wf demo_rows" "bits_len demo_rows = 3" "length (timestamps demo_block) = 3"
  "list_all (\<lambda>t. th_min demo_block \<le>s t \<and> t \<le>s th_max demo_block) (timestamps demo_block)"
  by code_simp+

lemma demo_time_leaf:
  "leaf_ok (filter_time_apply demo_block)
     (\<lambda>ft r. match_timestamp_value ft (timestamps demo_block ! r)) 3"
  using filter_time_leaf_ok [of demo_block] demo_ok by (simp add: list_all_iff)

theorem time_filter_selects_witness:
  "\<exists>bm'. filter_time_apply demo_block \<lparr>min_timestamp = 15, max_timestamp = 30\<rparr> demo_rows = Ok bm' \<and>
    set_rows bm' = {r \<in> set_rows demo_rows.
      match_timestamp_value \<lparr>min_timestamp = 15, max_timestamp = 30\<rparr> (timestamps demo_block ! r)}"
  using time_filter_selects [of demo_rows demo_block "\<lparr>min_timestamp = 15, max_timestamp = 30\<rparr>"] demo_ok
  by auto

theorem filter_tree_selects_witness:
  "\<exists>bm' pool'. apply_filter (filter_time_apply demo_block) (\<lambda>(sf :: unit StreamFilter) bm. Ok bm)
      (FilterNot (FilterOr [FilterLeaf \<lparr>min_timestamp = 15, max_timestamp = 25\<rparr>, FilterAnd []]))
      demo_rows [] = Ok (bm', pool') \<and>
    set_rows bm' = {r \<in> set_rows demo_rows.
      match_row (\<lambda>ft. match_timestamp_value ft (timestamps demo_block ! r)) (\<lambda>sf :: unit StreamFilter. True)
       (FilterNot (FilterOr [FilterLeaf \<lparr>min_timestamp = 15, max_timestamp = 25\<rparr>, FilterAnd []]))}"
proof -
  let ?f = "FilterNot (FilterOr [FilterLeaf \<lparr>min_timestamp = 15, max_timestamp = 25\<rparr>, FilterAnd []])
    :: (FilterTime, unit) Filter"
  have "leaf_ok (\<lambda>sf bm. Ok bm) (\<lambda>(sf :: unit StreamFilter) r. True) 3"
    by (auto simp: leaf_ok_def bm.restricts_def)
  from filter_tree_selects [OF demo_time_leaf this demo_ok(1,2), of "[]" ?f]
  have "\<exists>bm' pool'. apply_filter (filter_time_apply demo_block) (\<lambda>sf bm. Ok bm) ?f demo_rows [] = Ok (bm', pool') \<and>
      pool_ok pool' \<and> bitmap_wf bm' \<and> bits_len bm' = 3 \<and> set_rows bm' = {r \<in> set_rows demo_rows.
      match_row (\<lambda>ft. match_timestamp_value ft (timestamps demo_block ! r)) (\<lambda>sf :: unit StreamFilter. True) ?f}"
    by (simp only: pool_ok_def list.set ball_simps(5) simp_thms)
  then show ?thesis by blast
qed

text \<open>C20: The filter optimizer keeps the meaning of a query: flattening nested ANDs and ORs, dropping
  match-all filters and merging the stream filters of a conjunction leave the set of matching rows
  unchanged, provided that a leaf recognised as match-all matches every row and that the stream
  filters come from the parser (a known operator, a compiled expression where one is needed).\<close>

theorem optimize_filters_preserves:
  assumes "\<And>l. star l \<Longrightarrow> leaf l"
    and "\<forall>sf \<in> set (stream_filters f). stream_filter_ok sf"
  shows "match_row leaf (\<lambda>sf. match_stream_name re_match sf parsed = Ok True) (optimize_filters star f) =
    match_row leaf (\<lambda>sf. match_stream_name re_match sf parsed = Ok True) f"
  by (rule match_optimize_filters [OF assms refl])

definition demo_sf :: "string \<Rightarrow> string \<Rightarrow> unit StreamFilter" where
  "demo_sf k v = StreamFilter [AndStreamFilter [StreamTagFilter (ascii k) (ascii ''='') (ascii v) None]]"

theorem optimize_filters_preserves_witness:
  "match_row (\<lambda>l. l) (\<lambda>sf. match_stream_name (\<lambda>_ _. False) sf (Some [(ascii ''a'', ascii ''b'')]) = Ok True)
     (optimize_filters (\<lambda>l. l) (FilterAnd [FilterLeaf True, FilterStream (demo_sf ''a'' ''b''),
        FilterAnd [FilterStream (demo_sf ''c'' ''d''), FilterLeaf False]])) =
   match_row (\<lambda>l. l) (\<lambda>sf. match_stream_name (\<lambda>_ _. False) sf (Some [(ascii ''a'', ascii ''b'')]) = Ok True)
     (FilterAnd [FilterLeaf True, FilterStream (demo_sf ''a'' ''b''),
        FilterAnd [FilterStream (demo_sf ''c'' ''d''), FilterLeaf False]])"
  by (rule optimize_filters_preserves) (auto simp: demo_sf_def stream_filter_ok_def tag_filter_ok_def)

text \<open>Shifting a time filter by an offset moves its range: a timestamp matches the shifted filter
  exactly when the timestamp plus the offset matches the original one. The subtraction saturates
  instead of wrapping and keeps an unlimited end unlimited, so this also holds for bounds at or
  near the ends of \<open>i64\<close>, for every timestamp strictly inside the range before and after the shift.\<close>

lemma time_offset_shifts:
  assumes "- (2 ^ 63) < sint t" "sint t < 2 ^ 63 - 1"
    and "- (2 ^ 63) < sint t + sint offset" "sint t + sint offset < 2 ^ 63 - 1"
  shows "match_timestamp_value (update_with_time_offset offset ft) t \<longleftrightarrow>
    match_timestamp_value ft (t + offset)"
proof -
  have s: "sint (t + offset) = sint t + sint offset"
    using assms by (intro sint_exact_add) auto
  have lo: "sint (sub_int64_no_overflow m offset) \<le> sint t \<longleftrightarrow> sint m \<le> sint t + sint offset" for m
    using assms sint_MIN_MAX unfolding sint_sub_int64_no_overflow by (auto simp: max_def min_def)
  have hi: "sint t \<le> sint (sub_int64_no_overflow m offset) \<longleftrightarrow> sint t + sint offset \<le> sint m" for m
    using assms sint_MIN_MAX unfolding sint_sub_int64_no_overflow by (auto simp: max_def min_def)
  show ?thesis
    by (simp add: match_timestamp_value_def update_with_time_offset_def word_sle_eq s lo hi)
qed

text \<open>C33: The cache of stream filters cannot confuse two filters: filters with the same cache key
  have the same nesting of alternatives and the same name, operator and value in every position.\<close>

theorem stream_cache_key_injective:
  assumes "small_keys (filter_keys sf)" "small_keys (filter_keys sf')"
    and "marshal_for_cache_key [] sf = marshal_for_cache_key [] sf'"
  shows "filter_keys sf = filter_keys sf'"
  by (rule cache_key_inj [OF assms])

definition demo_sf_compiled :: "unit StreamFilter" where
  "demo_sf_compiled = StreamFilter [AndStreamFilter [StreamTagFilter (ascii ''a'') (ascii ''='') (ascii ''b'') (Some ())]]"

theorem stream_cache_key_injective_witness:
  "demo_sf_compiled \<noteq> demo_sf ''a'' ''b'' \<and>
   marshal_for_cache_key [] demo_sf_compiled = marshal_for_cache_key [] (demo_sf ''a'' ''b'') \<and>
   filter_keys demo_sf_compiled = filter_keys (demo_sf ''a'' ''b'') \<and>
   marshal_for_cache_key [] (demo_sf ''ab'' ''c'') \<noteq> marshal_for_cache_key [] (demo_sf ''a'' ''bc'')"
proof -
  have small: "small_keys (filter_keys demo_sf_compiled)" "small_keys (filter_keys (demo_sf ''a'' ''b''))"
      "small_keys (filter_keys (demo_sf ''ab'' ''c''))" "small_keys (filter_keys (demo_sf ''a'' ''bc''))"
    by (simp_all add: demo_sf_compiled_def demo_sf_def small_keys_def filter_keys_def tag_key_def tag_key_small_def ascii_def)
  have same: "marshal_for_cache_key [] demo_sf_compiled = marshal_for_cache_key [] (demo_sf ''a'' ''b'')"
    by (simp add: demo_sf_compiled_def demo_sf_def marshal_for_cache_key_def marshal_and_filter_key_def marshal_tag_filter_key_def)
  have "filter_keys (demo_sf ''ab'' ''c'') \<noteq> filter_keys (demo_sf ''a'' ''bc'')"
    by (simp add: demo_sf_def filter_keys_def tag_key_def ascii_def)
  then show ?thesis
    using stream_cache_key_injective [OF small(1,2) same] stream_cache_key_injective [OF small(3,4)] same
    by (auto simp: demo_sf_compiled_def demo_sf_def)
qed
end
