(* ===== verification/Pipes.thy ===== *)
theory Pipes
  imports Ids "HOL-Library.List_Lexorder"
begin

text \<open>
  Result pipes: \<^verbatim>\<open>pipe_limit.rs\<close>, \<^verbatim>\<open>pipe_offset.rs\<close>, the configuration and the output window of
  \<^verbatim>\<open>pipe_sort.rs\<close> and \<^verbatim>\<open>pipe_sort_topk.rs\<close>, the chain of processors of \<open>run_pipes\<close>
  (\<^verbatim>\<open>storage_search.rs\<close>), and the passes of \<^verbatim>\<open>parser/query.rs\<close> that rewrite a pipe sequence. The
  reference is a function on row lists: \<open>limit\<close> takes a prefix, \<open>offset\<close> drops one, \<open>sort\<close>
  returns a window of the sorted rows. Unsigned additions wrap, as in the release profile.

  Parameters, in the record \<open>pipe_ops\<close>: the two ways the program sorts rows, the value of a field, the row
  with a rank field added, and the remaining pipes as functions on row lists. A sort without a limit
  orders all rows (\<open>sort_block_cmp\<close>); a sort with a limit keeps the best rows in a bounded heap that compares
  values in another way (\<open>topk_less\<close>). Nothing relates the two unless a lemma says so (\<open>heap_agrees\<close>).
\<close>

unbundle bit_operations_syntax

subsection \<open>Definitions: pipes\<close>

record PipeSort =
  by_fields :: "(bytes \<times> bool) list"
  sort_is_desc :: bool
  sort_offset :: u64
  sort_limit :: u64
  rank_field_name :: bytes
  partition_by_fields :: "bytes list"

record PipeUniq =
  uniq_by_fields :: "bytes list"
  uniq_limit :: u64

datatype 'o pipe =
    Offset u64
  | Limit u64
  | Sort PipeSort
  | Uniq PipeUniq
  | Other 'o

fun offset_pipe_value :: "'o pipe \<Rightarrow> u64 option" where
  "offset_pipe_value (Offset n) = Some n"
| "offset_pipe_value _ = None"

fun limit_pipe_value :: "'o pipe \<Rightarrow> u64 option" where
  "limit_pipe_value (Limit n) = Some n"
| "limit_pipe_value _ = None"

text \<open>\<open>sort_merge_offset\<close> and \<open>sort_merge_limit\<close> return their result and the mutated pipe.\<close>

fun sort_merge_offset :: "'o pipe \<Rightarrow> u64 \<Rightarrow> bool option \<times> 'o pipe" where
  "sort_merge_offset (Sort ps) off =
    (if sort_limit ps > 0 \<and> off \<ge> sort_limit ps then (Some False, Sort ps)
     else
       (let ps' = ps\<lparr>sort_offset := sort_offset ps + off\<rparr>;
            ps'' = (if sort_limit ps' > 0 then ps'\<lparr>sort_limit := sort_limit ps' - off\<rparr> else ps')
        in (Some True, Sort ps'')))"
| "sort_merge_offset p off = (None, p)"

fun sort_merge_limit :: "'o pipe \<Rightarrow> u64 \<Rightarrow> bool \<times> 'o pipe" where
  "sort_merge_limit (Sort ps) lim =
    (True, Sort (if sort_limit ps = 0 \<or> lim < sort_limit ps then ps\<lparr>sort_limit := lim\<rparr> else ps))"
| "sort_merge_limit p lim = (False, p)"

fun uniq_merge_limit :: "'o pipe \<Rightarrow> u64 \<Rightarrow> bool \<times> 'o pipe" where
  "uniq_merge_limit (Uniq pu) lim =
    (True, Uniq (if uniq_limit pu = 0 \<or> lim < uniq_limit pu then pu\<lparr>uniq_limit := lim\<rparr> else pu))"
| "uniq_merge_limit p lim = (False, p)"

definition sort_split_to_remote_and_local :: "PipeSort \<Rightarrow> PipeSort \<times> PipeSort list" where
  "sort_split_to_remote_and_local ps =
    (let p_remote = ps\<lparr>sort_limit := sort_limit ps + sort_offset ps\<rparr>;
         p_remote = p_remote\<lparr>sort_offset := 0\<rparr>;
         p_remote = p_remote\<lparr>rank_field_name := []\<rparr>
     in (p_remote, [ps]))"

subsection \<open>Definitions: the rewriting passes\<close>

text \<open>The first loop, over the pairs \<open>pipes[i]\<close>, \<open>pipes[i + 1]\<close> from left to right.\<close>

fun swap_offset_limit :: "'o pipe list \<Rightarrow> 'o pipe list" where
  "swap_offset_limit (p # q # ps) =
    (case (offset_pipe_value p, limit_pipe_value q) of
       (Some off, Some lim) \<Rightarrow> Limit (lim + off) # swap_offset_limit (Offset off # ps)
     | _ \<Rightarrow> p # swap_offset_limit (q # ps))"
| "swap_offset_limit ps = ps"

text \<open>
  The loops with an index \<open>i\<close> look at \<open>pipes[i - 1]\<close> and \<open>pipes[i]\<close>; they either remove one of the
  two and look at the same position again, or move on.
\<close>

fun merge_offsets :: "'o pipe list \<Rightarrow> 'o pipe list" where
  "merge_offsets (p # q # ps) =
    (case (offset_pipe_value p, offset_pipe_value q) of
       (Some o1, Some o2) \<Rightarrow> merge_offsets (Offset (o1 + o2) # ps)
     | _ \<Rightarrow> p # merge_offsets (q # ps))"
| "merge_offsets ps = ps"

fun merge_limits :: "'o pipe list \<Rightarrow> 'o pipe list" where
  "merge_limits (p # q # ps) =
    (case (limit_pipe_value p, limit_pipe_value q) of
       (Some l1, Some l2) \<Rightarrow> merge_limits (Limit (min l1 l2) # ps)
     | _ \<Rightarrow> p # merge_limits (q # ps))"
| "merge_limits ps = ps"

fun merge_limit_offset :: "'o pipe list \<Rightarrow> 'o pipe list" where
  "merge_limit_offset (p # q # ps) =
    (case (limit_pipe_value p, offset_pipe_value q) of
       (Some lim, Some off) \<Rightarrow>
         if off < lim then p # merge_limit_offset (q # ps)
         else merge_limit_offset (Limit 0 # ps)
     | _ \<Rightarrow> p # merge_limit_offset (q # ps))"
| "merge_limit_offset ps = ps"

primrec remove_zero_offsets :: "'o pipe list \<Rightarrow> 'o pipe list" where
  "remove_zero_offsets [] = []"
| "remove_zero_offsets (p # ps) =
    (if offset_pipe_value p \<noteq> Some 0 then p # remove_zero_offsets ps else remove_zero_offsets ps)"

fun optimize_sort_offset_pipes :: "'o pipe list \<Rightarrow> 'o pipe list" where
  "optimize_sort_offset_pipes (p # q # ps) =
    (case offset_pipe_value q of
       None \<Rightarrow> p # optimize_sort_offset_pipes (q # ps)
     | Some off \<Rightarrow>
        (case sort_merge_offset p off of
           (None, p') \<Rightarrow> p' # optimize_sort_offset_pipes (q # ps)
         | (Some True, p') \<Rightarrow> optimize_sort_offset_pipes (p' # ps)
         | (Some False, p') \<Rightarrow> optimize_sort_offset_pipes (Limit 0 # ps)))"
| "optimize_sort_offset_pipes ps = ps"

fun optimize_sort_limit_pipes :: "'o pipe list \<Rightarrow> 'o pipe list" where
  "optimize_sort_limit_pipes (p # q # ps) =
    (case limit_pipe_value q of
       None \<Rightarrow> p # optimize_sort_limit_pipes (q # ps)
     | Some lim \<Rightarrow>
        if lim = 0 then
          (case sort_merge_offset p 0 of
             (Some _, p') \<Rightarrow> optimize_sort_limit_pipes (q # ps)
           | (None, p') \<Rightarrow> p' # optimize_sort_limit_pipes (q # ps))
        else
          (case sort_merge_limit p lim of
             (True, p') \<Rightarrow> optimize_sort_limit_pipes (p' # ps)
           | (False, p') \<Rightarrow> p' # optimize_sort_limit_pipes (q # ps)))"
| "optimize_sort_limit_pipes ps = ps"

definition optimize_offset_limit_pipes_internal :: "'o pipe list \<Rightarrow> 'o pipe list" where
  "optimize_offset_limit_pipes_internal ps =
    (let ps = swap_offset_limit ps;
         ps = merge_offsets ps;
         ps = merge_limits ps;
         ps = merge_limit_offset ps;
         ps = remove_zero_offsets ps;
         ps = optimize_sort_offset_pipes ps
     in optimize_sort_limit_pipes ps)"

lemma length_swap: "length (swap_offset_limit ps) = length ps"
  by (induction ps rule: swap_offset_limit.induct) (auto split: option.splits)

lemma length_merge_offsets: "length (merge_offsets ps) \<le> length ps"
  by (induction ps rule: merge_offsets.induct) (auto split: option.splits intro: le_SucI)

lemma length_merge_limits: "length (merge_limits ps) \<le> length ps"
  by (induction ps rule: merge_limits.induct) (auto split: option.splits intro: le_SucI)

lemma length_merge_limit_offset: "length (merge_limit_offset ps) \<le> length ps"
  by (induction ps rule: merge_limit_offset.induct) (auto split: option.splits intro: le_SucI)

lemma length_remove_zero: "length (remove_zero_offsets ps) \<le> length ps"
  by (induction ps) auto

lemma length_sort_offset: "length (optimize_sort_offset_pipes ps) \<le> length ps"
  by (induction ps rule: optimize_sort_offset_pipes.induct)
     (auto split: option.splits prod.splits bool.splits intro: le_SucI)

lemma length_sort_limit: "length (optimize_sort_limit_pipes ps) \<le> length ps"
  by (induction ps rule: optimize_sort_limit_pipes.induct)
     (auto split: option.splits prod.splits bool.splits intro: le_SucI)

lemma length_optimize_internal: "length (optimize_offset_limit_pipes_internal ps) \<le> length ps"
proof -
  let ?a = "swap_offset_limit ps"
  let ?b = "merge_offsets ?a"
  let ?c = "merge_limits ?b"
  let ?d = "merge_limit_offset ?c"
  let ?e = "remove_zero_offsets ?d"
  let ?f = "optimize_sort_offset_pipes ?e"
  show ?thesis
    using length_swap [of ps] length_merge_offsets [of ?a] length_merge_limits [of ?b]
      length_merge_limit_offset [of ?c] length_remove_zero [of ?d] length_sort_offset [of ?e]
      length_sort_limit [of ?f]
    unfolding optimize_offset_limit_pipes_internal_def Let_def by linarith
qed

text \<open>The outer loop stops when a round removes no pipe; every other round shortens the list.\<close>

function optimize_offset_limit_pipes :: "'o pipe list \<Rightarrow> 'o pipe list" where
  "optimize_offset_limit_pipes ps =
    (let pipes_len = length ps; ps' = optimize_offset_limit_pipes_internal ps in
     if length ps' = pipes_len then ps' else optimize_offset_limit_pipes ps')"
  by pat_completeness auto
termination
  by (relation "measure length") (auto simp: Let_def intro: le_neq_implies_less length_optimize_internal)

declare optimize_offset_limit_pipes.simps [simp del]

fun optimize_uniq_limit_pipes :: "'o pipe list \<Rightarrow> 'o pipe list" where
  "optimize_uniq_limit_pipes (p # q # ps) =
    (case limit_pipe_value q of
       None \<Rightarrow> p # optimize_uniq_limit_pipes (q # ps)
     | Some lim \<Rightarrow>
        (case uniq_merge_limit p lim of
           (True, p') \<Rightarrow> optimize_uniq_limit_pipes (p' # ps)
         | (False, p') \<Rightarrow> p' # optimize_uniq_limit_pipes (q # ps)))"
| "optimize_uniq_limit_pipes ps = ps"

subsection \<open>Definitions: what the pipes compute\<close>

text \<open>\<open>srt\<close>: all rows, sorted by \<open>PipeSortProcessor\<close>. \<open>top_rows\<close>: the rows a heap of the given capacity returns, best first.\<close>

record ('row, 'o) pipe_ops =
  srt :: "(bytes \<times> bool) list \<Rightarrow> bool \<Rightarrow> 'row list \<Rightarrow> 'row list"
  top_rows :: "(bytes \<times> bool) list \<Rightarrow> bool \<Rightarrow> nat \<Rightarrow> 'row list \<Rightarrow> 'row list"
  field_value :: "bytes \<Rightarrow> 'row \<Rightarrow> bytes"
  add_rank :: "bytes \<Rightarrow> nat \<Rightarrow> 'row \<Rightarrow> 'row"
  uniq_rows :: "bytes list \<Rightarrow> 'row list \<Rightarrow> 'row list"
  other :: "'o \<Rightarrow> 'row list \<Rightarrow> 'row list"

text \<open>
  \<open>emit_sorted\<close> and \<open>emit_partition\<close>: number the rows from 1 (\<open>rows_written\<close>), skip those up to the
  offset, stop behind \<open>offset + limit\<close> when there is a limit.
\<close>

primrec emit_rows :: "('row, 'o) pipe_ops \<Rightarrow> PipeSort \<Rightarrow> nat \<Rightarrow> 'row list \<Rightarrow> 'row list" where
  "emit_rows ops ps rows_written [] = []"
| "emit_rows ops ps rows_written (r # rs) =
    (let rows_written = rows_written + 1 in
     if rows_written \<le> unat (sort_offset ps) then emit_rows ops ps rows_written rs
     else if sort_limit ps > 0 \<and> rows_written > unat (sort_offset ps + sort_limit ps) then []
     else
       (if rank_field_name ps \<noteq> [] then add_rank ops (rank_field_name ps) rows_written r else r)
         # emit_rows ops ps rows_written rs)"

definition build_partition_key :: "('row, 'o) pipe_ops \<Rightarrow> PipeSort \<Rightarrow> 'row \<Rightarrow> bytes" where
  "build_partition_key ops ps r =
    foldl (\<lambda>b f. marshal_bytes b (field_value ops f r)) [] (partition_by_fields ps)"

text \<open>
  The rows that a sort pipe outputs. Without a limit all rows are sorted together
  (\<open>PipeSortProcessor\<close>); with a limit every partition has a heap for \<open>offset + limit\<close> rows of its own, and they
  are emitted in the order of the partition keys (\<open>PipeTopkProcessor::flush\<close>).
\<close>

definition run_sort :: "('row, 'o) pipe_ops \<Rightarrow> PipeSort \<Rightarrow> 'row list \<Rightarrow> 'row list" where
  "run_sort ops ps rows =
    (if sort_limit ps = 0 then emit_rows ops ps 0 (srt ops (by_fields ps) (sort_is_desc ps) rows)
     else
       (let keys = sort (remdups (map (build_partition_key ops ps) rows)) in
        concat (map (\<lambda>k. emit_rows ops ps 0
          (top_rows ops (by_fields ps) (sort_is_desc ps) (unat (sort_offset ps + sort_limit ps))
            (filter (\<lambda>r. build_partition_key ops ps r = k) rows))) keys)))"

text \<open>\<open>PipeUniqProcessor::flush\<close>: above a limit the surplus entries are dropped.\<close>

definition run_uniq :: "('row, 'o) pipe_ops \<Rightarrow> PipeUniq \<Rightarrow> 'row list \<Rightarrow> 'row list" where
  "run_uniq ops pu rows =
    (let u = uniq_rows ops (uniq_by_fields pu) rows in
     if uniq_limit pu > 0 \<and> length u > unat (uniq_limit pu) then take (unat (uniq_limit pu)) u else u)"

primrec run_pipe :: "('row, 'o) pipe_ops \<Rightarrow> 'o pipe \<Rightarrow> 'row list \<Rightarrow> 'row list" where
  "run_pipe ops (Offset n) rows = drop (unat n) rows"
| "run_pipe ops (Limit n) rows = take (unat n) rows"
| "run_pipe ops (Sort ps) rows = run_sort ops ps rows"
| "run_pipe ops (Uniq pu) rows = run_uniq ops pu rows"
| "run_pipe ops (Other x) rows = other ops x rows"

definition run :: "('row, 'o) pipe_ops \<Rightarrow> 'o pipe list \<Rightarrow> 'row list \<Rightarrow> 'row list" where
  "run ops ps rows = fold (run_pipe ops) ps rows"

subsection \<open>Definitions: the chain of processors\<close>

text \<open>
  A processor and the rows it has counted or buffered. All processors of a chain share one stop
  flag (\<open>run_pipes\<close> hands the same \<open>Arc\<close> to each of them). The budget that bounds the memory of the
  sort processor is not modelled; its output is passed on as one block.
\<close>

datatype 'row processor =
    ProcLimit u64 u64
  | ProcOffset u64 u64
  | ProcSort PipeSort "'row list"

fun write_block ::
  "'row processor list \<Rightarrow> bool \<Rightarrow> 'row list \<Rightarrow> 'row processor list \<times> bool \<times> 'row list" where
  "write_block [] stop br = ([], stop, br)"
| "write_block (ProcLimit lim n # pps) stop br =
    (if br = [] then (ProcLimit lim n # pps, stop, [])
     else
       (let block_rows = of_nat (length br); rows_processed = n + block_rows in
        if rows_processed \<le> lim then
          (case write_block pps stop br of
             (pps', stop', out) \<Rightarrow>
               (ProcLimit lim rows_processed # pps', if rows_processed = lim then True else stop', out))
        else
          (let rows_before = rows_processed - block_rows in
           if rows_before \<ge> lim then (ProcLimit lim rows_processed # pps, stop, [])
           else
             (case write_block pps stop (take (unat (lim - rows_before)) br) of
                (pps', stop', out) \<Rightarrow> (ProcLimit lim rows_processed # pps', True, out)))))"
| "write_block (ProcOffset off n # pps) stop br =
    (if br = [] then (ProcOffset off n # pps, stop, [])
     else
       (let block_rows = of_nat (length br); rows_processed = n + block_rows in
        if rows_processed \<le> off then (ProcOffset off rows_processed # pps, stop, [])
        else
          (let rows_before = rows_processed - block_rows;
               br' = (if rows_before \<ge> off then br else drop (unat (off - rows_before)) br)
           in case write_block pps stop br' of
                (pps', stop', out) \<Rightarrow> (ProcOffset off rows_processed # pps', stop', out))))"
| "write_block (ProcSort ps rows # pps) stop br =
    (if br = [] then (ProcSort ps rows # pps, stop, []) else (ProcSort ps (rows @ br) # pps, stop, []))"

text \<open>\<open>flush\<close> of every processor, first to last: only the sort processor has something to do.\<close>

lemma length_write_block: "length (fst (write_block pps stop br)) = length pps"
  by (induction pps stop br rule: write_block.induct) (auto simp: Let_def split: prod.splits)

lemma write_block_length: "(pps', stop', out) = write_block pps stop br \<Longrightarrow> length pps' = length pps"
  using length_write_block [of pps stop br] by (metis fst_conv)

function (sequential) flush_all ::
  "('row, 'o) pipe_ops \<Rightarrow> 'row processor list \<Rightarrow> bool \<Rightarrow> 'row list" where
  "flush_all ops [] stop = []"
| "flush_all ops (ProcSort ps rows # pps) stop =
    (if stop \<or> rows = [] then flush_all ops pps stop
     else
       (case write_block pps stop (run_sort ops ps rows) of
          (pps', stop', out) \<Rightarrow> out @ flush_all ops pps' stop'))"
| "flush_all ops (_ # pps) stop = flush_all ops pps stop"
  by pat_completeness auto
termination
  by (relation "measure (\<lambda>(_, pps, _). length pps)") (auto dest: write_block_length)

text \<open>\<open>new_pipe_processor\<close>: a \<open>limit 0\<close> sets the stop flag at once.\<close>

fun new_pipe_processor :: "'o pipe \<Rightarrow> bool \<Rightarrow> ('row processor \<times> bool) option" where
  "new_pipe_processor (Limit n) stop = Some (ProcLimit n 0, if n = 0 then True else stop)"
| "new_pipe_processor (Offset n) stop = Some (ProcOffset n 0, stop)"
| "new_pipe_processor (Sort ps) stop = Some (ProcSort ps [], stop)"
| "new_pipe_processor _ stop = None"

fun new_processors :: "'o pipe list \<Rightarrow> bool \<Rightarrow> ('row processor list \<times> bool) option" where
  "new_processors [] stop = Some ([], stop)"
| "new_processors (p # ps) stop =
    (case new_processors ps stop of
       None \<Rightarrow> None
     | Some (pps, stop') \<Rightarrow>
        (case new_pipe_processor p stop' of None \<Rightarrow> None | Some (pp, stop'') \<Rightarrow> Some (pp # pps, stop'')))"

text \<open>The search writes its blocks to the head of the chain while the stop flag is not set.\<close>

fun search_blocks ::
  "'row processor list \<Rightarrow> bool \<Rightarrow> 'row list list \<Rightarrow> 'row processor list \<times> bool \<times> 'row list" where
  "search_blocks pps stop [] = (pps, stop, [])"
| "search_blocks pps stop (b # bs) =
    (if stop then search_blocks pps stop bs
     else
       (case write_block pps stop b of
          (pps', stop', out) \<Rightarrow>
            (case search_blocks pps' stop' bs of (pps'', stop'', out') \<Rightarrow> (pps'', stop'', out @ out'))))"

definition run_pipes :: "('row, 'o) pipe_ops \<Rightarrow> 'o pipe list \<Rightarrow> 'row list list \<Rightarrow> 'row list option" where
  "run_pipes ops ps blocks =
    (case new_processors ps False of
       None \<Rightarrow> None
     | Some (pps, stop) \<Rightarrow>
        (case search_blocks pps stop blocks of
           (pps', stop', out) \<Rightarrow> Some (out @ flush_all ops pps' stop')))"


subsection \<open>The output window of a sort\<close>

primrec ranked :: "('row, 'o) pipe_ops \<Rightarrow> bytes \<Rightarrow> nat \<Rightarrow> 'row list \<Rightarrow> 'row list" where
  "ranked ops rk n [] = []"
| "ranked ops rk n (r # rs) = (if rk \<noteq> [] then add_rank ops rk (n + 1) r else r) # ranked ops rk (n + 1) rs"

lemma length_ranked [simp]: "length (ranked ops rk n rs) = length rs"
  by (induction rs arbitrary: n) simp_all

lemma emit_rows_unlimited:
  "sort_limit ps = 0 \<Longrightarrow>
    emit_rows ops ps n rs = drop (unat (sort_offset ps) - n) (ranked ops (rank_field_name ps) n rs)"
proof (induction rs arbitrary: n)
  case (Cons r rs)
  then show ?case
    by (cases "Suc n \<le> unat (sort_offset ps)") (auto simp: Let_def drop_Cons' Suc_diff_le)
qed simp

definition window_end :: "PipeSort \<Rightarrow> nat" where
  "window_end ps = unat (sort_offset ps) + unat (sort_limit ps)"

lemma unat_window_end: "window_end ps < 2 ^ 64 \<Longrightarrow> unat (sort_offset ps + sort_limit ps) = window_end ps"
  by (simp add: window_end_def unat_word_ariths)

lemma emit_rows_limited:
  assumes "sort_limit ps > 0" "window_end ps < 2 ^ 64" "n \<le> window_end ps"
  shows "emit_rows ops ps n rs =
    take (window_end ps - max n (unat (sort_offset ps)))
      (drop (unat (sort_offset ps) - n) (ranked ops (rank_field_name ps) n rs))"
  using assms(3)
proof (induction rs arbitrary: n)
  case (Cons r rs)
  note w = unat_window_end [OF assms(2)]
  consider "Suc n \<le> unat (sort_offset ps)" | "n = window_end ps" "\<not> Suc n \<le> unat (sort_offset ps)"
    | "Suc n \<le> window_end ps" "\<not> Suc n \<le> unat (sort_offset ps)"
    using Cons.prems by linarith
  then show ?case
  proof cases
    case 1
    then have "Suc n \<le> window_end ps" by (simp add: window_end_def)
    with Cons.IH [of "Suc n"] 1 show ?thesis by (simp add: Let_def max_def drop_Cons' Suc_diff_le)
  next
    case 2
    then show ?thesis using assms(1) w by (simp add: Let_def max_def)
  next
    case 3
    then obtain k where k: "window_end ps = Suc (n + k)" by (metis less_eq_Suc_le less_natE)
    have m: "max n (unat (sort_offset ps)) = n" "max (Suc n) (unat (sort_offset ps)) = Suc n"
      "unat (sort_offset ps) - n = 0" "unat (sort_offset ps) - Suc n = 0" using 3 by simp_all
    from 3 Cons.IH [of "Suc n"] w k show ?thesis by (simp add: Let_def m)
  qed
qed simp

definition sorted_rows :: "('row, 'o) pipe_ops \<Rightarrow> PipeSort \<Rightarrow> 'row list \<Rightarrow> 'row list" where
  "sorted_rows ops ps rows = ranked ops (rank_field_name ps) 0 (srt ops (by_fields ps) (sort_is_desc ps) rows)"

text \<open>\<open>srt_Nil\<close>: sorting no rows gives no rows.\<close>

definition srt_Nil :: "('row, 'o) pipe_ops \<Rightarrow> bool" where
  "srt_Nil ops \<longleftrightarrow> (\<forall>fs d. srt ops fs d [] = [])"

lemma partition_key_none: "partition_by_fields ps = [] \<Longrightarrow> build_partition_key ops ps = (\<lambda>_. [])"
  by (rule ext) (simp add: build_partition_key_def)

lemma remdups_const: "xs \<noteq> [] \<Longrightarrow> remdups (map (\<lambda>_. k) xs) = [k]"
  by (induction xs rule: induct_list012) auto

lemma run_sort_unlimited: "sort_limit ps = 0 \<Longrightarrow> run_sort ops ps rows = drop (unat (sort_offset ps)) (sorted_rows ops ps rows)"
  by (simp add: run_sort_def emit_rows_unlimited sorted_rows_def)

lemma run_sort_limited:
  assumes "partition_by_fields ps = []" "window_end ps < 2 ^ 64" "0 < sort_limit ps"
  shows "run_sort ops ps rows =
    (if rows = [] then []
     else take (unat (sort_limit ps)) (drop (unat (sort_offset ps))
       (ranked ops (rank_field_name ps) 0 (top_rows ops (by_fields ps) (sort_is_desc ps) (window_end ps) rows))))"
proof -
  have "emit_rows ops ps 0 rs = take (unat (sort_limit ps)) (drop (unat (sort_offset ps)) (ranked ops (rank_field_name ps) 0 rs))" for rs
    using emit_rows_limited [OF assms(3,2), of 0] by (simp add: window_end_def)
  then show ?thesis using assms(3) unat_window_end [OF assms(2)]
    by (simp add: run_sort_def partition_key_none [OF assms(1)] remdups_const)
qed

text \<open>The bounded heap gives the first rows of the full sort: what the passes need of a sort on its rows.\<close>

definition heap_agrees :: "('row, 'o) pipe_ops \<Rightarrow> PipeSort \<Rightarrow> 'row list \<Rightarrow> bool" where
  "heap_agrees ops ps rows \<longleftrightarrow>
    (\<forall>n. top_rows ops (by_fields ps) (sort_is_desc ps) n rows = take n (srt ops (by_fields ps) (sort_is_desc ps) rows))"



subsection \<open>Rewriting keeps the result\<close>

text \<open>
  The additions of the passes do not wrap when every limit, and the end of every sort window, stays
  below \<open>2 ^ 64\<close> after adding the offsets in front of it. \<open>acc\<close> is the sum of those offsets.
\<close>

fun no_overflow :: "nat \<Rightarrow> 'o pipe list \<Rightarrow> bool" where
  "no_overflow acc [] \<longleftrightarrow> acc < 2 ^ 64"
| "no_overflow acc (Offset n # ps) \<longleftrightarrow> no_overflow (acc + unat n) ps"
| "no_overflow acc (Limit n # ps) \<longleftrightarrow> acc + unat n < 2 ^ 64 \<and> no_overflow acc ps"
| "no_overflow acc (Sort s # ps) \<longleftrightarrow> acc + window_end s < 2 ^ 64 \<and> no_overflow (acc + unat (sort_offset s)) ps"
| "no_overflow acc (_ # ps) \<longleftrightarrow> no_overflow acc ps"

fun unpartitioned :: "'o pipe \<Rightarrow> bool" where
  "unpartitioned (Sort s) \<longleftrightarrow> partition_by_fields s = []"
| "unpartitioned _ \<longleftrightarrow> True"

definition pipes_ok :: "nat \<Rightarrow> 'o pipe list \<Rightarrow> bool" where
  "pipes_ok acc ps \<longleftrightarrow> no_overflow acc ps \<and> list_all unpartitioned ps"

lemma no_overflow_mono: "no_overflow acc ps \<Longrightarrow> acc' \<le> acc \<Longrightarrow> no_overflow acc' ps"
  by (induction acc ps arbitrary: acc' rule: no_overflow.induct) fastforce+


lemma pipes_ok_mono: "pipes_ok acc ps \<Longrightarrow> acc' \<le> acc \<Longrightarrow> pipes_ok acc' ps"
  using no_overflow_mono by (auto simp: pipes_ok_def)

lemma run_simps [simp]: "run ops [] rows = rows" "run ops (p # ps) rows = run ops ps (run_pipe ops p rows)"
  by (simp_all add: run_def)

text \<open>On the rows that reach it, the heap of every sort pipe agrees with the full sort.\<close>

primrec sorts_agree :: "('row, 'o) pipe_ops \<Rightarrow> 'o pipe list \<Rightarrow> 'row list \<Rightarrow> bool" where
  "sorts_agree ops [] rows \<longleftrightarrow> True"
| "sorts_agree ops (p # ps) rows \<longleftrightarrow>
    (case p of Sort s \<Rightarrow> heap_agrees ops s rows | _ \<Rightarrow> True) \<and> sorts_agree ops ps (run_pipe ops p rows)"

definition rewr :: "('row, 'o) pipe_ops \<Rightarrow> 'o pipe list \<Rightarrow> 'o pipe list \<Rightarrow> bool" where
  "rewr ops ps qs \<longleftrightarrow>
    (\<forall>acc rows. pipes_ok acc ps \<longrightarrow> sorts_agree ops ps rows \<longrightarrow>
      pipes_ok acc qs \<and> sorts_agree ops qs rows \<and> run ops qs rows = run ops ps rows)"

lemma rewr_refl [simp, intro]: "rewr ops ps ps"
  by (simp add: rewr_def)




























subsection \<open>Where rewriting changes the result\<close>

lemma optimize_wraps:
  assumes "2 ^ 64 \<le> unat off + unat lim"
  shows "optimize_offset_limit_pipes [Offset off, Limit lim] = [Limit 0]"
proof -
  have "lim + off < off" using assms unsigned_less [of lim, where ?'a = nat] unsigned_less [of off, where ?'a = nat]
    by (simp add: word_less_nat_alt unat_word_ariths mod_if) linarith
  then have "\<not> off < lim + off" "off \<noteq> 0" by auto
  then show ?thesis
    by (simp add: optimize_offset_limit_pipes.simps optimize_offset_limit_pipes_internal_def)
qed

lemma uniq_limit_zero:
  "optimize_uniq_limit_pipes [Uniq pu, Limit 0] = [Uniq (pu\<lparr>uniq_limit := 0\<rparr>)]"
  by (auto simp: word_neq_0_conv)

subsection \<open>A chain of limits and offsets\<close>

text \<open>\<open>counted ps xs\<close>: the processors of \<open>ps\<close> after the rows \<open>xs\<close> have gone through.\<close>

fun counted :: "'o pipe list \<Rightarrow> 'row list \<Rightarrow> 'row processor list" where
  "counted [] xs = []"
| "counted (Limit n # ps) xs = ProcLimit n (of_nat (length xs)) # counted ps (take (unat n) xs)"
| "counted (Offset n # ps) xs = ProcOffset n (of_nat (length xs)) # counted ps (drop (unat n) xs)"
| "counted (_ # ps) xs = counted ps xs"

fun is_limit_offset :: "'o pipe \<Rightarrow> bool" where
  "is_limit_offset (Limit _) = True"
| "is_limit_offset (Offset _) = True"
| "is_limit_offset _ = False"

lemma unat_of_length: "length xs < 2 ^ 64 \<Longrightarrow> unat (of_nat (length xs) :: u64) = length xs"
  by (simp add: unat_of_nat take_bit_nat_eq_self)

lemma word_le_length: "length xs < 2 ^ 64 \<Longrightarrow> (of_nat (length xs) :: u64) \<le> n \<longleftrightarrow> length xs \<le> unat n"
  by (simp add: word_le_nat_alt unat_of_length)

lemma write_block_Nil:
  "list_all is_limit_offset ps \<Longrightarrow> write_block (counted ps xs) stop [] = (counted ps xs, stop, [])"
proof (cases ps)
  case (Cons p ps')
  then show "list_all is_limit_offset ps \<Longrightarrow> ?thesis" by (cases p) auto
qed simp

text \<open>\<open>step_ok ops ps\<close>: writing a block to the processors of \<open>ps\<close> adds what the reference adds, and the
  stop flag is set only when no later row can change the result.\<close>

definition step_ok :: "('row, 'o) pipe_ops \<Rightarrow> 'o pipe list \<Rightarrow> bool" where
  "step_ok ops ps \<longleftrightarrow> (\<forall>xs br stop. length (xs @ br) < 2 ^ 64 \<longrightarrow>
    (\<exists>stop' out. write_block (counted ps xs) stop br = (counted ps (xs @ br), stop', out) \<and>
      run ops ps (xs @ br) = run ops ps xs @ out \<and>
      (stop' \<longrightarrow> stop \<or> (\<forall>ys. run ops ps (xs @ br @ ys) = run ops ps (xs @ br)))))"

lemma step_okE:
  assumes "step_ok ops ps" "length (xs @ br) < 2 ^ 64"
  obtains stop' out where "write_block (counted ps xs) stop br = (counted ps (xs @ br), stop', out)"
    "run ops ps (xs @ br) = run ops ps xs @ out"
    "stop' \<longrightarrow> stop \<or> (\<forall>ys. run ops ps (xs @ br @ ys) = run ops ps (xs @ br))"
  using assms unfolding step_ok_def by metis

lemma step_okI:
  fixes ops :: "('row, 'o) pipe_ops"
  assumes "list_all is_limit_offset ps"
    and "\<And>xs br stop. br \<noteq> [] \<Longrightarrow> length (xs @ br) < 2 ^ 64 \<Longrightarrow>
      \<exists>stop' out. write_block (counted ps xs) stop br = (counted ps (xs @ br), stop', out) \<and>
        run ops ps (xs @ br) = run ops ps xs @ out \<and>
        (stop' \<longrightarrow> stop \<or> (\<forall>ys. run ops ps (xs @ br @ ys) = run ops ps (xs @ br)))"
  shows "step_ok ops ps"
  unfolding step_ok_def
proof (intro allI impI)
  fix xs br stop assume l: "length (xs @ br :: 'row list) < 2 ^ 64"
  show "\<exists>stop' out. write_block (counted ps xs) stop br = (counted ps (xs @ br), stop', out) \<and>
      run ops ps (xs @ br) = run ops ps xs @ out \<and>
      (stop' \<longrightarrow> stop \<or> (\<forall>ys. run ops ps (xs @ br @ ys) = run ops ps (xs @ br)))"
  proof (cases "br = []")
    case True
    then show ?thesis using write_block_Nil [OF assms(1), of xs stop] by auto
  qed (rule assms(2) [OF _ l])
qed

lemma step_ok_Offset:
  fixes ops :: "('row, 'o) pipe_ops"
  assumes ok: "step_ok ops ps" and lo: "list_all is_limit_offset ps"
  shows "step_ok ops (Offset n # ps)"
proof (rule step_okI)
  fix xs br :: "'row list" and stop
  assume br: "br \<noteq> []" and lx2: "length (xs @ br) < 2 ^ 64"
  then have lx: "length xs < 2 ^ 64" "length (xs @ br) < 2 ^ 64" by simp_all
  have sum: "of_nat (length xs) + of_nat (length br) = (of_nat (length (xs @ br)) :: u64)" by simp
  let ?thesis = "\<exists>stop' out. write_block (counted (Offset n # ps) xs) stop br = (counted (Offset n # ps) (xs @ br), stop', out) \<and>
        run ops (Offset n # ps) (xs @ br) = run ops (Offset n # ps) xs @ out \<and>
        (stop' \<longrightarrow> stop \<or> (\<forall>ys. run ops (Offset n # ps) (xs @ br @ ys) = run ops (Offset n # ps) (xs @ br)))"
  show ?thesis
  proof (cases "length (xs @ br) \<le> unat n")
    case True
    then show ?thesis using br sum word_le_length [OF lx(2), of n] by (auto simp: Let_def)
  next
    case False
    define br' where "br' = (if of_nat (length xs) \<ge> n then br else drop (unat (n - of_nat (length xs))) br)"
    have d: "drop (unat n) (xs @ br @ ys) = drop (unat n) xs @ br' @ ys" for ys
      using False lx(1) by (auto simp: br'_def word_le_nat_alt unat_sub unat_of_length)
    have "length (drop (unat n) xs @ br') < 2 ^ 64"
      using d [of "[]"] lx(2) by (metis append_Nil2 length_drop less_imp_diff_less)
    from step_okE [OF ok this, where stop = stop] obtain stop' out where
      w: "write_block (counted ps (drop (unat n) xs)) stop br' = (counted ps (drop (unat n) xs @ br'), stop', out)"
      "run ops ps (drop (unat n) xs @ br') = run ops ps (drop (unat n) xs) @ out"
      "stop' \<longrightarrow> stop \<or> (\<forall>ys. run ops ps (drop (unat n) xs @ br' @ ys) = run ops ps (drop (unat n) xs @ br'))"
      by metis
    have "write_block (counted (Offset n # ps) xs) stop br = (counted (Offset n # ps) (xs @ br), stop', out)"
      using br False sum word_le_length [OF lx(2), of n] w(1) d [of "[]"]
      by (simp add: Let_def flip: br'_def)
    with w(2,3) show ?thesis using d d [of "[]"] by auto
  qed
qed (use lo in simp)

lemma step_ok_Limit:
  fixes ops :: "('row, 'o) pipe_ops"
  assumes ok: "step_ok ops ps" and lo: "list_all is_limit_offset ps"
  shows "step_ok ops (Limit n # ps)"
proof (rule step_okI)
  fix xs br :: "'row list" and stop
  assume br: "br \<noteq> []" and lx2: "length (xs @ br) < 2 ^ 64"
  then have lx: "length xs < 2 ^ 64" "length (xs @ br) < 2 ^ 64" by simp_all
  have sum: "of_nat (length xs) + of_nat (length br) = (of_nat (length (xs @ br)) :: u64)" by simp
  let ?thesis = "\<exists>stop' out. write_block (counted (Limit n # ps) xs) stop br = (counted (Limit n # ps) (xs @ br), stop', out) \<and>
        run ops (Limit n # ps) (xs @ br) = run ops (Limit n # ps) xs @ out \<and>
        (stop' \<longrightarrow> stop \<or> (\<forall>ys. run ops (Limit n # ps) (xs @ br @ ys) = run ops (Limit n # ps) (xs @ br)))"
  show ?thesis
  proof (cases "length xs < unat n")
    case False
    then have "\<not> length (xs @ br) \<le> unat n" using br by (cases br) auto
    then have "write_block (counted (Limit n # ps) xs) stop br = (counted (Limit n # ps) (xs @ br), stop, [])"
      using br sum False word_le_length [OF lx(2), of n] lx(1)
      by (simp add: Let_def word_le_nat_alt unat_of_length)
    with False show ?thesis by simp
  next
    case True
    define br' where "br' = take (unat n - length xs) br"
    have t: "take (unat n) xs = xs" "take (unat n) (xs @ br) = xs @ br'" using True by (simp_all add: br'_def)
    have "length (xs @ br') < 2 ^ 64" using lx(2) by (simp add: br'_def)
    from step_okE [OF ok this, where stop = stop] obtain stop' out where
      w: "write_block (counted ps xs) stop br' = (counted ps (xs @ br'), stop', out)"
      "run ops ps (xs @ br') = run ops ps xs @ out"
      "stop' \<longrightarrow> stop \<or> (\<forall>ys. run ops ps (xs @ br' @ ys) = run ops ps (xs @ br'))"
      by auto
    let ?stop = "if unat n \<le> length (xs @ br) then True else stop'"
    have k: "unat (n - of_nat (length xs)) = unat n - length xs"
      using True lx(1) by (simp add: unat_sub word_le_nat_alt unat_of_length)
    have e: "of_nat (length (xs @ br)) = n \<longleftrightarrow> length (xs @ br) = unat n"
      using unat_of_length [OF lx(2)] by (metis word_unat_eq_iff)
    have W: "write_block (counted (Limit n # ps) xs) stop br = (counted (Limit n # ps) (xs @ br), ?stop, out)"
    proof (cases "length (xs @ br) \<le> unat n")
      case le: True
      then have "br' = br" by (simp add: br'_def)
      with br sum le word_le_length [OF lx(2), of n] w(1) t e show ?thesis by (simp add: Let_def)
    next
      case gt: False
      have "\<not> n \<le> of_nat (length xs)" using True lx(1) by (simp add: word_le_nat_alt unat_of_length)
      with br sum gt word_le_length [OF lx(2), of n] w(1) t k show ?thesis
        by (simp add: Let_def br'_def)
    qed
    have A: "run ops (Limit n # ps) (xs @ br @ ys) = run ops (Limit n # ps) (xs @ br)" if "unat n \<le> length (xs @ br)" for ys
      using that by simp
    have B: "run ops (Limit n # ps) (xs @ br @ ys) = run ops (Limit n # ps) (xs @ br)"
      if "\<not> unat n \<le> length (xs @ br)" "\<forall>ys. run ops ps (xs @ br' @ ys) = run ops ps (xs @ br')" for ys
      using that by (simp add: br'_def)
    have "?stop \<longrightarrow> stop \<or> (\<forall>ys. run ops (Limit n # ps) (xs @ br @ ys) = run ops (Limit n # ps) (xs @ br))"
      using A B w(3) by (cases "unat n \<le> length (xs @ br)") metis+
    moreover have "run ops (Limit n # ps) (xs @ br) = run ops (Limit n # ps) xs @ out" using w(2) t by simp
    ultimately show ?thesis using W by (intro exI conjI)
  qed
qed (use lo in simp)

lemma limit_offset_step_ok: "list_all is_limit_offset ps \<Longrightarrow> step_ok ops ps"
proof (induction ps)
  case Nil
  show ?case by (auto simp: step_ok_def)
next
  case (Cons p ps)
  then show ?case by (cases p) (auto intro: step_ok_Offset step_ok_Limit)
qed

lemma new_processors_limit_offset:
  "list_all is_limit_offset ps \<Longrightarrow>
    new_processors ps stop = Some (counted ps [], stop \<or> (\<exists>p \<in> set ps. p = Limit 0))"
proof (induction ps)
  case (Cons p ps)
  then show ?case by (cases p) auto
qed simp

lemma run_Limit0: "list_all is_limit_offset ps \<Longrightarrow> run ops ps [] = []"
proof (induction ps)
  case (Cons p ps)
  then show ?case by (cases p) auto
qed simp

lemma run_stopped: "list_all is_limit_offset ps \<Longrightarrow> Limit 0 \<in> set ps \<Longrightarrow> run ops ps xs = []"
proof (induction ps arbitrary: xs)
  case (Cons p ps)
  then show ?case using run_Limit0 by (cases "p = Limit 0") auto
qed simp

lemma search_stopped: "search_blocks pps True bs = (pps, True, [])"
  by (induction bs) simp_all

lemma search_blocks_counted:
  assumes ok: "step_ok ops ps" and "length (xs @ concat bs) < 2 ^ 64"
    and "stop \<longrightarrow> (\<forall>ys. run ops ps (xs @ ys) = run ops ps xs)"
  shows "\<exists>pps stop' out. search_blocks (counted ps xs) stop bs = (pps, stop', out) \<and>
    run ops ps (xs @ concat bs) = run ops ps xs @ out \<and> (\<exists>zs. pps = counted ps zs)"
  using assms(2,3)
proof (induction bs arbitrary: xs stop)
  case Nil
  then show ?case by auto
next
  case (Cons b bs)
  show ?case
  proof (cases stop)
    case True
    then show ?thesis using Cons.prems(2) by (auto simp: search_stopped)
  next
    case False
    have "length (xs @ b) < 2 ^ 64" using Cons.prems(1) by simp
    then obtain stop1 out where w: "write_block (counted ps xs) stop b = (counted ps (xs @ b), stop1, out)"
      "run ops ps (xs @ b) = run ops ps xs @ out"
      "stop1 \<longrightarrow> stop \<or> (\<forall>ys. run ops ps (xs @ b @ ys) = run ops ps (xs @ b))"
      by (rule step_okE [OF ok])
    obtain pps stop' out' where r: "search_blocks (counted ps (xs @ b)) stop1 bs = (pps, stop', out')"
      "run ops ps ((xs @ b) @ concat bs) = run ops ps (xs @ b) @ out'" "\<exists>zs. pps = counted ps zs"
      using Cons.IH [of "xs @ b" stop1] Cons.prems(1) w(3) False by auto
    with w False show ?thesis by simp
  qed
qed

lemma flush_counted: "list_all is_limit_offset ps \<Longrightarrow> flush_all ops (counted ps zs) stop = []"
proof (induction ps arbitrary: zs)
  case (Cons p ps)
  then show ?case by (cases p) auto
qed simp

lemma run_pipes_limit_offset:
  assumes lo: "list_all is_limit_offset ps" and "length (concat blocks) < 2 ^ 64"
  shows "run_pipes ops ps blocks = Some (run ops ps (concat blocks))"
proof -
  let ?stop = "\<exists>p \<in> set ps. p = Limit 0"
  have "?stop \<longrightarrow> (\<forall>ys. run ops ps ([] @ ys) = run ops ps [])"
    using run_stopped [OF lo] by metis
  then obtain pps stop' out zs where s: "search_blocks (counted ps []) ?stop blocks = (pps, stop', out)"
    "run ops ps ([] @ concat blocks) = run ops ps [] @ out" "pps = counted ps zs"
    using search_blocks_counted [OF limit_offset_step_ok [OF lo], of "[]" blocks ?stop] assms(2)
    by (metis append_Nil)
  then show ?thesis
    by (simp add: run_pipes_def new_processors_limit_offset [OF lo] run_Limit0 [OF lo] flush_counted [OF lo])
qed

text \<open>A limit in front of a sort: the flag that the limit sets makes the sort discard its rows.\<close>

lemma limit_sort_empty:
  assumes "0 < n" "unat n \<le> length rows" "length rows < 2 ^ 64"
  shows "run_pipes ops [Limit n, Sort ps] [rows] = Some []"
proof -
  have n: "n \<noteq> 0" "rows \<noteq> []" using assms by (auto simp: word_less_nat_alt)
  have l: "(of_nat (length rows) :: u64) \<le> n \<longleftrightarrow> length rows = unat n"
    using assms(2,3) word_le_length [of rows n] by linarith
  have e: "of_nat (length rows) = n \<longleftrightarrow> length rows = unat n"
    using unat_of_length [OF assms(3)] by (metis word_unat_eq_iff)
  show ?thesis
    using n l e by (simp add: run_pipes_def Let_def word_le_nat_alt)
qed

text \<open>The remote half of a sort with an offset and no limit returns too few rows.\<close>

definition srt_length :: "('row, 'o) pipe_ops \<Rightarrow> bool" where
  "srt_length ops \<longleftrightarrow> (\<forall>fs d xs. length (srt ops fs d xs) = length xs)"

lemma srt_length_Nil: "srt_length ops \<Longrightarrow> srt_Nil ops"
  unfolding srt_length_def srt_Nil_def by (metis length_0_conv list.size(3))

lemma sort_split_offset_only:
  assumes len: "srt_length ops" and ps: "partition_by_fields ps = []" "sort_limit ps = 0" "0 < sort_offset ps"
  shows "run_sort ops ps (run_sort ops (fst (sort_split_to_remote_and_local ps)) rows) = []"
proof -
  let ?r = "fst (sort_split_to_remote_and_local ps)"
  note nil = srt_length_Nil [OF len]
  have r: "sort_offset ?r = 0" "sort_limit ?r = sort_offset ps" "partition_by_fields ?r = []"
    using ps by (simp_all add: sort_split_to_remote_and_local_def Let_def)
  have w: "window_end ?r < 2 ^ 64" "window_end ps < 2 ^ 64"
    using unsigned_less [of "sort_offset ps", where ?'a = nat] r ps by (simp_all add: window_end_def)
  have "length (run_sort ops ?r rows) \<le> unat (sort_offset ps)"
    using run_sort_limited [OF r(3) w(1), of ops rows] r ps by auto
  then show ?thesis
    using run_sort_unlimited [OF ps(2), of ops] len by (simp add: sorted_rows_def srt_length_def)
qed

subsection \<open>Properties\<close>

text \<open>Rows that are numbers, sorted by their value: an instance of the parameters for the witnesses.\<close>

definition demo_ops :: "(nat, unit) pipe_ops" where
  "demo_ops = \<lparr>srt = (\<lambda>_ desc xs. if desc then rev (sort xs) else sort xs),
     top_rows = (\<lambda>_ desc n xs. take n (if desc then rev (sort xs) else sort xs)), field_value = (\<lambda>_ _. []),
     add_rank = (\<lambda>_ _ r. r), uniq_rows = (\<lambda>_. remdups), other = (\<lambda>_ xs. xs)\<rparr>"

definition demo_sort :: PipeSort where
  "demo_sort = \<lparr>by_fields = [], sort_is_desc = False, sort_offset = 0, sort_limit = 0,
     rank_field_name = [], partition_by_fields = []\<rparr>"





text \<open>C21: The chain of \<open>limit\<close> and \<open>offset\<close> processors computes the prefix and suffix it stands for,
  however the rows are cut into blocks: the counters, the truncation of the block in which a bound
  falls and the stop flag that ends the search early never lose, repeat or reorder a row.\<close>

theorem limit_offset_chain_correct:
  assumes "list_all is_limit_offset ps" "length (concat blocks) < 2 ^ 64"
  shows "run_pipes ops ps blocks = Some (run ops ps (concat blocks))"
  by (rule run_pipes_limit_offset [OF assms])

theorem limit_offset_chain_correct_witness:
  "run_pipes demo_ops [Offset 1, Limit 2] [[5, 6], [], [7, 8], [9]] = Some [6, 7]"
  using limit_offset_chain_correct [of "[Offset 1, Limit 2]" "[[5, 6], [], [7, 8], [9]]" demo_ops]
  by simp

text \<open>C40: The overflow condition is needed. Whenever an offset and a limit behind it add up to \<open>2 ^ 64\<close> or
  more, so that the pair stands for all rows behind the offset, their sum wraps, the optimizer
  rewrites the pair to \<open>limit 0\<close>, and the query returns nothing.\<close>

theorem optimize_pipes_overflow:
  assumes "2 ^ 64 \<le> unat off + unat lim" "length rows < 2 ^ 64"
  shows "run ops (optimize_offset_limit_pipes [Offset off, Limit lim]) rows = [] \<and>
    run ops [Offset off, Limit lim] rows = drop (unat off) rows"
  using assms by (simp add: optimize_wraps)

theorem optimize_pipes_overflow_witness:
  "run demo_ops (optimize_offset_limit_pipes [Offset 1, Limit (- 1)]) [4, 3] = [] \<and>
   run demo_ops [Offset 1, Limit (- 1)] [4, 3] = [3]"
proof -
  have "unat (- 1 :: u64) = 2 ^ 64 - 1" by (simp add: unsigned_minus_1_eq_mask mask_eq_exp_minus_1)
  then show ?thesis using optimize_pipes_overflow [of 1 "- 1" "[4, 3]" demo_ops] by simp
qed

text \<open>Folding \<open>limit 0\<close> into a \<open>uniq\<close> pipe loses the limit: the merged pipe reads 0 as "no limit"
  and returns every distinct row, where the original query returns none.\<close>

lemma uniq_limit_zero_unlimited:
  "run ops (optimize_uniq_limit_pipes [Uniq pu, Limit 0]) rows = uniq_rows ops (uniq_by_fields pu) rows \<and>
   run ops [Uniq pu, Limit 0] rows = []"
  unfolding uniq_limit_zero by (simp add: run_uniq_def Let_def)

text \<open>C39: A limit in front of a sort empties the result. The limit reports through the stop flag that
  it needs no more rows; the sort behind it shares the flag and takes it for a cancelled query, so
  it drops the rows it has collected, although the pipes stand for the sorted first \<open>n\<close> rows. Stated for one
  block, in which the limit is reached.\<close>

theorem limit_before_sort_loses_rows:
  assumes "0 < n" "unat n \<le> length rows" "length rows < 2 ^ 64"
  shows "run_pipes ops [Limit n, Sort ps] [rows] = Some []"
  by (rule limit_sort_empty [OF assms])

theorem limit_before_sort_loses_rows_witness:
  "run_pipes demo_ops [Limit 2, Sort demo_sort] [[5, 3, 4]] = Some [] \<and>
   run demo_ops [Limit 2, Sort demo_sort] [5, 3, 4] = [3, 5]"
  using limit_before_sort_loses_rows [of 2 "[5, 3, 4]" demo_ops demo_sort]
  by (simp add: demo_sort_def demo_ops_def run_sort_def)

text \<open>Splitting a sort with an offset and no limit between remote nodes and the local node
  returns nothing: the remote part is limited to \<open>offset\<close> rows, all of which the local part skips.\<close>

lemma sort_split_without_limit_empty:
  assumes "srt_length ops" "partition_by_fields ps = []" "sort_limit ps = 0" "0 < sort_offset ps"
  shows "run_sort ops ps (run_sort ops (fst (sort_split_to_remote_and_local ps)) rows) = []"
  by (rule sort_split_offset_only [OF assms])

end
