(* ===== verification/Topk.thy ===== *)
theory Topk
  imports Pipes "HOL-Library.Multiset"
begin

text \<open>
  The bounded heap of \<^verbatim>\<open>pipe_sort_topk.rs\<close>, which keeps the best \<open>offset + limit\<close> rows of a
  partition: \<open>add_row\<close>, \<open>heap_push\<close>, \<open>heap_fix0\<close> and the row comparison \<open>topk_less\<close>. The heap is an
  array whose root is the worst kept row. The locale \<open>topk_order\<close> states what the heap needs of the
  comparison (a strict weak order on the rows it holds); inside it the heap operations are shown to
  keep exactly the best rows. The comparison of rows by \<open>_time\<close> is interpreted in it.

  Parameters: \<open>less_value_bytes\<close> and \<open>ts_bytes\<close>, which compare and print field values.
\<close>

unbundle bit_operations_syntax

subsection \<open>Definitions\<close>

record PipeTopkRow =
  by_columns :: "bytes list"
  by_columns_is_time :: "bool list"
  other_columns :: "(bytes \<times> bytes) list"
  timestamp :: i64

text \<open>The loop of \<open>topk_less\<close> from column \<open>i\<close> on; the indices are in range when the row has a time flag per column.\<close>

function topk_less_from ::
  "(bytes \<Rightarrow> bytes \<Rightarrow> bool) \<Rightarrow> (i64 \<Rightarrow> bytes) \<Rightarrow> PipeSort \<Rightarrow> PipeTopkRow \<Rightarrow> PipeTopkRow \<Rightarrow> nat \<Rightarrow> bool" where
  "topk_less_from less_value ts_bytes ps a b i =
    (if i < length (by_columns a) then
       (let is_desc = sort_is_desc ps;
            is_desc = (if by_fields ps \<noteq> [] \<and> snd (by_fields ps ! i) then \<not> is_desc else is_desc);
            is_time_a = by_columns_is_time a ! i;
            is_time_b = by_columns_is_time b ! i
        in
        if is_time_a \<and> is_time_b then
          (if timestamp a = timestamp b then topk_less_from less_value ts_bytes ps a b (i + 1)
           else if is_desc then timestamp b <s timestamp a
           else timestamp a <s timestamp b)
        else
          (let va = (if is_time_a then ts_bytes (timestamp a) else by_columns a ! i);
               vb = (if is_time_b then ts_bytes (timestamp a) else by_columns b ! i)
           in if va = vb then topk_less_from less_value ts_bytes ps a b (i + 1)
              else if is_desc then less_value vb va
              else less_value va vb))
     else False)"
  by pat_completeness auto
termination
  by (relation "measure (\<lambda>(_, _, _, a, _, i). length (by_columns a) - i)") auto

declare topk_less_from.simps [simp del]

definition topk_less ::
  "(bytes \<Rightarrow> bytes \<Rightarrow> bool) \<Rightarrow> (i64 \<Rightarrow> bytes) \<Rightarrow> PipeSort \<Rightarrow> PipeTopkRow \<Rightarrow> PipeTopkRow \<Rightarrow> bool" where
  "topk_less less_value ts_bytes ps a b = topk_less_from less_value ts_bytes ps a b 0"

definition swap :: "'r list \<Rightarrow> nat \<Rightarrow> nat \<Rightarrow> 'r list" where
  "swap rows i j = rows[i := rows ! j, j := rows ! i]"

text \<open>\<open>heap_less(rows, ps, i, j)\<close> is \<open>topk_less(ps, rows[j], rows[i])\<close>; \<open>lt\<close> is \<open>topk_less(ps, _, _)\<close>.\<close>

definition heap_less :: "('r \<Rightarrow> 'r \<Rightarrow> bool) \<Rightarrow> 'r list \<Rightarrow> nat \<Rightarrow> nat \<Rightarrow> bool" where
  "heap_less lt rows i j = lt (rows ! j) (rows ! i)"

fun heap_push_loop :: "('r \<Rightarrow> 'r \<Rightarrow> bool) \<Rightarrow> 'r list \<Rightarrow> nat \<Rightarrow> 'r list" where
  "heap_push_loop lt rows j =
    (if j > 0 then
       (let parent = (j - 1) div 2 in
        if \<not> heap_less lt rows j parent then rows
        else heap_push_loop lt (swap rows j parent) parent)
     else rows)"

declare heap_push_loop.simps [simp del]

definition heap_push :: "('r \<Rightarrow> 'r \<Rightarrow> bool) \<Rightarrow> 'r list \<Rightarrow> 'r \<Rightarrow> 'r list" where
  "heap_push lt rows r = (let rows = rows @ [r] in heap_push_loop lt rows (length rows - 1))"

function heap_fix_loop :: "('r \<Rightarrow> 'r \<Rightarrow> bool) \<Rightarrow> 'r list \<Rightarrow> nat \<Rightarrow> 'r list" where
  "heap_fix_loop lt rows i =
    (let n = length rows; l = 2 * i + 1 in
     if l \<ge> n then rows
     else
       (let r = l + 1; j = (if r < n \<and> heap_less lt rows r l then r else l) in
        if \<not> heap_less lt rows j i then rows
        else heap_fix_loop lt (swap rows i j) j))"
  by pat_completeness auto
termination
  by (relation "measure (\<lambda>(_, rows, i). length rows - i)") (auto simp: swap_def Let_def split: if_splits)

declare heap_fix_loop.simps [simp del]

definition heap_fix0 :: "('r \<Rightarrow> 'r \<Rightarrow> bool) \<Rightarrow> 'r list \<Rightarrow> 'r list" where
  "heap_fix0 lt rows = heap_fix_loop lt rows 0"

text \<open>
  \<open>add_row\<close> on the heap of the row's partition. The memory budget is left out. Reading the root
  of an empty heap panics.
\<close>

definition add_row :: "('r \<Rightarrow> 'r \<Rightarrow> bool) \<Rightarrow> PipeSort \<Rightarrow> 'r list \<Rightarrow> 'r \<Rightarrow> ('r list, unit) outcome" where
  "add_row lt ps rs tmp =
    (let max_rows = unat (sort_offset ps + sort_limit ps) in
     if length rs \<ge> max_rows then
       (if rs = [] then Panic
        else if \<not> lt tmp (rs ! 0) then Ok rs
        else Ok (heap_fix0 lt (rs[0 := tmp])))
     else Ok (heap_push lt rs tmp))"

primrec add_rows :: "('r \<Rightarrow> 'r \<Rightarrow> bool) \<Rightarrow> PipeSort \<Rightarrow> 'r list \<Rightarrow> 'r list \<Rightarrow> ('r list, unit) outcome" where
  "add_rows lt ps rs [] = Ok rs"
| "add_rows lt ps rs (r # rows) = obind (add_row lt ps rs r) (\<lambda>rs. add_rows lt ps rs rows)"

subsection \<open>The heap over a strict weak order\<close>

definition par :: "nat \<Rightarrow> nat" where
  "par i = (i - 1) div 2"

lemma par_less [simp]: "0 < i \<Longrightarrow> par i < i"
  by (auto simp: par_def)

lemma par_children: "0 < c \<Longrightarrow> par c = i \<longleftrightarrow> c = 2 * i + 1 \<or> c = 2 * i + 2"
  by (auto simp: par_def)

lemma length_swap_rows [simp]: "length (swap rows i j) = length rows"
  by (simp add: swap_def)

lemma mset_swap_rows: "i < length rows \<Longrightarrow> j < length rows \<Longrightarrow> mset (swap rows i j) = mset rows"
  by (simp add: swap_def mset_swap)

lemma set_swap_rows: "i < length rows \<Longrightarrow> j < length rows \<Longrightarrow> set (swap rows i j) = set rows"
  using mset_swap_rows mset_eq_setD by blast

lemma nth_swap:
  "i < length rows \<Longrightarrow> j < length rows \<Longrightarrow> k < length rows \<Longrightarrow>
    swap rows i j ! k = (if k = i then rows ! j else if k = j then rows ! i else rows ! k)"
  by (auto simp: swap_def nth_list_update)

locale topk_order =
  fixes lt :: "'r \<Rightarrow> 'r \<Rightarrow> bool"
    and C :: "'r set"
  assumes asym: "a \<in> C \<Longrightarrow> b \<in> C \<Longrightarrow> lt a b \<Longrightarrow> \<not> lt b a"
    and trans: "a \<in> C \<Longrightarrow> b \<in> C \<Longrightarrow> c \<in> C \<Longrightarrow> lt a b \<Longrightarrow> lt b c \<Longrightarrow> lt a c"
    and neg_trans: "a \<in> C \<Longrightarrow> b \<in> C \<Longrightarrow> c \<in> C \<Longrightarrow> \<not> lt a b \<Longrightarrow> \<not> lt b c \<Longrightarrow> \<not> lt a c"
begin

text \<open>\<open>holds rs c p\<close>: the row at \<open>c\<close> is not worse than the row at \<open>p\<close>.\<close>

definition holds :: "'r list \<Rightarrow> nat \<Rightarrow> nat \<Rightarrow> bool" where
  "holds rs c p \<longleftrightarrow> \<not> lt (rs ! p) (rs ! c)"

definition heap :: "'r list \<Rightarrow> bool" where
  "heap rs \<longleftrightarrow> (\<forall>i < length rs. 0 < i \<longrightarrow> holds rs i (par i))"

text \<open>The heap order below the positions from \<open>k\<close> on.\<close>

definition heap_from :: "nat \<Rightarrow> 'r list \<Rightarrow> bool" where
  "heap_from k rs \<longleftrightarrow> (\<forall>i < length rs. 0 < i \<and> k \<le> par i \<longrightarrow> holds rs i (par i))"

lemma heap_from_0: "heap_from 0 rs = heap rs"
  by (simp add: heap_from_def heap_def)

lemma holds_trans:
  "set rs \<subseteq> C \<Longrightarrow> a < length rs \<Longrightarrow> b < length rs \<Longrightarrow> c < length rs \<Longrightarrow> holds rs a b \<Longrightarrow> holds rs b c \<Longrightarrow> holds rs a c"
  unfolding holds_def using neg_trans [of "rs ! c" "rs ! b" "rs ! a"] by (meson nth_mem subsetD)

lemma less_holds:
  "set rs \<subseteq> C \<Longrightarrow> a < length rs \<Longrightarrow> b < length rs \<Longrightarrow> lt (rs ! a) (rs ! b) \<Longrightarrow> holds rs a b"
  unfolding holds_def using asym by (meson nth_mem subsetD)

lemma heap_root: "heap rs \<Longrightarrow> set rs \<subseteq> C \<Longrightarrow> i < length rs \<Longrightarrow> holds rs i 0"
proof (induction i rule: less_induct)
  case (less i)
  show ?case
  proof (cases "i = 0")
    case True
    then have "rs ! 0 \<in> C" using less.prems nth_mem [of 0 rs] by auto
    then show ?thesis using asym [of "rs ! 0" "rs ! 0"] True by (auto simp: holds_def)
  next
    case False
    then have "holds rs i (par i)" "holds rs (par i) 0" "par i < length rs"
      using less by (auto simp: heap_def intro: less_trans [OF par_less])
    moreover have "0 < length rs" using less.prems by linarith
    ultimately show ?thesis using holds_trans [of rs i "par i" 0] less.prems by blast
  qed
qed

text \<open>Sifting up: only the row at \<open>j\<close> may be worse than its parent.\<close>

definition up_inv :: "'r list \<Rightarrow> nat \<Rightarrow> bool" where
  "up_inv rs j \<longleftrightarrow>
    (\<forall>i < length rs. 0 < i \<and> i \<noteq> j \<longrightarrow> holds rs i (par i)) \<and>
    (\<forall>i < length rs. 0 < i \<and> par i = j \<and> 0 < j \<longrightarrow> holds rs i (par j))"

lemma up_inv_step:
  assumes inv: "up_inv rs j" and C: "set rs \<subseteq> C" and j: "0 < j" "j < length rs"
    and l: "lt (rs ! par j) (rs ! j)"
  shows "up_inv (swap rs j (par j)) (par j)"
proof -
  let ?s = "swap rs j (par j)"
  have pj: "par j < length rs" "par j \<noteq> j" using j par_less [of j] by linarith+
  have n: "?s ! k = (if k = j then rs ! par j else if k = par j then rs ! j else rs ! k)" if "k < length rs" for k
    using nth_swap [OF j(2) pj(1) that] .
  have pjj: "holds rs (par j) j" using less_holds [OF C pj(1) j(2) l] .
  have 1: "holds ?s i (par i)" if i: "i < length rs" "0 < i" "i \<noteq> par j" for i
  proof -
    have pi: "par i < length rs" using i par_less [of i] by linarith
    consider "i = j" | "i \<noteq> j" "par i = j" | "i \<noteq> j" "par i = par j" | "i \<noteq> j" "par i \<noteq> j" "par i \<noteq> par j" by blast
    then show ?thesis
    proof cases
      case 1
      then show ?thesis using pjj pj j by (simp add: holds_def n)
    next
      case 2
      then have "holds rs i (par j)" using inv i j by (auto simp: up_inv_def)
      with 2 show ?thesis using i pi by (simp add: holds_def n)
    next
      case 3
      then have "holds rs i (par j)" using inv i by (auto simp: up_inv_def)
      then have "holds rs i j" using holds_trans [OF C i(1) pj(1) j(2)] pjj by blast
      with 3 show ?thesis using i pi pj by (simp add: holds_def n)
    next
      case 4
      then show ?thesis using inv i pi by (auto simp: up_inv_def holds_def n)
    qed
  qed
  have 2: "holds ?s i (par (par j))" if i: "i < length rs" "0 < i" "par i = par j" "0 < par j" for i
  proof -
    have pp: "par (par j) < length rs" "par (par j) \<noteq> par j" "par (par j) \<noteq> j"
      using par_less [OF i(4)] par_less [OF j(1)] pj by linarith+
    have pjpp: "holds rs (par j) (par (par j))" using inv i pj by (auto simp: up_inv_def)
    show ?thesis
    proof (cases "i = j")
      case True
      then show ?thesis using pjpp j pp by (simp add: holds_def n)
    next
      case False
      then have "holds rs i (par j)" using inv i by (metis up_inv_def)
      then have "holds rs i (par (par j))" using holds_trans [OF C i(1) pj(1) pp(1)] pjpp by blast
      moreover have "i \<noteq> par j" using i(3) par_less [OF i(2)] by auto
      ultimately show ?thesis using False i pp by (simp add: holds_def n)
    qed
  qed
  from 1 2 show ?thesis by (simp add: up_inv_def)
qed

lemma heap_push_loop_heap:
  "up_inv rs j \<Longrightarrow> set rs \<subseteq> C \<Longrightarrow> j < length rs \<Longrightarrow>
    heap (heap_push_loop lt rs j) \<and> mset (heap_push_loop lt rs j) = mset rs"
proof (induction j arbitrary: rs rule: less_induct)
  case (less j)
  show ?case
  proof (cases "0 < j \<and> lt (rs ! par j) (rs ! j)")
    case True
    have p: "par j < length rs" "par j < j" using less.prems True par_less [of j] by linarith+
    have "heap (heap_push_loop lt (swap rs j (par j)) (par j)) \<and>
        mset (heap_push_loop lt (swap rs j (par j)) (par j)) = mset (swap rs j (par j))"
      using less.prems True up_inv_step [of rs j] p by (intro less.IH) (auto simp: set_swap_rows)
    moreover have "heap_push_loop lt rs j = heap_push_loop lt (swap rs j (par j)) (par j)"
      using True by (subst heap_push_loop.simps) (simp add: Let_def heap_less_def par_def)
    ultimately show ?thesis using p less.prems by (simp add: mset_swap_rows)
  next
    case False
    then have "heap_push_loop lt rs j = rs"
      by (subst heap_push_loop.simps) (auto simp: Let_def heap_less_def par_def)
    moreover have "heap rs"
      using False less.prems by (auto simp: heap_def up_inv_def holds_def)
    ultimately show ?thesis by simp
  qed
qed

lemma heap_push_heap:
  assumes "heap rs" "set rs \<subseteq> C" "r \<in> C"
  shows "heap (heap_push lt rs r) \<and> mset (heap_push lt rs r) = add_mset r (mset rs)"
proof -
  have "up_inv (rs @ [r]) (length rs)"
    unfolding up_inv_def
  proof (intro conjI allI impI)
    fix i assume "i < length (rs @ [r])" "0 < i \<and> i \<noteq> length rs"
    then have "i < length rs" "0 < i" by auto
    moreover from this have "par i < length rs" using par_less [of i] by linarith
    ultimately show "holds (rs @ [r]) i (par i)" using assms(1) by (simp add: heap_def holds_def nth_append)
  next
    fix i assume "i < length (rs @ [r])" "0 < i \<and> par i = length rs \<and> 0 < length rs"
    then show "holds (rs @ [r]) i (par (length rs))" using par_less [of i] by auto
  qed
  from heap_push_loop_heap [OF this] assms show ?thesis by (simp add: heap_push_def)
qed

text \<open>Sifting down: only the children of \<open>i\<close> may be worse than \<open>i\<close>.\<close>

definition down_inv :: "nat \<Rightarrow> 'r list \<Rightarrow> nat \<Rightarrow> bool" where
  "down_inv k rs i \<longleftrightarrow>
    (\<forall>c < length rs. 0 < c \<and> k \<le> par c \<and> par c \<noteq> i \<longrightarrow> holds rs c (par c)) \<and>
    (\<forall>c < length rs. 0 < c \<and> par c = i \<and> 0 < i \<and> k \<le> par i \<longrightarrow> holds rs c (par i))"

lemma down_inv_step:
  assumes inv: "down_inv k rs i" and k: "k \<le> i" and C: "set rs \<subseteq> C" and j: "0 < j" "j < length rs" "par j = i"
    and best: "\<And>c. c < length rs \<Longrightarrow> 0 < c \<Longrightarrow> par c = i \<Longrightarrow> holds rs c j"
    and l: "lt (rs ! i) (rs ! j)"
  shows "down_inv k (swap rs i j) j"
proof -
  let ?s = "swap rs i j"
  have ij: "i < length rs" "i \<noteq> j" using j par_less [of j] by auto
  have n: "?s ! m = (if m = i then rs ! j else if m = j then rs ! i else rs ! m)" if "m < length rs" for m
    using nth_swap [OF ij(1) j(2) that] .
  have hij: "holds rs i j" using less_holds [OF C ij(1) j(2) l] .
  have 1: "holds ?s c (par c)" if c: "c < length rs" "0 < c" "par c \<noteq> j" "k \<le> par c" for c
  proof -
    have pc: "par c < length rs" using c par_less [of c] by linarith
    consider "par c = i" "c = j" | "par c = i" "c \<noteq> j" | "par c \<noteq> i" "c = i" | "par c \<noteq> i" "c \<noteq> i" by blast
    then show ?thesis
    proof cases
      case 1
      then show ?thesis using hij ij j by (simp add: holds_def n)
    next
      case 2
      then have "c \<noteq> i" using par_less [OF c(2)] by auto
      with 2 best [OF c(1,2)] show ?thesis using c ij by (simp add: holds_def n)
    next
      case 3
      then have "holds rs j (par i)" using inv j c by (auto simp: down_inv_def)
      with 3 c pc show ?thesis by (simp add: holds_def n)
    next
      case 4
      then have "holds rs c (par c)" using inv c by (auto simp: down_inv_def)
      moreover have "c \<noteq> j" using 4 j by auto
      ultimately show ?thesis using 4 c pc by (simp add: holds_def n)
    qed
  qed
  have 2: "holds ?s c (par j)" if c: "c < length rs" "0 < c" "par c = j" for c
  proof -
    have "k \<le> j" using k j par_less [of j] by linarith
    then have "holds rs c j" using inv c ij by (auto simp: down_inv_def)
    moreover have "c \<noteq> i" "c \<noteq> j" using par_less [OF c(2)] par_less [OF j(1)] c j by auto
    ultimately show ?thesis using c ij j by (simp add: holds_def n)
  qed
  from 1 2 show ?thesis by (simp add: down_inv_def)
qed

text \<open>The child that the loop picks is the worse one of the two.\<close>

lemma best_child:
  assumes C: "set rs \<subseteq> C" and l: "2 * i + 1 < length rs"
    and j: "j = (if 2 * i + 2 < length rs \<and> lt (rs ! (2 * i + 1)) (rs ! (2 * i + 2)) then 2 * i + 2 else 2 * i + 1)"
  shows "0 < j" "j < length rs" "par j = i"
    "c < length rs \<Longrightarrow> 0 < c \<Longrightarrow> par c = i \<Longrightarrow> holds rs c j"
proof -
  show jj: "0 < j" "j < length rs" "par j = i" using l by (auto simp: j par_def)
  assume c: "c < length rs" "0 < c" "par c = i"
  have refl: "holds rs k k" if "k < length rs" for k
    using asym [of "rs ! k" "rs ! k"] subsetD [OF C nth_mem [OF that]] by (auto simp: holds_def)
  from c consider "c = 2 * i + 1" | "c = 2 * i + 2" using par_children by blast
  then show "holds rs c j"
  proof cases
    case 1
    then show ?thesis using c refl [OF c(1)] less_holds [OF C c(1), of "2 * i + 2"] by (auto simp: j)
  next
    case 2
    then show ?thesis using c refl [OF c(1)] by (auto simp: j holds_def)
  qed
qed

lemma heap_fix_loop_heap:
  "down_inv k rs i \<Longrightarrow> k \<le> i \<Longrightarrow> set rs \<subseteq> C \<Longrightarrow>
    heap_from k (heap_fix_loop lt rs i) \<and> mset (heap_fix_loop lt rs i) = mset rs"
proof (induction "length rs - i" arbitrary: rs i rule: less_induct)
  case less
  show ?case
  proof (cases "2 * i + 1 < length rs")
    case False
    then have "heap_fix_loop lt rs i = rs" by (subst heap_fix_loop.simps) simp
    moreover have "par c \<noteq> i" if "c < length rs" "0 < c" for c using False that par_children [of c i] by auto
    then have "heap_from k rs" using less.prems(1) by (auto simp: heap_from_def down_inv_def)
    ultimately show ?thesis by simp
  next
    case True
    define j where "j = (if 2 * i + 2 < length rs \<and> lt (rs ! (2 * i + 1)) (rs ! (2 * i + 2)) then 2 * i + 2 else 2 * i + 1)"
    note b = best_child [OF less.prems(3) True j_def]
    have step: "heap_fix_loop lt rs i = (if \<not> lt (rs ! i) (rs ! j) then rs else heap_fix_loop lt (swap rs i j) j)"
      using True by (subst heap_fix_loop.simps) (simp add: Let_def heap_less_def j_def)
    have ij: "i < length rs" "i < j" using b(1,2,3) par_less [of j] by auto
    show ?thesis
    proof (cases "lt (rs ! i) (rs ! j)")
      case True
      have d: "down_inv k (swap rs i j) j" by (rule down_inv_step [OF less.prems b(1,2,3) b(4) True])
      have c: "set (swap rs i j) \<subseteq> C" using set_swap_rows [OF ij(1) b(2)] less.prems(3) by simp
      have "length (swap rs i j) - j < length rs - i" using ij b(2) by simp
      from less.hyps [OF this d _ c] less.prems(2) ij(2) have "heap_from k (heap_fix_loop lt (swap rs i j) j) \<and>
          mset (heap_fix_loop lt (swap rs i j) j) = mset (swap rs i j)" by simp
      with True step ij b(2) show ?thesis by (simp add: mset_swap_rows)
    next
      case False
      have "holds rs c (par c)" if "c < length rs" "0 < c" "k \<le> par c" for c
      proof (cases "par c = i")
        case True
        have "holds rs j i" using False by (simp add: holds_def)
        then show ?thesis using holds_trans [OF less.prems(3) that(1) b(2) ij(1)] b(4) [OF that(1,2) True] True by simp
      next
        case False
        then show ?thesis using less.prems(1) that by (auto simp: down_inv_def)
      qed
      then show ?thesis using False step by (simp add: heap_from_def)
    qed
  qed
qed

lemma heap_replace_root:
  assumes "heap rs" "set rs \<subseteq> C" "r \<in> C" "rs \<noteq> []"
  shows "heap (heap_fix0 lt (rs[0 := r])) \<and> mset (heap_fix0 lt (rs[0 := r])) = add_mset r (mset rs - {#rs ! 0#})"
proof -
  have "down_inv 0 (rs[0 := r]) 0" using assms(1) by (auto simp: down_inv_def heap_def holds_def)
  moreover have "set (rs[0 := r]) \<subseteq> C" using assms(2,3) set_update_subset_insert [of rs 0 r] by auto
  ultimately show ?thesis
    using heap_fix_loop_heap [of 0 "rs[0 := r]" 0] assms(4) by (simp add: heap_fix0_def mset_update heap_from_0)
qed

lemma heap_root_best: "heap rs \<Longrightarrow> set rs \<subseteq> C \<Longrightarrow> x \<in> set rs \<Longrightarrow> \<not> lt (rs ! 0) x"
  using heap_root by (auto simp: in_set_conv_nth holds_def)

text \<open>
  \<open>kept K rows rs\<close>: the heap \<open>rs\<close> holds the best \<open>K\<close> of \<open>rows\<close>. The other rows are \<open>gone\<close>; none of
  them is better than a kept row, and there are none while the heap is not full.
\<close>

definition kept :: "nat \<Rightarrow> 'r list \<Rightarrow> 'r list \<Rightarrow> bool" where
  "kept K rows rs \<longleftrightarrow>
    (\<exists>gone. mset rows = mset rs + gone \<and> (\<forall>d \<in># gone. \<forall>k \<in> set rs. \<not> lt d k) \<and>
      length rs \<le> K \<and> (length rs < K \<longrightarrow> gone = {#}))"

lemma kept_push:
  assumes "kept K rows rs" "length rs < K" "mset rs' = add_mset r (mset rs)"
  shows "kept K (rows @ [r]) rs'"
proof -
  have "length rs' = Suc (length rs)" using arg_cong [OF assms(3), of size] by simp
  with assms show ?thesis by (auto simp: kept_def)
qed

lemma kept_skip:
  assumes k: "kept K rows rs" and len: "\<not> length rs < K" and h: "heap rs" "set rs \<subseteq> C" "rs \<noteq> []" "r \<in> C"
    and "\<not> lt r (rs ! 0)"
  shows "kept K (rows @ [r]) rs"
proof -
  obtain gone where g: "mset rows = mset rs + gone" "\<forall>d \<in># gone. \<forall>k \<in> set rs. \<not> lt d k" "length rs \<le> K"
    using k by (auto simp: kept_def)
  have "\<not> lt r x" if x: "x \<in> set rs" for x
  proof -
    have "\<not> lt (rs ! 0) x" using heap_root_best [OF h(1,2) x] .
    moreover have "rs ! 0 \<in> C" using h(2,3) nth_mem [of 0 rs] by auto
    ultimately show ?thesis using neg_trans [of r "rs ! 0" x] assms(7) h(2,4) x by blast
  qed
  with g len show ?thesis by (auto simp: kept_def intro!: exI [of _ "add_mset r gone"])
qed

lemma kept_replace:
  assumes k: "kept K rows rs" and len: "\<not> length rs < K" and h: "heap rs" "set rs \<subseteq> C" "rs \<noteq> []" "r \<in> C"
    and rows: "set rows \<subseteq> C" and l: "lt r (rs ! 0)" and m: "mset rs' = add_mset r (mset rs - {#rs ! 0#})"
  shows "kept K (rows @ [r]) rs'"
proof -
  obtain gone where g: "mset rows = mset rs + gone" "\<forall>d \<in># gone. \<forall>k \<in> set rs. \<not> lt d k" "length rs \<le> K"
    using k by (auto simp: kept_def)
  have root: "rs ! 0 \<in># mset rs" "rs ! 0 \<in> C" using h nth_mem [of 0 rs] by auto
  have s: "set rs' \<subseteq> insert r (set rs)"
    using arg_cong [OF m, of set_mset] by (auto dest: in_diffD)
  have "0 < length rs" using h(3) by simp
  then have len': "length rs' = length rs"
    using arg_cong [OF m, of size] root(1) by (simp add: size_Diff_singleton)
  have gC: "d \<in> C" if "d \<in># gone" for d
    using that g(1) rows by (metis in_mono set_mset_mset union_iff)
  have "\<not> lt d x" if d: "d \<in># add_mset (rs ! 0) gone" and x: "x \<in> set rs'" for d x
  proof (cases "d = rs ! 0")
    case True
    then show ?thesis using x s heap_root_best [OF h(1,2)] asym [OF h(4) root(2) l] by auto
  next
    case False
    then have d': "d \<in># gone" using d by simp
    moreover have "\<not> lt d r" using trans [OF gC [OF d'] h(4) root(2)] l g(2) d' root(1) by auto
    ultimately show ?thesis using x s g(2) by auto
  qed
  moreover have "mset (rows @ [r]) = mset rs' + add_mset (rs ! 0) gone"
    using g(1) m insert_DiffM [OF root(1)] by (simp add: add.commute add.left_commute)
  ultimately show ?thesis using g(3) len len' by (auto simp: kept_def intro!: exI [of _ "add_mset (rs ! 0) gone"])
qed

lemma add_row_kept:
  assumes K: "K = unat (sort_offset ps + sort_limit ps)" "0 < K"
    and inv: "kept K rows rs" "heap rs" and C: "set rows \<subseteq> C" "r \<in> C"
  shows "\<exists>rs'. add_row lt ps rs r = Ok rs' \<and> kept K (rows @ [r]) rs' \<and> heap rs'"
proof -
  have rsC: "set rs \<subseteq> C"
    using inv(1) C(1) unfolding kept_def by (metis in_mono mset_subset_eq_add_left set_mset_mono set_mset_mset subsetI)
  show ?thesis
  proof (cases "length rs < K")
    case True
    then show ?thesis
      using heap_push_heap [OF inv(2) rsC C(2)] kept_push [OF inv(1) True] K by (auto simp: add_row_def Let_def)
  next
    case False
    then have ne: "rs \<noteq> []" using K(2) by auto
    show ?thesis
    proof (cases "lt r (rs ! 0)")
      case True
      then show ?thesis
        using heap_replace_root [OF inv(2) rsC C(2) ne] kept_replace [OF inv(1) False inv(2) rsC ne C(2,1)] ne K False
        by (auto simp: add_row_def Let_def)
    next
      case F: False
      then show ?thesis using kept_skip [OF inv(1) False inv(2) rsC ne C(2)] inv(2) ne K False
        by (auto simp: add_row_def Let_def)
    qed
  qed
qed

lemma add_rows_kept:
  assumes K: "K = unat (sort_offset ps + sort_limit ps)" "0 < K"
  shows "kept K seen rs \<Longrightarrow> heap rs \<Longrightarrow> set (seen @ rows) \<subseteq> C \<Longrightarrow>
    \<exists>rs'. add_rows lt ps rs rows = Ok rs' \<and> kept K (seen @ rows) rs' \<and> heap rs'"
proof (induction rows arbitrary: seen rs)
  case (Cons r rows)
  have "set seen \<subseteq> C" "r \<in> C" using Cons.prems(3) by auto
  from add_row_kept [OF K Cons.prems(1,2) this] obtain rs1 where
    "add_row lt ps rs r = Ok rs1" "kept K (seen @ [r]) rs1" "heap rs1" by blast
  with Cons.IH [of "seen @ [r]" rs1] Cons.prems(3) show ?case by simp
qed simp

lemma top_rows:
  assumes "0 < sort_offset ps + sort_limit ps" "set rows \<subseteq> C"
  shows "\<exists>rs gone. add_rows lt ps [] rows = Ok rs \<and> mset rows = mset rs + gone \<and>
    length rs = min (unat (sort_offset ps + sort_limit ps)) (length rows) \<and>
    (\<forall>d \<in># gone. \<forall>k \<in> set rs. \<not> lt d k)"
proof -
  let ?K = "unat (sort_offset ps + sort_limit ps)"
  have K: "0 < ?K" using assms(1) by (simp add: word_less_nat_alt)
  have "kept ?K [] []" "heap []" using K by (auto simp: kept_def heap_def)
  from add_rows_kept [OF refl K this, of rows] assms(2) obtain rs gone where
    "add_rows lt ps [] rows = Ok rs" and g: "mset rows = mset rs + gone" "\<forall>d \<in># gone. \<forall>k \<in> set rs. \<not> lt d k"
      "length rs \<le> ?K" "length rs < ?K \<longrightarrow> gone = {#}" by (auto simp: kept_def)
  moreover have "length rs = min ?K (length rows)"
    using g(3,4) arg_cong [OF g(1), of size] by (cases "length rs < ?K") auto
  ultimately show ?thesis by auto
qed

end

subsection \<open>Sorting by time\<close>

text \<open>Rows of \<open>sort by (_time)\<close>: a single column, which is the time column.\<close>

definition time_rows :: "PipeTopkRow set" where
  "time_rows = {r. by_columns r = [[]] \<and> by_columns_is_time r = [True]}"

definition sort_desc :: "PipeSort \<Rightarrow> bool" where
  "sort_desc ps = (if by_fields ps \<noteq> [] \<and> snd (by_fields ps ! 0) then \<not> sort_is_desc ps else sort_is_desc ps)"

lemma topk_less_time:
  "a \<in> time_rows \<Longrightarrow> b \<in> time_rows \<Longrightarrow>
    topk_less lv tb ps a b = (if sort_desc ps then timestamp b <s timestamp a else timestamp a <s timestamp b)"
  unfolding topk_less_def topk_less_from.simps [of _ _ _ _ _ 0]
  by (auto simp: time_rows_def sort_desc_def Let_def topk_less_from.simps [of _ _ _ _ _ "Suc 0"] word_sless_alt)

interpretation time_topk: topk_order "topk_less lv tb ps" time_rows for lv tb ps
  by unfold_locales (auto simp: topk_less_time word_sless_alt split: if_splits)


subsection \<open>Properties\<close>

text \<open>C15: The bounded heap of a sort with a limit keeps the best rows. After any sequence of rows the
  heap holds \<open>min (offset + limit) (number of rows)\<close> of them, as a multiset it is the input less some
  discarded rows, and no discarded row sorts before a kept one, so the requested window can be cut
  from the heap alone. Stated for rows compared by \<open>_time\<close>, ascending or descending.\<close>

theorem topk_keeps_best_rows:
  assumes "0 < sort_offset ps + sort_limit ps" "list_all (\<lambda>r. r \<in> time_rows) rows"
  shows "\<exists>rs gone. add_rows (topk_less lv tb ps) ps [] rows = Ok rs \<and> mset rows = mset rs + gone \<and>
    length rs = min (unat (sort_offset ps + sort_limit ps)) (length rows) \<and>
    (\<forall>d \<in># gone. \<forall>k \<in> set rs. if sort_desc ps then timestamp d \<le>s timestamp k else timestamp k \<le>s timestamp d)"
proof -
  have C: "set rows \<subseteq> time_rows" using assms(2) by (auto simp: list_all_iff)
  obtain rs gone where r: "add_rows (topk_less lv tb ps) ps [] rows = Ok rs" "mset rows = mset rs + gone"
    "length rs = min (unat (sort_offset ps + sort_limit ps)) (length rows)"
    "\<forall>d \<in># gone. \<forall>k \<in> set rs. \<not> topk_less lv tb ps d k"
    using time_topk.top_rows [OF assms(1) C, of lv tb ps] by (elim exE conjE)
  have "set_mset (mset rows) = set rs \<union> set_mset gone" unfolding r(2) by simp
  then have "set rs \<subseteq> time_rows" "set_mset gone \<subseteq> time_rows" using C by auto
  then have "\<forall>d \<in># gone. \<forall>k \<in> set rs. if sort_desc ps then timestamp d \<le>s timestamp k else timestamp k \<le>s timestamp d"
    using r(4) topk_less_time [of _ _ lv tb ps] by (auto simp: subset_eq signed.not_less)
  with r(1-3) show ?thesis by (intro exI [of _ rs] exI [of _ gone] conjI)
qed

definition time_row :: "i64 \<Rightarrow> PipeTopkRow" where
  "time_row t = \<lparr>by_columns = [[]], by_columns_is_time = [True], other_columns = [], timestamp = t\<rparr>"

theorem topk_keeps_best_rows_witness:
  "\<exists>rs gone. add_rows (topk_less (\<lambda>_ _. False) (\<lambda>_. []) (demo_sort\<lparr>sort_limit := 2\<rparr>)) (demo_sort\<lparr>sort_limit := 2\<rparr>) []
      [time_row 5, time_row 3, time_row 9, time_row 1] = Ok rs \<and>
    mset [time_row 5, time_row 3, time_row 9, time_row 1] = mset rs + gone \<and> length rs = 2 \<and>
    (\<forall>d \<in># gone. \<forall>k \<in> set rs. timestamp k \<le>s timestamp d)"
proof -
  let ?ps = "demo_sort\<lparr>sort_limit := 2\<rparr>"
  let ?rows = "[time_row 5, time_row 3, time_row 9, time_row 1]"
  have "0 < sort_offset ?ps + sort_limit ?ps" "list_all (\<lambda>r. r \<in> time_rows) ?rows" "\<not> sort_desc ?ps"
    "min (unat (sort_offset ?ps + sort_limit ?ps)) (length ?rows) = 2"
    by (simp_all add: demo_sort_def time_row_def time_rows_def sort_desc_def)
  then show ?thesis using topk_keeps_best_rows [of ?ps ?rows "\<lambda>_ _. False" "\<lambda>_. []"] by (simp only: if_False)
qed
end
