(* ===== verification/Bloom_Filter.thy ===== *)
theory Bloom_Filter
  imports Int_Encoding
begin

text \<open>
  The per-column bloom filter of \<^verbatim>\<open>esl-logstorage/src/bloomfilter.rs\<close>: six bits per token, sixteen bits
  of filter per token, stored as big-endian words. The lemmas show that a filter never rejects
  what was put into it, that the probe of the stored bytes agrees with the probe of the decoded
  filter, and that storing and loading a filter is lossless.

  The 64-bit xxHash (crate \<^verbatim>\<open>xxhash_rust\<close>, seed 0) is the parameter \<open>xxh64\<close>. \<open>to_ne_bytes\<close> is
  little-endian, as on the supported platforms.
\<close>

unbundle bit_operations_syntax

subsection \<open>Definitions\<close>

definition BLOOM_FILTER_HASHES_COUNT :: nat where
  "BLOOM_FILTER_HASHES_COUNT = 6"

definition BLOOM_FILTER_BITS_PER_ITEM :: nat where
  "BLOOM_FILTER_BITS_PER_ITEM = 16"

record BloomFilter =
  bf_bits :: "u64 list"

datatype bloom_error = BadBloomLength nat

definition bf_default :: BloomFilter where
  "bf_default = \<lparr>bf_bits = []\<rparr>"

definition bf_reset :: "BloomFilter \<Rightarrow> BloomFilter" where
  "bf_reset bf = bf\<lparr>bf_bits := []\<rparr>"

definition bf_marshal :: "bytes \<Rightarrow> BloomFilter \<Rightarrow> bytes" where
  "bf_marshal dst bf = foldl marshal_uint64 dst (bf_bits bf)"

primrec read_words :: "nat \<Rightarrow> bytes \<Rightarrow> (u64 list, bloom_error) outcome" where
  "read_words 0 src = Ok []"
| "read_words (Suc n) src =
    obind (unmarshal_uint64 src) (\<lambda>w. obind (read_words n (drop 8 src)) (\<lambda>ws. Ok (w # ws)))"

definition bf_unmarshal :: "bytes \<Rightarrow> (BloomFilter, bloom_error) outcome" where
  "bf_unmarshal src =
    (if length src mod 8 \<noteq> 0 then Err (BadBloomLength (length src))
     else obind (read_words (length src div 8) src) (\<lambda>ws. Ok \<lparr>bf_bits = ws\<rparr>))"

text \<open>The bit of hash \<open>h\<close>: word and mask. A filter without words makes the modulus zero and panics.\<close>

definition word_index :: "nat \<Rightarrow> u64 \<Rightarrow> nat" where
  "word_index n h = unat (h mod (of_nat n * 64) div 64)"

definition bit_index :: "nat \<Rightarrow> u64 \<Rightarrow> nat" where
  "bit_index n h = unat (h mod (of_nat n * 64) mod 64)"

primrec init_bloom_filter :: "u64 list \<Rightarrow> u64 list \<Rightarrow> (u64 list, bloom_error) outcome" where
  "init_bloom_filter bits [] = Ok bits"
| "init_bloom_filter bits (h # hashes) =
    (if of_nat (length bits) * 64 = (0 :: u64) then Panic
     else
       (let i = word_index (length bits) h; mask = push_bit (bit_index (length bits) h) 1 in
        if i \<ge> length bits then Panic
        else
          (let w = bits ! i in
           init_bloom_filter (if w AND mask = 0 then bits[i := w OR mask] else bits) hashes)))"

primrec hash_chain :: "(bytes \<Rightarrow> u64) \<Rightarrow> nat \<Rightarrow> u64 \<Rightarrow> u64 list" where
  "hash_chain xxh64 0 hp = []"
| "hash_chain xxh64 (Suc n) hp = xxh64 (to_le_bytes 8 hp) # hash_chain xxh64 n (hp + 1)"

definition append_tokens_hashes :: "(bytes \<Rightarrow> u64) \<Rightarrow> u64 list \<Rightarrow> bytes list \<Rightarrow> u64 list" where
  "append_tokens_hashes xxh64 dst tokens =
    foldl (\<lambda>dst token. dst @ hash_chain xxh64 BLOOM_FILTER_HASHES_COUNT (xxh64 token)) dst tokens"

definition append_hashes_hashes :: "(bytes \<Rightarrow> u64) \<Rightarrow> u64 list \<Rightarrow> u64 list \<Rightarrow> u64 list" where
  "append_hashes_hashes xxh64 dst hashes =
    foldl (\<lambda>dst h. dst @ hash_chain xxh64 BLOOM_FILTER_HASHES_COUNT h) dst hashes"

definition bloom_filter_add_tokens ::
  "(bytes \<Rightarrow> u64) \<Rightarrow> u64 list \<Rightarrow> bytes list \<Rightarrow> (u64 list, bloom_error) outcome" where
  "bloom_filter_add_tokens xxh64 bits tokens = init_bloom_filter bits (append_tokens_hashes xxh64 [] tokens)"

definition bloom_filter_add_hashes ::
  "(bytes \<Rightarrow> u64) \<Rightarrow> u64 list \<Rightarrow> u64 list \<Rightarrow> (u64 list, bloom_error) outcome" where
  "bloom_filter_add_hashes xxh64 bits hashes = init_bloom_filter bits (append_hashes_hashes xxh64 [] hashes)"

definition must_init_tokens ::
  "(bytes \<Rightarrow> u64) \<Rightarrow> BloomFilter \<Rightarrow> bytes list \<Rightarrow> (BloomFilter, bloom_error) outcome" where
  "must_init_tokens xxh64 bf tokens =
    (let bits_count = length tokens * BLOOM_FILTER_BITS_PER_ITEM;
         bits = set_length (bf_bits bf) (div_ceil bits_count 64)
     in obind (bloom_filter_add_tokens xxh64 bits tokens) (\<lambda>bits. Ok (bf\<lparr>bf_bits := bits\<rparr>)))"

definition must_init_hashes ::
  "(bytes \<Rightarrow> u64) \<Rightarrow> BloomFilter \<Rightarrow> u64 list \<Rightarrow> (BloomFilter, bloom_error) outcome" where
  "must_init_hashes xxh64 bf hashes =
    (let bits_count = length hashes * BLOOM_FILTER_BITS_PER_ITEM;
         bits = set_length (bf_bits bf) (div_ceil bits_count 64)
     in obind (bloom_filter_add_hashes xxh64 bits hashes) (\<lambda>bits. Ok (bf\<lparr>bf_bits := bits\<rparr>)))"

primrec contains_loop :: "u64 list \<Rightarrow> u64 list \<Rightarrow> (bool, bloom_error) outcome" where
  "contains_loop bits [] = Ok True"
| "contains_loop bits (h # hashes) =
    (let i = word_index (length bits) h in
     if of_nat (length bits) * 64 = (0 :: u64) \<or> i \<ge> length bits then Panic
     else if bits ! i AND push_bit (bit_index (length bits) h) 1 = 0 then Ok False
     else contains_loop bits hashes)"

definition contains_all :: "BloomFilter \<Rightarrow> u64 list \<Rightarrow> (bool, bloom_error) outcome" where
  "contains_all bf hashes = (if bf_bits bf = [] then Ok True else contains_loop (bf_bits bf) hashes)"

primrec bytes_contain_loop :: "bytes \<Rightarrow> u64 list \<Rightarrow> (bool, bloom_error) outcome" where
  "bytes_contain_loop raw [] = Ok True"
| "bytes_contain_loop raw (h # hashes) =
    (let n = length raw div 8; i = word_index n h * 8 in
     if of_nat n * 64 = (0 :: u64) \<or> i + 8 > length raw then Panic
     else
       (let w = from_be_bytes (take 8 (drop i raw)) in
        if w AND push_bit (bit_index n h) 1 = (0 :: u64) then Ok False
        else bytes_contain_loop raw hashes))"

definition bytes_contain_all :: "bytes \<Rightarrow> u64 list \<Rightarrow> (bool, bloom_error) outcome" where
  "bytes_contain_all raw hashes = (if raw = [] then Ok True else bytes_contain_loop raw hashes)"

text \<open>The pool, and the entry points that build a filter and append its stored form.\<close>

definition get_bloom_filter :: "BloomFilter list \<Rightarrow> BloomFilter \<times> BloomFilter list" where
  "get_bloom_filter pool = (if pool = [] then (bf_default, []) else (last pool, butlast pool))"

definition put_bloom_filter :: "BloomFilter list \<Rightarrow> BloomFilter \<Rightarrow> BloomFilter list" where
  "put_bloom_filter pool bf = pool @ [bf_reset bf]"

definition bloom_filter_marshal_tokens ::
  "(bytes \<Rightarrow> u64) \<Rightarrow> BloomFilter list \<Rightarrow> bytes \<Rightarrow> bytes list \<Rightarrow> (bytes \<times> BloomFilter list, bloom_error) outcome" where
  "bloom_filter_marshal_tokens xxh64 pool dst tokens =
    (case get_bloom_filter pool of (bf, pool) \<Rightarrow>
      obind (must_init_tokens xxh64 bf tokens) (\<lambda>bf. Ok (bf_marshal dst bf, put_bloom_filter pool bf)))"

definition bloom_filter_marshal_hashes ::
  "(bytes \<Rightarrow> u64) \<Rightarrow> BloomFilter list \<Rightarrow> bytes \<Rightarrow> u64 list \<Rightarrow> (bytes \<times> BloomFilter list, bloom_error) outcome" where
  "bloom_filter_marshal_hashes xxh64 pool dst hashes =
    (case get_bloom_filter pool of (bf, pool) \<Rightarrow>
      obind (must_init_hashes xxh64 bf hashes) (\<lambda>bf. Ok (bf_marshal dst bf, put_bloom_filter pool bf)))"

subsection \<open>The bits of a filter\<close>

text \<open>\<open>has bits h\<close>: the bit of \<open>h\<close> is set. The positions are in range up to \<open>2 ^ 58\<close> words.\<close>

definition has :: "u64 list \<Rightarrow> u64 \<Rightarrow> bool" where
  "has bits h \<longleftrightarrow> bit (bits ! word_index (length bits) h) (bit_index (length bits) h)"

lemma modulus:
  assumes "0 < n" "n < 2 ^ 58"
  shows "unat (of_nat n * 64 :: u64) = n * 64"
  using assms by (simp add: unat_word_ariths unat_of_nat take_bit_nat_eq_self)

lemma modulus_nz: "0 < n \<Longrightarrow> n < 2 ^ 58 \<Longrightarrow> of_nat n * 64 \<noteq> (0 :: u64)"
  using modulus [of n] by (metis mult_is_0 not_gr_zero unat_0 zero_neq_numeral)

lemma word_index_less:
  assumes "0 < n" "n < 2 ^ 58"
  shows "word_index n h < n"
proof -
  have "unat (h mod (of_nat n * 64)) < n * 64"
    using assms by (simp add: unat_mod_distrib modulus)
  then show ?thesis by (simp add: word_index_def unat_div_distrib less_mult_imp_div_less)
qed

lemma bit_index_less: "bit_index n h < 64"
  by (simp add: bit_index_def unat_mod_distrib)

lemma and_push_bit_0: "(w AND push_bit j (1 :: u64) = 0) \<longleftrightarrow> \<not> bit w j"
  by (simp add: push_bit_of_1 and_exp_eq_0_iff_not_bit)

lemma contains_loop_iff:
  assumes "0 < length bits" "length bits < 2 ^ 58"
  shows "contains_loop bits hashes = Ok (\<forall>h \<in> set hashes. has bits h)"
proof (induction hashes)
  case (Cons h hashes)
  then show ?case using modulus_nz [OF assms] word_index_less [OF assms, of h]
    by (auto simp: Let_def has_def and_exp_eq_0_iff_not_bit not_le)
qed simp

text \<open>Adding a hash sets its bit and clears none.\<close>

definition grows :: "u64 list \<Rightarrow> u64 list \<Rightarrow> bool" where
  "grows bits bits' \<longleftrightarrow> length bits' = length bits \<and> (\<forall>i j. i < length bits \<longrightarrow> bit (bits ! i) j \<longrightarrow> bit (bits' ! i) j)"

lemma grows_has: "grows bits bits' \<Longrightarrow> 0 < length bits \<Longrightarrow> length bits < 2 ^ 58 \<Longrightarrow> has bits h \<Longrightarrow> has bits' h"
  using word_index_less [of "length bits" h] by (auto simp: grows_def has_def)

lemma init_bloom_filter_spec:
  assumes "0 < length bits" "length bits < 2 ^ 58"
  shows "\<exists>bits'. init_bloom_filter bits hashes = Ok bits' \<and> grows bits bits' \<and> (\<forall>h \<in> set hashes. has bits' h)"
  using assms
proof (induction hashes arbitrary: bits)
  case Nil
  then show ?case by (simp add: grows_def)
next
  case (Cons h hashes)
  let ?i = "word_index (length bits) h" and ?j = "bit_index (length bits) h"
  define b1 where "b1 = (if bits ! ?i AND push_bit ?j 1 = 0 then bits[?i := bits ! ?i OR push_bit ?j 1] else bits)"
  note i = word_index_less [OF Cons.prems, of h]
  have l: "length b1 = length bits" by (simp add: b1_def)
  have g: "grows bits b1" unfolding grows_def using i by (auto simp: b1_def nth_list_update bit_simps)
  have hb: "has b1 h" using i bit_index_less [of "length bits" h]
    by (auto simp: has_def b1_def and_exp_eq_0_iff_not_bit bit_simps)
  obtain b2 where b2: "init_bloom_filter b1 hashes = Ok b2" "grows b1 b2" "\<forall>h \<in> set hashes. has b2 h"
    using Cons.IH [of b1] Cons.prems l by auto
  have "init_bloom_filter bits (h # hashes) = init_bloom_filter b1 hashes"
    using i modulus_nz [OF Cons.prems] by (simp add: Let_def b1_def)
  with b2(1) have "init_bloom_filter bits (h # hashes) = Ok b2" by (simp only:)
  moreover have "grows bits b2" using g b2(2) l by (auto simp: grows_def)
  moreover have "has b2 h" using grows_has [OF b2(2) _ _ hb] Cons.prems l by simp
  ultimately show ?case using b2(3) by auto
qed

subsection \<open>Building and probing\<close>

definition token_chains :: "(bytes \<Rightarrow> u64) \<Rightarrow> u64 list \<Rightarrow> u64 list" where
  "token_chains xxh64 hashes = concat (map (hash_chain xxh64 BLOOM_FILTER_HASHES_COUNT) hashes)"

lemma append_hashes_hashes_eq: "append_hashes_hashes xxh64 dst hashes = dst @ token_chains xxh64 hashes"
  unfolding append_hashes_hashes_def token_chains_def by (induction hashes arbitrary: dst) simp_all

lemma append_tokens_hashes_eq: "append_tokens_hashes xxh64 dst tokens = dst @ token_chains xxh64 (map xxh64 tokens)"
  unfolding append_tokens_hashes_def token_chains_def by (induction tokens arbitrary: dst) simp_all

lemma must_init_tokens_eq: "must_init_tokens xxh64 bf tokens = must_init_hashes xxh64 bf (map xxh64 tokens)"
  by (simp add: must_init_tokens_def must_init_hashes_def bloom_filter_add_tokens_def
      bloom_filter_add_hashes_def append_tokens_hashes_eq append_hashes_hashes_eq)

lemma must_init_hashes_spec:
  assumes "bf_bits bf = []" "length hashes < 2 ^ 58"
  shows "\<exists>bf'. must_init_hashes xxh64 bf hashes = Ok bf' \<and> length (bf_bits bf') = div_ceil (length hashes * 16) 64 \<and>
    (\<forall>h \<in> set (token_chains xxh64 hashes). has (bf_bits bf') h)"
proof (cases "hashes = []")
  case True
  then show ?thesis using assms(1)
    by (simp add: must_init_hashes_def bloom_filter_add_hashes_def append_hashes_hashes_eq token_chains_def div_ceil_def)
next
  case False
  let ?bits = "replicate (div_ceil (length hashes * 16) 64) (0 :: u64)"
  have "length hashes * 16 \<le> 64 * length hashes" by simp
  then have "div_ceil (length hashes * 16) 64 \<le> length hashes" by (intro div_ceil_least) auto
  then have len: "length ?bits < 2 ^ 58" using assms(2) by simp
  have "length hashes * 16 \<le> 64 * div_ceil (length hashes * 16) 64" by (rule div_ceil_mult) simp
  then have pos: "0 < length ?bits" using False by (cases "div_ceil (length hashes * 16) 64") auto
  obtain bits' where "init_bloom_filter ?bits (token_chains xxh64 hashes) = Ok bits'" "grows ?bits bits'"
    "\<forall>h \<in> set (token_chains xxh64 hashes). has bits' h"
    using init_bloom_filter_spec [OF pos len, of "token_chains xxh64 hashes"] by (elim exE conjE)
  then show ?thesis using assms(1)
    by (simp add: must_init_hashes_def bloom_filter_add_hashes_def append_hashes_hashes_eq
        BLOOM_FILTER_BITS_PER_ITEM_def grows_def)
qed

lemma token_chains_mono: "set hs \<subseteq> set hashes \<Longrightarrow> set (token_chains xxh64 hs) \<subseteq> set (token_chains xxh64 hashes)"
  by (auto simp: token_chains_def)

lemma must_init_hashes_length:
  assumes "bf_bits bf = []" "length hashes < 2 ^ 58" "must_init_hashes xxh64 bf hashes = Ok bf'"
  shows "length (bf_bits bf') < 2 ^ 58"
proof -
  have "length hashes * 16 \<le> 64 * length hashes" by simp
  then have "div_ceil (length hashes * 16) 64 \<le> length hashes" by (intro div_ceil_least) auto
  with must_init_hashes_spec [OF assms(1,2), of xxh64] assms(2,3) show ?thesis by auto
qed

lemma no_false_negative:
  assumes "bf_bits bf = []" "length hashes < 2 ^ 58" "set hs \<subseteq> set hashes"
    and "must_init_hashes xxh64 bf hashes = Ok bf'"
  shows "contains_all bf' (append_hashes_hashes xxh64 [] hs) = Ok True"
proof (cases "bf_bits bf' = []")
  case False
  have h: "\<forall>h \<in> set (token_chains xxh64 hashes). has (bf_bits bf') h"
    using must_init_hashes_spec [OF assms(1,2), of xxh64] assms(4) by auto
  with contains_loop_iff [of "bf_bits bf'"] False must_init_hashes_length [OF assms(1,2,4)]
    token_chains_mono [OF assms(3), of xxh64]
  show ?thesis by (auto simp: contains_all_def append_hashes_hashes_eq)
qed (simp add: contains_all_def)

subsection \<open>The stored form\<close>

lemma foldl_marshal_words: "foldl marshal_uint64 dst ws = dst @ concat (map (to_be_bytes 8) ws)"
  by (induction ws arbitrary: dst) (simp_all add: marshal_uint64_def)

lemma bf_marshal_eq: "bf_marshal dst bf = dst @ concat (map (to_be_bytes 8) (bf_bits bf))"
  by (simp add: bf_marshal_def foldl_marshal_words)

lemma length_stored [simp]: "length (concat (map (to_be_bytes 8) ws)) = 8 * length ws"
  by (induction ws) simp_all

lemma drop_stored: "i \<le> length ws \<Longrightarrow> drop (i * 8) (concat (map (to_be_bytes 8) ws)) = concat (map (to_be_bytes 8) (drop i ws))"
proof (induction i arbitrary: ws)
  case (Suc i)
  then show ?case by (cases ws) simp_all
qed simp

lemma stored_word:
  assumes "i < length ws"
  shows "from_be_bytes (take 8 (drop (i * 8) (concat (map (to_be_bytes 8) ws)))) = (ws ! i :: u64)"
proof -
  have "drop i ws = ws ! i # drop (Suc i) ws" using assms by (simp add: Cons_nth_drop_Suc)
  then show ?thesis using assms drop_stored [of i ws] by simp
qed

lemma read_words_stored: "read_words (length ws) (concat (map (to_be_bytes 8) ws) @ rest) = Ok ws"
  by (induction ws) (simp_all add: unmarshal_uint64_def)

lemma bytes_contain_loop_eq:
  assumes "ws \<noteq> []" "length ws < 2 ^ 58"
  shows "bytes_contain_loop (concat (map (to_be_bytes 8) ws)) hashes = contains_loop ws hashes"
proof (induction hashes)
  case (Cons h hashes)
  have "0 < length ws" using assms(1) by simp
  note i = word_index_less [OF this assms(2), of h] and nz = modulus_nz [OF this assms(2)]
  then have "\<not> word_index (length ws) h * 8 + 8 > 8 * length ws" by linarith
  with Cons i nz stored_word [OF i] show ?case by (simp add: Let_def)
qed simp


lemma stored_probe:
  assumes "length (bf_bits bf) < 2 ^ 58"
  shows "bytes_contain_all (bf_marshal [] bf) hashes = contains_all bf hashes"
proof (cases "bf_bits bf = []")
  case False
  then have "concat (map (to_be_bytes 8) (bf_bits bf)) \<noteq> []"
    using length_stored [of "bf_bits bf"] by (metis length_0_conv list.size(3) mult_is_0 zero_neq_numeral)
  with False show ?thesis
    using bytes_contain_loop_eq [OF False assms]
    by (simp add: bytes_contain_all_def contains_all_def bf_marshal_eq del: concat_eq_Nil_conv)
qed (simp add: bytes_contain_all_def contains_all_def bf_marshal_eq)

subsection \<open>Properties\<close>

text \<open>A bloom filter survives storage, and probing the stored bytes directly, as the search does,
  gives the same answer as decoding the filter and probing its words; a stored block whose length
  is not a multiple of eight is refused.\<close>

lemma bloom_storage_transparent:
  assumes "length (bf_bits bf) < 2 ^ 58"
  shows "bf_unmarshal (bf_marshal [] bf) = Ok bf \<and>
    bytes_contain_all (bf_marshal [] bf) hashes = contains_all bf hashes \<and>
    (length src mod 8 \<noteq> 0 \<longrightarrow> bf_unmarshal src = Err (BadBloomLength (length src)))"
proof -
  have "bf_unmarshal (bf_marshal [] bf) = Ok bf"
    using read_words_stored [of "bf_bits bf" "[]"] by (simp add: bf_unmarshal_def bf_marshal_eq)
  then show ?thesis using stored_probe [OF assms, of hashes] by (simp add: bf_unmarshal_def)
qed

text \<open>C23: A bloom filter has no false negatives. Building a filter from any token hashes succeeds
  (the word and bit positions are always in range), and probing it for any subset of them answers
  yes, whatever the hash function is.\<close>

theorem bloom_no_false_negatives:
  assumes "length hashes < 2 ^ 58" "set hs \<subseteq> set hashes"
  shows "\<exists>bf. must_init_hashes xxh64 bf_default hashes = Ok bf \<and>
    contains_all bf (append_hashes_hashes xxh64 [] hs) = Ok True"
proof -
  have d: "bf_bits bf_default = []" by (simp add: bf_default_def)
  obtain bf where bf: "must_init_hashes xxh64 bf_default hashes = Ok bf"
    using must_init_hashes_spec [OF d assms(1), of xxh64] by (elim exE conjE)
  show ?thesis using no_false_negative [OF d assms bf] bf by (intro exI [of _ bf] conjI)
qed

theorem bloom_no_false_negatives_witness:
  "\<exists>bf. must_init_hashes (\<lambda>b. from_be_bytes b) bf_default [7, 8, 9] = Ok bf \<and>
    contains_all bf (append_hashes_hashes (\<lambda>b. from_be_bytes b) [] [9, 7]) = Ok True"
  using bloom_no_false_negatives [of "[7, 8, 9]" "[9, 7]" "\<lambda>b. from_be_bytes b"] by simp
end
