(* ===== verification/Tokenizer.thy ===== *)
theory Tokenizer
  imports Bitmap
begin

text \<open>
  Word tokens: \<^verbatim>\<open>tokenizer.rs\<close> (the byte tokenizer), \<^verbatim>\<open>hash_tokenizer.rs\<close> and \<open>decode_rune\<close> of
  \<^verbatim>\<open>pattern_matcher.rs\<close>. A token is a maximal run of letters, digits and underscores. The hash
  tokenizer splits the values of a column, hashes every token and drops duplicates with a table of
  1024 buckets guarded by a bitmap. The lemmas show that it returns the hashes of the tokens in the
  order of their first occurrence, without duplicates, whatever was tokenized before with the same
  pooled table.

  Parameters: \<open>xxh64\<close> (crate \<^verbatim>\<open>xxhash_rust\<close>) and \<open>letter_or_digit\<close>, the match of a non-ASCII
  character with the class \<^verbatim>\<open>[\p{L}\p{Nd}]\<close> of the \<^verbatim>\<open>regex\<close> crate.
\<close>

unbundle bit_operations_syntax

subsection \<open>Definitions: characters\<close>

definition is_ascii :: "bytes \<Rightarrow> bool" where
  "is_ascii s = list_all (\<lambda>c. c < 128) s"

definition is_token_char :: "u8 \<Rightarrow> bool" where
  "is_token_char c \<longleftrightarrow> (48 \<le> c \<and> c \<le> 57) \<or> (65 \<le> c \<and> c \<le> 90) \<or> (97 \<le> c \<and> c \<le> 122) \<or> c = 95"

text \<open>A character is its code point.\<close>

definition is_token_rune :: "(nat \<Rightarrow> bool) \<Rightarrow> nat \<Rightarrow> bool" where
  "is_token_rune letter_or_digit c =
    (if c < 128 then is_token_char (of_nat c)
     else if c = 95 then True
     else letter_or_digit c)"

definition decode_rune :: "bytes \<Rightarrow> nat \<times> nat" where
  "decode_rune b =
    (let s = take (min (length b) 4) b; valid = valid_up_to s in
     if valid = length s then
       (case utf8_first s of Some (c, k) \<Rightarrow> (c, k) | None \<Rightarrow> (65533, 1))
     else if valid > 0 then
       (case utf8_first (take valid s) of Some (c, k) \<Rightarrow> (c, k) | None \<Rightarrow> (65533, 1))
     else (65533, 1))"

subsection \<open>Definitions: tokens of a string\<close>

text \<open>The search loops of the ASCII path: the first index from \<open>i\<close> on whose byte satisfies \<open>P\<close>.\<close>

function find_from :: "(u8 \<Rightarrow> bool) \<Rightarrow> bytes \<Rightarrow> nat \<Rightarrow> nat" where
  "find_from P b i = (if i < length b then (if P (b ! i) then i else find_from P b (i + 1)) else length b)"
  by pat_completeness auto
termination
  by (relation "measure (\<lambda>(_, b, i). length b - i)") auto

declare find_from.simps [simp del]

lemma find_from_bounds: "i \<le> length b \<Longrightarrow> i \<le> find_from P b i \<and> find_from P b i \<le> length b"
  by (induction P b i rule: find_from.induct) (subst (1 2) find_from.simps, auto)

text \<open>The tokens that one call finds, in order. Each caller registers them one by one.\<close>

function ascii_tokens_from :: "bytes \<Rightarrow> nat \<Rightarrow> bytes list" where
  "ascii_tokens_from b i =
    (if i < length b then
       (let start = find_from is_token_char b i;
            i1 = (if start < length b then start + 1 else length b);
            e = find_from (\<lambda>c. \<not> is_token_char c) b i1;
            i2 = (if e < length b then e + 1 else length b)
        in if e \<le> start then [] else take (e - start) (drop start b) # ascii_tokens_from b i2)
     else [])"
  by pat_completeness auto
termination
proof (relation "measure (\<lambda>(b, i). length b - i)", goal_cases)
  case (2 b i start i1 e i2)
  have "i \<le> start" "start \<le> length b" using find_from_bounds [of i b is_token_char] 2 by auto
  moreover have "i1 \<le> e" "e \<le> length b" using find_from_bounds [of i1 b] 2 calculation by (auto split: if_splits)
  ultimately show ?case using 2 by (auto split: if_splits)
qed simp

declare ascii_tokens_from.simps [simp del]

text \<open>The search loops of the Unicode path, over the runes from \<open>offset\<close> on.\<close>

lemma decode_rune_size: "0 < snd (decode_rune b)"
  by (auto simp: decode_rune_def Let_def split: option.splits prod.splits dest: utf8_first_size)

lemma decode_rune_pos: "(r, sz) = decode_rune b \<Longrightarrow> 0 < sz"
  using decode_rune_size [of b] by (metis snd_conv)

function find_rune :: "(nat \<Rightarrow> bool) \<Rightarrow> bytes \<Rightarrow> nat \<Rightarrow> nat" where
  "find_rune P s offset =
    (if offset < length s then
       (case decode_rune (drop offset s) of
          (r, sz) \<Rightarrow> if P r then offset else find_rune P s (offset + sz))
     else length s)"
  by pat_completeness auto
termination
  by (relation "measure (\<lambda>(_, s, offset). length s - offset)") (auto dest!: decode_rune_pos)

declare find_rune.simps [simp del]

function unicode_tokens :: "(nat \<Rightarrow> bool) \<Rightarrow> bytes \<Rightarrow> bytes list" where
  "unicode_tokens token_rune s =
    (if s \<noteq> [] then
       (let s1 = drop (find_rune token_rune s 0) s;
            n = find_rune (\<lambda>r. \<not> token_rune r) s1 0
        in if n = 0 then [] else take n s1 # unicode_tokens token_rune (drop n s1))
     else [])"
  by pat_completeness auto
termination
  by (relation "measure (\<lambda>(_, s). length s)") (auto simp: Let_def)

declare unicode_tokens.simps [simp del]

definition tokens_of :: "(nat \<Rightarrow> bool) \<Rightarrow> bytes \<Rightarrow> bytes list" where
  "tokens_of letter_or_digit s =
    (if \<not> is_ascii s then unicode_tokens (is_token_rune letter_or_digit) s
     else ascii_tokens_from s 0)"

subsection \<open>Definitions: the byte tokenizer\<close>

text \<open>\<open>tokenize_bytes\<close> always takes the Unicode path and keeps the set of tokens it has returned.\<close>

definition tokenize_bytes_one ::
  "(nat \<Rightarrow> bool) \<Rightarrow> bytes list \<times> bytes set \<Rightarrow> bytes \<Rightarrow> bytes list \<times> bytes set" where
  "tokenize_bytes_one letter_or_digit st s =
    foldl (\<lambda>(dst, m) token. if token \<in> m then (dst, m) else (dst @ [token], insert token m)) st
      (unicode_tokens (is_token_rune letter_or_digit) s)"

text \<open>A value equal to the one before it is skipped.\<close>

primrec skip_repeats :: "'a option \<Rightarrow> 'a list \<Rightarrow> 'a list" where
  "skip_repeats prev [] = []"
| "skip_repeats prev (s # a) =
    (if prev = Some s then skip_repeats (Some s) a else s # skip_repeats (Some s) a)"

definition tokenize_bytes :: "(nat \<Rightarrow> bool) \<Rightarrow> bytes list \<Rightarrow> bytes list \<Rightarrow> bytes list" where
  "tokenize_bytes letter_or_digit dst a =
    fst (foldl (tokenize_bytes_one letter_or_digit) (dst, {}) (skip_repeats None a))"

subsection \<open>Definitions: the hash tokenizer\<close>

definition HASH_TOKENIZER_BUCKETS_COUNT :: nat where
  "HASH_TOKENIZER_BUCKETS_COUNT = 1024"

record HashTokenizerBucket =
  bucket_v :: u64
  bucket_overflow :: "u64 list"

definition bucket_reset :: "HashTokenizerBucket \<Rightarrow> HashTokenizerBucket" where
  "bucket_reset b = b\<lparr>bucket_overflow := []\<rparr>"

record HashTokenizer =
  buckets :: "HashTokenizerBucket list"
  tok_bm :: Bitmap

definition new_hash_tokenizer :: HashTokenizer where
  "new_hash_tokenizer =
    \<lparr>buckets = replicate HASH_TOKENIZER_BUCKETS_COUNT \<lparr>bucket_v = 0, bucket_overflow = []\<rparr>,
     tok_bm = bitmap_init bitmap_default HASH_TOKENIZER_BUCKETS_COUNT\<rparr>"

text \<open>In \<open>reset\<close> the closure of \<open>for_each_set_bit\<close> resets the bucket and asks for the bit to be cleared.\<close>

definition hash_tokenizer_reset :: "HashTokenizer \<Rightarrow> HashTokenizer" where
  "hash_tokenizer_reset t =
    (if ones_count (tok_bm t) \<le> length (buckets t) div 4 then
       (case for_each_set_bit (\<lambda>idx bs. (False, bs[idx := bucket_reset (bs ! idx)])) (tok_bm t) (buckets t) of
          (bm', bs) \<Rightarrow> t\<lparr>buckets := bs, tok_bm := bm'\<rparr>)
     else
       t\<lparr>buckets := map bucket_reset (buckets t), tok_bm := bitmap_init (tok_bm t) (length (buckets t))\<rparr>)"

definition add_token :: "(bytes \<Rightarrow> u64) \<Rightarrow> HashTokenizer \<Rightarrow> bytes \<Rightarrow> ((u64 \<times> bool) \<times> HashTokenizer, unit) outcome" where
  "add_token xxh64 t token =
    (let h = xxh64 token; idx = unat (h mod of_nat (length (buckets t))) in
     if length (buckets t) \<le> idx then Panic
     else
       (let b = buckets t ! idx in
        obind (is_set_bit (tok_bm t) idx) (\<lambda>set.
          if \<not> set then
            obind (set_bit_at (tok_bm t) idx) (\<lambda>bm'.
              Ok ((h, True), t\<lparr>buckets := (buckets t)[idx := b\<lparr>bucket_v := h\<rparr>], tok_bm := bm'\<rparr>))
          else if bucket_v b = h then Ok ((h, False), t)
          else if h \<in> List.set (bucket_overflow b) then Ok ((h, False), t)
          else Ok ((h, True), t\<lparr>buckets := (buckets t)[idx := b\<lparr>bucket_overflow := bucket_overflow b @ [h]\<rparr>]\<rparr>))))"

primrec register_tokens ::
  "(bytes \<Rightarrow> u64) \<Rightarrow> HashTokenizer \<Rightarrow> u64 list \<Rightarrow> bytes list \<Rightarrow> (u64 list \<times> HashTokenizer, unit) outcome" where
  "register_tokens xxh64 t dst [] = Ok (dst, t)"
| "register_tokens xxh64 t dst (token # tokens) =
    obind (add_token xxh64 t token) (\<lambda>((h, new), t).
      register_tokens xxh64 t (if new then dst @ [h] else dst) tokens)"

definition tokenize_string ::
  "(bytes \<Rightarrow> u64) \<Rightarrow> (nat \<Rightarrow> bool) \<Rightarrow> HashTokenizer \<Rightarrow> u64 list \<Rightarrow> bytes \<Rightarrow> (u64 list \<times> HashTokenizer, unit) outcome" where
  "tokenize_string xxh64 letter_or_digit t dst s = register_tokens xxh64 t dst (tokens_of letter_or_digit s)"

primrec tokenize_strings_loop ::
  "(bytes \<Rightarrow> u64) \<Rightarrow> (nat \<Rightarrow> bool) \<Rightarrow> HashTokenizer \<Rightarrow> u64 list \<Rightarrow> bytes option \<Rightarrow> bytes list \<Rightarrow>
   (u64 list \<times> HashTokenizer, unit) outcome" where
  "tokenize_strings_loop xxh64 lod t dst prev [] = Ok (dst, t)"
| "tokenize_strings_loop xxh64 lod t dst prev (s # a) =
    (if prev = Some s then tokenize_strings_loop xxh64 lod t dst (Some s) a
     else obind (tokenize_string xxh64 lod t dst s) (\<lambda>(dst, t). tokenize_strings_loop xxh64 lod t dst (Some s) a))"

text \<open>\<open>tokenize_hashes\<close>, with the pool of tokenizers.\<close>

definition get_hash_tokenizer :: "HashTokenizer list \<Rightarrow> HashTokenizer \<times> HashTokenizer list" where
  "get_hash_tokenizer pool = (if pool = [] then (new_hash_tokenizer, []) else (last pool, butlast pool))"

definition put_hash_tokenizer :: "HashTokenizer list \<Rightarrow> HashTokenizer \<Rightarrow> HashTokenizer list" where
  "put_hash_tokenizer pool t = pool @ [hash_tokenizer_reset t]"

definition tokenize_hashes ::
  "(bytes \<Rightarrow> u64) \<Rightarrow> (nat \<Rightarrow> bool) \<Rightarrow> HashTokenizer list \<Rightarrow> u64 list \<Rightarrow> bytes list \<Rightarrow>
   (u64 list \<times> HashTokenizer list, unit) outcome" where
  "tokenize_hashes xxh64 letter_or_digit pool dst a =
    (case get_hash_tokenizer pool of (t, pool) \<Rightarrow>
      obind (tokenize_strings_loop xxh64 letter_or_digit t dst None a) (\<lambda>(dst, t).
        Ok (dst, put_hash_tokenizer pool t)))"


subsection \<open>Decoding runes\<close>

lemma utf8_first_take:
  "utf8_first s = Some (c, k) \<Longrightarrow> k \<le> m \<Longrightarrow> utf8_first (take m s) = Some (c, k)"
  by (cases s; cases "tl s"; cases "tl (tl s)"; cases "tl (tl (tl s))")
     (auto simp: utf8_first_def take_Cons' split: if_splits)

lemma utf8_first_take4: "utf8_first (take 4 s) = utf8_first s"
  by (cases s; cases "tl s"; cases "tl (tl s)"; cases "tl (tl (tl s))") (auto simp: utf8_first_def)

lemma decode_rune_eq:
  "decode_rune b = (case utf8_first b of Some ck \<Rightarrow> ck | None \<Rightarrow> (65533, 1))"
proof -
  have t: "take (min (length b) 4) b = take 4 b" by (simp add: min_def)
  show ?thesis
  proof (cases "utf8_first b")
    case None
    then have "utf8_first (take 4 b) = None" by (simp add: utf8_first_take4)
    with None show ?thesis by (simp add: decode_rune_def t Let_def valid_up_to.simps)
  next
    case (Some ck)
    obtain c k where ck: "ck = (c, k)" by fastforce
    then have f: "utf8_first (take 4 b) = Some (c, k)" using Some by (simp add: utf8_first_take4)
    then have "0 < valid_up_to (take 4 b)" "k \<le> valid_up_to (take 4 b)"
      using utf8_first_size [OF f] by (subst valid_up_to.simps, simp)+
    with f utf8_first_take [OF f, of "valid_up_to (take 4 b)"] Some ck show ?thesis
      by (simp add: decode_rune_def t Let_def)
  qed
qed

lemma decode_rune_ascii: "b ! 0 < 128 \<Longrightarrow> b \<noteq> [] \<Longrightarrow> decode_rune b = (unat (b ! 0), 1)"
  by (cases b) (simp_all add: decode_rune_eq utf8_first_def)

subsection \<open>Tokens as maximal runs\<close>

function runs :: "('a \<Rightarrow> bool) \<Rightarrow> 'a list \<Rightarrow> 'a list list" where
  "runs P s =
    (let s1 = dropWhile (\<lambda>c. \<not> P c) s in
     if s1 = [] then [] else takeWhile P s1 # runs P (dropWhile P s1))"
  by pat_completeness auto
termination
proof (relation "measure (\<lambda>(_, s). length s)", goal_cases)
  case (2 P s s1)
  obtain c cs where c: "s1 = c # cs" using 2(2) by (cases s1) blast+
  then have "P c" using 2 by (metis hd_dropWhile list.sel(1) list.discI)
  then have "length (dropWhile P s1) \<le> length cs" using c length_dropWhile_le [of P cs] by simp
  moreover have "length s1 \<le> length s" using 2 length_dropWhile_le [of "\<lambda>c. \<not> P c" s] by simp
  ultimately show ?case using c by simp
qed simp

declare runs.simps [simp del]

lemma runs_skip: "\<not> P c \<Longrightarrow> runs P (c # s) = runs P s"
  by (subst (1 2) runs.simps) simp

lemma runs_drop_separator: "runs P (drop 1 (dropWhile P s)) = runs P (dropWhile P s)"
proof (cases "dropWhile P s")
  case (Cons c cs)
  then have "\<not> P c" by (metis hd_dropWhile list.sel(1) list.discI)
  with Cons show ?thesis by (simp add: runs_skip)
qed (simp only: drop_Nil)

lemma find_from_eq: "i \<le> length b \<Longrightarrow> find_from P b i = i + length (takeWhile (\<lambda>c. \<not> P c) (drop i b))"
proof (induction P b i rule: find_from.induct)
  case (1 P b i)
  show ?case
  proof (cases "i < length b")
    case True
    then have "drop i b = b ! i # drop (Suc i) b" by (simp add: Cons_nth_drop_Suc)
    with 1 True show ?thesis by (subst find_from.simps) simp
  next
    case False
    with "1.prems" show ?thesis by (subst find_from.simps) simp
  qed
qed

lemma drop_length_takeWhile: "drop (length (takeWhile P s)) s = dropWhile P s"
  by (metis dropWhile_eq_drop)

lemma take_length_takeWhile: "take (length (takeWhile P s)) s = takeWhile P s"
  by (metis takeWhile_eq_take)

lemma ascii_tokens_runs: "i \<le> length b \<Longrightarrow> ascii_tokens_from b i = runs is_token_char (drop i b)"
proof (induction b i rule: ascii_tokens_from.induct)
  case (1 b i)
  show ?case
  proof (cases "i < length b")
    case False
    with "1.prems" show ?thesis by (subst ascii_tokens_from.simps, subst runs.simps) simp
  next
    case True
    define start where "start = find_from is_token_char b i"
    define s1 where "s1 = dropWhile (\<lambda>c. \<not> is_token_char c) (drop i b)"
    have start: "start = i + length (takeWhile (\<lambda>c. \<not> is_token_char c) (drop i b))"
      using find_from_eq [of i b is_token_char] True by (simp add: start_def)
    then have ds: "drop start b = s1"
      unfolding s1_def by (metis drop_drop drop_length_takeWhile add.commute)
    show ?thesis
    proof (cases "s1 = []")
      case True': True
      then have "start \<ge> length b" using ds by simp
      then have "start = length b" using find_from_bounds [of i b is_token_char] True by (simp add: start_def)
      then show ?thesis using True True' find_from_bounds [of "length b" b]
        by (subst ascii_tokens_from.simps, subst runs.simps)
           (simp add: Let_def flip: start_def s1_def)
    next
      case False
      then obtain c cs where c: "s1 = c # cs" by (cases s1) auto
      then have tc: "is_token_char c" unfolding s1_def by (metis hd_dropWhile list.sel(1) list.discI)
      have sl: "start < length b" using ds False by (metis drop_eq_Nil not_le)
      define e where "e = find_from (\<lambda>c. \<not> is_token_char c) b (start + 1)"
      have "drop (start + 1) b = cs" using ds c by (metis Suc_eq_plus1 drop_Suc tl_drop list.sel(3) drop_drop)
      then have e: "e = start + length (takeWhile is_token_char s1)"
        using find_from_eq [of "start + 1" b "\<lambda>c. \<not> is_token_char c"] sl c tc by (simp add: e_def)
      then have de: "drop e b = dropWhile is_token_char s1"
        using ds by (metis drop_drop drop_length_takeWhile add.commute)
      have el: "e \<le> length b" using find_from_bounds [of "start + 1" b] sl by (simp add: e_def)
      define i2 where "i2 = (if e < length b then e + 1 else length b)"
      have "drop i2 b = drop 1 (dropWhile is_token_char s1)"
        using de el by (auto simp: i2_def) (metis One_nat_def drop_Suc drop_0 tl_drop)
      then have r: "runs is_token_char (drop i2 b) = runs is_token_char (dropWhile is_token_char s1)"
        using runs_drop_separator [of is_token_char s1] by simp
      have ne: "\<not> e \<le> start" using e c tc by simp
      have e2: "find_from (\<lambda>c. \<not> is_token_char c) b (Suc start) = e" by (simp add: e_def)
      have "ascii_tokens_from b i = take (e - start) (drop start b) # ascii_tokens_from b i2"
        using True sl ne
        by (subst ascii_tokens_from.simps) (simp add: Let_def e2 i2_def flip: start_def)
      moreover have "take (e - start) (drop start b) = takeWhile is_token_char s1"
        using e ds by (simp add: take_length_takeWhile)
      moreover have "ascii_tokens_from b i2 = runs is_token_char (drop i2 b)"
        using "1.IH" [OF True start_def refl _ i2_def] sl e_def ne by (simp add: i2_def)
      moreover have "runs is_token_char (drop i b) = takeWhile is_token_char s1 # runs is_token_char (dropWhile is_token_char s1)"
        using False by (subst runs.simps) (simp add: Let_def flip: s1_def)
      ultimately show ?thesis using r by simp
    qed
  qed
qed

lemma is_ascii_drop: "is_ascii s \<Longrightarrow> is_ascii (drop n s)"
  unfolding is_ascii_def list_all_iff by (meson in_set_dropD)

lemma is_ascii_nth: "is_ascii s \<Longrightarrow> i < length s \<Longrightarrow> s ! i < 128"
  unfolding is_ascii_def list_all_iff by simp

lemma find_rune_ascii: "is_ascii s \<Longrightarrow> find_rune P s i = find_from (\<lambda>c. P (unat c)) s i"
proof (induction P s i rule: find_rune.induct)
  case (1 P s i)
  show ?case
  proof (cases "i < length s")
    case True
    have "decode_rune (drop i s) = (unat (s ! i), 1)"
      using True is_ascii_nth [OF "1.prems" True] by (simp add: decode_rune_ascii)
    with 1 True show ?thesis by (subst find_rune.simps, subst find_from.simps) simp
  next
    case False
    then show ?thesis by (subst find_rune.simps, subst find_from.simps) simp
  qed
qed

lemma unicode_tokens_ascii: "is_ascii s \<Longrightarrow> unicode_tokens tr s = runs (\<lambda>c. tr (unat c)) s"
proof (induction tr s rule: unicode_tokens.induct)
  case (1 tr s)
  let ?P = "\<lambda>c. tr (unat c)"
  define s1 where "s1 = dropWhile (\<lambda>c. \<not> ?P c) s"
  have s1: "drop (find_rune tr s 0) s = s1" "is_ascii s1"
    using "1.prems" find_from_eq [of 0 s ?P] is_ascii_drop [OF "1.prems", of "find_rune tr s 0"]
    by (simp_all add: find_rune_ascii s1_def drop_length_takeWhile)
  have n: "find_rune (\<lambda>r. \<not> tr r) s1 0 = length (takeWhile ?P s1)"
    using s1(2) find_from_eq [of 0 s1 "\<lambda>c. \<not> ?P c"] by (simp add: find_rune_ascii)
  show ?case
  proof (cases "s1 = []")
    case True
    then show ?thesis using s1(1) n by (subst unicode_tokens.simps, subst runs.simps) (simp add: Let_def flip: s1_def)
  next
    case False
    then obtain c cs where c: "s1 = c # cs" by (cases s1) auto
    then have "?P c" unfolding s1_def by (metis hd_dropWhile list.sel(1) list.discI)
    then have n0: "length (takeWhile ?P s1) \<noteq> 0" using c by simp
    have ns: "s \<noteq> []" using False s1_def by auto
    have "unicode_tokens tr s = takeWhile ?P s1 # unicode_tokens tr (dropWhile ?P s1)"
      using ns n n0 s1(1) by (subst unicode_tokens.simps) (simp add: Let_def take_length_takeWhile drop_length_takeWhile)
    moreover have "runs ?P s = takeWhile ?P s1 # runs ?P (dropWhile ?P s1)"
      using False by (subst runs.simps) (simp add: Let_def flip: s1_def)
    moreover have "unicode_tokens tr (dropWhile ?P s1) = runs ?P (dropWhile ?P s1)"
      using "1.IH" [OF ns s1(1) [symmetric] refl] n n0 s1(2) is_ascii_drop [OF s1(2), of "length (takeWhile ?P s1)"]
      by (simp add: drop_length_takeWhile)
    ultimately show ?thesis by simp
  qed
qed

lemma runs_cong: "(\<And>c. c \<in> set s \<Longrightarrow> P c = Q c) \<Longrightarrow> runs P s = runs Q s"
proof (induction Q s rule: runs.induct)
  case (1 Q s)
  let ?s1 = "dropWhile (\<lambda>c. \<not> Q c) s"
  have s1: "dropWhile (\<lambda>c. \<not> P c) s = ?s1" using "1.prems" by (intro dropWhile_cong) auto
  have PQ: "P c = Q c" if "c \<in> set ?s1" for c using "1.prems" that by (meson set_dropWhileD)
  then have t: "takeWhile P ?s1 = takeWhile Q ?s1" "dropWhile P ?s1 = dropWhile Q ?s1"
    by (auto intro!: takeWhile_cong dropWhile_cong)
  have "runs P (dropWhile Q ?s1) = runs Q (dropWhile Q ?s1)" if "?s1 \<noteq> []"
    using "1.IH" [OF refl that] PQ by (meson set_dropWhileD)
  then show ?case by (subst (1 2) runs.simps) (simp add: Let_def s1 t)
qed

lemma is_token_rune_ascii: "c < 128 \<Longrightarrow> is_token_rune lod (unat c) = is_token_char c"
  by (simp add: is_token_rune_def word_less_nat_alt)

text \<open>The ASCII path of the tokenizer returns what the Unicode path would.\<close>

lemma ascii_path_eq: "is_ascii s \<Longrightarrow> ascii_tokens_from s 0 = unicode_tokens (is_token_rune lod) s"
  using runs_cong [of s "\<lambda>c. is_token_rune lod (unat c)" is_token_char] is_token_rune_ascii
  by (simp add: ascii_tokens_runs unicode_tokens_ascii is_ascii_def list_all_iff)

lemma tokens_of_eq: "tokens_of lod s = unicode_tokens (is_token_rune lod) s"
  by (simp add: tokens_of_def ascii_path_eq)

subsection \<open>Registering tokens\<close>

text \<open>Hashes that are not in \<open>S\<close>, in the order of their first occurrence.\<close>

primrec new_hashes :: "'h set \<Rightarrow> 'h list \<Rightarrow> 'h list" where
  "new_hashes S [] = []"
| "new_hashes S (h # hs) = (if h \<in> S then new_hashes S hs else h # new_hashes (insert h S) hs)"

lemma set_new_hashes: "set (new_hashes S hs) = set hs - S"
  by (induction hs arbitrary: S) auto

lemma length_new_hashes: "length (new_hashes S hs) \<le> length hs"
  by (induction hs arbitrary: S) (auto intro: le_SucI)

lemma distinct_new_hashes: "distinct (new_hashes S hs)"
  by (induction hs arbitrary: S) (auto simp: set_new_hashes)

lemma new_hashes_append: "new_hashes S (hs @ hs') = new_hashes S hs @ new_hashes (S \<union> set hs) hs'"
  by (induction hs arbitrary: S) (auto simp: insert_absorb)

lemma new_hashes_seen: "set hs \<subseteq> S \<Longrightarrow> new_hashes S hs = []"
  by (induction hs) auto

definition bucket_of :: "u64 \<Rightarrow> nat" where
  "bucket_of h = unat (h mod 1024)"

lemma bucket_of_less: "bucket_of h < 1024"
  by (simp add: bucket_of_def unat_mod_distrib)

definition tok_wf :: "HashTokenizer \<Rightarrow> bool" where
  "tok_wf t \<longleftrightarrow> length (buckets t) = 1024 \<and> bitmap_wf (tok_bm t) \<and> bits_len (tok_bm t) = 1024 \<and>
    (\<forall>i < 1024. i \<notin> set_rows (tok_bm t) \<longrightarrow> bucket_overflow (buckets t ! i) = [])"

definition seen :: "HashTokenizer \<Rightarrow> u64 set" where
  "seen t = {h. bucket_of h \<in> set_rows (tok_bm t) \<and>
    (bucket_v (buckets t ! bucket_of h) = h \<or> h \<in> set (bucket_overflow (buckets t ! bucket_of h)))}"

lemma add_token_spec:
  assumes "tok_wf t"
  shows "\<exists>t'. add_token xxh64 t token = Ok ((xxh64 token, xxh64 token \<notin> seen t), t') \<and> tok_wf t' \<and>
    seen t' = insert (xxh64 token) (seen t)"
proof -
  let ?h = "xxh64 token"
  let ?i = "bucket_of ?h" and ?b = "buckets t ! bucket_of ?h"
  have len: "length (buckets t) = 1024" and wf: "bitmap_wf (tok_bm t)" "?i < bits_len (tok_bm t)"
    using assms bucket_of_less [of ?h] by (auto simp: tok_wf_def)
  have i: "unat (?h mod of_nat (length (buckets t))) = ?i" by (simp add: len bucket_of_def)
  have il: "\<not> length (buckets t) \<le> ?i" using len bucket_of_less [of ?h] by simp
  note unf = add_token_def Let_def i il is_set_bit_spec [OF wf]
  show ?thesis
  proof (cases "?i \<in> set_rows (tok_bm t)")
    case False
    obtain bm' where bm': "set_bit_at (tok_bm t) ?i = Ok bm'" "bitmap_wf bm'" "bits_len bm' = bits_len (tok_bm t)"
      "set_rows bm' = insert ?i (set_rows (tok_bm t))" using set_bit_at_spec [OF wf] by (elim exE conjE)
    let ?t = "t\<lparr>buckets := (buckets t)[?i := ?b\<lparr>bucket_v := ?h\<rparr>], tok_bm := bm'\<rparr>"
    have "add_token xxh64 t token = Ok ((?h, True), ?t)" using False bm'(1) by (simp add: unf)
    moreover have "?h \<notin> seen t" using False by (simp add: seen_def)
    moreover have "tok_wf ?t" using assms bm' il by (auto simp: tok_wf_def nth_list_update)
    moreover have "bucket_overflow ?b = []" using assms False bucket_of_less [of ?h] by (auto simp: tok_wf_def)
    then have "seen ?t = insert ?h (seen t)" using bm'(4) il False by (auto simp: seen_def nth_list_update)
    ultimately show ?thesis by simp
  next
    case True
    show ?thesis
    proof (cases "?h \<in> seen t")
      case seen: True
      then have "add_token xxh64 t token = Ok ((?h, False), t)" using True by (auto simp: unf seen_def)
      with seen assms show ?thesis by (auto simp: insert_absorb)
    next
      case False
      let ?t = "t\<lparr>buckets := (buckets t)[?i := ?b\<lparr>bucket_overflow := bucket_overflow ?b @ [?h]\<rparr>]\<rparr>"
      have "add_token xxh64 t token = Ok ((?h, True), ?t)" using True False by (auto simp: unf seen_def)
      moreover have "tok_wf ?t" using assms True il by (auto simp: tok_wf_def nth_list_update)
      moreover have "seen ?t = insert ?h (seen t)" using il True by (auto simp: seen_def nth_list_update)
      ultimately show ?thesis using False by simp
    qed
  qed
qed

lemma register_tokens_spec:
  assumes "tok_wf t"
  shows "\<exists>t'. register_tokens xxh64 t dst tokens = Ok (dst @ new_hashes (seen t) (map xxh64 tokens), t') \<and>
    tok_wf t' \<and> seen t' = seen t \<union> xxh64 ` set tokens"
  using assms
proof (induction tokens arbitrary: t dst)
  case (Cons token tokens)
  obtain t1 where t1: "add_token xxh64 t token = Ok ((xxh64 token, xxh64 token \<notin> seen t), t1)" "tok_wf t1"
    "seen t1 = insert (xxh64 token) (seen t)" using add_token_spec [OF Cons.prems] by metis
  from Cons.IH [OF t1(2), of "if xxh64 token \<notin> seen t then dst @ [xxh64 token] else dst"] t1 show ?case
    by (auto simp: insert_absorb)
qed simp

subsection \<open>Reset and reuse\<close>

lemma fold_reset_buckets:
  "length (fold (\<lambda>i bs. bs[i := bucket_reset (bs ! i)]) js bs) = length bs \<and>
   (\<forall>k < length bs. fold (\<lambda>i bs. bs[i := bucket_reset (bs ! i)]) js bs ! k =
      (if k \<in> set js then bucket_reset (bs ! k) else bs ! k))"
proof (induction js arbitrary: bs)
  case (Cons j js)
  let ?b = "bs[j := bucket_reset (bs ! j)]"
  from Cons.IH [of ?b] show ?case
    by (cases "j < length bs") (auto simp: nth_list_update bucket_reset_def list_update_beyond)
qed simp

lemma hash_tokenizer_reset_spec:
  assumes "tok_wf t"
  shows "tok_wf (hash_tokenizer_reset t)" "seen (hash_tokenizer_reset t) = {}"
proof -
  let ?r = "hash_tokenizer_reset t"
  have len: "length (buckets t) = 1024" and wf: "bitmap_wf (tok_bm t)" and bl: "bits_len (tok_bm t) = 1024"
    and ov: "\<And>i. i < 1024 \<Longrightarrow> i \<notin> set_rows (tok_bm t) \<Longrightarrow> bucket_overflow (buckets t ! i) = []"
    using assms by (auto simp: tok_wf_def)
  have "length (buckets ?r) = 1024 \<and> bitmap_wf (tok_bm ?r) \<and> bits_len (tok_bm ?r) = 1024 \<and>
      set_rows (tok_bm ?r) = {} \<and> (\<forall>i < 1024. bucket_overflow (buckets ?r ! i) = [])"
  proof (cases "ones_count (tok_bm t) \<le> length (buckets t) div 4")
    case True
    obtain bm' bs where f: "for_each_set_bit (\<lambda>idx bs. (False, bs[idx := bucket_reset (bs ! idx)])) (tok_bm t) (buckets t) = (bm', bs)"
      by fastforce
    have r: "?r = t\<lparr>buckets := bs, tok_bm := bm'\<rparr>" using True f by (simp add: hash_tokenizer_reset_def)
    have bs: "bs = fold (\<lambda>i bs. bs[i := bucket_reset (bs ! i)]) (bit_list (tok_bm t)) (buckets t)" "set_rows bm' = {}"
      using for_each_set_bit_filter [OF wf f] by simp_all
    have "bucket_overflow (bs ! i) = []" if "i < 1024" for i
      using fold_reset_buckets [of "bit_list (tok_bm t)" "buckets t"] that len ov [OF that]
      by (auto simp: bs(1) bucket_reset_def set_rows_def)
    with r bs f for_each_set_bit_refines(2,3) [OF wf f] fold_reset_buckets [of "bit_list (tok_bm t)" "buckets t"] len bl
    show ?thesis by simp
  next
    case False
    then have "?r = t\<lparr>buckets := map bucket_reset (buckets t), tok_bm := bitmap_init (tok_bm t) 1024\<rparr>"
      by (simp add: hash_tokenizer_reset_def len)
    with init_spec [of "tok_bm t" 1024] len show ?thesis by (simp add: bucket_reset_def)
  qed
  then show "tok_wf ?r" "seen ?r = {}" by (auto simp: tok_wf_def seen_def)
qed

lemma new_hash_tokenizer_spec: "tok_wf new_hash_tokenizer" "seen new_hash_tokenizer = {}"
  using init_spec [of bitmap_default 1024]
  by (auto simp: tok_wf_def seen_def new_hash_tokenizer_def HASH_TOKENIZER_BUCKETS_COUNT_def)

definition tok_pool_ok :: "HashTokenizer list \<Rightarrow> bool" where
  "tok_pool_ok pool \<longleftrightarrow> (\<forall>t \<in> set pool. tok_wf t \<and> seen t = {})"

lemma get_hash_tokenizer_spec:
  "tok_pool_ok pool \<Longrightarrow> get_hash_tokenizer pool = (t, pool') \<Longrightarrow> tok_wf t \<and> seen t = {} \<and> tok_pool_ok pool'"
  by (auto simp: get_hash_tokenizer_def tok_pool_ok_def new_hash_tokenizer_spec split: if_splits dest: in_set_butlastD)

lemma put_hash_tokenizer_spec: "tok_pool_ok pool \<Longrightarrow> tok_wf t \<Longrightarrow> tok_pool_ok (put_hash_tokenizer pool t)"
  by (auto simp: put_hash_tokenizer_def tok_pool_ok_def hash_tokenizer_reset_spec)

definition all_hashes :: "(bytes \<Rightarrow> u64) \<Rightarrow> (nat \<Rightarrow> bool) \<Rightarrow> bytes list \<Rightarrow> u64 list" where
  "all_hashes xxh64 lod a = concat (map (\<lambda>s. map xxh64 (tokens_of lod s)) a)"

lemma tokenize_strings_loop_spec:
  assumes "tok_wf t" "\<And>s. prev = Some s \<Longrightarrow> xxh64 ` set (tokens_of lod s) \<subseteq> seen t"
  shows "\<exists>t'. tokenize_strings_loop xxh64 lod t dst prev a =
    Ok (dst @ new_hashes (seen t) (all_hashes xxh64 lod a), t') \<and> tok_wf t'"
  using assms
proof (induction a arbitrary: t dst prev)
  case (Cons s a)
  show ?case
  proof (cases "prev = Some s")
    case True
    then have "new_hashes (seen t) (map xxh64 (tokens_of lod s)) = []" "seen t \<union> xxh64 ` set (tokens_of lod s) = seen t"
      using Cons.prems(2) [OF True] by (simp_all add: new_hashes_seen Un_absorb2)
    then show ?thesis using True Cons.IH [of t "Some s" dst] Cons.prems
      by (auto simp: all_hashes_def new_hashes_append)
  next
    case False
    obtain t1 where t1: "register_tokens xxh64 t dst (tokens_of lod s) = Ok (dst @ new_hashes (seen t) (map xxh64 (tokens_of lod s)), t1)"
      "tok_wf t1" "seen t1 = seen t \<union> xxh64 ` set (tokens_of lod s)"
      using register_tokens_spec [OF Cons.prems(1), of xxh64 dst "tokens_of lod s"] by (elim exE conjE)
    with Cons.IH [of t1 "Some s" "dst @ new_hashes (seen t) (map xxh64 (tokens_of lod s))"] False show ?thesis
      by (auto simp: all_hashes_def new_hashes_append tokenize_string_def)
  qed
qed (simp add: all_hashes_def)

lemma tokenize_hashes_spec:
  assumes "tok_pool_ok pool"
  shows "\<exists>pool'. tokenize_hashes xxh64 lod pool dst a = Ok (dst @ new_hashes {} (all_hashes xxh64 lod a), pool') \<and>
    tok_pool_ok pool'"
proof -
  obtain t pool1 where g: "get_hash_tokenizer pool = (t, pool1)" by fastforce
  then have t: "tok_wf t" "seen t = {}" "tok_pool_ok pool1" using get_hash_tokenizer_spec [OF assms] by blast+
  from tokenize_strings_loop_spec [OF t(1), of None xxh64 lod dst a] t(2) obtain t' where
    "tokenize_strings_loop xxh64 lod t dst None a = Ok (dst @ new_hashes {} (all_hashes xxh64 lod a), t')" "tok_wf t'"
    by auto
  with g t(3) show ?thesis by (auto simp: tokenize_hashes_def intro: put_hash_tokenizer_spec)
qed

subsection \<open>The byte tokenizer\<close>

lemma register_bytes:
  "foldl (\<lambda>(dst, m) token. if token \<in> m then (dst, m) else (dst @ [token], insert token m)) (dst, m) ts =
    (dst @ new_hashes m ts, m \<union> set ts)"
  by (induction ts arbitrary: dst m) (auto simp: insert_absorb)

lemma skip_repeats_tokens:
  assumes "\<And>s. prev = Some s \<Longrightarrow> set (f s) \<subseteq> m"
  shows "new_hashes m (concat (map f (skip_repeats prev a))) = new_hashes m (concat (map f a))"
  using assms
proof (induction a arbitrary: prev m)
  case (Cons s a)
  show ?case
  proof (cases "prev = Some s")
    case True
    then have "new_hashes m (f s) = []" "m \<union> set (f s) = m" using Cons.prems by (auto intro: new_hashes_seen)
    then show ?thesis using True Cons.IH [of "Some s" m] Cons.prems by (simp add: new_hashes_append)
  next
    case False
    then show ?thesis using Cons.IH [of "Some s" "m \<union> set (f s)"] by (simp add: new_hashes_append)
  qed
qed simp

lemma foldl_tokenize_bytes:
  "foldl (tokenize_bytes_one lod) (dst, m) a =
    (dst @ new_hashes m (concat (map (unicode_tokens (is_token_rune lod)) a)),
     m \<union> set (concat (map (unicode_tokens (is_token_rune lod)) a)))"
  by (induction a arbitrary: dst m)
     (simp_all add: tokenize_bytes_one_def register_bytes new_hashes_append Un_assoc)

lemma tokenize_bytes_eq: "tokenize_bytes lod dst a = dst @ new_hashes {} (concat (map (tokens_of lod) a))"
  using skip_repeats_tokens [of None "unicode_tokens (is_token_rune lod)" "{}" a]
  by (simp add: tokenize_bytes_def foldl_tokenize_bytes tokens_of_eq [abs_def])

subsection \<open>Properties\<close>

text \<open>C34: The byte-wise fast path of the tokenizer for ASCII text finds exactly the tokens that the
  rune-wise path finds, so a token is the same whether or not the text around it is ASCII.\<close>

theorem ascii_tokenizer_agrees:
  "tokens_of lod s = unicode_tokens (is_token_rune lod) s"
  by (rule tokens_of_eq)

text \<open>C22: The hash tokenizer returns the hash of every token of every value exactly once, in the order
  of first occurrence. Its bucket table with a one-entry fast slot, an overflow list and a bitmap of
  used buckets is reset so that a tokenizer taken from the pool has seen nothing.\<close>

theorem tokenize_hashes_once:
  assumes "tok_pool_ok pool"
  shows "\<exists>hs pool'. tokenize_hashes xxh64 lod pool dst a = Ok (dst @ hs, pool') \<and> tok_pool_ok pool' \<and>
    distinct hs \<and> set hs = {xxh64 t |t s. s \<in> set a \<and> t \<in> set (tokens_of lod s)} \<and>
    hs = new_hashes {} (all_hashes xxh64 lod a)"
proof -
  obtain pool' where p: "tokenize_hashes xxh64 lod pool dst a = Ok (dst @ new_hashes {} (all_hashes xxh64 lod a), pool')"
    "tok_pool_ok pool'" using tokenize_hashes_spec [OF assms] by blast
  have "set (new_hashes {} (all_hashes xxh64 lod a)) = {xxh64 t |t s. s \<in> set a \<and> t \<in> set (tokens_of lod s)}"
    by (auto simp: set_new_hashes all_hashes_def)
  with p show ?thesis using distinct_new_hashes [of "{}" "all_hashes xxh64 lod a"] by blast
qed

theorem tokenize_hashes_once_witness:
  "\<exists>hs pool'. tokenize_hashes (\<lambda>b. from_be_bytes b) (\<lambda>_. False) [] [] [[97, 32, 98], [98]] = Ok ([] @ hs, pool') \<and>
    distinct hs"
  using tokenize_hashes_once [of "[]" "\<lambda>b. from_be_bytes b" "\<lambda>_. False" "[]" "[[97, 32, 98], [98]]"]
  by (auto simp: tok_pool_ok_def)

text \<open>The plain tokenizer that queries use lists every distinct token of the given values once, in
  the order of first occurrence; skipping a value equal to the one before it changes nothing.\<close>

lemma tokenize_bytes_once:
  "\<exists>ts. tokenize_bytes lod dst a = dst @ ts \<and> distinct ts \<and>
    set ts = {t. \<exists>s \<in> set a. t \<in> set (tokens_of lod s)}"
proof -
  let ?ts = "new_hashes {} (concat (map (tokens_of lod) a))"
  have "set ?ts = {t. \<exists>s \<in> set a. t \<in> set (tokens_of lod s)}" by (auto simp: set_new_hashes)
  then show ?thesis using tokenize_bytes_eq [of lod dst a] distinct_new_hashes [of "{}"] by blast
qed
end
