(* ===== verification/Values_Encoder.thy ===== *)
theory Values_Encoder
  imports Time_Format
begin

text \<open>
  The column encoder of \<^verbatim>\<open>esl-logstorage/src/values_encoder.rs\<close>: \<open>ValuesEncoder::encode\<close> picks the
  smallest representation of the values of a column (dictionary, integers of 8 to 64 bits, floats,
  IPv4 addresses, ISO 8601 timestamps or plain strings), and \<open>ValuesDecoder::decode_inplace\<close> prints
  the values back. The lemmas show what the decoder returns for every encoding, which values survive
  the round trip unchanged, and that the minimum and maximum kept for a column bound its values.

  \<open>f64\<close> arithmetic is the argument \<open>f64\<close>, a record of the operations the code uses over a type
  variable of floats.
\<close>

unbundle bit_operations_syntax

subsection \<open>Definitions: value types\<close>

datatype ValueType = ValueType (vt_byte: u8)

definition UNKNOWN :: ValueType where "UNKNOWN = ValueType 0"
definition STRING :: ValueType where "STRING = ValueType 1"
definition DICT :: ValueType where "DICT = ValueType 2"
definition UINT8 :: ValueType where "UINT8 = ValueType 3"
definition UINT16 :: ValueType where "UINT16 = ValueType 4"
definition UINT32 :: ValueType where "UINT32 = ValueType 5"
definition UINT64 :: ValueType where "UINT64 = ValueType 6"
definition INT64 :: ValueType where "INT64 = ValueType 10"
definition FLOAT64 :: ValueType where "FLOAT64 = ValueType 7"
definition IPV4 :: ValueType where "IPV4 = ValueType 8"
definition TIMESTAMP_ISO8601 :: ValueType where "TIMESTAMP_ISO8601 = ValueType 9"

lemmas vt_defs = UNKNOWN_def STRING_def DICT_def UINT8_def UINT16_def UINT32_def UINT64_def INT64_def
  FLOAT64_def IPV4_def TIMESTAMP_ISO8601_def

definition value_type_display :: "ValueType \<Rightarrow> bytes" where
  "value_type_display vt =
    (if vt = UNKNOWN then ascii ''unknown''
     else if vt = STRING then ascii ''string''
     else if vt = DICT then ascii ''dict''
     else if vt = UINT8 then ascii ''uint8''
     else if vt = UINT16 then ascii ''uint16''
     else if vt = UINT32 then ascii ''uint32''
     else if vt = UINT64 then ascii ''uint64''
     else if vt = INT64 then ascii ''int64''
     else if vt = FLOAT64 then ascii ''float64''
     else if vt = IPV4 then ascii ''ipv4''
     else if vt = TIMESTAMP_ISO8601 then ascii ''iso8601''
     else ascii ''unknown valueType='' @ fmt_nat (unat (vt_byte vt)))"

text \<open>The \<open>f64\<close> operations of the sources.\<close>

record 'f f64_ops =
  f_zero :: 'f
  f_of_u64 :: "u64 \<Rightarrow> 'f"
  f_pow10_tab :: "nat \<Rightarrow> 'f"
  f_neg :: "'f \<Rightarrow> 'f"
  f_mul :: "'f \<Rightarrow> 'f \<Rightarrow> 'f"
  f_div :: "'f \<Rightarrow> 'f \<Rightarrow> 'f"
  f_mul_add :: "'f \<Rightarrow> 'f \<Rightarrow> 'f \<Rightarrow> 'f"
  f_less :: "'f \<Rightarrow> 'f \<Rightarrow> bool"
  f_is_nan :: "'f \<Rightarrow> bool"
  f_is_infinite :: "'f \<Rightarrow> bool"
  f_fract_zero :: "'f \<Rightarrow> bool"
  f_as_i64 :: "'f \<Rightarrow> i64"
  f_to_bits :: "'f \<Rightarrow> u64"
  f_from_bits :: "u64 \<Rightarrow> 'f"
  f_display :: "'f \<Rightarrow> bytes"

subsection \<open>Definitions: parsing values\<close>

text \<open>The loop of \<open>try_parse_uint64_bytes\<close>: underscores are skipped, overflow is detected.\<close>

primrec uint64_digits :: "u64 \<Rightarrow> bytes \<Rightarrow> u64 option" where
  "uint64_digits n [] = Some n"
| "uint64_digits n (ch # b) =
    (if ch = 95 then uint64_digits n b
     else if \<not> is_digit ch then None
     else if n > (- 1) div 10 then None
     else let n = n * 10; n1 = n + ucast (ch - 48) in
       if n1 < n then None else uint64_digits n1 b)"

definition try_parse_uint64_bytes :: "bytes \<Rightarrow> u64 option" where
  "try_parse_uint64_bytes b =
    (if b = [] \<or> length b > length ''18_446_744_073_709_551_615'' then None
     else if length b > 1 \<and> b ! 0 = 48 then None
     else uint64_digits 0 b)"

definition try_parse_int64_bytes :: "bytes \<Rightarrow> i64 option" where
  "try_parse_int64_bytes s =
    (if s = [] then None else
     let is_minus = (s ! 0 = 45); s = (if is_minus then drop 1 s else s) in
     Option.bind (try_parse_uint64_bytes s) (\<lambda>n.
     if n \<ge> push_bit 63 1 then (if is_minus \<and> n = push_bit 63 1 then Some i64_MIN else None)
     else Some (if is_minus then - n else n)))"

text \<open>\<open>Iterator::position\<close>: the first index whose byte satisfies the predicate.\<close>

fun position :: "('a \<Rightarrow> bool) \<Rightarrow> 'a list \<Rightarrow> nat option" where
  "position P [] = None"
| "position P (x # xs) = (if P x then Some 0 else map_option Suc (position P xs))"

text \<open>One round of the loop over the first three octets: the octet and the rest of the string.\<close>

definition ipv4_octet :: "bytes \<Rightarrow> (u8 \<times> bytes) option" where
  "ipv4_octet s =
    Option.bind (position (\<lambda>c. c = 46) s) (\<lambda>n.
    if n = 0 \<or> n > 3 then None else
    Option.bind (try_parse_date_uint64 (take n s)) (\<lambda>v.
    if v > 255 then None else Some (ucast v, drop (n + 1) s)))"

definition try_parse_ipv4_bytes :: "bytes \<Rightarrow> u32 option" where
  "try_parse_ipv4_bytes b =
    (if length b < length ''1.1.1.1'' \<or> length b > length ''255.255.255.255'' \<or>
        length (filter (\<lambda>c. c = 46) b) \<noteq> 3 then None else
     Option.bind (ipv4_octet b) (\<lambda>(o0, s).
     Option.bind (ipv4_octet s) (\<lambda>(o1, s).
     Option.bind (ipv4_octet s) (\<lambda>(o2, s).
     Option.bind (try_parse_date_uint64 s) (\<lambda>v.
     if v > 255 then None else Some (from_be_bytes [o0, o1, o2, ucast v]))))))"

definition try_parse_ipv4_mask :: "bytes \<Rightarrow> u64 option" where
  "try_parse_ipv4_mask s =
    (if s \<noteq> [] \<and> hd s = 47 then
       Option.bind (try_parse_uint64_bytes (tl s)) (\<lambda>n.
       if n > 32 then None else Some (push_bit (unat (32 - n)) 1))
     else None)"

text \<open>
  \<open>pow10\<close> for the exponents its callers reach: the input has at most 27 bytes, so the exponent lies
  between \<open>- 27\<close> and 0 and the table of 32 powers suffices.
\<close>

definition pow10 :: "'f f64_ops \<Rightarrow> int \<Rightarrow> 'f" where
  "pow10 f64 n =
    (if 0 \<le> n then f_pow10_tab f64 (nat n)
     else f_div f64 (f_pow10_tab f64 0) (f_pow10_tab f64 (nat (- n))))"

text \<open>The count of leading zeros of the fraction that are skipped; the last digit is kept.\<close>

fun skip_frac_zeros :: "bytes \<Rightarrow> bytes" where
  "skip_frac_zeros (c # c' # cs) = (if c = 48 then skip_frac_zeros (c' # cs) else c # c' # cs)"
| "skip_frac_zeros cs = cs"

definition try_parse_float64_internal :: "'f f64_ops \<Rightarrow> bytes \<Rightarrow> bool \<Rightarrow> 'f option" where
  "try_parse_float64_internal f64 s is_exact =
    (if s = [] \<or> length s > length ''-18_446_744_073_709_551_615'' then None else
     let minus = (s ! 0 = 45); s = (if minus then drop 1 s else s) in
     case position (\<lambda>c. c = 46) s of
       None \<Rightarrow>
         Option.bind (try_parse_uint64_bytes s) (\<lambda>n.
         if is_exact \<and> n \<ge> push_bit 53 1 then None
         else let f = f_of_u64 f64 n in Some (if minus then f_neg f64 f else f))
     | Some n \<Rightarrow>
         if n = 0 \<or> n = length s - 1 then None else
         let s_int = take n s; s_frac = drop (n + 1) s in
         Option.bind (try_parse_uint64_bytes s_int) (\<lambda>n_int.
         Option.bind (try_parse_uint64_bytes (skip_frac_zeros s_frac)) (\<lambda>n_frac.
         let underscores = int (length (filter (\<lambda>c. c = 95) s_frac));
             p10 = pow10 f64 (underscores - int (length s_frac));
             f = f_mul_add f64 (f_of_u64 f64 n_frac) p10 (f_of_u64 f64 n_int)
         in Some (if minus then f_neg f64 f else f))))"

definition try_parse_float64 :: "'f f64_ops \<Rightarrow> bytes \<Rightarrow> 'f option" where
  "try_parse_float64 f64 s = try_parse_float64_internal f64 s False"

definition try_parse_float64_exact_bytes :: "'f f64_ops \<Rightarrow> bytes \<Rightarrow> 'f option" where
  "try_parse_float64_exact_bytes f64 s = try_parse_float64_internal f64 s True"

subsection \<open>Definitions: the dictionary\<close>

record ValuesDict =
  dict_values :: "bytes list"

definition MAX_DICT_SIZE_BYTES :: nat where "MAX_DICT_SIZE_BYTES = 256"
definition MAX_DICT_LEN :: nat where "MAX_DICT_LEN = 8"

definition dict_reset :: "ValuesDict \<Rightarrow> ValuesDict" where
  "dict_reset d = d\<lparr>dict_values := []\<rparr>"

definition copy_from_no_arena :: "ValuesDict \<Rightarrow> ValuesDict \<Rightarrow> ValuesDict" where
  "copy_from_no_arena d src = (let d = dict_reset d in d\<lparr>dict_values := dict_values d @ dict_values src\<rparr>)"

text \<open>The search of \<open>get_or_add\<close>: the index of the key, or the size of the values passed over.\<close>

primrec dict_find :: "bytes \<Rightarrow> nat \<Rightarrow> nat \<Rightarrow> bytes list \<Rightarrow> nat + nat" where
  "dict_find k i dict_size_bytes [] = Inr dict_size_bytes"
| "dict_find k i dict_size_bytes (v # vs) =
    (if k = v then Inl i else dict_find k (Suc i) (dict_size_bytes + length v) vs)"

definition get_or_add :: "ValuesDict \<Rightarrow> bytes \<Rightarrow> ValuesDict \<times> u8 option" where
  "get_or_add d k =
    (if length k > MAX_DICT_SIZE_BYTES then (d, None)
     else case dict_find k 0 0 (dict_values d) of
       Inl i \<Rightarrow> (d, Some (of_nat i))
     | Inr dict_size_bytes \<Rightarrow>
         if length (dict_values d) \<ge> MAX_DICT_LEN \<or> dict_size_bytes + length k > MAX_DICT_SIZE_BYTES then (d, None)
         else let d = d\<lparr>dict_values := dict_values d @ [k]\<rparr> in
           (d, Some (of_nat (length (dict_values d) - 1))))"

primrec marshal_strings :: "bytes \<Rightarrow> bytes list \<Rightarrow> bytes" where
  "marshal_strings dst [] = dst"
| "marshal_strings dst (v # a) = marshal_strings (marshal_bytes dst v) a"

definition dict_marshal :: "ValuesDict \<Rightarrow> bytes \<Rightarrow> (bytes, unit) outcome" where
  "dict_marshal d dst =
    (if length (dict_values d) > MAX_DICT_LEN then Panic
     else Ok (marshal_strings (dst @ [of_nat (length (dict_values d))]) (dict_values d)))"

datatype values_error =
    DictLenMissing
  | DictValue nat nat
  | DictId nat nat
  | ValueLength ValueType nat
  | UnknownValueType u8

primrec dict_unmarshal_loop :: "nat \<Rightarrow> nat \<Rightarrow> bytes list \<Rightarrow> bytes \<Rightarrow> (bytes list \<times> bytes, values_error) outcome" where
  "dict_unmarshal_loop dict_len 0 acc src = Ok (acc, src)"
| "dict_unmarshal_loop dict_len (Suc k) acc src =
    (let (data, n_size) = unmarshal_bytes src in
     if n_size \<le> 0 then Err (DictValue (dict_len - Suc k) dict_len)
     else case data of
       None \<Rightarrow> Panic
     | Some data \<Rightarrow> dict_unmarshal_loop dict_len k (acc @ [data]) (drop (nat n_size) src))"

definition dict_unmarshal_inplace :: "ValuesDict \<Rightarrow> bytes \<Rightarrow> (ValuesDict \<times> bytes, values_error) outcome" where
  "dict_unmarshal_inplace d src =
    (let d = dict_reset d in
     if src = [] then Err DictLenMissing
     else let dict_len = unat (src ! 0) in
       obind (dict_unmarshal_loop dict_len dict_len [] (drop 1 src)) (\<lambda>(vs, src).
       Ok (d\<lparr>dict_values := vs\<rparr>, src)))"

subsection \<open>Definitions: the encoder\<close>

record ValuesEncoder =
  ve_buf :: bytes
  ve_ranges :: "(nat \<times> nat) list"

definition ve_reset :: "ValuesEncoder \<Rightarrow> ValuesEncoder" where
  "ve_reset ve = ve\<lparr>ve_buf := [], ve_ranges := []\<rparr>"

definition ve_values :: "ValuesEncoder \<Rightarrow> bytes list" where
  "ve_values ve = map (\<lambda>(start, stop). take (stop - start) (drop start (ve_buf ve))) (ve_ranges ve)"

text \<open>Appending an encoded value to the buffer and its range to the ranges.\<close>

definition push_value :: "bytes \<Rightarrow> ValuesEncoder \<Rightarrow> ValuesEncoder" where
  "push_value b ve =
    (let start = length (ve_buf ve); buf = ve_buf ve @ b
     in ve\<lparr>ve_buf := buf, ve_ranges := ve_ranges ve @ [(start, length buf)]\<rparr>)"

text \<open>
  The first loop of the numeric encodings: it parses every value, and keeps the minimum and the
  maximum; \<open>first\<close> is the test \<open>i == 0\<close>.
\<close>

fun parse_values :: "(bytes \<Rightarrow> 'n option) \<Rightarrow> ('n \<Rightarrow> 'n \<Rightarrow> bool) \<Rightarrow> bool \<Rightarrow> 'n \<Rightarrow> 'n \<Rightarrow> bytes list \<Rightarrow>
    ('n list \<times> 'n \<times> 'n) option" where
  "parse_values parse lt first min_value max_value [] = Some ([], min_value, max_value)"
| "parse_values parse lt first min_value max_value (v # vs) =
    Option.bind (parse v) (\<lambda>n.
    let min_value = (if first \<or> lt n min_value then n else min_value);
        max_value = (if first \<or> lt max_value n then n else max_value)
    in map_option (\<lambda>(a, mn, mx). (n # a, mn, mx)) (parse_values parse lt False min_value max_value vs))"

type_synonym encoded = "ValuesEncoder \<times> ValueType \<times> u64 \<times> u64"

definition try_timestamp_iso8601_encoding :: "ValuesEncoder \<Rightarrow> bytes list \<Rightarrow> encoded" where
  "try_timestamp_iso8601_encoding ve src_values =
    (case parse_values try_parse_timestamp_iso8601_bytes (<s) True 0 0 src_values of
       None \<Rightarrow> (ve, UNKNOWN, 0, 0)
     | Some (i64s, min_value, max_value) \<Rightarrow>
         (fold (\<lambda>n. push_value (marshal_uint64 [] n)) i64s ve, TIMESTAMP_ISO8601, min_value, max_value))"

definition try_ipv4_encoding :: "ValuesEncoder \<Rightarrow> bytes list \<Rightarrow> encoded" where
  "try_ipv4_encoding ve src_values =
    (case parse_values try_parse_ipv4_bytes (<) True 0 0 src_values of
       None \<Rightarrow> (ve, UNKNOWN, 0, 0)
     | Some (u32s, min_value, max_value) \<Rightarrow>
         (fold (\<lambda>n. push_value (marshal_uint32 [] n)) u32s ve, IPV4, ucast min_value, ucast max_value))"

definition try_float64_encoding :: "'f f64_ops \<Rightarrow> ValuesEncoder \<Rightarrow> bytes list \<Rightarrow> encoded" where
  "try_float64_encoding f64 ve src_values =
    (case parse_values (try_parse_float64_exact_bytes f64) (f_less f64) True (f_zero f64) (f_zero f64) src_values of
       None \<Rightarrow> (ve, UNKNOWN, 0, 0)
     | Some (fs, min_value, max_value) \<Rightarrow>
         (fold (\<lambda>f. push_value (marshal_uint64 [] (f_to_bits f64 f))) fs ve, FLOAT64,
          f_to_bits f64 min_value, f_to_bits f64 max_value))"

definition try_int_encoding :: "ValuesEncoder \<Rightarrow> bytes list \<Rightarrow> encoded" where
  "try_int_encoding ve src_values =
    (case parse_values try_parse_int64_bytes (<s) True 0 0 src_values of
       None \<Rightarrow> (ve, UNKNOWN, 0, 0)
     | Some (i64s, min_value, max_value) \<Rightarrow>
         (fold (\<lambda>n. push_value (marshal_int64 [] n)) i64s ve, INT64, min_value, max_value))"

text \<open>\<open>64 - n.leading_zeros()\<close>: the number of significant bits.\<close>

definition bit_size :: "u64 \<Rightarrow> nat" where
  "bit_size n = bit_len (unat n)"

definition try_uint_encoding :: "ValuesEncoder \<Rightarrow> bytes list \<Rightarrow> encoded" where
  "try_uint_encoding ve src_values =
    (case parse_values try_parse_uint64_bytes (<) True 0 0 src_values of
       None \<Rightarrow> (ve, UNKNOWN, 0, 0)
     | Some (u64s, min_value, max_value) \<Rightarrow>
         let min_bit_size = bit_size max_value in
         if min_bit_size \<le> 8 then
           (fold (\<lambda>n. push_value [ucast n]) u64s ve, UINT8, min_value, max_value)
         else if min_bit_size \<le> 16 then
           (fold (\<lambda>n. push_value (marshal_uint16 [] (ucast n))) u64s ve, UINT16, min_value, max_value)
         else if min_bit_size \<le> 32 then
           (fold (\<lambda>n. push_value (marshal_uint32 [] (ucast n))) u64s ve, UINT32, min_value, max_value)
         else
           (fold (\<lambda>n. push_value (marshal_uint64 [] n)) u64s ve, UINT64, min_value, max_value))"

text \<open>The loop of \<open>try_dict_encoding\<close>; \<open>None\<close> is a value that does not fit into the dictionary.\<close>

primrec dict_loop :: "ValuesEncoder \<Rightarrow> ValuesDict \<Rightarrow> bytes list \<Rightarrow> (ValuesEncoder \<times> ValuesDict) option" where
  "dict_loop ve d [] = Some (ve, d)"
| "dict_loop ve d (v # vs) =
    (case get_or_add d v of
       (d, None) \<Rightarrow> None
     | (d, Some i) \<Rightarrow> dict_loop (push_value [i] ve) d vs)"

definition try_dict_encoding ::
  "ValuesEncoder \<Rightarrow> bytes list \<Rightarrow> ValuesDict \<Rightarrow> ValuesEncoder \<times> ValuesDict \<times> ValueType" where
  "try_dict_encoding ve src_values d =
    (case dict_loop ve (dict_reset d) src_values of
       None \<Rightarrow> (ve, dict_reset d, UNKNOWN)
     | Some (ve, d) \<Rightarrow> (ve, d, DICT))"

text \<open>The loop over the encodings: the first one that accepts all the values is taken.\<close>

primrec try_encodings :: "(ValuesEncoder \<Rightarrow> bytes list \<Rightarrow> encoded) list \<Rightarrow> ValuesEncoder \<Rightarrow> bytes list \<Rightarrow> encoded" where
  "try_encodings [] ve values =
    (let ve = ve_reset ve in (fold push_value values ve, STRING, 0, 0))"
| "try_encodings (t # ts) ve values =
    (case t (ve_reset ve) values of
       (ve, vt, min_value, max_value) \<Rightarrow>
         if vt \<noteq> UNKNOWN then (ve, vt, min_value, max_value) else try_encodings ts ve values)"

definition encode :: "'f f64_ops \<Rightarrow> ValuesEncoder \<Rightarrow> bytes list \<Rightarrow> ValuesDict \<Rightarrow>
    ValuesEncoder \<times> ValuesDict \<times> ValueType \<times> u64 \<times> u64" where
  "encode f64 ve values d =
    (let ve = ve_reset ve in
     if values = [] then (ve, d, STRING, 0, 0)
     else case try_dict_encoding ve values d of
       (ve, d, vt) \<Rightarrow>
         if vt \<noteq> UNKNOWN then (ve, d, vt, 0, 0)
         else case try_encodings [try_uint_encoding, try_int_encoding, try_float64_encoding f64,
                                  try_ipv4_encoding, try_timestamp_iso8601_encoding] ve values of
           (ve, vt, min_value, max_value) \<Rightarrow> (ve, d, vt, min_value, max_value))"

subsection \<open>Definitions: the decoder\<close>

definition marshal_uint8_string :: "bytes \<Rightarrow> u8 \<Rightarrow> bytes" where
  "marshal_uint8_string dst n =
    (if n < 10 then dst @ [48 + n]
     else if n < 100 then dst @ [48 + n div 10, 48 + n mod 10]
     else let (dst, n) = (if n < 200 then (dst @ [49], n - 100) else (dst @ [50], n - 200)) in
       if n < 10 then dst @ [48, 48 + n]
       else dst @ [48 + n div 10, 48 + n mod 10])"

definition marshal_uint64_string :: "bytes \<Rightarrow> u64 \<Rightarrow> bytes" where
  "marshal_uint64_string dst n = dst @ fmt_nat (unat n)"

definition marshal_uint16_string :: "bytes \<Rightarrow> u16 \<Rightarrow> bytes" where
  "marshal_uint16_string dst n = marshal_uint64_string dst (ucast n)"

definition marshal_uint32_string :: "bytes \<Rightarrow> u32 \<Rightarrow> bytes" where
  "marshal_uint32_string dst n = marshal_uint64_string dst (ucast n)"

definition marshal_int64_string :: "bytes \<Rightarrow> i64 \<Rightarrow> bytes" where
  "marshal_int64_string dst n =
    dst @ (if sint n < 0 then 45 # fmt_nat (nat (- sint n)) else fmt_nat (nat (sint n)))"

definition marshal_float64_string :: "'f f64_ops \<Rightarrow> bytes \<Rightarrow> 'f \<Rightarrow> bytes" where
  "marshal_float64_string f64 dst f =
    (if f_is_nan f64 f then dst @ ascii ''NaN''
     else if f_is_infinite f64 f then
       dst @ (if f_less f64 (f_zero f64) f then ascii ''+Inf'' else ascii ''-Inf'')
     else dst @ f_display f64 f)"

definition marshal_ipv4_string :: "bytes \<Rightarrow> u32 \<Rightarrow> bytes" where
  "marshal_ipv4_string dst n =
    (let dst = marshal_uint8_string dst (ucast (drop_bit 24 n)) @ [46];
         dst = marshal_uint8_string dst (ucast (drop_bit 16 n)) @ [46];
         dst = marshal_uint8_string dst (ucast (drop_bit 8 n)) @ [46]
     in marshal_uint8_string dst (ucast n))"

text \<open>
  One value of \<open>decode_inplace\<close>. The vectors are overwritten in place; when a value is malformed the
  function returns an error and the vectors are not used.
\<close>

definition decode_value :: "'f f64_ops \<Rightarrow> ValueType \<Rightarrow> bytes list \<Rightarrow> bytes \<Rightarrow> (bytes, values_error) outcome" where
  "decode_value f64 vt dict v =
    (if vt = STRING then Ok v
     else if vt = DICT then
       (if v = [] then Panic
        else let i = unat (v ! 0) in
          if i \<ge> length dict then Err (DictId i (length dict)) else Ok (dict ! i))
     else if vt = UINT8 then
       (if length v \<noteq> 1 then Err (ValueLength vt (length v)) else Ok (marshal_uint8_string [] (v ! 0)))
     else if vt = UINT16 then
       (if length v \<noteq> 2 then Err (ValueLength vt (length v))
        else obind (unmarshal_uint16 v) (\<lambda>n. Ok (marshal_uint16_string [] n)))
     else if vt = UINT32 then
       (if length v \<noteq> 4 then Err (ValueLength vt (length v))
        else obind (unmarshal_uint32 v) (\<lambda>n. Ok (marshal_uint32_string [] n)))
     else if vt = UINT64 then
       (if length v \<noteq> 8 then Err (ValueLength vt (length v))
        else obind (unmarshal_uint64 v) (\<lambda>n. Ok (marshal_uint64_string [] n)))
     else if vt = INT64 then
       (if length v \<noteq> 8 then Err (ValueLength vt (length v))
        else obind (unmarshal_int64 v) (\<lambda>n. Ok (marshal_int64_string [] n)))
     else if vt = FLOAT64 then
       (if length v \<noteq> 8 then Err (ValueLength vt (length v))
        else obind (unmarshal_uint64 v) (\<lambda>n. Ok (marshal_float64_string f64 [] (f_from_bits f64 n))))
     else if vt = IPV4 then
       (if length v \<noteq> 4 then Err (ValueLength vt (length v))
        else obind (unmarshal_uint32 v) (\<lambda>n. Ok (marshal_ipv4_string [] n)))
     else if vt = TIMESTAMP_ISO8601 then
       (if length v \<noteq> 8 then Err (ValueLength vt (length v))
        else obind (unmarshal_uint64 v) (\<lambda>n. Ok (marshal_timestamp_iso8601_string [] n)))
     else Err (UnknownValueType (vt_byte vt)))"

primrec decode_values :: "(bytes \<Rightarrow> (bytes, values_error) outcome) \<Rightarrow> bytes list \<Rightarrow> (bytes list, values_error) outcome" where
  "decode_values f [] = Ok []"
| "decode_values f (v # vs) = obind (f v) (\<lambda>x. obind (decode_values f vs) (\<lambda>xs. Ok (x # xs)))"

definition decode_inplace :: "'f f64_ops \<Rightarrow> bytes list \<Rightarrow> ValueType \<Rightarrow> bytes list \<Rightarrow> (bytes list, values_error) outcome" where
  "decode_inplace f64 values vt dict =
    (if vt \<notin> set [STRING, DICT, UINT8, UINT16, UINT32, UINT64, INT64, FLOAT64, IPV4, TIMESTAMP_ISO8601] then
       Err (UnknownValueType (vt_byte vt))
     else decode_values (decode_value f64 vt dict) values)"


subsection \<open>Decimal integers\<close>

text \<open>The value of a string of decimal digits, after the digits read so far.\<close>

definition dec_val :: "nat \<Rightarrow> bytes \<Rightarrow> nat" where
  "dec_val n b = foldl (\<lambda>n c. n * 10 + (unat c - 48)) n b"

lemma dec_val_simps [simp]:
  "dec_val n [] = n" "dec_val n (c # b) = dec_val (n * 10 + (unat c - 48)) b"
  "dec_val n (a @ b) = dec_val (dec_val n a) b"
  by (simp_all add: dec_val_def)

lemma dec_val_ge: "n \<le> dec_val n b"
proof (induction b arbitrary: n)
  case (Cons c b)
  have "n \<le> n * 10 + (unat c - 48)" by simp
  also have "\<dots> \<le> dec_val n (c # b)" using Cons by simp
  finally show ?case .
qed simp

lemma digit_less: "is_digit ch \<Longrightarrow> unat ch - 48 < 10 \<and> unat ch = 48 + (unat ch - 48)"
  by (auto simp: is_digit_def word_le_nat_alt)

lemma digit_cast: "is_digit ch \<Longrightarrow> (ucast (ch - 48) :: u64) = of_nat (unat ch - 48)"
  using digit_value [of "unat ch - 48"] digit_less [of ch] by (metis word_unat_eq_iff unat_fmt)

lemma uint64_step:
  fixes n :: u64
  assumes "is_digit ch"
  shows "(if n > (- 1) div 10 then None
     else let n = n * 10; n1 = n + ucast (ch - 48) in if n1 < n then None else F n1) =
    (if unat n * 10 + (unat ch - 48) < 2 ^ 64 then F (of_nat (unat n * 10 + (unat ch - 48))) else (None :: 'a option))"
proof -
  define d where "d = unat ch - 48"
  have d: "d < 10" "(ucast (ch - 48) :: u64) = of_nat d" using assms digit_less digit_cast by (auto simp: d_def)
  have max: "n > (- 1) div 10 \<longleftrightarrow> unat n > 1844674407370955161" by (simp add: word_less_nat_alt)
  show ?thesis
  proof (cases "unat n > 1844674407370955161")
    case True
    then show ?thesis using max by simp
  next
    case False
    have m: "unat (n * 10) = unat n * 10"
      using False by (simp add: unat_word_ariths)
    have ud: "unat (of_nat d :: u64) = d" using d by (simp add: unat_of_nat take_bit_nat_eq_self)
    have c: "n * 10 + of_nat d < n * 10 \<longleftrightarrow> \<not> unat n * 10 + d < 2 ^ 64"
    proof (cases "unat n * 10 + d < 2 ^ 64")
      case True
      then have "unat (n * 10 + of_nat d) = unat n * 10 + d" by (subst unat_add_lem [THEN iffD1]) (simp_all add: m ud)
      then show ?thesis using True by (simp add: word_less_nat_alt m)
    next
      case F2: False
      have "unat (n * 10 + of_nat d) = (unat n * 10 + d) mod 2 ^ 64" by (simp only: unat_word_ariths(1)) (simp add: m ud)
      also have "\<dots> = unat n * 10 + d - 2 ^ 64" using F2 False d by (simp add: mod_if)
      finally show ?thesis using F2 d by (simp add: word_less_nat_alt m)
    qed
    have e: "n * 10 + of_nat d = of_nat (unat n * 10 + d)" by simp
    have "(if n > (- 1) div 10 then None
       else let n = n * 10; n1 = n + ucast (ch - 48) in if n1 < n then None else F n1) =
      (if n * 10 + of_nat d < n * 10 then None else F (n * 10 + of_nat d))"
      unfolding max Let_def d(2) using False by (simp only: if_False)
    also have "\<dots> = (if \<not> unat n * 10 + d < 2 ^ 64 then None else F (n * 10 + of_nat d))" by (simp only: c)
    also have "\<dots> = (if unat n * 10 + d < 2 ^ 64 then F (of_nat (unat n * 10 + d)) else None)"
      unfolding e by (cases "unat n * 10 + d < 2 ^ 64") (simp_all only: if_True if_False simp_thms)
    finally show ?thesis unfolding d_def .
  qed
qed

lemma uint64_digits_spec:
  "uint64_digits n b =
    (if list_all (\<lambda>c. c = 95 \<or> is_digit c) b \<and> dec_val (unat n) (filter (\<lambda>c. c \<noteq> 95) b) < 2 ^ 64
     then Some (of_nat (dec_val (unat n) (filter (\<lambda>c. c \<noteq> 95) b))) else None)"
proof (induction b arbitrary: n)
  case (Cons ch b)
  show ?case
  proof (cases "ch \<noteq> 95 \<and> is_digit ch")
    case True
    define v where "v = unat n * 10 + (unat ch - 48)"
    have s: "uint64_digits n (ch # b) = (if v < 2 ^ 64 then uint64_digits (of_nat v) b else None)"
      using True uint64_step [of ch n "\<lambda>n. uint64_digits n b"] by (simp add: v_def)
    show ?thesis
    proof (cases "v < 2 ^ 64")
      case True2: True
      then have "unat (of_nat v :: u64) = v" by (simp add: unat_of_nat take_bit_nat_eq_self)
      then show ?thesis using s True2 True by (simp add: Cons.IH flip: v_def)
    next
      case False
      have "v \<le> dec_val v (filter (\<lambda>c. c \<noteq> 95) b)" by (rule dec_val_ge)
      then show ?thesis using s True False by (simp flip: v_def)
    qed
  qed (auto simp: Cons.IH)
qed (use unsigned_less [of _ , where ?'a = nat and ?'b = 64] in simp)

lemma dec_val_fmt_nat: "dec_val 0 (fmt_nat n) = n"
proof (induction n rule: fmt_nat.induct)
  case (1 n)
  then show ?case
    by (subst fmt_nat.simps) (auto simp: unat_fmt simp del: of_nat_add)
qed

lemma fmt_nat_hd: "0 < n \<Longrightarrow> fmt_nat n ! 0 \<noteq> 48"
proof (induction n rule: fmt_nat.induct)
  case (1 n)
  show ?case
  proof (cases "n < 10")
    case True
    then have "unat (of_nat (48 + n) :: u8) \<noteq> 48" using 1(2) unat_fmt [of n] by simp
    then show ?thesis using True by (subst fmt_nat.simps) (auto simp del: of_nat_add)
  next
    case False
    then have "fmt_nat (n div 10) ! 0 \<noteq> 48" by (intro 1(1)) auto
    then show ?thesis using False by (subst fmt_nat.simps) (simp add: nth_append)
  qed
qed

lemma fmt_nat_plain: "list_all (\<lambda>c. c = 95 \<or> is_digit c) (fmt_nat n)" "filter (\<lambda>c. c \<noteq> 95) (fmt_nat n) = fmt_nat n"
proof -
  have "\<forall>c \<in> set (fmt_nat n). is_digit c \<and> c \<noteq> 95" using fmt_nat_digits [of n] by (auto simp: is_digit_def)
  then show "list_all (\<lambda>c. c = 95 \<or> is_digit c) (fmt_nat n)" "filter (\<lambda>c. c \<noteq> 95) (fmt_nat n) = fmt_nat n"
    by (simp_all add: list_all_iff)
qed

lemma try_parse_uint64_fmt: "try_parse_uint64_bytes (fmt_nat (unat (n :: u64))) = Some n"
proof -
  have "unat n < 10 ^ 20" using unsigned_less [of n, where ?'a = nat] by simp
  then have l: "length (fmt_nat (unat n)) \<le> 20" by (intro fmt_nat_length) auto
  have z: "\<not> (length (fmt_nat (unat n)) > 1 \<and> fmt_nat (unat n) ! 0 = 48)"
    using fmt_nat_hd [of "unat n"] by (cases "unat n = 0") (auto simp: fmt_nat.simps)
  show ?thesis
    using l z unsigned_less [of n, where ?'a = nat]
    by (auto simp: try_parse_uint64_bytes_def uint64_digits_spec fmt_nat_plain dec_val_fmt_nat)
qed

lemma fmt_nat_dec_val:
  "b \<noteq> [] \<Longrightarrow> list_all is_digit b \<Longrightarrow> length b = 1 \<or> b ! 0 \<noteq> 48 \<Longrightarrow> fmt_nat (dec_val 0 b) = b"
proof (induction b rule: rev_induct)
  case (snoc c b)
  have c: "unat c - 48 < 10" "of_nat (48 + (unat c - 48)) = c" using snoc.prems digit_less [of c] by auto
  show ?case
  proof (cases "b = []")
    case True
    then show ?thesis using c by (subst fmt_nat.simps) (simp del: of_nat_add)
  next
    case False
    then have h: "b ! 0 \<noteq> 48" using snoc.prems by (auto simp: nth_append)
    then have IH: "fmt_nat (dec_val 0 b) = b" using snoc False by simp
    have "dec_val 0 b \<noteq> 0"
    proof
      assume "dec_val 0 b = 0"
      then have "b = [48]" using IH by (simp add: fmt_nat.simps)
      with h show False by simp
    qed
    then have "\<not> dec_val 0 b * 10 + (unat c - 48) < 10" by simp
    moreover have "(dec_val 0 b * 10 + (unat c - 48)) div 10 = dec_val 0 b" "(dec_val 0 b * 10 + (unat c - 48)) mod 10 = unat c - 48"
      using c by auto
    ultimately show ?thesis using c IH by (subst fmt_nat.simps) (simp del: of_nat_add)
  qed
qed simp

text \<open>A decimal string without underscores is the printed form of the value it parses to.\<close>

lemma uint64_canonical:
  assumes "try_parse_uint64_bytes v = Some n" "95 \<notin> set v"
  shows "fmt_nat (unat n) = v"
proof -
  have f: "filter (\<lambda>c. c \<noteq> 95) v = v" using assms(2) by (auto intro!: filter_True)
  have "v \<noteq> []" "length v = 1 \<or> v ! 0 \<noteq> 48" "list_all (\<lambda>c. c = 95 \<or> is_digit c) v" "dec_val 0 v < 2 ^ 64" "n = of_nat (dec_val 0 v)"
    using assms(1) f by (auto simp: try_parse_uint64_bytes_def uint64_digits_spec Suc_lessI split: if_splits)
  moreover from this have "list_all is_digit v" using assms(2) by (auto simp: list_all_iff)
  ultimately show ?thesis using fmt_nat_dec_val [of v] by (simp add: unat_of_nat take_bit_nat_eq_self)
qed

subsection \<open>Signed integers and addresses\<close>

lemma fmt_nat_no_minus: "fmt_nat n ! 0 \<noteq> 45"
proof -
  have "is_digit (fmt_nat n ! 0)" using fmt_nat_digits [of n] by (metis fmt_nat_nonempty length_greater_0_conv nth_mem)
  then show ?thesis by (auto simp: is_digit_def)
qed

lemma try_parse_int64_print: "try_parse_int64_bytes (marshal_int64_string [] n) = Some n"
proof (cases "sint n < 0")
  case False
  have "uint n = sint n" using False sint_i64_bounds [of n] by (simp add: uint_sint take_bit_int_eq_self)
  then have u: "nat (sint n) = unat n" by (metis unat_eq_nat_uint)
  have "unat n < 2 ^ 63" using sint_i64_bounds [of n] False by (simp flip: u add: nat_less_iff)
  then have "\<not> n \<ge> push_bit 63 1" by (simp add: word_le_nat_alt)
  then show ?thesis
    using False fmt_nat_no_minus [of "unat n"]
    by (simp add: marshal_int64_string_def try_parse_int64_bytes_def u try_parse_uint64_fmt)
next
  case True
  define u :: u64 where "u = of_int (- sint n)"
  have "uint u = - sint n"
    using True sint_i64_bounds [of n] unfolding u_def by (subst unsigned_of_int) (simp add: take_bit_int_eq_self)
  then have u: "nat (- sint n) = unat u" and b: "unat u \<le> 2 ^ 63" using sint_i64_bounds [of n]
    by (simp_all add: unat_eq_nat_uint nat_le_iff)
  have n: "- u = n" by (simp add: u_def)
  have m: "n = i64_MIN" if "u = push_bit 63 1" using n that by (simp add: i64_MIN_def)
  have c: "u \<ge> push_bit 63 1 \<longleftrightarrow> u = push_bit 63 1"
    using b by (simp add: word_le_nat_alt word_unat_eq_iff)
  show ?thesis
    using True n m c by (simp add: marshal_int64_string_def try_parse_int64_bytes_def u try_parse_uint64_fmt)
qed

lemma uint8_string_table:
  "list_all (\<lambda>i. marshal_uint8_string [] (of_nat i) = fmt_nat i) [0..<256]"
  by code_simp

lemma marshal_uint8_string_append: "marshal_uint8_string dst n = dst @ marshal_uint8_string [] n"
  by (simp add: marshal_uint8_string_def Let_def)

lemma marshal_uint8_string_eq: "marshal_uint8_string dst n = dst @ fmt_nat (unat n)"
proof -
  have "unat n \<in> set [0..<256]" using unsigned_less [of n, where ?'a = nat] by simp
  then have "marshal_uint8_string [] (of_nat (unat n)) = fmt_nat (unat n)"
    by (rule uint8_string_table [unfolded list_all_iff, THEN bspec])
  then show ?thesis by (subst marshal_uint8_string_append) simp
qed

lemma fmt_nat_as_digits: "fmt_nat n = digits (length (fmt_nat n)) n \<and> n < 10 ^ length (fmt_nat n)"
proof (induction n rule: fmt_nat.induct)
  case (1 n)
  show ?case
  proof (cases "n < 10")
    case True
    then show ?thesis by (simp add: fmt_nat.simps)
  next
    case False
    have IH: "fmt_nat (n div 10) = digits (length (fmt_nat (n div 10))) (n div 10)"
      "n div 10 < 10 ^ length (fmt_nat (n div 10))" using 1 False by auto
    have e: "fmt_nat n = fmt_nat (n div 10) @ [of_nat (48 + n mod 10)]" using False by (subst fmt_nat.simps) simp
    have "n < 10 * 10 ^ length (fmt_nat (n div 10))" using IH(2) by linarith
    then show ?thesis using IH(1) by (simp add: e)
  qed
qed

lemma octet_parse:
  "try_parse_date_uint64 (fmt_nat (unat (o1 :: u8))) = Some (ucast o1)" "length (fmt_nat (unat o1)) \<le> 3"
proof -
  have o1: "unat o1 < 256" using unsigned_less [of o1, where ?'a = nat] by simp
  then show l: "length (fmt_nat (unat o1)) \<le> 3" by (intro fmt_nat_length) auto
  have "try_parse_date_uint64 (digits (length (fmt_nat (unat o1))) (unat o1)) = Some (of_nat (unat o1))"
    by (rule try_parse_date_field) (use l fmt_nat_as_digits [of "unat o1"] in auto)
  then show "try_parse_date_uint64 (fmt_nat (unat o1)) = Some (ucast o1)"
    using fmt_nat_as_digits [of "unat o1"] by simp
qed

lemma octet_small: "\<not> (ucast (o1 :: u8) :: u64) > 255"
  using unsigned_less [of o1, where ?'a = nat] by (simp add: word_less_nat_alt unsigned_ucast_eq take_bit_nat_eq_self)

lemma octet_cast: "ucast (ucast (o1 :: u8) :: u64) = o1"
  by (rule bit_word_eqI) (simp add: bit_simps)

lemma fmt_nat_no_dot: "46 \<notin> set (fmt_nat n)"
  using fmt_nat_digits [of n] by (auto simp: is_digit_def)

lemma position_append: "\<forall>x \<in> set xs. \<not> P x \<Longrightarrow> P y \<Longrightarrow> position P (xs @ y # ys) = Some (length xs)"
  by (induction xs) auto

lemma ipv4_octet_fmt: "ipv4_octet (fmt_nat (unat o1) @ 46 # rest) = Some (o1, rest)"
proof -
  have "position (\<lambda>c. c = 46) (fmt_nat (unat o1) @ 46 # rest) = Some (length (fmt_nat (unat o1)))"
    using fmt_nat_no_dot by (intro position_append) auto
  then show ?thesis using octet_parse [of o1] octet_small [of o1] by (simp add: ipv4_octet_def octet_cast)
qed

lemma marshal_ipv4_eq:
  "marshal_ipv4_string [] n = fmt_nat (unat (ucast (drop_bit 24 n) :: u8)) @ 46 # fmt_nat (unat (ucast (drop_bit 16 n) :: u8)) @
    46 # fmt_nat (unat (ucast (drop_bit 8 n) :: u8)) @ 46 # fmt_nat (unat (ucast n :: u8))"
  by (simp add: marshal_ipv4_string_def marshal_uint8_string_eq Let_def)

lemma be_bytes4: "from_be_bytes [ucast (drop_bit 24 n), ucast (drop_bit 16 n), ucast (drop_bit 8 n), ucast n] = (n :: u32)"
proof -
  have "to_be_bytes 4 n = [ucast (drop_bit 24 n), ucast (drop_bit 16 n), ucast (drop_bit 8 n), ucast n]"
    by (simp add: to_be_bytes_def upt_rec)
  moreover have "from_be_bytes (to_be_bytes 4 n) = n" by (rule from_to_be_bytes) simp
  ultimately show ?thesis by simp
qed

lemma try_parse_ipv4_print: "try_parse_ipv4_bytes (marshal_ipv4_string [] n) = Some n"
proof -
  have l: "1 \<le> length (fmt_nat (unat o1)) \<and> length (fmt_nat (unat o1)) \<le> 3" for o1 :: u8
    using octet_parse(2) [of o1] by (cases "fmt_nat (unat o1)") auto
  have len: "7 \<le> length (marshal_ipv4_string [] n)" "length (marshal_ipv4_string [] n) \<le> 15"
    using l [of "ucast (drop_bit 24 n)"] l [of "ucast (drop_bit 16 n)"] l [of "ucast (drop_bit 8 n)"] l [of "ucast n"]
    unfolding marshal_ipv4_eq by (simp_all only: length_append list.size) linarith+
  have "filter (\<lambda>c. c = 46) (fmt_nat k) = []" for k using fmt_nat_no_dot by (simp add: filter_empty_conv) metis
  then have f: "length (filter (\<lambda>c. c = 46) (marshal_ipv4_string [] n)) = 3" by (simp add: marshal_ipv4_eq)
  show ?thesis
    using len f octet_parse(1) [of "ucast n"] octet_small [of "ucast n"] be_bytes4 [of n]
    unfolding try_parse_ipv4_bytes_def by (simp add: marshal_ipv4_eq ipv4_octet_fmt octet_cast)
qed

subsection \<open>The encoder buffer\<close>

definition ve_inv :: "ValuesEncoder \<Rightarrow> bool" where
  "ve_inv ve \<longleftrightarrow> list_all (\<lambda>(start, stop). start \<le> stop \<and> stop \<le> length (ve_buf ve)) (ve_ranges ve)"

lemma ve_reset_inv [simp]: "ve_inv (ve_reset ve)" "ve_values (ve_reset ve) = []"
  by (simp_all add: ve_inv_def ve_reset_def ve_values_def)

lemma push_value_inv [inv_intros]: "ve_inv ve \<Longrightarrow> ve_inv (push_value b ve)"
  by (auto simp: ve_inv_def push_value_def Let_def list_all_iff)

lemma push_value_values: "ve_inv ve \<Longrightarrow> ve_values (push_value b ve) = ve_values ve @ [b]"
  by (auto simp: ve_inv_def push_value_def ve_values_def Let_def list_all_iff split: prod.splits)

lemma fold_push_inv: "ve_inv ve \<Longrightarrow> ve_inv (fold (\<lambda>n. push_value (g n)) ns ve)"
  by (induction ns arbitrary: ve) (auto intro: inv_intros)

lemma fold_push_values: "ve_inv ve \<Longrightarrow> ve_values (fold (\<lambda>n. push_value (g n)) ns ve) = ve_values ve @ map g ns"
  by (induction ns arbitrary: ve) (simp_all add: push_value_values push_value_inv)

subsection \<open>The parsing loop\<close>

lemma parse_values_parse:
  "parse_values parse lt b mn mx vs = Some (ns, x, y) \<Longrightarrow> map parse vs = map Some ns"
  by (induction vs arbitrary: b mn mx ns) (auto simp: bind_eq_Some_conv Let_def)

lemma parse_values_bounds:
  fixes key :: "'n \<Rightarrow> 'k::linorder"
  assumes "parse_values parse lt b mn mx vs = Some (ns, x, y)" "\<And>n m. lt n m \<longleftrightarrow> key n < key m"
  shows "(\<forall>n \<in> set ns. key x \<le> key n \<and> key n \<le> key y) \<and> (\<not> b \<longrightarrow> key x \<le> key mn \<and> key mx \<le> key y) \<and>
    (ns \<noteq> [] \<longrightarrow> x \<in> set ns \<union> (if b then {} else {mn}) \<and> y \<in> set ns \<union> (if b then {} else {mx}))"
  using assms(1)
proof (induction vs arbitrary: b mn mx ns)
  case (Cons v vs)
  then obtain n ns' where p: "parse v = Some n" "ns = n # ns'"
    "parse_values parse lt False (if b \<or> lt n mn then n else mn) (if b \<or> lt mx n then n else mx) vs = Some (ns', x, y)"
    by (auto simp: bind_eq_Some_conv Let_def)
  note IH = Cons.IH [OF p(3)]
  show ?case
  proof (cases "ns' = []")
    case True
    then have "vs = []" using parse_values_parse [OF p(3)] by simp
    then show ?thesis using p IH assms(2) True by (auto simp: not_less split: if_splits)
  next
    case False
    then show ?thesis using IH assms(2) p by (auto simp: not_less split: if_splits)
  qed
qed simp

lemma parse_values_None: "parse_values parse lt b mn mx vs = None \<longleftrightarrow> (\<exists>v \<in> set vs. parse v = None)"
proof (induction vs arbitrary: b mn mx)
  case (Cons v vs)
  then show ?case by (cases "parse v") (simp_all add: Let_def)
qed simp

subsection \<open>Columns of one type\<close>

text \<open>
  The contract between the encoder and the decoder of one value type: the decoder prints the value
  that was encoded. It lifts to columns. When the printed form of a value also parses back to the
  value, a column of printed forms is restored unchanged.
\<close>

locale column_format =
  fixes enc :: "'n \<Rightarrow> bytes"
    and dec :: "bytes \<Rightarrow> (bytes, values_error) outcome"
    and print_value :: "'n \<Rightarrow> bytes"
    and fits :: "'n \<Rightarrow> bool"
  assumes dec_enc: "fits n \<Longrightarrow> dec (enc n) = Ok (print_value n)"
begin

lemma decode_column: "\<forall>n \<in> set ns. fits n \<Longrightarrow> decode_values dec (map enc ns) = Ok (map print_value ns)"
  by (induction ns) (auto simp: dec_enc)

lemma decode_parsed:
  assumes "map parse vs = map Some ns" "\<forall>n \<in> set ns. fits n"
  shows "decode_values dec (map enc ns) = Ok (map (\<lambda>v. case parse v of Some n \<Rightarrow> print_value n | None \<Rightarrow> v) vs)"
proof -
  have "map (\<lambda>v. case parse v of Some n \<Rightarrow> print_value n | None \<Rightarrow> v) vs = map print_value ns"
    using assms(1) by (induction vs arbitrary: ns) auto
  with decode_column [OF assms(2)] show ?thesis by simp
qed

end

locale text_format = column_format +
  fixes parse :: "bytes \<Rightarrow> 'a option"
  assumes parse_print: "fits n \<Longrightarrow> parse (print_value n) = Some n"
begin

lemma print_inj: "fits n \<Longrightarrow> fits m \<Longrightarrow> print_value n = print_value m \<Longrightarrow> n = m"
  by (metis option.inject parse_print)

lemma printed_canonical: "fits n \<Longrightarrow> v = print_value n \<Longrightarrow> parse v = Some m \<Longrightarrow> print_value m = v"
  by (metis option.inject parse_print)

end

lemma ucast_small:
  "unat (n :: u64) < 2 ^ 8 \<Longrightarrow> unat (ucast n :: u8) = unat n"
  "unat n < 2 ^ 16 \<Longrightarrow> ucast (ucast n :: u16) = n"
  "unat n < 2 ^ 32 \<Longrightarrow> ucast (ucast n :: u32) = n"
  by (simp_all add: word_unat_eq_iff unsigned_ucast_eq unsigned_take_bit_eq take_bit_nat_eq_self)

lemma unmarshal_fixed:
  "unmarshal_uint16 (marshal_uint16 [] a) = Ok a" "unmarshal_uint32 (marshal_uint32 [] b) = Ok b"
  "unmarshal_uint64 (marshal_uint64 [] c) = Ok c" "unmarshal_int64 (marshal_int64 [] d) = Ok d"
  "length (marshal_uint16 [] a) = 2" "length (marshal_uint32 [] b) = 4"
  "length (marshal_uint64 [] c) = 8" "length (marshal_int64 [] d) = 8"
  by (simp_all add: marshal_uint16_def unmarshal_uint16_def marshal_uint32_def unmarshal_uint32_def
      marshal_uint64_def unmarshal_uint64_def marshal_int64_def unmarshal_int64_def)

interpretation u8_col: column_format "\<lambda>n :: u64. [ucast n]" "decode_value f64 UINT8 dict" "marshal_uint64_string []"
    "\<lambda>n. unat n < 2 ^ 8" for f64 :: "'f f64_ops" and dict
  by unfold_locales
     (simp add: decode_value_def vt_defs marshal_uint8_string_eq marshal_uint64_string_def ucast_small)

interpretation u16_col: column_format "\<lambda>n :: u64. marshal_uint16 [] (ucast n)" "decode_value f64 UINT16 dict"
    "marshal_uint64_string []" "\<lambda>n. unat n < 2 ^ 16" for f64 :: "'f f64_ops" and dict
  by unfold_locales
     (simp add: decode_value_def vt_defs marshal_uint16_string_def ucast_small unmarshal_fixed)

interpretation u32_col: column_format "\<lambda>n :: u64. marshal_uint32 [] (ucast n)" "decode_value f64 UINT32 dict"
    "marshal_uint64_string []" "\<lambda>n. unat n < 2 ^ 32" for f64 :: "'f f64_ops" and dict
  by unfold_locales
     (simp add: decode_value_def vt_defs marshal_uint32_string_def ucast_small unmarshal_fixed)

interpretation u64_col: text_format "marshal_uint64 []" "decode_value f64 UINT64 dict" "marshal_uint64_string []"
    "\<lambda>_. True" try_parse_uint64_bytes for f64 :: "'f f64_ops" and dict
  by unfold_locales
     (simp_all add: decode_value_def vt_defs unmarshal_fixed marshal_uint64_string_def try_parse_uint64_fmt)

interpretation i64_col: text_format "marshal_int64 []" "decode_value f64 INT64 dict" "marshal_int64_string []"
    "\<lambda>_. True" try_parse_int64_bytes for f64 :: "'f f64_ops" and dict
  by unfold_locales (simp_all add: decode_value_def vt_defs unmarshal_fixed try_parse_int64_print)

interpretation ipv4_col: text_format "marshal_uint32 []" "decode_value f64 IPV4 dict" "marshal_ipv4_string []"
    "\<lambda>_. True" try_parse_ipv4_bytes for f64 :: "'f f64_ops" and dict
  by unfold_locales (simp_all add: decode_value_def vt_defs unmarshal_fixed try_parse_ipv4_print)

text \<open>Timestamps of whole milliseconds inside the range of the parser.\<close>

definition iso8601_fits :: "i64 \<Rightarrow> bool" where
  "iso8601_fits t \<longleftrightarrow> - 9223372036 \<le> sint t div 1000000000 \<and> sint t div 1000000000 < 9223372036 \<and>
    sint t mod 1000000 = 0"

lemma to_msecs_whole: "sint t mod 1000000 = 0 \<Longrightarrow> to_msecs t = t"
proof -
  assume "sint t mod 1000000 = 0"
  then have e: "sint t div 1000000 * 1000000 = sint t" by (simp add: minus_mod_eq_div_mult [symmetric])
  show ?thesis unfolding to_msecs_def e by simp
qed

interpretation iso_col: column_format "marshal_uint64 []" "decode_value f64 TIMESTAMP_ISO8601 dict"
    "marshal_timestamp_iso8601_string []" "\<lambda>_. True" for f64 :: "'f f64_ops" and dict
  by unfold_locales (simp add: decode_value_def vt_defs unmarshal_fixed)

interpretation iso_text: text_format "marshal_uint64 []" "decode_value f64 TIMESTAMP_ISO8601 dict"
    "marshal_timestamp_iso8601_string []" iso8601_fits try_parse_timestamp_iso8601_bytes for f64 :: "'f f64_ops" and dict
  by unfold_locales
     (simp_all add: decode_value_def vt_defs unmarshal_fixed iso8601_print_parse iso8601_fits_def to_msecs_whole)

subsection \<open>The dictionary\<close>

text \<open>What the dictionary keeps: few values, few bytes, no duplicates.\<close>

definition dict_inv :: "ValuesDict \<Rightarrow> bool" where
  "dict_inv d \<longleftrightarrow> length (dict_values d) \<le> MAX_DICT_LEN \<and> distinct (dict_values d) \<and>
    sum_list (map length (dict_values d)) \<le> MAX_DICT_SIZE_BYTES"

lemma dict_find_Inl: "dict_find k i sz vs = Inl j \<Longrightarrow> i \<le> j \<and> j < i + length vs \<and> vs ! (j - i) = k"
proof (induction vs arbitrary: i sz)
  case (Cons v vs)
  show ?case
  proof (cases "k = v")
    case False
    then have "dict_find k (Suc i) (sz + length v) vs = Inl j" using Cons.prems by simp
    from Cons.IH [OF this] show ?thesis by (auto simp: nth_Cons')
  qed (use Cons.prems in auto)
qed simp

lemma dict_find_Inr: "dict_find k i sz vs = Inr n \<Longrightarrow> k \<notin> set vs \<and> n = sz + sum_list (map length vs)"
proof (induction vs arbitrary: i sz)
  case (Cons v vs)
  then have "k \<noteq> v" and f: "dict_find k (Suc i) (sz + length v) vs = Inr n" by (auto split: if_splits)
  with Cons.IH [OF f] show ?case by simp
qed simp

lemma dict_reset_inv [simp]: "dict_inv (dict_reset d)"
  by (simp add: dict_inv_def dict_reset_def)

text \<open>
  \<open>get_or_add\<close> keeps the invariant and every index given out before; the index it returns is the
  position of the key. It fails only on a new key that does not fit, and then leaves the dictionary.
\<close>

lemma get_or_add_Some:
  assumes "dict_inv d" "get_or_add d k = (d', Some i)"
  shows "dict_inv d' \<and> unat i < length (dict_values d') \<and> dict_values d' ! unat i = k \<and>
    (\<exists>ext. dict_values d' = dict_values d @ ext)"
proof (cases "dict_find k 0 0 (dict_values d)")
  case (Inl j)
  then have j: "j < length (dict_values d)" "dict_values d ! j = k" using dict_find_Inl [OF Inl] by auto
  have e: "d' = d" "i = of_nat j" using assms Inl by (auto simp: get_or_add_def split: if_splits)
  have "j < 8" using j assms(1) by (simp add: dict_inv_def MAX_DICT_LEN_def)
  then have "unat i = j" unfolding e by (simp add: unat_of_nat take_bit_nat_eq_self)
  then show ?thesis using j e assms(1) by simp
next
  case (Inr n)
  note f = dict_find_Inr [OF Inr]
  have e: "length (dict_values d) < MAX_DICT_LEN" "n + length k \<le> MAX_DICT_SIZE_BYTES"
    "d' = d\<lparr>dict_values := dict_values d @ [k]\<rparr>" "i = of_nat (length (dict_values d))"
    using assms Inr by (auto simp: get_or_add_def Let_def split: if_splits)
  have "unat i = length (dict_values d)" using e(1,4) by (simp add: MAX_DICT_LEN_def unat_of_nat take_bit_nat_eq_self)
  then show ?thesis using e f assms(1) by (auto simp: dict_inv_def)
qed

lemma get_or_add_None:
  assumes "get_or_add d k = (d', None)"
  shows "d' = d \<and> (length k > MAX_DICT_SIZE_BYTES \<or> k \<notin> set (dict_values d) \<and>
    (length (dict_values d) \<ge> MAX_DICT_LEN \<or> sum_list (map length (dict_values d)) + length k > MAX_DICT_SIZE_BYTES))"
  using assms dict_find_Inr [of k 0 0 "dict_values d"]
  by (auto simp: get_or_add_def Let_def split: if_splits sum.splits)

lemma dict_loop_decode:
  assumes "dict_loop ve d vs = Some (ve', d')" "ve_inv ve" "dict_inv d"
  shows "dict_inv d' \<and> (\<exists>ext. dict_values d' = dict_values d @ ext) \<and>
    (\<exists>ids. ve_values ve' = ve_values ve @ map (\<lambda>i. [i]) ids \<and>
      decode_values (decode_value f64 DICT (dict_values d')) (map (\<lambda>i. [i]) ids) = Ok vs)"
  using assms
proof (induction vs arbitrary: ve d)
  case Nil
  then show ?case by (auto intro: exI [of _ "[]"])
next
  case (Cons v vs)
  obtain d1 i where g: "get_or_add d v = (d1, Some i)" and l: "dict_loop (push_value [i] ve) d1 vs = Some (ve', d')"
    using Cons.prems(1) by (auto split: prod.splits option.splits)
  have s: "dict_inv d1" "unat i < length (dict_values d1)" "dict_values d1 ! unat i = v"
    "\<exists>ext. dict_values d1 = dict_values d @ ext" using get_or_add_Some [OF Cons.prems(3) g] by auto
  obtain ids ext where IH: "dict_inv d'" "dict_values d' = dict_values d1 @ ext"
    "ve_values ve' = (ve_values ve @ [[i]]) @ map (\<lambda>i. [i]) ids"
    "decode_values (decode_value f64 DICT (dict_values d')) (map (\<lambda>i. [i]) ids) = Ok vs"
    using Cons.IH [OF l push_value_inv [OF Cons.prems(2)] s(1)] Cons.prems(2) by (auto simp: push_value_values)
  have "decode_value f64 DICT (dict_values d') [i] = Ok v"
    using s IH(2) by (simp add: decode_value_def vt_defs nth_append)
  then have "decode_values (decode_value f64 DICT (dict_values d')) (map (\<lambda>i. [i]) (i # ids)) = Ok (v # vs)"
    using IH(4) by simp
  moreover have "ve_values ve' = ve_values ve @ map (\<lambda>i. [i]) (i # ids)" using IH(3) by simp
  ultimately show ?case using IH(1,2) s(4) by (metis append.assoc)
qed

lemma marshal_strings_append: "marshal_strings dst a = dst @ marshal_strings [] a"
proof (induction a arbitrary: dst)
  case (Cons v a)
  have "marshal_strings dst (v # a) = marshal_bytes dst v @ marshal_strings [] a" using Cons [of "marshal_bytes dst v"] by simp
  moreover have "marshal_strings [] (v # a) = marshal_bytes [] v @ marshal_strings [] a" using Cons [of "marshal_bytes [] v"] by simp
  ultimately show ?case using marshal_bytes_append [of dst v] by simp
qed simp

lemma dict_unmarshal_strings:
  assumes "\<forall>v \<in> set a. length v < 2 ^ 64"
  shows "dict_unmarshal_loop n (length a) acc (marshal_strings [] a @ rest) = Ok (acc @ a, rest)"
  using assms
proof (induction a arbitrary: acc)
  case (Cons v a)
  have "marshal_strings [] (v # a) = marshal_bytes [] v @ marshal_strings [] a"
    using marshal_strings_append [of "marshal_bytes [] v" a] by simp
  moreover have "marshal_bytes [] v \<noteq> []" by (rule marshal_bytes_nonempty)
  ultimately show ?case
    using Cons unmarshal_bytes_marshal [of v "marshal_strings [] a @ rest"] by simp
qed simp

subsection \<open>Encoding and decoding a column\<close>

text \<open>
  What the decoder returns for a value of a column of the given type: the printed form of the parsed
  value, or the value itself for strings and dictionaries.
\<close>

definition stored_form :: "'f f64_ops \<Rightarrow> ValueType \<Rightarrow> bytes \<Rightarrow> bytes" where
  "stored_form f64 vt v =
    (if vt = STRING \<or> vt = DICT then v
     else if vt = INT64 then (case try_parse_int64_bytes v of Some n \<Rightarrow> marshal_int64_string [] n | None \<Rightarrow> v)
     else if vt = FLOAT64 then
       (case try_parse_float64_exact_bytes f64 v of Some f \<Rightarrow> marshal_float64_string f64 [] f | None \<Rightarrow> v)
     else if vt = IPV4 then (case try_parse_ipv4_bytes v of Some n \<Rightarrow> marshal_ipv4_string [] n | None \<Rightarrow> v)
     else if vt = TIMESTAMP_ISO8601 then
       (case try_parse_timestamp_iso8601_bytes v of Some t \<Rightarrow> marshal_timestamp_iso8601_string [] t | None \<Rightarrow> v)
     else (case try_parse_uint64_bytes v of Some n \<Rightarrow> marshal_uint64_string [] n | None \<Rightarrow> v))"

lemma stored_form_simps:
  "stored_form f64 STRING v = v" "stored_form f64 DICT v = v"
  "stored_form f64 INT64 v = (case try_parse_int64_bytes v of Some n \<Rightarrow> marshal_int64_string [] n | None \<Rightarrow> v)"
  "stored_form f64 FLOAT64 v =
     (case try_parse_float64_exact_bytes f64 v of Some f \<Rightarrow> marshal_float64_string f64 [] f | None \<Rightarrow> v)"
  "stored_form f64 IPV4 v = (case try_parse_ipv4_bytes v of Some n \<Rightarrow> marshal_ipv4_string [] n | None \<Rightarrow> v)"
  "stored_form f64 TIMESTAMP_ISO8601 v =
     (case try_parse_timestamp_iso8601_bytes v of Some t \<Rightarrow> marshal_timestamp_iso8601_string [] t | None \<Rightarrow> v)"
  "vt \<in> {UINT8, UINT16, UINT32, UINT64} \<Longrightarrow>
     stored_form f64 vt v = (case try_parse_uint64_bytes v of Some n \<Rightarrow> marshal_uint64_string [] n | None \<Rightarrow> v)"
  by (auto simp: stored_form_def vt_defs)

lemma decode_inplace_known:
  "vt \<in> {STRING, DICT, UINT8, UINT16, UINT32, UINT64, INT64, FLOAT64, IPV4, TIMESTAMP_ISO8601} \<Longrightarrow>
    decode_inplace f64 values vt dict = decode_values (decode_value f64 vt dict) values"
  by (auto simp: decode_inplace_def)

lemma unat_key: "(n :: 'w::len word) < m \<longleftrightarrow> unat n < unat m"
  by (rule word_less_nat_alt)

lemma sint_key: "(n :: 'w::len word) <s m \<longleftrightarrow> sint n < sint m"
  by (rule word_sless_alt)

lemma uint_encoding_decode:
  assumes "try_uint_encoding ve vs = (ve', vt, mn, mx)" "vt \<noteq> UNKNOWN" "ve_inv ve" "ve_values ve = []"
  shows "vt \<in> {UINT8, UINT16, UINT32, UINT64} \<and>
    decode_inplace f64 (ve_values ve') vt dict = Ok (map (stored_form f64 vt) vs)"
proof -
  obtain ns where p: "parse_values try_parse_uint64_bytes (<) True 0 0 vs = Some (ns, mn, mx)"
    using assms(1,2) by (auto simp: try_uint_encoding_def Let_def split: option.splits if_splits)
  note m = parse_values_parse [OF p]
  have b: "\<forall>n \<in> set ns. unat n \<le> unat mx" using parse_values_bounds [OF p unat_key] by blast
  have f: "\<forall>n \<in> set ns. unat n < 2 ^ k" if "bit_size mx \<le> k" for k
    using that b by (auto simp: bit_size_def bit_len_le_iff)
  note e = assms(1) [unfolded try_uint_encoding_def p option.case prod.case Let_def]
  consider "vt = UINT8" "bit_size mx \<le> 8" "ve' = fold (\<lambda>n. push_value [ucast n]) ns ve"
    | "vt = UINT16" "bit_size mx \<le> 16" "ve' = fold (\<lambda>n. push_value (marshal_uint16 [] (ucast n))) ns ve"
    | "vt = UINT32" "bit_size mx \<le> 32" "ve' = fold (\<lambda>n. push_value (marshal_uint32 [] (ucast n))) ns ve"
    | "vt = UINT64" "ve' = fold (\<lambda>n. push_value (marshal_uint64 [] n)) ns ve"
    using e by (auto split: if_splits)
  then show ?thesis
    by cases
       (use u8_col.decode_parsed [OF m f, of f64 dict] u16_col.decode_parsed [OF m f, of f64 dict]
            u32_col.decode_parsed [OF m f, of f64 dict] u64_col.decode_parsed [OF m, of f64 dict] assms(3,4) in
        \<open>simp_all add: decode_inplace_known fold_push_values stored_form_simps\<close>)
qed

lemma typed_encoding_decode:
  assumes "ve_inv ve" "ve_values ve = []" "vt \<noteq> UNKNOWN" and f64: "\<And>f. f_from_bits f64 (f_to_bits f64 f) = f"
  shows
    "try_int_encoding ve vs = (ve', vt, mn, mx) \<Longrightarrow> vt = INT64 \<and>
       decode_inplace f64 (ve_values ve') vt dict = Ok (map (stored_form f64 vt) vs)"
    "try_float64_encoding f64 ve vs = (ve', vt, mn, mx) \<Longrightarrow> vt = FLOAT64 \<and>
       decode_inplace f64 (ve_values ve') vt dict = Ok (map (stored_form f64 vt) vs)"
    "try_ipv4_encoding ve vs = (ve', vt, mn, mx) \<Longrightarrow> vt = IPV4 \<and>
       decode_inplace f64 (ve_values ve') vt dict = Ok (map (stored_form f64 vt) vs)"
    "try_timestamp_iso8601_encoding ve vs = (ve', vt, mn, mx) \<Longrightarrow> vt = TIMESTAMP_ISO8601 \<and>
       decode_inplace f64 (ve_values ve') vt dict = Ok (map (stored_form f64 vt) vs)"
proof -
  assume e: "try_int_encoding ve vs = (ve', vt, mn, mx)"
  then obtain ns where p: "parse_values try_parse_int64_bytes (<s) True 0 0 vs = Some (ns, mn, mx)"
    and ve': "vt = INT64" "ve' = fold (\<lambda>n. push_value (marshal_int64 [] n)) ns ve"
    using assms(3) by (auto simp: try_int_encoding_def split: option.splits)
  show "vt = INT64 \<and> decode_inplace f64 (ve_values ve') vt dict = Ok (map (stored_form f64 vt) vs)"
    using i64_col.decode_parsed [OF parse_values_parse [OF p], of f64 dict] assms(1,2) ve'
    by (simp add: decode_inplace_known fold_push_values stored_form_simps)
next
  assume e: "try_ipv4_encoding ve vs = (ve', vt, mn, mx)"
  then obtain ns x y where p: "parse_values try_parse_ipv4_bytes (<) True 0 0 vs = Some (ns, x, y)"
    and ve': "vt = IPV4" "ve' = fold (\<lambda>n. push_value (marshal_uint32 [] n)) ns ve"
    using assms(3) by (auto simp: try_ipv4_encoding_def split: option.splits)
  show "vt = IPV4 \<and> decode_inplace f64 (ve_values ve') vt dict = Ok (map (stored_form f64 vt) vs)"
    using ipv4_col.decode_parsed [OF parse_values_parse [OF p], of f64 dict] assms(1,2) ve'
    by (simp add: decode_inplace_known fold_push_values stored_form_simps)
next
  assume e: "try_timestamp_iso8601_encoding ve vs = (ve', vt, mn, mx)"
  then obtain ns where p: "parse_values try_parse_timestamp_iso8601_bytes (<s) True 0 0 vs = Some (ns, mn, mx)"
    and ve': "vt = TIMESTAMP_ISO8601" "ve' = fold (\<lambda>n. push_value (marshal_uint64 [] n)) ns ve"
    using assms(3) by (auto simp: try_timestamp_iso8601_encoding_def split: option.splits)
  show "vt = TIMESTAMP_ISO8601 \<and> decode_inplace f64 (ve_values ve') vt dict = Ok (map (stored_form f64 vt) vs)"
    using iso_col.decode_parsed [OF parse_values_parse [OF p], of f64 dict] assms(1,2) ve'
    by (simp add: decode_inplace_known fold_push_values stored_form_simps)
next
  assume e: "try_float64_encoding f64 ve vs = (ve', vt, mn, mx)"
  then obtain ns x y where
    p: "parse_values (try_parse_float64_exact_bytes f64) (f_less f64) True (f_zero f64) (f_zero f64) vs = Some (ns, x, y)"
    and ve': "vt = FLOAT64" "ve' = fold (\<lambda>f. push_value (marshal_uint64 [] (f_to_bits f64 f))) ns ve"
    using assms(3) by (auto simp: try_float64_encoding_def split: option.splits)
  have c: "column_format (\<lambda>f. marshal_uint64 [] (f_to_bits f64 f)) (decode_value f64 FLOAT64 dict)
      (marshal_float64_string f64 []) (\<lambda>_. True)"
    by unfold_locales (simp add: decode_value_def vt_defs unmarshal_fixed f64)
  show "vt = FLOAT64 \<and> decode_inplace f64 (ve_values ve') vt dict = Ok (map (stored_form f64 vt) vs)"
    using column_format.decode_parsed [OF c parse_values_parse [OF p]] assms(1,2) ve'
    by (simp add: decode_inplace_known fold_push_values stored_form_simps)
qed

lemma decode_strings: "decode_values (decode_value f64 STRING dict) vs = Ok vs"
  by (induction vs) (simp_all add: decode_value_def)

lemma try_encodings_pick:
  assumes "try_encodings ts ve vs = (ve', vt, mn, mx)"
  shows "vt = STRING \<and> ve_values ve' = vs \<or>
    (\<exists>t \<in> set ts. \<exists>ve0. ve_inv ve0 \<and> ve_values ve0 = [] \<and> t ve0 vs = (ve', vt, mn, mx) \<and> vt \<noteq> UNKNOWN)"
  using assms
proof (induction ts arbitrary: ve)
  case Nil
  then have "vt = STRING" "ve' = fold push_value vs (ve_reset ve)" by (simp_all add: Let_def)
  then show ?case using fold_push_values [of "ve_reset ve" "\<lambda>v. v" vs] by simp
next
  case (Cons t ts)
  obtain ve1 vt1 mn1 mx1 where t: "t (ve_reset ve) vs = (ve1, vt1, mn1, mx1)" by (cases "t (ve_reset ve) vs") auto
  show ?case
  proof (cases "vt1 = UNKNOWN")
    case True
    then have "try_encodings ts ve1 vs = (ve', vt, mn, mx)" using Cons.prems(1) t by simp
    then show ?thesis using Cons.IH [of ve1] by auto
  next
    case False
    then have "t (ve_reset ve) vs = (ve', vt, mn, mx) \<and> vt \<noteq> UNKNOWN" using Cons.prems(1) t by auto
    then show ?thesis using ve_reset_inv [of ve] by auto
  qed
qed

text \<open>The outcomes of \<open>encode\<close> on a non-empty column.\<close>

lemma encode_cases:
  assumes "encode f64 ve vs d = (ve', d', vt, mn, mx)" "vs \<noteq> []"
  obtains "vt = DICT" "dict_loop (ve_reset ve) (dict_reset d) vs = Some (ve', d')"
    | "vt = STRING" "ve_values ve' = vs"
    | t ve0 where "t \<in> {try_uint_encoding, try_int_encoding, try_float64_encoding f64, try_ipv4_encoding,
        try_timestamp_iso8601_encoding}" "ve_inv ve0" "ve_values ve0 = []" "t ve0 vs = (ve', vt, mn, mx)" "vt \<noteq> UNKNOWN"
proof (cases "dict_loop (ve_reset ve) (dict_reset d) vs")
  case None
  then have "try_encodings [try_uint_encoding, try_int_encoding, try_float64_encoding f64, try_ipv4_encoding,
      try_timestamp_iso8601_encoding] (ve_reset ve) vs = (ve', vt, mn, mx)"
    using assms by (auto simp: encode_def Let_def try_dict_encoding_def split: prod.splits)
  from try_encodings_pick [OF this] show ?thesis using that(2,3) by auto
next
  case (Some r)
  then have "vt = DICT" "r = (ve', d')"
    using assms by (auto simp: encode_def Let_def try_dict_encoding_def vt_defs split: prod.splits)
  then show ?thesis using that(1) Some by simp
qed

lemma encode_decode:
  assumes e: "encode f64 ve vs d = (ve', d', vt, mn, mx)" and f64: "\<And>f. f_from_bits f64 (f_to_bits f64 f) = f"
  shows "decode_inplace f64 (ve_values ve') vt (dict_values d') = Ok (map (stored_form f64 vt) vs)"
proof (cases "vs = []")
  case True
  then show ?thesis using e by (auto simp: encode_def decode_inplace_known)
next
  case False
  from e False show ?thesis
  proof (cases rule: encode_cases)
    case 1
    moreover have "map (stored_form f64 DICT) vs = vs" by (simp add: map_idI stored_form_simps)
    ultimately show ?thesis using dict_loop_decode [OF 1(2), of f64] by (auto simp: decode_inplace_known)
  next
    case 2
    moreover have "map (stored_form f64 STRING) vs = vs" by (simp add: map_idI stored_form_simps)
    ultimately show ?thesis using decode_strings [of f64 "dict_values d'" vs] by (simp add: decode_inplace_known)
  next
    case (3 t ve0)
    note typed = typed_encoding_decode [OF 3(2,3,5) f64]
    from 3(1) consider "t = try_uint_encoding" | "t = try_int_encoding" | "t = try_float64_encoding f64"
      | "t = try_ipv4_encoding" | "t = try_timestamp_iso8601_encoding" by auto
    then show ?thesis
    proof cases
      case 1
      then show ?thesis using uint_encoding_decode [OF _ 3(5,2,3)] 3(4) by blast
    next
      case 2
      then show ?thesis using typed(1) 3(4) by blast
    next
      case b: 3
      then show ?thesis using typed(2) 3(4) by blast
    next
      case 4
      then show ?thesis using typed(3) 3(4) by blast
    next
      case 5
      then show ?thesis using typed(4) 3(4) by blast
    qed
  qed
qed

text \<open>
  A value is canonical when it equals the printed form of whatever the parsers of the column types
  read it as.
\<close>

definition canonical :: "'f f64_ops \<Rightarrow> bytes \<Rightarrow> bool" where
  "canonical f64 v \<longleftrightarrow>
    (\<forall>vt \<in> set [UINT64, INT64, FLOAT64, IPV4, TIMESTAMP_ISO8601]. stored_form f64 vt v = v)"

lemma stored_form_uint: "vt \<in> {UINT8, UINT16, UINT32, UINT64} \<Longrightarrow> stored_form f64 vt v = stored_form f64 UINT64 v"
  by (simp add: stored_form_simps(7))

lemma canonical_stored: "canonical f64 v \<Longrightarrow> stored_form f64 vt v = v"
  unfolding canonical_def by (auto simp: stored_form_def vt_defs)

text \<open>The type chosen and the bounds returned for a non-empty column.\<close>

definition bounds_hold :: "'f f64_ops \<Rightarrow> ValueType \<Rightarrow> u64 \<Rightarrow> u64 \<Rightarrow> bytes \<Rightarrow> bool" where
  "bounds_hold f64 vt mn mx v =
    (if vt \<in> set [UINT8, UINT16, UINT32, UINT64] then
       (case try_parse_uint64_bytes v of Some n \<Rightarrow> mn \<le> n \<and> n \<le> mx | None \<Rightarrow> False)
     else if vt = INT64 then
       (case try_parse_int64_bytes v of Some n \<Rightarrow> mn \<le>s n \<and> n \<le>s mx | None \<Rightarrow> False)
     else if vt = IPV4 then
       (case try_parse_ipv4_bytes v of Some n \<Rightarrow> mn \<le> ucast n \<and> ucast n \<le> mx | None \<Rightarrow> False)
     else if vt = TIMESTAMP_ISO8601 then
       (case try_parse_timestamp_iso8601_bytes v of Some n \<Rightarrow> mn \<le>s n \<and> n \<le>s mx | None \<Rightarrow> False)
     else True)"

lemma parsed_elem: "map parse vs = map Some ns \<Longrightarrow> v \<in> set vs \<Longrightarrow> \<exists>n \<in> set ns. parse v = Some n"
proof -
  assume m: "map parse vs = map Some ns" and "v \<in> set vs"
  then have "parse v \<in> set (map Some ns)" unfolding m [symmetric] by simp
  then show ?thesis by auto
qed

lemma parse_values_elem_unat:
  fixes x y :: "'w::len word"
  assumes "parse_values parse (<) True mn mx vs = Some (ns, x, y)" "v \<in> set vs"
  shows "case parse v of Some n \<Rightarrow> x \<le> n \<and> n \<le> y | None \<Rightarrow> False"
  using parse_values_bounds [OF assms(1) unat_key] parsed_elem [OF parse_values_parse [OF assms(1)] assms(2)]
  by (auto simp: word_le_nat_alt)

lemma parse_values_elem_sint:
  fixes x y :: "'w::len word"
  assumes "parse_values parse (<s) True mn mx vs = Some (ns, x, y)" "v \<in> set vs"
  shows "case parse v of Some n \<Rightarrow> x \<le>s n \<and> n \<le>s y | None \<Rightarrow> False"
  using parse_values_bounds [OF assms(1) sint_key] parsed_elem [OF parse_values_parse [OF assms(1)] assms(2)]
  by (auto simp: word_sle_eq)

lemma ucast_mono: "(n :: u32) \<le> m \<Longrightarrow> (ucast n :: u64) \<le> ucast m"
  by (simp add: word_le_nat_alt unsigned_ucast_eq take_bit_nat_eq_self order_less_trans [OF unsigned_less [where ?'a = nat]])

lemma try_encoding_bounds:
  assumes "vt \<noteq> UNKNOWN" "v \<in> set vs"
  shows
    "try_uint_encoding ve vs = (ve', vt, mn, mx) \<Longrightarrow> bounds_hold f64 vt mn mx v"
    "try_int_encoding ve vs = (ve', vt, mn, mx) \<Longrightarrow> bounds_hold f64 vt mn mx v"
    "try_float64_encoding f64 ve vs = (ve', vt, mn, mx) \<Longrightarrow> bounds_hold f64 vt mn mx v"
    "try_ipv4_encoding ve vs = (ve', vt, mn, mx) \<Longrightarrow> bounds_hold f64 vt mn mx v"
    "try_timestamp_iso8601_encoding ve vs = (ve', vt, mn, mx) \<Longrightarrow> bounds_hold f64 vt mn mx v"
proof -
  assume e: "try_uint_encoding ve vs = (ve', vt, mn, mx)"
  then obtain ns where p: "parse_values try_parse_uint64_bytes (<) True 0 0 vs = Some (ns, mn, mx)"
    "vt \<in> {UINT8, UINT16, UINT32, UINT64}"
    using assms(1) by (auto simp: try_uint_encoding_def Let_def split: option.splits if_splits)
  then show "bounds_hold f64 vt mn mx v" using parse_values_elem_unat [OF p(1) assms(2)]
    unfolding bounds_hold_def by auto
next
  assume "try_int_encoding ve vs = (ve', vt, mn, mx)"
  then obtain ns where p: "parse_values try_parse_int64_bytes (<s) True 0 0 vs = Some (ns, mn, mx)" "vt = INT64"
    using assms(1) by (auto simp: try_int_encoding_def split: option.splits)
  then show "bounds_hold f64 vt mn mx v" using parse_values_elem_sint [OF p(1) assms(2)]
    by (simp add: bounds_hold_def vt_defs)
next
  assume "try_ipv4_encoding ve vs = (ve', vt, mn, mx)"
  then obtain ns x y where p: "parse_values try_parse_ipv4_bytes (<) True 0 0 vs = Some (ns, x, y)" "vt = IPV4"
    "mn = ucast x" "mx = ucast y"
    using assms(1) by (auto simp: try_ipv4_encoding_def split: option.splits)
  then show "bounds_hold f64 vt mn mx v" using parse_values_elem_unat [OF p(1) assms(2)]
    by (auto simp: bounds_hold_def vt_defs ucast_mono split: option.splits)
next
  assume "try_timestamp_iso8601_encoding ve vs = (ve', vt, mn, mx)"
  then obtain ns where p: "parse_values try_parse_timestamp_iso8601_bytes (<s) True 0 0 vs = Some (ns, mn, mx)"
    "vt = TIMESTAMP_ISO8601"
    using assms(1) by (auto simp: try_timestamp_iso8601_encoding_def split: option.splits)
  then show "bounds_hold f64 vt mn mx v" using parse_values_elem_sint [OF p(1) assms(2)]
    by (simp add: bounds_hold_def vt_defs)
next
  assume "try_float64_encoding f64 ve vs = (ve', vt, mn, mx)"
  then have "vt = FLOAT64" using assms(1) by (auto simp: try_float64_encoding_def split: option.splits)
  then show "bounds_hold f64 vt mn mx v" by (simp add: bounds_hold_def vt_defs)
qed

lemma encode_bounds:
  assumes e: "encode f64 ve vs d = (ve', d', vt, mn, mx)" and v: "v \<in> set vs"
  shows "bounds_hold f64 vt mn mx v"
proof -
  from v have "vs \<noteq> []" by auto
  with e show ?thesis
  proof (cases rule: encode_cases)
    case (3 t ve0)
    note b = try_encoding_bounds [OF 3(5) v]
    from 3(1) consider "t = try_uint_encoding" | "t = try_int_encoding" | "t = try_float64_encoding f64"
      | "t = try_ipv4_encoding" | "t = try_timestamp_iso8601_encoding" by auto
    then show ?thesis by cases (use 3(4) in \<open>auto intro: b\<close>)
  qed (simp_all add: bounds_hold_def vt_defs)
qed

lemma try_parse_uint64_spec:
  "try_parse_uint64_bytes b =
    (if b \<noteq> [] \<and> length b \<le> 26 \<and> (length b = 1 \<or> b ! 0 \<noteq> 48) \<and> list_all (\<lambda>c. c = 95 \<or> is_digit c) b \<and>
        dec_val 0 (filter (\<lambda>c. c \<noteq> 95) b) < 2 ^ 64
     then Some (of_nat (dec_val 0 (filter (\<lambda>c. c \<noteq> 95) b))) else None)"
proof -
  have "length b > 1 \<longleftrightarrow> b \<noteq> [] \<and> length b \<noteq> 1" by (cases b) auto
  then show ?thesis by (auto simp: try_parse_uint64_bytes_def uint64_digits_spec)
qed

lemma dict_inv_small: "dict_inv d \<Longrightarrow> v \<in> set (dict_values d) \<Longrightarrow> length v < 2 ^ 64"
proof -
  assume "dict_inv d" "v \<in> set (dict_values d)"
  then have "length v \<le> sum_list (map length (dict_values d))" by (intro member_le_sum_list) auto
  with \<open>dict_inv d\<close> show ?thesis by (simp add: dict_inv_def MAX_DICT_SIZE_BYTES_def)
qed

subsection \<open>Properties\<close>

text \<open>
  An instance of the float operations, on bit patterns; a column of integers; the result of encoding
  a column with a fresh encoder and decoding it.
\<close>

definition demo_f64 :: "u64 f64_ops" where
  "demo_f64 = \<lparr>f_zero = 0, f_of_u64 = (\<lambda>n. n), f_pow10_tab = (\<lambda>n. 10 ^ n), f_neg = uminus, f_mul = (*), f_div = (div),
    f_mul_add = (\<lambda>a b c. a * b + c), f_less = (<), f_is_nan = (\<lambda>_. False), f_is_infinite = (\<lambda>_. False),
    f_fract_zero = (\<lambda>_. True), f_as_i64 = (\<lambda>n. n), f_to_bits = (\<lambda>n. n), f_from_bits = (\<lambda>n. n),
    f_display = (\<lambda>n. fmt_nat (unat n))\<rparr>"

definition demo_column :: "bytes list" where
  "demo_column = map ascii [''0'', ''17'', ''2'', ''3'', ''4'', ''5'', ''6'', ''255'', ''8'']"

definition ve_empty :: ValuesEncoder where "ve_empty = \<lparr>ve_buf = [], ve_ranges = []\<rparr>"
definition dict_empty :: ValuesDict where "dict_empty = \<lparr>dict_values = []\<rparr>"

definition encoded_form :: "'f f64_ops \<Rightarrow> bytes list \<Rightarrow> (bytes list, values_error) outcome" where
  "encoded_form f64 vs =
    (case encode f64 ve_empty vs dict_empty of
       (ve, d, vt, mn, mx) \<Rightarrow> decode_inplace f64 (ve_values ve) vt (dict_values d))"

lemma demo_canonical: "list_all (canonical demo_f64) demo_column"
  by code_simp

lemma demo_type: "fst (snd (snd (encode demo_f64 ve_empty demo_column dict_empty))) = UINT8"
  by code_simp

text \<open>C17: Whatever representation \<open>encode\<close> picks for a column, decoding what it stored gives back the
  values, provided each value equals the printed form of whatever the parsers of the column types
  read it as. Nothing is assumed of the encoder and dictionary passed in; of the float operations,
  that \<open>from_bits\<close> inverts \<open>to_bits\<close>.
\<close>

theorem values_column_lossless:
  assumes "encode f64 ve vs d = (ve', d', vt, mn, mx)" "\<forall>f. f_from_bits f64 (f_to_bits f64 f) = f"
    and "\<forall>v \<in> set vs. canonical f64 v"
  shows "decode_inplace f64 (ve_values ve') vt (dict_values d') = Ok vs"
proof -
  have "map (stored_form f64 vt) vs = vs" using assms(3) by (simp add: map_idI canonical_stored)
  with encode_decode [OF assms(1)] assms(2) show ?thesis by simp
qed

theorem values_column_lossless_witness:
  "encoded_form demo_f64 demo_column = Ok demo_column \<and>
   fst (snd (snd (encode demo_f64 ve_empty demo_column dict_empty))) = UINT8"
proof -
  obtain ve' d' vt mn mx where e: "encode demo_f64 ve_empty demo_column dict_empty = (ve', d', vt, mn, mx)"
    by (cases "encode demo_f64 ve_empty demo_column dict_empty") auto
  have "decode_inplace demo_f64 (ve_values ve') vt (dict_values d') = Ok demo_column"
    by (rule values_column_lossless [OF e])
       (use demo_canonical in \<open>simp_all add: demo_f64_def list_all_iff\<close>)
  then show ?thesis using demo_type by (simp add: encoded_form_def e)
qed

text \<open>C25: The minimum and the maximum that \<open>encode\<close> returns for a column bound every value of it, in the
  order of the type it picked: unsigned for integers and IPv4 addresses, signed for \<open>int64\<close> and
  timestamps. Every value parses as that type. (Dictionaries and strings carry no bounds; the bounds
  of floats are left out.)
\<close>

theorem values_column_bounds:
  assumes "encode f64 ve vs d = (ve', d', vt, mn, mx)" "v \<in> set vs"
  shows "bounds_hold f64 vt mn mx v"
  using assms by (rule encode_bounds)

theorem values_column_bounds_witness:
  "case encode demo_f64 ve_empty demo_column dict_empty of (ve, d, vt, mn, mx) \<Rightarrow>
     vt = UINT8 \<and> bounds_hold demo_f64 vt mn mx (ascii ''255'')"
proof -
  obtain ve' d' vt mn mx where e: "encode demo_f64 ve_empty demo_column dict_empty = (ve', d', vt, mn, mx)"
    by (cases "encode demo_f64 ve_empty demo_column dict_empty") auto
  have "bounds_hold demo_f64 vt mn mx (ascii ''255'')"
    by (rule values_column_bounds [OF e]) (simp add: demo_column_def)
  then show ?thesis using demo_type e by auto
qed

text \<open>\<open>try_parse_uint64_bytes\<close> accepts exactly the strings of 1 to 26 digits and underscores without
  a leading zero whose digits denote a number below \<open>2 ^ 64\<close>, and returns that number: its overflow
  checks reject nothing that fits and let nothing wrap.
\<close>

lemma uint64_parser_exact:
  "try_parse_uint64_bytes b =
    (if b \<noteq> [] \<and> length b \<le> 26 \<and> (length b = 1 \<or> b ! 0 \<noteq> 48) \<and> list_all (\<lambda>c. c = 95 \<or> is_digit c) b \<and>
        dec_val 0 (filter (\<lambda>c. c \<noteq> 95) b) < 2 ^ 64
     then Some (of_nat (dec_val 0 (filter (\<lambda>c. c \<noteq> 95) b))) else None)"
  by (rule try_parse_uint64_spec)

text \<open>The printed form of every \<open>u64\<close>, \<open>i64\<close> and IPv4 address parses back to the value, so a column
  of printed integers or addresses is never read as another value; the hand-written printer of
  \<open>u8\<close> values agrees with decimal formatting.
\<close>

lemma value_texts_roundtrip:
  "try_parse_uint64_bytes (marshal_uint64_string [] n) = Some n \<and>
   try_parse_int64_bytes (marshal_int64_string [] n) = Some n \<and>
   try_parse_ipv4_bytes (marshal_ipv4_string [] ip) = Some ip \<and>
   marshal_uint8_string [] b = fmt_nat (unat b)"
  using u64_col.parse_print i64_col.parse_print ipv4_col.parse_print by (simp add: marshal_uint8_string_eq)

text \<open>C27: A dictionary built by \<open>get_or_add\<close> from a valid one keeps at most 8 distinct values of at most
  256 bytes in all; the index it returns is the position of the key and positions given out before
  stay valid. Marshalling such a dictionary does not panic, and unmarshalling restores it and leaves
  the rest of the input.
\<close>

theorem dict_keeps_and_restores:
  assumes "dict_inv d"
  shows "(case get_or_add d k of
       (d', Some i) \<Rightarrow> dict_inv d' \<and> unat i < length (dict_values d') \<and> dict_values d' ! unat i = k \<and>
         take (length (dict_values d)) (dict_values d') = dict_values d
     | (d', None) \<Rightarrow> d' = d) \<and>
    (\<exists>m. dict_marshal d dst = Ok (dst @ m) \<and> dict_unmarshal_inplace d0 (m @ rest) = Ok (d0\<lparr>dict_values := dict_values d\<rparr>, rest))"
proof
  show "case get_or_add d k of
       (d', Some i) \<Rightarrow> dict_inv d' \<and> unat i < length (dict_values d') \<and> dict_values d' ! unat i = k \<and>
         take (length (dict_values d)) (dict_values d') = dict_values d
     | (d', None) \<Rightarrow> d' = d"
    using get_or_add_Some [OF assms, of k] get_or_add_None [of d k] by (fastforce split: prod.splits option.splits)
  define m where "m = of_nat (length (dict_values d)) # marshal_strings [] (dict_values d)"
  have l: "length (dict_values d) \<le> 8" using assms by (simp add: dict_inv_def MAX_DICT_LEN_def)
  then have "unat (of_nat (length (dict_values d)) :: u8) = length (dict_values d)"
    by (simp add: unat_of_nat take_bit_nat_eq_self)
  then have "dict_unmarshal_inplace d0 (m @ rest) = Ok (d0\<lparr>dict_values := dict_values d\<rparr>, rest)"
    using dict_unmarshal_strings [of "dict_values d" "length (dict_values d)" "[]" rest] dict_inv_small [OF assms]
    by (simp add: dict_unmarshal_inplace_def dict_reset_def m_def Let_def)
  moreover have "dict_marshal d dst = Ok (dst @ m)"
    using l marshal_strings_append [of "dst @ [of_nat (length (dict_values d))]" "dict_values d"]
    by (simp add: dict_marshal_def MAX_DICT_LEN_def m_def)
  ultimately show "\<exists>m. dict_marshal d dst = Ok (dst @ m) \<and>
      dict_unmarshal_inplace d0 (m @ rest) = Ok (d0\<lparr>dict_values := dict_values d\<rparr>, rest)" by blast
qed

theorem dict_keeps_and_restores_witness:
  "\<exists>m. dict_marshal dict_empty [7] = Ok ([7] @ m) \<and> dict_unmarshal_inplace dict_empty (m @ [9]) = Ok (dict_empty, [9])"
proof -
  have "dict_inv dict_empty" by (simp add: dict_inv_def dict_empty_def)
  from dict_keeps_and_restores [OF this, of "[1]" "[7]" dict_empty "[9]"] show ?thesis
    by (simp add: dict_empty_def)
qed

text \<open>
  Values that the parser of a column type accepts although no value prints like this: an underscore between
  digits, a negative zero, a leading zero in an IPv4 address, a blank in a timestamp.
\<close>

definition misprinted :: "ValueType \<Rightarrow> bytes \<Rightarrow> bool" where
  "misprinted vt v =
    (if vt \<in> set [UINT8, UINT16, UINT32, UINT64] then 95 \<in> set v
     else if vt = INT64 then 95 \<in> set v \<or> v = [45, 48]
     else if vt = IPV4 then (case v of c # c' # _ \<Rightarrow> c = 48 \<and> is_digit c' | _ \<Rightarrow> False)
     else vt = TIMESTAMP_ISO8601 \<and> 32 \<in> set v)"

lemma fmt_nat_chars: "95 \<notin> set (fmt_nat n)" "32 \<notin> set (fmt_nat n)"
  using fmt_nat_digits [of n] by (auto simp: is_digit_def)

lemma int64_string_printed: "95 \<notin> set (marshal_int64_string [] n)" "marshal_int64_string [] n \<noteq> [45, 48]"
proof -
  show "95 \<notin> set (marshal_int64_string [] n)" by (simp add: marshal_int64_string_def fmt_nat_chars)
  have "fmt_nat (nat (- sint n)) \<noteq> [48]" if "sint n < 0" using fmt_nat_hd [of "nat (- sint n)"] that by auto
  moreover have "fmt_nat k \<noteq> [45, 48]" for k
  proof
    assume "fmt_nat k = [45, 48]"
    then show False using fmt_nat_digits [of k] by (simp add: is_digit_def)
  qed
  ultimately show "marshal_int64_string [] n \<noteq> [45, 48]" by (simp add: marshal_int64_string_def)
qed

lemma ipv4_string_printed: "\<not> misprinted IPV4 (marshal_ipv4_string [] n)"
proof -
  obtain k r where m: "marshal_ipv4_string [] n = fmt_nat k @ 46 # r"
    by (simp add: marshal_ipv4_string_def marshal_uint8_string_eq Let_def)
  show ?thesis
  proof (cases "k = 0")
    case True
    then show ?thesis by (simp add: m misprinted_def vt_defs fmt_nat.simps is_digit_def)
  next
    case False
    obtain c cs where c: "fmt_nat k = c # cs" by (cases "fmt_nat k") auto
    have "c \<noteq> 48" using fmt_nat_hd [of k] False c by simp
    then show ?thesis by (simp add: m c misprinted_def vt_defs split: list.splits)
  qed
qed

lemma iso8601_string_printed: "32 \<notin> set (marshal_timestamp_iso8601_string [] t)"
  by (auto simp: marshal_timestamp_iso8601_string_def fmt_date_time_def fmt_pad_def Let_def fmt_nat_chars split: prod.splits)

lemma stored_form_printed:
  assumes "bounds_hold f64 vt mn mx v" "misprinted vt v"
  shows "stored_form f64 vt v \<noteq> v"
proof -
  consider (u) "vt \<in> {UINT8, UINT16, UINT32, UINT64}" | (i) "vt = INT64" | (p) "vt = IPV4" | (t) "vt = TIMESTAMP_ISO8601"
    using assms(2) by (auto simp: misprinted_def split: if_splits)
  then show ?thesis
  proof cases
    case u
    then show ?thesis using assms fmt_nat_chars
      by (auto simp: stored_form_simps(7) bounds_hold_def misprinted_def marshal_uint64_string_def split: option.splits)
  next
    case i
    obtain n where n: "try_parse_int64_bytes v = Some n" using assms(1) i by (auto simp: bounds_hold_def vt_defs split: option.splits)
    have "95 \<in> set v \<or> v = [45, 48]" using assms(2) i by (simp add: misprinted_def vt_defs)
    then show ?thesis unfolding i stored_form_simps(3) n option.case using int64_string_printed by metis
  next
    case p
    obtain n where n: "try_parse_ipv4_bytes v = Some n" using assms(1) p by (auto simp: bounds_hold_def vt_defs split: option.splits)
    show ?thesis unfolding p stored_form_simps(5) n option.case using ipv4_string_printed assms(2) p by metis
  next
    case t
    obtain n where n: "try_parse_timestamp_iso8601_bytes v = Some n" using assms(1) t by (auto simp: bounds_hold_def vt_defs split: option.splits)
    have "32 \<in> set v" using assms(2) t by (simp add: misprinted_def vt_defs)
    then show ?thesis unfolding t stored_form_simps(6) n option.case using iso8601_string_printed by metis
  qed
qed

text \<open>C38: Columns are not stored losslessly in general. Whatever column \<open>encode\<close> stores as integers, IPv4 addresses or
  timestamps, every value of it with an underscore, every \<open>-0\<close> among signed integers, every address that
  begins with a superfluous zero and every timestamp with a blank comes back changed, although the comment
  in the timestamp parser says that values are only accepted if they are converted back to the same
  string. Decoding does not fail, so the change is silent.\<close>

theorem values_column_lossy:
  assumes "encode f64 ve vs d = (ve', d', vt, mn, mx)" "\<forall>f. f_from_bits f64 (f_to_bits f64 f) = f"
  shows "\<exists>ws. decode_inplace f64 (ve_values ve') vt (dict_values d') = Ok ws \<and> length ws = length vs \<and>
    (\<forall>i < length vs. misprinted vt (vs ! i) \<longrightarrow> ws ! i \<noteq> vs ! i)"
proof -
  have "stored_form f64 vt v \<noteq> v" if "v \<in> set vs" "misprinted vt v" for v
    by (rule stored_form_printed [OF encode_bounds [OF assms(1) that(1)] that(2)])
  then show ?thesis using encode_decode [OF assms(1)] assms(2) by simp
qed

definition demo_misprinted :: "bytes list" where
  "demo_misprinted = ascii ''1_000'' # map ascii [''1'', ''2'', ''3'', ''4'', ''5'', ''6'', ''7'', ''8'']"

theorem values_column_lossy_witness:
  "\<exists>ws. encoded_form demo_f64 demo_misprinted = Ok ws \<and> length ws = 9 \<and> ws ! 0 \<noteq> ascii ''1_000''"
proof -
  obtain ve' d' vt mn mx where e: "encode demo_f64 ve_empty demo_misprinted dict_empty = (ve', d', vt, mn, mx)"
    by (cases "encode demo_f64 ve_empty demo_misprinted dict_empty") auto
  have "case encode demo_f64 ve_empty demo_misprinted dict_empty of (_, _, vt, _) \<Rightarrow> vt = UINT16" by code_simp
  then have vt: "vt = UINT16" using e by simp
  have m: "misprinted UINT16 (demo_misprinted ! 0)" "length demo_misprinted = 9" "demo_misprinted ! 0 = ascii ''1_000''" by code_simp+
  have law: "\<forall>f. f_from_bits demo_f64 (f_to_bits demo_f64 f) = f" by (simp add: demo_f64_def)
  have "encoded_form demo_f64 demo_misprinted = decode_inplace demo_f64 (ve_values ve') vt (dict_values d')" by (simp add: encoded_form_def e)
  then show ?thesis using values_column_lossy [OF e law] m vt by force
qed

end
