(* ===== verification/Duration_Format.thy ===== *)
theory Duration_Format
  imports Values_Encoder
begin

text \<open>
  Byte sizes and durations of \<^verbatim>\<open>esl-logstorage/src/values_encoder.rs\<close>: \<open>try_parse_bytes\<close>,
  \<open>try_parse_duration\<close> and \<open>marshal_duration_string\<close>. The strings are \<open>&str\<close>, so slicing one inside a
  character panics; the lemmas show for which inputs that cannot happen, and that it does happen.
\<close>

unbundle bit_operations_syntax

subsection \<open>Definitions: parsing\<close>

text \<open>\<open>&s[..k]\<close> of a \<open>&str\<close>: it panics out of range and inside a character.\<close>

definition str_prefix :: "nat \<Rightarrow> bytes \<Rightarrow> (bytes, unit) outcome" where
  "str_prefix k s = (if k > length s \<or> k < length s \<and> cont_byte (s ! k) then Panic else Ok (take k s))"

definition float_char :: "u8 \<Rightarrow> bool" where
  "float_char c \<longleftrightarrow> is_digit c \<or> c = 46 \<or> c = 95"

definition try_parse_float64_prefix :: "'f f64_ops \<Rightarrow> bytes \<Rightarrow> ('f \<times> bytes) option" where
  "try_parse_float64_prefix f64 s =
    (let i = length (takeWhile float_char s) in
     if i = 0 then None
     else Option.bind (try_parse_float64 f64 (take i s)) (\<lambda>f. Some (f, drop i s)))"

definition add_int64_no_overflow :: "'f f64_ops \<Rightarrow> i64 \<Rightarrow> 'f \<Rightarrow> i64" where
  "add_int64_no_overflow f64 n f =
    (let x = f_as_i64 f64 f in
     if n <s 0 \<or> x <s 0 \<or> i64_MAX - n <s x then i64_MAX else n + x)"

text \<open>The suffixes with their factors; no factor means that the number is added as it is.\<close>

definition byte_units3 :: "(bytes \<times> u64 option) list" where
  "byte_units3 = [(ascii ''KiB'', Some (push_bit 10 1)), (ascii ''MiB'', Some (push_bit 20 1)),
     (ascii ''GiB'', Some (push_bit 30 1)), (ascii ''TiB'', Some (push_bit 40 1))]"

definition byte_units2 :: "(bytes \<times> u64 option) list" where
  "byte_units2 = [(ascii ''Ki'', Some (push_bit 10 1)), (ascii ''Mi'', Some (push_bit 20 1)),
     (ascii ''Gi'', Some (push_bit 30 1)), (ascii ''Ti'', Some (push_bit 40 1)),
     (ascii ''KB'', Some 1000), (ascii ''MB'', Some 1000000),
     (ascii ''GB'', Some 1000000000), (ascii ''TB'', Some 1000000000000)]"

definition byte_units1 :: "(bytes \<times> u64 option) list" where
  "byte_units1 = [(ascii ''B'', None), (ascii ''K'', Some 1000), (ascii ''M'', Some 1000000),
     (ascii ''G'', Some 1000000000), (ascii ''T'', Some 1000000000000)]"

definition scale_f64 :: "'f f64_ops \<Rightarrow> 'f \<Rightarrow> u64 option \<Rightarrow> 'f" where
  "scale_f64 f64 f unit = (case unit of None \<Rightarrow> f | Some k \<Rightarrow> f_mul f64 f (f_of_u64 f64 k))"

text \<open>A suffix of \<open>k\<close> bytes, tried only when that many bytes are left.\<close>

definition match_unit :: "(bytes \<times> u64 option) list \<Rightarrow> nat \<Rightarrow> bytes \<Rightarrow> (u64 option option, unit) outcome" where
  "match_unit units k s =
    (if length s \<ge> k then obind (str_prefix k s) (\<lambda>p. Ok (map_of units p)) else Ok None)"

lemma float_prefix_shrinks: "try_parse_float64_prefix f64 s = Some (f, tail) \<Longrightarrow> length tail < length s"
  by (cases s) (auto simp: try_parse_float64_prefix_def Let_def bind_eq_Some_conv split: if_splits)

function bytes_loop :: "'f f64_ops \<Rightarrow> i64 \<Rightarrow> bytes \<Rightarrow> (i64 option, unit) outcome" where
  "bytes_loop f64 n s =
    (if s = [] then Ok (Some n)
     else case try_parse_float64_prefix f64 s of
       None \<Rightarrow> Ok None
     | Some (f, tail) \<Rightarrow>
         if tail = [] \<and> \<not> f_fract_zero f64 f then Ok None
         else if tail = [] then bytes_loop f64 (add_int64_no_overflow f64 n f) []
         else
           case match_unit byte_units3 3 tail of
             Panic \<Rightarrow> Panic | Err e \<Rightarrow> Err e
           | Ok (Some u) \<Rightarrow> bytes_loop f64 (add_int64_no_overflow f64 n (scale_f64 f64 f u)) (drop 3 tail)
           | Ok None \<Rightarrow>
               case match_unit byte_units2 2 tail of
                 Panic \<Rightarrow> Panic | Err e \<Rightarrow> Err e
               | Ok (Some u) \<Rightarrow> bytes_loop f64 (add_int64_no_overflow f64 n (scale_f64 f64 f u)) (drop 2 tail)
               | Ok None \<Rightarrow>
                   case map_of byte_units1 [tail ! 0] of
                     Some u \<Rightarrow> bytes_loop f64 (add_int64_no_overflow f64 n (scale_f64 f64 f u)) (drop 1 tail)
                   | None \<Rightarrow> bytes_loop f64 n tail)"
  by pat_completeness auto
termination
  by (relation "measure (\<lambda>(_, _, s). length s)") (auto dest!: float_prefix_shrinks)

definition try_parse_bytes :: "'f f64_ops \<Rightarrow> bytes \<Rightarrow> (i64 option, unit) outcome" where
  "try_parse_bytes f64 s =
    (if s = [] then Ok None
     else let is_minus = (s ! 0 = 45); s = (if is_minus then drop 1 s else s) in
       obind (bytes_loop f64 0 s) (\<lambda>r. Ok (map_option (\<lambda>n. if is_minus then - n else n) r)))"

definition NSECS_PER_YEAR :: i64 where "NSECS_PER_YEAR = 365 * 24 * 3600 * 1000000000"
definition NSECS_PER_WEEK :: i64 where "NSECS_PER_WEEK = 7 * 24 * 3600 * 1000000000"
definition NSECS_PER_DAY :: i64 where "NSECS_PER_DAY = 24 * 3600 * 1000000000"
definition NSECS_PER_SECOND :: i64 where "NSECS_PER_SECOND = 1000000000"
definition NSECS_PER_MILLISECOND :: i64 where "NSECS_PER_MILLISECOND = 1000000"
definition NSECS_PER_MICROSECOND :: i64 where "NSECS_PER_MICROSECOND = 1000"

text \<open>The bytes of \<open>"\<mu>s"\<close> in UTF-8.\<close>

definition micro_s :: bytes where
  "micro_s = [0xC2, 0xB5, 0x73]"

definition duration_units2 :: "(bytes \<times> u64 option) list" where
  "duration_units2 = [(ascii ''ms'', Some NSECS_PER_MILLISECOND), (ascii ''ns'', None)]"

definition duration_units1 :: "(bytes \<times> u64 option) list" where
  "duration_units1 = [(ascii ''y'', Some NSECS_PER_YEAR), (ascii ''w'', Some NSECS_PER_WEEK),
     (ascii ''d'', Some NSECS_PER_DAY), (ascii ''h'', Some NSECS_PER_HOUR),
     (ascii ''m'', Some NSECS_PER_MINUTE), (ascii ''s'', Some NSECS_PER_SECOND)]"

function duration_loop :: "'f f64_ops \<Rightarrow> i64 \<Rightarrow> bytes \<Rightarrow> (i64 option, unit) outcome" where
  "duration_loop f64 nsecs s =
    (if s = [] then Ok (Some nsecs)
     else case try_parse_float64_prefix f64 s of
       None \<Rightarrow> Ok None
     | Some (f, tail) \<Rightarrow>
         if tail = [] then Ok None
         else if length tail \<ge> 3 \<and> take 3 tail = micro_s then
           duration_loop f64 (add_int64_no_overflow f64 nsecs (scale_f64 f64 f (Some NSECS_PER_MICROSECOND))) (drop 3 tail)
         else
           case match_unit duration_units2 2 tail of
             Panic \<Rightarrow> Panic | Err e \<Rightarrow> Err e
           | Ok (Some u) \<Rightarrow> duration_loop f64 (add_int64_no_overflow f64 nsecs (scale_f64 f64 f u)) (drop 2 tail)
           | Ok None \<Rightarrow>
               case map_of duration_units1 [tail ! 0] of
                 Some u \<Rightarrow> duration_loop f64 (add_int64_no_overflow f64 nsecs (scale_f64 f64 f u)) (drop 1 tail)
               | None \<Rightarrow> Ok None)"
  by pat_completeness auto
termination
  by (relation "measure (\<lambda>(_, _, s). length s)") (auto dest!: float_prefix_shrinks)

declare bytes_loop.simps [simp del] duration_loop.simps [simp del]

definition try_parse_duration :: "'f f64_ops \<Rightarrow> bytes \<Rightarrow> (i64 option, unit) outcome" where
  "try_parse_duration f64 s =
    (if s = [] then Ok None
     else let is_minus = (s ! 0 = 45); s = (if is_minus then drop 1 s else s) in
       obind (duration_loop f64 0 s) (\<lambda>r. Ok (map_option (\<lambda>n. if is_minus then - n else n) r)))"

subsection \<open>Definitions: printing\<close>

text \<open>
  One unit of \<open>marshal_duration_string\<close>: when at least one unit is left its count is printed with the
  suffix and subtracted. The counts of days to microseconds are cast to \<open>u8\<close> and \<open>u16\<close> in the code
  before printing, which is written out by the printer passed in.
\<close>

definition duration_unit ::
  "i64 \<Rightarrow> (bytes \<Rightarrow> i64 \<Rightarrow> bytes) \<Rightarrow> bytes \<Rightarrow> bytes \<times> i64 \<Rightarrow> bytes \<times> i64" where
  "duration_unit unit print suffix = (\<lambda>(dst, nsecs).
    if unit \<le>s nsecs then
      (let k = of_int (sint nsecs div sint unit) in (print dst k @ suffix, nsecs - k * unit))
    else (dst, nsecs))"

definition print_u8 :: "bytes \<Rightarrow> i64 \<Rightarrow> bytes" where
  "print_u8 dst k = marshal_uint8_string dst (ucast k)"

definition print_u16 :: "bytes \<Rightarrow> i64 \<Rightarrow> bytes" where
  "print_u16 dst k = marshal_uint16_string dst (ucast k)"

text \<open>The part of \<open>marshal_duration_string\<close> after the sign.\<close>

definition marshal_duration_units :: "'f f64_ops \<Rightarrow> bytes \<Rightarrow> i64 \<Rightarrow> bytes" where
  "marshal_duration_units f64 dst nsecs =
    (let format_float64_seconds = (NSECS_PER_SECOND \<le>s nsecs);
         (dst, nsecs) = duration_unit NSECS_PER_WEEK marshal_uint64_string (ascii ''w'') (dst, nsecs);
         (dst, nsecs) = duration_unit NSECS_PER_DAY print_u8 (ascii ''d'') (dst, nsecs);
         (dst, nsecs) = duration_unit NSECS_PER_HOUR print_u8 (ascii ''h'') (dst, nsecs);
         (dst, nsecs) = duration_unit NSECS_PER_MINUTE print_u8 (ascii ''m'') (dst, nsecs)
     in if NSECS_PER_SECOND \<le>s nsecs \<and> format_float64_seconds then
          marshal_float64_string f64 dst (f_div f64 (f_of_u64 f64 nsecs) (f_of_u64 f64 NSECS_PER_SECOND)) @ ascii ''s''
        else
          let (dst, nsecs) = duration_unit NSECS_PER_SECOND print_u8 (ascii ''s'') (dst, nsecs);
              (dst, nsecs) = duration_unit NSECS_PER_MILLISECOND print_u16 (ascii ''ms'') (dst, nsecs);
              (dst, nsecs) = duration_unit NSECS_PER_MICROSECOND print_u16 micro_s (dst, nsecs)
          in if 0 <s nsecs then print_u16 dst nsecs @ ascii ''ns'' else dst)"

definition marshal_duration_string :: "'f f64_ops \<Rightarrow> bytes \<Rightarrow> i64 \<Rightarrow> bytes" where
  "marshal_duration_string f64 dst nsecs =
    (if nsecs = 0 then dst @ ascii ''0''
     else if nsecs <s 0 then marshal_duration_units f64 (dst @ ascii ''-'') (- nsecs)
     else marshal_duration_units f64 dst nsecs)"


subsection \<open>Panics\<close>

lemma match_unit_ascii: "\<forall>b \<in> set s. b < 128 \<Longrightarrow> \<exists>r. match_unit units k s = Ok r"
proof -
  assume a: "\<forall>b \<in> set s. b < 128"
  have "\<not> cont_byte (s ! k)" if "k < length s"
  proof -
    have "s ! k < 128" using a that by simp
    then show ?thesis by (auto simp: cont_byte_def)
  qed
  then show ?thesis by (auto simp: match_unit_def str_prefix_def)
qed

lemma float_prefix_suffix: "try_parse_float64_prefix f64 s = Some (f, tail) \<Longrightarrow> set tail \<subseteq> set s"
  by (auto simp: try_parse_float64_prefix_def Let_def bind_eq_Some_conv split: if_splits dest: in_set_dropD)

lemma bytes_loop_ascii: "\<forall>b \<in> set s. b < 128 \<Longrightarrow> \<exists>r. bytes_loop f64 n s = Ok r"
proof (induction f64 n s rule: bytes_loop.induct)
  case (1 f64 n s)
  show ?case
  proof (cases "try_parse_float64_prefix f64 s")
    case None
    then show ?thesis by (subst bytes_loop.simps) simp
  next
    case (Some r)
    obtain f tail where t: "try_parse_float64_prefix f64 s = Some (f, tail)" using Some by (cases r) auto
    have a: "\<forall>b \<in> set tail. b < 128" "\<forall>b \<in> set (drop k tail). b < 128" for k
      using float_prefix_suffix [OF t] "1.prems" by (auto dest: in_set_dropD)
    obtain r3 r2 where "match_unit byte_units3 3 tail = Ok r3" "match_unit byte_units2 2 tail = Ok r2"
      using match_unit_ascii [OF a(1)] by metis
    then show ?thesis using "1.IH" [OF _ t refl] a t
      by (subst bytes_loop.simps) (auto split: option.splits)
  qed
qed

lemma duration_loop_ascii: "\<forall>b \<in> set s. b < 128 \<Longrightarrow> \<exists>r. duration_loop f64 n s = Ok r"
proof (induction f64 n s rule: duration_loop.induct)
  case (1 f64 n s)
  show ?case
  proof (cases "try_parse_float64_prefix f64 s")
    case None
    then show ?thesis by (subst duration_loop.simps) simp
  next
    case (Some r)
    obtain f tail where t: "try_parse_float64_prefix f64 s = Some (f, tail)" using Some by (cases r) auto
    have a: "\<forall>b \<in> set tail. b < 128" "\<forall>b \<in> set (drop k tail). b < 128" for k
      using float_prefix_suffix [OF t] "1.prems" by (auto dest: in_set_dropD)
    obtain r2 where "match_unit duration_units2 2 tail = Ok r2"
      using match_unit_ascii [OF a(1)] by metis
    then show ?thesis using "1.IH" [OF _ t refl] a t
      by (subst duration_loop.simps) (auto split: option.splits)
  qed
qed

subsection \<open>Printed durations parse back\<close>

text \<open>
  What is assumed of the float operations: integers and their products below \<open>2 ^ 53\<close> are exact.
\<close>

definition f64_exact :: "'f f64_ops \<Rightarrow> bool" where
  "f64_exact f64 \<longleftrightarrow>
    (\<forall>n. unat n < 2 ^ 53 \<longrightarrow> f_as_i64 f64 (f_of_u64 f64 n) = n) \<and>
    (\<forall>n k. unat n * unat k < 2 ^ 53 \<longrightarrow> f_as_i64 f64 (f_mul f64 (f_of_u64 f64 n) (f_of_u64 f64 k)) = n * k)"

text \<open>A printed unit, and the start of what may follow it.\<close>

definition chunk :: "nat \<Rightarrow> bytes \<Rightarrow> bytes" where
  "chunk k suffix = (if k = 0 then [] else fmt_nat k @ suffix)"

definition starts_number :: "bytes \<Rightarrow> bool" where
  "starts_number s \<longleftrightarrow> s = [] \<or> is_digit (s ! 0) \<and> (1 < length s \<longrightarrow> \<not> cont_byte (s ! 1))"

lemma digit_no_cont: "is_digit c \<Longrightarrow> \<not> cont_byte c"
  by (auto simp: is_digit_def cont_byte_def word_le_nat_alt)

lemma starts_number_chunk:
  assumes "starts_number rest" "suffix \<noteq> []" "\<not> cont_byte (hd suffix)"
  shows "starts_number (chunk k suffix @ rest)"
proof (cases "k = 0")
  case False
  obtain c cs where c: "fmt_nat k = c # cs" by (cases "fmt_nat k") auto
  have "is_digit c" "\<forall>x \<in> set cs. is_digit x" using fmt_nat_digits [of k] c by auto
  then show ?thesis using False c assms digit_no_cont
    by (cases cs; cases suffix) (auto simp: starts_number_def chunk_def)
qed (use assms in \<open>simp add: chunk_def\<close>)

lemma float_prefix_fmt:
  assumes "\<not> float_char c" "k < 2 ^ 64"
  shows "try_parse_float64_prefix f64 (fmt_nat k @ c # rest) = Some (f_of_u64 f64 (of_nat k), c # rest)"
proof -
  have d: "\<forall>x \<in> set (fmt_nat k). is_digit x" by (rule fmt_nat_digits)
  then have "takeWhile float_char (fmt_nat k @ c # rest) = fmt_nat k"
    using assms(1) by (simp add: takeWhile_append float_char_def)
  moreover have "position (\<lambda>c. c = 46) (fmt_nat k) = None"
  proof -
    have "\<forall>x \<in> set s. x \<noteq> 46 \<Longrightarrow> position (\<lambda>c. c = 46) s = None" for s :: bytes by (induction s) auto
    then show ?thesis using fmt_nat_no_dot [of k] by metis
  qed
  moreover have "length (fmt_nat k) \<le> 20" using assms(2) by (intro fmt_nat_length) auto
  moreover have "try_parse_uint64_bytes (fmt_nat k) = Some (of_nat k)"
    using try_parse_uint64_fmt [of "of_nat k"] assms(2) by (simp add: unat_of_nat take_bit_nat_eq_self)
  ultimately show ?thesis
    using fmt_nat_no_minus [of k]
    by (simp add: try_parse_float64_prefix_def try_parse_float64_def try_parse_float64_internal_def)
qed

lemma add_exact:
  assumes "f_as_i64 f64 f = of_nat b" "a + b < 2 ^ 63"
  shows "add_int64_no_overflow f64 (of_nat a) f = of_nat (a + b)"
proof -
  have s: "sint (of_nat n :: i64) = int n" if "n < 2 ^ 63" for n
    using that by (simp add: signed_of_nat signed_take_bit_int_eq_self)
  have "sint (i64_MAX - of_nat a) = 2 ^ 63 - 1 - int a"
    using assms(2) s [of a] by (subst sint_exact_sub) (simp_all add: sint_MIN_MAX)
  then show ?thesis using assms s [of a] s [of b] by (simp add: add_int64_no_overflow_def word_sless_alt)
qed

text \<open>Reading one printed unit, by the length of its suffix.\<close>

lemma read_micro:
  assumes "k < 2 ^ 64"
  shows "duration_loop f64 a (fmt_nat k @ micro_s @ rest) =
    duration_loop f64 (add_int64_no_overflow f64 a (scale_f64 f64 (f_of_u64 f64 (of_nat k)) (Some NSECS_PER_MICROSECOND))) rest"
  using assms by (subst (1) duration_loop.simps) (simp add: micro_s_def float_prefix_fmt float_char_def is_digit_def)

lemma read_two:
  assumes "k < 2 ^ 64" "starts_number rest" "(p, u) \<in> {(ascii ''ms'', Some NSECS_PER_MILLISECOND), (ascii ''ns'', None)}"
  shows "duration_loop f64 a (fmt_nat k @ p @ rest) =
    duration_loop f64 (add_int64_no_overflow f64 a (scale_f64 f64 (f_of_u64 f64 (of_nat k)) u)) rest"
proof -
  have "match_unit duration_units2 2 (p @ rest) = Ok (Some u)"
    using assms(2,3) by (auto simp: match_unit_def str_prefix_def duration_units2_def ascii_def starts_number_def nth_append digit_no_cont)
  then show ?thesis using assms
    by (subst (1) duration_loop.simps) (auto simp: micro_s_def float_prefix_fmt float_char_def is_digit_def ascii_def)
qed

lemma read_one:
  assumes "k < 2 ^ 64" "starts_number rest"
    "(c, u) \<in> {(119, NSECS_PER_WEEK), (100, NSECS_PER_DAY), (104, NSECS_PER_HOUR), (109, NSECS_PER_MINUTE), (115, NSECS_PER_SECOND)}"
  shows "duration_loop f64 a (fmt_nat k @ c # rest) =
    duration_loop f64 (add_int64_no_overflow f64 a (scale_f64 f64 (f_of_u64 f64 (of_nat k)) (Some u))) rest"
proof -
  have m: "match_unit duration_units2 2 (c # rest) = Ok None"
  proof (cases rest)
    case (Cons d ds)
    then have d: "is_digit d" "ds \<noteq> [] \<longrightarrow> \<not> cont_byte (ds ! 0)" using assms(2) by (auto simp: starts_number_def)
    then show ?thesis using Cons by (auto simp: match_unit_def str_prefix_def duration_units2_def ascii_def is_digit_def)
  qed (simp add: match_unit_def)
  have u: "map_of duration_units1 [c] = Some (Some u)"
    using assms(3) by (auto simp: duration_units1_def ascii_def)
  have c: "\<not> float_char c" "c \<noteq> 0xC2" using assms(3) by (auto simp: float_char_def is_digit_def)
  have "try_parse_float64_prefix f64 (fmt_nat k @ c # rest) = Some (f_of_u64 f64 (of_nat k), c # rest)"
    by (rule float_prefix_fmt [OF c(1) assms(1)])
  then show ?thesis using m u c(2)
    by (subst (1) duration_loop.simps) (simp add: micro_s_def)
qed

definition unit_suffixes :: "(bytes \<times> i64) list" where
  "unit_suffixes = [(ascii ''w'', NSECS_PER_WEEK), (ascii ''d'', NSECS_PER_DAY), (ascii ''h'', NSECS_PER_HOUR),
     (ascii ''m'', NSECS_PER_MINUTE), (ascii ''s'', NSECS_PER_SECOND), (ascii ''ms'', NSECS_PER_MILLISECOND),
     (micro_s, NSECS_PER_MICROSECOND), (ascii ''ns'', 1)]"

lemma scale_exact:
  assumes "f64_exact f64" "k * unat u < 2 ^ 53" "acc + k * unat u < 2 ^ 63" "k < 2 ^ 53"
  shows "add_int64_no_overflow f64 (of_nat acc) (scale_f64 f64 (f_of_u64 f64 (of_nat k)) (Some u)) = of_nat (acc + k * unat u)"
    and "u = 1 \<Longrightarrow> add_int64_no_overflow f64 (of_nat acc) (scale_f64 f64 (f_of_u64 f64 (of_nat k)) None) = of_nat (acc + k)"
proof -
  have k: "unat (of_nat k :: u64) = k" using assms(4) by (simp add: unat_of_nat take_bit_nat_eq_self)
  have "f_as_i64 f64 (f_mul f64 (f_of_u64 f64 (of_nat k)) (f_of_u64 f64 u)) = of_nat (k * unat u)"
    using assms(1,2) k unfolding f64_exact_def by simp
  then show "add_int64_no_overflow f64 (of_nat acc) (scale_f64 f64 (f_of_u64 f64 (of_nat k)) (Some u)) = of_nat (acc + k * unat u)"
    using add_exact [OF _ assms(3)] by (simp only: scale_f64_def option.case)
  show "add_int64_no_overflow f64 (of_nat acc) (scale_f64 f64 (f_of_u64 f64 (of_nat k)) None) = of_nat (acc + k)" if "u = 1"
    using assms(1,3,4) k that unfolding f64_exact_def 
    by (simp add: scale_f64_def add_exact flip: of_nat_add)
qed

lemma read_chunk:
  assumes f64: "f64_exact f64" and u: "(suffix, u) \<in> set unit_suffixes" and rest: "starts_number rest"
    and k: "k * unat u < 2 ^ 53" "acc + k * unat u < 2 ^ 63"
  shows "duration_loop f64 (of_nat acc) (chunk k suffix @ rest) = duration_loop f64 (of_nat (acc + k * unat u)) rest"
proof (cases "k = 0")
  case False
  have "u \<noteq> 0" using u by (auto simp: unit_suffixes_def NSECS_PER_WEEK_def NSECS_PER_DAY_def NSECS_PER_HOUR_def
      NSECS_PER_MINUTE_def NSECS_PER_SECOND_def NSECS_PER_MILLISECOND_def NSECS_PER_MICROSECOND_def)
  then have "k * 1 \<le> k * unat u" by (intro mult_le_mono2) (simp add: Suc_le_eq unat_gt_0)
  then have k53: "k < 2 ^ 53" using k(1) by (simp only: mult_1_right)
  then have k64: "k < 2 ^ 64" by simp
  note s = scale_exact [OF f64 k k53]
  consider (micro) "suffix = micro_s" "u = NSECS_PER_MICROSECOND"
    | (ms) "suffix = ascii ''ms''" "u = NSECS_PER_MILLISECOND"
    | (ns) "suffix = ascii ''ns''" "u = 1"
    | (one) c where "suffix = [c]"
        "(c, u) \<in> {(119, NSECS_PER_WEEK), (100, NSECS_PER_DAY), (104, NSECS_PER_HOUR), (109, NSECS_PER_MINUTE), (115, NSECS_PER_SECOND)}"
    using u by (auto simp: unit_suffixes_def ascii_def)
  then show ?thesis
  proof cases
    case micro
    then show ?thesis using False s(1) read_micro [OF k64, of f64 "of_nat acc" rest] by (simp add: chunk_def)
  next
    case ms
    then show ?thesis using False s(1) read_two [OF k64 rest, of "ascii ''ms''" "Some NSECS_PER_MILLISECOND" f64 "of_nat acc"]
      by (simp add: chunk_def)
  next
    case ns
    then show ?thesis using False s(2) read_two [OF k64 rest, of "ascii ''ns''" None f64 "of_nat acc"]
      by (simp add: chunk_def)
  next
    case one
    then show ?thesis using False s(1) read_one [OF k64 rest one(2), of f64 "of_nat acc"] by (simp add: chunk_def)
  qed
qed (simp add: chunk_def)

text \<open>Printing one unit cuts the rest to what is below the unit.\<close>

lemma duration_unit_chunk:
  assumes "N < 2 ^ 63" "0 < U" "U < 2 ^ 63" "\<And>dst. print dst (of_nat (N div U)) = dst @ fmt_nat (N div U)"
  shows "duration_unit (of_nat U) print suffix (dst, of_nat N) = (dst @ chunk (N div U) suffix, of_nat (N mod U))"
proof -
  have s: "sint (of_nat n :: i64) = int n" if "n < 2 ^ 63" for n
    using that by (simp add: signed_of_nat signed_take_bit_int_eq_self)
  have le: "of_nat U \<le>s (of_nat N :: i64) \<longleftrightarrow> U \<le> N" using assms s by (simp add: word_sle_eq)
  have k: "of_int (int N div int U) = (of_nat (N div U) :: i64)" by (simp flip: of_nat_div)
  have r: "of_nat N - of_nat (N div U) * of_nat U = (of_nat (N mod U) :: i64)"
  proof -
    have "(of_nat N :: i64) = of_nat (N div U * U + N mod U)" by simp
    also have "\<dots> = of_nat (N div U) * of_nat U + of_nat (N mod U)" by (simp only: of_nat_add of_nat_mult)
    finally show ?thesis by (simp only: add_diff_cancel_left')
  qed
  show ?thesis
  proof (cases "U \<le> N")
    case True
    then have "N div U \<noteq> 0" using assms(2) by (simp add: div_eq_0_iff)
    then show ?thesis using True assms s k r unfolding duration_unit_def
      by (simp add: le Let_def chunk_def)
  next
    case False
    then show ?thesis using le by (simp add: duration_unit_def chunk_def)
  qed
qed

lemma print_small:
  "marshal_uint64_string dst (of_nat n) = dst @ fmt_nat n" if "n < 2 ^ 64"
  using that by (simp add: marshal_uint64_string_def unat_of_nat take_bit_nat_eq_self)

lemma print_u8_small: "n < 256 \<Longrightarrow> print_u8 dst (of_nat n) = dst @ fmt_nat n"
  by (simp add: print_u8_def marshal_uint8_string_eq unsigned_ucast_eq unat_of_nat take_bit_nat_eq_self)

lemma print_u16_small: "n < 65536 \<Longrightarrow> print_u16 dst (of_nat n) = dst @ fmt_nat n"
  by (simp add: print_u16_def marshal_uint16_string_def marshal_uint64_string_def unsigned_ucast_eq
      unsigned_take_bit_eq unat_of_nat take_bit_nat_eq_self)

lemma unit_values:
  "NSECS_PER_WEEK = of_nat 604800000000000" "NSECS_PER_DAY = of_nat 86400000000000"
  "NSECS_PER_HOUR = of_nat 3600000000000" "NSECS_PER_MINUTE = of_nat 60000000000"
  "NSECS_PER_SECOND = of_nat 1000000000" "NSECS_PER_MILLISECOND = of_nat 1000000"
  "NSECS_PER_MICROSECOND = of_nat 1000"
  by (simp_all add: NSECS_PER_WEEK_def NSECS_PER_DAY_def NSECS_PER_HOUR_def NSECS_PER_MINUTE_def
      NSECS_PER_SECOND_def NSECS_PER_MILLISECOND_def NSECS_PER_MICROSECOND_def)

text \<open>The parts of a duration whose number of seconds is a multiple of 60.\<close>

definition duration_text :: "nat \<Rightarrow> bytes" where
  "duration_text N =
    chunk (N div 604800000000000) (ascii ''w'') @
    chunk (N mod 604800000000000 div 86400000000000) (ascii ''d'') @
    chunk (N mod 86400000000000 div 3600000000000) (ascii ''h'') @
    chunk (N mod 3600000000000 div 60000000000) (ascii ''m'') @
    chunk (N mod 60000000000 div 1000000) (ascii ''ms'') @
    chunk (N mod 1000000 div 1000) micro_s @
    chunk (N mod 1000) (ascii ''ns'')"

lemma mods:
  "N mod 604800000000000 mod 86400000000000 = N mod (86400000000000 :: nat)"
  "N mod 86400000000000 mod 3600000000000 = N mod (3600000000000 :: nat)"
  "N mod 3600000000000 mod 60000000000 = N mod (60000000000 :: nat)"
  "N mod 60000000000 mod 1000000 = N mod (1000000 :: nat)"
  "N mod 1000000 mod 1000 = N mod (1000 :: nat)"
  by (simp_all add: mod_mod_cancel)

lemma marshal_duration_positive:
  assumes N: "0 < N" "N < 2 ^ 63" and sec: "N mod 60000000000 < 1000000000"
  shows "marshal_duration_units f64 dst (of_nat N) = dst @ duration_text N"
proof -
  have w: "duration_unit NSECS_PER_WEEK marshal_uint64_string (ascii ''w'') (dst, of_nat N) =
      (dst @ chunk (N div 604800000000000) (ascii ''w''), of_nat (N mod 604800000000000))" for dst
    unfolding unit_values using N by (intro duration_unit_chunk print_small) auto
  have d: "duration_unit NSECS_PER_DAY print_u8 (ascii ''d'') (dst, of_nat (N mod 604800000000000)) =
      (dst @ chunk (N mod 604800000000000 div 86400000000000) (ascii ''d''), of_nat (N mod 86400000000000))" for dst
    using duration_unit_chunk [of "N mod 604800000000000" 86400000000000 print_u8 "ascii ''d''" dst]
      print_u8_small [of "N mod 604800000000000 div 86400000000000"] by (simp add: unit_values mods)
  have h: "duration_unit NSECS_PER_HOUR print_u8 (ascii ''h'') (dst, of_nat (N mod 86400000000000)) =
      (dst @ chunk (N mod 86400000000000 div 3600000000000) (ascii ''h''), of_nat (N mod 3600000000000))" for dst
    using duration_unit_chunk [of "N mod 86400000000000" 3600000000000 print_u8 "ascii ''h''" dst]
      print_u8_small [of "N mod 86400000000000 div 3600000000000"] by (simp add: unit_values mods)
  have m: "duration_unit NSECS_PER_MINUTE print_u8 (ascii ''m'') (dst, of_nat (N mod 3600000000000)) =
      (dst @ chunk (N mod 3600000000000 div 60000000000) (ascii ''m''), of_nat (N mod 60000000000))" for dst
    using duration_unit_chunk [of "N mod 3600000000000" 60000000000 print_u8 "ascii ''m''" dst]
      print_u8_small [of "N mod 3600000000000 div 60000000000"] by (simp add: unit_values mods)
  have sle: "\<not> NSECS_PER_SECOND \<le>s (of_nat (N mod 60000000000) :: i64)"
    using sec by (simp add: unit_values word_sle_eq signed_of_nat signed_take_bit_int_eq_self)
  have s: "duration_unit NSECS_PER_SECOND print_u8 (ascii ''s'') (dst, of_nat (N mod 60000000000)) =
      (dst, of_nat (N mod 60000000000))" for dst
    using sle by (simp add: duration_unit_def)
  have ms: "duration_unit NSECS_PER_MILLISECOND print_u16 (ascii ''ms'') (dst, of_nat (N mod 60000000000)) =
      (dst @ chunk (N mod 60000000000 div 1000000) (ascii ''ms''), of_nat (N mod 1000000))" for dst
    using duration_unit_chunk [of "N mod 60000000000" 1000000 print_u16 "ascii ''ms''" dst] sec
      print_u16_small [of "N mod 60000000000 div 1000000"] by (simp add: unit_values mods)
  have us: "duration_unit NSECS_PER_MICROSECOND print_u16 micro_s (dst, of_nat (N mod 1000000)) =
      (dst @ chunk (N mod 1000000 div 1000) micro_s, of_nat (N mod 1000))" for dst
    using duration_unit_chunk [of "N mod 1000000" 1000 print_u16 "micro_s" dst]
      print_u16_small [of "N mod 1000000 div 1000"] by (simp add: unit_values mods)
  have ns: "(if 0 <s (of_nat (N mod 1000) :: i64) then print_u16 dst (of_nat (N mod 1000)) @ ascii ''ns'' else dst) =
      dst @ chunk (N mod 1000) (ascii ''ns'')" for dst
    using print_u16_small [of "N mod 1000" dst]
    by (simp add: chunk_def word_sless_alt signed_of_nat signed_take_bit_int_eq_self)
  show ?thesis
    unfolding marshal_duration_units_def w d h m Let_def prod.case by (simp add: sle s ms us ns duration_text_def)
qed

lemma starts_number_duration:
  "starts_number (chunk a1 (ascii ''ns''))"
  "starts_number rest \<Longrightarrow> (suffix, u) \<in> set unit_suffixes \<Longrightarrow> starts_number (chunk k suffix @ rest)"
proof -
  show "starts_number (chunk a1 (ascii ''ns''))"
    using starts_number_chunk [of "[]" "ascii ''ns''" a1] by (simp add: starts_number_def ascii_def cont_byte_def)
  assume "starts_number rest" "(suffix, u) \<in> set unit_suffixes"
  then show "starts_number (chunk k suffix @ rest)"
    by (intro starts_number_chunk) (auto simp: unit_suffixes_def ascii_def micro_s_def cont_byte_def)
qed

lemma unit_suffix_list:
  "(ascii ''w'', of_nat 604800000000000) \<in> set unit_suffixes" "(ascii ''d'', of_nat 86400000000000) \<in> set unit_suffixes"
  "(ascii ''h'', of_nat 3600000000000) \<in> set unit_suffixes" "(ascii ''m'', of_nat 60000000000) \<in> set unit_suffixes"
  "(ascii ''ms'', of_nat 1000000) \<in> set unit_suffixes" "(micro_s, of_nat 1000) \<in> set unit_suffixes"
  "(ascii ''ns'', of_nat 1) \<in> set unit_suffixes"
  by (simp_all add: unit_suffixes_def unit_values)

lemma read_chunk_nat:
  assumes "f64_exact f64" "(suffix, of_nat U) \<in> set unit_suffixes" "U < 2 ^ 53" "starts_number rest"
    "acc + k * U < 2 ^ 53"
  shows "duration_loop f64 (of_nat acc) (chunk k suffix @ rest) = duration_loop f64 (of_nat (acc + k * U)) rest"
proof -
  have "unat (of_nat U :: u64) = U" using assms(3) by (simp add: unat_of_nat take_bit_nat_eq_self)
  then show ?thesis using read_chunk [OF assms(1,2,4), of k acc] assms(5) by simp
qed

lemma duration_sum:
  "N = N div 604800000000000 * 604800000000000 + N mod 604800000000000 div 86400000000000 * 86400000000000 +
     N mod 86400000000000 div 3600000000000 * 3600000000000 + N mod 3600000000000 div 60000000000 * 60000000000 +
     N mod 60000000000 div 1000000 * 1000000 + N mod 1000000 div 1000 * 1000 + N mod (1000 :: nat)"
proof -
  have "N = N div 604800000000000 * 604800000000000 + N mod 604800000000000" by simp
  moreover have "N mod 604800000000000 = N mod 604800000000000 div 86400000000000 * 86400000000000 + N mod 86400000000000"
    using div_mult_mod_eq [of "N mod 604800000000000" 86400000000000] by (simp add: mods)
  moreover have "N mod 86400000000000 = N mod 86400000000000 div 3600000000000 * 3600000000000 + N mod 3600000000000"
    using div_mult_mod_eq [of "N mod 86400000000000" 3600000000000] by (simp add: mods)
  moreover have "N mod 3600000000000 = N mod 3600000000000 div 60000000000 * 60000000000 + N mod 60000000000"
    using div_mult_mod_eq [of "N mod 3600000000000" 60000000000] by (simp add: mods)
  moreover have "N mod 60000000000 = N mod 60000000000 div 1000000 * 1000000 + N mod 1000000"
    using div_mult_mod_eq [of "N mod 60000000000" 1000000] by (simp add: mods)
  moreover have "N mod 1000000 = N mod 1000000 div 1000 * 1000 + N mod 1000"
    using div_mult_mod_eq [of "N mod 1000000" 1000] by (simp add: mods)
  ultimately show ?thesis by linarith
qed

lemma duration_text_parse:
  assumes f64: "f64_exact f64" and N: "N < 2 ^ 53"
  shows "duration_loop f64 0 (duration_text N) = Ok (Some (of_nat N))"
proof -
  define w d h m ms us ns where "w = N div 604800000000000" and "d = N mod 604800000000000 div 86400000000000"
    and "h = N mod 86400000000000 div 3600000000000" and "m = N mod 3600000000000 div 60000000000"
    and "ms = N mod 60000000000 div 1000000" and "us = N mod 1000000 div 1000" and "ns = N mod 1000"
  have sum: "N = w * 604800000000000 + d * 86400000000000 + h * 3600000000000 + m * 60000000000 + ms * 1000000 + us * 1000 + ns"
    unfolding w_def d_def h_def m_def ms_def us_def ns_def by (rule duration_sum)
  note c = read_chunk_nat [OF f64]
  have t: "duration_text N = chunk w (ascii ''w'') @ chunk d (ascii ''d'') @ chunk h (ascii ''h'') @ chunk m (ascii ''m'') @
      chunk ms (ascii ''ms'') @ chunk us micro_s @ chunk ns (ascii ''ns'') @ []"
    by (simp add: duration_text_def w_def d_def h_def m_def ms_def us_def ns_def)
  have e: "starts_number []" by (simp add: starts_number_def)
  note st = starts_number_duration(2) [OF _ unit_suffix_list(1)] starts_number_duration(2) [OF _ unit_suffix_list(2)]
    starts_number_duration(2) [OF _ unit_suffix_list(3)] starts_number_duration(2) [OF _ unit_suffix_list(4)]
    starts_number_duration(2) [OF _ unit_suffix_list(5)] starts_number_duration(2) [OF _ unit_suffix_list(6)]
    starts_number_duration(2) [OF _ unit_suffix_list(7)] e
  have "duration_loop f64 (of_nat 0) (duration_text N) =
      duration_loop f64 (of_nat (0 + w * 604800000000000 + d * 86400000000000 + h * 3600000000000 + m * 60000000000 +
        ms * 1000000 + us * 1000 + ns * 1)) []"
    unfolding t
    by (subst c [OF unit_suffix_list(1)], simp, (intro st)+, use sum N in linarith)
       (subst c [OF unit_suffix_list(2)], simp, (intro st)+, use sum N in linarith,
        subst c [OF unit_suffix_list(3)], simp, (intro st)+, use sum N in linarith,
        subst c [OF unit_suffix_list(4)], simp, (intro st)+, use sum N in linarith,
        subst c [OF unit_suffix_list(5)], simp, (intro st)+, use sum N in linarith,
        subst c [OF unit_suffix_list(6)], simp, (intro st)+, use sum N in linarith,
        subst c [OF unit_suffix_list(7)], simp, (intro st)+, use sum N in linarith, rule refl)
  also have "\<dots> = Ok (Some (of_nat N))" using sum by (subst duration_loop.simps) simp
  finally show ?thesis by simp
qed

lemma marshal_duration_sign:
  assumes n: "n \<noteq> 0" "n \<noteq> i64_MIN" and sec: "nat \<bar>sint n\<bar> mod 60000000000 < 1000000000"
  shows "marshal_duration_string f64 [] n = (if n <s 0 then [45] else []) @ duration_text (nat \<bar>sint n\<bar>)"
    and "of_nat (nat \<bar>sint n\<bar>) = (if n <s 0 then - n else n)"
proof -
  define N where "N = nat \<bar>sint n\<bar>"
  have s0: "sint n \<noteq> 0" using n(1) by (metis signed_0 signed_word_eqI)
  have smin: "sint n \<noteq> - (2 ^ 63)" using n(2) sint_MIN_MAX(1) by (metis signed_word_eqI)
  have N: "0 < N" "N < 2 ^ 63" using s0 smin sint_i64_bounds [of n] unfolding N_def by auto
  show e: "of_nat (nat \<bar>sint n\<bar>) = (if n <s 0 then - n else n)"
  proof (cases "sint n < 0")
    case True
    then have "of_nat (nat \<bar>sint n\<bar>) = (of_int (- sint n) :: i64)" by simp
    then show ?thesis using True by (simp add: word_sless_alt)
  next
    case False
    then have "of_nat (nat \<bar>sint n\<bar>) = (of_int (sint n) :: i64)" by simp
    then show ?thesis using False by (simp add: word_sless_alt)
  qed
  have p: "marshal_duration_units f64 dst (of_nat N) = dst @ duration_text N" for dst
    by (rule marshal_duration_positive [OF N sec [folded N_def]])
  have "(if n <s 0 then - n else n) = of_nat N" using e by (simp add: N_def)
  then show "marshal_duration_string f64 [] n = (if n <s 0 then [45] else []) @ duration_text (nat \<bar>sint n\<bar>)"
    using n(1) p unfolding marshal_duration_string_def N_def [symmetric] by (auto simp: ascii_def)
qed

lemma duration_text_head: "0 < N \<Longrightarrow> duration_text N \<noteq> [] \<and> duration_text N ! 0 \<noteq> 45"
proof -
  assume "0 < N"
  have ch: "chunk k s = [] \<longleftrightarrow> k = 0" for k s by (simp add: chunk_def)
  have "duration_text N \<noteq> []"
  proof
    assume "duration_text N = []"
    then have z: "N div 604800000000000 = 0" "N mod 604800000000000 div 86400000000000 = 0"
      "N mod 86400000000000 div 3600000000000 = 0" "N mod 3600000000000 div 60000000000 = 0"
      "N mod 60000000000 div 1000000 = 0" "N mod 1000000 div 1000 = 0" "N mod 1000 = 0"
      unfolding duration_text_def append_is_Nil_conv ch by blast+
    have "N = 0" using duration_sum [of N] unfolding z by (simp only: mult_zero_left add_0)
    with \<open>0 < N\<close> show False by simp
  qed
  moreover have "starts_number (duration_text N)"
    unfolding duration_text_def
    by (intro starts_number_duration(1) starts_number_duration(2) [OF _ unit_suffix_list(1)]
        starts_number_duration(2) [OF _ unit_suffix_list(2)] starts_number_duration(2) [OF _ unit_suffix_list(3)]
        starts_number_duration(2) [OF _ unit_suffix_list(4)] starts_number_duration(2) [OF _ unit_suffix_list(5)]
        starts_number_duration(2) [OF _ unit_suffix_list(6)])
  ultimately show ?thesis by (auto simp: starts_number_def is_digit_def)
qed

subsection \<open>Properties\<close>

text \<open>C28: A printed duration parses back to the same number of nanoseconds, for every non-zero duration
  below \<open>2 ^ 53\<close> nanoseconds (104 days) of either sign that has no seconds between whole minutes and
  the fraction of a second. Integers and their products below \<open>2 ^ 53\<close> are assumed to be exact in
  floating point.
\<close>

theorem duration_roundtrip:
  assumes "f64_exact f64" "n \<noteq> 0" "\<bar>sint n\<bar> < 2 ^ 53" "\<bar>sint n\<bar> mod 60000000000 < 1000000000"
  shows "try_parse_duration f64 (marshal_duration_string f64 [] n) = Ok (Some n)"
proof -
  define N where "N = nat \<bar>sint n\<bar>"
  have "sint n \<noteq> 0" using assms(2) by (metis signed_0 signed_word_eqI)
  moreover have "int (N mod 60000000000) = \<bar>sint n\<bar> mod 60000000000" by (simp add: N_def zmod_int)
  ultimately have N: "0 < N" "N < 2 ^ 53" "N mod 60000000000 < 1000000000"
    using assms(3,4) by (auto simp: N_def nat_less_iff)
  have "n \<noteq> i64_MIN" using assms(3) sint_MIN_MAX(1) by auto
  note m = marshal_duration_sign [OF assms(2) this N(3) [unfolded N_def]]
  show ?thesis
    using duration_text_parse [OF assms(1) N(2)] duration_text_head [OF N(1)] m(1) [of f64] m(2)
    unfolding N_def [symmetric] try_parse_duration_def by (auto simp: Let_def)
qed

lemma demo_exact: "f64_exact demo_f64"
  by (simp add: f64_exact_def demo_f64_def)

theorem duration_roundtrip_witness:
  "marshal_duration_string demo_f64 [] (- 3600005000000) = ascii ''-1h5ms'' \<and>
   try_parse_duration demo_f64 (ascii ''-1h5ms'') = Ok (Some (- 3600005000000))"
proof -
  have m: "marshal_duration_string demo_f64 [] (- 3600005000000) = ascii ''-1h5ms''" by code_simp
  have "sint (- 3600005000000 :: i64) = - 3600005000000" by simp
  then have "try_parse_duration demo_f64 (marshal_duration_string demo_f64 [] (- 3600005000000)) = Ok (Some (- 3600005000000))"
    by (intro duration_roundtrip demo_exact) simp_all
  with m show ?thesis by simp
qed

text \<open>Behind a number, a character of three bytes makes the code slice the string inside the character.\<close>

lemma units_of_wide_char:
  assumes "128 \<le> (c1 :: u8)" "cont_byte c3"
  shows "match_unit byte_units3 3 (c1 # c2 # c3 # rest) \<noteq> Ok (Some u)" "match_unit byte_units3 3 (c1 # c2 # c3 # rest) \<noteq> Err e"
    "match_unit byte_units2 2 (c1 # c2 # c3 # rest) = Panic" "match_unit duration_units2 2 (c1 # c2 # c3 # rest) = Panic"
    "take 3 (c1 # c2 # c3 # rest) \<noteq> micro_s"
  using assms by (auto simp: match_unit_def str_prefix_def byte_units3_def ascii_def micro_s_def cont_byte_def obind_def split: if_splits)

lemma wide_char_panics:
  assumes "num \<noteq> []" "list_all float_char num" "try_parse_float64 f64 num = Some f" "128 \<le> c1" "cont_byte c3"
  shows "bytes_loop f64 n (num @ c1 # c2 # c3 # rest) = Panic" "duration_loop f64 n (num @ c1 # c2 # c3 # rest) = Panic"
proof -
  have c: "\<not> float_char c1" using assms(4) by (auto simp: float_char_def is_digit_def word_le_nat_alt)
  have tw: "takeWhile float_char (num @ c1 # c2 # c3 # rest) = num" using assms(2) c by (auto simp: takeWhile_append2 list_all_iff)
  have p: "try_parse_float64_prefix f64 (num @ c1 # c2 # c3 # rest) = Some (f, c1 # c2 # c3 # rest)"
    unfolding try_parse_float64_prefix_def tw using assms(1,3) by (simp add: Let_def)
  note u = units_of_wide_char [OF assms(4,5), of c2 rest]
  show "bytes_loop f64 n (num @ c1 # c2 # c3 # rest) = Panic"
    using u(1,2,3) by (subst bytes_loop.simps) (auto simp: p split: outcome.splits option.splits)
  show "duration_loop f64 n (num @ c1 # c2 # c3 # rest) = Panic"
    using u(4,5) by (subst duration_loop.simps) (auto simp: p)
qed

text \<open>C37: Parsing a byte size or a duration never panics on ASCII input. It does panic on every number, with or
  without a minus sign, that the float parser accepts and that is followed by a character of three or four bytes,
  such as a euro sign, whatever comes behind it: the code slices the string at the second byte behind the number.\<close>

theorem unit_parsers_panic:
  assumes "\<forall>b \<in> set s. b < 128"
    and "num \<noteq> []" "list_all float_char num" "try_parse_float64 f64 num = Some f" "224 \<le> c1" "cont_byte c2" "cont_byte c3" "sign \<in> {[], ascii ''-''}"
  shows "try_parse_bytes f64 s \<noteq> Panic \<and> try_parse_duration f64 s \<noteq> Panic \<and>
    try_parse_bytes f64 (sign @ num @ [c1, c2, c3] @ rest) = Panic \<and> try_parse_duration f64 (sign @ num @ [c1, c2, c3] @ rest) = Panic"
proof -
  have d: "\<forall>b \<in> set (if P then drop 1 s else s). b < 128" for P using assms(1) by (auto dest: in_set_dropD)
  have "try_parse_bytes f64 s \<noteq> Panic" using bytes_loop_ascii [OF d [of "s ! 0 = 45"], of f64 0]
    by (auto simp: try_parse_bytes_def Let_def)
  moreover have "try_parse_duration f64 s \<noteq> Panic" using duration_loop_ascii [OF d [of "s ! 0 = 45"], of f64 0]
    by (auto simp: try_parse_duration_def Let_def)
  moreover have "128 \<le> c1" using assms(5) by (simp add: word_le_nat_alt)
  note w = wide_char_panics [OF assms(2,3,4) this assms(7), of 0 c2 rest]
  have "num ! 0 \<noteq> 45" using assms(2,3) by (cases num) (auto simp: float_char_def is_digit_def)
  then have "(num @ c1 # c2 # c3 # rest) ! 0 \<noteq> 45" using assms(2) by (simp add: nth_append)
  then have "try_parse_bytes f64 (sign @ num @ [c1, c2, c3] @ rest) = Panic" "try_parse_duration f64 (sign @ num @ [c1, c2, c3] @ rest) = Panic"
    using assms(8) w by (auto simp: try_parse_bytes_def try_parse_duration_def ascii_def)
  ultimately show ?thesis by simp
qed

theorem unit_parsers_panic_witness:
  "try_parse_bytes demo_f64 (ascii ''10KiB'') \<noteq> Panic \<and> try_parse_duration demo_f64 (ascii ''-25'' @ [0xE2, 0x82, 0xAC, 0x21]) = Panic"
proof -
  have "try_parse_float64 demo_f64 (ascii ''25'') \<noteq> None" by code_simp
  then obtain f where f: "try_parse_float64 demo_f64 (ascii ''25'') = Some f" by blast
  have "ascii ''25'' \<noteq> []" "list_all float_char (ascii ''25'')" "224 \<le> (0xE2 :: u8)" "cont_byte 0x82" "cont_byte 0xAC" by code_simp+
  moreover have "\<forall>b \<in> set (ascii ''10KiB''). b < 128" by code_simp
  ultimately show ?thesis
    using unit_parsers_panic [of "ascii ''10KiB''" "ascii ''25''" demo_f64 f "0xE2" "0x82" "0xAC" "ascii ''-''" "[0x21]"] f by (simp add: ascii_def)
qed

text \<open>The smallest \<open>i64\<close> is printed as a lone minus sign, which parses as zero, and zero is printed as
  a lone digit, which does not parse as a duration at all.
\<close>

lemma duration_edge_cases:
  "marshal_duration_string f64 [] i64_MIN = ascii ''-'' \<and> try_parse_duration f64 (ascii ''-'') = Ok (Some 0) \<and>
   marshal_duration_string f64 [] 0 = ascii ''0'' \<and> try_parse_duration f64 (ascii ''0'') = Ok None"
  by code_simp

end
