(* ===== verification/Blocks.thy ===== *)
theory Blocks
  imports Time_Format "HOL-Library.Multiset" "HOL-Library.List_Lexorder"
begin

text \<open>
  Rows and blocks in memory: \<^verbatim>\<open>rows.rs\<close>, \<^verbatim>\<open>block.rs\<close> and the size estimates of \<^verbatim>\<open>log_rows.rs\<close>. Rows (lists
  of named values) are turned into columns when a block is built and back into rows when it is read;
  rows of two blocks are merged by timestamp and rows are dropped by a filter. The lemmas show that
  building a block keeps the value of every field of every row, that merging keeps all rows in order
  and that dropping keeps exactly the other rows.

  A missing field and a field with an empty value are the same in the data model. Rows are compared
  by \<open>get_field_value_by_name\<close>.
\<close>

unbundle bit_operations_syntax

subsection \<open>Definitions: fields and rows\<close>

datatype Field = Field (field_name: bytes) (field_value: bytes)

definition field_less :: "Field \<Rightarrow> Field \<Rightarrow> bool" where
  "field_less f other =
    (if field_name f \<noteq> field_name other then bytes_less (field_name f) (field_name other)
     else bytes_less (field_value f) (field_value other))"

definition field_marshal :: "bytes \<Rightarrow> Field \<Rightarrow> bool \<Rightarrow> bytes" where
  "field_marshal dst f marshal_field_name =
    (let dst = (if marshal_field_name then marshal_bytes dst (field_name f) else dst)
     in marshal_bytes dst (field_value f))"

datatype field_error = FieldName | FieldValue

text \<open>The field passed in keeps its name when no name is stored.\<close>

definition field_unmarshal_inplace :: "Field \<Rightarrow> bytes \<Rightarrow> bool \<Rightarrow> (Field \<times> bytes, field_error) outcome" where
  "field_unmarshal_inplace f src unmarshal_field_name =
    obind (if unmarshal_field_name then
             (let (name, n_size) = unmarshal_bytes src in
              if n_size \<le> 0 then Err FieldName
              else Ok (case name of Some n \<Rightarrow> n | None \<Rightarrow> [], drop (nat n_size) src))
           else Ok (field_name f, src)) (\<lambda>(name, src).
    let (val, n_size) = unmarshal_bytes src in
    if n_size \<le> 0 then Err FieldValue
    else Ok (Field name (case val of Some v \<Rightarrow> v | None \<Rightarrow> []), drop (nat n_size) src))"

primrec get_field_value_by_name :: "Field list \<Rightarrow> bytes \<Rightarrow> bytes" where
  "get_field_value_by_name [] name = []"
| "get_field_value_by_name (f # fs) name =
    (if field_name f = name then field_value f else get_field_value_by_name fs name)"

text \<open>\<open>rename_field\<close>: for each old name in turn, the first non-empty field of that name is renamed.\<close>

primrec rename_first :: "bytes \<Rightarrow> bytes \<Rightarrow> Field list \<Rightarrow> Field list option" where
  "rename_first n new_name [] = None"
| "rename_first n new_name (f # fs) =
    (if field_name f = n \<and> field_value f \<noteq> [] then Some (Field new_name (field_value f) # fs)
     else map_option (Cons f) (rename_first n new_name fs))"

primrec rename_field :: "Field list \<Rightarrow> bytes list \<Rightarrow> bytes \<Rightarrow> Field list" where
  "rename_field fields [] new_name = fields"
| "rename_field fields (n # ns) new_name =
    (case rename_first n new_name fields of Some fs \<Rightarrow> fs | None \<Rightarrow> rename_field fields ns new_name)"

definition skip_leading_fields_without_values :: "Field list \<Rightarrow> Field list" where
  "skip_leading_fields_without_values fields = dropWhile (\<lambda>f. field_value f = []) fields"

type_synonym row = "Field list"

record Rows =
  rs_timestamps :: "i64 list"
  rs_rows :: "row list"

definition rows_reset :: "Rows \<Rightarrow> Rows" where
  "rows_reset rs = rs\<lparr>rs_timestamps := [], rs_rows := []\<rparr>"

definition has_non_empty_rows :: "Rows \<Rightarrow> bool" where
  "has_non_empty_rows rs = list_ex (\<lambda>flds. flds \<noteq> []) (rs_rows rs)"

definition append_rows :: "i64 list \<Rightarrow> row list \<Rightarrow> Rows \<Rightarrow> Rows" where
  "append_rows ts rows rs = rs\<lparr>rs_timestamps := rs_timestamps rs @ ts, rs_rows := rs_rows rs @ rows\<rparr>"

text \<open>
  The loop of \<open>merge_rows\<close>: the rows of the first input that are not newer than the head of the
  second are appended, then the inputs change places.
\<close>

function merge_rows :: "i64 list \<Rightarrow> i64 list \<Rightarrow> row list \<Rightarrow> row list \<Rightarrow> Rows \<Rightarrow> Rows" where
  "merge_rows ta tb fa fb rs =
    (if ta \<noteq> [] \<and> tb \<noteq> [] then
       (let i = length (takeWhile (\<lambda>t. t \<le>s tb ! 0) ta)
        in merge_rows tb (drop i ta) fb (drop i fa) (append_rows (take i ta) (take i fa) rs))
     else if ta = [] then append_rows tb fb rs
     else append_rows ta fa rs)"
  by pat_completeness auto
termination
proof (relation "measure (\<lambda>(ta, tb, _). 2 * (length ta + length tb) + (if ta \<noteq> [] \<and> tb \<noteq> [] \<and> \<not> ta ! 0 \<le>s tb ! 0 then 1 else 0))", simp)
  fix ta tb :: "i64 list" and fa fb :: "row list" and rs :: Rows and i
  assume c: "ta \<noteq> [] \<and> tb \<noteq> []" and i: "i = length (takeWhile (\<lambda>t. t \<le>s tb ! 0) ta)"
  obtain a ta' where a: "ta = a # ta'" using c by (cases ta) auto
  show "((tb, drop i ta, fb, drop i fa, append_rows (take i ta) (take i fa) rs), ta, tb, fa, fb, rs) \<in>
    measure (\<lambda>(ta, tb, _). 2 * (length ta + length tb) + (if ta \<noteq> [] \<and> tb \<noteq> [] \<and> \<not> ta ! 0 \<le>s tb ! 0 then 1 else 0))"
  proof (cases "a \<le>s tb ! 0")
    case True
    then have "0 < i" "i \<le> length ta" using a i length_takeWhile_le [of _ ta'] by auto
    then show ?thesis by auto
  next
    case False
    then have "tb ! 0 \<le>s a" by (simp add: word_sle_eq)
    moreover have "i = 0" using False a i by simp
    ultimately show ?thesis using False a c by auto
  qed
qed

declare merge_rows.simps [simp del]

definition get_canonical_column_name_bytes :: "bytes \<Rightarrow> bytes" where
  "get_canonical_column_name_bytes name = (if name = [] then ascii ''_msg'' else name)"

text \<open>The names a drop filter reads (a \<open>prefix_filter::Filter\<close>) are given by the predicate \<open>pf\<close>.\<close>

definition add_field_if_needed :: "(bytes \<Rightarrow> bool) \<Rightarrow> bytes \<Rightarrow> bytes \<Rightarrow> Field list \<Rightarrow> Field list" where
  "add_field_if_needed pf name val dst =
    (let name = get_canonical_column_name_bytes name in if pf name then dst @ [Field name val] else dst)"

text \<open>
  \<open>skip_rows_by_drop_filter\<close>. The filter is given by its time range and its \<open>match_row\<close>. The loop compacts the vectors in place: \<open>w\<close> is the
  write position, \<open>i\<close> counts from \<open>offset\<close>.
\<close>

record drop_filter =
  df_min :: i64
  df_max :: i64
  df_match :: "Field list \<Rightarrow> bool"
  df_fields :: "bytes \<Rightarrow> bool"

definition row_fields_for_filter ::
  "drop_filter \<Rightarrow> bytes \<Rightarrow> bytes \<Rightarrow> i64 \<Rightarrow> row \<Rightarrow> Field list" where
  "row_fields_for_filter df stream stream_id t r =
    (let fs = add_field_if_needed (df_fields df) (ascii ''_stream'') stream [];
         fs = add_field_if_needed (df_fields df) (ascii ''_stream_id'') stream_id fs;
         fs = (if df_fields df (ascii ''_time'') then fs @ [Field (ascii ''_time'') (marshal_timestamp_rfc3339_nano_string [] t)] else fs)
     in fold (\<lambda>f. add_field_if_needed (df_fields df) (field_name f) (field_value f)) r fs)"

definition swap_rows :: "nat \<Rightarrow> nat \<Rightarrow> 'a list \<Rightarrow> 'a list" where
  "swap_rows i j xs = xs[i := xs ! j, j := xs ! i]"

function drop_loop ::
  "(i64 \<Rightarrow> row \<Rightarrow> bool) \<Rightarrow> nat \<Rightarrow> nat \<Rightarrow> nat \<Rightarrow> Rows \<Rightarrow> nat \<times> Rows" where
  "drop_loop dropped offset i w rs =
    (if i < length (rs_timestamps rs) - offset then
       (let t = rs_timestamps rs ! (offset + i); r = rs_rows rs ! (offset + i) in
        if \<not> dropped t r then
          drop_loop dropped offset (i + 1) (w + 1)
            (rs\<lparr>rs_timestamps := (rs_timestamps rs)[w := t], rs_rows := swap_rows w (offset + i) (rs_rows rs)\<rparr>)
        else if i = 0 then
          drop_loop dropped offset (i + 1) (w + 1)
            (rs\<lparr>rs_timestamps := (rs_timestamps rs)[w := t], rs_rows := (rs_rows rs)[w := []]\<rparr>)
        else drop_loop dropped offset (i + 1) w rs)
     else (w, rs))"
  by pat_completeness auto
termination
  by (relation "measure (\<lambda>(_, offset, i, _, rs). length (rs_timestamps rs) - offset - i)") auto

declare drop_loop.simps [simp del]

definition skip_rows_by_drop_filter ::
  "drop_filter \<Rightarrow> nat \<Rightarrow> bytes \<Rightarrow> bytes \<Rightarrow> Rows \<Rightarrow> Rows" where
  "skip_rows_by_drop_filter df offset stream stream_id rs =
    (let dropped = (\<lambda>t r. \<not> (t <s df_min df \<or> df_max df <s t) \<and>
                         df_match df (row_fields_for_filter df stream stream_id t r));
         (w, rs) = drop_loop dropped offset 0 offset rs
     in rs\<lparr>rs_timestamps := take w (rs_timestamps rs), rs_rows := take w (rs_rows rs)\<rparr>)"

definition sort_fields_by_name :: "Field list \<Rightarrow> Field list" where
  "sort_fields_by_name flds = sort_key field_name flds"

subsection \<open>Definitions: blocks\<close>

record Column =
  col_name :: bytes
  col_values :: "bytes list"

record Block =
  b_timestamps :: "i64 list"
  b_columns :: "Column list"
  b_const_columns :: "Field list"

definition MAX_COLUMNS_PER_BLOCK :: nat where "MAX_COLUMNS_PER_BLOCK = 2000"
definition MAX_CONST_COLUMN_VALUE_SIZE :: nat where "MAX_CONST_COLUMN_VALUE_SIZE = 256"

definition block_reset :: "Block \<Rightarrow> Block" where
  "block_reset b = b\<lparr>b_timestamps := [], b_columns := [], b_const_columns := []\<rparr>"

definition column_default :: Column where
  "column_default = \<lparr>col_name = [], col_values = []\<rparr>"

definition column_can_store_in_const :: "Column \<Rightarrow> bool" where
  "column_can_store_in_const c =
    (case col_values c of
       [] \<Rightarrow> True
     | v # vs \<Rightarrow> \<not> length v > MAX_CONST_COLUMN_VALUE_SIZE \<and> list_all (\<lambda>u. v = u) vs)"

definition can_store_in_const_column :: "row list \<Rightarrow> nat \<Rightarrow> bool" where
  "can_store_in_const_column rows col_idx =
    (case rows of
       [] \<Rightarrow> True
     | r # rs \<Rightarrow>
         let v = field_value (r ! col_idx) in
         \<not> length v > MAX_CONST_COLUMN_VALUE_SIZE \<and> list_all (\<lambda>row. v = field_value (row ! col_idx)) rs)"

fun timestamps_sorted :: "i64 list \<Rightarrow> bool" where
  "timestamps_sorted (a # b # ts) \<longleftrightarrow> \<not> b <s a \<and> timestamps_sorted (b # ts)"
| "timestamps_sorted ts \<longleftrightarrow> True"

definition assert_timestamps_sorted :: "i64 list \<Rightarrow> (unit, unit) outcome" where
  "assert_timestamps_sorted ts = (if timestamps_sorted ts then Ok () else Panic)"

definition are_same_fields_in_rows :: "row list \<Rightarrow> bool" where
  "are_same_fields_in_rows rows =
    (case rows of
       [] \<Rightarrow> True
     | [_] \<Rightarrow> True
     | flds # rest \<Rightarrow>
         distinct (map field_name flds) \<and>
         list_all (\<lambda>le_fields. length flds = length le_fields \<and>
           list_all (\<lambda>j. field_name (le_fields ! j) = field_name (flds ! j)) [0..<length le_fields]) rest)"

text \<open>
  The fast path over the fields of the first row: a constant column goes to \<open>const_columns\<close>, any other
  one to \<open>columns\<close>.
\<close>

definition add_fast_column :: "row list \<Rightarrow> Field list \<Rightarrow> nat \<Rightarrow> Block \<Rightarrow> Block" where
  "add_fast_column rows flds i b =
    (if can_store_in_const_column rows i then
       b\<lparr>b_const_columns := b_const_columns b @ [flds ! i]\<rparr>
     else
       b\<lparr>b_columns := b_columns b @
          [\<lparr>col_name = field_name (flds ! i), col_values = map (\<lambda>row. field_value (row ! i)) rows\<rparr>]\<rparr>)"

text \<open>
  The map from column names to indexes, as the list of the names in the order of their indexes, and
  the number of rows whose names fit.
\<close>

definition add_names :: "row \<Rightarrow> bytes list \<Rightarrow> bytes list" where
  "add_names flds names = fold (\<lambda>f ns. if field_name f \<in> set ns then ns else ns @ [field_name f]) flds names"

primrec index_columns :: "bytes list \<Rightarrow> row list \<Rightarrow> bytes list \<times> nat" where
  "index_columns names [] = (names, 0)"
| "index_columns names (flds # rows) =
    (if length names + length flds > MAX_COLUMNS_PER_BLOCK then (names, 0)
     else case index_columns (add_names flds names) rows of (names, k) \<Rightarrow> (names, Suc k))"

primrec name_index :: "bytes list \<Rightarrow> bytes \<Rightarrow> nat" where
  "name_index [] n = 0"
| "name_index (m # ms) n = (if m = n then 0 else Suc (name_index ms n))"

definition write_field :: "bytes list \<Rightarrow> nat \<Rightarrow> Field \<Rightarrow> Column list \<Rightarrow> Column list" where
  "write_field names i f cs =
    (let idx = name_index names (field_name f); c = cs ! idx
     in cs[idx := c\<lparr>col_values := (col_values c)[i := field_value f]\<rparr>])"

primrec write_rows :: "bytes list \<Rightarrow> nat \<Rightarrow> row list \<Rightarrow> Column list \<Rightarrow> Column list" where
  "write_rows names i [] cs = cs"
| "write_rows names i (row # rows) cs = write_rows names (Suc i) rows (fold (write_field names i) row cs)"

text \<open>The loop that moves constant columns out, from the last column to the first.\<close>

primrec detect_const :: "nat \<Rightarrow> nat \<Rightarrow> Column list \<Rightarrow> Field list \<Rightarrow> nat \<times> Column list \<times> Field list" where
  "detect_const 0 cs_len cs ccs = (cs_len, cs, ccs)"
| "detect_const (Suc i) cs_len cs ccs =
    (let c = cs ! i in
     if \<not> column_can_store_in_const c then detect_const i cs_len cs ccs
     else
       let ccs = ccs @ [Field (col_name c) (col_values c ! 0)];
           cs = cs[i := column_default];
           cs = (if i < cs_len - 1 then swap_rows i (cs_len - 1) cs else cs)
       in detect_const i (cs_len - 1) cs ccs)"

definition must_init_from_rows_internal :: "i64 list \<Rightarrow> row list \<Rightarrow> Block \<Rightarrow> (Block, unit) outcome" where
  "must_init_from_rows_internal ts rows b =
    (if length ts \<noteq> length rows then Panic
     else if rows = [] then Ok b
     else if are_same_fields_in_rows rows then
       Ok (fold (add_fast_column rows (rows ! 0)) [0..<length (rows ! 0)] (b\<lparr>b_timestamps := b_timestamps b @ ts\<rparr>))
     else
       let (names, rows_processed) = index_columns [] rows;
           rows = take rows_processed rows;
           ts = take rows_processed ts
       in if rows = [] then Ok b
          else
            let b = b\<lparr>b_timestamps := b_timestamps b @ ts\<rparr>;
                cs = map (\<lambda>n. \<lparr>col_name = n, col_values = replicate (length rows) []\<rparr>) names;
                cs = write_rows names 0 rows cs;
                (cs_len, cs, ccs) = detect_const (length cs) (length cs) cs (b_const_columns b)
            in Ok (b\<lparr>b_columns := take cs_len cs, b_const_columns := ccs\<rparr>))"

text \<open>
  The columns are sorted by the unstable library sort, which orders columns of different names in one way
  (\<open>unstable_sort_unique\<close>); of two columns with the same name, which a row with a repeated name can give, the
  first stays first here.
\<close>

definition sort_columns_by_name :: "Block \<Rightarrow> (Block, unit) outcome" where
  "sort_columns_by_name b =
    (if length (b_columns b) + length (b_const_columns b) > MAX_COLUMNS_PER_BLOCK then Panic
     else Ok (b\<lparr>b_columns := sort_key col_name (b_columns b),
                b_const_columns := sort_key field_name (b_const_columns b)\<rparr>))"

definition must_init_from_rows :: "i64 list \<Rightarrow> row list \<Rightarrow> Block \<Rightarrow> (Block, unit) outcome" where
  "must_init_from_rows ts rows b =
    (let b = block_reset b in
     obind (assert_timestamps_sorted ts) (\<lambda>_.
     obind (must_init_from_rows_internal ts rows b) sort_columns_by_name))"

definition assert_valid :: "Block \<Rightarrow> (unit, unit) outcome" where
  "assert_valid b =
    (if timestamps_sorted (b_timestamps b) \<and>
        list_all (\<lambda>c. length (col_values c) = length (b_timestamps b)) (b_columns b) then Ok () else Panic)"

definition block_row :: "Block \<Rightarrow> nat \<Rightarrow> row" where
  "block_row b i =
    b_const_columns b @
    concat (map (\<lambda>c. let v = col_values c ! i in if v = [] then [] else [Field (col_name c) v]) (b_columns b))"

definition append_rows_to :: "Block \<Rightarrow> Rows \<Rightarrow> Rows" where
  "append_rows_to b dst =
    append_rows (b_timestamps b) (map (block_row b) [0..<length (b_timestamps b)]) dst"

definition TIME_RFC3339_NANO_LEN :: nat where
  "TIME_RFC3339_NANO_LEN = length ''2006-01-02T15:04:05.999999999Z07:00''"

definition estimated_json_field_len :: "bytes \<Rightarrow> bytes \<Rightarrow> nat" where
  "estimated_json_field_len name val = 6 + length name + length val"

definition estimated_json_row_len :: "row \<Rightarrow> nat" where
  "estimated_json_row_len flds =
    (3 + 10 + TIME_RFC3339_NANO_LEN) +
    sum_list (map (\<lambda>f. if field_value f = [] then 0
                        else estimated_json_field_len (get_canonical_column_name_bytes (field_name f)) (field_value f)) flds)"

definition uncompressed_rows_size_bytes :: "row list \<Rightarrow> nat" where
  "uncompressed_rows_size_bytes rows = sum_list (map estimated_json_row_len rows)"

definition uncompressed_size_bytes :: "Block \<Rightarrow> nat" where
  "uncompressed_size_bytes b =
    (let rows_count = length (b_timestamps b) in
     if rows_count = 0 then 0
     else
       (3 + 10 + TIME_RFC3339_NANO_LEN) * rows_count +
       sum_list (map (\<lambda>cc. estimated_json_field_len (get_canonical_column_name_bytes (field_name cc)) (field_value cc) * rows_count)
         (b_const_columns b)) +
       sum_list (map (\<lambda>c. sum_list (map (\<lambda>v. if v = [] then 0
             else estimated_json_field_len (get_canonical_column_name_bytes (col_name c)) v) (col_values c)))
         (b_columns b)))"

definition get_block :: "Block list \<Rightarrow> Block \<times> Block list" where
  "get_block pool =
    (if pool = [] then (\<lparr>b_timestamps = [], b_columns = [], b_const_columns = []\<rparr>, [])
     else (last pool, butlast pool))"

definition put_block :: "Block list \<Rightarrow> Block \<Rightarrow> Block list" where
  "put_block pool b = pool @ [block_reset b]"


subsection \<open>Merging rows\<close>

lemma unstable_sort_unique:
  assumes "mset cs' = mset cs" "sorted (map f cs')" "distinct (map f cs)"
  shows "cs' = sort_key f cs"
  using assms sort_key_inj_key_eq [of cs cs' f] by (simp add: distinct_map)

lemma timestamps_sorted_iff: "timestamps_sorted ts \<longleftrightarrow> sorted_wrt (\<le>s) ts"
proof (induction ts rule: timestamps_sorted.induct)
  case (1 a b ts)
  then show ?case by (auto simp: word_sle_eq word_sless_alt not_less intro: order_trans)
qed auto

definition rows_of :: "Rows \<Rightarrow> (i64 \<times> row) list" where
  "rows_of rs = zip (rs_timestamps rs) (rs_rows rs)"

definition rows_wf :: "Rows \<Rightarrow> bool" where
  "rows_wf rs \<longleftrightarrow> length (rs_timestamps rs) = length (rs_rows rs)"

lemma append_rows_wf: "rows_wf rs \<Longrightarrow> length ts = length rows \<Longrightarrow> rows_wf (append_rows ts rows rs)"
  by (simp add: rows_wf_def append_rows_def)

lemma append_rows_of: "rows_wf rs \<Longrightarrow> rows_of (append_rows ts rows rs) = rows_of rs @ zip ts rows"
  by (simp add: rows_wf_def rows_of_def append_rows_def)

lemma sle_trans: "(a :: i64) \<le>s b \<Longrightarrow> b \<le>s c \<Longrightarrow> a \<le>s c"
  by (simp add: word_sle_eq)

lemma sorted_head: "sorted_wrt (\<le>s) ts \<Longrightarrow> t \<in> set ts \<Longrightarrow> ts ! 0 \<le>s (t :: i64)"
  by (cases ts) (auto simp: word_sle_eq)

lemma merge_rows_spec:
  assumes "length ta = length fa" "length tb = length fb" "rows_wf rs"
    and "sorted_wrt (\<le>s) ta" "sorted_wrt (\<le>s) tb" "sorted_wrt (\<le>s) (rs_timestamps rs)"
    and "\<forall>t \<in> set (rs_timestamps rs). \<forall>u \<in> set ta \<union> set tb. t \<le>s u"
  shows "rows_wf (merge_rows ta tb fa fb rs) \<and> sorted_wrt (\<le>s) (rs_timestamps (merge_rows ta tb fa fb rs)) \<and>
    mset (rows_of (merge_rows ta tb fa fb rs)) = mset (rows_of rs) + mset (zip ta fa) + mset (zip tb fb)"
  using assms
proof (induction ta tb fa fb rs rule: merge_rows.induct)
  case (1 ta tb fa fb rs)
  show ?case
  proof (cases "ta \<noteq> [] \<and> tb \<noteq> []")
    case True
    define i where "i = length (takeWhile (\<lambda>t. t \<le>s tb ! 0) ta)"
    let ?rs = "append_rows (take i ta) (take i fa) rs"
    have t: "take i ta = takeWhile (\<lambda>t. t \<le>s tb ! 0) ta" unfolding i_def by (rule takeWhile_eq_take [symmetric])
    have le: "u \<le>s v" if "u \<in> set (take i ta)" "v \<in> set tb" for u v
    proof -
      have "u \<le>s tb ! 0" using that(1) unfolding t by (auto dest: set_takeWhileD)
      then show ?thesis using sorted_head [OF "1.prems"(5) that(2)] by (rule sle_trans)
    qed
    have le': "u \<le>s v" if "u \<in> set (take i ta)" "v \<in> set (drop i ta)" for u v
    proof -
      have "sorted_wrt (\<le>s) (take i ta @ drop i ta)" using "1.prems"(4) by (simp only: append_take_drop_id)
      then show ?thesis using that unfolding sorted_wrt_append by blast
    qed
    have s: "sorted_wrt (\<le>s) (take i ta)" "sorted_wrt (\<le>s) (drop i ta)"
      using "1.prems"(4) by (simp_all add: sorted_wrt_take sorted_wrt_drop)
    have pre: "rows_wf ?rs" "sorted_wrt (\<le>s) (rs_timestamps ?rs)"
      "\<forall>t \<in> set (rs_timestamps ?rs). \<forall>u \<in> set tb \<union> set (drop i ta). t \<le>s u"
    proof -
      show "rows_wf ?rs" using "1.prems"(1,3) by (simp add: append_rows_wf)
      show "sorted_wrt (\<le>s) (rs_timestamps ?rs)"
        using "1.prems"(6,7) s(1) by (auto simp: append_rows_def sorted_wrt_append dest: in_set_takeD)
      show "\<forall>t \<in> set (rs_timestamps ?rs). \<forall>u \<in> set tb \<union> set (drop i ta). t \<le>s u"
        using "1.prems"(7) le le' by (auto simp: append_rows_def dest: in_set_dropD)
    qed
    have m: "merge_rows ta tb fa fb rs = merge_rows tb (drop i ta) fb (drop i fa) ?rs"
      using True by (subst merge_rows.simps) (simp add: i_def Let_def)
    have z: "zip ta fa = zip (take i ta) (take i fa) @ zip (drop i ta) (drop i fa)"
      by (metis append_take_drop_id drop_zip take_zip)
    have "rows_wf (merge_rows tb (drop i ta) fb (drop i fa) ?rs) \<and>
      sorted_wrt (\<le>s) (rs_timestamps (merge_rows tb (drop i ta) fb (drop i fa) ?rs)) \<and>
      mset (rows_of (merge_rows tb (drop i ta) fb (drop i fa) ?rs)) = mset (rows_of ?rs) + mset (zip tb fb) + mset (zip (drop i ta) (drop i fa))"
      by (rule "1.IH" [OF True i_def]) (use "1.prems" s pre in auto)
    then show ?thesis unfolding m using "1.prems"(3) by (simp add: append_rows_of z)
  next
    case False
    then show ?thesis using "1.prems"
      by (subst (1 2 3) merge_rows.simps) (auto simp: rows_wf_def rows_of_def append_rows_def sorted_wrt_append)
  qed
qed

subsection \<open>Dropping rows\<close>

text \<open>What remains of the rows from the offset on: the rows that are not dropped; a first row that is
  dropped leaves its timestamp with an empty row.\<close>

definition kept_rows :: "(i64 \<Rightarrow> row \<Rightarrow> bool) \<Rightarrow> (i64 \<times> row) list \<Rightarrow> (i64 \<times> row) list" where
  "kept_rows dropped xs =
    (case xs of
       [] \<Rightarrow> []
     | (t, r) # xs \<Rightarrow> (t, if dropped t r then [] else r) # filter (\<lambda>(t, r). \<not> dropped t r) xs)"

lemma swap_rows_props:
  "length (swap_rows i j xs) = length xs"
  "i < length xs \<Longrightarrow> j < length xs \<Longrightarrow> i \<le> j \<Longrightarrow> take (Suc i) (swap_rows i j xs) = take i xs @ [xs ! j]"
  "j < length xs \<Longrightarrow> i \<le> j \<Longrightarrow> drop (Suc j) (swap_rows i j xs) = drop (Suc j) xs"
proof -
  show "length (swap_rows i j xs) = length xs" by (simp add: swap_rows_def)
  show "drop (Suc j) (swap_rows i j xs) = drop (Suc j) xs" if "j < length xs" "i \<le> j"
    using that by (simp add: swap_rows_def)
  assume "i < length xs" "j < length xs" "i \<le> j"
  then show "take (Suc i) (swap_rows i j xs) = take i xs @ [xs ! j]"
    by (intro nth_equalityI) (auto simp: swap_rows_def nth_list_update nth_append less_Suc_eq)
qed

text \<open>The invariant of the loop: the first \<open>w\<close> entries are the result so far, the entries from the
  read position on are untouched.\<close>

lemma drop_loop_tail:
  assumes "rows_wf rs" "offset + i \<le> length (rs_timestamps rs)" "w \<le> offset + i" "0 < i"
    "drop_loop dropped offset i w rs = (w', rs')"
  shows "rows_wf rs' \<and> w' \<le> length (rs_timestamps rs') \<and>
    take w' (rows_of rs') = take w (rows_of rs) @ filter (\<lambda>(t, r). \<not> dropped t r) (drop (offset + i) (rows_of rs))"
  using assms
proof (induction dropped offset i w rs rule: drop_loop.induct)
  case (1 dropped offset i w rs)
  show ?case
  proof (cases "i < length (rs_timestamps rs) - offset")
    case False
    then have "w' = w" "rs' = rs" "drop (offset + i) (rows_of rs) = []"
      using "1.prems" by (auto simp: drop_loop.simps [of dropped offset i w rs] rows_of_def rows_wf_def)
    then show ?thesis using "1.prems" by simp
  next
    case True
    define p t r where "p = offset + i" and "t = rs_timestamps rs ! (offset + i)" and "r = rs_rows rs ! (offset + i)"
    have p: "p < length (rs_timestamps rs)" "p < length (rs_rows rs)" using True "1.prems"(1) by (auto simp: p_def rows_wf_def)
    have d: "drop p (rows_of rs) = (t, r) # drop (Suc p) (rows_of rs)"
      using p by (simp add: rows_of_def Cons_nth_drop_Suc [symmetric] t_def r_def p_def)
    show ?thesis
    proof (cases "dropped t r")
      case dr: True
      then have e: "drop_loop dropped offset (i + 1) w rs = (w', rs')"
        using "1.prems"(4,5) True by (subst (asm) drop_loop.simps) (simp add: t_def r_def Let_def)
      have "rows_wf rs' \<and> w' \<le> length (rs_timestamps rs') \<and>
        take w' (rows_of rs') = take w (rows_of rs) @ filter (\<lambda>(t, r). \<not> dropped t r) (drop (offset + (i + 1)) (rows_of rs))"
        by (rule "1.IH"(3) [OF True t_def r_def]) (use dr "1.prems" e True in auto)
      then show ?thesis using d dr by (simp add: p_def)
    next
      case nd: False
      let ?rs = "rs\<lparr>rs_timestamps := (rs_timestamps rs)[w := t], rs_rows := swap_rows w (offset + i) (rs_rows rs)\<rparr>"
      have e: "drop_loop dropped offset (i + 1) (w + 1) ?rs = (w', rs')"
        using "1.prems"(5) True nd by (subst (asm) drop_loop.simps) (simp add: t_def r_def Let_def)
      have w: "w \<le> p" using "1.prems"(3) by (simp add: p_def)
      have wf: "rows_wf ?rs" using "1.prems"(1) by (simp add: rows_wf_def swap_rows_props)
      have tk: "take (Suc w) (rows_of ?rs) = take w (rows_of rs) @ [(t, r)]"
        using p w swap_rows_props(2) [of w "rs_rows rs" p]
        by (simp add: rows_of_def take_zip take_Suc_conv_app_nth p_def [symmetric] r_def)
      have dp: "drop (Suc p) (rows_of ?rs) = drop (Suc p) (rows_of rs)"
        using p w swap_rows_props(3) [of p "rs_rows rs" w] by (simp add: rows_of_def drop_zip p_def [symmetric])
      have "rows_wf rs' \<and> w' \<le> length (rs_timestamps rs') \<and>
        take w' (rows_of rs') = take (w + 1) (rows_of ?rs) @ filter (\<lambda>(t, r). \<not> dropped t r) (drop (offset + (i + 1)) (rows_of ?rs))"
        by (rule "1.IH"(1) [OF True t_def r_def]) (use nd "1.prems" e True wf w in \<open>auto simp: p_def\<close>)
      then show ?thesis using tk dp d nd by (simp add: p_def)
    qed
  qed
qed


lemma drop_loop_spec:
  assumes "rows_wf rs" "offset \<le> length (rs_timestamps rs)" "drop_loop dropped offset 0 offset rs = (w', rs')"
  shows "rows_wf rs' \<and> w' \<le> length (rs_timestamps rs') \<and>
    take w' (rows_of rs') = take offset (rows_of rs) @ kept_rows dropped (drop offset (rows_of rs))"
proof (cases "offset < length (rs_timestamps rs)")
  case False
  then have "drop_loop dropped offset 0 offset rs = (offset, rs)" by (subst drop_loop.simps) simp
  then show ?thesis using False assms by (auto simp: kept_rows_def rows_of_def rows_wf_def)
next
  case True
  define t r where "t = rs_timestamps rs ! offset" and "r = rs_rows rs ! offset"
  have p: "offset < length (rs_rows rs)" using True assms(1) by (simp add: rows_wf_def)
  have d: "drop offset (rows_of rs) = (t, r) # drop (Suc offset) (rows_of rs)"
    using p True by (simp add: rows_of_def Cons_nth_drop_Suc [symmetric] t_def r_def)
  define rs1 where "rs1 = rs\<lparr>rs_timestamps := (rs_timestamps rs)[offset := t],
    rs_rows := (rs_rows rs)[offset := (if dropped t r then [] else r)]\<rparr>"
  have e: "drop_loop dropped offset 1 (Suc offset) rs1 = (w', rs')"
    using assms(3) True unfolding drop_loop.simps [of dropped offset 0 offset rs]
    by (simp add: t_def [symmetric] r_def [symmetric] Let_def rs1_def swap_rows_def split: if_splits)
  have wf: "rows_wf rs1" using assms(1) by (simp add: rows_wf_def rs1_def)
  have tk: "take (Suc offset) (rows_of rs1) = take offset (rows_of rs) @ [(t, if dropped t r then [] else r)]"
    using p True by (simp add: rows_of_def rs1_def take_zip take_Suc_conv_app_nth)
  have dp: "drop (Suc offset) (rows_of rs1) = drop (Suc offset) (rows_of rs)"
    by (simp add: rows_of_def drop_zip rs1_def)
  have "rows_wf rs' \<and> w' \<le> length (rs_timestamps rs') \<and>
    take w' (rows_of rs') = take (Suc offset) (rows_of rs1) @ filter (\<lambda>(t, r). \<not> dropped t r) (drop (offset + 1) (rows_of rs1))"
    by (rule drop_loop_tail) (use wf True e in \<open>auto simp: rs1_def\<close>)
  then show ?thesis using tk dp d by (simp add: kept_rows_def)
qed

definition drops_row :: "drop_filter \<Rightarrow> bytes \<Rightarrow> bytes \<Rightarrow> i64 \<Rightarrow> row \<Rightarrow> bool" where
  "drops_row df stream stream_id t r \<longleftrightarrow>
    df_min df \<le>s t \<and> t \<le>s df_max df \<and> df_match df (row_fields_for_filter df stream stream_id t r)"

lemma skip_rows_kept:
  assumes "rows_wf rs" "offset \<le> length (rs_timestamps rs)"
  shows "rows_of (skip_rows_by_drop_filter df offset stream stream_id rs) =
    take offset (rows_of rs) @ kept_rows (drops_row df stream stream_id) (drop offset (rows_of rs))"
proof -
  let ?d = "drops_row df stream stream_id"
  have d: "(\<lambda>t r. \<not> (t <s df_min df \<or> df_max df <s t) \<and> df_match df (row_fields_for_filter df stream stream_id t r)) = ?d"
    by (auto simp: fun_eq_iff drops_row_def word_sle_eq word_sless_alt not_less)
  obtain w rs' where l: "drop_loop ?d offset 0 offset rs = (w, rs')" by fastforce
  show ?thesis
    using drop_loop_spec [OF assms l] l unfolding skip_rows_by_drop_filter_def d
    by (simp add: rows_of_def take_zip)
qed

text \<open>C14: dropping rows leaves the rows before the offset alone and keeps, from the offset on, exactly the
  rows that are outside the time range of the filter or do not match it, in their order, except that
  a dropped first row stays as a timestamp with no fields.\<close>

theorem drop_filter_keeps_others:
  assumes "rows_wf rs" "offset \<le> length (rs_timestamps rs)"
  shows "rows_of (skip_rows_by_drop_filter df offset stream stream_id rs) =
    take offset (rows_of rs) @ kept_rows (drops_row df stream stream_id) (drop offset (rows_of rs))"
  using skip_rows_kept [OF assms] .

theorem drop_filter_keeps_others_witness:
  "rows_of (skip_rows_by_drop_filter \<lparr>df_min = 0, df_max = 5, df_match = (\<lambda>fs. get_field_value_by_name fs (ascii ''a'') = ascii ''x''),
      df_fields = (\<lambda>n. True)\<rparr> 1 [] []
      \<lparr>rs_timestamps = [1, 2, 3, 9], rs_rows = [[], [Field (ascii ''a'') (ascii ''x'')], [Field (ascii ''a'') (ascii ''y'')], [Field (ascii ''a'') (ascii ''x'')]]\<rparr>)
   = [(1, []), (2, []), (3, [Field (ascii ''a'') (ascii ''y'')]), (9, [Field (ascii ''a'') (ascii ''x'')])]"
  by (subst drop_filter_keeps_others) (simp add: rows_wf_def, simp, code_simp)

text \<open>C13: merging two sorted sequences of rows gives a sequence sorted by timestamp that holds every row
  of both inputs, with its timestamp, as often as the inputs do.\<close>

theorem merge_rows_sorted_permutation:
  assumes "length ta = length fa" "length tb = length fb"
    and "timestamps_sorted ta" "timestamps_sorted tb"
  defines "m \<equiv> merge_rows ta tb fa fb \<lparr>rs_timestamps = [], rs_rows = []\<rparr>"
  shows "timestamps_sorted (rs_timestamps m) \<and> length (rs_timestamps m) = length (rs_rows m) \<and>
    mset (rows_of m) = mset (zip ta fa) + mset (zip tb fb)"
  using merge_rows_spec [of ta fa tb fb "\<lparr>rs_timestamps = [], rs_rows = []\<rparr>"] assms(1-4)
  by (simp add: m_def timestamps_sorted_iff rows_wf_def rows_of_def)

theorem merge_rows_sorted_permutation_witness:
  "let m = merge_rows [1, 5] [-2, 5, 7] [[], []] [[Field [1] [2]], [], []] \<lparr>rs_timestamps = [], rs_rows = []\<rparr>
   in mset (rows_of m) = {#(1, []), (5, []), (-2, [Field [1] [2]]), (5, []), (7, [])#}"
  using merge_rows_sorted_permutation [of "[1, 5]" "[[], []]" "[-2, 5, 7]" "[[Field [1] [2]], [], []]"]
  by (simp add: word_sless_alt Let_def ac_simps)

subsection \<open>What a block represents\<close>

text \<open>\<open>represents b val R\<close>: the columns of the block hold \<open>val n k\<close> as the value of the field \<open>n\<close> of row \<open>k\<close>
  for each of the \<open>R\<close> rows, and every field that is non-empty in some row has a column.\<close>

definition block_names :: "Block \<Rightarrow> bytes list" where
  "block_names b = map field_name (b_const_columns b) @ map col_name (b_columns b)"

definition represents :: "Block \<Rightarrow> (bytes \<Rightarrow> nat \<Rightarrow> bytes) \<Rightarrow> nat \<Rightarrow> bool" where
  "represents b val R \<longleftrightarrow>
    (\<forall>f \<in> set (b_const_columns b). \<forall>k < R. field_value f = val (field_name f) k) \<and>
    (\<forall>c \<in> set (b_columns b). length (col_values c) = R \<and> (\<forall>k < R. col_values c ! k = val (col_name c) k)) \<and>
    (\<forall>n. \<forall>k < R. val n k \<noteq> [] \<longrightarrow> n \<in> set (block_names b))"

lemma get_field_value_eqI:
  assumes "\<And>f. f \<in> set fs \<Longrightarrow> field_name f = n \<Longrightarrow> field_value f = v"
    and "v \<noteq> [] \<Longrightarrow> n \<in> field_name ` set fs"
  shows "get_field_value_by_name fs n = v"
proof (cases "n \<in> field_name ` set fs")
  case True
  then show ?thesis using assms(1) by (induction fs) auto
next
  case False
  then have "get_field_value_by_name fs n = []" by (induction fs) auto
  then show ?thesis using False assms(2) by auto
qed

lemma get_field_value_nth:
  "distinct (map field_name fs) \<Longrightarrow> i < length fs \<Longrightarrow> get_field_value_by_name fs (field_name (fs ! i)) = field_value (fs ! i)"
  by (rule get_field_value_eqI) (fastforce simp: in_set_conv_nth distinct_conv_nth, auto intro!: imageI)

lemma get_field_value_in: "get_field_value_by_name fs n \<noteq> [] \<Longrightarrow> n \<in> field_name ` set fs"
  by (induction fs) (auto split: if_splits)

lemma represents_row:
  assumes "represents b val R" "k < R"
  shows "get_field_value_by_name (block_row b k) n = val n k"
proof (rule get_field_value_eqI)
  fix f assume "f \<in> set (block_row b k)" "field_name f = n"
  then show "field_value f = val n k"
    using assms by (auto simp: block_row_def represents_def Let_def split: if_splits)
next
  assume v: "val n k \<noteq> []"
  then have "n \<in> set (block_names b)" using assms by (auto simp: represents_def)
  then consider "n \<in> field_name ` set (b_const_columns b)" | c where "c \<in> set (b_columns b)" "col_name c = n"
    by (auto simp: block_names_def)
  then show "n \<in> field_name ` set (block_row b k)"
  proof cases
    case 2
    then have "Field n (val n k) \<in> set (block_row b k)"
      using v assms by (auto simp: block_row_def represents_def Let_def)
    then show ?thesis by force
  qed (auto simp: block_row_def)
qed

lemma represents_cong:
  assumes "set (b_const_columns b') = set (b_const_columns b)" "set (b_columns b') = set (b_columns b)"
  shows "represents b' val R \<longleftrightarrow> represents b val R"
  using assms by (simp add: represents_def block_names_def)

subsection \<open>The fast path\<close>

definition fast_const :: "row list \<Rightarrow> Field list \<Rightarrow> nat list \<Rightarrow> Field list" where
  "fast_const rows flds is = map (\<lambda>i. flds ! i) (filter (can_store_in_const_column rows) is)"

definition fast_columns :: "row list \<Rightarrow> Field list \<Rightarrow> nat list \<Rightarrow> Column list" where
  "fast_columns rows flds is = map (\<lambda>i. \<lparr>col_name = field_name (flds ! i), col_values = map (\<lambda>row. field_value (row ! i)) rows\<rparr>)
    (filter (\<lambda>i. \<not> can_store_in_const_column rows i) is)"

lemma fast_fold:
  "fold (add_fast_column rows flds) is b =
    b\<lparr>b_columns := b_columns b @ fast_columns rows flds is, b_const_columns := b_const_columns b @ fast_const rows flds is\<rparr>"
  by (induction "is" arbitrary: b) (auto simp: add_fast_column_def fast_const_def fast_columns_def)

text \<open>The rows of the fast path have the same names in the same positions.\<close>

definition same_shape :: "row list \<Rightarrow> bool" where
  "same_shape rows \<longleftrightarrow> (\<forall>r \<in> set rows. map field_name r = map field_name (rows ! 0))"

lemma are_same_fields_shape: "are_same_fields_in_rows rows \<Longrightarrow> same_shape rows"
proof -
  have e: "map field_name s = map field_name r"
    if "length r = length s" "list_all (\<lambda>j. field_name (s ! j) = field_name (r ! j)) [0..<length s]" for r s
    using that by (intro nth_equalityI) (auto simp: list_all_iff)
  assume a: "are_same_fields_in_rows rows"
  show ?thesis
  proof (cases rows)
    case (Cons r rest)
    then show ?thesis using a by (cases rest) (auto simp: are_same_fields_in_rows_def same_shape_def list_all_iff intro!: e)
  qed (simp add: same_shape_def)
qed

lemma can_store_in_const_nth:
  "can_store_in_const_column rows i \<longleftrightarrow>
    (rows \<noteq> [] \<longrightarrow> length (field_value (rows ! 0 ! i)) \<le> MAX_CONST_COLUMN_VALUE_SIZE) \<and>
    (\<forall>r \<in> set rows. field_value (r ! i) = field_value (rows ! 0 ! i))"
  by (auto simp: can_store_in_const_column_def Let_def list_all_iff split: list.splits)

lemma fast_represents:
  assumes "same_shape rows" "rows \<noteq> []" "\<And>r. r \<in> set rows \<Longrightarrow> distinct (map field_name r)"
  shows "represents \<lparr>b_timestamps = ts, b_columns = fast_columns rows (rows ! 0) [0..<length (rows ! 0)],
      b_const_columns = fast_const rows (rows ! 0) [0..<length (rows ! 0)]\<rparr>
    (\<lambda>n k. get_field_value_by_name (rows ! k) n) (length rows)"
proof -
  let ?f = "rows ! 0" and ?val = "\<lambda>n k. get_field_value_by_name (rows ! k) n"
  have nm: "map field_name (rows ! k) = map field_name ?f" if "k < length rows" for k
    using assms(1) that by (auto simp: same_shape_def)
  have v: "?val (field_name (?f ! i)) k = field_value (rows ! k ! i)" if "i < length ?f" "k < length rows" for i k
  proof -
    have "length (rows ! k) = length ?f" using nm [OF that(2)] by (metis length_map)
    moreover have "field_name (rows ! k ! i) = field_name (?f ! i)"
      using nm [OF that(2)] that(1) calculation by (metis nth_map)
    ultimately show ?thesis
      using get_field_value_nth [of "rows ! k" i] assms(3) [of "rows ! k"] that by simp
  qed
  have "n \<in> field_name ` set ?f" if "k < length rows" "?val n k \<noteq> []" for n k
  proof -
    have "n \<in> field_name ` set (rows ! k)" using that(2) by (rule get_field_value_in)
    then show ?thesis using nm [OF that(1)] by (metis set_map)
  qed
  then have n: "\<exists>i < length ?f. n = field_name (?f ! i)" if "k < length rows" "?val n k \<noteq> []" for n k
    using that by (fastforce simp: in_set_conv_nth)
  show ?thesis unfolding represents_def
    by (auto simp: fast_const_def fast_columns_def block_names_def v can_store_in_const_nth image_iff dest!: n)
qed

subsection \<open>The slow path\<close>

lemma add_names_props:
  "distinct names \<Longrightarrow> distinct (add_names flds names)"
  "set (add_names flds names) = set names \<union> field_name ` set flds"
  "length (add_names flds names) \<le> length names + length flds"
proof -
  show "distinct names \<Longrightarrow> distinct (add_names flds names)" "set (add_names flds names) = set names \<union> field_name ` set flds"
    unfolding add_names_def by (induction flds arbitrary: names) auto
  show "length (add_names flds names) \<le> length names + length flds"
    unfolding add_names_def
  proof (induction flds arbitrary: names)
    case (Cons f flds)
    show ?case using Cons.IH [of names] Cons.IH [of "names @ [field_name f]"] by auto
  qed simp
qed

lemma index_columns_props:
  assumes "index_columns names rows = (ns, m)" "distinct names" "length names \<le> MAX_COLUMNS_PER_BLOCK"
  shows "distinct ns \<and> length ns \<le> MAX_COLUMNS_PER_BLOCK \<and> m \<le> length rows \<and>
    set ns = set names \<union> (\<Union>r \<in> set (take m rows). field_name ` set r)"
  using assms
proof (induction rows arbitrary: names ns m)
  case (Cons flds rows)
  show ?case
  proof (cases "length names + length flds > MAX_COLUMNS_PER_BLOCK")
    case False
    obtain m' where m': "index_columns (add_names flds names) rows = (ns, m')" "m = Suc m'"
      using Cons.prems(1) False by (auto split: prod.splits)
    have "length (add_names flds names) \<le> MAX_COLUMNS_PER_BLOCK"
      using False add_names_props(3) [of flds names] by linarith
    from Cons.IH [OF m'(1) add_names_props(1) [OF Cons.prems(2)] this] show ?thesis
      by (auto simp: m'(2) add_names_props(2))
  qed (use Cons.prems in auto)
qed auto

lemma index_columns_progress: "length r \<le> MAX_COLUMNS_PER_BLOCK \<Longrightarrow> 0 < snd (index_columns [] (r # rows))"
  by (simp split: prod.splits)

lemma index_columns_all:
  assumes "finite A" "set names \<union> (\<Union>r \<in> set rows. field_name ` set r) \<subseteq> A" "distinct names"
    and "\<And>r. r \<in> set rows \<Longrightarrow> card A + length r \<le> MAX_COLUMNS_PER_BLOCK"
  shows "snd (index_columns names rows) = length rows"
  using assms
proof (induction rows arbitrary: names)
  case (Cons r rows)
  have "length names \<le> card A"
    using Cons.prems(1-3) by (metis card_mono distinct_card le_supE)
  then have "\<not> length names + length r > MAX_COLUMNS_PER_BLOCK" using Cons.prems(4) [of r] by simp
  moreover have "snd (index_columns (add_names r names) rows) = length rows"
    by (rule Cons.IH) (use Cons.prems in \<open>auto simp: add_names_props\<close>)
  ultimately show ?case by (auto split: prod.splits)
qed simp

lemma name_index_less: "n \<in> set names \<Longrightarrow> name_index names n < length names \<and> names ! name_index names n = n"
  by (induction names) auto

lemma name_index_nth: "distinct names \<Longrightarrow> i < length names \<Longrightarrow> name_index names (names ! i) = i"
  by (metis name_index_less nth_eq_iff_index_eq nth_mem)

text \<open>The columns during the writing of the rows: \<open>cells names R v\<close> has the value \<open>v n k\<close> in row \<open>k\<close> of the column of \<open>n\<close>.\<close>

definition cells :: "bytes list \<Rightarrow> nat \<Rightarrow> (bytes \<Rightarrow> nat \<Rightarrow> bytes) \<Rightarrow> Column list" where
  "cells names R v = map (\<lambda>n. \<lparr>col_name = n, col_values = map (v n) [0..<R]\<rparr>) names"

lemma cells_cong: "(\<And>n k. n \<in> set names \<Longrightarrow> k < R \<Longrightarrow> v n k = w n k) \<Longrightarrow> cells names R v = cells names R w"
  by (simp add: cells_def)

lemma write_field_cells:
  assumes "distinct names" "field_name f \<in> set names" "i < R"
  shows "write_field names i f (cells names R v) =
    cells names R (\<lambda>n k. if n = field_name f \<and> k = i then field_value f else v n k)"
proof (rule nth_equalityI)
  show "length (write_field names i f (cells names R v)) = length (cells names R (\<lambda>n k. if n = field_name f \<and> k = i then field_value f else v n k))"
    by (simp add: write_field_def cells_def Let_def)
  fix j assume "j < length (write_field names i f (cells names R v))"
  then have j: "j < length names" by (simp add: write_field_def cells_def Let_def)
  have x: "name_index names (field_name f) < length names" "names ! name_index names (field_name f) = field_name f"
    using name_index_less [OF assms(2)] by auto
  show "write_field names i f (cells names R v) ! j =
    cells names R (\<lambda>n k. if n = field_name f \<and> k = i then field_value f else v n k) ! j"
  proof (cases "j = name_index names (field_name f)")
    case True
    have "(map (v (field_name f)) [0..<R])[i := field_value f] = map (\<lambda>k. if k = i then field_value f else v (field_name f) k) [0..<R]"
      using assms(3) by (intro nth_equalityI) (auto simp: nth_list_update)
    then show ?thesis using True x by (simp add: write_field_def cells_def Let_def)
  next
    case False
    then have "names ! j \<noteq> field_name f" using name_index_nth [OF assms(1) j] by auto
    then show ?thesis using False j by (simp add: write_field_def cells_def Let_def)
  qed
qed

lemma write_row_cells:
  assumes "distinct names" "field_name ` set row \<subseteq> set names" "i < R" "distinct (map field_name row)"
  shows "fold (write_field names i) row (cells names R v) =
    cells names R (\<lambda>n k. if n \<in> field_name ` set row \<and> k = i then get_field_value_by_name row n else v n k)"
  using assms
proof (induction row arbitrary: v)
  case (Cons f row)
  let ?v = "\<lambda>n k. if n = field_name f \<and> k = i then field_value f else v n k"
  have "fold (write_field names i) (f # row) (cells names R v) = fold (write_field names i) row (cells names R ?v)"
    using Cons.prems by (simp add: write_field_cells)
  also have "\<dots> = cells names R (\<lambda>n k. if n \<in> field_name ` set row \<and> k = i then get_field_value_by_name row n else ?v n k)"
    by (rule Cons.IH) (use Cons.prems in auto)
  also have "\<dots> = cells names R (\<lambda>n k. if n \<in> field_name ` set (f # row) \<and> k = i then get_field_value_by_name (f # row) n else v n k)"
    using Cons.prems(4) by (intro arg_cong [where f = "cells names R"]) (auto simp: fun_eq_iff)
  finally show ?case .
qed simp

lemma write_rows_cells:
  assumes "distinct names" "\<And>r. r \<in> set rows \<Longrightarrow> field_name ` set r \<subseteq> set names \<and> distinct (map field_name r)"
    and "i + length rows \<le> R"
  shows "write_rows names i rows (cells names R v) =
    cells names R (\<lambda>n k. if i \<le> k \<and> k < i + length rows \<and> n \<in> field_name ` set (rows ! (k - i))
                         then get_field_value_by_name (rows ! (k - i)) n else v n k)"
  using assms(2,3)
proof (induction rows arbitrary: i v)
  case (Cons r rows)
  have s: "(r # rows) ! (k - i) = (if k = i then r else rows ! (k - Suc i))" if "i \<le> k" for k
    using that by (auto simp: nth_Cons')
  have "write_rows names i (r # rows) (cells names R v) = write_rows names (Suc i) rows
    (cells names R (\<lambda>n k. if n \<in> field_name ` set r \<and> k = i then get_field_value_by_name r n else v n k))"
    using Cons.prems assms(1) by (simp add: write_row_cells)
  also have "\<dots> = cells names R (\<lambda>n k. if Suc i \<le> k \<and> k < Suc i + length rows \<and> n \<in> field_name ` set (rows ! (k - Suc i))
      then get_field_value_by_name (rows ! (k - Suc i)) n
      else if n \<in> field_name ` set r \<and> k = i then get_field_value_by_name r n else v n k)"
    by (rule Cons.IH) (use Cons.prems in auto)
  also have "\<dots> = cells names R (\<lambda>n k. if i \<le> k \<and> k < i + length (r # rows) \<and> n \<in> field_name ` set ((r # rows) ! (k - i))
      then get_field_value_by_name ((r # rows) ! (k - i)) n else v n k)"
    by (intro arg_cong [where f = "cells names R"] ext) (auto simp: s)
  finally show ?case .
qed (auto intro!: cells_cong)

text \<open>All rows written into empty columns.\<close>

lemma write_all_rows:
  assumes "distinct names" "\<And>r. r \<in> set rows \<Longrightarrow> field_name ` set r \<subseteq> set names \<and> distinct (map field_name r)"
  shows "write_rows names 0 rows (map (\<lambda>n. \<lparr>col_name = n, col_values = replicate (length rows) []\<rparr>) names) =
    cells names (length rows) (\<lambda>n k. get_field_value_by_name (rows ! k) n)"
proof -
  have "map (\<lambda>n. \<lparr>col_name = n, col_values = replicate (length rows) []\<rparr>) names = cells names (length rows) (\<lambda>_ _. [])"
    by (simp add: cells_def map_replicate_const)
  then have "write_rows names 0 rows (map (\<lambda>n. \<lparr>col_name = n, col_values = replicate (length rows) []\<rparr>) names) =
    cells names (length rows) (\<lambda>n k. if 0 \<le> k \<and> k < 0 + length rows \<and> n \<in> field_name ` set (rows ! (k - 0))
                         then get_field_value_by_name (rows ! (k - 0)) n else [])"
    using write_rows_cells [of names rows 0 "length rows" "\<lambda>_ _. []"] assms by simp
  also have "\<dots> = cells names (length rows) (\<lambda>n k. get_field_value_by_name (rows ! k) n)"
    by (rule cells_cong) (simp, metis get_field_value_in)
  finally show ?thesis .
qed

text \<open>The search for constant columns splits the columns: \<open>cc\<close> are the constant ones.\<close>

definition const_of :: "Column \<Rightarrow> Field" where
  "const_of c = Field (col_name c) (col_values c ! 0)"

lemma remove_at:
  assumes "i < n" "n \<le> length cs"
  shows "mset (take n cs) = add_mset (cs ! i) (mset (take (n - 1) ((if i < n - 1 then swap_rows i (n - 1) (cs[i := d]) else cs[i := d]))))"
proof (cases "i < n - 1")
  case True
  obtain m where m: "n = Suc m" using assms by (cases n) auto
  have t: "take m (swap_rows i m (cs[i := d])) = (take m cs)[i := cs ! m]"
    using True m assms by (intro nth_equalityI) (auto simp: swap_rows_def nth_list_update)
  have "mset (take n cs) = add_mset (cs ! m) (mset (take m cs))"
    using m assms by (simp add: take_Suc_conv_app_nth)
  also have "\<dots> = add_mset (cs ! i) (mset ((take m cs)[i := cs ! m]))"
  proof -
    have "cs ! i \<in># mset (take m cs)" using True m assms by (auto simp: in_set_conv_nth intro!: exI [of _ i])
    then have "mset (take m cs) = add_mset (cs ! i) (mset (take m cs) - {#cs ! i#})" by (rule insert_DiffM [symmetric])
    then show ?thesis using True m assms by (simp add: mset_update add_mset_commute)
  qed
  finally show ?thesis using True m t by simp
next
  case False
  then have "i = n - 1" "n = Suc i" using assms by auto
  then show ?thesis using assms by (simp add: take_Suc_conv_app_nth)
qed

lemma detect_const_split:
  assumes "i \<le> n" "n \<le> length cs" "\<And>j. i \<le> j \<Longrightarrow> j < n \<Longrightarrow> \<not> column_can_store_in_const (cs ! j)"
    "detect_const i n cs ccs = (n', cs', ccs')"
  shows "\<exists>cc. mset (take n cs) = mset (take n' cs') + mset cc \<and> ccs' = ccs @ map const_of cc \<and> n' \<le> length cs' \<and>
    list_all column_can_store_in_const cc \<and> list_all (\<lambda>c. \<not> column_can_store_in_const c) (take n' cs')"
  using assms
proof (induction i arbitrary: n cs ccs)
  case 0
  then show ?case by (intro exI [of _ "[]"]) (auto simp: list_all_length)
next
  case (Suc i)
  show ?case
  proof (cases "column_can_store_in_const (cs ! i)")
    case False
    have "\<not> column_can_store_in_const (cs ! j)" if "i \<le> j" "j < n" for j
      using False Suc.prems(3) [of j] that by (cases "j = i") auto
    then show ?thesis using Suc.IH [of n cs ccs] Suc.prems False by simp
  next
    case True
    define cs1 where "cs1 = (if i < n - 1 then swap_rows i (n - 1) (cs[i := column_default]) else cs[i := column_default])"
    have e: "detect_const i (n - 1) cs1 (ccs @ [const_of (cs ! i)]) = (n', cs', ccs')"
      using Suc.prems(4) True by (simp add: cs1_def const_of_def Let_def)
    have l: "length cs1 = length cs" by (simp add: cs1_def swap_rows_def)
    have "\<not> column_can_store_in_const (cs1 ! j)" if "i \<le> j" "j < n - 1" for j
    proof (cases "j = i")
      case True
      then have "cs1 ! j = cs ! (n - 1)" using that Suc.prems(1,2) by (auto simp: cs1_def swap_rows_def nth_list_update)
      then show ?thesis using Suc.prems(1,2) Suc.prems(3) [of "n - 1"] that by simp
    next
      case False
      then have "cs1 ! j = cs ! j" using that Suc.prems(1,2) by (auto simp: cs1_def swap_rows_def nth_list_update)
      then show ?thesis using Suc.prems(3) [of j] False that by simp
    qed
    then have "\<exists>cc. mset (take (n - 1) cs1) = mset (take n' cs') + mset cc \<and> ccs' = (ccs @ [const_of (cs ! i)]) @ map const_of cc \<and>
        n' \<le> length cs' \<and> list_all column_can_store_in_const cc \<and> list_all (\<lambda>c. \<not> column_can_store_in_const c) (take n' cs')"
      by (intro Suc.IH [OF _ _ _ e]) (use Suc.prems(1,2) l in auto)
    then obtain cc where cc: "mset (take (n - 1) cs1) = mset (take n' cs') + mset cc" "ccs' = (ccs @ [const_of (cs ! i)]) @ map const_of cc"
        "n' \<le> length cs'" "list_all column_can_store_in_const cc" "list_all (\<lambda>c. \<not> column_can_store_in_const c) (take n' cs')"
      by blast
    have "mset (take n cs) = add_mset (cs ! i) (mset (take (n - 1) cs1))"
      unfolding cs1_def by (rule remove_at) (use Suc.prems in auto)
    then show ?thesis using cc True by (intro exI [of _ "cs ! i # cc"]) simp
  qed
qed

lemma column_const_nth:
  "column_can_store_in_const c \<Longrightarrow> k < length (col_values c) \<Longrightarrow> col_values c ! k = col_values c ! 0"
  by (cases "col_values c"; cases k) (auto simp: column_can_store_in_const_def list_all_length)

lemma column_const_iff:
  "column_can_store_in_const c \<longleftrightarrow>
    (col_values c \<noteq> [] \<longrightarrow> length (col_values c ! 0) \<le> MAX_CONST_COLUMN_VALUE_SIZE) \<and> (\<forall>v \<in> set (col_values c). v = col_values c ! 0)"
  by (auto simp: column_can_store_in_const_def list_all_iff split: list.splits)

text \<open>The columns written are split into constant and other columns without loss.\<close>

lemma slow_represents:
  assumes "detect_const (length names) (length names) (cells names R val) [] = (n, cs, ccs)" "0 < R"
    and "\<And>n k. k < R \<Longrightarrow> val n k \<noteq> [] \<Longrightarrow> n \<in> set names"
  shows "represents \<lparr>b_timestamps = ts, b_columns = take n cs, b_const_columns = ccs\<rparr> val R"
    and "length (take n cs) + length ccs = length names"
    and "mset (map col_name (take n cs) @ map field_name ccs) = mset names"
    and "list_all (\<lambda>c. \<not> column_can_store_in_const c) (take n cs)"
    and "list_all (\<lambda>f. length (field_value f) \<le> MAX_CONST_COLUMN_VALUE_SIZE) ccs"
proof -
  have l: "length (cells names R val) = length names" by (simp add: cells_def)
  obtain cc where cc: "mset (cells names R val) = mset (take n cs) + mset cc" "ccs = map const_of cc"
      "list_all column_can_store_in_const cc" "n \<le> length cs" "list_all (\<lambda>c. \<not> column_can_store_in_const c) (take n cs)"
    using detect_const_split [of "length names" "length names" "cells names R val" "[]" n cs ccs] assms(1) l by auto
  have s: "set (cells names R val) = set (take n cs) \<union> set cc"
    using cc(1) by (metis set_mset_mset set_mset_union)
  have m: "mset (map col_name (take n cs)) + mset (map col_name cc) = mset (map col_name (cells names R val))"
    by (metis cc(1) image_mset_union mset_map)
  have nm: "map col_name (cells names R val) = names" by (simp add: cells_def comp_def)
  have fn: "map field_name ccs = map col_name cc" by (simp add: cc(2) const_of_def)
  show mm: "mset (map col_name (take n cs) @ map field_name ccs) = mset names" using m nm fn by simp
  then show "length (take n cs) + length ccs = length names" by (metis length_append length_map size_mset)
  have v: "length (col_values c) = R \<and> (\<forall>k < R. col_values c ! k = val (col_name c) k)" if "c \<in> set (take n cs) \<union> set cc" for c
    using that unfolding s [symmetric] by (auto simp: cells_def)
  show "list_all (\<lambda>c. \<not> column_can_store_in_const c) (take n cs)" by (rule cc(5))
  show "list_all (\<lambda>f. length (field_value f) \<le> MAX_CONST_COLUMN_VALUE_SIZE) ccs"
    using cc(2,3) v assms(2) by (fastforce simp: list_all_iff const_of_def column_const_iff)
  have c: "field_value f = val (field_name f) k" if f: "f \<in> set ccs" and "k < R" for f k
  proof -
    obtain c where c: "c \<in> set cc" "f = const_of c" using f cc(2) by auto
    then show ?thesis using v [of c] assms(2) that(2) column_const_nth [of c k] cc(3)
      by (auto simp: const_of_def list_all_iff)
  qed
  have "set (map col_name (take n cs)) \<union> set (map field_name ccs) = set names"
    by (metis mm set_append set_mset_mset)
  then show "represents \<lparr>b_timestamps = ts, b_columns = take n cs, b_const_columns = ccs\<rparr> val R"
    using v c assms(3) by (auto simp: represents_def block_names_def)
qed

subsection \<open>Building a block\<close>

lemma block_reset_eq: "block_reset b = \<lparr>b_timestamps = [], b_columns = [], b_const_columns = []\<rparr>"
  by (cases b) (simp add: block_reset_def)

text \<open>The rows a block takes: all rows with the same fields, or those whose names fit the column limit.\<close>

definition rows_taken :: "row list \<Rightarrow> nat" where
  "rows_taken rows = (if are_same_fields_in_rows rows then length rows else snd (index_columns [] rows))"

definition row_wf :: "row \<Rightarrow> bool" where
  "row_wf r \<longleftrightarrow> distinct (map field_name r) \<and> length r \<le> MAX_COLUMNS_PER_BLOCK"

definition cell_of :: "row list \<Rightarrow> bytes \<Rightarrow> nat \<Rightarrow> bytes" where
  "cell_of rows n k = get_field_value_by_name (rows ! k) n"

definition block_of_rows :: "Block \<Rightarrow> i64 list \<Rightarrow> row list \<Rightarrow> bool" where
  "block_of_rows b ts rows \<longleftrightarrow>
    b_timestamps b = ts \<and> length ts = length rows \<and> represents b (cell_of rows) (length rows) \<and> distinct (block_names b) \<and>
    (\<forall>r \<in> set rows. field_name ` set r \<subseteq> set (block_names b)) \<and>
    length (b_columns b) + length (b_const_columns b) \<le> MAX_COLUMNS_PER_BLOCK \<and>
    list_all (\<lambda>c. \<not> column_can_store_in_const c) (b_columns b) \<and>
    list_all (\<lambda>f. length (field_value f) \<le> MAX_CONST_COLUMN_VALUE_SIZE) (b_const_columns b)"

lemma column_of_rows_const:
  "rows \<noteq> [] \<Longrightarrow> column_can_store_in_const \<lparr>col_name = n, col_values = map (\<lambda>row. field_value (row ! i)) rows\<rparr> =
    can_store_in_const_column rows i"
  by (cases rows) (auto simp: column_can_store_in_const_def can_store_in_const_column_def list_all_iff Let_def)

lemma can_store_in_const_len:
  "rows \<noteq> [] \<Longrightarrow> can_store_in_const_column rows i \<Longrightarrow> length (field_value (rows ! 0 ! i)) \<le> MAX_CONST_COLUMN_VALUE_SIZE"
  by (cases rows) (auto simp: can_store_in_const_column_def Let_def)

lemma fast_block:
  assumes "rows \<noteq> []" "list_all row_wf rows" "length ts = length rows" "are_same_fields_in_rows rows"
  shows "block_of_rows \<lparr>b_timestamps = ts, b_columns = fast_columns rows (rows ! 0) [0..<length (rows ! 0)],
      b_const_columns = fast_const rows (rows ! 0) [0..<length (rows ! 0)]\<rparr> ts rows"
proof -
  let ?f = "rows ! 0" and ?c = "can_store_in_const_column rows"
  have wf: "row_wf r" if "r \<in> set rows" for r using assms(2) that by (simp add: list_all_iff)
  have f: "row_wf ?f" using wf assms(1) by (simp add: hd_conv_nth [symmetric])
  have sh: "same_shape rows" using assms(4) by (rule are_same_fields_shape)
  have nm: "mset (map field_name (fast_const rows ?f [0..<length ?f]) @ map col_name (fast_columns rows ?f [0..<length ?f])) = mset (map field_name ?f)"
  proof -
    have "mset (map field_name (fast_const rows ?f is)) + mset (map col_name (fast_columns rows ?f is)) = mset (map (\<lambda>i. field_name (?f ! i)) is)" for "is"
      by (induction "is") (auto simp: fast_const_def fast_columns_def)
    moreover have "map (\<lambda>i. field_name (?f ! i)) [0..<length ?f] = map field_name ?f" by (intro nth_equalityI) auto
    ultimately show ?thesis by (metis mset_append)
  qed
  have r: "represents \<lparr>b_timestamps = ts, b_columns = fast_columns rows ?f [0..<length ?f], b_const_columns = fast_const rows ?f [0..<length ?f]\<rparr>
    (cell_of rows) (length rows)"
    using fast_represents [OF sh assms(1)] wf by (simp add: row_wf_def cell_of_def [abs_def])
  have "distinct (map field_name (fast_const rows ?f [0..<length ?f]) @ map col_name (fast_columns rows ?f [0..<length ?f]))"
    using nm f by (metis mset_eq_imp_distinct_iff row_wf_def)
  moreover have "field_name ` set r \<subseteq> set (map field_name (fast_const rows ?f [0..<length ?f]) @ map col_name (fast_columns rows ?f [0..<length ?f]))"
    if "r \<in> set rows" for r
    using sh that mset_eq_setD [OF nm] unfolding same_shape_def by (metis order_refl set_map)
  moreover have "length (fast_columns rows ?f [0..<length ?f]) + length (fast_const rows ?f [0..<length ?f]) \<le> MAX_COLUMNS_PER_BLOCK"
    using mset_eq_length [OF nm] f by (simp add: row_wf_def)
  moreover have "list_all (\<lambda>c. \<not> column_can_store_in_const c) (fast_columns rows ?f is)"
      "list_all (\<lambda>f. length (field_value f) \<le> MAX_CONST_COLUMN_VALUE_SIZE) (fast_const rows ?f is)" for "is"
  proof -
    show "list_all (\<lambda>f. length (field_value f) \<le> MAX_CONST_COLUMN_VALUE_SIZE) (fast_const rows ?f is)"
      using can_store_in_const_len [OF assms(1)] by (auto simp: fast_const_def list_all_iff)
    show "list_all (\<lambda>c. \<not> column_can_store_in_const c) (fast_columns rows ?f is)"
      using assms(1) by (auto simp: fast_columns_def list_all_iff column_of_rows_const)
  qed
  ultimately show ?thesis using r assms(3) by (auto simp: block_of_rows_def block_names_def)
qed

lemma slow_block:
  assumes "rows \<noteq> []" "list_all row_wf rows" "length ts = length rows"
    and "index_columns [] rows = (names, m)" "detect_const (length names) (length names) (cells names m (cell_of rows)) [] = (n, cs, ccs)"
  shows "block_of_rows \<lparr>b_timestamps = take m ts, b_columns = take n cs, b_const_columns = ccs\<rparr> (take m ts) (take m rows)"
proof -
  have i: "distinct names" "length names \<le> MAX_COLUMNS_PER_BLOCK" "m \<le> length rows" "set names = (\<Union>r \<in> set (take m rows). field_name ` set r)"
    using index_columns_props [OF assms(4)] by auto
  have m: "0 < m"
    using index_columns_progress [of "hd rows" "tl rows"] assms(1,2,4) by (cases rows) (auto simp: row_wf_def)
  have in_names: "x \<in> set names" if "k < m" "cell_of rows x k \<noteq> []" for x k
  proof -
    have "rows ! k \<in> set (take m rows)" using that(1) i(3) by (auto simp: in_set_conv_nth intro!: exI [of _ k])
    then show ?thesis using get_field_value_in [OF that(2) [unfolded cell_of_def]] i(4) by auto
  qed
  have r: "represents \<lparr>b_timestamps = take m ts, b_columns = take n cs, b_const_columns = ccs\<rparr> (cell_of rows) m"
    using slow_represents(1) [OF assms(5) m] in_names by blast
  have mm: "mset (map field_name ccs @ map col_name (take n cs)) = mset names"
    using slow_represents(3) [OF assms(5) m] in_names by (simp add: union_commute)
  have "distinct (map field_name ccs @ map col_name (take n cs))" using mm i(1) by (metis mset_eq_imp_distinct_iff)
  moreover have "length (take n cs) + length ccs \<le> MAX_COLUMNS_PER_BLOCK" using mset_eq_length [OF mm] i(2) by simp
  moreover have "set (map field_name ccs @ map col_name (take n cs)) = (\<Union>r \<in> set (take m rows). field_name ` set r)"
    using mset_eq_setD [OF mm] i(4) by simp
  moreover have "represents \<lparr>b_timestamps = take m ts, b_columns = take n cs, b_const_columns = ccs\<rparr> (cell_of (take m rows)) (length (take m rows))"
    using r i(3) by (simp add: represents_def cell_of_def)
  moreover have "list_all (\<lambda>c. \<not> column_can_store_in_const c) (take n cs)" "list_all (\<lambda>f. length (field_value f) \<le> MAX_CONST_COLUMN_VALUE_SIZE) ccs"
    using slow_represents(4,5) [OF assms(5) m] in_names by blast+
  ultimately show ?thesis using assms(3) i(3) by (simp add: block_of_rows_def block_names_def) blast
qed

lemma init_internal_block:
  assumes "rows \<noteq> []" "list_all row_wf rows" "length ts = length rows"
  shows "\<exists>b. must_init_from_rows_internal ts rows \<lparr>b_timestamps = [], b_columns = [], b_const_columns = []\<rparr> = Ok b \<and>
    block_of_rows b (take (rows_taken rows) ts) (take (rows_taken rows) rows)"
proof (cases "are_same_fields_in_rows rows")
  case True
  then show ?thesis using assms fast_block [OF assms True]
    by (auto simp: must_init_from_rows_internal_def fast_fold rows_taken_def)
next
  case False
  obtain names m where i: "index_columns [] rows = (names, m)" by fastforce
  obtain n cs ccs where d: "detect_const (length names) (length names) (cells names m (cell_of rows)) [] = (n, cs, ccs)"
    by (metis prod_cases3)
  have p: "distinct names" "m \<le> length rows" "set names = (\<Union>r \<in> set (take m rows). field_name ` set r)"
    using index_columns_props [OF i] by auto
  have m: "0 < m"
    using index_columns_progress [of "hd rows" "tl rows"] assms(1,2) i by (cases rows) (auto simp: row_wf_def)
  have w: "write_rows names 0 (take m rows) (map (\<lambda>n. \<lparr>col_name = n, col_values = replicate m []\<rparr>) names) = cells names m (cell_of rows)"
  proof -
    have "write_rows names 0 (take m rows) (map (\<lambda>n. \<lparr>col_name = n, col_values = replicate (length (take m rows)) []\<rparr>) names) =
      cells names (length (take m rows)) (\<lambda>n k. get_field_value_by_name (take m rows ! k) n)"
      by (rule write_all_rows) (use p assms(2) in \<open>auto simp: list_all_iff row_wf_def dest: in_set_takeD\<close>)
    also have "\<dots> = cells names m (cell_of rows)" using p(2) by (auto simp: cell_of_def intro!: cells_cong)
    finally show ?thesis using p(2) by simp
  qed
  have lc: "length (cells names m (cell_of rows)) = length names" by (simp add: cells_def)
  have "must_init_from_rows_internal ts rows \<lparr>b_timestamps = [], b_columns = [], b_const_columns = []\<rparr> =
    Ok \<lparr>b_timestamps = take m ts, b_columns = take n cs, b_const_columns = ccs\<rparr>"
    using assms False i d m w p(2) lc by (simp add: must_init_from_rows_internal_def Let_def min_absorb2)
  then show ?thesis using slow_block [OF assms i d] False i by (simp add: rows_taken_def)
qed

lemma sort_columns_block:
  assumes "block_of_rows b ts rows"
  shows "\<exists>b'. sort_columns_by_name b = Ok b' \<and> block_of_rows b' ts rows \<and>
    sorted (map col_name (b_columns b')) \<and> sorted (map field_name (b_const_columns b'))"
proof -
  let ?b = "b\<lparr>b_columns := sort_key col_name (b_columns b), b_const_columns := sort_key field_name (b_const_columns b)\<rparr>"
  have "mset (block_names ?b) = mset (block_names b)" by (simp add: block_names_def)
  then have "distinct (block_names ?b) = distinct (block_names b)" "set (block_names ?b) = set (block_names b)"
    by (metis mset_eq_imp_distinct_iff, metis mset_eq_setD)
  then have "block_of_rows ?b ts rows"
    using assms represents_cong [of ?b b] by (simp add: block_of_rows_def list_all_iff)
  then show ?thesis using assms by (simp add: sort_columns_by_name_def block_of_rows_def)
qed

lemma must_init_block:
  assumes "rows \<noteq> []" "list_all row_wf rows" "length ts = length rows" "timestamps_sorted ts"
  shows "\<exists>b'. must_init_from_rows ts rows b = Ok b' \<and> block_of_rows b' (take (rows_taken rows) ts) (take (rows_taken rows) rows) \<and>
    sorted (map col_name (b_columns b')) \<and> sorted (map field_name (b_const_columns b'))"
proof -
  obtain b1 where b1: "must_init_from_rows_internal ts rows \<lparr>b_timestamps = [], b_columns = [], b_const_columns = []\<rparr> = Ok b1"
      "block_of_rows b1 (take (rows_taken rows) ts) (take (rows_taken rows) rows)"
    using init_internal_block [OF assms(1-3)] by blast
  show ?thesis using sort_columns_block [OF b1(2)] b1(1) assms(4)
    by (simp add: must_init_from_rows_def block_reset_eq assert_timestamps_sorted_def Let_def)
qed

lemma rows_taken_all:
  assumes "list_all (\<lambda>r. card (\<Union>r \<in> set rows. field_name ` set r) + length r \<le> MAX_COLUMNS_PER_BLOCK) rows"
  shows "rows_taken rows = length rows"
  using index_columns_all [of "\<Union>r \<in> set rows. field_name ` set r" "[]" rows] assms
  by (simp add: rows_taken_def list_all_iff)

lemma rows_taken_pos:
  "list_all row_wf rows \<Longrightarrow> rows \<noteq> [] \<Longrightarrow> 0 < rows_taken rows \<and> rows_taken rows \<le> length rows"
  using index_columns_progress [of "hd rows" "tl rows"] index_columns_props [of "[]" rows]
  by (cases rows; cases "index_columns [] rows") (auto simp: rows_taken_def row_wf_def)

lemma block_of_rows_valid:
  "block_of_rows b ts rows \<Longrightarrow> timestamps_sorted ts \<Longrightarrow> assert_valid b = Ok ()"
  by (auto simp: block_of_rows_def assert_valid_def represents_def list_all_iff)

lemma block_of_rows_back:
  assumes "block_of_rows b ts rows" "k < length rows"
  shows "get_field_value_by_name (rs_rows (append_rows_to b \<lparr>rs_timestamps = [], rs_rows = []\<rparr>) ! k) n = get_field_value_by_name (rows ! k) n"
  using assms represents_row [of b "cell_of rows" "length rows" k n]
  by (simp add: block_of_rows_def append_rows_to_def append_rows_def cell_of_def)

lemma must_init_of_rows:
  assumes "rows \<noteq> []" "list_all row_wf rows" "must_init_from_rows ts rows b = Ok b'"
  shows "block_of_rows b' (take (rows_taken rows) ts) (take (rows_taken rows) rows) \<and>
    sorted (map col_name (b_columns b')) \<and> sorted (map field_name (b_const_columns b'))"
proof -
  have pre: "length ts = length rows" "timestamps_sorted ts"
    using assms(3) by (auto simp: must_init_from_rows_def must_init_from_rows_internal_def assert_timestamps_sorted_def Let_def split: if_splits)
  show ?thesis using must_init_block [OF assms(1,2) pre, of b] assms(3) by auto
qed

text \<open>C6: building a block from sorted rows, where no row has two fields of the same name or more than 2000
  fields, returns a valid block, and reading the block back gives rows with the same timestamps and, for
  every field name, the same value as the rows put in. At least one row is taken; all rows are taken when
  the names of all rows and one more row together do not exceed the column limit. (With a name twice in a
  row the block keeps the last or the first value, depending on the path taken.)\<close>

theorem block_keeps_rows:
  assumes "rows \<noteq> []" "list_all row_wf rows" "length ts = length rows" "timestamps_sorted ts"
  shows "\<exists>b' m. must_init_from_rows ts rows b = Ok b' \<and> assert_valid b' = Ok () \<and> 0 < m \<and> m \<le> length rows \<and>
    (list_all (\<lambda>r. card (\<Union>r \<in> set rows. field_name ` set r) + length r \<le> MAX_COLUMNS_PER_BLOCK) rows \<longrightarrow> m = length rows) \<and>
    (let rs = append_rows_to b' \<lparr>rs_timestamps = [], rs_rows = []\<rparr>
     in rs_timestamps rs = take m ts \<and> length (rs_rows rs) = m \<and>
        (\<forall>k < m. \<forall>n. get_field_value_by_name (rs_rows rs ! k) n = get_field_value_by_name (rows ! k) n))"
proof -
  let ?m = "rows_taken rows"
  obtain b' where b': "must_init_from_rows ts rows b = Ok b'" "block_of_rows b' (take ?m ts) (take ?m rows)"
    using must_init_block [OF assms, of b] by blast
  have m: "0 < ?m" "?m \<le> length rows" using rows_taken_pos [OF assms(2,1)] by auto
  have "assert_valid b' = Ok ()"
    using block_of_rows_valid [OF b'(2)] assms(4) by (simp add: timestamps_sorted_iff sorted_wrt_take)
  moreover have "rs_timestamps (append_rows_to b' \<lparr>rs_timestamps = [], rs_rows = []\<rparr>) = take ?m ts \<and>
    length (rs_rows (append_rows_to b' \<lparr>rs_timestamps = [], rs_rows = []\<rparr>)) = ?m"
    using b'(2) m assms(3) by (simp add: block_of_rows_def append_rows_to_def append_rows_def)
  moreover have "get_field_value_by_name (rs_rows (append_rows_to b' \<lparr>rs_timestamps = [], rs_rows = []\<rparr>) ! k) n = get_field_value_by_name (rows ! k) n"
    if "k < ?m" for k n
    using block_of_rows_back [OF b'(2), of k n] that m by simp
  ultimately show ?thesis using b'(1) m rows_taken_all [of rows] unfolding Let_def by blast
qed

theorem block_keeps_rows_witness:
  "\<exists>b'. must_init_from_rows [1, 2] [[Field [97] [120]], [Field [98] [121], Field [97] [120]]] \<lparr>b_timestamps = [], b_columns = [], b_const_columns = []\<rparr> = Ok b' \<and>
    get_field_value_by_name (rs_rows (append_rows_to b' \<lparr>rs_timestamps = [], rs_rows = []\<rparr>) ! 0) [97] = [120]"
proof -
  have "list_all row_wf [[Field [97] [120]], [Field [98] [121], Field [97] [120]]]" "timestamps_sorted [1, 2]"
    by code_simp+
  then show ?thesis
    using block_keeps_rows [of "[[Field [97] [120]], [Field [98] [121], Field [97] [120]]]" "[1, 2]" "\<lparr>b_timestamps = [], b_columns = [], b_const_columns = []\<rparr>"]
    by (fastforce simp: Let_def)
qed

text \<open>C26: in a block built from rows of which none has two fields of the same name or more than 2000 fields,
  a field is stored as a constant column exactly when all rows of the block have the same value for
  it and the value fits the limit for constant columns; no field has two columns, and both groups of
  columns are sorted by name.\<close>

theorem constant_columns_exact:
  assumes "rows \<noteq> []" "list_all row_wf rows" "must_init_from_rows ts rows b = Ok b'"
  defines "m \<equiv> length (b_timestamps b')"
  shows "distinct (block_names b') \<and> sorted (map col_name (b_columns b')) \<and> sorted (map field_name (b_const_columns b')) \<and>
    (\<forall>n \<in> set (block_names b'). n \<in> field_name ` set (b_const_columns b') \<longleftrightarrow>
       (\<forall>k < m. cell_of rows n k = cell_of rows n 0) \<and> length (cell_of rows n 0) \<le> MAX_CONST_COLUMN_VALUE_SIZE)"
proof -
  let ?m = "rows_taken rows"
  have b': "block_of_rows b' (take ?m ts) (take ?m rows)" "sorted (map col_name (b_columns b'))" "sorted (map field_name (b_const_columns b'))"
    using must_init_of_rows [OF assms(1-3)] by auto
  have m: "0 < ?m" "?m \<le> length rows" "m = ?m"
    using rows_taken_pos [OF assms(2,1)] b'(1) by (auto simp: block_of_rows_def m_def)
  have d: "distinct (block_names b')" using b'(1) by (simp add: block_of_rows_def)
  have cell: "cell_of (take ?m rows) n k = cell_of rows n k" if "k < m" for n k using that m(3) by (simp add: cell_of_def)
  have len: "length (take ?m rows) = m" using m by simp
  have r: "represents b' (cell_of rows) m"
    using b'(1) len cell unfolding block_of_rows_def represents_def by (metis (no_types, lifting))
  have c: "(\<forall>k < m. cell_of rows n k = cell_of rows n 0) \<and> length (cell_of rows n 0) \<le> MAX_CONST_COLUMN_VALUE_SIZE"
    if "n \<in> field_name ` set (b_const_columns b')" for n
  proof -
    obtain f where f: "f \<in> set (b_const_columns b')" "n = field_name f" using \<open>n \<in> _\<close> by blast
    then have "field_value f = cell_of rows n k" if "k < m" for k using r that by (simp add: represents_def)
    moreover have "length (field_value f) \<le> MAX_CONST_COLUMN_VALUE_SIZE" using f b'(1) by (simp add: block_of_rows_def list_all_iff)
    ultimately show ?thesis using m(1,3) by metis
  qed
  have nc: "\<not> ((\<forall>k < m. cell_of rows n k = cell_of rows n 0) \<and> length (cell_of rows n 0) \<le> MAX_CONST_COLUMN_VALUE_SIZE)"
    if n: "n \<in> set (block_names b')" "n \<notin> field_name ` set (b_const_columns b')" for n
  proof -
    obtain x where x: "x \<in> set (b_columns b')" "col_name x = n" using n by (auto simp: block_names_def)
    then have v: "length (col_values x) = m" "\<And>k. k < m \<Longrightarrow> col_values x ! k = cell_of rows n k" using r by (auto simp: represents_def)
    have "\<not> column_can_store_in_const x" using x b'(1) by (simp add: block_of_rows_def list_all_iff)
    then have "length (col_values x ! 0) > MAX_CONST_COLUMN_VALUE_SIZE \<or> (\<exists>u \<in> set (col_values x). u \<noteq> col_values x ! 0)"
      unfolding column_const_iff by (meson not_le)
    then obtain y where "length (col_values x ! 0) > MAX_CONST_COLUMN_VALUE_SIZE \<or> y < m \<and> col_values x ! y \<noteq> col_values x ! 0"
      using v(1) by (metis in_set_conv_nth)
    then show ?thesis using v(2) [of y] v(2) [of 0] m(1,3) by (metis not_le)
  qed
  show ?thesis using d b'(2,3) c nc by blast
qed

theorem constant_columns_exact_witness:
  "\<exists>b'. must_init_from_rows [1, 2] [[Field [97] [120], Field [98] [121]], [Field [98] [122], Field [97] [120]]] \<lparr>b_timestamps = [], b_columns = [], b_const_columns = []\<rparr> = Ok b' \<and>
    (\<forall>n \<in> set (block_names b'). n \<in> field_name ` set (b_const_columns b') \<longleftrightarrow>
       (\<forall>k < length (b_timestamps b'). cell_of [[Field [97] [120], Field [98] [121]], [Field [98] [122], Field [97] [120]]] n k =
          cell_of [[Field [97] [120], Field [98] [121]], [Field [98] [122], Field [97] [120]]] n 0) \<and>
       length (cell_of [[Field [97] [120], Field [98] [121]], [Field [98] [122], Field [97] [120]]] n 0) \<le> MAX_CONST_COLUMN_VALUE_SIZE)"
proof -
  have "list_all row_wf [[Field [97] [120], Field [98] [121]], [Field [98] [122], Field [97] [120]]]" by code_simp
  moreover have "must_init_from_rows [1, 2] [[Field [97] [120], Field [98] [121]], [Field [98] [122], Field [97] [120]]] \<lparr>b_timestamps = [], b_columns = [], b_const_columns = []\<rparr> =
    Ok \<lparr>b_timestamps = [1, 2], b_columns = [\<lparr>col_name = [98], col_values = [[121], [122]]\<rparr>], b_const_columns = [Field [97] [120]]\<rparr>"
    by code_simp
  ultimately show ?thesis
    using constant_columns_exact [of "[[Field [97] [120], Field [98] [121]], [Field [98] [122], Field [97] [120]]]" "[1, 2]"] by blast
qed

subsection \<open>Size estimates\<close>

definition json_field_len :: "bytes \<Rightarrow> bytes \<Rightarrow> nat" where
  "json_field_len n v = (if v = [] then 0 else estimated_json_field_len (get_canonical_column_name_bytes n) v)"

definition json_row_overhead :: nat where
  "json_row_overhead = 3 + 10 + TIME_RFC3339_NANO_LEN"

text \<open>The length of a row, counted over any list of names that has the names of the row.\<close>

lemma row_len_by_names:
  assumes "distinct (map field_name r)" "distinct names" "field_name ` set r \<subseteq> set names"
  shows "estimated_json_row_len r = json_row_overhead + (\<Sum>n\<leftarrow>names. json_field_len n (get_field_value_by_name r n))"
proof -
  have "(\<Sum>n\<leftarrow>names. json_field_len n (get_field_value_by_name r n)) = (\<Sum>n \<in> set names. json_field_len n (get_field_value_by_name r n))"
    using assms(2) by (simp add: sum_list_distinct_conv_sum_set)
  also have "\<dots> = (\<Sum>n \<in> set (map field_name r). json_field_len n (get_field_value_by_name r n))"
    using assms(3) get_field_value_in [of r] by (intro sum.mono_neutral_right) (auto simp: json_field_len_def)
  also have "\<dots> = (\<Sum>n\<leftarrow>map field_name r. json_field_len n (get_field_value_by_name r n))"
    using assms(1) by (simp only: sum_list_distinct_conv_sum_set)
  also have "\<dots> = (\<Sum>f\<leftarrow>r. json_field_len (field_name f) (field_value f))"
    using get_field_value_nth [OF assms(1)] by (auto simp: in_set_conv_nth comp_def intro!: arg_cong [where f = sum_list])
  finally show ?thesis by (simp add: estimated_json_row_len_def json_field_len_def json_row_overhead_def)
qed

lemma sum_list_swap: "(\<Sum>x\<leftarrow>xs. \<Sum>y\<leftarrow>ys. f x y) = (\<Sum>y\<leftarrow>ys. \<Sum>x\<leftarrow>xs. f x y :: nat)"
  by (induction xs) (simp_all add: sum_list_addf)

text \<open>The constant columns with an empty value, which the block counts and the rows do not.\<close>

definition empty_consts_len :: "Block \<Rightarrow> nat" where
  "empty_consts_len b = (\<Sum>f\<leftarrow>b_const_columns b. if field_value f = [] then 6 + length (get_canonical_column_name_bytes (field_name f)) else 0)"

lemma block_len_by_names:
  assumes "represents b val R" "length (b_timestamps b) = R" "0 < R"
  shows "uncompressed_size_bytes b =
    json_row_overhead * R + (\<Sum>k\<leftarrow>[0..<R]. \<Sum>n\<leftarrow>block_names b. json_field_len n (val n k)) + R * empty_consts_len b"
proof -
  have c: "(\<Sum>k\<leftarrow>[0..<R]. json_field_len (field_name f) (val (field_name f) k)) + R * (if field_value f = [] then 6 + length (get_canonical_column_name_bytes (field_name f)) else 0) =
      estimated_json_field_len (get_canonical_column_name_bytes (field_name f)) (field_value f) * R" if "f \<in> set (b_const_columns b)" for f
  proof -
    have "map (\<lambda>k. json_field_len (field_name f) (val (field_name f) k)) [0..<R] = replicate R (json_field_len (field_name f) (field_value f))"
      using assms(1) that by (intro nth_equalityI) (auto simp: represents_def)
    then show ?thesis by (simp add: sum_list_replicate json_field_len_def estimated_json_field_len_def)
  qed
  have v: "(\<Sum>v\<leftarrow>col_values x. json_field_len (col_name x) v) = (\<Sum>k\<leftarrow>[0..<R]. json_field_len (col_name x) (val (col_name x) k))"
    if "x \<in> set (b_columns b)" for x
  proof -
    have "col_values x = map (val (col_name x)) [0..<R]"
      using assms(1) that by (intro nth_equalityI) (auto simp: represents_def)
    then show ?thesis by (simp add: comp_def)
  qed
  have "(\<Sum>f\<leftarrow>b_const_columns b. estimated_json_field_len (get_canonical_column_name_bytes (field_name f)) (field_value f) * R) =
      (\<Sum>f\<leftarrow>b_const_columns b. \<Sum>k\<leftarrow>[0..<R]. json_field_len (field_name f) (val (field_name f) k)) + R * empty_consts_len b"
    using c unfolding empty_consts_len_def by (simp add: sum_list_const_mult [symmetric] sum_list_addf [symmetric] cong: map_cong)
  moreover have "(\<Sum>x\<leftarrow>b_columns b. \<Sum>v\<leftarrow>col_values x. json_field_len (col_name x) v) =
      (\<Sum>x\<leftarrow>b_columns b. \<Sum>k\<leftarrow>[0..<R]. json_field_len (col_name x) (val (col_name x) k))"
    using v by (simp cong: map_cong)
  moreover have "(\<Sum>k\<leftarrow>[0..<R]. \<Sum>n\<leftarrow>block_names b. json_field_len n (val n k)) =
      (\<Sum>f\<leftarrow>b_const_columns b. \<Sum>k\<leftarrow>[0..<R]. json_field_len (field_name f) (val (field_name f) k)) +
      (\<Sum>x\<leftarrow>b_columns b. \<Sum>k\<leftarrow>[0..<R]. json_field_len (col_name x) (val (col_name x) k))"
    by (subst sum_list_swap) (simp add: block_names_def comp_def)
  ultimately show ?thesis
    using assms(2,3) by (simp add: uncompressed_size_bytes_def Let_def json_row_overhead_def json_field_len_def [abs_def])
qed

text \<open>C35: for a block built from rows of which none has two fields of the same name or more than 2000 fields,
  the size the block reports is the size of the rows stored in it plus, for every constant column whose
  value is empty, the length of its name and quotes once per row.\<close>

theorem block_size_vs_rows_size:
  assumes "rows \<noteq> []" "list_all row_wf rows" "must_init_from_rows ts rows b = Ok b'"
  defines "m \<equiv> length (b_timestamps b')"
  shows "uncompressed_size_bytes b' = uncompressed_rows_size_bytes (take m rows) + m * empty_consts_len b'"
proof -
  let ?m = "rows_taken rows"
  have b': "block_of_rows b' (take ?m ts) (take ?m rows)" using must_init_of_rows [OF assms(1-3)] by simp
  have m: "0 < ?m" "?m \<le> length rows" "m = ?m"
    using rows_taken_pos [OF assms(2,1)] b' by (auto simp: block_of_rows_def m_def)
  let ?val = "cell_of (take m rows)"
  have row: "estimated_json_row_len (rows ! k) = json_row_overhead + (\<Sum>n\<leftarrow>block_names b'. json_field_len n (?val n k))" if "k < m" for k
  proof -
    have "rows ! k \<in> set (take m rows)" using that m by (auto simp: in_set_conv_nth intro!: exI [of _ k])
    then show ?thesis using row_len_by_names [of "rows ! k" "block_names b'"] assms(2) b' m(3) that
      by (auto simp: block_of_rows_def list_all_iff row_wf_def cell_of_def dest: in_set_takeD)
  qed
  have "uncompressed_rows_size_bytes (take m rows) = (\<Sum>k\<leftarrow>[0..<m]. estimated_json_row_len (rows ! k))"
    unfolding uncompressed_rows_size_bytes_def using m by (intro arg_cong [where f = sum_list] nth_equalityI) auto
  also have "\<dots> = (\<Sum>k\<leftarrow>[0..<m]. json_row_overhead + (\<Sum>n\<leftarrow>block_names b'. json_field_len n (?val n k)))"
    using row by (intro arg_cong [where f = sum_list] map_cong) auto
  also have "\<dots> = json_row_overhead * m + (\<Sum>k\<leftarrow>[0..<m]. \<Sum>n\<leftarrow>block_names b'. json_field_len n (?val n k))"
    by (simp add: sum_list_addf sum_list_triv)
  finally have rl: "uncompressed_rows_size_bytes (take m rows) = json_row_overhead * m + (\<Sum>k\<leftarrow>[0..<m]. \<Sum>n\<leftarrow>block_names b'. json_field_len n (?val n k))" .
  have "represents b' ?val m" using b' m by (simp add: block_of_rows_def)
  moreover have "length (b_timestamps b') = m" "0 < m" using m by (simp_all add: m_def)
  ultimately have
    "uncompressed_size_bytes b' = json_row_overhead * m + (\<Sum>k\<leftarrow>[0..<m]. \<Sum>n\<leftarrow>block_names b'. json_field_len n (?val n k)) + m * empty_consts_len b'"
    by (rule block_len_by_names)
  then show ?thesis using rl by linarith
qed

theorem block_size_vs_rows_size_witness:
  "uncompressed_size_bytes \<lparr>b_timestamps = [1, 2], b_columns = [\<lparr>col_name = [98], col_values = [[121], [122]]\<rparr>], b_const_columns = [Field [97] []]\<rparr> =
    uncompressed_rows_size_bytes [[Field [97] [], Field [98] [121]], [Field [98] [122], Field [97] []]] + 14"
proof -
  have "list_all row_wf [[Field [97] [], Field [98] [121]], [Field [98] [122], Field [97] []]]" by code_simp
  moreover have "must_init_from_rows [1, 2] [[Field [97] [], Field [98] [121]], [Field [98] [122], Field [97] []]] \<lparr>b_timestamps = [], b_columns = [], b_const_columns = []\<rparr> =
    Ok \<lparr>b_timestamps = [1, 2], b_columns = [\<lparr>col_name = [98], col_values = [[121], [122]]\<rparr>], b_const_columns = [Field [97] []]\<rparr>"
    by code_simp
  ultimately show ?thesis
    using block_size_vs_rows_size [of "[[Field [97] [], Field [98] [121]], [Field [98] [122], Field [97] []]]" "[1, 2]"]
    by (fastforce simp: empty_consts_len_def get_canonical_column_name_bytes_def)
qed

subsection \<open>Stored fields\<close>

definition take_field :: "bytes \<Rightarrow> (Field \<times> bytes) option" where
  "take_field src = (case field_unmarshal_inplace (Field [] []) src True of Ok r \<Rightarrow> Some r | _ \<Rightarrow> None)"

definition field_small :: "Field \<Rightarrow> bool" where
  "field_small f \<longleftrightarrow> length (field_name f) < 2 ^ 64 \<and> length (field_value f) < 2 ^ 64"

lemma field_marshal_append: "field_marshal dst f b = dst @ field_marshal [] f b"
  by (simp add: field_marshal_def Let_def marshal_bytes_append [of dst] marshal_bytes_append [of "dst @ _"]
      marshal_bytes_append [of "marshal_bytes _ _"])

lemma field_unmarshal_value:
  "field_small f \<Longrightarrow> field_unmarshal_inplace f0 (field_marshal [] f False @ rest) False = Ok (Field (field_name f0) (field_value f), rest)"
  by (simp add: field_unmarshal_inplace_def field_marshal_def field_small_def codec_simps marshal_bytes_nonempty)

lemma field_unmarshal_marshal:
  assumes "field_small f"
  shows "field_unmarshal_inplace f0 (field_marshal [] f True @ rest) True = Ok (f, rest)"
proof -
  have "field_marshal [] f True = marshal_bytes [] (field_name f) @ marshal_bytes [] (field_value f)"
    by (simp add: field_marshal_def marshal_bytes_append [of "marshal_bytes _ _"])
  then show ?thesis using assms
    by (simp add: field_unmarshal_inplace_def field_small_def codec_simps marshal_bytes_nonempty)
qed

interpretation field_codec: codec "\<lambda>f. field_marshal [] f True" take_field field_small
  by unfold_locales (simp add: take_field_def field_unmarshal_marshal)
end
