(* ===== verification/Block_Headers.thy ===== *)
theory Block_Headers
  imports Blocks Values_Encoder Block_Encoding
begin

text \<open>
  The headers of a part: \<^verbatim>\<open>block_header.rs\<close>, \<^verbatim>\<open>column_names.rs\<close> and the index block headers of
  \<^verbatim>\<open>block_stream_reader.rs\<close>. A block header locates the timestamps and the columns header of a block; a
  columns header describes its columns and holds its constant columns; column names are stored once
  per part and headers refer to them by number. The lemmas show that every header is read back as it
  was written, that the offsets kept for single columns point at their headers, and that column
  numbers stay valid while more names are added.

  Headers are reset before they are read, so reading is a function of the bytes. An error of the code
  is a formatted message; here it is a constructor of \<open>header_error\<close>. A hash map is a partial function
  where only its lookups matter and an association list where the code iterates over it.
\<close>

unbundle bit_operations_syntax

subsection \<open>Definitions: limits and errors\<close>

definition MAX_ROWS_PER_BLOCK :: nat where "MAX_ROWS_PER_BLOCK = 8 * 1024 * 1024"
definition MAX_COLUMNS_HEADER_SIZE :: nat where "MAX_COLUMNS_HEADER_SIZE = 8 * 1024 * 1024"
definition MAX_COLUMNS_HEADER_INDEX_SIZE :: nat where "MAX_COLUMNS_HEADER_INDEX_SIZE = 8 * 1024 * 1024"
definition MAX_VALUES_BLOCK_SIZE :: nat where "MAX_VALUES_BLOCK_SIZE = 8 * 1024 * 1024"
definition MAX_BLOOM_FILTER_BLOCK_SIZE :: nat where "MAX_BLOOM_FILTER_BLOCK_SIZE = 8 * 1024 * 1024"
definition PART_FORMAT_LATEST_VERSION :: nat where "PART_FORMAT_LATEST_VERSION = 3"

datatype header_error =
    HdrStreamID id_error | UncompressedSize | RowsCount | RowsCountTooBig u64
  | ShortTimestampsHeader nat
  | IndexOffset | IndexSize | HeaderOffset | HeaderSize | HeaderSizeTooBig u64
  | SmallerStreamID nat | SmallerTimestamp nat
  | RefsCount | RefNameID u64 u64 | RefOffset u64 u64 | RefsTail nat
  | ColumnName | ValueTypeMissing | ShortMinMax ValueType nat | BadValueType u8 | HdrDict values_error
  | ValuesOffset | ValuesSize | ValuesSizeTooBig u64
  | BloomOffset | BloomSize | BloomSizeTooBig u64
  | ColumnHeadersLen | TooManyColumnHeaders u64 | ConstColumnsLen | TooManyConstColumns u64
  | ConstColumn field_error | TooManyColumns nat | HeaderTail nat
  | HeadersNumber nat nat | NameID u64 nat | ConstsNumber nat nat
  | IdxCount | TooManyIdxs u64 | IdxColumnID u64 | IdxShard u64 | ShardTooBig u64 u64 | ColumnIDTooBig u64 nat | IdxTail nat
  | NamesDecompress | NamesCount | TooManyNames u64 | NameAt u64 u64 | DuplicateName bytes | NamesTail nat
  | ShortIndexHeader nat | IndexOrder nat

text \<open>The way the readers take one variable-length integer off the source.\<close>

definition read_var :: "header_error \<Rightarrow> bytes \<Rightarrow> (u64 \<times> bytes, header_error) outcome" where
  "read_var e src =
    (let (n, n_size) = unmarshal_var_uint64 src in
     if n_size \<le> 0 then Err e else Ok (n, drop (nat n_size) src))"

subsection \<open>Definitions: timestamps and block headers\<close>

record TimestampsHeader =
  th_block_offset :: u64
  th_block_size :: u64
  th_min_timestamp :: i64
  th_max_timestamp :: i64
  th_marshal_type :: MarshalType

definition th_default :: TimestampsHeader where
  "th_default = \<lparr>th_block_offset = 0, th_block_size = 0, th_min_timestamp = 0, th_max_timestamp = 0, th_marshal_type = 0\<rparr>"

definition sub_time_offset :: "i64 \<Rightarrow> TimestampsHeader \<Rightarrow> TimestampsHeader" where
  "sub_time_offset time_offset th =
    (if time_offset \<noteq> 0 then
       th\<lparr>th_min_timestamp := sub_int64_no_overflow (th_min_timestamp th) time_offset,
          th_max_timestamp := sub_int64_no_overflow (th_max_timestamp th) time_offset\<rparr>
     else th)"

definition th_marshal :: "bytes \<Rightarrow> TimestampsHeader \<Rightarrow> bytes" where
  "th_marshal dst th =
    (let dst = marshal_uint64 dst (th_block_offset th);
         dst = marshal_uint64 dst (th_block_size th);
         dst = marshal_uint64 dst (th_min_timestamp th);
         dst = marshal_uint64 dst (th_max_timestamp th)
     in dst @ [th_marshal_type th])"

definition th_unmarshal :: "bytes \<Rightarrow> (TimestampsHeader \<times> bytes, header_error) outcome" where
  "th_unmarshal src =
    (if length src < 33 then Err (ShortTimestampsHeader (length src))
     else
       obind (unmarshal_uint64 src) (\<lambda>block_offset.
       obind (unmarshal_uint64 (drop 8 src)) (\<lambda>block_size.
       obind (unmarshal_uint64 (drop 16 src)) (\<lambda>min_timestamp.
       obind (unmarshal_uint64 (drop 24 src)) (\<lambda>max_timestamp.
       Ok (\<lparr>th_block_offset = block_offset, th_block_size = block_size, th_min_timestamp = min_timestamp,
            th_max_timestamp = max_timestamp, th_marshal_type = src ! 32\<rparr>, drop 33 src))))))"

record BlockHeader =
  bh_stream_id :: StreamID
  bh_uncompressed_size_bytes :: u64
  bh_rows_count :: u64
  bh_timestamps_header :: TimestampsHeader
  bh_columns_header_index_offset :: u64
  bh_columns_header_index_size :: u64
  bh_columns_header_offset :: u64
  bh_columns_header_size :: u64

definition stream_id_zero :: StreamID where
  "stream_id_zero = StreamID (TenantID 0 0) (U128 0 0)"

definition bh_default :: BlockHeader where
  "bh_default = \<lparr>bh_stream_id = stream_id_zero, bh_uncompressed_size_bytes = 0, bh_rows_count = 0,
    bh_timestamps_header = th_default, bh_columns_header_index_offset = 0, bh_columns_header_index_size = 0,
    bh_columns_header_offset = 0, bh_columns_header_size = 0\<rparr>"

definition bh_marshal :: "bytes \<Rightarrow> BlockHeader \<Rightarrow> bytes" where
  "bh_marshal dst bh =
    (let dst = stream_id_marshal dst (bh_stream_id bh);
         dst = marshal_var_uint64 dst (bh_uncompressed_size_bytes bh);
         dst = marshal_var_uint64 dst (bh_rows_count bh);
         dst = th_marshal dst (bh_timestamps_header bh);
         dst = marshal_var_uint64 dst (bh_columns_header_index_offset bh);
         dst = marshal_var_uint64 dst (bh_columns_header_index_size bh);
         dst = marshal_var_uint64 dst (bh_columns_header_offset bh)
     in marshal_var_uint64 dst (bh_columns_header_size bh))"

definition bh_unmarshal :: "nat \<Rightarrow> bytes \<Rightarrow> (BlockHeader \<times> bytes, header_error) outcome" where
  "bh_unmarshal part_format_version src =
    obind (map_err HdrStreamID (stream_id_unmarshal src)) (\<lambda>(stream_id, src).
    obind (read_var UncompressedSize src) (\<lambda>(uncompressed_size, src).
    obind (read_var RowsCount src) (\<lambda>(rows_count, src).
    if rows_count > of_nat MAX_ROWS_PER_BLOCK then Err (RowsCountTooBig rows_count)
    else
    obind (th_unmarshal src) (\<lambda>(th, src).
    obind (if part_format_version \<ge> 1 then
             obind (read_var IndexOffset src) (\<lambda>(index_offset, src).
             obind (read_var IndexSize src) (\<lambda>(index_size, src). Ok (index_offset, index_size, src)))
           else Ok (0, 0, src)) (\<lambda>(index_offset, index_size, src).
    obind (read_var HeaderOffset src) (\<lambda>(header_offset, src).
    obind (read_var HeaderSize src) (\<lambda>(header_size, src).
    if header_size > of_nat MAX_COLUMNS_HEADER_SIZE then Err (HeaderSizeTooBig header_size)
    else Ok (\<lparr>bh_stream_id = stream_id, bh_uncompressed_size_bytes = uncompressed_size, bh_rows_count = rows_count,
      bh_timestamps_header = th, bh_columns_header_index_offset = index_offset, bh_columns_header_index_size = index_size,
      bh_columns_header_offset = header_offset, bh_columns_header_size = header_size\<rparr>, src))))))))"

text \<open>\<open>validate_block_headers\<close>: \<open>i\<close> is the position of the second header of the pair.\<close>

fun validate_block_headers :: "nat \<Rightarrow> BlockHeader list \<Rightarrow> (unit, header_error) outcome" where
  "validate_block_headers i (bh_prev # bh_curr # bhs) =
    (if stream_id_less (bh_stream_id bh_curr) (bh_stream_id bh_prev) then Err (SmallerStreamID i)
     else if \<not> stream_id_equal (bh_stream_id bh_curr) (bh_stream_id bh_prev) then validate_block_headers (Suc i) (bh_curr # bhs)
     else if th_min_timestamp (bh_timestamps_header bh_curr) <s th_min_timestamp (bh_timestamps_header bh_prev) then Err (SmallerTimestamp i)
     else validate_block_headers (Suc i) (bh_curr # bhs))"
| "validate_block_headers i bhs = Ok ()"

lemma read_var_tail: "read_var e src = Ok (n, tail) \<Longrightarrow> length tail < length src"
  using var_uint64.dec_shrinks [of src n tail]
  by (auto simp: read_var_def take_var_uint64_def split: if_splits prod.splits)

lemma bh_unmarshal_tail: "bh_unmarshal v src = Ok (bh, tail) \<Longrightarrow> length tail < length src"
proof -
  have th: "length t < length s" if "th_unmarshal s = Ok (h, t)" for s h t
    using that by (auto simp: th_unmarshal_def obind_Ok_iff split: if_splits)
  assume "bh_unmarshal v src = Ok (bh, tail)"
  then show ?thesis
    by (auto simp: bh_unmarshal_def obind_Ok_iff split: if_splits dest!: read_var_tail th stream_id_unmarshal_Ok)
qed

function read_block_headers :: "nat \<Rightarrow> bytes \<Rightarrow> (BlockHeader list, header_error) outcome" where
  "read_block_headers v src =
    (if src = [] then Ok []
     else case bh_unmarshal v src of
       Ok (bh, tail) \<Rightarrow> obind (read_block_headers v tail) (\<lambda>bhs. Ok (bh # bhs))
     | Err e \<Rightarrow> Err e
     | Panic \<Rightarrow> Panic)"
  by pat_completeness auto
termination
  by (relation "measure (\<lambda>(v, src). length src)") (auto dest: bh_unmarshal_tail)

declare read_block_headers.simps [simp del]

definition unmarshal_block_headers :: "BlockHeader list \<Rightarrow> bytes \<Rightarrow> nat \<Rightarrow> (BlockHeader list, header_error) outcome" where
  "unmarshal_block_headers dst src part_format_version =
    obind (read_block_headers part_format_version src) (\<lambda>bhs.
    obind (validate_block_headers 1 bhs) (\<lambda>_. Ok (dst @ bhs)))"

subsection \<open>Definitions: the columns header index\<close>

record ColumnHeaderRef =
  cr_column_name_id :: u64
  cr_offset :: u64

record ColumnsHeaderIndex =
  ci_column_headers_refs :: "ColumnHeaderRef list"
  ci_const_columns_refs :: "ColumnHeaderRef list"

definition marshal_column_headers_refs :: "bytes \<Rightarrow> ColumnHeaderRef list \<Rightarrow> bytes" where
  "marshal_column_headers_refs dst refs =
    foldl (\<lambda>dst r. marshal_var_uint64 (marshal_var_uint64 dst (cr_column_name_id r)) (cr_offset r))
      (marshal_var_uint64 dst (of_nat (length refs))) refs"

text \<open>The loop over the references; \<open>k\<close> of them are left.\<close>

primrec read_refs :: "u64 \<Rightarrow> nat \<Rightarrow> bytes \<Rightarrow> (ColumnHeaderRef list \<times> bytes, header_error) outcome" where
  "read_refs n 0 src = Ok ([], src)"
| "read_refs n (Suc k) src =
    obind (read_var (RefNameID (n - of_nat (Suc k)) n) src) (\<lambda>(column_name_id, src).
    obind (read_var (RefOffset (n - of_nat (Suc k)) n) src) (\<lambda>(offset, src).
    obind (read_refs n k src) (\<lambda>(refs, src).
    Ok (\<lparr>cr_column_name_id = column_name_id, cr_offset = offset\<rparr> # refs, src))))"

definition unmarshal_column_headers_refs_inplace :: "bytes \<Rightarrow> (ColumnHeaderRef list \<times> bytes, header_error) outcome" where
  "unmarshal_column_headers_refs_inplace src =
    obind (read_var RefsCount src) (\<lambda>(n, src). read_refs n (unat n) src)"

definition ci_marshal :: "bytes \<Rightarrow> ColumnsHeaderIndex \<Rightarrow> bytes" where
  "ci_marshal dst ci =
    marshal_column_headers_refs (marshal_column_headers_refs dst (ci_column_headers_refs ci)) (ci_const_columns_refs ci)"

definition ci_unmarshal_inplace :: "bytes \<Rightarrow> (ColumnsHeaderIndex, header_error) outcome" where
  "ci_unmarshal_inplace src =
    obind (unmarshal_column_headers_refs_inplace src) (\<lambda>(refs, src).
    obind (unmarshal_column_headers_refs_inplace src) (\<lambda>(crefs, tail).
    if tail \<noteq> [] then Err (RefsTail (length tail))
    else Ok \<lparr>ci_column_headers_refs = refs, ci_const_columns_refs = crefs\<rparr>))"

subsection \<open>Definitions: column names\<close>

record ColumnNameIDGenerator =
  column_name_ids :: "bytes \<rightharpoonup> u64"
  column_names :: "bytes list"

definition generator_default :: ColumnNameIDGenerator where
  "generator_default = \<lparr>column_name_ids = Map.empty, column_names = []\<rparr>"

definition get_column_name_id :: "ColumnNameIDGenerator \<Rightarrow> bytes \<Rightarrow> u64 \<times> ColumnNameIDGenerator" where
  "get_column_name_id g name =
    (case column_name_ids g name of
       Some nid \<Rightarrow> (nid, g)
     | None \<Rightarrow>
         let nid = of_nat (length (column_names g))
         in (nid, \<lparr>column_name_ids = (column_name_ids g)(name \<mapsto> nid), column_names = column_names g @ [name]\<rparr>))"

definition marshal_column_idxs :: "bytes \<Rightarrow> (u64 \<times> u64) list \<Rightarrow> bytes" where
  "marshal_column_idxs dst column_idxs =
    foldl (\<lambda>dst (column_id, shard_idx). marshal_var_uint64 (marshal_var_uint64 dst column_id) shard_idx)
      (marshal_var_uint64 dst (of_nat (length column_idxs))) column_idxs"

primrec read_idxs :: "bytes list \<Rightarrow> u64 \<Rightarrow> u64 \<Rightarrow> nat \<Rightarrow> (bytes \<rightharpoonup> u64) \<Rightarrow> bytes \<Rightarrow> ((bytes \<rightharpoonup> u64) \<times> bytes, header_error) outcome" where
  "read_idxs names shards_count n 0 m src = Ok (m, src)"
| "read_idxs names shards_count n (Suc k) m src =
    obind (read_var (IdxColumnID (n - of_nat (Suc k))) src) (\<lambda>(column_id, src).
    obind (read_var (IdxShard (n - of_nat (Suc k))) src) (\<lambda>(shard_idx, src).
    if shard_idx \<ge> shards_count then Err (ShardTooBig shard_idx shards_count)
    else if unat column_id \<ge> length names then Err (ColumnIDTooBig column_id (length names))
    else read_idxs names shards_count n k (m(names ! unat column_id \<mapsto> shard_idx)) src))"

definition unmarshal_column_idxs :: "bytes \<Rightarrow> bytes list \<Rightarrow> u64 \<Rightarrow> (bytes \<rightharpoonup> u64, header_error) outcome" where
  "unmarshal_column_idxs src names shards_count =
    obind (read_var IdxCount src) (\<lambda>(n, src).
    if n > 0x7FFFFFFFFFFFFFFF then Err (TooManyIdxs n)
    else
      obind (read_idxs names shards_count n (unat n) Map.empty src) (\<lambda>(m, src).
      if src \<noteq> [] then Err (IdxTail (length src)) else Ok m))"

definition marshal_column_names :: "zstd \<Rightarrow> bytes \<Rightarrow> bytes list \<Rightarrow> bytes" where
  "marshal_column_names z dst names =
    compress_zstd_level z dst (foldl marshal_bytes (marshal_var_uint64 [] (of_nat (length names))) names) 1"

primrec read_names :: "u64 \<Rightarrow> nat \<Rightarrow> (bytes \<rightharpoonup> u64) \<times> bytes list \<Rightarrow> bytes \<Rightarrow> (((bytes \<rightharpoonup> u64) \<times> bytes list) \<times> bytes, header_error) outcome" where
  "read_names n 0 acc src = Ok (acc, src)"
| "read_names n (Suc k) acc src =
    (let nid = n - of_nat (Suc k); (name, n_bytes) = unmarshal_bytes src in
     if n_bytes \<le> 0 then Err (NameAt nid n)
     else
       let name = (case name of Some b \<Rightarrow> b | None \<Rightarrow> []); src = drop (nat n_bytes) src in
       if fst acc name \<noteq> None then Err (DuplicateName name)
       else read_names n k ((fst acc)(name \<mapsto> nid), snd acc @ [name]) src)"

definition unmarshal_column_names :: "zstd \<Rightarrow> bytes \<Rightarrow> (bytes list \<times> (bytes \<rightharpoonup> u64), header_error) outcome" where
  "unmarshal_column_names z src =
    (case zdecompress z src of
       None \<Rightarrow> Err NamesDecompress
     | Some data \<Rightarrow>
         obind (read_var NamesCount data) (\<lambda>(n, src).
         if n > 0x7FFFFFFFFFFFFFFF then Err (TooManyNames n)
         else
           obind (read_names n (unat n) (Map.empty, []) src) (\<lambda>((ids, names), src).
           if src \<noteq> [] then Err (NamesTail (length src)) else Ok (names, ids))))"

subsection \<open>Definitions: column headers\<close>

record ColumnHeader =
  ch_name :: bytes
  ch_value_type :: ValueType
  ch_min_value :: u64
  ch_max_value :: u64
  ch_values_dict :: ValuesDict
  ch_values_offset :: u64
  ch_values_size :: u64
  ch_bloom_filter_offset :: u64
  ch_bloom_filter_size :: u64

definition ch_default :: ColumnHeader where
  "ch_default = \<lparr>ch_name = [], ch_value_type = ValueType 0, ch_min_value = 0, ch_max_value = 0,
    ch_values_dict = \<lparr>dict_values = []\<rparr>, ch_values_offset = 0, ch_values_size = 0,
    ch_bloom_filter_offset = 0, ch_bloom_filter_size = 0\<rparr>"

definition min_above_max :: "'f f64_ops \<Rightarrow> ColumnHeader \<Rightarrow> bool" where
  "min_above_max f64 ch =
    (if ch_value_type ch = INT64 then ch_max_value ch <s ch_min_value ch
     else if ch_value_type ch = FLOAT64 then
       f_less f64 (f_from_bits f64 (ch_max_value ch)) (f_from_bits f64 (ch_min_value ch))
     else if ch_value_type ch = TIMESTAMP_ISO8601 then ch_max_value ch <s ch_min_value ch
     else ch_min_value ch > ch_max_value ch)"

definition marshal_values :: "bytes \<Rightarrow> ColumnHeader \<Rightarrow> bytes" where
  "marshal_values dst ch = marshal_var_uint64 (marshal_var_uint64 dst (ch_values_offset ch)) (ch_values_size ch)"

definition marshal_bloom_filters :: "bytes \<Rightarrow> ColumnHeader \<Rightarrow> bytes" where
  "marshal_bloom_filters dst ch =
    marshal_var_uint64 (marshal_var_uint64 dst (ch_bloom_filter_offset ch)) (ch_bloom_filter_size ch)"

definition marshal_values_and_bloom_filters :: "bytes \<Rightarrow> ColumnHeader \<Rightarrow> bytes" where
  "marshal_values_and_bloom_filters dst ch = marshal_bloom_filters (marshal_values dst ch) ch"

definition ch_marshal :: "'f f64_ops \<Rightarrow> bytes \<Rightarrow> ColumnHeader \<Rightarrow> (bytes, header_error) outcome" where
  "ch_marshal f64 dst ch =
    (let vt = ch_value_type ch; mn = ch_min_value ch; mx = ch_max_value ch in
     if min_above_max f64 ch then Panic
     else
       let dst = dst @ [vt_byte vt] in
       if vt = STRING then Ok (marshal_values_and_bloom_filters dst ch)
       else if vt = DICT then
         obind (map_err (\<lambda>_. ColumnName) (dict_marshal (ch_values_dict ch) dst)) (\<lambda>dst. Ok (marshal_values dst ch))
       else if vt = UINT8 then Ok (marshal_values_and_bloom_filters (dst @ [ucast mn, ucast mx]) ch)
       else if vt = UINT16 then Ok (marshal_values_and_bloom_filters (marshal_uint16 (marshal_uint16 dst (ucast mn)) (ucast mx)) ch)
       else if vt = UINT32 then Ok (marshal_values_and_bloom_filters (marshal_uint32 (marshal_uint32 dst (ucast mn)) (ucast mx)) ch)
       else if vt = UINT64 then Ok (marshal_values_and_bloom_filters (marshal_uint64 (marshal_uint64 dst mn) mx) ch)
       else if vt = INT64 then Ok (marshal_values_and_bloom_filters (marshal_int64 (marshal_int64 dst mn) mx) ch)
       else if vt = FLOAT64 then Ok (marshal_values_and_bloom_filters (marshal_uint64 (marshal_uint64 dst mn) mx) ch)
       else if vt = IPV4 then Ok (marshal_values_and_bloom_filters (marshal_uint32 (marshal_uint32 dst (ucast mn)) (ucast mx)) ch)
       else if vt = TIMESTAMP_ISO8601 then Ok (marshal_values_and_bloom_filters (marshal_uint64 (marshal_uint64 dst mn) mx) ch)
       else Panic)"

definition unmarshal_values :: "ColumnHeader \<Rightarrow> bytes \<Rightarrow> (ColumnHeader \<times> bytes, header_error) outcome" where
  "unmarshal_values ch src =
    obind (read_var ValuesOffset src) (\<lambda>(offset, src).
    obind (read_var ValuesSize src) (\<lambda>(n, src).
    if n > of_nat MAX_VALUES_BLOCK_SIZE then Err (ValuesSizeTooBig n)
    else Ok (ch\<lparr>ch_values_offset := offset, ch_values_size := n\<rparr>, src)))"

definition unmarshal_bloom_filters :: "ColumnHeader \<Rightarrow> bytes \<Rightarrow> (ColumnHeader \<times> bytes, header_error) outcome" where
  "unmarshal_bloom_filters ch src =
    obind (read_var BloomOffset src) (\<lambda>(offset, src).
    obind (read_var BloomSize src) (\<lambda>(n, src).
    if n > of_nat MAX_BLOOM_FILTER_BLOCK_SIZE then Err (BloomSizeTooBig n)
    else Ok (ch\<lparr>ch_bloom_filter_offset := offset, ch_bloom_filter_size := n\<rparr>, src)))"

definition unmarshal_values_and_bloom_filters :: "ColumnHeader \<Rightarrow> bytes \<Rightarrow> (ColumnHeader \<times> bytes, header_error) outcome" where
  "unmarshal_values_and_bloom_filters ch src =
    obind (unmarshal_values ch src) (\<lambda>(ch, src). unmarshal_bloom_filters ch src)"

text \<open>The branches that read two bounds of \<open>w\<close> bytes with \<open>rd\<close>.\<close>

definition unmarshal_min_max ::
  "nat \<Rightarrow> (bytes \<Rightarrow> (u64, header_error) outcome) \<Rightarrow> ColumnHeader \<Rightarrow> bytes \<Rightarrow> (ColumnHeader \<times> bytes, header_error) outcome" where
  "unmarshal_min_max w rd ch src =
    (if length src < 2 * w then Err (ShortMinMax (ch_value_type ch) (length src))
     else
       obind (rd src) (\<lambda>mn. obind (rd (drop w src)) (\<lambda>mx.
       unmarshal_values_and_bloom_filters (ch\<lparr>ch_min_value := mn, ch_max_value := mx\<rparr>) (drop (2 * w) src))))"

definition ch_unmarshal_inplace :: "bytes \<Rightarrow> nat \<Rightarrow> (ColumnHeader \<times> bytes, header_error) outcome" where
  "ch_unmarshal_inplace src part_format_version =
    obind (if part_format_version < 1 then
             (let (data, n_size) = unmarshal_bytes src in
              if n_size \<le> 0 then Err ColumnName
              else Ok (case data of Some d \<Rightarrow> d | None \<Rightarrow> [], drop (nat n_size) src))
           else Ok ([], src)) (\<lambda>(name, src).
    if src = [] then Err ValueTypeMissing
    else
      let vt = ValueType (src ! 0); src = drop 1 src; ch = ch_default\<lparr>ch_name := name, ch_value_type := vt\<rparr> in
      if vt = STRING then unmarshal_values_and_bloom_filters ch src
      else if vt = DICT then
        obind (map_err HdrDict (dict_unmarshal_inplace (ch_values_dict ch) src)) (\<lambda>(d, src).
        unmarshal_values (ch\<lparr>ch_values_dict := d\<rparr>) src)
      else if vt = UINT8 then unmarshal_min_max 1 (\<lambda>src. Ok (ucast (src ! 0))) ch src
      else if vt = UINT16 then unmarshal_min_max 2 (\<lambda>src. obind (unmarshal_uint16 src) (\<lambda>n. Ok (ucast n))) ch src
      else if vt = UINT32 then unmarshal_min_max 4 (\<lambda>src. obind (unmarshal_uint32 src) (\<lambda>n. Ok (ucast n))) ch src
      else if vt = UINT64 then unmarshal_min_max 8 unmarshal_uint64 ch src
      else if vt = INT64 then unmarshal_min_max 8 unmarshal_int64 ch src
      else if vt = FLOAT64 then unmarshal_min_max 8 unmarshal_uint64 ch src
      else if vt = IPV4 then unmarshal_min_max 4 (\<lambda>src. obind (unmarshal_uint32 src) (\<lambda>n. Ok (ucast n))) ch src
      else if vt = TIMESTAMP_ISO8601 then unmarshal_min_max 8 unmarshal_uint64 ch src
      else Err (BadValueType (vt_byte vt)))"

subsection \<open>Definitions: columns headers\<close>

record ColumnsHeader =
  csh_column_headers :: "ColumnHeader list"
  csh_const_columns :: "Field list"

text \<open>The two loops of \<open>ColumnsHeader::marshal\<close>; offsets count from \<open>dst_len\<close>.\<close>

primrec marshal_headers ::
  "'f f64_ops \<Rightarrow> nat \<Rightarrow> ColumnHeader list \<Rightarrow> bytes \<Rightarrow> ColumnNameIDGenerator \<Rightarrow>
   (bytes \<times> ColumnHeaderRef list \<times> ColumnNameIDGenerator, header_error) outcome" where
  "marshal_headers f64 dst_len [] dst g = Ok (dst, [], g)"
| "marshal_headers f64 dst_len (ch # chs) dst g =
    (case get_column_name_id g (ch_name ch) of (nid, g) \<Rightarrow>
       let r = \<lparr>cr_column_name_id = nid, cr_offset = of_nat (length dst - dst_len)\<rparr> in
       obind (ch_marshal f64 dst ch) (\<lambda>dst.
       obind (marshal_headers f64 dst_len chs dst g) (\<lambda>(dst, refs, g). Ok (dst, r # refs, g))))"

primrec marshal_consts ::
  "nat \<Rightarrow> Field list \<Rightarrow> bytes \<Rightarrow> ColumnNameIDGenerator \<Rightarrow> bytes \<times> ColumnHeaderRef list \<times> ColumnNameIDGenerator" where
  "marshal_consts dst_len [] dst g = (dst, [], g)"
| "marshal_consts dst_len (cc # ccs) dst g =
    (case get_column_name_id g (field_name cc) of (nid, g) \<Rightarrow>
       let r = \<lparr>cr_column_name_id = nid, cr_offset = of_nat (length dst - dst_len)\<rparr> in
       case marshal_consts dst_len ccs (field_marshal dst cc False) g of (dst, refs, g) \<Rightarrow> (dst, r # refs, g))"

definition csh_marshal ::
  "'f f64_ops \<Rightarrow> bytes \<Rightarrow> ColumnsHeader \<Rightarrow> ColumnNameIDGenerator \<Rightarrow>
   (bytes \<times> ColumnsHeaderIndex \<times> ColumnNameIDGenerator, header_error) outcome" where
  "csh_marshal f64 dst csh g =
    (let dst_len = length dst; chs = csh_column_headers csh; ccs = csh_const_columns csh in
     obind (marshal_headers f64 dst_len chs (marshal_var_uint64 dst (of_nat (length chs))) g) (\<lambda>(dst, refs, g).
     case marshal_consts dst_len ccs (marshal_var_uint64 dst (of_nat (length ccs))) g of (dst, crefs, g) \<Rightarrow>
     Ok (dst, \<lparr>ci_column_headers_refs = refs, ci_const_columns_refs = crefs\<rparr>, g)))"

primrec read_column_headers :: "nat \<Rightarrow> nat \<Rightarrow> bytes \<Rightarrow> (ColumnHeader list \<times> bytes, header_error) outcome" where
  "read_column_headers v 0 src = Ok ([], src)"
| "read_column_headers v (Suc k) src =
    obind (ch_unmarshal_inplace src v) (\<lambda>(ch, src).
    obind (read_column_headers v k src) (\<lambda>(chs, src). Ok (ch # chs, src)))"

primrec read_const_columns :: "nat \<Rightarrow> nat \<Rightarrow> bytes \<Rightarrow> (Field list \<times> bytes, header_error) outcome" where
  "read_const_columns v 0 src = Ok ([], src)"
| "read_const_columns v (Suc k) src =
    obind (map_err ConstColumn (field_unmarshal_inplace (Field [] []) src (v < 1))) (\<lambda>(cc, src).
    obind (read_const_columns v k src) (\<lambda>(ccs, src). Ok (cc # ccs, src)))"

definition csh_unmarshal_inplace :: "bytes \<Rightarrow> nat \<Rightarrow> (ColumnsHeader, header_error) outcome" where
  "csh_unmarshal_inplace src part_format_version =
    obind (read_var ColumnHeadersLen src) (\<lambda>(n, src).
    if n > 1000000 then Err (TooManyColumnHeaders n)
    else
      obind (read_column_headers part_format_version (unat n) src) (\<lambda>(chs, src).
      if unat n > MAX_COLUMNS_PER_BLOCK then Err (TooManyColumns (unat n))
      else
        obind (read_var ConstColumnsLen src) (\<lambda>(m, src).
        if m > 1000000 then Err (TooManyConstColumns m)
        else
          obind (read_const_columns part_format_version (unat m) src) (\<lambda>(ccs, src).
          if unat m + length chs > MAX_COLUMNS_PER_BLOCK then Err (TooManyColumns (unat m + length chs))
          else if src \<noteq> [] then Err (HeaderTail (length src))
          else Ok \<lparr>csh_column_headers = chs, csh_const_columns = ccs\<rparr>))))"

text \<open>\<open>set_column_names\<close>: the names of the columns by their numbers in the index.\<close>

primrec lookup_names :: "bytes list \<Rightarrow> ColumnHeaderRef list \<Rightarrow> (bytes list, header_error) outcome" where
  "lookup_names names [] = Ok []"
| "lookup_names names (r # refs) =
    (if unat (cr_column_name_id r) \<ge> length names then Err (NameID (cr_column_name_id r) (length names))
     else obind (lookup_names names refs) (\<lambda>ns. Ok (names ! unat (cr_column_name_id r) # ns)))"

definition set_column_names :: "ColumnsHeader \<Rightarrow> ColumnsHeaderIndex \<Rightarrow> bytes list \<Rightarrow> (ColumnsHeader, header_error) outcome" where
  "set_column_names csh ci names =
    (if length (ci_column_headers_refs ci) \<noteq> length (csh_column_headers csh) then
       Err (HeadersNumber (length (ci_column_headers_refs ci)) (length (csh_column_headers csh)))
     else
       obind (lookup_names names (ci_column_headers_refs ci)) (\<lambda>ns.
       if length (ci_const_columns_refs ci) \<noteq> length (csh_const_columns csh) then
         Err (ConstsNumber (length (ci_const_columns_refs ci)) (length (csh_const_columns csh)))
       else
         obind (lookup_names names (ci_const_columns_refs ci)) (\<lambda>cns.
         Ok \<lparr>csh_column_headers = map2 (\<lambda>ch n. ch\<lparr>ch_name := n\<rparr>) (csh_column_headers csh) ns,
             csh_const_columns = map2 (\<lambda>cc n. Field n (field_value cc)) (csh_const_columns csh) cns\<rparr>)))"

subsection \<open>Definitions: index block headers\<close>

record IndexBlockHeader =
  ih_stream_id :: StreamID
  ih_min_timestamp :: i64
  ih_max_timestamp :: i64
  ih_index_block_offset :: u64
  ih_index_block_size :: u64

definition ih_default :: IndexBlockHeader where
  "ih_default = \<lparr>ih_stream_id = stream_id_zero, ih_min_timestamp = 0, ih_max_timestamp = 0, ih_index_block_offset = 0,
    ih_index_block_size = 0\<rparr>"

definition ih_marshal :: "bytes \<Rightarrow> IndexBlockHeader \<Rightarrow> bytes" where
  "ih_marshal dst ih =
    (let dst = stream_id_marshal dst (ih_stream_id ih);
         dst = marshal_uint64 dst (ih_min_timestamp ih);
         dst = marshal_uint64 dst (ih_max_timestamp ih);
         dst = marshal_uint64 dst (ih_index_block_offset ih)
     in marshal_uint64 dst (ih_index_block_size ih))"

definition ih_unmarshal :: "bytes \<Rightarrow> (IndexBlockHeader \<times> bytes, header_error) outcome" where
  "ih_unmarshal src =
    obind (map_err HdrStreamID (stream_id_unmarshal src)) (\<lambda>(stream_id, src).
    if length src < 32 then Err (ShortIndexHeader (length src))
    else
      obind (unmarshal_uint64 src) (\<lambda>min_timestamp.
      obind (unmarshal_uint64 (drop 8 src)) (\<lambda>max_timestamp.
      obind (unmarshal_uint64 (drop 16 src)) (\<lambda>offset.
      obind (unmarshal_uint64 (drop 24 src)) (\<lambda>sz.
      Ok (\<lparr>ih_stream_id = stream_id, ih_min_timestamp = min_timestamp, ih_max_timestamp = max_timestamp,
           ih_index_block_offset = offset, ih_index_block_size = sz\<rparr>, drop 32 src))))))"

fun validate_index_block_headers :: "nat \<Rightarrow> IndexBlockHeader list \<Rightarrow> (unit, header_error) outcome" where
  "validate_index_block_headers i (ih_prev # ih_curr # ihs) =
    (if stream_id_less (ih_stream_id ih_curr) (ih_stream_id ih_prev) then Err (IndexOrder i)
     else validate_index_block_headers (Suc i) (ih_curr # ihs))"
| "validate_index_block_headers i ihs = Ok ()"

lemma ih_unmarshal_tail: "ih_unmarshal src = Ok (ih, tail) \<Longrightarrow> length tail < length src"
  by (auto simp: ih_unmarshal_def obind_Ok_iff split: if_splits dest!: stream_id_unmarshal_Ok)

function read_index_block_headers :: "bytes \<Rightarrow> (IndexBlockHeader list, header_error) outcome" where
  "read_index_block_headers src =
    (if src = [] then Ok []
     else case ih_unmarshal src of
       Ok (ih, tail) \<Rightarrow> obind (read_index_block_headers tail) (\<lambda>ihs. Ok (ih # ihs))
     | Err e \<Rightarrow> Err e
     | Panic \<Rightarrow> Panic)"
  by pat_completeness auto
termination
  by (relation "measure length") (auto dest: ih_unmarshal_tail)

declare read_index_block_headers.simps [simp del]

definition unmarshal_index_block_headers :: "IndexBlockHeader list \<Rightarrow> bytes \<Rightarrow> (IndexBlockHeader list, header_error) outcome" where
  "unmarshal_index_block_headers dst src =
    obind (read_index_block_headers src) (\<lambda>ihs.
    obind (validate_index_block_headers 1 ihs) (\<lambda>_. Ok (dst @ ihs)))"


subsection \<open>Block headers are read back\<close>

lemma read_var_varint [codec_simps]: "read_var e (varint_bytes n @ rest) = Ok (n, rest)"
  using var_uint64.dec_enc [of n rest]
  by (auto simp: read_var_def take_var_uint64_def codec_simps split: prod.splits if_splits)

lemma unmarshal_uint64_be [codec_simps]:
  "unmarshal_uint64 (to_be_bytes 8 (n :: u64) @ rest) = Ok n"
  by (simp add: unmarshal_uint64_def)

lemma th_marshal_bytes:
  "th_marshal dst th = dst @ to_be_bytes 8 (th_block_offset th) @ to_be_bytes 8 (th_block_size th) @
    to_be_bytes 8 (th_min_timestamp th) @ to_be_bytes 8 (th_max_timestamp th) @ [th_marshal_type th]"
  by (simp add: th_marshal_def marshal_uint64_def Let_def)

lemma th_unmarshal_marshal [codec_simps]: "th_unmarshal (th_marshal [] th @ rest) = Ok (th, rest)"
  by (simp add: th_unmarshal_def th_marshal_bytes unmarshal_uint64_be drop_append nth_append)

lemma th_marshal_append: "th_marshal dst th = dst @ th_marshal [] th"
  by (simp add: th_marshal_bytes)

lemma bh_marshal_bytes:
  "bh_marshal dst bh = dst @ stream_id_marshal [] (bh_stream_id bh) @ varint_bytes (bh_uncompressed_size_bytes bh) @
    varint_bytes (bh_rows_count bh) @ th_marshal [] (bh_timestamps_header bh) @
    varint_bytes (bh_columns_header_index_offset bh) @ varint_bytes (bh_columns_header_index_size bh) @
    varint_bytes (bh_columns_header_offset bh) @ varint_bytes (bh_columns_header_size bh)"
  by (simp add: bh_marshal_def Let_def codec_simps stream_id_marshal_append [of dst] th_marshal_append [of "_ @ _"])

definition bh_valid :: "BlockHeader \<Rightarrow> bool" where
  "bh_valid bh \<longleftrightarrow> bh_rows_count bh \<le> of_nat MAX_ROWS_PER_BLOCK \<and> bh_columns_header_size bh \<le> of_nat MAX_COLUMNS_HEADER_SIZE"

lemma bh_unmarshal_marshal:
  assumes "bh_valid bh" "1 \<le> v"
  shows "bh_unmarshal v (bh_marshal [] bh @ rest) = Ok (bh, rest)"
  using assms by (simp add: bh_unmarshal_def bh_marshal_bytes bh_valid_def codec_simps not_less)

lemma bh_marshal_nonempty: "bh_marshal dst bh \<noteq> []"
  by (simp add: bh_marshal_bytes)

lemma read_block_headers_marshal:
  assumes "list_all bh_valid bhs" "1 \<le> v"
  shows "read_block_headers v (concat (map (bh_marshal []) bhs)) = Ok bhs"
  using assms(1)
proof (induction bhs)
  case (Cons bh bhs)
  then show ?case using assms(2)
    by (subst read_block_headers.simps) (simp add: bh_unmarshal_marshal bh_marshal_nonempty)
qed (simp add: read_block_headers.simps)

text \<open>The order of block headers within an index block and of index block headers.\<close>

definition bh_le :: "BlockHeader \<Rightarrow> BlockHeader \<Rightarrow> bool" where
  "bh_le a b \<longleftrightarrow> bh_stream_id a < bh_stream_id b \<or>
    bh_stream_id a = bh_stream_id b \<and> th_min_timestamp (bh_timestamps_header a) \<le>s th_min_timestamp (bh_timestamps_header b)"

lemma bh_le_trans: "bh_le a b \<Longrightarrow> bh_le b c \<Longrightarrow> bh_le a c"
  by (auto simp: bh_le_def word_sle_eq)

lemma stream_id_less_iff: "stream_id_less a b \<longleftrightarrow> a < b"
  by (simp add: less_StreamID_def)

lemma stream_id_equal_iff: "stream_id_equal a b \<longleftrightarrow> a = b"
  by (cases a; cases b; cases "sid a"; cases "sid b") (auto simp: stream_id_equal_def u128_equal_def)

lemma validate_block_headers_iff: "validate_block_headers i bhs = Ok () \<longleftrightarrow> sorted_wrt bh_le bhs"
proof (induction bhs arbitrary: i rule: induct_list012)
  case (3 a b bhs)
  have "sorted_wrt bh_le (a # b # bhs) \<longleftrightarrow> bh_le a b \<and> sorted_wrt bh_le (b # bhs)"
    by (auto intro: bh_le_trans)
  moreover consider "bh_stream_id b < bh_stream_id a" | "bh_stream_id a = bh_stream_id b" | "bh_stream_id a < bh_stream_id b"
    by (rule linorder_cases)
  then have "validate_block_headers i (a # b # bhs) = Ok () \<longleftrightarrow> bh_le a b \<and> validate_block_headers (Suc i) (b # bhs) = Ok ()"
    by cases (auto simp: stream_id_less_iff stream_id_equal_iff bh_le_def word_sless_alt word_sle_eq not_less)
  moreover have "validate_block_headers (Suc i) (b # bhs) = Ok () \<longleftrightarrow> sorted_wrt bh_le (b # bhs)"
    by (rule 3)
  ultimately show ?case by simp
qed auto

lemma validate_index_block_headers_iff:
  "validate_index_block_headers i ihs = Ok () \<longleftrightarrow> sorted (map ih_stream_id ihs)"
proof (induction i ihs rule: validate_index_block_headers.induct)
  case (1 i a b ihs)
  then show ?case by (auto simp: stream_id_less_iff not_less)
qed auto

text \<open>C12: the block headers of an index block, written one after the other, are read back exactly, and the
  reader accepts them if and only if they are ordered by stream and, within a stream, by first
  timestamp.\<close>

theorem block_headers_roundtrip:
  assumes "list_all bh_valid bhs" "1 \<le> v"
  shows "if sorted_wrt bh_le bhs then unmarshal_block_headers dst (foldl bh_marshal [] bhs) v = Ok (dst @ bhs)
    else (\<exists>e. unmarshal_block_headers dst (foldl bh_marshal [] bhs) v = Err e)"
proof -
  have m: "foldl bh_marshal dst bhs = dst @ concat (map (bh_marshal []) bhs)" for dst
    by (induction bhs arbitrary: dst) (simp_all add: bh_marshal_bytes)
  have np: "validate_block_headers i bhs \<noteq> Panic" for i and bhs :: "BlockHeader list"
    by (induction i bhs rule: validate_block_headers.induct) auto
  show ?thesis
    using validate_block_headers_iff [of 1 bhs] np [of 1 bhs]
    by (cases "validate_block_headers 1 bhs")
      (auto simp: unmarshal_block_headers_def m read_block_headers_marshal [OF assms])
qed

definition bh_demo :: "i64 \<Rightarrow> BlockHeader" where
  "bh_demo t = bh_default\<lparr>bh_rows_count := 7, bh_timestamps_header := th_default\<lparr>th_min_timestamp := t\<rparr>\<rparr>"

theorem block_headers_roundtrip_witness:
  "unmarshal_block_headers [] (foldl bh_marshal [] [bh_demo (-3), bh_demo 5]) 3 = Ok [bh_demo (-3), bh_demo 5]"
  using block_headers_roundtrip [of "[bh_demo (-3), bh_demo 5]" 3 "[]"]
  by (simp add: bh_demo_def bh_default_def bh_valid_def MAX_ROWS_PER_BLOCK_def bh_le_def word_sle_eq)

subsection \<open>Column headers are read back\<close>

definition VALUE_TYPES :: "ValueType list" where
  "VALUE_TYPES = [STRING, DICT, UINT8, UINT16, UINT32, UINT64, INT64, FLOAT64, IPV4, TIMESTAMP_ISO8601]"

lemmas value_type_defs = STRING_def DICT_def UINT8_def UINT16_def UINT32_def UINT64_def INT64_def FLOAT64_def IPV4_def TIMESTAMP_ISO8601_def

text \<open>What a stored column header keeps: not the name, the bounds only of numeric types, the dictionary
  only of dictionary columns, the bloom filter of all others.\<close>

definition ch_stored :: "ColumnHeader \<Rightarrow> ColumnHeader" where
  "ch_stored ch =
    (let vt = ch_value_type ch in
     ch\<lparr>ch_name := [],
        ch_min_value := (if vt = STRING \<or> vt = DICT then 0 else ch_min_value ch),
        ch_max_value := (if vt = STRING \<or> vt = DICT then 0 else ch_max_value ch),
        ch_values_dict := (if vt = DICT then ch_values_dict ch else \<lparr>dict_values = []\<rparr>),
        ch_bloom_filter_offset := (if vt = DICT then 0 else ch_bloom_filter_offset ch),
        ch_bloom_filter_size := (if vt = DICT then 0 else ch_bloom_filter_size ch)\<rparr>)"

definition bounds_width :: "ValueType \<Rightarrow> nat" where
  "bounds_width vt = (if vt = UINT8 then 8 else if vt = UINT16 then 16 else if vt = UINT32 \<or> vt = IPV4 then 32 else 64)"

definition ch_valid :: "'f f64_ops \<Rightarrow> ColumnHeader \<Rightarrow> bool" where
  "ch_valid f64 ch \<longleftrightarrow>
    ch_value_type ch \<in> set VALUE_TYPES \<and> \<not> min_above_max f64 ch \<and>
    unat (ch_min_value ch) < 2 ^ bounds_width (ch_value_type ch) \<and> unat (ch_max_value ch) < 2 ^ bounds_width (ch_value_type ch) \<and>
    (ch_value_type ch = DICT \<longrightarrow> dict_inv (ch_values_dict ch)) \<and>
    ch_values_size ch \<le> of_nat MAX_VALUES_BLOCK_SIZE \<and>
    (ch_value_type ch \<noteq> DICT \<longrightarrow> ch_bloom_filter_size ch \<le> of_nat MAX_BLOOM_FILTER_BLOCK_SIZE)"

lemma ucast_narrow: "unat n < 2 ^ LENGTH('a) \<Longrightarrow> ucast (ucast (n :: u64) :: 'a::len word) = n"
  by (rule word_unat_eq_iff [THEN iffD2]) (simp add: unsigned_ucast_eq unsigned_take_bit_eq take_bit_nat_eq_self)

definition values_bytes :: "ColumnHeader \<Rightarrow> bytes" where
  "values_bytes ch = varint_bytes (ch_values_offset ch) @ varint_bytes (ch_values_size ch)"

definition blooms_bytes :: "ColumnHeader \<Rightarrow> bytes" where
  "blooms_bytes ch = varint_bytes (ch_bloom_filter_offset ch) @ varint_bytes (ch_bloom_filter_size ch)"

lemma marshal_values_bytes:
  "marshal_values dst ch = dst @ values_bytes ch" "marshal_bloom_filters dst ch = dst @ blooms_bytes ch"
  "marshal_values_and_bloom_filters dst ch = dst @ values_bytes ch @ blooms_bytes ch"
  by (simp_all add: marshal_values_def marshal_bloom_filters_def marshal_values_and_bloom_filters_def values_bytes_def blooms_bytes_def codec_simps)

lemma unmarshal_values_bytes:
  assumes "ch_values_size ch \<le> of_nat MAX_VALUES_BLOCK_SIZE"
  shows "unmarshal_values c (values_bytes ch @ rest) =
    Ok (c\<lparr>ch_values_offset := ch_values_offset ch, ch_values_size := ch_values_size ch\<rparr>, rest)"
  using assms by (simp add: unmarshal_values_def values_bytes_def codec_simps not_less)

lemma unmarshal_both_bytes:
  assumes "ch_values_size ch \<le> of_nat MAX_VALUES_BLOCK_SIZE" "ch_bloom_filter_size ch \<le> of_nat MAX_BLOOM_FILTER_BLOCK_SIZE"
  shows "unmarshal_values_and_bloom_filters c (values_bytes ch @ blooms_bytes ch @ rest) =
    Ok (c\<lparr>ch_values_offset := ch_values_offset ch, ch_values_size := ch_values_size ch,
         ch_bloom_filter_offset := ch_bloom_filter_offset ch, ch_bloom_filter_size := ch_bloom_filter_size ch\<rparr>, rest)"
  using assms by (simp add: unmarshal_values_and_bloom_filters_def unmarshal_values_bytes unmarshal_bloom_filters_def
      blooms_bytes_def codec_simps not_less)

lemma unmarshal_min_max_bytes:
  assumes "length (e mn) = w" "length (e mx) = w" "\<And>r. rd (e mn @ r) = Ok (mn :: u64)" "\<And>r. rd (e mx @ r) = Ok mx"
    and "ch_values_size ch \<le> of_nat MAX_VALUES_BLOCK_SIZE" "ch_bloom_filter_size ch \<le> of_nat MAX_BLOOM_FILTER_BLOCK_SIZE"
  shows "unmarshal_min_max w rd c ((e mn @ e mx) @ values_bytes ch @ blooms_bytes ch @ rest) =
    Ok (c\<lparr>ch_min_value := mn, ch_max_value := mx, ch_values_offset := ch_values_offset ch, ch_values_size := ch_values_size ch,
         ch_bloom_filter_offset := ch_bloom_filter_offset ch, ch_bloom_filter_size := ch_bloom_filter_size ch\<rparr>, rest)"
  using assms by (simp add: unmarshal_min_max_def unmarshal_both_bytes)

text \<open>The bytes of a stored bound of each type.\<close>

definition bound_bytes :: "ValueType \<Rightarrow> u64 \<Rightarrow> bytes" where
  "bound_bytes vt n =
    (if vt = UINT8 then [ucast n]
     else if vt = UINT16 then to_be_bytes 2 (ucast n :: u16)
     else if vt = UINT32 \<or> vt = IPV4 then to_be_bytes 4 (ucast n :: u32)
     else if vt = INT64 then to_be_bytes 8 (zigzag n)
     else to_be_bytes 8 n)"

definition ch_bytes :: "ColumnHeader \<Rightarrow> bytes" where
  "ch_bytes ch =
    (let vt = ch_value_type ch in
     vt_byte vt #
      (if vt = STRING then values_bytes ch @ blooms_bytes ch
       else if vt = DICT then
         (of_nat (length (dict_values (ch_values_dict ch))) # marshal_strings [] (dict_values (ch_values_dict ch))) @ values_bytes ch
       else (bound_bytes vt (ch_min_value ch) @ bound_bytes vt (ch_max_value ch)) @ values_bytes ch @ blooms_bytes ch))"

lemma dict_marshal_bytes:
  "dict_inv d \<Longrightarrow> dict_marshal d dst = Ok (dst @ of_nat (length (dict_values d)) # marshal_strings [] (dict_values d))"
  by (simp add: dict_marshal_def dict_inv_def not_less marshal_strings_append [of "dst @ _"])

lemma dict_unmarshal_bytes:
  assumes "dict_inv d"
  shows "dict_unmarshal_inplace d0 ((of_nat (length (dict_values d)) # marshal_strings [] (dict_values d)) @ rest) = Ok (d0\<lparr>dict_values := dict_values d\<rparr>, rest)"
proof -
  have l: "unat (of_nat (length (dict_values d)) :: u8) = length (dict_values d)"
    using assms by (simp add: dict_inv_def MAX_DICT_LEN_def unat_of_nat take_bit_nat_eq_self)
  have "\<forall>v \<in> set (dict_values d). length v < 2 ^ 64" using dict_inv_small [OF assms] by blast
  from dict_unmarshal_strings [OF this] l show ?thesis
    by (simp add: dict_unmarshal_inplace_def dict_reset_def)
qed

lemma ch_marshal_bytes:
  assumes "ch_valid f64 ch"
  shows "ch_marshal f64 dst ch = Ok (dst @ ch_bytes ch)"
  using assms
  by (auto simp: ch_valid_def VALUE_TYPES_def ch_marshal_def ch_bytes_def Let_def marshal_values_bytes dict_marshal_bytes
      bound_bytes_def marshal_uint16_def marshal_uint32_def marshal_uint64_def marshal_int64_def value_type_defs)

lemma bound_bytes_read:
  assumes "unat n < 2 ^ bounds_width vt"
  shows "vt = UINT8 \<Longrightarrow> bound_bytes vt n = [ucast n] \<and> ucast (ucast n :: u8) = n"
    and "vt = UINT16 \<Longrightarrow> obind (unmarshal_uint16 (bound_bytes vt n @ r)) (\<lambda>n. Ok (ucast n)) = (Ok n :: (u64, header_error) outcome)"
    and "vt = UINT32 \<or> vt = IPV4 \<Longrightarrow> obind (unmarshal_uint32 (bound_bytes vt n @ r)) (\<lambda>n. Ok (ucast n)) = (Ok n :: (u64, header_error) outcome)"
    and "vt = INT64 \<Longrightarrow> unmarshal_int64 (bound_bytes vt n @ r) = (Ok n :: (u64, header_error) outcome)"
    and "vt \<in> {UINT64, FLOAT64, TIMESTAMP_ISO8601} \<Longrightarrow> unmarshal_uint64 (bound_bytes vt n @ r) = (Ok n :: (u64, header_error) outcome)"
  using assms ucast_narrow [of n, where ?'a = 8] ucast_narrow [of n, where ?'a = 16] ucast_narrow [of n, where ?'a = 32]
  by (auto simp: bound_bytes_def bounds_width_def unmarshal_uint16_def unmarshal_uint32_def unmarshal_uint64_def unmarshal_int64_def value_type_defs)

lemma bound_bytes_length:
  "length (bound_bytes vt n) = (if vt = UINT8 then 1 else if vt = UINT16 then 2 else if vt = UINT32 \<or> vt = IPV4 then 4 else 8)"
  by (simp add: bound_bytes_def)

lemma ch_unmarshal_bytes:
  assumes "ch_valid f64 ch" "1 \<le> v"
  shows "ch_unmarshal_inplace (ch_bytes ch @ rest) v = Ok (ch_stored ch, rest)"
proof -
  let ?vt = "ch_value_type ch"
  have sz: "ch_values_size ch \<le> of_nat MAX_VALUES_BLOCK_SIZE" "?vt \<noteq> DICT \<Longrightarrow> ch_bloom_filter_size ch \<le> of_nat MAX_BLOOM_FILTER_BLOCK_SIZE"
    using assms(1) by (auto simp: ch_valid_def)
  have bw: "unat (ch_min_value ch) < 2 ^ bounds_width ?vt" "unat (ch_max_value ch) < 2 ^ bounds_width ?vt"
    using assms(1) by (auto simp: ch_valid_def)
  have num: ?thesis if vt: "?vt \<noteq> STRING" "?vt \<noteq> DICT"
      and br: "\<And>src. ch_unmarshal_inplace (vt_byte ?vt # src) v = unmarshal_min_max w rd (ch_default\<lparr>ch_value_type := ?vt\<rparr>) src"
      and w: "w = length (bound_bytes ?vt 0)"
      and rd: "\<And>n r. unat n < 2 ^ bounds_width ?vt \<Longrightarrow> rd (bound_bytes ?vt n @ r) = Ok n" for w rd
  proof -
    let ?c = "ch_default\<lparr>ch_value_type := ?vt\<rparr>"
    have "unmarshal_min_max w rd ?c ((bound_bytes ?vt (ch_min_value ch) @ bound_bytes ?vt (ch_max_value ch)) @ values_bytes ch @ blooms_bytes ch @ rest) =
      Ok (?c\<lparr>ch_min_value := ch_min_value ch, ch_max_value := ch_max_value ch, ch_values_offset := ch_values_offset ch, ch_values_size := ch_values_size ch,
         ch_bloom_filter_offset := ch_bloom_filter_offset ch, ch_bloom_filter_size := ch_bloom_filter_size ch\<rparr>, rest)"
      by (rule unmarshal_min_max_bytes) (use w rd bw sz vt in \<open>auto simp: bound_bytes_length\<close>)
    also have "?c\<lparr>ch_min_value := ch_min_value ch, ch_max_value := ch_max_value ch, ch_values_offset := ch_values_offset ch, ch_values_size := ch_values_size ch,
         ch_bloom_filter_offset := ch_bloom_filter_offset ch, ch_bloom_filter_size := ch_bloom_filter_size ch\<rparr> = ch_stored ch"
      using vt by (cases ch) (simp add: ch_stored_def ch_default_def)
    finally show ?thesis using vt by (simp add: ch_bytes_def Let_def br)
  qed
  note br = ch_unmarshal_inplace_def ch_default_def value_type_defs
  consider "?vt = STRING" | "?vt = DICT" | "?vt = UINT8" | "?vt = UINT16" | "?vt = UINT32" | "?vt = UINT64" | "?vt = INT64" | "?vt = FLOAT64"
    | "?vt = IPV4" | "?vt = TIMESTAMP_ISO8601"
    using assms(1) by (auto simp: ch_valid_def VALUE_TYPES_def)
  then show ?thesis
  proof cases
    case 1
    then show ?thesis using assms(2) sz
      by (cases ch) (simp add: ch_unmarshal_inplace_def ch_bytes_def Let_def unmarshal_both_bytes ch_stored_def ch_default_def value_type_defs)
  next
    case 2
    then have "dict_inv (ch_values_dict ch)" using assms(1) by (simp add: ch_valid_def)
    from dict_unmarshal_bytes [OF this] 2 show ?thesis using assms(2) sz(1)
      by (cases ch) (simp add: ch_unmarshal_inplace_def ch_bytes_def Let_def unmarshal_values_bytes ch_stored_def ch_default_def value_type_defs)
  next
    case 3
    show ?thesis by (rule num) (use assms(2) 3 bound_bytes_read(1) in \<open>auto simp: br bound_bytes_length\<close>)
  next
    case 4
    show ?thesis by (rule num) (use assms(2) 4 bound_bytes_read(2) in \<open>auto simp: br bound_bytes_length\<close>)
  next
    case 5
    show ?thesis by (rule num) (use assms(2) 5 bound_bytes_read(3) in \<open>auto simp: br bound_bytes_length\<close>)
  next
    case 6
    show ?thesis by (rule num) (use assms(2) 6 bound_bytes_read(5) in \<open>auto simp: br bound_bytes_length\<close>)
  next
    case 7
    show ?thesis by (rule num) (use assms(2) 7 bound_bytes_read(4) in \<open>auto simp: br bound_bytes_length\<close>)
  next
    case 8
    show ?thesis by (rule num) (use assms(2) 8 bound_bytes_read(5) in \<open>auto simp: br bound_bytes_length\<close>)
  next
    case 9
    show ?thesis by (rule num) (use assms(2) 9 bound_bytes_read(3) in \<open>auto simp: br bound_bytes_length\<close>)
  next
    case 10
    show ?thesis by (rule num) (use assms(2) 10 bound_bytes_read(5) in \<open>auto simp: br bound_bytes_length\<close>)
  qed
qed

subsection \<open>Column names keep their numbers\<close>

definition gen_inv :: "ColumnNameIDGenerator \<Rightarrow> bool" where
  "gen_inv g \<longleftrightarrow> distinct (column_names g) \<and>
    (\<forall>n. column_name_ids g n = (if n \<in> set (column_names g) then Some (of_nat (name_index (column_names g) n)) else None))"

definition gen_ext :: "ColumnNameIDGenerator \<Rightarrow> ColumnNameIDGenerator \<Rightarrow> bool" where
  "gen_ext g g' \<longleftrightarrow> (\<exists>ext. column_names g' = column_names g @ ext)"

lemma gen_ext_refl [simp]: "gen_ext g g"
  by (simp add: gen_ext_def)

lemma gen_ext_trans: "gen_ext a b \<Longrightarrow> gen_ext b c \<Longrightarrow> gen_ext a c"
  by (auto simp: gen_ext_def)

lemma gen_default_inv: "gen_inv generator_default"
  by (simp add: gen_inv_def generator_default_def)

lemma name_index_append:
  "name_index (xs @ ys) n = (if n \<in> set xs then name_index xs n else length xs + name_index ys n)"
  by (induction xs) auto

text \<open>A number refers to a name in a list of names.\<close>

definition names_at :: "bytes list \<Rightarrow> u64 \<Rightarrow> bytes \<Rightarrow> bool" where
  "names_at names i n \<longleftrightarrow> unat i < length names \<and> names ! unat i = n"

lemma names_at_append: "names_at names i n \<Longrightarrow> names_at (names @ ext) i n"
  by (auto simp: names_at_def nth_append)

lemma get_column_name_id_props:
  assumes "gen_inv g" "get_column_name_id g n = (i, g')" "length (column_names g') < 2 ^ 64"
  shows "gen_inv g' \<and> gen_ext g g' \<and> names_at (column_names g') i n \<and> i = of_nat (name_index (column_names g') n)"
proof (cases "n \<in> set (column_names g)")
  case True
  then have g': "g' = g" "i = of_nat (name_index (column_names g) n)"
    using assms by (auto simp: get_column_name_id_def gen_inv_def)
  moreover have "unat i = name_index (column_names g) n"
    using name_index_less [OF True] assms(3) g' by (simp add: unat_of_nat take_bit_nat_eq_self)
  ultimately show ?thesis using name_index_less [OF True] assms(1) by (simp add: names_at_def)
next
  case False
  then have g': "column_names g' = column_names g @ [n]" "column_name_ids g' = (column_name_ids g)(n \<mapsto> i)" "i = of_nat (length (column_names g))"
    using assms by (auto simp: get_column_name_id_def gen_inv_def Let_def)
  have "unat i = length (column_names g)" using assms(3) g'(1,3) by (simp add: unat_of_nat take_bit_nat_eq_self)
  then show ?thesis using False assms(1) g'
    by (auto simp: gen_inv_def gen_ext_def names_at_def name_index_append)
qed

lemma get_column_name_id_ext: "get_column_name_id g n = (i, g') \<Longrightarrow> gen_ext g g'"
  by (auto simp: get_column_name_id_def gen_ext_def Let_def split: option.splits)

lemma gen_ext_length: "gen_ext g g' \<Longrightarrow> length (column_names g) \<le> length (column_names g')"
  by (auto simp: gen_ext_def)

lemma lookup_names_at: "list_all2 (\<lambda>r n. names_at names (cr_column_name_id r) n) refs ns \<Longrightarrow> lookup_names names refs = Ok ns"
  by (induction refs ns rule: list_all2_induct) (auto simp: names_at_def)

lemma names_at_ext: "gen_ext g g' \<Longrightarrow> names_at (column_names g) i n \<Longrightarrow> names_at (column_names g') i n"
  by (auto simp: gen_ext_def intro: names_at_append)

subsection \<open>The columns header index is read back\<close>

definition ref_bytes :: "ColumnHeaderRef \<Rightarrow> bytes" where
  "ref_bytes r = varint_bytes (cr_column_name_id r) @ varint_bytes (cr_offset r)"

lemma marshal_refs_bytes:
  "marshal_column_headers_refs dst refs = dst @ varint_bytes (of_nat (length refs)) @ concat (map ref_bytes refs)"
proof -
  have "foldl (\<lambda>dst r. marshal_var_uint64 (marshal_var_uint64 dst (cr_column_name_id r)) (cr_offset r)) d rs = d @ concat (map ref_bytes rs)" for d rs
    by (induction rs arbitrary: d) (simp_all add: ref_bytes_def codec_simps)
  then show ?thesis by (simp add: marshal_column_headers_refs_def codec_simps)
qed

lemma read_refs_bytes: "read_refs n (length refs) (concat (map ref_bytes refs) @ rest) = Ok (refs, rest)"
  by (induction refs) (simp_all add: ref_bytes_def codec_simps)

lemma unmarshal_refs_bytes:
  "length refs < 2 ^ 64 \<Longrightarrow> unmarshal_column_headers_refs_inplace (varint_bytes (of_nat (length refs)) @ concat (map ref_bytes refs) @ rest) = Ok (refs, rest)"
  by (simp add: unmarshal_column_headers_refs_inplace_def codec_simps read_refs_bytes unat_of_nat take_bit_nat_eq_self)

lemma ci_unmarshal_marshal:
  assumes "length (ci_column_headers_refs ci) < 2 ^ 64" "length (ci_const_columns_refs ci) < 2 ^ 64"
  shows "ci_unmarshal_inplace (ci_marshal [] ci) = Ok ci"
proof -
  have "ci_marshal [] ci = (varint_bytes (of_nat (length (ci_column_headers_refs ci))) @ concat (map ref_bytes (ci_column_headers_refs ci)) @
      (varint_bytes (of_nat (length (ci_const_columns_refs ci))) @ concat (map ref_bytes (ci_const_columns_refs ci)) @ []))"
    by (simp add: ci_marshal_def marshal_refs_bytes)
  then show ?thesis
    using unmarshal_refs_bytes [OF assms(1)] unmarshal_refs_bytes [OF assms(2), of "[]"] by (simp add: ci_unmarshal_inplace_def)
qed

lemma ci_marshal_append: "ci_marshal dst ci = dst @ ci_marshal [] ci"
  by (simp add: ci_marshal_def marshal_refs_bytes)

subsection \<open>Column names and column indexes are read back\<close>

lemma foldl_marshal_bytes: "foldl marshal_bytes dst ns = dst @ concat (map (marshal_bytes []) ns)"
proof (induction ns arbitrary: dst)
  case (Cons n ns)
  show ?case using Cons.IH [of "marshal_bytes dst n"] marshal_bytes_append [of dst n] by simp
qed simp

lemma read_names_bytes:
  assumes "distinct (dn @ ns)" "length (dn @ ns) < 2 ^ 64" "\<forall>n \<in> set ns. length n < 2 ^ 64"
    and "\<forall>n. ids n = (if n \<in> set dn then Some (of_nat (name_index dn n)) else None)"
  shows "\<exists>ids'. read_names (of_nat (length (dn @ ns))) (length ns) (ids, dn) (concat (map (marshal_bytes []) ns) @ rest) = Ok ((ids', dn @ ns), rest) \<and>
    (\<forall>n. ids' n = (if n \<in> set (dn @ ns) then Some (of_nat (name_index (dn @ ns) n)) else None))"
  using assms
proof (induction ns arbitrary: dn ids)
  case (Cons n ns)
  have nid: "(of_nat (length (dn @ n # ns)) :: u64) - of_nat (Suc (length ns)) = of_nat (length dn)" by simp
  have "unmarshal_bytes (concat (map (marshal_bytes []) (n # ns)) @ rest) = (Some n, int (length (marshal_bytes [] n)))"
    using unmarshal_bytes_marshal [of n "concat (map (marshal_bytes []) ns) @ rest"] Cons.prems(3) by simp
  then have step: "read_names (of_nat (length (dn @ n # ns))) (length (n # ns)) (ids, dn) (concat (map (marshal_bytes []) (n # ns)) @ rest) =
      read_names (of_nat (length ((dn @ [n]) @ ns))) (length ns) (ids(n \<mapsto> of_nat (length dn)), dn @ [n]) (concat (map (marshal_bytes []) ns) @ rest)"
    using Cons.prems(1,4) nid marshal_bytes_nonempty [of "[]" n] by (simp add: Let_def)
  have "\<exists>ids'. read_names (of_nat (length ((dn @ [n]) @ ns))) (length ns) (ids(n \<mapsto> of_nat (length dn)), dn @ [n]) (concat (map (marshal_bytes []) ns) @ rest) =
      Ok ((ids', (dn @ [n]) @ ns), rest) \<and> (\<forall>m. ids' m = (if m \<in> set ((dn @ [n]) @ ns) then Some (of_nat (name_index ((dn @ [n]) @ ns) m)) else None))"
    by (rule Cons.IH) (use Cons.prems in \<open>auto simp: name_index_append\<close>)
  moreover have a: "(dn @ [n]) @ ns = dn @ n # ns" by simp
  ultimately show ?case unfolding step a by blast
qed simp

definition name_ids :: "bytes list \<Rightarrow> bytes \<rightharpoonup> u64" where
  "name_ids names n = (if n \<in> set names then Some (of_nat (name_index names n)) else None)"

lemma column_names_roundtrip:
  assumes "zstd_ok z" "distinct names" "length names < 2 ^ 63" "\<forall>n \<in> set names. length n < 2 ^ 64"
  shows "unmarshal_column_names z (marshal_column_names z [] names) = Ok (names, name_ids names)"
proof -
  have u: "unat (of_nat (length names) :: u64) = length names"
    using assms(3) by (simp add: unat_of_nat take_bit_nat_eq_self)
  then have n: "\<not> (of_nat (length names) :: u64) > 0x7FFFFFFFFFFFFFFF" using assms(3) by (simp add: word_less_nat_alt)
  obtain ids where ids: "read_names (of_nat (length names)) (length names) (Map.empty, []) (concat (map (marshal_bytes []) names)) = Ok ((ids, names), [])"
      "\<forall>m. ids m = name_ids names m"
    using read_names_bytes [of "[]" names Map.empty "[]"] assms by (auto simp: name_ids_def)
  have "ids = name_ids names" using ids(2) by (simp add: fun_eq_iff)
  moreover have "zdecompress z (zcompress z l b) = Some b" for l b using assms(1) by (simp add: zstd_ok_def)
  ultimately show ?thesis using ids(1) n u
    by (simp add: unmarshal_column_names_def marshal_column_names_def compress_zstd_level_def foldl_marshal_bytes codec_simps)
qed

definition idx_bytes :: "u64 \<times> u64 \<Rightarrow> bytes" where
  "idx_bytes e = varint_bytes (fst e) @ varint_bytes (snd e)"

lemma marshal_idxs_bytes:
  "marshal_column_idxs dst es = dst @ varint_bytes (of_nat (length es)) @ concat (map idx_bytes es)"
proof -
  have "foldl (\<lambda>dst (c, s). marshal_var_uint64 (marshal_var_uint64 dst c) s) d es = d @ concat (map idx_bytes es)" for d
    by (induction es arbitrary: d) (auto simp: idx_bytes_def codec_simps)
  then show ?thesis by (simp add: marshal_column_idxs_def codec_simps)
qed

definition put_entry :: "('a \<Rightarrow> 'b) \<Rightarrow> ('b \<rightharpoonup> 'c) \<Rightarrow> 'a \<times> 'c \<Rightarrow> ('b \<rightharpoonup> 'c)" where
  "put_entry f m e = m(f (fst e) \<mapsto> snd e)"

lemma read_idxs_bytes:
  assumes "\<forall>(c, s) \<in> set es. unat c < length names \<and> s < shards"
  shows "read_idxs names shards n (length es) m (concat (map idx_bytes es) @ rest) =
    Ok (foldl (put_entry (\<lambda>c. names ! unat c)) m es, rest)"
  using assms
proof (induction es arbitrary: m)
  case (Cons e es)
  obtain c s where e: "e = (c, s)" by fastforce
  show ?case using Cons by (simp add: e idx_bytes_def [of "(c, s)"] codec_simps not_le put_entry_def [of _ _ "(c, s)"])
qed simp

lemma foldl_put_entry:
  assumes "distinct (map fst es)" "inj_on f (fst ` set es)" "(c, s) \<in> set es"
  shows "foldl (put_entry f) m es (f c) = Some s"
  using assms
proof (induction es rule: rev_induct)
  case (snoc e es)
  show ?case
  proof (cases "(c, s) = e")
    case False
    then have cs: "(c, s) \<in> set es" using snoc.prems(3) by simp
    have "c \<in> fst ` set es" using cs by (metis fst_conv image_eqI)
    moreover have "fst e \<notin> fst ` set es" using snoc.prems(1) by simp
    ultimately have "c \<noteq> fst e" by blast
    moreover have "c \<in> fst ` set es" by fact
    ultimately have ne: "f c \<noteq> f (fst e)" using inj_onD [OF snoc.prems(2), of c "fst e"] by auto
    have "foldl (put_entry f) m es (f c) = Some s"
      by (rule snoc.IH) (use snoc.prems(1) inj_on_subset [OF snoc.prems(2), of "fst ` set es"] cs in auto)
    then show ?thesis using ne by (simp add: put_entry_def [of _ _ e])
  next
    case True
    then show ?thesis by (simp add: put_entry_def [of _ _ e]) (metis fst_conv fun_upd_same snd_conv)
  qed
qed simp

lemma column_idxs_roundtrip:
  assumes "distinct names" "distinct (map fst es)" "length es < 2 ^ 63" "\<forall>(c, s) \<in> set es. unat c < length names \<and> s < shards"
  shows "\<exists>m. unmarshal_column_idxs (marshal_column_idxs [] es) names shards = Ok m \<and>
    (\<forall>(c, s) \<in> set es. m (names ! unat c) = Some s)"
proof -
  have u: "unat (of_nat (length es) :: u64) = length es"
    using assms(3) by (simp add: unat_of_nat take_bit_nat_eq_self)
  then have n: "\<not> (of_nat (length es) :: u64) > 0x7FFFFFFFFFFFFFFF" using assms(3) by (simp add: word_less_nat_alt)
  have inj: "inj_on (\<lambda>c. names ! unat c) (fst ` set es)"
  proof (rule inj_onI)
    fix c d assume c: "c \<in> fst ` set es" "d \<in> fst ` set es" "names ! unat c = names ! unat d"
    then have "unat c < length names" "unat d < length names" using assms(4) by auto
    then have "unat c = unat d" using c(3) assms(1) by (simp add: nth_eq_iff_index_eq)
    then show "c = d" by (simp add: word_unat_eq_iff)
  qed
  have "unmarshal_column_idxs (marshal_column_idxs [] es) names shards = Ok (foldl (put_entry (\<lambda>c. names ! unat c)) Map.empty es)"
    using n u read_idxs_bytes [OF assms(4), of "of_nat (length es)" Map.empty "[]"]
    by (simp add: unmarshal_column_idxs_def marshal_idxs_bytes codec_simps)
  then show ?thesis using foldl_put_entry [OF assms(2) inj] by auto
qed

subsection \<open>Columns headers are read back\<close>

lemma marshal_headers_props:
  assumes "list_all (ch_valid f64) chs" "gen_inv g" "length (column_names g) + length chs < 2 ^ 64"
    and "dst_len \<le> length dst" "length dst - dst_len + length (concat (map ch_bytes chs)) < 2 ^ 64"
  shows "\<exists>refs g'. marshal_headers f64 dst_len chs dst g = Ok (dst @ concat (map ch_bytes chs), refs, g') \<and>
    gen_inv g' \<and> gen_ext g g' \<and> length (column_names g') \<le> length (column_names g) + length chs \<and>
    list_all2 (\<lambda>r ch. names_at (column_names g') (cr_column_name_id r) (ch_name ch)) refs chs \<and>
    (\<forall>i < length chs. unat (cr_offset (refs ! i)) = length dst - dst_len + length (concat (map ch_bytes (take i chs))))"
  using assms
proof (induction chs arbitrary: dst g)
  case (Cons ch chs)
  obtain nid g1 where g1: "get_column_name_id g (ch_name ch) = (nid, g1)" by fastforce
  have l1: "length (column_names g1) \<le> Suc (length (column_names g))"
    using g1 by (auto simp: get_column_name_id_def Let_def split: option.splits)
  have p1: "gen_inv g1" "gen_ext g g1" "names_at (column_names g1) nid (ch_name ch)"
    using get_column_name_id_props [OF Cons.prems(2) g1] l1 Cons.prems(3) by auto
  have ch: "ch_marshal f64 dst ch = Ok (dst @ ch_bytes ch)" using Cons.prems(1) by (intro ch_marshal_bytes) simp
  have pre: "list_all (ch_valid f64) chs" "length (column_names g1) + length chs < 2 ^ 64" "dst_len \<le> length (dst @ ch_bytes ch)"
      "length (dst @ ch_bytes ch) - dst_len + length (concat (map ch_bytes chs)) < 2 ^ 64"
    using Cons.prems l1 by auto
  obtain refs g' where r: "marshal_headers f64 dst_len chs (dst @ ch_bytes ch) g1 = Ok ((dst @ ch_bytes ch) @ concat (map ch_bytes chs), refs, g')"
      "gen_inv g'" "gen_ext g1 g'" "length (column_names g') \<le> length (column_names g1) + length chs"
      "list_all2 (\<lambda>r ch. names_at (column_names g') (cr_column_name_id r) (ch_name ch)) refs chs"
      "\<forall>i < length chs. unat (cr_offset (refs ! i)) = length (dst @ ch_bytes ch) - dst_len + length (concat (map ch_bytes (take i chs)))"
    using Cons.IH [OF pre(1) p1(1) pre(2-4)] by blast
  let ?r = "\<lparr>cr_column_name_id = nid, cr_offset = of_nat (length dst - dst_len)\<rparr>"
  have off: "unat (of_nat (length dst - dst_len) :: u64) = length dst - dst_len"
    using Cons.prems(5) by (simp add: unat_of_nat take_bit_nat_eq_self)
  have offs: "unat (cr_offset ((?r # refs) ! i)) = length dst - dst_len + length (concat (map ch_bytes (take i (ch # chs))))"
    if "i < length (ch # chs)" for i
    using that r(6) off Cons.prems(4) by (cases i) auto
  have "marshal_headers f64 dst_len (ch # chs) dst g = Ok (dst @ concat (map ch_bytes (ch # chs)), ?r # refs, g')"
    using g1 ch r(1) by (simp add: Let_def)
  moreover have "list_all2 (\<lambda>r ch. names_at (column_names g') (cr_column_name_id r) (ch_name ch)) (?r # refs) (ch # chs)"
    using r(5) names_at_ext [OF r(3) p1(3)] by simp
  ultimately show ?case
    using r(2,4) l1 gen_ext_trans [OF p1(2) r(3)] offs by (intro exI [of _ "?r # refs"] exI [of _ g']) auto
qed simp

definition const_bytes :: "Field list \<Rightarrow> bytes" where
  "const_bytes ccs = concat (map (\<lambda>cc. marshal_bytes [] (field_value cc)) ccs)"

lemma marshal_consts_props:
  assumes "gen_inv g" "length (column_names g) + length ccs < 2 ^ 64"
  shows "\<exists>refs g'. marshal_consts dst_len ccs dst g = (dst @ const_bytes ccs, refs, g') \<and>
    gen_inv g' \<and> gen_ext g g' \<and> length (column_names g') \<le> length (column_names g) + length ccs \<and>
    list_all2 (\<lambda>r cc. names_at (column_names g') (cr_column_name_id r) (field_name cc)) refs ccs"
  using assms
proof (induction ccs arbitrary: dst g)
  case (Cons cc ccs)
  obtain nid g1 where g1: "get_column_name_id g (field_name cc) = (nid, g1)" by fastforce
  have l1: "length (column_names g1) \<le> Suc (length (column_names g))"
    using g1 by (auto simp: get_column_name_id_def Let_def split: option.splits)
  have p1: "gen_inv g1" "gen_ext g g1" "names_at (column_names g1) nid (field_name cc)"
    using get_column_name_id_props [OF Cons.prems(1) g1] l1 Cons.prems(2) by auto
  have fm: "field_marshal dst cc False = dst @ marshal_bytes [] (field_value cc)"
    by (simp add: field_marshal_def marshal_bytes_append [of dst])
  obtain refs g' where r: "marshal_consts dst_len ccs (field_marshal dst cc False) g1 = (field_marshal dst cc False @ const_bytes ccs, refs, g')"
      "gen_inv g'" "gen_ext g1 g'" "length (column_names g') \<le> length (column_names g1) + length ccs"
      "list_all2 (\<lambda>r cc. names_at (column_names g') (cr_column_name_id r) (field_name cc)) refs ccs"
    using Cons.IH [OF p1(1)] l1 Cons.prems(2) by fastforce
  then show ?case using g1 l1 gen_ext_trans [OF p1(2) r(3)] names_at_ext [OF r(3) p1(3)]
    by (simp add: Let_def fm const_bytes_def)
qed (simp add: const_bytes_def)

lemma read_column_headers_bytes:
  assumes "list_all (ch_valid f64) chs" "1 \<le> v"
  shows "read_column_headers v (length chs) (concat (map ch_bytes chs) @ rest) = Ok (map ch_stored chs, rest)"
  using assms(1)
proof (induction chs)
  case (Cons ch chs)
  then have "ch_valid f64 ch" by simp
  from ch_unmarshal_bytes [OF this assms(2)] Cons show ?case by simp
qed simp

lemma read_const_columns_bytes:
  assumes "list_all field_small ccs" "1 \<le> v"
  shows "read_const_columns v (length ccs) (const_bytes ccs @ rest) = Ok (map (\<lambda>cc. Field [] (field_value cc)) ccs, rest)"
  using assms(1)
proof (induction ccs)
  case (Cons cc ccs)
  have "field_unmarshal_inplace (Field [] []) (marshal_bytes [] (field_value cc) @ r) False = Ok (Field [] (field_value cc), r)" for r
    using field_unmarshal_value [of cc "Field [] []" r] Cons.prems by (simp add: field_marshal_def)
  then show ?case using Cons assms(2) by (simp add: const_bytes_def)
qed (simp add: const_bytes_def)

text \<open>The columns header as it is after reading: the stored column headers with their names.\<close>

definition csh_stored :: "ColumnsHeader \<Rightarrow> ColumnsHeader" where
  "csh_stored csh = csh\<lparr>csh_column_headers := map (\<lambda>ch. (ch_stored ch)\<lparr>ch_name := ch_name ch\<rparr>) (csh_column_headers csh)\<rparr>"

definition csh_valid :: "'f f64_ops \<Rightarrow> ColumnsHeader \<Rightarrow> bool" where
  "csh_valid f64 csh \<longleftrightarrow>
    list_all (ch_valid f64) (csh_column_headers csh) \<and> list_all field_small (csh_const_columns csh) \<and>
    length (csh_column_headers csh) + length (csh_const_columns csh) \<le> MAX_COLUMNS_PER_BLOCK"

definition csh_bytes :: "ColumnsHeader \<Rightarrow> bytes" where
  "csh_bytes csh =
    varint_bytes (of_nat (length (csh_column_headers csh))) @ concat (map ch_bytes (csh_column_headers csh)) @
    varint_bytes (of_nat (length (csh_const_columns csh))) @ const_bytes (csh_const_columns csh)"

lemma csh_marshal_props:
  assumes "csh_valid f64 csh" "gen_inv g" "length (column_names g) < 2 ^ 62" "length (csh_bytes csh) < 2 ^ 64"
  shows "\<exists>ci g'. csh_marshal f64 dst csh g = Ok (dst @ csh_bytes csh, ci, g') \<and> gen_inv g' \<and> gen_ext g g' \<and>
    length (column_names g') \<le> length (column_names g) + MAX_COLUMNS_PER_BLOCK \<and>
    list_all2 (\<lambda>r ch. names_at (column_names g') (cr_column_name_id r) (ch_name ch)) (ci_column_headers_refs ci) (csh_column_headers csh) \<and>
    list_all2 (\<lambda>r cc. names_at (column_names g') (cr_column_name_id r) (field_name cc)) (ci_const_columns_refs ci) (csh_const_columns csh) \<and>
    (\<forall>i < length (csh_column_headers csh). unat (cr_offset (ci_column_headers_refs ci ! i)) =
       length (varint_bytes (of_nat (length (csh_column_headers csh))) @ concat (map ch_bytes (take i (csh_column_headers csh)))))"
proof -
  let ?chs = "csh_column_headers csh" and ?ccs = "csh_const_columns csh"
  let ?d = "dst @ varint_bytes (of_nat (length ?chs))"
  have v: "list_all (ch_valid f64) ?chs" "length ?chs + length ?ccs \<le> 2000"
    using assms(1) by (auto simp: csh_valid_def MAX_COLUMNS_PER_BLOCK_def)
  have pre: "length (column_names g) + length ?chs < 2 ^ 64" "length dst \<le> length ?d"
      "length ?d - length dst + length (concat (map ch_bytes ?chs)) < 2 ^ 64"
    using assms(3,4) v(2) by (auto simp: csh_bytes_def)
  obtain refs g1 where h: "marshal_headers f64 (length dst) ?chs ?d g = Ok (?d @ concat (map ch_bytes ?chs), refs, g1)"
      "gen_inv g1" "gen_ext g g1" "length (column_names g1) \<le> length (column_names g) + length ?chs"
      "list_all2 (\<lambda>r ch. names_at (column_names g1) (cr_column_name_id r) (ch_name ch)) refs ?chs"
      "\<forall>i < length ?chs. unat (cr_offset (refs ! i)) = length ?d - length dst + length (concat (map ch_bytes (take i ?chs)))"
    using marshal_headers_props [OF v(1) assms(2) pre] by blast
  have "length (column_names g1) + length ?ccs < 2 ^ 64" using h(4) assms(3) v(2) by simp
  then obtain crefs g' where c: "marshal_consts (length dst) ?ccs ((?d @ concat (map ch_bytes ?chs)) @ varint_bytes (of_nat (length ?ccs))) g1 =
        (((?d @ concat (map ch_bytes ?chs)) @ varint_bytes (of_nat (length ?ccs))) @ const_bytes ?ccs, crefs, g')"
      "gen_inv g'" "gen_ext g1 g'" "length (column_names g') \<le> length (column_names g1) + length ?ccs"
      "list_all2 (\<lambda>r cc. names_at (column_names g') (cr_column_name_id r) (field_name cc)) crefs ?ccs"
    using marshal_consts_props [OF h(2)] by blast
  have "csh_marshal f64 dst csh g = Ok (dst @ csh_bytes csh, \<lparr>ci_column_headers_refs = refs, ci_const_columns_refs = crefs\<rparr>, g')"
    using h(1) c(1) by (simp add: csh_marshal_def Let_def codec_simps csh_bytes_def)
  moreover have "list_all2 (\<lambda>r ch. names_at (column_names g') (cr_column_name_id r) (ch_name ch)) refs ?chs"
    by (rule list_all2_mono [OF h(5)]) (rule names_at_ext [OF c(3)])
  ultimately show ?thesis
    using c(2,4,5) h(4,6) gen_ext_trans [OF h(3) c(3)] v(2) by (simp add: MAX_COLUMNS_PER_BLOCK_def)
qed

lemma csh_unmarshal_bytes:
  assumes "csh_valid f64 csh" "1 \<le> v"
  shows "csh_unmarshal_inplace (csh_bytes csh) v =
    Ok \<lparr>csh_column_headers = map ch_stored (csh_column_headers csh), csh_const_columns = map (\<lambda>cc. Field [] (field_value cc)) (csh_const_columns csh)\<rparr>"
proof -
  let ?n = "length (csh_column_headers csh)" and ?m = "length (csh_const_columns csh)"
  have v: "list_all (ch_valid f64) (csh_column_headers csh)" "list_all field_small (csh_const_columns csh)" "?n + ?m \<le> 2000"
    using assms(1) by (auto simp: csh_valid_def MAX_COLUMNS_PER_BLOCK_def)
  have u: "unat (of_nat ?n :: u64) = ?n" "unat (of_nat ?m :: u64) = ?m"
    using v(3) by (simp_all add: unat_of_nat take_bit_nat_eq_self)
  then have le: "\<not> (of_nat ?n :: u64) > 1000000" "\<not> (of_nat ?m :: u64) > 1000000"
    using v(3) by (simp_all add: word_less_nat_alt)
  show ?thesis
    using le u v(3) read_column_headers_bytes [OF v(1) assms(2)] read_const_columns_bytes [OF v(2) assms(2), of "[]"]
    by (simp add: csh_unmarshal_inplace_def csh_bytes_def codec_simps MAX_COLUMNS_PER_BLOCK_def)
qed

lemma set_column_names_stored:
  assumes "list_all2 (\<lambda>r ch. names_at names (cr_column_name_id r) (ch_name ch)) (ci_column_headers_refs ci) (csh_column_headers csh)"
    and "list_all2 (\<lambda>r cc. names_at names (cr_column_name_id r) (field_name cc)) (ci_const_columns_refs ci) (csh_const_columns csh)"
  shows "set_column_names \<lparr>csh_column_headers = map ch_stored (csh_column_headers csh), csh_const_columns = map (\<lambda>cc. Field [] (field_value cc)) (csh_const_columns csh)\<rparr>
    ci names = Ok (csh_stored csh)"
proof -
  have "lookup_names names (ci_column_headers_refs ci) = Ok (map ch_name (csh_column_headers csh))"
      "lookup_names names (ci_const_columns_refs ci) = Ok (map field_name (csh_const_columns csh))"
    using assms by (auto intro!: lookup_names_at simp: list_all2_map2)
  moreover have "map2 (\<lambda>ch n. ch\<lparr>ch_name := n\<rparr>) (map ch_stored chs) (map ch_name chs) = map (\<lambda>ch. (ch_stored ch)\<lparr>ch_name := ch_name ch\<rparr>) chs" for chs
    by (induction chs) simp_all
  moreover have "map2 (\<lambda>cc n. Field n (field_value cc)) (map (\<lambda>cc. Field [] (field_value cc)) ccs) (map field_name ccs) = ccs" for ccs
    by (induction ccs) simp_all
  ultimately show ?thesis using list_all2_lengthD [OF assms(1)] list_all2_lengthD [OF assms(2)]
    by (simp add: set_column_names_def csh_stored_def)
qed

subsection \<open>Index block headers are read back\<close>

lemma ih_marshal_bytes:
  "ih_marshal dst ih = dst @ stream_id_marshal [] (ih_stream_id ih) @ to_be_bytes 8 (ih_min_timestamp ih) @ to_be_bytes 8 (ih_max_timestamp ih) @
    to_be_bytes 8 (ih_index_block_offset ih) @ to_be_bytes 8 (ih_index_block_size ih)"
  by (simp add: ih_marshal_def Let_def marshal_uint64_def stream_id_marshal_append [of dst])

lemma ih_unmarshal_marshal: "ih_unmarshal (ih_marshal [] ih @ rest) = Ok (ih, rest)"
  by (simp add: ih_unmarshal_def ih_marshal_bytes codec_simps drop_append)

lemma ih_marshal_nonempty: "ih_marshal dst ih \<noteq> []"
  by (auto simp: ih_marshal_bytes dest: arg_cong [where f = length])

lemma read_index_block_headers_marshal: "read_index_block_headers (concat (map (ih_marshal []) ihs)) = Ok ihs"
proof (induction ihs)
  case (Cons ih ihs)
  then show ?case
    by (subst read_index_block_headers.simps) (simp add: ih_unmarshal_marshal ih_marshal_nonempty)
qed (simp add: read_index_block_headers.simps)

lemma unmarshal_index_block_headers_marshal:
  assumes "sorted (map ih_stream_id ihs)"
  shows "unmarshal_index_block_headers dst (concat (map (ih_marshal []) ihs)) = Ok (dst @ ihs)"
  using assms validate_index_block_headers_iff [of 1 ihs]
  by (simp add: unmarshal_index_block_headers_def read_index_block_headers_marshal)

subsection \<open>Properties\<close>

lemma refs_lengths:
  assumes "list_all2 P (ci_column_headers_refs ci) (csh_column_headers csh)" "list_all2 Q (ci_const_columns_refs ci) (csh_const_columns csh)"
    and "csh_valid f64 csh"
  shows "ci_unmarshal_inplace (ci_marshal [] ci) = Ok ci"
  by (rule ci_unmarshal_marshal)
    (use assms list_all2_lengthD [OF assms(1)] list_all2_lengthD [OF assms(2)] in \<open>auto simp: csh_valid_def MAX_COLUMNS_PER_BLOCK_def\<close>)

text \<open>C11: a columns header and its index, written and read back with the column names of the part (the names
  known when it was written and any names added later), give the same columns and constant columns (a dictionary column
  without a bloom filter position, which the format does not store for it);
  and the offset the index keeps for a column is where the header of that column starts.\<close>

theorem columns_header_roundtrip:
  assumes "csh_valid f64 csh" "gen_inv g" "length (column_names g) < 2 ^ 62" "length (csh_bytes csh) < 2 ^ 64" "1 \<le> v"
  shows "\<exists>enc ci g'. csh_marshal f64 dst csh g = Ok (dst @ enc, ci, g') \<and> gen_inv g' \<and>
    (\<forall>later. \<exists>csh0. csh_unmarshal_inplace enc v = Ok csh0 \<and> ci_unmarshal_inplace (ci_marshal [] ci) = Ok ci \<and>
       set_column_names csh0 ci (column_names g' @ later) = Ok (csh_stored csh)) \<and>
    (\<forall>i < length (csh_column_headers csh). \<exists>tail.
       ch_unmarshal_inplace (drop (unat (cr_offset (ci_column_headers_refs ci ! i))) enc) v = Ok (ch_stored (csh_column_headers csh ! i), tail))"
proof -
  let ?chs = "csh_column_headers csh"
  obtain ci g' where m: "csh_marshal f64 dst csh g = Ok (dst @ csh_bytes csh, ci, g')" "gen_inv g'"
      "list_all2 (\<lambda>r ch. names_at (column_names g') (cr_column_name_id r) (ch_name ch)) (ci_column_headers_refs ci) ?chs"
      "list_all2 (\<lambda>r cc. names_at (column_names g') (cr_column_name_id r) (field_name cc)) (ci_const_columns_refs ci) (csh_const_columns csh)"
      "\<forall>i < length ?chs. unat (cr_offset (ci_column_headers_refs ci ! i)) = length (varint_bytes (of_nat (length ?chs)) @ concat (map ch_bytes (take i ?chs)))"
    using csh_marshal_props [OF assms(1-4), of dst] by blast
  have sn: "set_column_names \<lparr>csh_column_headers = map ch_stored ?chs, csh_const_columns = map (\<lambda>cc. Field [] (field_value cc)) (csh_const_columns csh)\<rparr>
      ci (column_names g' @ later) = Ok (csh_stored csh)" for later
    by (rule set_column_names_stored; rule list_all2_mono [OF m(3)] list_all2_mono [OF m(4)]; rule names_at_append)
  have at: "\<exists>tail. ch_unmarshal_inplace (drop (unat (cr_offset (ci_column_headers_refs ci ! i))) (csh_bytes csh)) v = Ok (ch_stored (?chs ! i), tail)"
    if "i < length ?chs" for i
  proof -
    have "concat (map ch_bytes ?chs) = concat (map ch_bytes (take i ?chs)) @ ch_bytes (?chs ! i) @ concat (map ch_bytes (drop (Suc i) ?chs))"
      by (metis Cons_nth_drop_Suc append_take_drop_id concat.simps(2) concat_append list.simps(9) map_append that)
    then have "drop (unat (cr_offset (ci_column_headers_refs ci ! i))) (csh_bytes csh) = ch_bytes (?chs ! i) @ concat (map ch_bytes (drop (Suc i) ?chs)) @
        varint_bytes (of_nat (length (csh_const_columns csh))) @ const_bytes (csh_const_columns csh)"
      using m(5) that by (simp add: csh_bytes_def)
    moreover have "ch_valid f64 (?chs ! i)" using assms(1) that by (simp add: csh_valid_def list_all_length)
    ultimately show ?thesis using ch_unmarshal_bytes [OF _ assms(5)] by metis
  qed
  show ?thesis using m(1,2) csh_unmarshal_bytes [OF assms(1,5)] refs_lengths [OF m(3,4) assms(1)] sn at by blast
qed

definition csh_demo :: ColumnsHeader where
  "csh_demo = \<lparr>csh_column_headers = [ch_default\<lparr>ch_name := ascii ''level'', ch_value_type := DICT, ch_values_dict := \<lparr>dict_values = [ascii ''info'']\<rparr>, ch_values_size := 3\<rparr>,
      ch_default\<lparr>ch_name := ascii ''size'', ch_value_type := UINT16, ch_min_value := 5, ch_max_value := 700, ch_values_offset := 3, ch_values_size := 8, ch_bloom_filter_size := 16\<rparr>],
    csh_const_columns = [Field (ascii ''host'') (ascii ''a'')]\<rparr>"

lemma csh_demo_valid: "csh_valid demo_f64 csh_demo" "length (csh_bytes csh_demo) < 2 ^ 64"
proof -
  show "csh_valid demo_f64 csh_demo"
    by (simp add: csh_demo_def csh_valid_def ch_valid_def VALUE_TYPES_def ch_default_def min_above_max_def bounds_width_def dict_inv_def field_small_def
        MAX_DICT_LEN_def MAX_DICT_SIZE_BYTES_def MAX_VALUES_BLOCK_SIZE_def MAX_BLOOM_FILTER_BLOCK_SIZE_def MAX_COLUMNS_PER_BLOCK_def ascii_def value_type_defs)
  have "length (csh_bytes csh_demo) = 22" by code_simp
  then show "length (csh_bytes csh_demo) < 2 ^ 64" by simp
qed

theorem columns_header_roundtrip_witness:
  "\<exists>enc ci g' csh0. csh_marshal demo_f64 [9] csh_demo generator_default = Ok ([9] @ enc, ci, g') \<and> csh_unmarshal_inplace enc 3 = Ok csh0 \<and>
    set_column_names csh0 ci (column_names g' @ [ascii ''later'']) = Ok (csh_stored csh_demo)"
  using columns_header_roundtrip [OF csh_demo_valid(1) gen_default_inv _ csh_demo_valid(2), of 3 "[9]"]
  by (simp add: generator_default_def) blast
end
