(* ===== verification/Part_Streams.thy ===== *)
theory Part_Streams
  imports Block_Headers Bloom_Filter Tokenizer
begin

text \<open>
  Writing blocks to the streams of a part and reading them back: the stream parts of \<^verbatim>\<open>block.rs\<close> and
  \<^verbatim>\<open>block_data.rs\<close>, \<^verbatim>\<open>block_stream_writer.rs\<close> and \<^verbatim>\<open>block_stream_reader.rs\<close>. A part keeps timestamps, columns
  headers, their index, block headers, column names and, sharded by column, values and bloom filters
  in separate streams; a block header holds offsets into them. The lemmas relate a reader to the
  writer state at the moment a block was written: reading a block takes exactly the bytes that
  writing it appended.

  A stream is the list of the bytes written to it; files and memory buffers behave alike. A writer or
  reader that is not initialised is \<open>None\<close>, and using it panics. Code that stops with \<open>panicf!\<close> on an
  error has the outcome \<open>Panic\<close>. Buffers, encoders, tokenizers and bloom filters come from pools whose
  elements are reset when they are returned; here each use starts from a fresh one. The record \<open>env\<close>
  holds the parameters: zstd, \<open>f64\<close> operations, xxHash, the Unicode classes and the iteration order of
  a hash map.
\<close>

unbundle bit_operations_syntax

record 'f env =
  e_zstd :: zstd
  e_f64 :: "'f f64_ops"
  e_xxh64 :: "bytes \<Rightarrow> u64"
  e_letter_or_digit :: "nat \<Rightarrow> bool"
  e_order :: "(u64 \<times> u64) list \<Rightarrow> (u64 \<times> u64) list"

definition MAX_TIMESTAMPS_BLOCK_SIZE :: nat where "MAX_TIMESTAMPS_BLOCK_SIZE = 8 * 1024 * 1024"
definition MAX_INDEX_BLOCK_SIZE :: nat where "MAX_INDEX_BLOCK_SIZE = 8 * 1024 * 1024"
definition MAX_UNCOMPRESSED_INDEX_BLOCK_SIZE :: nat where "MAX_UNCOMPRESSED_INDEX_BLOCK_SIZE = 128 * 1024"
definition BLOOM_VALUES_MAX_SHARDS_COUNT :: nat where "BLOOM_VALUES_MAX_SHARDS_COUNT = 128"

text \<open>An error on which the caller stops.\<close>

definition or_panic :: "('a, 'e) outcome \<Rightarrow> ('a, unit) outcome" where
  "or_panic m = (case m of Ok x \<Rightarrow> Ok x | _ \<Rightarrow> Panic)"

definition panic_if :: "bool \<Rightarrow> (unit, unit) outcome" where
  "panic_if b = (if b then Panic else Ok ())"

subsection \<open>Definitions: writers\<close>

record WriterWithStats =
  w_data :: "bytes option"
  bytes_written :: u64

definition writer_init :: "bytes \<Rightarrow> WriterWithStats" where
  "writer_init d = \<lparr>w_data = Some d, bytes_written = 0\<rparr>"

definition must_write :: "WriterWithStats \<Rightarrow> bytes \<Rightarrow> (WriterWithStats, unit) outcome" where
  "must_write w data =
    (case w_data w of
       None \<Rightarrow> Panic
     | Some d \<Rightarrow> Ok (w\<lparr>w_data := Some (d @ data), bytes_written := bytes_written w + of_nat (length data)\<rparr>))"

record BloomValuesWriter =
  bw_bloom :: WriterWithStats
  bw_values :: WriterWithStats

definition bw_total_bytes_written :: "BloomValuesWriter \<Rightarrow> u64" where
  "bw_total_bytes_written w = bytes_written (bw_bloom w) + bytes_written (bw_values w)"

text \<open>The factory of shard writers: \<open>Inmemory True\<close> still holds its buffer.\<close>

datatype BloomValuesWriterFactory = NoFactory | Inmemory bool | FileFactory

definition create_shard :: "BloomValuesWriterFactory \<Rightarrow> (BloomValuesWriter \<times> BloomValuesWriterFactory, unit) outcome" where
  "create_shard f =
    (let w = \<lparr>bw_bloom = writer_init [], bw_values = writer_init []\<rparr> in
     case f of
       NoFactory \<Rightarrow> Panic
     | Inmemory avail \<Rightarrow> if avail then Ok (w, Inmemory False) else Panic
     | FileFactory \<Rightarrow> Ok (w, FileFactory))"

record StreamWriters =
  sw_column_names_writer :: WriterWithStats
  sw_column_idxs_writer :: WriterWithStats
  sw_metaindex_writer :: WriterWithStats
  sw_index_writer :: WriterWithStats
  sw_columns_header_index_writer :: WriterWithStats
  sw_columns_header_writer :: WriterWithStats
  sw_timestamps_writer :: WriterWithStats
  sw_message_bloom_values_writer :: BloomValuesWriter
  sw_bloom_values_shards :: "BloomValuesWriter list"
  sw_create_bloom_values_writer :: BloomValuesWriterFactory
  sw_max_shards :: u64
  sw_generator :: ColumnNameIDGenerator
  sw_column_idxs :: "(u64 \<times> u64) list"
  sw_next_column_idx :: u64

definition sw_init :: "BloomValuesWriterFactory \<Rightarrow> u64 \<Rightarrow> StreamWriters" where
  "sw_init factory max_shards =
    \<lparr>sw_column_names_writer = writer_init [], sw_column_idxs_writer = writer_init [], sw_metaindex_writer = writer_init [],
     sw_index_writer = writer_init [], sw_columns_header_index_writer = writer_init [], sw_columns_header_writer = writer_init [],
     sw_timestamps_writer = writer_init [],
     sw_message_bloom_values_writer = \<lparr>bw_bloom = writer_init [], bw_values = writer_init []\<rparr>,
     sw_bloom_values_shards = [], sw_create_bloom_values_writer = factory, sw_max_shards = max_shards,
     sw_generator = generator_default, sw_column_idxs = [], sw_next_column_idx = 0\<rparr>"

definition sw_total_bytes_written :: "StreamWriters \<Rightarrow> u64" where
  "sw_total_bytes_written sw =
    bytes_written (sw_column_names_writer sw) + bytes_written (sw_column_idxs_writer sw) + bytes_written (sw_metaindex_writer sw) +
    bytes_written (sw_index_writer sw) + bytes_written (sw_columns_header_index_writer sw) + bytes_written (sw_columns_header_writer sw) +
    bytes_written (sw_timestamps_writer sw) + bw_total_bytes_written (sw_message_bloom_values_writer sw) +
    sum_list (map bw_total_bytes_written (sw_bloom_values_shards sw))"

text \<open>Where the values of a column go: the message streams (\<open>None\<close>) or a shard.\<close>

definition get_bloom_values_writer_for_column_name ::
  "StreamWriters \<Rightarrow> bytes \<Rightarrow> (nat option \<times> StreamWriters, unit) outcome" where
  "get_bloom_values_writer_for_column_name sw name =
    (if name = [] then Ok (None, sw)
     else
       case get_column_name_id (sw_generator sw) name of (column_id, g) \<Rightarrow>
       let sw = sw\<lparr>sw_generator := g\<rparr> in
       obind (case map_of (sw_column_idxs sw) column_id of
           Some shard_idx \<Rightarrow> Ok (shard_idx, sw)
         | None \<Rightarrow>
             if sw_max_shards sw = 0 then Panic
             else
               let shard_idx = sw_next_column_idx sw mod sw_max_shards sw;
                   sw = sw\<lparr>sw_next_column_idx := sw_next_column_idx sw + 1, sw_column_idxs := sw_column_idxs sw @ [(column_id, shard_idx)]\<rparr>;
                   n = length (sw_bloom_values_shards sw)
               in if unat shard_idx > n then Panic
                  else if unat shard_idx = n then
                    obind (create_shard (sw_create_bloom_values_writer sw)) (\<lambda>(w, f).
                    Ok (shard_idx, sw\<lparr>sw_create_bloom_values_writer := f, sw_bloom_values_shards := sw_bloom_values_shards sw @ [w]\<rparr>))
                  else Ok (shard_idx, sw)) (\<lambda>(shard_idx, sw).
       if unat shard_idx < length (sw_bloom_values_shards sw) then Ok (Some (unat shard_idx), sw) else Panic))"

definition bw_at :: "StreamWriters \<Rightarrow> nat option \<Rightarrow> BloomValuesWriter" where
  "bw_at sw l = (case l of None \<Rightarrow> sw_message_bloom_values_writer sw | Some i \<Rightarrow> sw_bloom_values_shards sw ! i)"

definition bw_put :: "nat option \<Rightarrow> BloomValuesWriter \<Rightarrow> StreamWriters \<Rightarrow> StreamWriters" where
  "bw_put l w sw =
    (case l of
       None \<Rightarrow> sw\<lparr>sw_message_bloom_values_writer := w\<rparr>
     | Some i \<Rightarrow> sw\<lparr>sw_bloom_values_shards := (sw_bloom_values_shards sw)[i := w]\<rparr>)"

text \<open>The last part of writing a column: its values and its bloom filter, with the size checks.\<close>

definition write_values_and_bloom ::
  "ColumnHeader \<Rightarrow> bytes \<Rightarrow> bytes \<Rightarrow> nat option \<Rightarrow> StreamWriters \<Rightarrow> (ColumnHeader \<times> StreamWriters, unit) outcome" where
  "write_values_and_bloom ch values bloom l sw =
    (let ch = ch\<lparr>ch_values_size := of_nat (length values)\<rparr> in
     obind (panic_if (ch_values_size ch > of_nat MAX_VALUES_BLOCK_SIZE)) (\<lambda>_.
     let w = bw_at sw l; ch = ch\<lparr>ch_values_offset := bytes_written (bw_values w)\<rparr> in
     obind (must_write (bw_values w) values) (\<lambda>vw.
     let ch = ch\<lparr>ch_bloom_filter_size := of_nat (length bloom)\<rparr> in
     obind (panic_if (ch_bloom_filter_size ch > of_nat MAX_BLOOM_FILTER_BLOCK_SIZE)) (\<lambda>_.
     let ch = ch\<lparr>ch_bloom_filter_offset := bytes_written (bw_bloom w)\<rparr> in
     obind (must_write (bw_bloom w) bloom) (\<lambda>bw.
     Ok (ch, bw_put l \<lparr>bw_bloom = bw, bw_values = vw\<rparr> sw))))))"

definition column_bloom :: "'f env \<Rightarrow> ValueType \<Rightarrow> bytes list \<Rightarrow> (bytes, unit) outcome" where
  "column_bloom e vt values =
    (if vt \<noteq> DICT then
       obind (or_panic (tokenize_hashes (e_xxh64 e) (e_letter_or_digit e) [] [] values)) (\<lambda>(hashes, _).
       obind (or_panic (bloom_filter_marshal_hashes (e_xxh64 e) [] [] hashes)) (\<lambda>(b, _). Ok b))
     else Ok [])"

definition column_must_write_to :: "'f env \<Rightarrow> Column \<Rightarrow> StreamWriters \<Rightarrow> (ColumnHeader \<times> StreamWriters, unit) outcome" where
  "column_must_write_to e c sw =
    obind (get_bloom_values_writer_for_column_name sw (col_name c)) (\<lambda>(l, sw).
    case encode (e_f64 e) ve_empty (col_values c) dict_empty of (ve, dict, vt, mn, mx) \<Rightarrow>
    let ch = ch_default\<lparr>ch_name := col_name c, ch_values_dict := dict, ch_value_type := vt, ch_min_value := mn, ch_max_value := mx\<rparr>;
        values = marshal_strings_block (e_zstd e) [] (ve_values ve)
    in obind (column_bloom e vt (col_values c)) (\<lambda>bloom. write_values_and_bloom ch values bloom l sw))"

primrec columns_must_write_to :: "'f env \<Rightarrow> Column list \<Rightarrow> StreamWriters \<Rightarrow> (ColumnHeader list \<times> StreamWriters, unit) outcome" where
  "columns_must_write_to e [] sw = Ok ([], sw)"
| "columns_must_write_to e (c # cs) sw =
    obind (column_must_write_to e c sw) (\<lambda>(ch, sw).
    obind (columns_must_write_to e cs sw) (\<lambda>(chs, sw). Ok (ch # chs, sw)))"

definition must_write_timestamps_to :: "'f env \<Rightarrow> i64 list \<Rightarrow> StreamWriters \<Rightarrow> (TimestampsHeader \<times> StreamWriters, unit) outcome" where
  "must_write_timestamps_to e ts sw =
    obind (or_panic (marshal_timestamps (e_zstd e) [] ts 64)) (\<lambda>(b, marshal_type, min_timestamp).
    obind (panic_if (length b > MAX_TIMESTAMPS_BLOCK_SIZE)) (\<lambda>_.
    if ts = [] then Panic
    else
      let th = \<lparr>th_block_offset = bytes_written (sw_timestamps_writer sw), th_block_size = of_nat (length b),
                 th_min_timestamp = min_timestamp, th_max_timestamp = ts ! (length ts - 1), th_marshal_type = marshal_type\<rparr>
      in obind (must_write (sw_timestamps_writer sw) b) (\<lambda>w. Ok (th, sw\<lparr>sw_timestamps_writer := w\<rparr>))))"

definition must_write_columns_header ::
  "'f env \<Rightarrow> ColumnsHeader \<Rightarrow> BlockHeader \<Rightarrow> StreamWriters \<Rightarrow> (BlockHeader \<times> StreamWriters, unit) outcome" where
  "must_write_columns_header e csh bh sw =
    obind (or_panic (csh_marshal (e_f64 e) [] csh (sw_generator sw))) (\<lambda>(bb, csh_index, g).
    let sw = sw\<lparr>sw_generator := g\<rparr>; data_len = length bb; bb = ci_marshal bb csh_index;
        bh = bh\<lparr>bh_columns_header_index_offset := bytes_written (sw_columns_header_index_writer sw),
                bh_columns_header_index_size := of_nat (length bb - data_len)\<rparr>
    in obind (panic_if (bh_columns_header_index_size bh > of_nat MAX_COLUMNS_HEADER_INDEX_SIZE)) (\<lambda>_.
    obind (must_write (sw_columns_header_index_writer sw) (drop data_len bb)) (\<lambda>w.
    let sw = sw\<lparr>sw_columns_header_index_writer := w\<rparr>;
        bh = bh\<lparr>bh_columns_header_offset := bytes_written (sw_columns_header_writer sw),
                bh_columns_header_size := of_nat data_len\<rparr>
    in obind (panic_if (bh_columns_header_size bh > of_nat MAX_COLUMNS_HEADER_SIZE)) (\<lambda>_.
    obind (must_write (sw_columns_header_writer sw) (take data_len bb)) (\<lambda>w.
    Ok (bh, sw\<lparr>sw_columns_header_writer := w\<rparr>))))))"

definition block_must_write_to ::
  "'f env \<Rightarrow> Block \<Rightarrow> StreamID \<Rightarrow> StreamWriters \<Rightarrow> (BlockHeader \<times> StreamWriters, unit) outcome" where
  "block_must_write_to e b s sw =
    obind (assert_valid b) (\<lambda>_.
    let bh = bh_default\<lparr>bh_stream_id := s, bh_uncompressed_size_bytes := of_nat (uncompressed_size_bytes b),
                        bh_rows_count := of_nat (length (b_timestamps b))\<rparr>
    in obind (must_write_timestamps_to e (b_timestamps b) sw) (\<lambda>(th, sw).
    obind (columns_must_write_to e (b_columns b) sw) (\<lambda>(chs, sw).
    must_write_columns_header e \<lparr>csh_column_headers = chs, csh_const_columns = b_const_columns b\<rparr>
      (bh\<lparr>bh_timestamps_header := th\<rparr>) sw)))"

subsection \<open>Definitions: packed blocks\<close>

record TimestampsData =
  td_data :: bytes
  td_marshal_type :: MarshalType
  td_min_timestamp :: i64
  td_max_timestamp :: i64

record ColumnData =
  cd_name :: bytes
  cd_value_type :: ValueType
  cd_min_value :: u64
  cd_max_value :: u64
  cd_values_dict :: ValuesDict
  cd_values_data :: bytes
  cd_bloom_filter_data :: bytes

record BlockData =
  bd_stream_id :: StreamID
  bd_uncompressed_size_bytes :: u64
  bd_rows_count :: u64
  bd_timestamps_data :: TimestampsData
  bd_columns_data :: "ColumnData list"
  bd_const_columns :: "Field list"

definition td_must_write_to :: "TimestampsData \<Rightarrow> StreamWriters \<Rightarrow> (TimestampsHeader \<times> StreamWriters, unit) outcome" where
  "td_must_write_to td sw =
    (let th = \<lparr>th_block_offset = bytes_written (sw_timestamps_writer sw), th_block_size = of_nat (length (td_data td)),
               th_min_timestamp = td_min_timestamp td, th_max_timestamp = td_max_timestamp td, th_marshal_type = td_marshal_type td\<rparr>
     in obind (panic_if (th_block_size th > of_nat MAX_TIMESTAMPS_BLOCK_SIZE)) (\<lambda>_.
     obind (must_write (sw_timestamps_writer sw) (td_data td)) (\<lambda>w. Ok (th, sw\<lparr>sw_timestamps_writer := w\<rparr>))))"

definition cd_must_write_to :: "ColumnData \<Rightarrow> StreamWriters \<Rightarrow> (ColumnHeader \<times> StreamWriters, unit) outcome" where
  "cd_must_write_to cd sw =
    (let ch = ch_default\<lparr>ch_name := cd_name cd, ch_value_type := cd_value_type cd, ch_min_value := cd_min_value cd,
                         ch_max_value := cd_max_value cd, ch_values_dict := cd_values_dict cd\<rparr>
     in obind (get_bloom_values_writer_for_column_name sw (cd_name cd)) (\<lambda>(l, sw).
     write_values_and_bloom ch (cd_values_data cd) (cd_bloom_filter_data cd) l sw))"

primrec cds_must_write_to :: "ColumnData list \<Rightarrow> StreamWriters \<Rightarrow> (ColumnHeader list \<times> StreamWriters, unit) outcome" where
  "cds_must_write_to [] sw = Ok ([], sw)"
| "cds_must_write_to (c # cs) sw =
    obind (cd_must_write_to c sw) (\<lambda>(ch, sw).
    obind (cds_must_write_to cs sw) (\<lambda>(chs, sw). Ok (ch # chs, sw)))"

definition bd_must_write_to :: "'f env \<Rightarrow> BlockData \<Rightarrow> StreamWriters \<Rightarrow> (BlockHeader \<times> StreamWriters, unit) outcome" where
  "bd_must_write_to e bd sw =
    (let bh = bh_default\<lparr>bh_stream_id := bd_stream_id bd, bh_uncompressed_size_bytes := bd_uncompressed_size_bytes bd,
                        bh_rows_count := bd_rows_count bd\<rparr>
     in obind (td_must_write_to (bd_timestamps_data bd) sw) (\<lambda>(th, sw).
     obind (cds_must_write_to (bd_columns_data bd) sw) (\<lambda>(chs, sw).
     must_write_columns_header e \<lparr>csh_column_headers = chs, csh_const_columns = bd_const_columns bd\<rparr>
       (bh\<lparr>bh_timestamps_header := th\<rparr>) sw)))"

subsection \<open>Definitions: readers\<close>

record ReaderWithStats =
  r_rest :: "bytes option"
  bytes_read :: u64

text \<open>
  \<open>must_read_full\<close>: at the end of the stream nothing is read and the zero bytes of the buffer stay; a
  partial read panics.
\<close>

definition must_read_full :: "ReaderWithStats \<Rightarrow> nat \<Rightarrow> (bytes \<times> ReaderWithStats, unit) outcome" where
  "must_read_full r n =
    (case r_rest r of
       None \<Rightarrow> Panic
     | Some d \<Rightarrow>
         let r' = r\<lparr>r_rest := Some (drop n d), bytes_read := bytes_read r + of_nat n\<rparr> in
         if n \<le> length d then Ok (take n d, r')
         else if d = [] then Ok (replicate n 0, r')
         else Panic)"

record BloomValuesReader =
  br_bloom :: ReaderWithStats
  br_values :: ReaderWithStats

record StreamReaders =
  sr_part_format_version :: nat
  sr_column_names_reader :: ReaderWithStats
  sr_column_idxs_reader :: ReaderWithStats
  sr_metaindex_reader :: ReaderWithStats
  sr_index_reader :: ReaderWithStats
  sr_columns_header_index_reader :: ReaderWithStats
  sr_columns_header_reader :: ReaderWithStats
  sr_timestamps_reader :: ReaderWithStats
  sr_message_bloom_values_reader :: BloomValuesReader
  sr_old_bloom_values_reader :: BloomValuesReader
  sr_bloom_values_shards :: "BloomValuesReader list"
  sr_column_idxs :: "bytes \<rightharpoonup> u64"
  sr_column_names :: "bytes list"

datatype reader_loc = MessageReader | OldReader | ShardReader nat

definition get_bloom_values_reader_for_column_name :: "(bytes \<Rightarrow> u64) \<Rightarrow> StreamReaders \<Rightarrow> bytes \<Rightarrow> (reader_loc, unit) outcome" where
  "get_bloom_values_reader_for_column_name xxh64 sr name =
    (if name = [] then Ok MessageReader
     else if sr_part_format_version sr < 1 then Ok OldReader
     else
       let n = length (sr_bloom_values_shards sr) in
       obind (if sr_part_format_version sr < 3 then Ok (if n > 1 then xxh64 name mod of_nat n else 0)
              else case sr_column_idxs sr name of Some shard_idx \<Rightarrow> Ok shard_idx | None \<Rightarrow> Panic) (\<lambda>shard_idx.
       if unat shard_idx < n then Ok (ShardReader (unat shard_idx)) else Panic))"

definition br_at :: "StreamReaders \<Rightarrow> reader_loc \<Rightarrow> BloomValuesReader" where
  "br_at sr l = (case l of MessageReader \<Rightarrow> sr_message_bloom_values_reader sr | OldReader \<Rightarrow> sr_old_bloom_values_reader sr
     | ShardReader i \<Rightarrow> sr_bloom_values_shards sr ! i)"

definition br_put :: "reader_loc \<Rightarrow> BloomValuesReader \<Rightarrow> StreamReaders \<Rightarrow> StreamReaders" where
  "br_put l r sr =
    (case l of
       MessageReader \<Rightarrow> sr\<lparr>sr_message_bloom_values_reader := r\<rparr>
     | OldReader \<Rightarrow> sr\<lparr>sr_old_bloom_values_reader := r\<rparr>
     | ShardReader i \<Rightarrow> sr\<lparr>sr_bloom_values_shards := (sr_bloom_values_shards sr)[i := r]\<rparr>)"

definition td_must_read_from :: "TimestampsHeader \<Rightarrow> StreamReaders \<Rightarrow> (TimestampsData \<times> StreamReaders, unit) outcome" where
  "td_must_read_from th sr =
    obind (panic_if (th_block_offset th \<noteq> bytes_read (sr_timestamps_reader sr))) (\<lambda>_.
    obind (panic_if (th_block_size th > of_nat MAX_TIMESTAMPS_BLOCK_SIZE)) (\<lambda>_.
    obind (must_read_full (sr_timestamps_reader sr) (unat (th_block_size th))) (\<lambda>(data, r).
    Ok (\<lparr>td_data = data, td_marshal_type = th_marshal_type th, td_min_timestamp = th_min_timestamp th,
         td_max_timestamp = th_max_timestamp th\<rparr>, sr\<lparr>sr_timestamps_reader := r\<rparr>))))"

definition cd_must_read_from :: "(bytes \<Rightarrow> u64) \<Rightarrow> ColumnHeader \<Rightarrow> StreamReaders \<Rightarrow> (ColumnData \<times> StreamReaders, unit) outcome" where
  "cd_must_read_from xxh64 ch sr =
    obind (get_bloom_values_reader_for_column_name xxh64 sr (ch_name ch)) (\<lambda>l.
    let r = br_at sr l in
    obind (panic_if (ch_values_offset ch \<noteq> bytes_read (br_values r))) (\<lambda>_.
    obind (panic_if (ch_values_size ch > of_nat MAX_VALUES_BLOCK_SIZE)) (\<lambda>_.
    obind (must_read_full (br_values r) (unat (ch_values_size ch))) (\<lambda>(values, vr).
    obind (if ch_value_type ch \<noteq> DICT then
             obind (panic_if (ch_bloom_filter_offset ch \<noteq> bytes_read (br_bloom r))) (\<lambda>_.
             obind (panic_if (ch_bloom_filter_size ch > of_nat MAX_BLOOM_FILTER_BLOCK_SIZE)) (\<lambda>_.
             must_read_full (br_bloom r) (unat (ch_bloom_filter_size ch))))
           else Ok ([], br_bloom r)) (\<lambda>(bloom, br).
    Ok (\<lparr>cd_name = ch_name ch, cd_value_type = ch_value_type ch, cd_min_value = ch_min_value ch, cd_max_value = ch_max_value ch,
         cd_values_dict = ch_values_dict ch, cd_values_data = values, cd_bloom_filter_data = bloom\<rparr>,
        br_put l \<lparr>br_bloom = br, br_values = vr\<rparr> sr))))))"

primrec cds_must_read_from :: "(bytes \<Rightarrow> u64) \<Rightarrow> ColumnHeader list \<Rightarrow> StreamReaders \<Rightarrow> (ColumnData list \<times> StreamReaders, unit) outcome" where
  "cds_must_read_from xxh64 [] sr = Ok ([], sr)"
| "cds_must_read_from xxh64 (ch # chs) sr =
    obind (cd_must_read_from xxh64 ch sr) (\<lambda>(cd, sr).
    obind (cds_must_read_from xxh64 chs sr) (\<lambda>(cds, sr). Ok (cd # cds, sr)))"

definition read_column_names_from_columns_header_index ::
  "BlockHeader \<Rightarrow> StreamReaders \<Rightarrow> ColumnsHeader \<Rightarrow> (ColumnsHeader \<times> StreamReaders, unit) outcome" where
  "read_column_names_from_columns_header_index bh sr csh =
    (let n = bh_columns_header_index_size bh in
     obind (panic_if (n > of_nat MAX_COLUMNS_HEADER_INDEX_SIZE)) (\<lambda>_.
     obind (must_read_full (sr_columns_header_index_reader sr) (unat n)) (\<lambda>(bb, r).
     obind (or_panic (ci_unmarshal_inplace bb)) (\<lambda>csh_index.
     obind (or_panic (set_column_names csh csh_index (sr_column_names sr))) (\<lambda>csh.
     Ok (csh, sr\<lparr>sr_columns_header_index_reader := r\<rparr>))))))"

definition bd_must_read_from :: "(bytes \<Rightarrow> u64) \<Rightarrow> BlockHeader \<Rightarrow> StreamReaders \<Rightarrow> (BlockData \<times> StreamReaders, unit) outcome" where
  "bd_must_read_from xxh64 bh sr =
    obind (td_must_read_from (bh_timestamps_header bh) sr) (\<lambda>(td, sr).
    obind (panic_if (bh_columns_header_offset bh \<noteq> bytes_read (sr_columns_header_reader sr))) (\<lambda>_.
    obind (panic_if (bh_columns_header_size bh > of_nat MAX_COLUMNS_HEADER_SIZE)) (\<lambda>_.
    obind (must_read_full (sr_columns_header_reader sr) (unat (bh_columns_header_size bh))) (\<lambda>(bb, r).
    let sr = sr\<lparr>sr_columns_header_reader := r\<rparr> in
    obind (or_panic (csh_unmarshal_inplace bb (sr_part_format_version sr))) (\<lambda>csh.
    obind (if sr_part_format_version sr \<ge> 1 then read_column_names_from_columns_header_index bh sr csh
           else Ok (csh, sr)) (\<lambda>(csh, sr).
    obind (cds_must_read_from xxh64 (csh_column_headers csh) sr) (\<lambda>(cds, sr).
    Ok (\<lparr>bd_stream_id = bh_stream_id bh, bd_uncompressed_size_bytes = bh_uncompressed_size_bytes bh,
         bd_rows_count = bh_rows_count bh, bd_timestamps_data = td, bd_columns_data = cds,
         bd_const_columns = csh_const_columns csh\<rparr>, sr))))))))"

datatype unpack_error = TooManyEntries u64 | UnpackTimestamps array_error | UnpackColumn nat block_error | UnpackValues values_error

primrec unpack_columns :: "'f env \<Rightarrow> nat \<Rightarrow> u64 \<Rightarrow> ColumnData list \<Rightarrow> StringsBlockUnmarshaler \<Rightarrow> (Column list \<times> StringsBlockUnmarshaler, unpack_error) outcome" where
  "unpack_columns e i rows_count [] sbu = Ok ([], sbu)"
| "unpack_columns e i rows_count (cd # cds) sbu =
    obind (map_err (UnpackColumn i) (sbu_unmarshal (e_zstd e) sbu [] (cd_values_data cd) rows_count)) (\<lambda>(sbu, values).
    obind (map_err UnpackValues (decode_inplace (e_f64 e) values (cd_value_type cd) (dict_values (cd_values_dict cd)))) (\<lambda>values.
    obind (unpack_columns e (Suc i) rows_count cds sbu) (\<lambda>(cs, sbu).
    Ok (\<lparr>col_name = cd_name cd, col_values = values\<rparr> # cs, sbu))))"

definition init_from_block_data :: "'f env \<Rightarrow> BlockData \<Rightarrow> StringsBlockUnmarshaler \<Rightarrow> (Block \<times> StringsBlockUnmarshaler, unpack_error) outcome" where
  "init_from_block_data e bd sbu =
    (if bd_rows_count bd > of_nat MAX_ROWS_PER_BLOCK then Err (TooManyEntries (bd_rows_count bd))
     else
       let td = bd_timestamps_data bd in
       obind (map_err UnpackTimestamps (unmarshal_timestamps (e_zstd e) [] (td_data td) (td_marshal_type td) (td_min_timestamp td) (unat (bd_rows_count bd)))) (\<lambda>ts.
       obind (unpack_columns e 0 (bd_rows_count bd) (bd_columns_data bd) sbu) (\<lambda>(cs, sbu).
       Ok (\<lparr>b_timestamps = ts, b_columns = cs, b_const_columns = bd_const_columns bd\<rparr>, sbu))))"

definition unmarshal_rows :: "'f env \<Rightarrow> BlockData \<Rightarrow> Rows \<Rightarrow> StringsBlockUnmarshaler \<Rightarrow> (Rows \<times> StringsBlockUnmarshaler, unpack_error) outcome" where
  "unmarshal_rows e bd dst sbu =
    obind (init_from_block_data e bd sbu) (\<lambda>(b, sbu). Ok (append_rows_to b dst, sbu))"


subsection \<open>The state of the writers\<close>

lemma or_panic_simps [simp]: "or_panic (Ok x) = Ok x" "or_panic (Err er) = Panic" "or_panic Panic = Panic"
  by (simp_all add: or_panic_def)

lemma panic_if_simps [simp]: "panic_if False = Ok ()" "panic_if True = Panic"
  by (simp_all add: panic_if_def)

definition no_shard :: BloomValuesWriter where
  "no_shard = \<lparr>bw_bloom = writer_init [], bw_values = writer_init []\<rparr>"

text \<open>A shard that does not exist yet counts as an empty one.\<close>

definition shard_of :: "StreamWriters \<Rightarrow> nat \<Rightarrow> BloomValuesWriter" where
  "shard_of sw i = (if i < length (sw_bloom_values_shards sw) then sw_bloom_values_shards sw ! i else no_shard)"

definition writer_ok :: "WriterWithStats \<Rightarrow> bool" where
  "writer_ok w \<longleftrightarrow> (\<exists>d. w_data w = Some d \<and> bytes_written w = of_nat (length d))"

definition bw_ok :: "BloomValuesWriter \<Rightarrow> bool" where
  "bw_ok w \<longleftrightarrow> writer_ok (bw_bloom w) \<and> writer_ok (bw_values w)"

definition factory_ok :: "StreamWriters \<Rightarrow> bool" where
  "factory_ok sw \<longleftrightarrow>
    (case sw_create_bloom_values_writer sw of
       NoFactory \<Rightarrow> False
     | Inmemory avail \<Rightarrow> sw_max_shards sw = 1 \<and> (avail \<longleftrightarrow> sw_bloom_values_shards sw = [])
     | FileFactory \<Rightarrow> True)"

lemma factory_ok_cong:
  "sw_create_bloom_values_writer a = sw_create_bloom_values_writer b \<Longrightarrow> sw_max_shards a = sw_max_shards b \<Longrightarrow>
   (sw_bloom_values_shards a = [] \<longleftrightarrow> sw_bloom_values_shards b = []) \<Longrightarrow> factory_ok a = factory_ok b"
  by (cases "sw_create_bloom_values_writer b") (simp_all add: factory_ok_def)

definition idxs_ok :: "StreamWriters \<Rightarrow> bool" where
  "idxs_ok sw \<longleftrightarrow> gen_inv (sw_generator sw) \<and> distinct (map fst (sw_column_idxs sw)) \<and>
    (\<forall>(c, s) \<in> set (sw_column_idxs sw). unat c < length (column_names (sw_generator sw)) \<and> unat s < length (sw_bloom_values_shards sw))"

definition sw_inv :: "StreamWriters \<Rightarrow> bool" where
  "sw_inv sw \<longleftrightarrow> idxs_ok sw \<and> factory_ok sw \<and> 0 < sw_max_shards sw \<and>
    sw_next_column_idx sw = of_nat (length (sw_column_idxs sw)) \<and>
    length (sw_bloom_values_shards sw) = min (length (sw_column_idxs sw)) (unat (sw_max_shards sw)) \<and>
    writer_ok (sw_columns_header_index_writer sw) \<and> writer_ok (sw_columns_header_writer sw) \<and> writer_ok (sw_timestamps_writer sw) \<and>
    bw_ok (sw_message_bloom_values_writer sw) \<and> list_all bw_ok (sw_bloom_values_shards sw)"

lemma idxs_length:
  assumes "idxs_ok sw"
  shows "length (sw_column_idxs sw) \<le> length (column_names (sw_generator sw))"
proof -
  have "length (sw_column_idxs sw) = card (unat ` fst ` set (sw_column_idxs sw))"
    using assms distinct_card [of "map fst (sw_column_idxs sw)"]
    by (simp add: idxs_ok_def card_image inj_on_def word_unat_eq_iff [symmetric])
  also have "\<dots> \<le> card {..<length (column_names (sw_generator sw))}"
    by (rule card_mono) (use assms in \<open>auto simp: idxs_ok_def\<close>)
  finally show ?thesis by simp
qed

text \<open>A later state of the writers: every stream has grown, and names and shards are kept.\<close>

definition w_le :: "WriterWithStats \<Rightarrow> WriterWithStats \<Rightarrow> bool" where
  "w_le w F \<longleftrightarrow> (\<exists>d x. w_data w = Some d \<and> w_data F = Some (d @ x))"

definition bw_le :: "BloomValuesWriter \<Rightarrow> BloomValuesWriter \<Rightarrow> bool" where
  "bw_le w F \<longleftrightarrow> w_le (bw_bloom w) (bw_bloom F) \<and> w_le (bw_values w) (bw_values F)"

definition sw_le :: "StreamWriters \<Rightarrow> StreamWriters \<Rightarrow> bool" where
  "sw_le sw F \<longleftrightarrow> gen_ext (sw_generator sw) (sw_generator F) \<and> (\<exists>es. sw_column_idxs F = sw_column_idxs sw @ es) \<and>
    w_le (sw_columns_header_index_writer sw) (sw_columns_header_index_writer F) \<and>
    w_le (sw_columns_header_writer sw) (sw_columns_header_writer F) \<and>
    w_le (sw_timestamps_writer sw) (sw_timestamps_writer F) \<and>
    bw_le (sw_message_bloom_values_writer sw) (sw_message_bloom_values_writer F) \<and>
    length (sw_bloom_values_shards sw) \<le> length (sw_bloom_values_shards F) \<and>
    (\<forall>i. bw_le (shard_of sw i) (shard_of F i))"

lemma w_le_trans: "w_le a b \<Longrightarrow> w_le b c \<Longrightarrow> w_le a c"
  by (auto simp: w_le_def)

lemma bw_le_trans: "bw_le a b \<Longrightarrow> bw_le b c \<Longrightarrow> bw_le a c"
  by (auto simp: bw_le_def intro: w_le_trans)

lemma sw_le_trans: "sw_le a b \<Longrightarrow> sw_le b c \<Longrightarrow> sw_le a c"
proof -
  assume ab: "sw_le a b" and bc: "sw_le b c"
  have "\<exists>es. sw_column_idxs c = sw_column_idxs a @ es" using ab bc by (auto simp: sw_le_def)
  then show ?thesis using ab bc unfolding sw_le_def by (meson bw_le_trans gen_ext_trans order_trans w_le_trans)
qed

lemma writer_ok_le: "writer_ok w \<Longrightarrow> w_le w w"
  by (auto simp: writer_ok_def w_le_def)

lemma bw_ok_le: "bw_ok w \<Longrightarrow> bw_le w w"
  by (simp add: bw_ok_def bw_le_def writer_ok_le)

lemma no_shard_ok: "bw_ok no_shard"
  by (simp add: bw_ok_def no_shard_def writer_ok_def writer_init_def)

lemma shard_of_ok: "list_all bw_ok (sw_bloom_values_shards sw) \<Longrightarrow> bw_ok (shard_of sw i)"
  by (simp add: shard_of_def list_all_length no_shard_ok)

lemma sw_le_refl: "sw_inv sw \<Longrightarrow> sw_le sw sw"
  by (simp add: sw_inv_def sw_le_def writer_ok_le bw_ok_le shard_of_ok)

lemma sw_init_inv: "(f = FileFactory \<and> 0 < m \<or> f = Inmemory True \<and> m = 1) \<Longrightarrow> sw_inv (sw_init f m)"
  by (auto simp: sw_inv_def sw_init_def idxs_ok_def gen_default_inv factory_ok_def writer_ok_def bw_ok_def writer_init_def)

text \<open>Writing to one stream.\<close>

lemma must_write_ok:
  assumes "writer_ok w"
  shows "\<exists>w'. must_write w b = Ok w' \<and> writer_ok w' \<and> w_le w w'"
  using assms by (auto simp: must_write_def writer_ok_def w_le_def)

subsection \<open>Choosing the streams of a column\<close>

definition loc_ok :: "StreamWriters \<Rightarrow> bytes \<Rightarrow> nat option \<Rightarrow> bool" where
  "loc_ok sw name l \<longleftrightarrow>
    (case l of
       None \<Rightarrow> name = []
     | Some i \<Rightarrow> name \<noteq> [] \<and> i < length (sw_bloom_values_shards sw) \<and>
         (\<exists>(c, s) \<in> set (sw_column_idxs sw). names_at (column_names (sw_generator sw)) c name \<and> unat s = i))"

definition same_streams :: "StreamWriters \<Rightarrow> StreamWriters \<Rightarrow> bool" where
  "same_streams sw sw1 \<longleftrightarrow>
    sw_columns_header_index_writer sw1 = sw_columns_header_index_writer sw \<and> sw_columns_header_writer sw1 = sw_columns_header_writer sw \<and>
    sw_timestamps_writer sw1 = sw_timestamps_writer sw \<and> sw_message_bloom_values_writer sw1 = sw_message_bloom_values_writer sw \<and>
    (\<forall>i. shard_of sw1 i = shard_of sw i)"

lemma get_writer_spec:
  assumes "sw_inv sw" "length (column_names (sw_generator sw)) < 2 ^ 62"
  shows "\<exists>l sw1. get_bloom_values_writer_for_column_name sw name = Ok (l, sw1) \<and> sw_inv sw1 \<and> sw_le sw sw1 \<and> loc_ok sw1 name l \<and>
    same_streams sw sw1 \<and> length (column_names (sw_generator sw1)) \<le> Suc (length (column_names (sw_generator sw)))"
proof (cases "name = []")
  case True
  then show ?thesis using assms sw_le_refl
    by (simp add: get_bloom_values_writer_for_column_name_def loc_ok_def same_streams_def)
next
  case False
  let ?g0 = "sw_generator sw" and ?es = "sw_column_idxs sw" and ?shards = "sw_bloom_values_shards sw"
  obtain c g where g: "get_column_name_id ?g0 name = (c, g)" by fastforce
  have lg: "length (column_names g) \<le> Suc (length (column_names ?g0))"
    using g by (auto simp: get_column_name_id_def Let_def split: option.splits)
  have inv: "idxs_ok sw" "factory_ok sw" "0 < sw_max_shards sw" "sw_next_column_idx sw = of_nat (length ?es)"
      "length ?shards = min (length ?es) (unat (sw_max_shards sw))" "list_all bw_ok ?shards"
    using assms(1) by (auto simp: sw_inv_def)
  have gi: "gen_inv g" "gen_ext ?g0 g" "names_at (column_names g) c name"
    using get_column_name_id_props [OF _ g] inv(1) lg assms(2) by (auto simp: idxs_ok_def)
  have cl: "unat c < length (column_names g)" using gi(3) by (simp add: names_at_def)
  have el: "length ?es < 2 ^ 62" using idxs_length [OF inv(1)] assms(2) by linarith
  show ?thesis
  proof (cases "map_of ?es c")
    case (Some s)
    let ?sw1 = "sw\<lparr>sw_generator := g\<rparr>"
    have cs: "(c, s) \<in> set ?es" using Some by (rule map_of_SomeD)
    then have s: "unat s < length ?shards" using inv(1) by (auto simp: idxs_ok_def)
    have e: "get_bloom_values_writer_for_column_name sw name = Ok (Some (unat s), ?sw1)"
      using False g Some s by (simp add: get_bloom_values_writer_for_column_name_def Let_def)
    have "idxs_ok ?sw1" using inv(1) gi(1) gen_ext_length [OF gi(2)] by (force simp: idxs_ok_def)
    then have i1: "sw_inv ?sw1" using assms(1) factory_ok_cong [of ?sw1 sw] by (simp add: sw_inv_def)
    have sh: "shard_of ?sw1 i = shard_of sw i" for i by (simp add: shard_of_def)
    have "sw_le sw ?sw1" using sw_le_refl [OF assms(1)] gi(2) by (simp add: sw_le_def sh)
    moreover have "loc_ok ?sw1 name (Some (unat s))" using False s cs gi(3) by (auto simp: loc_ok_def intro!: bexI [of _ "(c, s)"])
    ultimately show ?thesis using e i1 lg sh by (simp add: same_streams_def)
  next
    case None
    let ?s = "sw_next_column_idx sw mod sw_max_shards sw"
    have c_new: "c \<notin> fst ` set ?es" using None by (simp add: map_of_eq_None_iff)
    have us: "unat ?s = length ?es mod unat (sw_max_shards sw)"
      using inv(4) el by (simp add: unat_mod unat_of_nat take_bit_nat_eq_self)
    have mpos: "0 < unat (sw_max_shards sw)" using inv(3) by (simp add: word_less_nat_alt)
    show ?thesis
    proof (cases "length ?es < unat (sw_max_shards sw)")
      case True
      then have n: "unat ?s = length ?shards" using us inv(5) by simp
      obtain f where f: "create_shard (sw_create_bloom_values_writer sw) = Ok (no_shard, f)"
          "f = (case sw_create_bloom_values_writer sw of Inmemory _ \<Rightarrow> Inmemory False | x \<Rightarrow> x)"
        using inv(2) True inv(5) by (auto simp: factory_ok_def create_shard_def no_shard_def Let_def split: BloomValuesWriterFactory.splits)
      let ?sw1 = "sw\<lparr>sw_generator := g, sw_next_column_idx := sw_next_column_idx sw + 1, sw_column_idxs := ?es @ [(c, ?s)],
        sw_create_bloom_values_writer := f, sw_bloom_values_shards := ?shards @ [no_shard]\<rparr>"
      have e: "get_bloom_values_writer_for_column_name sw name = Ok (Some (unat ?s), ?sw1)"
        using False g None n f(1) inv(3) by (simp add: get_bloom_values_writer_for_column_name_def Let_def)
      have "idxs_ok ?sw1" using inv(1) gi(1) gen_ext_length [OF gi(2)] c_new cl n by (force simp: idxs_ok_def)
      moreover have "factory_ok ?sw1" using inv(2) f(2) by (auto simp: factory_ok_def split: BloomValuesWriterFactory.splits)
      ultimately have i1: "sw_inv ?sw1" using assms(1) True inv(5) no_shard_ok by (simp add: sw_inv_def add.commute)
      have sh: "shard_of ?sw1 i = shard_of sw i" for i by (auto simp: shard_of_def nth_append)
      have "sw_le sw ?sw1" using sw_le_refl [OF assms(1)] gi(2) by (simp add: sw_le_def sh)
      moreover have "loc_ok ?sw1 name (Some (unat ?s))" using False n gi(3) by (auto simp: loc_ok_def)
      ultimately show ?thesis using e i1 lg sh by (simp add: same_streams_def)
    next
      case mx: False
      have n: "unat ?s < length ?shards" using us inv(5) mx mpos by simp
      let ?sw1 = "sw\<lparr>sw_generator := g, sw_next_column_idx := sw_next_column_idx sw + 1, sw_column_idxs := ?es @ [(c, ?s)]\<rparr>"
      have e: "get_bloom_values_writer_for_column_name sw name = Ok (Some (unat ?s), ?sw1)"
        using False g None n inv(3) by (simp add: get_bloom_values_writer_for_column_name_def Let_def)
      have "idxs_ok ?sw1" using inv(1) gi(1) gen_ext_length [OF gi(2)] c_new cl n by (force simp: idxs_ok_def)
      then have i1: "sw_inv ?sw1" using assms(1) mx inv(5) factory_ok_cong [of ?sw1 sw] by (simp add: sw_inv_def add.commute)
      have sh: "shard_of ?sw1 i = shard_of sw i" for i by (simp add: shard_of_def)
      have "sw_le sw ?sw1" using sw_le_refl [OF assms(1)] gi(2) by (simp add: sw_le_def sh)
      moreover have "loc_ok ?sw1 name (Some (unat ?s))" using False n gi(3) by (auto simp: loc_ok_def)
      ultimately show ?thesis using e i1 lg sh by (simp add: same_streams_def)
    qed
  qed
qed

subsection \<open>A reader in step with a writer\<close>

text \<open>\<open>sync w F r\<close>: over the final contents of the stream (\<open>F\<close>), the reader stands where the writer stood.\<close>

definition sync :: "WriterWithStats \<Rightarrow> WriterWithStats \<Rightarrow> ReaderWithStats \<Rightarrow> bool" where
  "sync w F r \<longleftrightarrow> (\<exists>d x. w_data w = Some d \<and> w_data F = Some (d @ x) \<and> r_rest r = Some x \<and> bytes_read r = bytes_written w)"

definition bsync :: "BloomValuesWriter \<Rightarrow> BloomValuesWriter \<Rightarrow> BloomValuesReader \<Rightarrow> bool" where
  "bsync w F r \<longleftrightarrow> sync (bw_bloom w) (bw_bloom F) (br_bloom r) \<and> sync (bw_values w) (bw_values F) (br_values r)"

lemma sync_read:
  assumes "sync w F r" "must_write w b = Ok w'" "w_le w' F"
  shows "\<exists>r'. must_read_full r (length b) = Ok (b, r') \<and> sync w' F r'"
  using assms by (auto simp: sync_def must_write_def w_le_def must_read_full_def Let_def)

lemma sync_bytes: "sync w F r \<Longrightarrow> bytes_read r = bytes_written w"
  by (auto simp: sync_def)

text \<open>What a reader knows of the columns of the part.\<close>

definition names_sync :: "StreamWriters \<Rightarrow> StreamReaders \<Rightarrow> bool" where
  "names_sync F sr \<longleftrightarrow>
    sr_part_format_version sr = PART_FORMAT_LATEST_VERSION \<and> sr_column_names sr = column_names (sw_generator F) \<and>
    (\<forall>(c, s) \<in> set (sw_column_idxs F). \<forall>n. names_at (column_names (sw_generator F)) c n \<longrightarrow> sr_column_idxs sr n = Some s) \<and>
    length (sr_bloom_values_shards sr) = length (sw_bloom_values_shards F)"

definition values_sync :: "StreamWriters \<Rightarrow> StreamWriters \<Rightarrow> StreamReaders \<Rightarrow> bool" where
  "values_sync sw F sr \<longleftrightarrow>
    bsync (sw_message_bloom_values_writer sw) (sw_message_bloom_values_writer F) (sr_message_bloom_values_reader sr) \<and>
    (\<forall>i < length (sw_bloom_values_shards F). bsync (shard_of sw i) (shard_of F i) (sr_bloom_values_shards sr ! i))"

definition same_other_readers :: "StreamReaders \<Rightarrow> StreamReaders \<Rightarrow> bool" where
  "same_other_readers sr sr' \<longleftrightarrow>
    sr_columns_header_index_reader sr' = sr_columns_header_index_reader sr \<and> sr_columns_header_reader sr' = sr_columns_header_reader sr \<and>
    sr_timestamps_reader sr' = sr_timestamps_reader sr \<and> sr_index_reader sr' = sr_index_reader sr \<and>
    sr_metaindex_reader sr' = sr_metaindex_reader sr \<and> sr_column_names_reader sr' = sr_column_names_reader sr \<and>
    sr_column_idxs_reader sr' = sr_column_idxs_reader sr \<and> sr_old_bloom_values_reader sr' = sr_old_bloom_values_reader sr"

definition same_other_writers :: "StreamWriters \<Rightarrow> StreamWriters \<Rightarrow> bool" where
  "same_other_writers sw sw' \<longleftrightarrow>
    sw_columns_header_index_writer sw' = sw_columns_header_index_writer sw \<and> sw_columns_header_writer sw' = sw_columns_header_writer sw \<and>
    sw_timestamps_writer sw' = sw_timestamps_writer sw \<and> sw_index_writer sw' = sw_index_writer sw \<and>
    sw_metaindex_writer sw' = sw_metaindex_writer sw \<and> sw_column_names_writer sw' = sw_column_names_writer sw \<and>
    sw_column_idxs_writer sw' = sw_column_idxs_writer sw"

lemma get_writer_frame:
  "get_bloom_values_writer_for_column_name sw name = Ok (l, sw1) \<Longrightarrow> same_other_writers sw sw1"
  by (auto simp: get_bloom_values_writer_for_column_name_def same_other_writers_def Let_def obind_Ok_iff
      split: if_splits prod.splits option.splits)

subsection \<open>Writing and reading one column\<close>

text \<open>The packed column data a column header can describe.\<close>

definition cd_header :: "ColumnData \<Rightarrow> ColumnHeader" where
  "cd_header cd = ch_default\<lparr>ch_name := cd_name cd, ch_value_type := cd_value_type cd, ch_min_value := cd_min_value cd,
     ch_max_value := cd_max_value cd, ch_values_dict := cd_values_dict cd\<rparr>"

definition cd_valid :: "'f f64_ops \<Rightarrow> ColumnData \<Rightarrow> bool" where
  "cd_valid f64 cd \<longleftrightarrow> ch_valid f64 (cd_header cd) \<and>
    length (cd_values_data cd) \<le> MAX_VALUES_BLOCK_SIZE \<and> length (cd_bloom_filter_data cd) \<le> MAX_BLOOM_FILTER_BLOCK_SIZE \<and>
    (cd_value_type cd = STRING \<or> cd_value_type cd = DICT \<longrightarrow> cd_min_value cd = 0 \<and> cd_max_value cd = 0) \<and>
    (cd_value_type cd = DICT \<longrightarrow> cd_bloom_filter_data cd = []) \<and>
    (cd_value_type cd \<noteq> DICT \<longrightarrow> cd_values_dict cd = \<lparr>dict_values = []\<rparr>)"

definition header_of :: "'f f64_ops \<Rightarrow> ColumnData \<Rightarrow> ColumnHeader \<Rightarrow> bool" where
  "header_of f64 cd ch \<longleftrightarrow> ch_valid f64 ch \<and> ch_name ch = cd_name cd"

definition named :: "ColumnHeader \<Rightarrow> ColumnHeader" where
  "named ch = (ch_stored ch)\<lparr>ch_name := ch_name ch\<rparr>"

lemma bw_put_fields [simp]:
  "sw_generator (bw_put l w sw) = sw_generator sw" "sw_column_idxs (bw_put l w sw) = sw_column_idxs sw"
  "sw_max_shards (bw_put l w sw) = sw_max_shards sw" "sw_next_column_idx (bw_put l w sw) = sw_next_column_idx sw"
  "sw_create_bloom_values_writer (bw_put l w sw) = sw_create_bloom_values_writer sw"
  "sw_columns_header_index_writer (bw_put l w sw) = sw_columns_header_index_writer sw"
  "sw_columns_header_writer (bw_put l w sw) = sw_columns_header_writer sw"
  "sw_timestamps_writer (bw_put l w sw) = sw_timestamps_writer sw"
  "sw_index_writer (bw_put l w sw) = sw_index_writer sw" "sw_metaindex_writer (bw_put l w sw) = sw_metaindex_writer sw"
  "sw_column_names_writer (bw_put l w sw) = sw_column_names_writer sw" "sw_column_idxs_writer (bw_put l w sw) = sw_column_idxs_writer sw"
  "length (sw_bloom_values_shards (bw_put l w sw)) = length (sw_bloom_values_shards sw)"
  by (cases l; simp add: bw_put_def)+

lemma bw_put_message: "sw_message_bloom_values_writer (bw_put l w sw) = (if l = None then w else sw_message_bloom_values_writer sw)"
  by (cases l) (simp_all add: bw_put_def)

lemma bw_put_shard:
  "shard_of (bw_put l w sw) i = (if l = Some i \<and> i < length (sw_bloom_values_shards sw) then w else shard_of sw i)"
  by (cases l) (auto simp: bw_put_def shard_of_def)

lemma bw_put_idxs: "idxs_ok (bw_put l w sw) = idxs_ok sw"
  by (simp add: idxs_ok_def)

lemma bw_put_inv:
  assumes "sw_inv sw" "bw_ok w" "bw_le (bw_at sw l) w" "\<And>i. l = Some i \<Longrightarrow> i < length (sw_bloom_values_shards sw)"
  shows "sw_inv (bw_put l w sw)" "sw_le sw (bw_put l w sw)"
proof -
  have s: "sw_bloom_values_shards (bw_put l w sw) = [] \<longleftrightarrow> sw_bloom_values_shards sw = []"
    by (metis bw_put_fields(13) length_0_conv)
  have "list_all bw_ok (sw_bloom_values_shards (bw_put l w sw))"
  proof -
    have "list_all bw_ok (sw_bloom_values_shards sw)" using assms(1) by (simp add: sw_inv_def)
    then show ?thesis using assms(2)
      by (cases l) (auto simp: bw_put_def list_all_iff dest!: subsetD [OF set_update_subset_insert])
  qed
  moreover have "bw_ok (sw_message_bloom_values_writer (bw_put l w sw))"
    using assms(1,2) by (simp add: bw_put_message sw_inv_def)
  ultimately show "sw_inv (bw_put l w sw)"
    using assms(1) factory_ok_cong [of "bw_put l w sw" sw] s bw_put_idxs [of l w sw] by (simp add: sw_inv_def)
  have "bw_le (shard_of sw i) (shard_of (bw_put l w sw) i)" for i
  proof (cases "l = Some i")
    case True
    then show ?thesis using assms(3,4) by (simp add: bw_put_shard bw_at_def) (simp add: shard_of_def)
  next
    case False
    then show ?thesis using sw_le_refl [OF assms(1)] by (simp add: bw_put_shard sw_le_def)
  qed
  moreover have "bw_le (sw_message_bloom_values_writer sw) (sw_message_bloom_values_writer (bw_put l w sw))"
    using assms(3) sw_le_refl [OF assms(1)] by (auto simp: bw_put_message bw_at_def sw_le_def)
  ultimately show "sw_le sw (bw_put l w sw)" using sw_le_refl [OF assms(1)] by (simp add: sw_le_def)
qed

lemma bw_at_ok: "sw_inv sw \<Longrightarrow> (\<And>i. l = Some i \<Longrightarrow> i < length (sw_bloom_values_shards sw)) \<Longrightarrow> bw_ok (bw_at sw l)"
  by (cases l) (auto simp: bw_at_def sw_inv_def list_all_length)

lemma write_vb_spec:
  assumes "sw_inv sw" "\<And>i. l = Some i \<Longrightarrow> i < length (sw_bloom_values_shards sw)"
    and "length vals \<le> MAX_VALUES_BLOCK_SIZE" "length bloom \<le> MAX_BLOOM_FILTER_BLOCK_SIZE"
  shows "\<exists>vw bw. write_values_and_bloom ch vals bloom l sw =
      Ok (ch\<lparr>ch_values_size := of_nat (length vals), ch_values_offset := bytes_written (bw_values (bw_at sw l)),
             ch_bloom_filter_size := of_nat (length bloom), ch_bloom_filter_offset := bytes_written (bw_bloom (bw_at sw l))\<rparr>,
          bw_put l \<lparr>bw_bloom = bw, bw_values = vw\<rparr> sw) \<and>
    must_write (bw_values (bw_at sw l)) vals = Ok vw \<and> must_write (bw_bloom (bw_at sw l)) bloom = Ok bw \<and>
    sw_inv (bw_put l \<lparr>bw_bloom = bw, bw_values = vw\<rparr> sw) \<and> sw_le sw (bw_put l \<lparr>bw_bloom = bw, bw_values = vw\<rparr> sw)"
proof -
  have ok: "bw_ok (bw_at sw l)" by (rule bw_at_ok [OF assms(1,2)])
  obtain vw where vw: "must_write (bw_values (bw_at sw l)) vals = Ok vw" "writer_ok vw" "w_le (bw_values (bw_at sw l)) vw"
    using must_write_ok [of "bw_values (bw_at sw l)" vals] ok by (auto simp: bw_ok_def)
  obtain bw where bw: "must_write (bw_bloom (bw_at sw l)) bloom = Ok bw" "writer_ok bw" "w_le (bw_bloom (bw_at sw l)) bw"
    using must_write_ok [of "bw_bloom (bw_at sw l)" bloom] ok by (auto simp: bw_ok_def)
  have le: "\<not> (of_nat (length vals) :: u64) > of_nat MAX_VALUES_BLOCK_SIZE" "\<not> (of_nat (length bloom) :: u64) > of_nat MAX_BLOOM_FILTER_BLOCK_SIZE"
    using assms(3,4) by (simp_all add: word_less_nat_alt unat_of_nat take_bit_nat_eq_self MAX_VALUES_BLOCK_SIZE_def MAX_BLOOM_FILTER_BLOCK_SIZE_def)
  have "write_values_and_bloom ch vals bloom l sw =
      Ok (ch\<lparr>ch_values_size := of_nat (length vals), ch_values_offset := bytes_written (bw_values (bw_at sw l)),
             ch_bloom_filter_size := of_nat (length bloom), ch_bloom_filter_offset := bytes_written (bw_bloom (bw_at sw l))\<rparr>,
          bw_put l \<lparr>bw_bloom = bw, bw_values = vw\<rparr> sw)"
    using vw(1) bw(1) le by (simp add: write_values_and_bloom_def Let_def)
  moreover have "sw_inv (bw_put l \<lparr>bw_bloom = bw, bw_values = vw\<rparr> sw)" "sw_le sw (bw_put l \<lparr>bw_bloom = bw, bw_values = vw\<rparr> sw)"
    by (rule bw_put_inv [OF assms(1)]; use vw bw assms(2) in \<open>auto simp: bw_ok_def bw_le_def\<close>)+
  ultimately show ?thesis using vw(1) bw(1) by blast
qed

lemma named_fields [simp]:
  "ch_name (named ch) = ch_name ch" "ch_value_type (named ch) = ch_value_type ch" "ch_values_offset (named ch) = ch_values_offset ch"
  "ch_values_size (named ch) = ch_values_size ch"
  by (simp_all add: named_def ch_stored_def Let_def)

lemma named_bloom:
  "ch_value_type ch \<noteq> DICT \<Longrightarrow> ch_bloom_filter_offset (named ch) = ch_bloom_filter_offset ch \<and> ch_bloom_filter_size (named ch) = ch_bloom_filter_size ch"
  by (simp add: named_def ch_stored_def Let_def)

text \<open>Where a reader finds a column.\<close>

definition reader_loc_of :: "nat option \<Rightarrow> reader_loc" where
  "reader_loc_of l = (case l of None \<Rightarrow> MessageReader | Some i \<Rightarrow> ShardReader i)"

lemma loc_ok_le:
  assumes "loc_ok sw name l" "sw_le sw F"
  shows "loc_ok F name l"
proof (cases l)
  case (Some i)
  then obtain c s where cs: "(c, s) \<in> set (sw_column_idxs sw)" "names_at (column_names (sw_generator sw)) c name" "unat s = i"
      "i < length (sw_bloom_values_shards sw)" "name \<noteq> []"
    using assms(1) by (auto simp: loc_ok_def)
  then have "(c, s) \<in> set (sw_column_idxs F)" "names_at (column_names (sw_generator F)) c name" "i < length (sw_bloom_values_shards F)"
    using assms(2) names_at_ext [OF _ cs(2), of "sw_generator F"] by (auto simp: sw_le_def)
  then show ?thesis using Some cs(3,5) by (auto simp: loc_ok_def intro!: bexI [of _ "(c, s)"])
qed (use assms in \<open>auto simp: loc_ok_def\<close>)

lemma get_reader_spec:
  assumes "loc_ok F name l" "names_sync F sr"
  shows "get_bloom_values_reader_for_column_name xxh sr name = Ok (reader_loc_of l)"
proof (cases l)
  case (Some i)
  then obtain c s where cs: "(c, s) \<in> set (sw_column_idxs F)" "names_at (column_names (sw_generator F)) c name" "unat s = i"
      "i < length (sw_bloom_values_shards F)" "name \<noteq> []"
    using assms(1) by (auto simp: loc_ok_def)
  then have "sr_column_idxs sr name = Some s" "i < length (sr_bloom_values_shards sr)" using assms(2) by (auto simp: names_sync_def)
  then show ?thesis using Some cs(3,5) assms(2)
    by (simp add: get_bloom_values_reader_for_column_name_def names_sync_def PART_FORMAT_LATEST_VERSION_def reader_loc_of_def Let_def)
qed (use assms in \<open>simp add: loc_ok_def get_bloom_values_reader_for_column_name_def reader_loc_of_def\<close>)

lemma br_put_fields:
  "names_sync F (br_put (reader_loc_of l) r sr) = names_sync F sr" "same_other_readers sr (br_put (reader_loc_of l) r sr)"
  by (cases l; simp add: br_put_def reader_loc_of_def names_sync_def same_other_readers_def)+

lemma values_sync_same: "same_streams sw sw1 \<Longrightarrow> values_sync sw F sr = values_sync sw1 F sr"
  by (simp add: values_sync_def same_streams_def)

lemma values_sync_bw_at:
  assumes "values_sync sw F sr" "loc_ok sw name l" "sw_le sw F"
  shows "bsync (bw_at sw l) (bw_at F l) (br_at sr (reader_loc_of l))"
  using assms loc_ok_le [OF assms(2,3)]
  by (cases l) (auto simp: values_sync_def bw_at_def br_at_def reader_loc_of_def loc_ok_def shard_of_def split: if_splits)

lemma values_sync_put:
  assumes "values_sync sw F sr" "loc_ok sw name l" "sw_le sw F" "names_sync F sr" "bsync w (bw_at F l) r"
  shows "values_sync (bw_put l w sw) F (br_put (reader_loc_of l) r sr)"
proof (cases l)
  case None
  then show ?thesis using assms(1,5)
    by (simp add: values_sync_def bw_put_message bw_put_shard br_put_def reader_loc_of_def bw_at_def)
next
  case (Some i)
  have i: "i < length (sw_bloom_values_shards sw)" "i < length (sw_bloom_values_shards F)" "i < length (sr_bloom_values_shards sr)"
    using assms(2,3,4) Some by (auto simp: loc_ok_def sw_le_def names_sync_def)
  have bF: "bw_at F (Some i) = shard_of F i" using i by (simp add: bw_at_def shard_of_def)
  from i have "bsync (shard_of (bw_put l w sw) j) (shard_of F j) (sr_bloom_values_shards (br_put (reader_loc_of l) r sr) ! j)"
    if "j < length (sw_bloom_values_shards F)" for j
    using assms(1,5) Some that
    by (cases "j = i") (auto simp: values_sync_def bw_put_shard br_put_def reader_loc_of_def bF)
  then show ?thesis using assms(1) Some
    by (simp add: values_sync_def bw_put_message br_put_def reader_loc_of_def)
qed

lemma unat_of_small: "n \<le> 8388608 \<Longrightarrow> unat (of_nat n :: u64) = n"
  by (simp add: unat_of_nat take_bit_nat_eq_self)

lemma of_nat_size_ok:
  "n \<le> MAX_VALUES_BLOCK_SIZE \<Longrightarrow> \<not> (of_nat n :: u64) > of_nat MAX_VALUES_BLOCK_SIZE"
  "n \<le> MAX_BLOOM_FILTER_BLOCK_SIZE \<Longrightarrow> \<not> (of_nat n :: u64) > of_nat MAX_BLOOM_FILTER_BLOCK_SIZE"
  "n \<le> MAX_TIMESTAMPS_BLOCK_SIZE \<Longrightarrow> \<not> (of_nat n :: u64) > of_nat MAX_TIMESTAMPS_BLOCK_SIZE"
  "n \<le> MAX_COLUMNS_HEADER_SIZE \<Longrightarrow> \<not> (of_nat n :: u64) > of_nat MAX_COLUMNS_HEADER_SIZE"
  "n \<le> MAX_COLUMNS_HEADER_INDEX_SIZE \<Longrightarrow> \<not> (of_nat n :: u64) > of_nat MAX_COLUMNS_HEADER_INDEX_SIZE"
  by (simp_all add: word_less_nat_alt unat_of_small MAX_VALUES_BLOCK_SIZE_def MAX_BLOOM_FILTER_BLOCK_SIZE_def
      MAX_TIMESTAMPS_BLOCK_SIZE_def MAX_COLUMNS_HEADER_SIZE_def MAX_COLUMNS_HEADER_INDEX_SIZE_def)

lemma ch_valid_sizes:
  "ch_valid f64 ch \<Longrightarrow> vs \<le> of_nat MAX_VALUES_BLOCK_SIZE \<Longrightarrow> bs \<le> of_nat MAX_BLOOM_FILTER_BLOCK_SIZE \<Longrightarrow>
   ch_valid f64 (ch\<lparr>ch_values_size := vs, ch_values_offset := vo, ch_bloom_filter_size := bs, ch_bloom_filter_offset := bo\<rparr>)"
proof -
  have "min_above_max f64 (ch\<lparr>ch_values_size := vs, ch_values_offset := vo, ch_bloom_filter_size := bs, ch_bloom_filter_offset := bo\<rparr>) = min_above_max f64 ch"
    unfolding min_above_max_def by (simp cong: if_cong)
  moreover assume "ch_valid f64 ch" "vs \<le> of_nat MAX_VALUES_BLOCK_SIZE" "bs \<le> of_nat MAX_BLOOM_FILTER_BLOCK_SIZE"
  ultimately show ?thesis by (simp add: ch_valid_def)
qed

lemma cd_write_read:
  assumes "sw_inv sw" "cd_valid f64 cd" "length (column_names (sw_generator sw)) < 2 ^ 62"
  shows "\<exists>ch sw'. cd_must_write_to cd sw = Ok (ch, sw') \<and> sw_inv sw' \<and> sw_le sw sw' \<and> same_other_writers sw sw' \<and> header_of f64 cd ch \<and>
    length (column_names (sw_generator sw')) \<le> Suc (length (column_names (sw_generator sw))) \<and>
    (\<forall>F sr. sw_le sw' F \<longrightarrow> names_sync F sr \<longrightarrow> values_sync sw F sr \<longrightarrow>
      (\<exists>sr'. cd_must_read_from xxh (named ch) sr = Ok (cd, sr') \<and> values_sync sw' F sr' \<and> names_sync F sr' \<and> same_other_readers sr sr'))"
proof -
  obtain l sw1 where g: "get_bloom_values_writer_for_column_name sw (cd_name cd) = Ok (l, sw1)" "sw_inv sw1" "sw_le sw sw1"
      "loc_ok sw1 (cd_name cd) l" "same_streams sw sw1" "length (column_names (sw_generator sw1)) \<le> Suc (length (column_names (sw_generator sw)))"
    using get_writer_spec [OF assms(1,3)] by blast
  have v: "length (cd_values_data cd) \<le> MAX_VALUES_BLOCK_SIZE" "length (cd_bloom_filter_data cd) \<le> MAX_BLOOM_FILTER_BLOCK_SIZE"
    using assms(2) by (auto simp: cd_valid_def)
  have li: "\<And>i. l = Some i \<Longrightarrow> i < length (sw_bloom_values_shards sw1)" using g(4) by (simp add: loc_ok_def)
  define ch where "ch = (cd_header cd)\<lparr>ch_values_size := of_nat (length (cd_values_data cd)), ch_values_offset := bytes_written (bw_values (bw_at sw1 l)),
      ch_bloom_filter_size := of_nat (length (cd_bloom_filter_data cd)), ch_bloom_filter_offset := bytes_written (bw_bloom (bw_at sw1 l))\<rparr>"
  obtain vw bw where w: "write_values_and_bloom (cd_header cd) (cd_values_data cd) (cd_bloom_filter_data cd) l sw1 = Ok (ch, bw_put l \<lparr>bw_bloom = bw, bw_values = vw\<rparr> sw1)"
      "must_write (bw_values (bw_at sw1 l)) (cd_values_data cd) = Ok vw" "must_write (bw_bloom (bw_at sw1 l)) (cd_bloom_filter_data cd) = Ok bw"
      "sw_inv (bw_put l \<lparr>bw_bloom = bw, bw_values = vw\<rparr> sw1)" "sw_le sw1 (bw_put l \<lparr>bw_bloom = bw, bw_values = vw\<rparr> sw1)"
    using write_vb_spec [OF g(2) li v, where ch = "cd_header cd"] unfolding ch_def by blast
  let ?sw' = "bw_put l \<lparr>bw_bloom = bw, bw_values = vw\<rparr> sw1"
  have wr: "cd_must_write_to cd sw = Ok (ch, ?sw')"
    using g(1) w(1) by (simp add: cd_must_write_to_def cd_header_def Let_def)
  have chv: "header_of f64 cd ch"
    using ch_valid_sizes [of f64 "cd_header cd"] assms(2) of_nat_size_ok(1) [OF v(1)] of_nat_size_ok(2) [OF v(2)]
    by (simp add: header_of_def cd_valid_def ch_def not_less) (simp add: cd_header_def)
  have rd: "\<exists>sr'. cd_must_read_from xxh (named ch) sr = Ok (cd, sr') \<and> values_sync ?sw' F sr' \<and> names_sync F sr' \<and> same_other_readers sr sr'"
    if F: "sw_le ?sw' F" "names_sync F sr" "values_sync sw F sr" for F sr
  proof -
    have le: "sw_le sw1 F" using w(5) F(1) by (rule sw_le_trans)
    have vs: "values_sync sw1 F sr" using F(3) values_sync_same [OF g(5)] by simp
    have b: "bsync (bw_at sw1 l) (bw_at F l) (br_at sr (reader_loc_of l))" by (rule values_sync_bw_at [OF vs g(4) le])
    have bl: "bw_le \<lparr>bw_bloom = bw, bw_values = vw\<rparr> (bw_at F l)"
    proof (cases l)
      case (Some i)
      then have "bw_at F l = shard_of F i" using loc_ok_le [OF g(4) le] by (simp add: bw_at_def loc_ok_def shard_of_def)
      moreover have "bw_le (shard_of ?sw' i) (shard_of F i)" using F(1) by (simp add: sw_le_def)
      ultimately show ?thesis using Some li by (simp add: bw_put_shard)
    qed (use F(1) in \<open>simp add: sw_le_def bw_put_message bw_at_def\<close>)
    obtain vr where vr: "must_read_full (br_values (br_at sr (reader_loc_of l))) (length (cd_values_data cd)) = Ok (cd_values_data cd, vr)" "sync vw (bw_values (bw_at F l)) vr"
      using sync_read [OF _ w(2)] b bl by (auto simp: bsync_def bw_le_def)
    obtain br where br: "must_read_full (br_bloom (br_at sr (reader_loc_of l))) (length (cd_bloom_filter_data cd)) = Ok (cd_bloom_filter_data cd, br)" "sync bw (bw_bloom (bw_at F l)) br"
      using sync_read [OF _ w(3)] b bl by (auto simp: bsync_def bw_le_def)
    have br0: "sync bw (bw_bloom (bw_at F l)) (br_bloom (br_at sr (reader_loc_of l)))" if "cd_bloom_filter_data cd = []"
    proof -
      have "bw = bw_bloom (bw_at sw1 l)" using w(3) that by (auto simp: must_write_def split: option.splits)
      then show ?thesis using b by (simp add: bsync_def)
    qed
    have off: "ch_values_offset ch = bytes_read (br_values (br_at sr (reader_loc_of l)))" "ch_bloom_filter_offset ch = bytes_read (br_bloom (br_at sr (reader_loc_of l)))"
      using b sync_bytes by (auto simp: ch_def bsync_def)
    have sz: "unat (ch_values_size ch) = length (cd_values_data cd)" "unat (ch_bloom_filter_size ch) = length (cd_bloom_filter_data cd)"
      using v by (simp_all add: ch_def unat_of_small MAX_VALUES_BLOCK_SIZE_def MAX_BLOOM_FILTER_BLOCK_SIZE_def)
    have lim: "\<not> ch_values_size ch > of_nat MAX_VALUES_BLOCK_SIZE" "\<not> ch_bloom_filter_size ch > of_nat MAX_BLOOM_FILTER_BLOCK_SIZE"
      using of_nat_size_ok v by (simp_all add: ch_def)
    have nm: "get_bloom_values_reader_for_column_name xxh sr (ch_name ch) = Ok (reader_loc_of l)"
      using get_reader_spec [OF loc_ok_le [OF g(4) le] F(2)] chv by (simp add: header_of_def)
    define br' where "br' = (if cd_value_type cd \<noteq> DICT then br else br_bloom (br_at sr (reader_loc_of l)))"
    have vt: "ch_value_type ch = cd_value_type cd" by (simp add: ch_def cd_header_def)
    have cd: "\<lparr>cd_name = ch_name ch, cd_value_type = cd_value_type cd, cd_min_value = ch_min_value (named ch), cd_max_value = ch_max_value (named ch),
         cd_values_dict = ch_values_dict (named ch), cd_values_data = cd_values_data cd, cd_bloom_filter_data = cd_bloom_filter_data cd\<rparr> = cd"
      using assms(2) by (cases cd) (auto simp: cd_valid_def named_def ch_stored_def ch_def cd_header_def Let_def)
    have db: "cd_value_type cd = DICT \<Longrightarrow> cd_bloom_filter_data cd = []" using assms(2) by (simp add: cd_valid_def)
    have "cd_must_read_from xxh (named ch) sr = Ok (cd, br_put (reader_loc_of l) \<lparr>br_bloom = br', br_values = vr\<rparr> sr)"
      using nm off sz lim vr(1) br(1) named_bloom [of ch] vt cd db
      by (cases "cd_value_type cd = DICT") (simp_all add: cd_must_read_from_def Let_def br'_def)
    moreover have "bsync \<lparr>bw_bloom = bw, bw_values = vw\<rparr> (bw_at F l) \<lparr>br_bloom = br', br_values = vr\<rparr>"
      using vr(2) br(2) br0 db by (auto simp: bsync_def br'_def)
    ultimately show ?thesis
      using values_sync_put [OF vs g(4) le F(2)] br_put_fields F(2) by blast
  qed
  have frame: "same_other_writers sw ?sw'" using get_writer_frame [OF g(1)] by (simp add: same_other_writers_def)
  show ?thesis using wr w(4) sw_le_trans [OF g(3) w(5)] frame chv g(6) rd by (intro exI [of _ ch] exI [of _ ?sw']) auto
qed

subsection \<open>Writing and reading a packed block\<close>

lemma cds_write_read:
  assumes "sw_inv sw" "list_all (cd_valid f64) cds" "length (column_names (sw_generator sw)) + length cds < 2 ^ 62"
  shows "\<exists>chs sw'. cds_must_write_to cds sw = Ok (chs, sw') \<and> sw_inv sw' \<and> sw_le sw sw' \<and> same_other_writers sw sw' \<and>
    list_all2 (header_of f64) cds chs \<and>
    length (column_names (sw_generator sw')) \<le> length (column_names (sw_generator sw)) + length cds \<and>
    (\<forall>F sr. sw_le sw' F \<longrightarrow> names_sync F sr \<longrightarrow> values_sync sw F sr \<longrightarrow>
      (\<exists>sr'. cds_must_read_from xxh (map named chs) sr = Ok (cds, sr') \<and> values_sync sw' F sr' \<and> names_sync F sr' \<and> same_other_readers sr sr'))"
  using assms
proof (induction cds arbitrary: sw)
  case Nil
  then show ?case by (simp add: sw_le_refl same_other_writers_def same_other_readers_def)
next
  case (Cons cd cds)
  obtain ch sw1 where c: "cd_must_write_to cd sw = Ok (ch, sw1)" "sw_inv sw1" "sw_le sw sw1" "same_other_writers sw sw1" "header_of f64 cd ch"
      "length (column_names (sw_generator sw1)) \<le> Suc (length (column_names (sw_generator sw)))"
      "\<And>F sr. sw_le sw1 F \<Longrightarrow> names_sync F sr \<Longrightarrow> values_sync sw F sr \<Longrightarrow>
        \<exists>sr'. cd_must_read_from xxh (named ch) sr = Ok (cd, sr') \<and> values_sync sw1 F sr' \<and> names_sync F sr' \<and> same_other_readers sr sr'"
    using cd_write_read [OF Cons.prems(1), of f64 cd xxh] Cons.prems(2,3) by auto
  have pre: "list_all (cd_valid f64) cds" "length (column_names (sw_generator sw1)) + length cds < 2 ^ 62"
    using Cons.prems(2,3) c(6) by auto
  obtain chs sw' where r: "cds_must_write_to cds sw1 = Ok (chs, sw')" "sw_inv sw'" "sw_le sw1 sw'" "same_other_writers sw1 sw'"
      "list_all2 (header_of f64) cds chs" "length (column_names (sw_generator sw')) \<le> length (column_names (sw_generator sw1)) + length cds"
      "\<And>F sr. sw_le sw' F \<Longrightarrow> names_sync F sr \<Longrightarrow> values_sync sw1 F sr \<Longrightarrow>
        \<exists>sr'. cds_must_read_from xxh (map named chs) sr = Ok (cds, sr') \<and> values_sync sw' F sr' \<and> names_sync F sr' \<and> same_other_readers sr sr'"
    using Cons.IH [OF c(2) pre] by blast
  have rd: "\<exists>sr'. cds_must_read_from xxh (map named (ch # chs)) sr = Ok (cd # cds, sr') \<and> values_sync sw' F sr' \<and> names_sync F sr' \<and> same_other_readers sr sr'"
    if F: "sw_le sw' F" "names_sync F sr" "values_sync sw F sr" for F sr
  proof -
    obtain sr1 where 1: "cd_must_read_from xxh (named ch) sr = Ok (cd, sr1)" "values_sync sw1 F sr1" "names_sync F sr1" "same_other_readers sr sr1"
      using c(7) [OF sw_le_trans [OF r(3) F(1)] F(2,3)] by blast
    obtain sr2 where "cds_must_read_from xxh (map named chs) sr1 = Ok (cds, sr2)" "values_sync sw' F sr2" "names_sync F sr2" "same_other_readers sr1 sr2"
      using r(7) [OF F(1) 1(3,2)] by blast
    then show ?thesis using 1(1,4) by (simp add: same_other_readers_def)
  qed
  have w: "cds_must_write_to (cd # cds) sw = Ok (ch # chs, sw')" using c(1) r(1) by simp
  have fr: "same_other_writers sw sw'" using c(4) r(4) by (simp add: same_other_writers_def)
  have h: "list_all2 (header_of f64) (cd # cds) (ch # chs)" using c(5) r(5) by simp
  have n: "length (column_names (sw_generator sw')) \<le> length (column_names (sw_generator sw)) + length (cd # cds)" using c(6) r(6) by simp
  show ?case using w r(2) sw_le_trans [OF c(3) r(3)] fr h n rd by blast
qed

definition in_sync :: "StreamWriters \<Rightarrow> StreamWriters \<Rightarrow> StreamReaders \<Rightarrow> bool" where
  "in_sync sw F sr \<longleftrightarrow> names_sync F sr \<and> values_sync sw F sr \<and>
    sync (sw_timestamps_writer sw) (sw_timestamps_writer F) (sr_timestamps_reader sr) \<and>
    sync (sw_columns_header_writer sw) (sw_columns_header_writer F) (sr_columns_header_reader sr) \<and>
    sync (sw_columns_header_index_writer sw) (sw_columns_header_index_writer F) (sr_columns_header_index_reader sr)"

definition td_valid :: "TimestampsData \<Rightarrow> bool" where
  "td_valid td \<longleftrightarrow> length (td_data td) \<le> MAX_TIMESTAMPS_BLOCK_SIZE"

definition bd_valid :: "'f f64_ops \<Rightarrow> BlockData \<Rightarrow> bool" where
  "bd_valid f64 bd \<longleftrightarrow> td_valid (bd_timestamps_data bd) \<and> list_all (cd_valid f64) (bd_columns_data bd) \<and>
    list_all field_small (bd_const_columns bd) \<and>
    length (bd_columns_data bd) + length (bd_const_columns bd) \<le> MAX_COLUMNS_PER_BLOCK \<and>
    length (const_bytes (bd_const_columns bd)) \<le> 4 * 1024 * 1024 \<and>
    bd_rows_count bd \<le> of_nat MAX_ROWS_PER_BLOCK"

lemma td_write_read:
  assumes "writer_ok (sw_timestamps_writer sw)" "td_valid td"
  shows "\<exists>th w. td_must_write_to td sw = Ok (th, sw\<lparr>sw_timestamps_writer := w\<rparr>) \<and> must_write (sw_timestamps_writer sw) (td_data td) = Ok w \<and> writer_ok w \<and>
    w_le (sw_timestamps_writer sw) w \<and> th_min_timestamp th = td_min_timestamp td \<and> th_max_timestamp th = td_max_timestamp td \<and>
    (\<forall>F sr. w_le w F \<longrightarrow> sync (sw_timestamps_writer sw) F (sr_timestamps_reader sr) \<longrightarrow>
      (\<exists>r. td_must_read_from th sr = Ok (td, sr\<lparr>sr_timestamps_reader := r\<rparr>) \<and> sync w F r))"
proof -
  obtain w where w: "must_write (sw_timestamps_writer sw) (td_data td) = Ok w" "writer_ok w" "w_le (sw_timestamps_writer sw) w"
    using must_write_ok [OF assms(1)] by blast
  let ?th = "\<lparr>th_block_offset = bytes_written (sw_timestamps_writer sw), th_block_size = of_nat (length (td_data td)),
               th_min_timestamp = td_min_timestamp td, th_max_timestamp = td_max_timestamp td, th_marshal_type = td_marshal_type td\<rparr>"
  have l: "\<not> (of_nat (length (td_data td)) :: u64) > of_nat MAX_TIMESTAMPS_BLOCK_SIZE" "unat (of_nat (length (td_data td)) :: u64) = length (td_data td)"
    using assms(2) of_nat_size_ok(3) by (simp_all add: td_valid_def unat_of_small MAX_TIMESTAMPS_BLOCK_SIZE_def)
  have wr: "td_must_write_to td sw = Ok (?th, sw\<lparr>sw_timestamps_writer := w\<rparr>)" using w(1) l by (simp add: td_must_write_to_def Let_def)
  have "\<exists>r. td_must_read_from ?th sr = Ok (td, sr\<lparr>sr_timestamps_reader := r\<rparr>) \<and> sync w F r"
    if F: "w_le w F" "sync (sw_timestamps_writer sw) F (sr_timestamps_reader sr)" for F sr
  proof -
    obtain r where "must_read_full (sr_timestamps_reader sr) (length (td_data td)) = Ok (td_data td, r)" "sync w F r"
      using sync_read [OF F(2) w(1) F(1)] by blast
    then show ?thesis using l sync_bytes [OF F(2)] by (intro exI [of _ r]) (simp add: td_must_read_from_def)
  qed
  then show ?thesis using wr w by (intro exI [of _ ?th] exI [of _ w]) simp
qed

text \<open>Headers are small: a columns header and its index stay below the limits the code checks.\<close>

lemma length_marshal_bytes_le: "length (marshal_bytes [] b) \<le> 10 + length b"
  using length_varint_bytes_le [of "of_nat (length b)"] by (simp add: marshal_bytes_def codec_simps)

lemma length_marshal_strings_le: "length (marshal_strings [] a) \<le> 10 * length a + sum_list (map length a)"
proof (induction a)
  case (Cons v a)
  then show ?case using length_marshal_bytes_le [of v] marshal_strings_append [of "marshal_bytes [] v" a] by simp
qed simp

lemma length_ch_bytes_le: "ch_valid f64 ch \<Longrightarrow> length (ch_bytes ch) \<le> 400"
proof -
  assume v: "ch_valid f64 ch"
  have vb: "length (values_bytes ch) \<le> 20" "length (blooms_bytes ch) \<le> 20"
    using length_varint_bytes_le [of "ch_values_offset ch"] length_varint_bytes_le [of "ch_values_size ch"]
      length_varint_bytes_le [of "ch_bloom_filter_offset ch"] length_varint_bytes_le [of "ch_bloom_filter_size ch"]
    by (simp_all add: values_bytes_def blooms_bytes_def)
  have bb: "length (bound_bytes vt n) \<le> 8" for vt n by (simp add: bound_bytes_def)
  have d: "length (marshal_strings [] (dict_values (ch_values_dict ch))) \<le> 336" if "ch_value_type ch = DICT"
    using v that length_marshal_strings_le [of "dict_values (ch_values_dict ch)"]
    by (simp add: ch_valid_def dict_inv_def MAX_DICT_LEN_def MAX_DICT_SIZE_BYTES_def)
  show ?thesis using vb d bb [of "ch_value_type ch" "ch_min_value ch"] bb [of "ch_value_type ch" "ch_max_value ch"]
    by (cases "ch_value_type ch = DICT") (simp_all add: ch_bytes_def Let_def)
qed

lemma length_concat_le: "list_all (\<lambda>x. length (f x) \<le> k) xs \<Longrightarrow> length (concat (map f xs)) \<le> k * length xs"
  by (induction xs) auto

lemma csh_sizes:
  assumes "csh_valid f64 csh" "length (const_bytes (csh_const_columns csh)) \<le> 4 * 1024 * 1024"
  shows "length (csh_bytes csh) \<le> MAX_COLUMNS_HEADER_SIZE"
proof -
  have "list_all (\<lambda>ch. length (ch_bytes ch) \<le> 400) (csh_column_headers csh)"
    using assms(1) length_ch_bytes_le by (fastforce simp: csh_valid_def list_all_iff)
  then have "length (concat (map ch_bytes (csh_column_headers csh))) \<le> 400 * length (csh_column_headers csh)" by (rule length_concat_le)
  then show ?thesis
    using assms length_varint_bytes_le [of "of_nat (length (csh_column_headers csh))"] length_varint_bytes_le [of "of_nat (length (csh_const_columns csh))"]
    by (simp add: csh_bytes_def csh_valid_def MAX_COLUMNS_PER_BLOCK_def MAX_COLUMNS_HEADER_SIZE_def)
qed

lemma ci_size:
  assumes "length (ci_column_headers_refs ci) + length (ci_const_columns_refs ci) \<le> MAX_COLUMNS_PER_BLOCK"
  shows "length (ci_marshal [] ci) \<le> MAX_COLUMNS_HEADER_INDEX_SIZE"
proof -
  have r: "length (ref_bytes x) \<le> 20" for x
    using length_varint_bytes_le [of "cr_column_name_id x"] length_varint_bytes_le [of "cr_offset x"] by (simp add: ref_bytes_def)
  then have "length (concat (map ref_bytes rs)) \<le> 20 * length rs" for rs by (intro length_concat_le) (simp add: list_all_iff)
  from this [of "ci_column_headers_refs ci"] this [of "ci_const_columns_refs ci"] show ?thesis
    using assms length_varint_bytes_le [of "of_nat (length (ci_column_headers_refs ci))"] length_varint_bytes_le [of "of_nat (length (ci_const_columns_refs ci))"]
    by (simp add: ci_marshal_def marshal_refs_bytes MAX_COLUMNS_PER_BLOCK_def MAX_COLUMNS_HEADER_INDEX_SIZE_def)
qed

lemma sw_inv_generator:
  assumes "sw_inv sw" "gen_inv g" "gen_ext (sw_generator sw) g"
  shows "sw_inv (sw\<lparr>sw_generator := g\<rparr>)" "sw_le sw (sw\<lparr>sw_generator := g\<rparr>)"
proof -
  have "idxs_ok (sw\<lparr>sw_generator := g\<rparr>)"
    using assms gen_ext_length [OF assms(3)] by (force simp: sw_inv_def idxs_ok_def)
  then show "sw_inv (sw\<lparr>sw_generator := g\<rparr>)"
    using assms(1) factory_ok_cong [of "sw\<lparr>sw_generator := g\<rparr>" sw] by (simp add: sw_inv_def)
  have "shard_of (sw\<lparr>sw_generator := g\<rparr>) i = shard_of sw i" for i by (simp add: shard_of_def)
  then show "sw_le sw (sw\<lparr>sw_generator := g\<rparr>)" using sw_le_refl [OF assms(1)] assms(3) by (simp add: sw_le_def)
qed

lemma sw_inv_streams:
  assumes "sw_inv sw" "writer_ok ci" "writer_ok ch" "writer_ok ts"
    and "w_le (sw_columns_header_index_writer sw) ci" "w_le (sw_columns_header_writer sw) ch" "w_le (sw_timestamps_writer sw) ts"
  defines "sw' \<equiv> sw\<lparr>sw_columns_header_index_writer := ci, sw_columns_header_writer := ch, sw_timestamps_writer := ts\<rparr>"
  shows "sw_inv sw'" "sw_le sw sw'"
proof -
  have "idxs_ok sw" using assms(1) by (simp add: sw_inv_def)
  then have "idxs_ok sw'" by (simp add: idxs_ok_def sw'_def)
  then show "sw_inv sw'" using assms(1-4) factory_ok_cong [of sw' sw] by (simp add: sw_inv_def sw'_def)
  have "shard_of sw' i = shard_of sw i" for i by (simp add: shard_of_def sw'_def)
  then show "sw_le sw sw'" using sw_le_refl [OF assms(1)] assms(5-7) by (simp add: sw_le_def sw'_def)
qed

definition same_values :: "StreamWriters \<Rightarrow> StreamWriters \<Rightarrow> bool" where
  "same_values sw sw' \<longleftrightarrow> sw_message_bloom_values_writer sw' = sw_message_bloom_values_writer sw \<and> (\<forall>i. shard_of sw' i = shard_of sw i) \<and>
    sw_timestamps_writer sw' = sw_timestamps_writer sw \<and> sw_index_writer sw' = sw_index_writer sw \<and>
    sw_metaindex_writer sw' = sw_metaindex_writer sw \<and> sw_column_names_writer sw' = sw_column_names_writer sw \<and>
    sw_column_idxs_writer sw' = sw_column_idxs_writer sw"

lemma columns_header_write_read:
  assumes "sw_inv sw" "csh_valid (e_f64 e) csh" "length (const_bytes (csh_const_columns csh)) \<le> 4 * 1024 * 1024"
    and "length (column_names (sw_generator sw)) < 2 ^ 62"
  shows "\<exists>bh' sw'. must_write_columns_header e csh bh sw = Ok (bh', sw') \<and> sw_inv sw' \<and> sw_le sw sw' \<and> same_values sw sw' \<and>
    length (column_names (sw_generator sw')) \<le> length (column_names (sw_generator sw)) + MAX_COLUMNS_PER_BLOCK \<and>
    (\<exists>a b c. bh' = bh\<lparr>bh_columns_header_index_offset := a, bh_columns_header_index_size := b, bh_columns_header_offset := bytes_written (sw_columns_header_writer sw), bh_columns_header_size := c\<rparr>) \<and>
    bh_columns_header_size bh' \<le> of_nat MAX_COLUMNS_HEADER_SIZE \<and>
    (\<forall>F r. sw_le sw' F \<longrightarrow> sync (sw_columns_header_writer sw) (sw_columns_header_writer F) r \<longrightarrow>
      (\<exists>r'. must_read_full r (unat (bh_columns_header_size bh')) = Ok (csh_bytes csh, r') \<and> sync (sw_columns_header_writer sw') (sw_columns_header_writer F) r')) \<and>
    (\<forall>F sr csh0. sw_le sw' F \<longrightarrow> names_sync F sr \<longrightarrow> sync (sw_columns_header_index_writer sw) (sw_columns_header_index_writer F) (sr_columns_header_index_reader sr) \<longrightarrow>
      csh_unmarshal_inplace (csh_bytes csh) PART_FORMAT_LATEST_VERSION = Ok csh0 \<longrightarrow>
      (\<exists>r'. read_column_names_from_columns_header_index bh' sr csh0 = Ok (csh_stored csh, sr\<lparr>sr_columns_header_index_reader := r'\<rparr>) \<and>
        sync (sw_columns_header_index_writer sw') (sw_columns_header_index_writer F) r'))"
proof -
  have gi: "gen_inv (sw_generator sw)" using assms(1) by (simp add: sw_inv_def idxs_ok_def)
  have hs: "length (csh_bytes csh) \<le> MAX_COLUMNS_HEADER_SIZE" by (rule csh_sizes [OF assms(2,3)])
  obtain ci g where m: "csh_marshal (e_f64 e) [] csh (sw_generator sw) = Ok (csh_bytes csh, ci, g)" "gen_inv g" "gen_ext (sw_generator sw) g"
      "length (column_names g) \<le> length (column_names (sw_generator sw)) + MAX_COLUMNS_PER_BLOCK"
      "list_all2 (\<lambda>r ch. names_at (column_names g) (cr_column_name_id r) (ch_name ch)) (ci_column_headers_refs ci) (csh_column_headers csh)"
      "list_all2 (\<lambda>r cc. names_at (column_names g) (cr_column_name_id r) (field_name cc)) (ci_const_columns_refs ci) (csh_const_columns csh)"
    using csh_marshal_props [OF assms(2) gi assms(4), of "[]"] hs by (auto simp: MAX_COLUMNS_HEADER_SIZE_def)
  have ii: "ci_unmarshal_inplace (ci_marshal [] ci) = Ok ci" by (rule refs_lengths [OF m(5,6) assms(2)])
  have isz: "length (ci_marshal [] ci) \<le> MAX_COLUMNS_HEADER_INDEX_SIZE"
    by (rule ci_size) (use list_all2_lengthD [OF m(5)] list_all2_lengthD [OF m(6)] assms(2) in \<open>simp add: csh_valid_def\<close>)
  have ok: "writer_ok (sw_columns_header_index_writer sw)" "writer_ok (sw_columns_header_writer sw)" "writer_ok (sw_timestamps_writer sw)"
    using assms(1) by (simp_all add: sw_inv_def)
  obtain iw where iw: "must_write (sw_columns_header_index_writer sw) (ci_marshal [] ci) = Ok iw" "writer_ok iw" "w_le (sw_columns_header_index_writer sw) iw"
    using must_write_ok [OF ok(1)] by blast
  obtain hw where hw: "must_write (sw_columns_header_writer sw) (csh_bytes csh) = Ok hw" "writer_ok hw" "w_le (sw_columns_header_writer sw) hw"
    using must_write_ok [OF ok(2)] by blast
  let ?sw1 = "sw\<lparr>sw_generator := g\<rparr>"
  let ?sw' = "?sw1\<lparr>sw_columns_header_index_writer := iw, sw_columns_header_writer := hw\<rparr>"
  let ?bh = "bh\<lparr>bh_columns_header_index_offset := bytes_written (sw_columns_header_index_writer sw), bh_columns_header_index_size := of_nat (length (ci_marshal [] ci)),
      bh_columns_header_offset := bytes_written (sw_columns_header_writer sw), bh_columns_header_size := of_nat (length (csh_bytes csh))\<rparr>"
  have lim: "\<not> (of_nat (length (csh_bytes csh)) :: u64) > of_nat MAX_COLUMNS_HEADER_SIZE" "\<not> (of_nat (length (ci_marshal [] ci)) :: u64) > of_nat MAX_COLUMNS_HEADER_INDEX_SIZE"
      "unat (of_nat (length (csh_bytes csh)) :: u64) = length (csh_bytes csh)" "unat (of_nat (length (ci_marshal [] ci)) :: u64) = length (ci_marshal [] ci)"
    using of_nat_size_ok(4) [OF hs] of_nat_size_ok(5) [OF isz] hs isz by (simp_all add: unat_of_small MAX_COLUMNS_HEADER_SIZE_def MAX_COLUMNS_HEADER_INDEX_SIZE_def)
  have wr: "must_write_columns_header e csh bh sw = Ok (?bh, ?sw')"
    using m(1) iw(1) hw(1) lim ci_marshal_append [of "csh_bytes csh" ci] by (simp add: must_write_columns_header_def Let_def)
  note i1 = sw_inv_generator [OF assms(1) m(2,3)]
  have i2: "sw_inv ?sw'" "sw_le ?sw1 ?sw'"
    using sw_inv_streams [OF i1(1) iw(2) hw(2) ok(3)] iw(3) hw(3) writer_ok_le [OF ok(3)] by simp_all
  have sv: "same_values sw ?sw'" by (simp add: same_values_def shard_of_def)
  have rh: "\<exists>r'. must_read_full r (unat (bh_columns_header_size ?bh)) = Ok (csh_bytes csh, r') \<and> sync hw (sw_columns_header_writer F) r'"
    if "sw_le ?sw' F" "sync (sw_columns_header_writer sw) (sw_columns_header_writer F) r" for F r
    using sync_read [OF that(2) hw(1)] that(1) lim(3) by (simp add: sw_le_def)
  have ri: "\<exists>r'. read_column_names_from_columns_header_index ?bh sr csh0 = Ok (csh_stored csh, sr\<lparr>sr_columns_header_index_reader := r'\<rparr>) \<and> sync iw (sw_columns_header_index_writer F) r'"
    if F: "sw_le ?sw' F" "names_sync F sr" "sync (sw_columns_header_index_writer sw) (sw_columns_header_index_writer F) (sr_columns_header_index_reader sr)"
      and c0: "csh_unmarshal_inplace (csh_bytes csh) PART_FORMAT_LATEST_VERSION = Ok csh0" for F sr csh0
  proof -
    obtain r' where r': "must_read_full (sr_columns_header_index_reader sr) (length (ci_marshal [] ci)) = Ok (ci_marshal [] ci, r')" "sync iw (sw_columns_header_index_writer F) r'"
      using sync_read [OF F(3) iw(1)] F(1) by (auto simp: sw_le_def)
    have ge: "gen_ext g (sw_generator F)" using F(1) by (simp add: sw_le_def)
    have sn: "sr_column_names sr = column_names (sw_generator F)" using F(2) by (simp add: names_sync_def)
    have "csh0 = \<lparr>csh_column_headers = map ch_stored (csh_column_headers csh), csh_const_columns = map (\<lambda>cc. Field [] (field_value cc)) (csh_const_columns csh)\<rparr>"
      using csh_unmarshal_bytes [OF assms(2), of PART_FORMAT_LATEST_VERSION] c0 by (simp add: PART_FORMAT_LATEST_VERSION_def)
    then have "set_column_names csh0 ci (sr_column_names sr) = Ok (csh_stored csh)"
      unfolding sn using m(5,6) names_at_ext [OF ge] by (auto intro!: set_column_names_stored elim!: list_all2_mono)
    then show ?thesis using r' ii lim by (intro exI [of _ r']) (simp add: read_column_names_from_columns_header_index_def Let_def)
  qed
  show ?thesis using wr i2(1) sw_le_trans [OF i1(2) i2(2)] sv m(4) lim(1) rh ri
    by (intro exI [of _ ?bh] exI [of _ ?sw'] conjI) (auto simp: not_less)
qed

lemma csh_stored_named: "csh_stored csh = \<lparr>csh_column_headers = map named (csh_column_headers csh), csh_const_columns = csh_const_columns csh\<rparr>"
  by (simp add: csh_stored_def named_def)

lemma names_sync_upd [simp]:
  "names_sync F (sr\<lparr>sr_timestamps_reader := r1\<rparr>) = names_sync F sr" "names_sync F (sr\<lparr>sr_columns_header_reader := r1\<rparr>) = names_sync F sr"
  "names_sync F (sr\<lparr>sr_columns_header_index_reader := r1\<rparr>) = names_sync F sr"
  by (simp_all add: names_sync_def)

lemma values_sync_upd [simp]:
  "values_sync sw F (sr\<lparr>sr_timestamps_reader := r1\<rparr>) = values_sync sw F sr" "values_sync sw F (sr\<lparr>sr_columns_header_reader := r1\<rparr>) = values_sync sw F sr"
  "values_sync sw F (sr\<lparr>sr_columns_header_index_reader := r1\<rparr>) = values_sync sw F sr"
  by (simp_all add: values_sync_def)

text \<open>The readers that reading a block leaves alone.\<close>

definition index_readers :: "StreamReaders \<Rightarrow> ReaderWithStats list \<times> BloomValuesReader" where
  "index_readers sr = ([sr_index_reader sr, sr_metaindex_reader sr, sr_column_names_reader sr, sr_column_idxs_reader sr], sr_old_bloom_values_reader sr)"

text \<open>What writing one block promises to everybody who reads the finished streams later.\<close>

definition block_written :: "(bytes \<Rightarrow> u64) \<Rightarrow> BlockData \<Rightarrow> StreamWriters \<Rightarrow> BlockHeader \<Rightarrow> StreamWriters \<Rightarrow> bool" where
  "block_written xxh bd sw bh sw' \<longleftrightarrow>
    sw_inv sw' \<and> sw_le sw sw' \<and> bh_valid bh \<and> bh_stream_id bh = bd_stream_id bd \<and> bh_rows_count bh = bd_rows_count bd \<and>
    bh_uncompressed_size_bytes bh = bd_uncompressed_size_bytes bd \<and>
    th_min_timestamp (bh_timestamps_header bh) = td_min_timestamp (bd_timestamps_data bd) \<and>
    th_max_timestamp (bh_timestamps_header bh) = td_max_timestamp (bd_timestamps_data bd) \<and>
    sw_index_writer sw' = sw_index_writer sw \<and> sw_metaindex_writer sw' = sw_metaindex_writer sw \<and>
    sw_column_names_writer sw' = sw_column_names_writer sw \<and> sw_column_idxs_writer sw' = sw_column_idxs_writer sw \<and>
    length (column_names (sw_generator sw')) \<le> length (column_names (sw_generator sw)) + 2 * MAX_COLUMNS_PER_BLOCK \<and>
    (\<forall>F sr. sw_le sw' F \<longrightarrow> in_sync sw F sr \<longrightarrow>
      (\<exists>sr'. bd_must_read_from xxh bh sr = Ok (bd, sr') \<and> in_sync sw' F sr' \<and> index_readers sr' = index_readers sr))"

lemma bd_write_read:
  assumes "sw_inv sw" "bd_valid (e_f64 e) bd" "length (column_names (sw_generator sw)) < 2 ^ 61"
  shows "\<exists>bh sw'. bd_must_write_to e bd sw = Ok (bh, sw') \<and> block_written xxh bd sw bh sw'"
proof -
  let ?bh0 = "bh_default\<lparr>bh_stream_id := bd_stream_id bd, bh_uncompressed_size_bytes := bd_uncompressed_size_bytes bd, bh_rows_count := bd_rows_count bd\<rparr>"
  have v: "td_valid (bd_timestamps_data bd)" "list_all (cd_valid (e_f64 e)) (bd_columns_data bd)" "list_all field_small (bd_const_columns bd)"
      "length (bd_columns_data bd) + length (bd_const_columns bd) \<le> MAX_COLUMNS_PER_BLOCK"
      "length (const_bytes (bd_const_columns bd)) \<le> 4 * 1024 * 1024" "bd_rows_count bd \<le> of_nat MAX_ROWS_PER_BLOCK"
    using assms(2) by (simp_all add: bd_valid_def)
  have ok: "writer_ok (sw_columns_header_index_writer sw)" "writer_ok (sw_columns_header_writer sw)" "writer_ok (sw_timestamps_writer sw)"
    using assms(1) by (simp_all add: sw_inv_def)
  obtain th w where t: "td_must_write_to (bd_timestamps_data bd) sw = Ok (th, sw\<lparr>sw_timestamps_writer := w\<rparr>)" "writer_ok w" "w_le (sw_timestamps_writer sw) w"
      "th_min_timestamp th = td_min_timestamp (bd_timestamps_data bd)" "th_max_timestamp th = td_max_timestamp (bd_timestamps_data bd)"
      "\<And>F sr. w_le w F \<Longrightarrow> sync (sw_timestamps_writer sw) F (sr_timestamps_reader sr) \<Longrightarrow>
        \<exists>r. td_must_read_from th sr = Ok (bd_timestamps_data bd, sr\<lparr>sr_timestamps_reader := r\<rparr>) \<and> sync w F r"
    using td_write_read [OF ok(3) v(1)] by blast
  let ?sw1 = "sw\<lparr>sw_timestamps_writer := w\<rparr>"
  have i1: "sw_inv ?sw1" "sw_le sw ?sw1"
    using sw_inv_streams [OF assms(1) ok(1,2) t(2)] writer_ok_le ok t(3) by simp_all
  have n1: "length (column_names (sw_generator ?sw1)) + length (bd_columns_data bd) < 2 ^ 62"
    using assms(3) v(4) by (simp add: MAX_COLUMNS_PER_BLOCK_def)
  obtain chs sw2 where c: "cds_must_write_to (bd_columns_data bd) ?sw1 = Ok (chs, sw2)" "sw_inv sw2" "sw_le ?sw1 sw2" "same_other_writers ?sw1 sw2"
      "list_all2 (header_of (e_f64 e)) (bd_columns_data bd) chs"
      "length (column_names (sw_generator sw2)) \<le> length (column_names (sw_generator ?sw1)) + length (bd_columns_data bd)"
      "\<And>F sr. sw_le sw2 F \<Longrightarrow> names_sync F sr \<Longrightarrow> values_sync ?sw1 F sr \<Longrightarrow>
        \<exists>sr'. cds_must_read_from xxh (map named chs) sr = Ok (bd_columns_data bd, sr') \<and> values_sync sw2 F sr' \<and> names_sync F sr' \<and> same_other_readers sr sr'"
    using cds_write_read [OF i1(1) v(2) n1, of xxh] by blast
  let ?csh = "\<lparr>csh_column_headers = chs, csh_const_columns = bd_const_columns bd\<rparr>"
  have lc: "length chs = length (bd_columns_data bd)" using c(5) by (simp add: list_all2_lengthD)
  have "list_all (ch_valid (e_f64 e)) chs" using c(5) by (auto simp: header_of_def list_all_length list_all2_conv_all_nth)
  then have cv: "csh_valid (e_f64 e) ?csh" using v(3,4) lc by (simp add: csh_valid_def)
  have n2: "length (column_names (sw_generator sw2)) < 2 ^ 62" using n1 c(6) by simp
  have cb: "length (const_bytes (csh_const_columns ?csh)) \<le> 4 * 1024 * 1024" using v(5) by simp
  let ?bh1 = "?bh0\<lparr>bh_timestamps_header := th\<rparr>"
  obtain bh sw' where h: "must_write_columns_header e ?csh ?bh1 sw2 = Ok (bh, sw')" "sw_inv sw'" "sw_le sw2 sw'" "same_values sw2 sw'"
      "length (column_names (sw_generator sw')) \<le> length (column_names (sw_generator sw2)) + MAX_COLUMNS_PER_BLOCK"
      "\<exists>a b c. bh = ?bh1\<lparr>bh_columns_header_index_offset := a, bh_columns_header_index_size := b, bh_columns_header_offset := bytes_written (sw_columns_header_writer sw2), bh_columns_header_size := c\<rparr>"
      "bh_columns_header_size bh \<le> of_nat MAX_COLUMNS_HEADER_SIZE"
      "\<And>F r. sw_le sw' F \<Longrightarrow> sync (sw_columns_header_writer sw2) (sw_columns_header_writer F) r \<Longrightarrow>
        \<exists>r'. must_read_full r (unat (bh_columns_header_size bh)) = Ok (csh_bytes ?csh, r') \<and> sync (sw_columns_header_writer sw') (sw_columns_header_writer F) r'"
      "\<And>F sr csh0. sw_le sw' F \<Longrightarrow> names_sync F sr \<Longrightarrow> sync (sw_columns_header_index_writer sw2) (sw_columns_header_index_writer F) (sr_columns_header_index_reader sr) \<Longrightarrow>
        csh_unmarshal_inplace (csh_bytes ?csh) PART_FORMAT_LATEST_VERSION = Ok csh0 \<Longrightarrow>
        \<exists>r'. read_column_names_from_columns_header_index bh sr csh0 = Ok (csh_stored ?csh, sr\<lparr>sr_columns_header_index_reader := r'\<rparr>) \<and>
          sync (sw_columns_header_index_writer sw') (sw_columns_header_index_writer F) r'"
    using columns_header_write_read [OF c(2) cv cb n2, of ?bh1] by blast
  have fr: "sw_timestamps_writer sw' = w" "sw_columns_header_writer sw2 = sw_columns_header_writer sw"
      "sw_columns_header_index_writer sw2 = sw_columns_header_index_writer sw"
    using c(4) h(4) by (simp_all add: same_other_writers_def same_values_def)
  have bh: "bh_timestamps_header bh = th" "bh_columns_header_offset bh = bytes_written (sw_columns_header_writer sw)" "bh_stream_id bh = bd_stream_id bd"
      "bh_uncompressed_size_bytes bh = bd_uncompressed_size_bytes bd" "bh_rows_count bh = bd_rows_count bd"
    using h(6) fr by auto
  have wr: "bd_must_write_to e bd sw = Ok (bh, sw')" using t(1) c(1) h(1) by (simp add: bd_must_write_to_def Let_def)
  have rd: "\<exists>sr'. bd_must_read_from xxh bh sr = Ok (bd, sr') \<and> in_sync sw' F sr' \<and> index_readers sr' = index_readers sr"
    if F: "sw_le sw' F" and s: "in_sync sw F sr" for F sr
  proof -
    have F2: "sw_le sw2 F" "w_le w (sw_timestamps_writer F)" using sw_le_trans [OF h(3) F] F fr(1) by (auto simp: sw_le_def)
    obtain r1 where r1: "td_must_read_from th sr = Ok (bd_timestamps_data bd, sr\<lparr>sr_timestamps_reader := r1\<rparr>)" "sync w (sw_timestamps_writer F) r1"
      using t(6) [OF F2(2)] s by (auto simp: in_sync_def)
    obtain r2 where r2: "must_read_full (sr_columns_header_reader sr) (unat (bh_columns_header_size bh)) = Ok (csh_bytes ?csh, r2)"
        "sync (sw_columns_header_writer sw') (sw_columns_header_writer F) r2"
      using h(8) [OF F, of "sr_columns_header_reader sr"] s fr(2) by (auto simp: in_sync_def)
    let ?sr2 = "sr\<lparr>sr_timestamps_reader := r1, sr_columns_header_reader := r2\<rparr>"
    obtain csh0 where c0: "csh_unmarshal_inplace (csh_bytes ?csh) PART_FORMAT_LATEST_VERSION = Ok csh0"
      using csh_unmarshal_bytes [OF cv, of PART_FORMAT_LATEST_VERSION] by (simp add: PART_FORMAT_LATEST_VERSION_def)
    obtain r3 where r3: "read_column_names_from_columns_header_index bh ?sr2 csh0 = Ok (csh_stored ?csh, ?sr2\<lparr>sr_columns_header_index_reader := r3\<rparr>)"
        "sync (sw_columns_header_index_writer sw') (sw_columns_header_index_writer F) r3"
      using h(9) [OF F _ _ c0, of ?sr2] s fr(3) by (auto simp: in_sync_def)
    let ?sr3 = "?sr2\<lparr>sr_columns_header_index_reader := r3\<rparr>"
    have "shard_of ?sw1 i = shard_of sw i" for i by (simp add: shard_of_def)
    then have vs: "values_sync ?sw1 F ?sr3" using s by (simp add: in_sync_def values_sync_def)
    have ns: "names_sync F ?sr3" using s by (simp add: in_sync_def)
    obtain sr4 where r4: "cds_must_read_from xxh (map named chs) ?sr3 = Ok (bd_columns_data bd, sr4)" "values_sync sw2 F sr4" "names_sync F sr4" "same_other_readers ?sr3 sr4"
      using c(7) [OF F2(1) ns vs] by blast
    have ver: "sr_part_format_version sr = 3" using s by (simp add: in_sync_def names_sync_def PART_FORMAT_LATEST_VERSION_def)
    have off: "bh_columns_header_offset bh = bytes_read (sr_columns_header_reader sr)" using s bh(2) sync_bytes [of "sw_columns_header_writer sw"] by (auto simp: in_sync_def)
    have "bd_must_read_from xxh bh sr = Ok (bd, sr4)"
      using r1(1) r2(1) r3(1) r4(1) c0 ver off leD [OF h(7)] bh
      by (simp add: bd_must_read_from_def Let_def csh_stored_named PART_FORMAT_LATEST_VERSION_def)
    moreover have "values_sync sw' F sr4" using r4(2) h(4) by (simp add: values_sync_def same_values_def)
    ultimately show ?thesis
      using r4(3,4) r1(2) r2(2) r3(2) fr(1) by (intro exI [of _ sr4]) (simp add: in_sync_def same_other_readers_def index_readers_def)
  qed
  have fr': "sw_index_writer sw' = sw_index_writer sw" "sw_metaindex_writer sw' = sw_metaindex_writer sw"
      "sw_column_names_writer sw' = sw_column_names_writer sw" "sw_column_idxs_writer sw' = sw_column_idxs_writer sw"
    using c(4) h(4) by (simp_all add: same_other_writers_def same_values_def)
  have "length (column_names (sw_generator sw')) \<le> length (column_names (sw_generator sw)) + 2 * MAX_COLUMNS_PER_BLOCK"
    using c(6) h(5) v(4) by simp
  moreover have "sw_le sw sw'" using sw_le_trans [OF i1(2)] sw_le_trans [OF c(3) h(3)] by blast
  moreover have "bh_valid bh" using h(7) bh(5) v(6) by (simp add: bh_valid_def)
  ultimately show ?thesis
    using wr h(2) bh t(4,5) fr' rd unfolding block_written_def by blast
qed
end
