(* ===== verification/Parts.thy ===== *)
theory Parts
  imports Part_Streams
begin

text \<open>
  Whole parts: \<open>BlockStreamWriter\<close> of \<^verbatim>\<open>block_stream_writer.rs\<close>, \<open>BlockStreamReader\<close> and the index blocks of
  \<^verbatim>\<open>block_stream_reader.rs\<close>, the part header of \<^verbatim>\<open>part_header.rs\<close> and the contents of an in-memory part
  (\<^verbatim>\<open>inmemory_part.rs\<close>). The writer groups block headers into compressed index blocks of about 128 KiB and
  keeps the totals of the part; the reader checks every offset, order and total on the way. The
  theorem of this theory is that reading a finished part gives exactly the blocks that were written,
  in order, and that none of the reader's checks fails.

  The counters of the code are \<open>u64\<close>; here they wrap, as in a release build. Paths, the opening and
  closing of files and the pools are not modelled: a part is the contents of its streams. The part header, which the
  code writes to and reads from \<^verbatim>\<open>metadata.json\<close>, is kept as a record: its JSON form and its parser are not modelled.
\<close>

subsection \<open>Definitions: part headers and part contents\<close>

record PartHeader =
  ph_format_version :: nat
  ph_compressed_size_bytes :: u64
  ph_uncompressed_size_bytes :: u64
  ph_rows_count :: u64
  ph_blocks_count :: u64
  ph_min_timestamp :: i64
  ph_max_timestamp :: i64
  ph_bloom_values_shards_count :: u64

record BloomValuesBuffer =
  bb_bloom :: bytes
  bb_values :: bytes

text \<open>
  The contents of a part. An in-memory part has one buffer for the fields (\<open>field_bloom_values\<close>), a file
  part has the shards its header counts; parts before version 1 have the old pair of files instead.
\<close>

record Part =
  pt_ph :: PartHeader
  pt_column_names :: bytes
  pt_column_idxs :: bytes
  pt_metaindex :: bytes
  pt_index :: bytes
  pt_columns_header_index :: bytes
  pt_columns_header :: bytes
  pt_timestamps :: bytes
  pt_message_bloom_values :: BloomValuesBuffer
  pt_field_bloom_values :: "BloomValuesBuffer list"
  pt_old_bloom_values :: BloomValuesBuffer

subsection \<open>Definitions: the block stream writer\<close>

record BlockStreamWriter =
  bsw_stream_writers :: StreamWriters
  bsw_sid_last :: StreamID
  bsw_sid_first :: StreamID
  bsw_min_timestamp_last :: i64
  bsw_min_timestamp :: i64
  bsw_max_timestamp :: i64
  bsw_has_written_blocks :: bool
  bsw_global_uncompressed_size_bytes :: u64
  bsw_global_rows_count :: u64
  bsw_global_blocks_count :: u64
  bsw_global_min_timestamp :: i64
  bsw_global_max_timestamp :: i64
  bsw_index_block_data :: bytes
  bsw_metaindex_data :: bytes
  bsw_index_block_header :: IndexBlockHeader

definition bsw_reset :: "StreamWriters \<Rightarrow> BlockStreamWriter" where
  "bsw_reset sw =
    \<lparr>bsw_stream_writers = sw, bsw_sid_last = stream_id_zero, bsw_sid_first = stream_id_zero, bsw_min_timestamp_last = 0,
     bsw_min_timestamp = 0, bsw_max_timestamp = 0, bsw_has_written_blocks = False, bsw_global_uncompressed_size_bytes = 0,
     bsw_global_rows_count = 0, bsw_global_blocks_count = 0, bsw_global_min_timestamp = 0, bsw_global_max_timestamp = 0,
     bsw_index_block_data = [], bsw_metaindex_data = [], bsw_index_block_header = ih_default\<rparr>"

definition must_init_for_inmemory_part :: BlockStreamWriter where
  "must_init_for_inmemory_part = bsw_reset (sw_init (Inmemory True) 1)"

definition must_init_for_file_part :: BlockStreamWriter where
  "must_init_for_file_part = bsw_reset (sw_init FileFactory (of_nat BLOOM_VALUES_MAX_SHARDS_COUNT))"

definition must_write_index_block ::
  "zstd \<Rightarrow> bytes \<Rightarrow> StreamID \<Rightarrow> i64 \<Rightarrow> i64 \<Rightarrow> StreamWriters \<Rightarrow> (IndexBlockHeader \<times> StreamWriters, unit) outcome" where
  "must_write_index_block z data sid_first min_timestamp max_timestamp sw =
    (let bb = compress_zstd_level z [] data 1;
         ih = \<lparr>ih_stream_id = sid_first, ih_min_timestamp = min_timestamp, ih_max_timestamp = max_timestamp,
               ih_index_block_offset = bytes_written (sw_index_writer sw), ih_index_block_size = of_nat (length bb)\<rparr>
     in obind (must_write (sw_index_writer sw) bb) (\<lambda>w. Ok (ih, sw\<lparr>sw_index_writer := w\<rparr>)))"

definition must_flush_index_block :: "zstd \<Rightarrow> bytes \<Rightarrow> BlockStreamWriter \<Rightarrow> (BlockStreamWriter, unit) outcome" where
  "must_flush_index_block z data bsw =
    obind (if data \<noteq> [] then
             obind (must_write_index_block z data (bsw_sid_first bsw) (bsw_min_timestamp bsw) (bsw_max_timestamp bsw) (bsw_stream_writers bsw)) (\<lambda>(ih, sw).
             Ok (bsw\<lparr>bsw_index_block_header := ih, bsw_stream_writers := sw, bsw_metaindex_data := ih_marshal (bsw_metaindex_data bsw) ih\<rparr>))
           else Ok bsw) (\<lambda>bsw.
    Ok (bsw\<lparr>bsw_has_written_blocks := False, bsw_min_timestamp := 0, bsw_max_timestamp := 0, bsw_sid_first := stream_id_zero\<rparr>))"

text \<open>The bookkeeping between writing the block and flushing the index block, in the order of the code.\<close>

definition account_block :: "StreamID \<Rightarrow> bool \<Rightarrow> bool \<Rightarrow> BlockHeader \<Rightarrow> BlockStreamWriter \<Rightarrow> (BlockStreamWriter, unit) outcome" where
  "account_block s has_written_blocks is_seen_sid bh bsw =
    (let th = bh_timestamps_header bh; mn = th_min_timestamp th; mx = th_max_timestamp th;
         bsw = (if bsw_global_rows_count bsw = 0 \<or> mn <s bsw_global_min_timestamp bsw then bsw\<lparr>bsw_global_min_timestamp := mn\<rparr> else bsw);
         bsw = (if bsw_global_rows_count bsw = 0 \<or> bsw_global_max_timestamp bsw <s mx then bsw\<lparr>bsw_global_max_timestamp := mx\<rparr> else bsw);
         bsw = (if \<not> has_written_blocks \<or> mn <s bsw_min_timestamp bsw then bsw\<lparr>bsw_min_timestamp := mn\<rparr> else bsw);
         bsw = (if \<not> has_written_blocks \<or> bsw_max_timestamp bsw <s mx then bsw\<lparr>bsw_max_timestamp := mx\<rparr> else bsw)
     in if is_seen_sid \<and> mn <s bsw_min_timestamp_last bsw then Panic
        else Ok (bsw\<lparr>bsw_min_timestamp_last := mn,
                     bsw_global_uncompressed_size_bytes := bsw_global_uncompressed_size_bytes bsw + bh_uncompressed_size_bytes bh,
                     bsw_global_rows_count := bsw_global_rows_count bsw + bh_rows_count bh,
                     bsw_global_blocks_count := bsw_global_blocks_count bsw + 1,
                     bsw_index_block_data := bh_marshal (bsw_index_block_data bsw) bh\<rparr>))"

definition must_write_block_internal ::
  "'f env \<Rightarrow> StreamID \<Rightarrow> Block + BlockData \<Rightarrow> BlockStreamWriter \<Rightarrow> (BlockStreamWriter, unit) outcome" where
  "must_write_block_internal e s x bsw =
    (if stream_id_less s (bsw_sid_last bsw) then Panic
     else
       let has_written_blocks = bsw_has_written_blocks bsw;
           bsw = (if \<not> has_written_blocks then bsw\<lparr>bsw_sid_first := s, bsw_has_written_blocks := True\<rparr> else bsw);
           is_seen_sid = stream_id_equal s (bsw_sid_last bsw);
           bsw = bsw\<lparr>bsw_sid_last := s\<rparr>
       in obind (case x of
             Inl b \<Rightarrow> block_must_write_to e b s (bsw_stream_writers bsw)
           | Inr bd \<Rightarrow> bd_must_write_to e bd (bsw_stream_writers bsw)) (\<lambda>(bh, sw).
          obind (account_block s has_written_blocks is_seen_sid bh (bsw\<lparr>bsw_stream_writers := sw\<rparr>)) (\<lambda>bsw.
          if length (bsw_index_block_data bsw) > MAX_UNCOMPRESSED_INDEX_BLOCK_SIZE then
            obind (must_flush_index_block (e_zstd e) (bsw_index_block_data bsw) (bsw\<lparr>bsw_index_block_data := []\<rparr>)) (\<lambda>bsw.
            Ok (bsw\<lparr>bsw_index_block_data := []\<rparr>))
          else Ok bsw)))"

definition must_write_block :: "'f env \<Rightarrow> StreamID \<Rightarrow> Block \<Rightarrow> BlockStreamWriter \<Rightarrow> (BlockStreamWriter, unit) outcome" where
  "must_write_block e s b bsw =
    (if length (b_timestamps b) = 0 then Ok bsw else must_write_block_internal e s (Inl b) bsw)"

definition must_write_block_data :: "'f env \<Rightarrow> BlockData \<Rightarrow> BlockStreamWriter \<Rightarrow> (BlockStreamWriter, unit) outcome" where
  "must_write_block_data e bd bsw =
    (if bd_rows_count bd = 0 then Ok bsw else must_write_block_internal e (bd_stream_id bd) (Inr bd) bsw)"

text \<open>\<open>must_write_rows\<close>: the block comes from a pool, reset.\<close>

definition must_write_rows :: "'f env \<Rightarrow> StreamID \<Rightarrow> i64 list \<Rightarrow> row list \<Rightarrow> BlockStreamWriter \<Rightarrow> (BlockStreamWriter, unit) outcome" where
  "must_write_rows e s timestamps rows bsw =
    (if timestamps = [] then Ok bsw
     else
       obind (must_init_from_rows timestamps rows \<lparr>b_timestamps = [], b_columns = [], b_const_columns = []\<rparr>) (\<lambda>b.
       must_write_block e s b bsw))"

definition must_write_column_names :: "zstd \<Rightarrow> WriterWithStats \<Rightarrow> bytes list \<Rightarrow> (WriterWithStats, unit) outcome" where
  "must_write_column_names z w names = must_write w (marshal_column_names z [] names)"

text \<open>\<open>order\<close> is the order in which the hash map is iterated.\<close>

definition must_write_column_idxs ::
  "((u64 \<times> u64) list \<Rightarrow> (u64 \<times> u64) list) \<Rightarrow> WriterWithStats \<Rightarrow> (u64 \<times> u64) list \<Rightarrow> (WriterWithStats, unit) outcome" where
  "must_write_column_idxs order w column_idxs = must_write w (marshal_column_idxs [] (order column_idxs))"

definition must_write_index_block_headers :: "zstd \<Rightarrow> WriterWithStats \<Rightarrow> bytes \<Rightarrow> (WriterWithStats, unit) outcome" where
  "must_write_index_block_headers z w metaindex_data = must_write w (compress_zstd_level z [] metaindex_data 1)"

definition finalize :: "'f env \<Rightarrow> BlockStreamWriter \<Rightarrow> (PartHeader \<times> StreamWriters, unit) outcome" where
  "finalize e bsw =
    (let n = of_nat (length (sw_bloom_values_shards (bsw_stream_writers bsw))) in
     obind (must_flush_index_block (e_zstd e) (bsw_index_block_data bsw) bsw) (\<lambda>bsw.
     let sw = bsw_stream_writers bsw in
     obind (must_write_column_names (e_zstd e) (sw_column_names_writer sw) (column_names (sw_generator sw))) (\<lambda>w.
     let sw = sw\<lparr>sw_column_names_writer := w\<rparr> in
     obind (must_write_column_idxs (e_order e) (sw_column_idxs_writer sw) (sw_column_idxs sw)) (\<lambda>w.
     let sw = sw\<lparr>sw_column_idxs_writer := w\<rparr> in
     obind (must_write_index_block_headers (e_zstd e) (sw_metaindex_writer sw) (bsw_metaindex_data bsw)) (\<lambda>w.
     let sw = sw\<lparr>sw_metaindex_writer := w\<rparr> in
     Ok (\<lparr>ph_format_version = PART_FORMAT_LATEST_VERSION, ph_compressed_size_bytes = sw_total_bytes_written sw,
          ph_uncompressed_size_bytes = bsw_global_uncompressed_size_bytes bsw, ph_rows_count = bsw_global_rows_count bsw,
          ph_blocks_count = bsw_global_blocks_count bsw, ph_min_timestamp = bsw_global_min_timestamp bsw,
          ph_max_timestamp = bsw_global_max_timestamp bsw, ph_bloom_values_shards_count = n\<rparr>, sw))))))"

text \<open>What the streams hold when they are closed.\<close>

definition contents :: "WriterWithStats \<Rightarrow> bytes" where
  "contents w = (case w_data w of Some d \<Rightarrow> d | None \<Rightarrow> [])"

definition bw_contents :: "BloomValuesWriter \<Rightarrow> BloomValuesBuffer" where
  "bw_contents w = \<lparr>bb_bloom = contents (bw_bloom w), bb_values = contents (bw_values w)\<rparr>"

definition part_of :: "bool \<Rightarrow> PartHeader \<Rightarrow> StreamWriters \<Rightarrow> Part" where
  "part_of inmemory ph sw =
    \<lparr>pt_ph = ph, pt_column_names = contents (sw_column_names_writer sw), pt_column_idxs = contents (sw_column_idxs_writer sw),
     pt_metaindex = contents (sw_metaindex_writer sw), pt_index = contents (sw_index_writer sw),
     pt_columns_header_index = contents (sw_columns_header_index_writer sw), pt_columns_header = contents (sw_columns_header_writer sw),
     pt_timestamps = contents (sw_timestamps_writer sw), pt_message_bloom_values = bw_contents (sw_message_bloom_values_writer sw),
     pt_field_bloom_values =
       (if inmemory then [if sw_bloom_values_shards sw = [] then \<lparr>bb_bloom = [], bb_values = []\<rparr> else bw_contents (sw_bloom_values_shards sw ! 0)]
        else map bw_contents (sw_bloom_values_shards sw)),
     pt_old_bloom_values = \<lparr>bb_bloom = [], bb_values = []\<rparr>\<rparr>"

subsection \<open>Definitions: the block stream reader\<close>

definition new_reader :: "bytes \<Rightarrow> ReaderWithStats" where
  "new_reader d = \<lparr>r_rest = Some d, bytes_read = 0\<rparr>"

definition no_reader :: ReaderWithStats where
  "no_reader = \<lparr>r_rest = None, bytes_read = 0\<rparr>"

definition reader_if :: "bool \<Rightarrow> bytes \<Rightarrow> ReaderWithStats" where
  "reader_if b d = (if b then new_reader d else no_reader)"

definition buffer_reader :: "bool \<Rightarrow> BloomValuesBuffer \<Rightarrow> BloomValuesReader" where
  "buffer_reader b d = \<lparr>br_bloom = reader_if b (bb_bloom d), br_values = reader_if b (bb_values d)\<rparr>"

definition read_all :: "ReaderWithStats \<Rightarrow> (bytes \<times> ReaderWithStats, unit) outcome" where
  "read_all r =
    (case r_rest r of
       None \<Rightarrow> Panic
     | Some d \<Rightarrow> Ok (d, r\<lparr>r_rest := Some [], bytes_read := bytes_read r + of_nat (length d)\<rparr>))"

definition must_read_column_names :: "zstd \<Rightarrow> ReaderWithStats \<Rightarrow> (bytes list \<times> ReaderWithStats, unit) outcome" where
  "must_read_column_names z r =
    obind (read_all r) (\<lambda>(src, r).
    obind (or_panic (unmarshal_column_names z src)) (\<lambda>(names, ids). Ok (names, r)))"

definition must_read_column_idxs ::
  "ReaderWithStats \<Rightarrow> bytes list \<Rightarrow> u64 \<Rightarrow> ((bytes \<rightharpoonup> u64) \<times> ReaderWithStats, unit) outcome" where
  "must_read_column_idxs r names shards_count =
    obind (read_all r) (\<lambda>(src, r).
    obind (or_panic (unmarshal_column_idxs src names shards_count)) (\<lambda>m. Ok (m, r)))"

definition must_read_index_block_headers :: "zstd \<Rightarrow> ReaderWithStats \<Rightarrow> (IndexBlockHeader list \<times> ReaderWithStats, unit) outcome" where
  "must_read_index_block_headers z r =
    obind (read_all r) (\<lambda>(data, r).
    case zdecompress z data of
      None \<Rightarrow> Panic
    | Some bb \<Rightarrow> obind (or_panic (unmarshal_index_block_headers [] bb)) (\<lambda>ihs. Ok (ihs, r)))"

text \<open>The last part of \<open>StreamReaders::init\<close>; the readers themselves are already set.\<close>

definition sr_init :: "zstd \<Rightarrow> StreamReaders \<Rightarrow> (StreamReaders, unit) outcome" where
  "sr_init z sr =
    obind (if sr_part_format_version sr \<ge> 1 then
             obind (must_read_column_names z (sr_column_names_reader sr)) (\<lambda>(names, r).
             Ok (sr\<lparr>sr_column_names := names, sr_column_names_reader := r\<rparr>))
           else Ok sr) (\<lambda>sr.
    if sr_part_format_version sr \<ge> 3 then
      obind (must_read_column_idxs (sr_column_idxs_reader sr) (sr_column_names sr) (of_nat (length (sr_bloom_values_shards sr)))) (\<lambda>(m, r).
      Ok (sr\<lparr>sr_column_idxs := m, sr_column_idxs_reader := r\<rparr>))
    else Ok sr)"

definition br_total_bytes_read :: "BloomValuesReader \<Rightarrow> u64" where
  "br_total_bytes_read r = bytes_read (br_bloom r) + bytes_read (br_values r)"

definition sr_total_bytes_read :: "StreamReaders \<Rightarrow> u64" where
  "sr_total_bytes_read sr =
    bytes_read (sr_column_names_reader sr) + bytes_read (sr_column_idxs_reader sr) + bytes_read (sr_metaindex_reader sr) +
    bytes_read (sr_index_reader sr) + bytes_read (sr_columns_header_index_reader sr) + bytes_read (sr_columns_header_reader sr) +
    bytes_read (sr_timestamps_reader sr) + br_total_bytes_read (sr_message_bloom_values_reader sr) +
    br_total_bytes_read (sr_old_bloom_values_reader sr) + sum_list (map br_total_bytes_read (sr_bloom_values_shards sr))"

record BlockStreamReader =
  bsr_block_data :: BlockData
  bsr_ph :: PartHeader
  bsr_stream_readers :: StreamReaders
  bsr_index_block_headers :: "IndexBlockHeader list"
  bsr_block_headers :: "BlockHeader list"
  bsr_next_index_block_idx :: nat
  bsr_next_block_idx :: nat
  bsr_global_uncompressed_size_bytes :: u64
  bsr_global_rows_count :: u64
  bsr_global_blocks_count :: u64
  bsr_sid_last :: StreamID
  bsr_min_timestamp_last :: i64

definition bd_default :: BlockData where
  "bd_default = \<lparr>bd_stream_id = stream_id_zero, bd_uncompressed_size_bytes = 0, bd_rows_count = 0,
     bd_timestamps_data = \<lparr>td_data = [], td_marshal_type = 0, td_min_timestamp = 0, td_max_timestamp = 0\<rparr>,
     bd_columns_data = [], bd_const_columns = []\<rparr>"

definition open_readers :: "nat \<Rightarrow> bool \<Rightarrow> Part \<Rightarrow> StreamReaders" where
  "open_readers v inmemory pt =
    \<lparr>sr_part_format_version = v, sr_column_names_reader = reader_if (inmemory \<or> v \<ge> 1) (pt_column_names pt),
     sr_column_idxs_reader = reader_if (inmemory \<or> v \<ge> 3) (pt_column_idxs pt), sr_metaindex_reader = new_reader (pt_metaindex pt),
     sr_index_reader = new_reader (pt_index pt), sr_columns_header_index_reader = reader_if (inmemory \<or> v \<ge> 1) (pt_columns_header_index pt),
     sr_columns_header_reader = new_reader (pt_columns_header pt), sr_timestamps_reader = new_reader (pt_timestamps pt),
     sr_message_bloom_values_reader = buffer_reader True (pt_message_bloom_values pt),
     sr_old_bloom_values_reader = buffer_reader (\<not> inmemory \<and> v < 1) (pt_old_bloom_values pt),
     sr_bloom_values_shards = (if inmemory \<or> v \<ge> 1 then map (buffer_reader True) (pt_field_bloom_values pt) else []),
     sr_column_idxs = Map.empty, sr_column_names = []\<rparr>"

definition bsr_init :: "zstd \<Rightarrow> bool \<Rightarrow> Part \<Rightarrow> (BlockStreamReader, unit) outcome" where
  "bsr_init z inmemory pt =
    obind (sr_init z (open_readers (ph_format_version (pt_ph pt)) inmemory pt)) (\<lambda>sr.
    obind (must_read_index_block_headers z (sr_metaindex_reader sr)) (\<lambda>(ihs, r).
    Ok \<lparr>bsr_block_data = bd_default, bsr_ph = pt_ph pt, bsr_stream_readers = sr\<lparr>sr_metaindex_reader := r\<rparr>,
        bsr_index_block_headers = ihs, bsr_block_headers = [], bsr_next_index_block_idx = 0, bsr_next_block_idx = 0,
        bsr_global_uncompressed_size_bytes = 0, bsr_global_rows_count = 0, bsr_global_blocks_count = 0,
        bsr_sid_last = stream_id_zero, bsr_min_timestamp_last = 0\<rparr>))"

definition must_init_from_inmemory_part :: "zstd \<Rightarrow> Part \<Rightarrow> (BlockStreamReader, unit) outcome" where
  "must_init_from_inmemory_part z pt = bsr_init z True pt"

text \<open>The checks of \<open>must_read_metadata\<close> on the header that was read.\<close>

definition check_metadata :: "PartHeader \<Rightarrow> (PartHeader, unit) outcome" where
  "check_metadata ph =
    obind (if ph_format_version ph \<le> 1 then
             obind (panic_if (ph_bloom_values_shards_count ph \<noteq> 0)) (\<lambda>_.
             Ok (if ph_format_version ph = 1 then ph\<lparr>ph_bloom_values_shards_count := 8\<rparr> else ph))
           else Ok ph) (\<lambda>ph.
    obind (panic_if (ph_format_version ph > PART_FORMAT_LATEST_VERSION)) (\<lambda>_.
    obind (panic_if (ph_max_timestamp ph <s ph_min_timestamp ph)) (\<lambda>_.
    obind (panic_if (ph_blocks_count ph > ph_rows_count ph)) (\<lambda>_. Ok ph))))"

text \<open>Opening a file that does not exist panics, so every counted shard has to be there.\<close>

definition must_init_from_file_part :: "zstd \<Rightarrow> Part \<Rightarrow> (BlockStreamReader, unit) outcome" where
  "must_init_from_file_part z pt =
    obind (check_metadata (pt_ph pt)) (\<lambda>ph.
    obind (panic_if (ph_format_version ph \<ge> 1 \<and> unat (ph_bloom_values_shards_count ph) > length (pt_field_bloom_values pt))) (\<lambda>_.
    bsr_init z False (pt\<lparr>pt_ph := ph, pt_field_bloom_values := take (unat (ph_bloom_values_shards_count ph)) (pt_field_bloom_values pt)\<rparr>)))"

definition must_read_next_index_block :: "zstd \<Rightarrow> IndexBlockHeader \<Rightarrow> StreamReaders \<Rightarrow> (bytes \<times> StreamReaders, unit) outcome" where
  "must_read_next_index_block z ih sr =
    obind (panic_if (ih_index_block_size ih > of_nat MAX_INDEX_BLOCK_SIZE)) (\<lambda>_.
    obind (panic_if (ih_index_block_offset ih \<noteq> bytes_read (sr_index_reader sr))) (\<lambda>_.
    obind (must_read_full (sr_index_reader sr) (unat (ih_index_block_size ih))) (\<lambda>(bb, r).
    case zdecompress z bb of None \<Rightarrow> Panic | Some data \<Rightarrow> Ok (data, sr\<lparr>sr_index_reader := r\<rparr>))))"

definition next_index_block :: "zstd \<Rightarrow> BlockStreamReader \<Rightarrow> (bool \<times> BlockStreamReader, unit) outcome" where
  "next_index_block z bsr =
    (let ph = bsr_ph bsr in
     if bsr_next_index_block_idx bsr \<ge> length (bsr_index_block_headers bsr) then
       obind (panic_if (ph_compressed_size_bytes ph \<noteq> sr_total_bytes_read (bsr_stream_readers bsr))) (\<lambda>_.
       obind (panic_if (ph_uncompressed_size_bytes ph \<noteq> bsr_global_uncompressed_size_bytes bsr)) (\<lambda>_.
       obind (panic_if (ph_rows_count ph \<noteq> bsr_global_rows_count bsr)) (\<lambda>_.
       obind (panic_if (ph_blocks_count ph \<noteq> bsr_global_blocks_count bsr)) (\<lambda>_. Ok (False, bsr)))))
     else
       let ih = bsr_index_block_headers bsr ! bsr_next_index_block_idx bsr in
       obind (panic_if (ih_min_timestamp ih <s ph_min_timestamp ph)) (\<lambda>_.
       obind (panic_if (ph_max_timestamp ph <s ih_max_timestamp ih)) (\<lambda>_.
       obind (must_read_next_index_block z ih (bsr_stream_readers bsr)) (\<lambda>(bb, sr).
       obind (or_panic (unmarshal_block_headers [] bb (ph_format_version ph))) (\<lambda>bhs.
       Ok (True, bsr\<lparr>bsr_stream_readers := sr, bsr_block_headers := bhs,
                     bsr_next_index_block_idx := bsr_next_index_block_idx bsr + 1, bsr_next_block_idx := 0\<rparr>))))))"

text \<open>The loop at the start of \<open>next_block\<close>; it moves through the index blocks, so it ends.\<close>

lemma next_index_block_moves:
  "next_index_block z bsr = Ok (True, bsr') \<Longrightarrow>
   length (bsr_index_block_headers bsr') - bsr_next_index_block_idx bsr' < length (bsr_index_block_headers bsr) - bsr_next_index_block_idx bsr"
  by (auto simp: next_index_block_def Let_def obind_Ok_iff split: if_splits)

function seek_block :: "zstd \<Rightarrow> BlockStreamReader \<Rightarrow> (bool \<times> BlockStreamReader, unit) outcome" where
  "seek_block z bsr =
    (if bsr_next_block_idx bsr \<ge> length (bsr_block_headers bsr) then
       case next_index_block z bsr of
         Ok (found, bsr') \<Rightarrow> if found then seek_block z bsr' else Ok (False, bsr')
       | Err er \<Rightarrow> Err er
       | Panic \<Rightarrow> Panic
     else Ok (True, bsr))"
  by pat_completeness auto
termination
  by (relation "measure (\<lambda>(z, bsr). length (bsr_index_block_headers bsr) - bsr_next_index_block_idx bsr)")
    (auto dest: next_index_block_moves)

declare seek_block.simps [simp del]

definition next_block :: "'f env \<Rightarrow> BlockStreamReader \<Rightarrow> (bool \<times> BlockStreamReader, unit) outcome" where
  "next_block e bsr =
    obind (seek_block (e_zstd e) bsr) (\<lambda>(found, bsr).
    if \<not> found then Ok (False, bsr)
    else
      let ih = bsr_index_block_headers bsr ! (bsr_next_index_block_idx bsr - 1);
          bh = bsr_block_headers bsr ! bsr_next_block_idx bsr; th = bh_timestamps_header bh; ph = bsr_ph bsr in
      obind (panic_if (stream_id_less (bh_stream_id bh) (bsr_sid_last bsr))) (\<lambda>_.
      obind (panic_if (stream_id_equal (bh_stream_id bh) (bsr_sid_last bsr) \<and> th_min_timestamp th <s bsr_min_timestamp_last bsr)) (\<lambda>_.
      let bsr = bsr\<lparr>bsr_min_timestamp_last := th_min_timestamp th, bsr_sid_last := bh_stream_id bh\<rparr> in
      obind (panic_if (th_min_timestamp th <s ih_min_timestamp ih)) (\<lambda>_.
      obind (panic_if (ih_max_timestamp ih <s th_max_timestamp th)) (\<lambda>_.
      obind (bd_must_read_from (e_xxh64 e) bh (bsr_stream_readers bsr)) (\<lambda>(bd, sr).
      let bsr = bsr\<lparr>bsr_block_data := bd, bsr_stream_readers := sr,
                    bsr_global_uncompressed_size_bytes := bsr_global_uncompressed_size_bytes bsr + bh_uncompressed_size_bytes bh,
                    bsr_global_rows_count := bsr_global_rows_count bsr + bh_rows_count bh,
                    bsr_global_blocks_count := bsr_global_blocks_count bsr + 1\<rparr> in
      obind (panic_if (bsr_global_uncompressed_size_bytes bsr > ph_uncompressed_size_bytes ph)) (\<lambda>_.
      obind (panic_if (bsr_global_rows_count bsr > ph_rows_count ph)) (\<lambda>_.
      obind (panic_if (bsr_global_blocks_count bsr > ph_blocks_count ph)) (\<lambda>_.
      Ok (True, bsr\<lparr>bsr_next_block_idx := bsr_next_block_idx bsr + 1\<rparr>))))))))))"

subsection \<open>Writing and reading a sequence of blocks\<close>

primrec write_blocks :: "'f env \<Rightarrow> BlockData list \<Rightarrow> BlockStreamWriter \<Rightarrow> (BlockStreamWriter, unit) outcome" where
  "write_blocks e [] bsw = Ok bsw"
| "write_blocks e (bd # bds) bsw = obind (must_write_block_data e bd bsw) (write_blocks e bds)"

text \<open>At most \<open>n\<close> calls of \<open>next_block\<close>.\<close>

primrec read_blocks :: "'f env \<Rightarrow> nat \<Rightarrow> BlockStreamReader \<Rightarrow> (BlockData list, unit) outcome" where
  "read_blocks e 0 bsr = Ok []"
| "read_blocks e (Suc n) bsr =
    obind (next_block e bsr) (\<lambda>(found, bsr).
    if found then obind (read_blocks e n bsr) (\<lambda>bds. Ok (bsr_block_data bsr # bds)) else Ok [])"


subsection \<open>The streams of the index do not matter to the blocks\<close>

lemma index_writers_shard [simp]:
  "shard_of (sw\<lparr>sw_index_writer := w\<rparr>) i = shard_of sw i" "shard_of (sw\<lparr>sw_metaindex_writer := w\<rparr>) i = shard_of sw i"
  "shard_of (sw\<lparr>sw_column_names_writer := w\<rparr>) i = shard_of sw i" "shard_of (sw\<lparr>sw_column_idxs_writer := w\<rparr>) i = shard_of sw i"
  by (simp_all add: shard_of_def)

lemma index_writers_inv [simp]:
  "sw_inv (sw\<lparr>sw_index_writer := w\<rparr>) = sw_inv sw" "sw_inv (sw\<lparr>sw_metaindex_writer := w\<rparr>) = sw_inv sw"
  "sw_inv (sw\<lparr>sw_column_names_writer := w\<rparr>) = sw_inv sw" "sw_inv (sw\<lparr>sw_column_idxs_writer := w\<rparr>) = sw_inv sw"
  by (simp_all add: sw_inv_def idxs_ok_def factory_ok_def cong: BloomValuesWriterFactory.case_cong)

lemma index_writers_le [simp]:
  "sw_le (sw\<lparr>sw_index_writer := w\<rparr>) F = sw_le sw F" "sw_le (sw\<lparr>sw_metaindex_writer := w\<rparr>) F = sw_le sw F"
  "sw_le (sw\<lparr>sw_column_names_writer := w\<rparr>) F = sw_le sw F" "sw_le (sw\<lparr>sw_column_idxs_writer := w\<rparr>) F = sw_le sw F"
  "sw_le sw (F\<lparr>sw_index_writer := w\<rparr>) = sw_le sw F" "sw_le sw (F\<lparr>sw_metaindex_writer := w\<rparr>) = sw_le sw F"
  "sw_le sw (F\<lparr>sw_column_names_writer := w\<rparr>) = sw_le sw F" "sw_le sw (F\<lparr>sw_column_idxs_writer := w\<rparr>) = sw_le sw F"
  by (simp_all add: sw_le_def)

lemma index_writers_sync [simp]: "in_sync (sw\<lparr>sw_index_writer := w\<rparr>) F sr = in_sync sw F sr"
  by (simp add: in_sync_def values_sync_def)

lemma index_readers_sync [simp]: "in_sync sw F (sr\<lparr>sr_index_reader := r\<rparr>) = in_sync sw F sr" "in_sync sw F (sr\<lparr>sr_metaindex_reader := r\<rparr>) = in_sync sw F sr"
  by (simp_all add: in_sync_def values_sync_def names_sync_def)

text \<open>
  \<open>reads_back\<close>: over the finished streams \<open>F\<close>, a reader in step with the writer state \<open>sw\<close> that follows the
  headers gets the blocks, and is then in step with \<open>sw'\<close>.
\<close>

definition describes :: "BlockHeader \<Rightarrow> BlockData \<Rightarrow> bool" where
  "describes bh bd \<longleftrightarrow> bh_stream_id bh = bd_stream_id bd \<and> bh_rows_count bh = bd_rows_count bd \<and>
    bh_uncompressed_size_bytes bh = bd_uncompressed_size_bytes bd \<and>
    th_min_timestamp (bh_timestamps_header bh) = td_min_timestamp (bd_timestamps_data bd) \<and>
    th_max_timestamp (bh_timestamps_header bh) = td_max_timestamp (bd_timestamps_data bd)"

definition reads_one :: "(bytes \<Rightarrow> u64) \<Rightarrow> StreamWriters \<Rightarrow> StreamWriters \<Rightarrow> BlockHeader \<Rightarrow> BlockData \<Rightarrow> StreamWriters \<Rightarrow> bool" where
  "reads_one xxh F sw bh bd sw' \<longleftrightarrow>
    describes bh bd \<and>
    (\<forall>sr. in_sync sw F sr \<longrightarrow> (\<exists>sr'. bd_must_read_from xxh bh sr = Ok (bd, sr') \<and> in_sync sw' F sr' \<and> index_readers sr' = index_readers sr))"

fun reads_back :: "(bytes \<Rightarrow> u64) \<Rightarrow> StreamWriters \<Rightarrow> StreamWriters \<Rightarrow> BlockHeader list \<Rightarrow> BlockData list \<Rightarrow> StreamWriters \<Rightarrow> bool" where
  "reads_back xxh F sw [] [] sw' = (\<forall>sr. in_sync sw F sr \<longrightarrow> in_sync sw' F sr)"
| "reads_back xxh F sw (bh # bhs) (bd # bds) sw' = (\<exists>sw1. reads_one xxh F sw bh bd sw1 \<and> reads_back xxh F sw1 bhs bds sw')"
| "reads_back xxh F sw _ _ sw' = False"

lemma reads_back_snoc:
  "reads_back xxh F sw bhs bds sw1 \<Longrightarrow> reads_one xxh F sw1 bh bd sw' \<Longrightarrow> reads_back xxh F sw (bhs @ [bh]) (bds @ [bd]) sw'"
proof (induction xxh F sw bhs bds sw1 rule: reads_back.induct)
  case (1 xxh F sw sw1)
  then have "reads_one xxh F sw bh bd sw'" by (simp add: reads_one_def)
  then show ?case by auto
qed auto

lemma reads_back_describes: "reads_back xxh F sw bhs bds sw' \<Longrightarrow> list_all2 describes bhs bds"
  by (induction xxh F sw bhs bds sw' rule: reads_back.induct) (auto simp: reads_one_def)

subsection \<open>What the writer keeps\<close>

text \<open>\<open>mn\<close> and \<open>mx\<close> are the least and the greatest timestamp of the headers.\<close>

definition ts_bounds :: "i64 \<Rightarrow> i64 \<Rightarrow> BlockHeader list \<Rightarrow> bool" where
  "ts_bounds mn mx bhs \<longleftrightarrow>
    (\<forall>bh \<in> set bhs. mn \<le>s th_min_timestamp (bh_timestamps_header bh) \<and> th_max_timestamp (bh_timestamps_header bh) \<le>s mx) \<and>
    mn \<in> (\<lambda>bh. th_min_timestamp (bh_timestamps_header bh)) ` set bhs \<and> mx \<in> (\<lambda>bh. th_max_timestamp (bh_timestamps_header bh)) ` set bhs"

lemma ts_bounds_single: "ts_bounds (th_min_timestamp (bh_timestamps_header bh)) (th_max_timestamp (bh_timestamps_header bh)) [bh]"
  by (simp add: ts_bounds_def)

lemma ts_bounds_snoc:
  fixes bh :: BlockHeader
  assumes "ts_bounds mn mx bhs"
  defines "th \<equiv> bh_timestamps_header bh"
  shows "ts_bounds (if th_min_timestamp th <s mn then th_min_timestamp th else mn) (if mx <s th_max_timestamp th then th_max_timestamp th else mx) (bhs @ [bh])"
proof -
  have s: "(a <s b) = (sint a < sint b)" "(a \<le>s b) = (sint a \<le> sint b)" for a b :: i64
    by (simp_all add: word_sless_alt word_sle_eq)
  show ?thesis using assms(1) unfolding ts_bounds_def th_def s by (auto 0 3)
qed

lemma ts_bounds_sub:
  assumes "ts_bounds mn mx bhs" "ts_bounds a b bhs'" "set bhs' \<subseteq> set bhs"
  shows "\<not> a <s mn" "\<not> mx <s b"
proof -
  obtain x y where "x \<in> set bhs" "a = th_min_timestamp (bh_timestamps_header x)" "y \<in> set bhs" "b = th_max_timestamp (bh_timestamps_header y)"
    using assms(2,3) by (auto simp: ts_bounds_def)
  then have "mn \<le>s a" "b \<le>s mx" using assms(1) by (auto simp: ts_bounds_def)
  then show "\<not> a <s mn" "\<not> mx <s b" by (simp_all add: word_sless_alt word_sle_eq)
qed

definition index_bytes :: "zstd \<Rightarrow> BlockHeader list \<Rightarrow> bytes" where
  "index_bytes z bhs = zcompress z (encoder_level_from_zstd 1) (concat (map (bh_marshal []) bhs))"

text \<open>The index blocks that were flushed, with the offset the first of them has.\<close>

fun groups_at :: "zstd \<Rightarrow> u64 \<Rightarrow> (IndexBlockHeader \<times> BlockHeader list) list \<Rightarrow> bool" where
  "groups_at z off [] = True"
| "groups_at z off ((ih, bhs) # gs) =
    (bhs \<noteq> [] \<and> ih_stream_id ih = bh_stream_id (hd bhs) \<and> ts_bounds (ih_min_timestamp ih) (ih_max_timestamp ih) bhs \<and>
     ih_index_block_offset ih = off \<and> ih_index_block_size ih = of_nat (length (index_bytes z bhs)) \<and>
     length (index_bytes z bhs) \<le> MAX_INDEX_BLOCK_SIZE \<and> groups_at z (off + of_nat (length (index_bytes z bhs))) gs)"

definition index_contents :: "zstd \<Rightarrow> (IndexBlockHeader \<times> BlockHeader list) list \<Rightarrow> bytes" where
  "index_contents z gs = concat (map (\<lambda>(ih, bhs). index_bytes z bhs) gs)"

lemma groups_at_snoc:
  "groups_at z off gs \<Longrightarrow> groups_at z (off + of_nat (length (index_contents z gs))) [g] \<Longrightarrow> groups_at z off (gs @ [g])"
  by (induction z off gs rule: groups_at.induct) (auto simp: index_contents_def add.assoc)

definition all_headers :: "(IndexBlockHeader \<times> BlockHeader list) list \<Rightarrow> BlockHeader list \<Rightarrow> BlockHeader list" where
  "all_headers gs pend = concat (map snd gs) @ pend"

definition index_rel :: "zstd \<Rightarrow> BlockStreamWriter \<Rightarrow> (IndexBlockHeader \<times> BlockHeader list) list \<Rightarrow> BlockHeader list \<Rightarrow> bool" where
  "index_rel z bsw gs pend \<longleftrightarrow>
    bsw_metaindex_data bsw = concat (map (ih_marshal [] \<circ> fst) gs) \<and> bsw_index_block_data bsw = concat (map (bh_marshal []) pend) \<and>
    w_data (sw_index_writer (bsw_stream_writers bsw)) = Some (index_contents z gs) \<and>
    bytes_written (sw_index_writer (bsw_stream_writers bsw)) = of_nat (length (index_contents z gs)) \<and> groups_at z 0 gs \<and>
    (bsw_has_written_blocks bsw \<longleftrightarrow> pend \<noteq> []) \<and>
    (pend \<noteq> [] \<longrightarrow> bsw_sid_first bsw = bh_stream_id (hd pend) \<and> ts_bounds (bsw_min_timestamp bsw) (bsw_max_timestamp bsw) pend)"

definition totals_rel :: "BlockStreamWriter \<Rightarrow> BlockHeader list \<Rightarrow> bool" where
  "totals_rel bsw bhs \<longleftrightarrow>
    bsw_sid_last bsw = bh_stream_id (last (bh_default # bhs)) \<and>
    bsw_min_timestamp_last bsw = th_min_timestamp (bh_timestamps_header (last (bh_default # bhs))) \<and>
    sorted_wrt bh_le (bh_default # bhs) \<and> list_all bh_valid bhs \<and>
    bsw_global_uncompressed_size_bytes bsw = sum_list (map bh_uncompressed_size_bytes bhs) \<and>
    bsw_global_rows_count bsw = sum_list (map bh_rows_count bhs) \<and> bsw_global_blocks_count bsw = of_nat (length bhs) \<and>
    (bhs = [] \<longrightarrow> bsw_global_min_timestamp bsw = 0 \<and> bsw_global_max_timestamp bsw = 0) \<and>
    (bhs \<noteq> [] \<longrightarrow> bsw_global_rows_count bsw \<noteq> 0 \<and> ts_bounds (bsw_global_min_timestamp bsw) (bsw_global_max_timestamp bsw) bhs)"

subsection \<open>The names a block adds\<close>

definition bd_names :: "BlockData \<Rightarrow> bytes set" where
  "bd_names bd = cd_name ` set (bd_columns_data bd) \<union> field_name ` set (bd_const_columns bd)"

lemma get_column_name_id_names: "get_column_name_id g n = (i, g') \<Longrightarrow> set (column_names g') \<subseteq> insert n (set (column_names g))"
  by (auto simp: get_column_name_id_def Let_def split: option.splits)

lemma cd_must_write_names:
  assumes "cd_must_write_to cd sw = Ok (ch, sw')"
  shows "ch_name ch = cd_name cd \<and> sw_max_shards sw' = sw_max_shards sw \<and> set (column_names (sw_generator sw')) \<subseteq> insert (cd_name cd) (set (column_names (sw_generator sw)))"
proof -
  obtain l sw1 where 1: "get_bloom_values_writer_for_column_name sw (cd_name cd) = Ok (l, sw1)"
      "write_values_and_bloom (cd_header cd) (cd_values_data cd) (cd_bloom_filter_data cd) l sw1 = Ok (ch, sw')"
    using assms by (auto simp: cd_must_write_to_def cd_header_def Let_def obind_Ok_iff)
  have "set (column_names (sw_generator sw1)) \<subseteq> insert (cd_name cd) (set (column_names (sw_generator sw)))"
    using 1(1) get_column_name_id_names [of "sw_generator sw" "cd_name cd"]
    by (fastforce simp: get_bloom_values_writer_for_column_name_def Let_def obind_Ok_iff split: if_splits prod.splits option.splits)
  moreover have "sw_max_shards sw1 = sw_max_shards sw"
    using 1(1) by (auto simp: get_bloom_values_writer_for_column_name_def Let_def obind_Ok_iff split: if_splits prod.splits option.splits)
  moreover have "sw_generator sw' = sw_generator sw1 \<and> sw_max_shards sw' = sw_max_shards sw1 \<and> ch_name ch = cd_name cd"
    using 1(2) by (auto simp: write_values_and_bloom_def Let_def obind_Ok_iff cd_header_def)
  ultimately show ?thesis by simp
qed

lemma cds_must_write_names:
  assumes "cds_must_write_to cds sw = Ok (chs, sw')"
  shows "map ch_name chs = map cd_name cds \<and> sw_max_shards sw' = sw_max_shards sw \<and> set (column_names (sw_generator sw')) \<subseteq> cd_name ` set cds \<union> set (column_names (sw_generator sw))"
  using assms
proof (induction cds arbitrary: sw chs)
  case (Cons cd cds)
  obtain ch sw1 chs' where 1: "cd_must_write_to cd sw = Ok (ch, sw1)" "cds_must_write_to cds sw1 = Ok (chs', sw')" "chs = ch # chs'"
    using Cons.prems by (auto simp: obind_Ok_iff)
  show ?case using Cons.IH [OF 1(2)] cd_must_write_names [OF 1(1)] 1(3) by auto
qed simp

lemma marshal_headers_names:
  "marshal_headers f64 k chs dst g = Ok (d, refs, g') \<Longrightarrow> set (column_names g') \<subseteq> ch_name ` set chs \<union> set (column_names g)"
proof (induction chs arbitrary: dst g refs)
  case (Cons ch chs)
  obtain i g1 where g1: "get_column_name_id g (ch_name ch) = (i, g1)" by fastforce
  then obtain d1 refs1 where "marshal_headers f64 k chs d1 g1 = Ok (d, refs1, g')"
    using Cons.prems by (auto simp: Let_def obind_Ok_iff)
  then show ?case using Cons.IH get_column_name_id_names [OF g1] by fastforce
qed simp

lemma marshal_consts_names:
  "marshal_consts k ccs dst g = (d, refs, g') \<Longrightarrow> set (column_names g') \<subseteq> field_name ` set ccs \<union> set (column_names g)"
proof (induction ccs arbitrary: dst g refs)
  case (Cons cc ccs)
  obtain i g1 where g1: "get_column_name_id g (field_name cc) = (i, g1)" by fastforce
  then obtain d1 refs1 where "marshal_consts k ccs d1 g1 = (d, refs1, g')"
    using Cons.prems by (auto simp: Let_def split: prod.splits)
  then show ?case using Cons.IH get_column_name_id_names [OF g1] by fastforce
qed simp

lemma bd_must_write_names:
  assumes "bd_must_write_to e bd sw = Ok (bh, sw')"
  shows "sw_max_shards sw' = sw_max_shards sw \<and> set (column_names (sw_generator sw')) \<subseteq> bd_names bd \<union> set (column_names (sw_generator sw))"
proof -
  obtain th sw1 chs sw2 bh1 where 1: "td_must_write_to (bd_timestamps_data bd) sw = Ok (th, sw1)" "cds_must_write_to (bd_columns_data bd) sw1 = Ok (chs, sw2)"
      "must_write_columns_header e \<lparr>csh_column_headers = chs, csh_const_columns = bd_const_columns bd\<rparr> bh1 sw2 = Ok (bh, sw')"
    using assms by (auto simp: bd_must_write_to_def Let_def obind_Ok_iff)
  have g1: "sw_generator sw1 = sw_generator sw" "sw_max_shards sw1 = sw_max_shards sw" using 1(1) by (auto simp: td_must_write_to_def Let_def obind_Ok_iff)
  obtain b ci g where 3: "csh_marshal (e_f64 e) [] \<lparr>csh_column_headers = chs, csh_const_columns = bd_const_columns bd\<rparr> (sw_generator sw2) = Ok (b, ci, g)" "sw_generator sw' = g" "sw_max_shards sw' = sw_max_shards sw2"
    using 1(3) by (auto simp: must_write_columns_header_def Let_def obind_Ok_iff or_panic_def split: outcome.splits)
  obtain d2 refs1 g1' where 4: "marshal_headers (e_f64 e) 0 chs (marshal_var_uint64 [] (of_nat (length chs))) (sw_generator sw2) = Ok (d2, refs1, g1')"
    using 3(1) by (auto simp: csh_marshal_def Let_def obind_Ok_iff)
  obtain d4 refs2 g2 where 5: "marshal_consts 0 (bd_const_columns bd) (marshal_var_uint64 d2 (of_nat (length (bd_const_columns bd)))) g1' = (d4, refs2, g2)"
    using prod_cases3 by blast
  have "g2 = g" using 3(1) 4 5 by (simp add: csh_marshal_def Let_def)
  have "set (column_names g) \<subseteq> field_name ` set (bd_const_columns bd) \<union> (ch_name ` set chs \<union> set (column_names (sw_generator sw2)))"
    using marshal_headers_names [OF 4] marshal_consts_names [OF 5] \<open>g2 = g\<close> by blast
  moreover have "ch_name ` set chs = cd_name ` set (bd_columns_data bd)"
    using cds_must_write_names [OF 1(2)] by (metis set_map)
  ultimately show ?thesis using cds_must_write_names [OF 1(2)] g1 3(2,3) by (auto simp: bd_names_def)
qed

subsection \<open>Every written block keeps the relation\<close>

lemma length_bh_marshal_le: "length (bh_marshal [] bh) \<le> 200"
proof -
  have v: "length (varint_bytes u) \<le> 10" for u by (rule length_varint_bytes_le)
  obtain t s where s: "bh_stream_id bh = StreamID t s" by (cases "bh_stream_id bh")
  obtain a p where t: "t = TenantID a p" by (cases t)
  obtain hi lo where u: "s = U128 hi lo" by (cases s)
  show ?thesis
    using v [of "bh_uncompressed_size_bytes bh"] v [of "bh_rows_count bh"] v [of "bh_columns_header_index_offset bh"]
      v [of "bh_columns_header_index_size bh"] v [of "bh_columns_header_offset bh"] v [of "bh_columns_header_size bh"]
    by (simp add: bh_marshal_def th_marshal_def stream_id_marshal_def tenant_id_marshal_def u128_marshal_def marshal_uint64_def marshal_uint32_def s t u Let_def codec_simps)
qed

lemma index_bytes_small:
  assumes "zstd_ok z" "length (concat (map (bh_marshal []) bhs)) \<le> MAX_UNCOMPRESSED_INDEX_BLOCK_SIZE + 200"
  shows "length (index_bytes z bhs) \<le> MAX_INDEX_BLOCK_SIZE"
proof -
  let ?b = "concat (map (bh_marshal []) bhs)"
  have "length (index_bytes z bhs) \<le> length ?b + length ?b div 256 + 64" using assms(1) by (simp add: zstd_ok_def index_bytes_def)
  moreover have "length ?b div 256 \<le> length ?b" by simp
  ultimately show ?thesis using assms(2) by (simp add: MAX_UNCOMPRESSED_INDEX_BLOCK_SIZE_def MAX_INDEX_BLOCK_SIZE_def)
qed

lemma flush_rel:
  assumes "index_rel z bsw gs pend" "pend \<noteq> []" "zstd_ok z" "length (bsw_index_block_data bsw) \<le> MAX_UNCOMPRESSED_INDEX_BLOCK_SIZE + 200"
  shows "\<exists>ih w bsw'. must_flush_index_block z (bsw_index_block_data bsw) (bsw\<lparr>bsw_index_block_data := x\<rparr>) = Ok bsw' \<and>
    index_rel z (bsw'\<lparr>bsw_index_block_data := []\<rparr>) (gs @ [(ih, pend)]) [] \<and>
    bsw_stream_writers bsw' = (bsw_stream_writers bsw)\<lparr>sw_index_writer := w\<rparr> \<and> totals_rel bsw' = totals_rel bsw"
proof -
  let ?sw = "bsw_stream_writers bsw" and ?b = "index_bytes z pend"
  have r: "bsw_index_block_data bsw = concat (map (bh_marshal []) pend)" "w_data (sw_index_writer ?sw) = Some (index_contents z gs)"
      "bytes_written (sw_index_writer ?sw) = of_nat (length (index_contents z gs))" "groups_at z 0 gs"
      "bsw_sid_first bsw = bh_stream_id (hd pend)" "ts_bounds (bsw_min_timestamp bsw) (bsw_max_timestamp bsw) pend"
      "bsw_metaindex_data bsw = concat (map (ih_marshal [] \<circ> fst) gs)"
    using assms(1,2) by (simp_all add: index_rel_def)
  have ne: "bsw_index_block_data bsw \<noteq> []" using r(1) assms(2) bh_marshal_nonempty by (cases pend) auto
  define ih where "ih = \<lparr>ih_stream_id = bsw_sid_first bsw, ih_min_timestamp = bsw_min_timestamp bsw, ih_max_timestamp = bsw_max_timestamp bsw,
      ih_index_block_offset = of_nat (length (index_contents z gs)), ih_index_block_size = of_nat (length ?b)\<rparr>"
  define w where "w = \<lparr>w_data = Some (index_contents z gs @ ?b), bytes_written = of_nat (length (index_contents z gs)) + of_nat (length ?b)\<rparr>"
  have mw: "must_write (sw_index_writer ?sw) ?b = Ok w" using r(2,3) by (simp add: must_write_def w_def)
  let ?bsw' = "bsw\<lparr>bsw_index_block_data := x, bsw_index_block_header := ih, bsw_stream_writers := ?sw\<lparr>sw_index_writer := w\<rparr>,
      bsw_metaindex_data := ih_marshal (bsw_metaindex_data bsw) ih, bsw_has_written_blocks := False, bsw_min_timestamp := 0, bsw_max_timestamp := 0, bsw_sid_first := stream_id_zero\<rparr>"
  have f: "must_flush_index_block z (bsw_index_block_data bsw) (bsw\<lparr>bsw_index_block_data := x\<rparr>) = Ok ?bsw'"
    using ne mw r(1,3) by (simp add: must_flush_index_block_def must_write_index_block_def Let_def compress_zstd_level_def index_bytes_def ih_def)
  have g: "groups_at z 0 (gs @ [(ih, pend)])"
    using groups_at_snoc [OF r(4)] assms(2) r(5,6) index_bytes_small [OF assms(3), of pend] assms(4) r(1) by (simp add: ih_def)
  have im: "ih_marshal dst ih = dst @ ih_marshal [] ih" for dst using ih_marshal_bytes [of dst ih] ih_marshal_bytes [of "[]" ih] by simp
  have "index_rel z (?bsw'\<lparr>bsw_index_block_data := []\<rparr>) (gs @ [(ih, pend)]) []"
    using g r(7) im [of "concat (map (ih_marshal [] \<circ> fst) gs)"] by (simp add: index_rel_def w_def index_contents_def)
  moreover have "totals_rel ?bsw' = totals_rel bsw" by (intro ext) (simp add: totals_rel_def)
  ultimately show ?thesis using f by (intro exI [of _ ih] exI [of _ w] exI [of _ ?bsw']) simp
qed

lemma account_block_eq:
  assumes "\<not> (is_seen_sid \<and> th_min_timestamp (bh_timestamps_header bh) <s bsw_min_timestamp_last bsw)"
  defines "mn \<equiv> th_min_timestamp (bh_timestamps_header bh)" and "mx \<equiv> th_max_timestamp (bh_timestamps_header bh)"
  shows "account_block s has_written_blocks is_seen_sid bh bsw =
    Ok (bsw\<lparr>bsw_global_min_timestamp := (if bsw_global_rows_count bsw = 0 \<or> mn <s bsw_global_min_timestamp bsw then mn else bsw_global_min_timestamp bsw),
            bsw_global_max_timestamp := (if bsw_global_rows_count bsw = 0 \<or> bsw_global_max_timestamp bsw <s mx then mx else bsw_global_max_timestamp bsw),
            bsw_min_timestamp := (if \<not> has_written_blocks \<or> mn <s bsw_min_timestamp bsw then mn else bsw_min_timestamp bsw),
            bsw_max_timestamp := (if \<not> has_written_blocks \<or> bsw_max_timestamp bsw <s mx then mx else bsw_max_timestamp bsw),
            bsw_min_timestamp_last := mn,
            bsw_global_uncompressed_size_bytes := bsw_global_uncompressed_size_bytes bsw + bh_uncompressed_size_bytes bh,
            bsw_global_rows_count := bsw_global_rows_count bsw + bh_rows_count bh,
            bsw_global_blocks_count := bsw_global_blocks_count bsw + 1,
            bsw_index_block_data := bh_marshal (bsw_index_block_data bsw) bh\<rparr>)"
  using assms(1) unfolding account_block_def Let_def mn_def mx_def by simp

lemma sorted_wrt_last:
  "sorted_wrt P (x # xs @ [y]) \<Longrightarrow> P (last (x # xs)) y"
  by (cases xs rule: rev_cases) (auto simp: sorted_wrt_append)

lemma account_rel:
  assumes i: "index_rel z bsw gs pend" and t: "totals_rel bsw bhs" and v: "bh_valid bh"
    and ord: "sorted_wrt bh_le (bh_default # bhs @ [bh])" and rows: "sum_list (map bh_rows_count (bhs @ [bh])) \<noteq> 0"
    and sw: "sw_index_writer sw' = sw_index_writer (bsw_stream_writers bsw)"
  defines "s \<equiv> bh_stream_id bh"
  defines "bsw1 \<equiv> (if \<not> bsw_has_written_blocks bsw then bsw\<lparr>bsw_sid_first := s, bsw_has_written_blocks := True\<rparr> else bsw)"
  shows "\<not> stream_id_less s (bsw_sid_last bsw)"
    "\<exists>bsw2. account_block s (bsw_has_written_blocks bsw) (stream_id_equal s (bsw_sid_last bsw1)) bh (bsw1\<lparr>bsw_sid_last := s, bsw_stream_writers := sw'\<rparr>) = Ok bsw2 \<and>
       index_rel z bsw2 gs (pend @ [bh]) \<and> totals_rel bsw2 (bhs @ [bh]) \<and> bsw_stream_writers bsw2 = sw' \<and>
       length (bsw_index_block_data bsw2) \<le> length (bsw_index_block_data bsw) + 200"
proof -
  let ?last = "last (bh_default # bhs)"
  have le: "bh_le ?last bh" by (rule sorted_wrt_last [OF ord])
  have l: "bsw_sid_last bsw = bh_stream_id ?last" "bsw_min_timestamp_last bsw = th_min_timestamp (bh_timestamps_header ?last)"
    using t by (simp_all add: totals_rel_def)
  show "\<not> stream_id_less s (bsw_sid_last bsw)"
    using le unfolding l s_def stream_id_less_iff by (auto simp: bh_le_def)
  let ?b = "bsw1\<lparr>bsw_sid_last := s, bsw_stream_writers := sw'\<rparr>"
  have b1: "bsw_sid_last bsw1 = bsw_sid_last bsw" "bsw_min_timestamp_last bsw1 = bsw_min_timestamp_last bsw" by (simp_all add: bsw1_def)
  have np: "\<not> (stream_id_equal s (bsw_sid_last bsw1) \<and> th_min_timestamp (bh_timestamps_header bh) <s bsw_min_timestamp_last ?b)"
    using le b1 l by (auto simp: s_def stream_id_equal_iff bh_le_def word_sless_alt word_sle_eq)
  let ?mn = "th_min_timestamp (bh_timestamps_header bh)" and ?mx = "th_max_timestamp (bh_timestamps_header bh)"
  obtain bsw2 where a: "account_block s (bsw_has_written_blocks bsw) (stream_id_equal s (bsw_sid_last bsw1)) bh ?b = Ok bsw2"
      and b2: "bsw2 = ?b\<lparr>bsw_global_min_timestamp := (if bsw_global_rows_count bsw = 0 \<or> ?mn <s bsw_global_min_timestamp bsw then ?mn else bsw_global_min_timestamp bsw),
            bsw_global_max_timestamp := (if bsw_global_rows_count bsw = 0 \<or> bsw_global_max_timestamp bsw <s ?mx then ?mx else bsw_global_max_timestamp bsw),
            bsw_min_timestamp := (if \<not> bsw_has_written_blocks bsw \<or> ?mn <s bsw_min_timestamp bsw then ?mn else bsw_min_timestamp bsw),
            bsw_max_timestamp := (if \<not> bsw_has_written_blocks bsw \<or> bsw_max_timestamp bsw <s ?mx then ?mx else bsw_max_timestamp bsw),
            bsw_min_timestamp_last := ?mn,
            bsw_global_uncompressed_size_bytes := bsw_global_uncompressed_size_bytes bsw + bh_uncompressed_size_bytes bh,
            bsw_global_rows_count := bsw_global_rows_count bsw + bh_rows_count bh,
            bsw_global_blocks_count := bsw_global_blocks_count bsw + 1,
            bsw_index_block_data := bh_marshal (bsw_index_block_data bsw) bh\<rparr>"
    using account_block_eq [OF np, of s "bsw_has_written_blocks bsw"] by (simp add: bsw1_def)
  have bm: "bh_marshal (bsw_index_block_data bsw) bh = bsw_index_block_data bsw @ bh_marshal [] bh"
    using bh_marshal_bytes [of "bsw_index_block_data bsw" bh] bh_marshal_bytes [of "[]" bh] by simp
  have hw: "bsw_has_written_blocks bsw \<longleftrightarrow> pend \<noteq> []" using i by (simp add: index_rel_def)
  have "index_rel z bsw2 gs (pend @ [bh])"
  proof (cases "pend = []")
    case True
    then show ?thesis using i hw bm sw ts_bounds_single [of bh] by (simp add: index_rel_def b2 bsw1_def s_def)
  next
    case False
    then have "ts_bounds (bsw_min_timestamp bsw) (bsw_max_timestamp bsw) pend" using i by (simp add: index_rel_def)
    then show ?thesis using False i hw bm sw ts_bounds_snoc [of "bsw_min_timestamp bsw" "bsw_max_timestamp bsw" pend bh]
      by (simp add: index_rel_def b2 bsw1_def)
  qed
  moreover have "totals_rel bsw2 (bhs @ [bh])"
  proof (cases "bhs = []")
    case True
    then have "bsw_global_rows_count bsw = 0" using t by (simp add: totals_rel_def)
    then show ?thesis using True t v ord rows ts_bounds_single [of bh] by (simp add: totals_rel_def b2 bsw1_def s_def)
  next
    case False
    then have nz: "bsw_global_rows_count bsw \<noteq> 0" and tb: "ts_bounds (bsw_global_min_timestamp bsw) (bsw_global_max_timestamp bsw) bhs" using t by (auto simp: totals_rel_def)
    show ?thesis using False nz t v ord rows ts_bounds_snoc [OF tb, of bh] by (simp add: totals_rel_def b2 bsw1_def s_def)
  qed
  moreover have "length (bsw_index_block_data bsw2) \<le> length (bsw_index_block_data bsw) + 200"
    using bm length_bh_marshal_le [of bh] by (simp add: b2)
  ultimately show "\<exists>bsw2. account_block s (bsw_has_written_blocks bsw) (stream_id_equal s (bsw_sid_last bsw1)) bh ?b = Ok bsw2 \<and>
       index_rel z bsw2 gs (pend @ [bh]) \<and> totals_rel bsw2 (bhs @ [bh]) \<and> bsw_stream_writers bsw2 = sw' \<and>
       length (bsw_index_block_data bsw2) \<le> length (bsw_index_block_data bsw) + 200"
    using a by (intro exI [of _ bsw2]) (simp add: b2)
qed

text \<open>The order of blocks in a part: by stream, then by first timestamp.\<close>

definition bd_le :: "BlockData \<Rightarrow> BlockData \<Rightarrow> bool" where
  "bd_le a b \<longleftrightarrow> bd_stream_id a < bd_stream_id b \<or>
    bd_stream_id a = bd_stream_id b \<and> td_min_timestamp (bd_timestamps_data a) \<le>s td_min_timestamp (bd_timestamps_data b)"

lemma bd_default_described: "describes bh_default bd_default"
  by (simp add: describes_def bh_default_def bd_default_def th_default_def)

lemma sorted_described:
  "list_all2 describes bhs bds \<Longrightarrow> sorted_wrt bh_le (bh_default # bhs) = sorted_wrt bd_le (bd_default # bds)"
proof -
  assume a: "list_all2 describes bhs bds"
  have le: "bh_le x y = bd_le x' y'" if "describes x x'" "describes y y'" for x y x' y' using that by (simp add: describes_def bh_le_def bd_le_def)
  from a have s: "sorted_wrt bh_le bhs = sorted_wrt bd_le bds"
  proof (induction rule: list_all2_induct)
    case (Cons x xs y ys)
    then have "(\<forall>b \<in> set xs. bh_le x b) = (\<forall>b \<in> set ys. bd_le y b)"
      using le [OF Cons(1)] by (fastforce simp: list_all2_conv_all_nth in_set_conv_nth)
    then show ?case using Cons by simp
  qed simp
  have "(\<forall>b \<in> set bhs. bh_le bh_default b) = (\<forall>b \<in> set bds. bd_le bd_default b)"
    using le [OF bd_default_described] a by (fastforce simp: list_all2_conv_all_nth in_set_conv_nth)
  then show ?thesis using s by simp
qed

lemma described_maps:
  assumes "list_all2 describes bhs bds"
  shows "map bh_rows_count bhs = map bd_rows_count bds" "map bh_uncompressed_size_bytes bhs = map bd_uncompressed_size_bytes bds"
  using assms by (induction rule: list_all2_induct) (simp_all add: describes_def)

lemma described_sums:
  assumes "list_all2 describes bhs bds"
  shows "sum_list (map (\<lambda>bh. unat (bh_uncompressed_size_bytes bh)) bhs) = sum_list (map (\<lambda>bd. unat (bd_uncompressed_size_bytes bd)) bds)"
    "sum_list (map (\<lambda>bh. unat (bh_rows_count bh)) bhs) = sum_list (map (\<lambda>bd. unat (bd_rows_count bd)) bds)"
  using assms by (induction rule: list_all2_induct) (simp_all add: describes_def)

definition storable :: "'f env \<Rightarrow> BlockData \<Rightarrow> bool" where
  "storable e bd \<longleftrightarrow> bd_valid (e_f64 e) bd \<and> bd_rows_count bd \<noteq> 0 \<and> (\<forall>n \<in> bd_names bd. length n < 2 ^ 64) \<and>
    td_min_timestamp (bd_timestamps_data bd) \<le>s td_max_timestamp (bd_timestamps_data bd)"

text \<open>Fresh streams for the names and the metaindex.\<close>

definition idle :: "StreamWriters \<Rightarrow> bool" where
  "idle sw \<longleftrightarrow> sw_metaindex_writer sw = writer_init [] \<and> sw_column_names_writer sw = writer_init [] \<and> sw_column_idxs_writer sw = writer_init []"

definition writer_rel :: "'f env \<Rightarrow> StreamWriters \<Rightarrow> BlockStreamWriter \<Rightarrow> BlockData list \<Rightarrow> (IndexBlockHeader \<times> BlockHeader list) list \<Rightarrow> BlockHeader list \<Rightarrow> bool" where
  "writer_rel e sw0 bsw bds gs pend \<longleftrightarrow>
    (let sw = bsw_stream_writers bsw; bhs = all_headers gs pend in
     index_rel (e_zstd e) bsw gs pend \<and> length (bsw_index_block_data bsw) \<le> MAX_UNCOMPRESSED_INDEX_BLOCK_SIZE \<and>
     totals_rel bsw bhs \<and> sw_inv sw \<and> idle sw \<and> sw_max_shards sw = sw_max_shards sw0 \<and> list_all2 describes bhs bds \<and>
     length (column_names (sw_generator sw)) \<le> 2 * MAX_COLUMNS_PER_BLOCK * length bds \<and>
     (\<forall>n \<in> set (column_names (sw_generator sw)). length n < 2 ^ 64) \<and>
     (\<forall>F. sw_le sw F \<longrightarrow> reads_back (e_xxh64 e) F sw0 bhs bds sw))"

definition blocks_fit :: "BlockData list \<Rightarrow> bool" where
  "blocks_fit bds \<longleftrightarrow> length bds < 2 ^ 48 \<and> sum_list (map (\<lambda>bd. unat (bd_uncompressed_size_bytes bd)) bds) < 2 ^ 64 \<and>
    sum_list (map (\<lambda>bd. unat (bd_rows_count bd)) bds) < 2 ^ 64"

lemma unat_sum_list: "sum_list (map (\<lambda>b. unat (f b)) xs) < 2 ^ 64 \<Longrightarrow> unat (sum_list (map f xs) :: u64) = sum_list (map (\<lambda>b. unat (f b)) xs)"
proof (induction xs)
  case (Cons x xs)
  then have "unat (sum_list (map f xs)) = sum_list (map (\<lambda>b. unat (f b)) xs)" by simp
  moreover have "sum_list (map (\<lambda>b. unat (f b)) (x # xs)) = unat (f x) + sum_list (map (\<lambda>b. unat (f b)) xs)" by simp
  ultimately show ?case using Cons.prems unat_add_lem [of "f x" "sum_list (map f xs)", THEN iffD1] by (metis len64 list.simps(9) sum_list.Cons)
qed simp

lemma write_step:
  assumes r: "writer_rel e sw0 bsw bds gs pend" and z: "zstd_ok (e_zstd e)" and st: "storable e bd"
    and ord: "sorted_wrt bd_le (bd_default # bds @ [bd])" and fit: "blocks_fit (bds @ [bd])"
  shows "\<exists>bsw' gs' pend'. must_write_block_data e bd bsw = Ok bsw' \<and> writer_rel e sw0 bsw' (bds @ [bd]) gs' pend'"
proof -
  let ?sw = "bsw_stream_writers bsw" and ?bhs = "all_headers gs pend"
  have i: "index_rel (e_zstd e) bsw gs pend" "length (bsw_index_block_data bsw) \<le> MAX_UNCOMPRESSED_INDEX_BLOCK_SIZE" "totals_rel bsw ?bhs"
      "sw_inv ?sw" "idle ?sw" "list_all2 describes ?bhs bds" "length (column_names (sw_generator ?sw)) \<le> 2 * MAX_COLUMNS_PER_BLOCK * length bds"
      "\<forall>n \<in> set (column_names (sw_generator ?sw)). length n < 2 ^ 64" "\<And>F. sw_le ?sw F \<Longrightarrow> reads_back (e_xxh64 e) F sw0 ?bhs bds ?sw"
      "sw_max_shards ?sw = sw_max_shards sw0"
    using r by (simp_all add: writer_rel_def Let_def)
  have v: "bd_valid (e_f64 e) bd" "bd_rows_count bd \<noteq> 0" "\<forall>n \<in> bd_names bd. length n < 2 ^ 64" using st by (simp_all add: storable_def)
  have n: "length (column_names (sw_generator ?sw)) < 2 ^ 61" using i(7) fit by (simp add: blocks_fit_def MAX_COLUMNS_PER_BLOCK_def)
  obtain bh sw' where w: "bd_must_write_to e bd ?sw = Ok (bh, sw')" "block_written (e_xxh64 e) bd ?sw bh sw'"
    using bd_write_read [OF i(4) v(1) n] by blast
  have d: "describes bh bd" using w(2) by (simp add: block_written_def describes_def)
  have d2: "list_all2 describes (?bhs @ [bh]) (bds @ [bd])" using i(6) d by (simp add: list_all2_appendI)
  have ord': "sorted_wrt bh_le (bh_default # ?bhs @ [bh])" using sorted_described [OF d2] ord by simp
  have "map bh_rows_count (?bhs @ [bh]) = map bd_rows_count (bds @ [bd])"
    using described_maps(1) [OF d2] .
  then have rows: "sum_list (map bh_rows_count (?bhs @ [bh])) \<noteq> 0"
    using unat_sum_list [of bd_rows_count "bds @ [bd]"] fit v(2) by (auto simp: blocks_fit_def unat_eq_0)
  have bw: "bh_valid bh" "sw_index_writer sw' = sw_index_writer ?sw" using w(2) by (simp_all add: block_written_def)
  note a = account_rel [OF i(1,3) bw(1) ord' rows bw(2)]
  obtain bsw2 where b2: "account_block (bh_stream_id bh) (bsw_has_written_blocks bsw)
        (stream_id_equal (bh_stream_id bh) (bsw_sid_last (if \<not> bsw_has_written_blocks bsw then bsw\<lparr>bsw_sid_first := bh_stream_id bh, bsw_has_written_blocks := True\<rparr> else bsw))) bh
        ((if \<not> bsw_has_written_blocks bsw then bsw\<lparr>bsw_sid_first := bh_stream_id bh, bsw_has_written_blocks := True\<rparr> else bsw)\<lparr>bsw_sid_last := bh_stream_id bh, bsw_stream_writers := sw'\<rparr>) = Ok bsw2"
      "index_rel (e_zstd e) bsw2 gs (pend @ [bh])" "totals_rel bsw2 (?bhs @ [bh])" "bsw_stream_writers bsw2 = sw'"
      "length (bsw_index_block_data bsw2) \<le> length (bsw_index_block_data bsw) + 200"
    using a(2) by blast
  have sid_eq: "bd_stream_id bd = bh_stream_id bh" using d by (simp add: describes_def)
  have stp: "must_write_block_data e bd bsw =
      (if length (bsw_index_block_data bsw2) > MAX_UNCOMPRESSED_INDEX_BLOCK_SIZE then
         obind (must_flush_index_block (e_zstd e) (bsw_index_block_data bsw2) (bsw2\<lparr>bsw_index_block_data := []\<rparr>)) (\<lambda>bsw. Ok (bsw\<lparr>bsw_index_block_data := []\<rparr>))
       else Ok bsw2)"
    using v(2) w(1) a(1) b2(1) by (cases "bsw_has_written_blocks bsw") (simp_all add: must_write_block_data_def must_write_block_internal_def Let_def sid_eq)
  have rb: "reads_back (e_xxh64 e) F sw0 (?bhs @ [bh]) (bds @ [bd]) sw'" if "sw_le sw' F" for F
  proof -
    have le: "sw_le ?sw F" using w(2) that sw_le_trans by (auto simp: block_written_def)
    have "reads_one (e_xxh64 e) F ?sw bh bd sw'" using w(2) that d by (simp add: reads_one_def block_written_def)
    then show ?thesis using reads_back_snoc [OF i(9) [OF le]] by blast
  qed
  have g: "sw_inv sw'" "idle sw'" "length (column_names (sw_generator sw')) \<le> 2 * MAX_COLUMNS_PER_BLOCK * length (bds @ [bd])"
      "\<forall>n \<in> set (column_names (sw_generator sw')). length n < 2 ^ 64" "sw_max_shards sw' = sw_max_shards sw0"
    using w(2) i(5,7,8,10) bd_must_write_names [OF w(1)] v(3) by (auto simp: block_written_def idle_def)
  have ah: "?bhs @ [bh] = all_headers gs (pend @ [bh])" by (simp add: all_headers_def)
  show ?thesis
  proof (cases "length (bsw_index_block_data bsw2) > MAX_UNCOMPRESSED_INDEX_BLOCK_SIZE")
    case False
    then have "writer_rel e sw0 bsw2 (bds @ [bd]) gs (pend @ [bh])"
      using b2 g rb d2 by (simp add: writer_rel_def Let_def ah)
    then show ?thesis using stp False by auto
  next
    case True
    obtain ih w' bsw3 where f: "must_flush_index_block (e_zstd e) (bsw_index_block_data bsw2) (bsw2\<lparr>bsw_index_block_data := []\<rparr>) = Ok bsw3"
        "index_rel (e_zstd e) (bsw3\<lparr>bsw_index_block_data := []\<rparr>) (gs @ [(ih, pend @ [bh])]) []"
        "bsw_stream_writers bsw3 = sw'\<lparr>sw_index_writer := w'\<rparr>" "totals_rel bsw3 = totals_rel bsw2"
      using flush_rel [OF b2(2) _ z, of "[]"] b2(4,5) i(2) by auto
    have ah2: "all_headers (gs @ [(ih, pend @ [bh])]) [] = ?bhs @ [bh]" by (simp add: all_headers_def)
    have tr: "totals_rel (bsw3\<lparr>bsw_index_block_data := []\<rparr>) = totals_rel bsw3" by (intro ext) (simp add: totals_rel_def)
    have rb': "reads_back (e_xxh64 e) F sw0 (?bhs @ [bh]) (bds @ [bd]) (sw'\<lparr>sw_index_writer := w'\<rparr>)" if "sw_le sw' F" for F
    proof -
      have ext: "reads_back x F s hs ds t \<Longrightarrow> reads_back x F s hs ds (t\<lparr>sw_index_writer := w'\<rparr>)" for x F s hs ds t
        by (induction x F s hs ds t rule: reads_back.induct) auto
      show ?thesis using ext [OF rb [OF that]] .
    qed
    have "writer_rel e sw0 (bsw3\<lparr>bsw_index_block_data := []\<rparr>) (bds @ [bd]) (gs @ [(ih, pend @ [bh])]) []"
      using f(2-4) g b2(3) rb' d2 tr by (simp add: writer_rel_def Let_def ah2 idle_def)
    then show ?thesis using stp True f(1) by auto
  qed
qed

lemma write_blocks_rel:
  assumes "writer_rel e sw0 bsw done_bds gs pend" "zstd_ok (e_zstd e)" "list_all (storable e) bds"
    and "sorted_wrt bd_le (bd_default # done_bds @ bds)" "blocks_fit (done_bds @ bds)"
  shows "\<exists>bsw' gs' pend'. write_blocks e bds bsw = Ok bsw' \<and> writer_rel e sw0 bsw' (done_bds @ bds) gs' pend'"
  using assms
proof (induction bds arbitrary: bsw done_bds gs pend)
  case (Cons bd bds)
  have "sorted_wrt bd_le (bd_default # done_bds @ [bd])" using Cons.prems(4) by (auto simp: sorted_wrt_append)
  moreover have "blocks_fit (done_bds @ [bd])" using Cons.prems(5) by (simp add: blocks_fit_def)
  ultimately obtain bsw1 gs1 pend1 where 1: "must_write_block_data e bd bsw = Ok bsw1" "writer_rel e sw0 bsw1 (done_bds @ [bd]) gs1 pend1"
    using write_step [OF Cons.prems(1,2), of bd] Cons.prems(3) by fastforce
  then show ?case using Cons.IH [OF 1(2) Cons.prems(2)] Cons.prems(3-5) by simp
qed auto

subsection \<open>The finished part\<close>

lemma finish_writers_sync [simp]:
  "in_sync (sw\<lparr>sw_metaindex_writer := w\<rparr>) F sr = in_sync sw F sr" "in_sync (sw\<lparr>sw_column_names_writer := w\<rparr>) F sr = in_sync sw F sr"
  "in_sync (sw\<lparr>sw_column_idxs_writer := w\<rparr>) F sr = in_sync sw F sr"
  by (simp_all add: in_sync_def values_sync_def)

lemma reads_back_ext:
  "reads_back xxh F sw bhs bds t \<Longrightarrow> (\<And>sr. in_sync t F sr \<Longrightarrow> in_sync t' F sr) \<Longrightarrow> reads_back xxh F sw bhs bds t'"
  by (induction xxh F sw bhs bds t rule: reads_back.induct) auto

definition finished :: "'f env \<Rightarrow> StreamWriters \<Rightarrow> BlockData list \<Rightarrow> (IndexBlockHeader \<times> BlockHeader list) list \<Rightarrow> PartHeader \<Rightarrow> StreamWriters \<Rightarrow> bool" where
  "finished e sw0 bds gs ph F \<longleftrightarrow>
    (let z = e_zstd e; bhs = concat (map snd gs) in
     sw_inv F \<and> sw_max_shards F = sw_max_shards sw0 \<and> groups_at z 0 gs \<and> sorted_wrt bh_le (bh_default # bhs) \<and> list_all bh_valid bhs \<and> list_all2 describes bhs bds \<and>
     sw_index_writer F = \<lparr>w_data = Some (index_contents z gs), bytes_written = of_nat (length (index_contents z gs))\<rparr> \<and>
     must_write (writer_init []) (compress_zstd_level z [] (concat (map (ih_marshal [] \<circ> fst) gs)) 1) = Ok (sw_metaindex_writer F) \<and>
     must_write (writer_init []) (marshal_column_names z [] (column_names (sw_generator F))) = Ok (sw_column_names_writer F) \<and>
     must_write (writer_init []) (marshal_column_idxs [] (e_order e (sw_column_idxs F))) = Ok (sw_column_idxs_writer F) \<and>
     length (column_names (sw_generator F)) \<le> 2 * MAX_COLUMNS_PER_BLOCK * length bds \<and>
     (\<forall>n \<in> set (column_names (sw_generator F)). length n < 2 ^ 64) \<and>
     (\<forall>G. sw_le F G \<longrightarrow> reads_back (e_xxh64 e) G sw0 bhs bds F) \<and>
     ph_format_version ph = PART_FORMAT_LATEST_VERSION \<and> ph_compressed_size_bytes ph = sw_total_bytes_written F \<and>
     ph_uncompressed_size_bytes ph = sum_list (map bh_uncompressed_size_bytes bhs) \<and> ph_rows_count ph = sum_list (map bh_rows_count bhs) \<and>
     ph_blocks_count ph = of_nat (length bhs) \<and>
     (bhs = [] \<longrightarrow> ph_min_timestamp ph = 0 \<and> ph_max_timestamp ph = 0) \<and>
     (bhs \<noteq> [] \<longrightarrow> ts_bounds (ph_min_timestamp ph) (ph_max_timestamp ph) bhs) \<and>
     ph_bloom_values_shards_count ph = of_nat (length (sw_bloom_values_shards F)))"

lemma flush_end:
  assumes "writer_rel e sw0 bsw bds gs pend" "zstd_ok (e_zstd e)"
  shows "\<exists>bsw' gs'. must_flush_index_block (e_zstd e) (bsw_index_block_data bsw) bsw = Ok bsw' \<and>
    writer_rel e sw0 (bsw'\<lparr>bsw_index_block_data := []\<rparr>) bds gs' [] \<and>
    length (sw_bloom_values_shards (bsw_stream_writers bsw')) = length (sw_bloom_values_shards (bsw_stream_writers bsw))"
proof (cases "pend = []")
  case True
  let ?bsw' = "bsw\<lparr>bsw_has_written_blocks := False, bsw_min_timestamp := 0, bsw_max_timestamp := 0, bsw_sid_first := stream_id_zero\<rparr>"
  have d: "bsw_index_block_data bsw = []" using assms(1) True by (simp add: writer_rel_def index_rel_def Let_def)
  have "must_flush_index_block (e_zstd e) (bsw_index_block_data bsw) bsw = Ok ?bsw'" using d by (simp add: must_flush_index_block_def)
  moreover have "totals_rel (?bsw'\<lparr>bsw_index_block_data := []\<rparr>) = totals_rel bsw" by (intro ext) (simp add: totals_rel_def)
  then have "writer_rel e sw0 (?bsw'\<lparr>bsw_index_block_data := []\<rparr>) bds gs []"
    using assms(1) True by (simp add: writer_rel_def index_rel_def Let_def)
  ultimately show ?thesis by (intro exI [of _ ?bsw'] exI [of _ gs]) simp
next
  case False
  have r: "index_rel (e_zstd e) bsw gs pend" "length (bsw_index_block_data bsw) \<le> MAX_UNCOMPRESSED_INDEX_BLOCK_SIZE + 200"
    using assms(1) by (simp_all add: writer_rel_def Let_def)
  have id: "bsw\<lparr>bsw_index_block_data := bsw_index_block_data bsw\<rparr> = bsw" by simp
  obtain ih w bsw' where f: "must_flush_index_block (e_zstd e) (bsw_index_block_data bsw) bsw = Ok bsw'"
      "index_rel (e_zstd e) (bsw'\<lparr>bsw_index_block_data := []\<rparr>) (gs @ [(ih, pend)]) []"
      "bsw_stream_writers bsw' = (bsw_stream_writers bsw)\<lparr>sw_index_writer := w\<rparr>" "totals_rel bsw' = totals_rel bsw"
    using flush_rel [OF r(1) False assms(2) r(2), of "bsw_index_block_data bsw"] unfolding id by blast
  have tr: "totals_rel (bsw'\<lparr>bsw_index_block_data := []\<rparr>) = totals_rel bsw'" by (intro ext) (simp add: totals_rel_def)
  have ah: "all_headers (gs @ [(ih, pend)]) [] = all_headers gs pend" by (simp add: all_headers_def)
  have "writer_rel e sw0 (bsw'\<lparr>bsw_index_block_data := []\<rparr>) bds (gs @ [(ih, pend)]) []"
    using assms(1) f(2-4) tr reads_back_ext [of _ _ sw0 "all_headers gs pend" bds "bsw_stream_writers bsw"]
    by (simp add: writer_rel_def Let_def ah idle_def)
  then show ?thesis using f(1,3) by (intro exI [of _ bsw'] exI [of _ "gs @ [(ih, pend)]"]) simp
qed

lemma finalize_finished:
  assumes "writer_rel e sw0 bsw bds gs pend" "zstd_ok (e_zstd e)"
  shows "\<exists>ph F gs'. finalize e bsw = Ok (ph, F) \<and> finished e sw0 bds gs' ph F"
proof -
  obtain bsw' gs' where f: "must_flush_index_block (e_zstd e) (bsw_index_block_data bsw) bsw = Ok bsw'"
      "writer_rel e sw0 (bsw'\<lparr>bsw_index_block_data := []\<rparr>) bds gs' []"
      "length (sw_bloom_values_shards (bsw_stream_writers bsw')) = length (sw_bloom_values_shards (bsw_stream_writers bsw))"
    using flush_end [OF assms] by blast
  let ?sw = "bsw_stream_writers bsw'"
  have idl: "sw_metaindex_writer ?sw = writer_init []" "sw_column_names_writer ?sw = writer_init []" "sw_column_idxs_writer ?sw = writer_init []"
    using f(2) by (simp_all add: writer_rel_def Let_def idle_def)
  obtain w1 w2 w3 where w: "must_write (writer_init []) (marshal_column_names (e_zstd e) [] (column_names (sw_generator ?sw))) = Ok w1"
      "must_write (writer_init []) (marshal_column_idxs [] (e_order e (sw_column_idxs ?sw))) = Ok w2"
      "must_write (writer_init []) (compress_zstd_level (e_zstd e) [] (bsw_metaindex_data bsw') 1) = Ok w3"
    by (simp add: must_write_def writer_init_def)
  let ?F = "?sw\<lparr>sw_column_names_writer := w1, sw_column_idxs_writer := w2, sw_metaindex_writer := w3\<rparr>"
  define ph where "ph = \<lparr>ph_format_version = PART_FORMAT_LATEST_VERSION, ph_compressed_size_bytes = sw_total_bytes_written ?F,
      ph_uncompressed_size_bytes = bsw_global_uncompressed_size_bytes bsw', ph_rows_count = bsw_global_rows_count bsw',
      ph_blocks_count = bsw_global_blocks_count bsw', ph_min_timestamp = bsw_global_min_timestamp bsw',
      ph_max_timestamp = bsw_global_max_timestamp bsw', ph_bloom_values_shards_count = of_nat (length (sw_bloom_values_shards ?sw))\<rparr>"
  have ph: "finalize e bsw = Ok (ph, ?F)"
    using f(1,3) w idl
    by (simp add: finalize_def ph_def must_write_column_names_def must_write_column_idxs_def must_write_index_block_headers_def Let_def)
  have r: "index_rel (e_zstd e) (bsw'\<lparr>bsw_index_block_data := []\<rparr>) gs' []" "totals_rel (bsw'\<lparr>bsw_index_block_data := []\<rparr>) (concat (map snd gs'))"
      "sw_inv ?sw" "list_all2 describes (concat (map snd gs')) bds" "length (column_names (sw_generator ?sw)) \<le> 2 * MAX_COLUMNS_PER_BLOCK * length bds"
      "\<forall>n \<in> set (column_names (sw_generator ?sw)). length n < 2 ^ 64" "\<And>G. sw_le ?sw G \<Longrightarrow> reads_back (e_xxh64 e) G sw0 (concat (map snd gs')) bds ?sw"
      "sw_max_shards ?sw = sw_max_shards sw0"
    using f(2) by (simp_all add: writer_rel_def Let_def all_headers_def)
  have ix: "sw_index_writer ?sw = \<lparr>w_data = Some (index_contents (e_zstd e) gs'), bytes_written = of_nat (length (index_contents (e_zstd e) gs'))\<rparr>"
      "bsw_metaindex_data bsw' = concat (map (ih_marshal [] \<circ> fst) gs')" "groups_at (e_zstd e) 0 gs'"
    using r(1) by (simp_all add: index_rel_def)
  have rb: "reads_back (e_xxh64 e) G sw0 (concat (map snd gs')) bds ?F" if "sw_le ?sw G" for G
    by (rule reads_back_ext [OF r(7) [OF that]]) simp
  have "finished e sw0 bds gs' ph ?F"
    using r(2-6,8) ix w rb by (simp add: finished_def Let_def totals_rel_def ph_def)
  then show ?thesis using ph by blast
qed

subsection \<open>Opening the finished part\<close>

definition order_ok :: "'f env \<Rightarrow> bool" where
  "order_ok e \<longleftrightarrow> (\<forall>es. mset (e_order e es) = mset es)"

text \<open>An in-memory part has a buffer for one shard even when no shard was needed.\<close>

definition pad_shards :: "bool \<Rightarrow> StreamWriters \<Rightarrow> StreamWriters" where
  "pad_shards inmemory sw = sw\<lparr>sw_bloom_values_shards := (if inmemory \<and> sw_bloom_values_shards sw = [] then [no_shard] else sw_bloom_values_shards sw)\<rparr>"

lemma pad_shard_of: "shard_of (pad_shards inmemory sw) i = shard_of sw i"
  by (simp add: shard_of_def pad_shards_def)

lemma pad_le: "sw_inv sw \<Longrightarrow> sw_le sw (pad_shards inmemory sw)"
  using sw_le_refl [of sw] by (simp add: sw_le_def pad_shard_of) (simp add: pad_shards_def)

definition reader_rel ::
  "'f env \<Rightarrow> PartHeader \<Rightarrow> StreamWriters \<Rightarrow> StreamWriters \<Rightarrow> BlockStreamReader \<Rightarrow> BlockData list \<Rightarrow>
   (IndexBlockHeader \<times> BlockHeader list) list \<Rightarrow> BlockHeader list \<Rightarrow> bool" where
  "reader_rel e ph G T bsr bds gs cur \<longleftrightarrow>
    (let z = e_zstd e; sr = bsr_stream_readers bsr; bhs = cur @ concat (map snd gs) in
     bsr_ph bsr = ph \<and> drop (bsr_next_block_idx bsr) (bsr_block_headers bsr) = cur \<and>
     drop (bsr_next_index_block_idx bsr) (bsr_index_block_headers bsr) = map fst gs \<and>
     (\<forall>bh \<in> set cur. let ih = bsr_index_block_headers bsr ! (bsr_next_index_block_idx bsr - 1); th = bh_timestamps_header bh in
        ih_min_timestamp ih \<le>s th_min_timestamp th \<and> th_max_timestamp th \<le>s ih_max_timestamp ih) \<and>
     r_rest (sr_index_reader sr) = Some (index_contents z gs) \<and> groups_at z (bytes_read (sr_index_reader sr)) gs \<and>
     bytes_read (sr_index_reader sr) + of_nat (length (index_contents z gs)) = bytes_written (sw_index_writer T) \<and>
     bytes_read (sr_column_names_reader sr) = bytes_written (sw_column_names_writer T) \<and>
     bytes_read (sr_column_idxs_reader sr) = bytes_written (sw_column_idxs_writer T) \<and>
     bytes_read (sr_metaindex_reader sr) = bytes_written (sw_metaindex_writer T) \<and>
     br_total_bytes_read (sr_old_bloom_values_reader sr) = 0 \<and>
     (\<exists>sw. in_sync sw G sr \<and> reads_back (e_xxh64 e) G sw bhs bds T) \<and>
     (\<exists>h. bsr_sid_last bsr = bh_stream_id h \<and> bsr_min_timestamp_last bsr = th_min_timestamp (bh_timestamps_header h) \<and> sorted_wrt bh_le (h # bhs)) \<and>
     list_all bh_valid bhs \<and>
     (\<forall>(ih, g) \<in> set gs. \<not> ih_min_timestamp ih <s ph_min_timestamp ph \<and> \<not> ph_max_timestamp ph <s ih_max_timestamp ih) \<and>
     unat (bsr_global_uncompressed_size_bytes bsr) + sum_list (map (\<lambda>bh. unat (bh_uncompressed_size_bytes bh)) bhs) = unat (ph_uncompressed_size_bytes ph) \<and>
     unat (bsr_global_rows_count bsr) + sum_list (map (\<lambda>bh. unat (bh_rows_count bh)) bhs) = unat (ph_rows_count ph) \<and>
     unat (bsr_global_blocks_count bsr) + length bhs = unat (ph_blocks_count ph))"

lemma contents_ok: "writer_ok w \<Longrightarrow> w_data w = Some (contents w) \<and> bytes_written w = of_nat (length (contents w))"
  by (auto simp: writer_ok_def contents_def)

lemma sync_new: "writer_ok w \<Longrightarrow> sync (writer_init []) w (new_reader (contents w))"
  using contents_ok [of w] by (simp add: sync_def writer_init_def new_reader_def)

lemma bsync_new: "bw_ok w \<Longrightarrow> bsync no_shard w (buffer_reader True (bw_contents w))"
  using sync_new by (simp add: bsync_def bw_ok_def no_shard_def buffer_reader_def reader_if_def bw_contents_def)

lemma written_contents:
  "must_write (writer_init []) b = Ok w \<Longrightarrow> contents w = b \<and> bytes_written w = of_nat (length b)"
  by (auto simp: must_write_def writer_init_def contents_def)

lemma groups_bounds:
  assumes "groups_at z off gs" "(ih, bhs) \<in> set gs"
  shows "ts_bounds (ih_min_timestamp ih) (ih_max_timestamp ih) bhs \<and> bhs \<noteq> [] \<and> ih_stream_id ih = bh_stream_id (hd bhs)"
  using assms by (induction z off gs rule: groups_at.induct) auto

lemma group_headers_sorted:
  assumes "groups_at z off gs" "sorted_wrt bh_le (concat (map snd gs))"
  shows "sorted (map (ih_stream_id \<circ> fst) gs)"
  using assms
proof (induction z off gs rule: groups_at.induct)
  case (2 z off ih bhs gs)
  have "ih_stream_id ih \<le> ih_stream_id ih'" if "(ih', bhs') \<in> set gs" for ih' bhs'
  proof -
    have "groups_at z (off + of_nat (length (index_bytes z bhs))) gs" using 2(2) by simp
    note g = groups_bounds [OF this that]
    have h: "hd bhs' \<in> set (concat (map snd gs))" "ih_stream_id ih' = bh_stream_id (hd bhs')" "ih_stream_id ih = bh_stream_id (hd bhs)" "hd bhs \<in> set bhs"
      using g that 2(2) by force+
    then have "bh_le (hd bhs) (hd bhs')" using 2(3) by (force simp: sorted_wrt_append)
    then show ?thesis using h(2,3) by (auto simp: bh_le_def)
  qed
  then show ?case using 2 by (auto simp: sorted_wrt_append)
qed simp

lemma names_read:
  assumes "zstd_ok z" "gen_inv g" "length (column_names g) < 2 ^ 63" "\<forall>n \<in> set (column_names g). length n < 2 ^ 64"
  shows "must_read_column_names z (new_reader (marshal_column_names z [] (column_names g))) =
    Ok (column_names g, \<lparr>r_rest = Some [], bytes_read = of_nat (length (marshal_column_names z [] (column_names g)))\<rparr>)"
  using column_names_roundtrip [OF assms(1) _ assms(3,4)] assms(2) by (simp add: must_read_column_names_def read_all_def new_reader_def gen_inv_def)

lemma idxs_read:
  assumes "order_ok e" "idxs_ok F" "length (column_names (sw_generator F)) < 2 ^ 63" "length (sw_bloom_values_shards F) \<le> n" "n < 2 ^ 64"
  shows "\<exists>m. must_read_column_idxs (new_reader (marshal_column_idxs [] (e_order e (sw_column_idxs F)))) (column_names (sw_generator F)) (of_nat n) =
      Ok (m, \<lparr>r_rest = Some [], bytes_read = of_nat (length (marshal_column_idxs [] (e_order e (sw_column_idxs F))))\<rparr>) \<and>
    (\<forall>(c, s) \<in> set (sw_column_idxs F). \<forall>name. names_at (column_names (sw_generator F)) c name \<longrightarrow> m name = Some s)"
proof -
  let ?es = "sw_column_idxs F" and ?names = "column_names (sw_generator F)"
  have ms: "mset (e_order e ?es) = mset ?es" using assms(1) by (simp add: order_ok_def)
  then have "mset (map fst (e_order e ?es)) = mset (map fst ?es)" by simp
  then have d: "distinct (map fst (e_order e ?es))" using assms(2) mset_eq_imp_distinct_iff by (auto simp: idxs_ok_def simp del: mset_map)
  have st: "set (e_order e ?es) = set ?es" using ms by (rule mset_eq_setD)
  have l: "length (e_order e ?es) < 2 ^ 63" using mset_eq_length [OF ms] idxs_length [OF assms(2)] assms(3) by simp
  have b: "\<forall>(c, s) \<in> set (e_order e ?es). unat c < length ?names \<and> s < (of_nat n :: u64)"
    unfolding st using assms(2,4,5) by (fastforce simp: idxs_ok_def word_less_nat_alt unat_of_nat take_bit_nat_eq_self)
  have dn: "distinct ?names" using assms(2) by (simp add: idxs_ok_def gen_inv_def)
  obtain m where m: "unmarshal_column_idxs (marshal_column_idxs [] (e_order e ?es)) ?names (of_nat n) = Ok m" "\<forall>(c, s) \<in> set ?es. m (?names ! unat c) = Some s"
    using column_idxs_roundtrip [OF dn d l b] unfolding st by blast
  then show ?thesis by (intro exI [of _ m]) (auto simp: must_read_column_idxs_def read_all_def new_reader_def names_at_def)
qed

lemma shards_count:
  assumes "sw_inv F" "inmemory \<longrightarrow> sw_max_shards F = 1"
  shows "length (pt_field_bloom_values (part_of inmemory ph F)) = length (sw_bloom_values_shards (pad_shards inmemory F))"
    "length (sw_bloom_values_shards F) \<le> length (pt_field_bloom_values (part_of inmemory ph F))"
    "length (pt_field_bloom_values (part_of inmemory ph F)) < 2 ^ 64"
proof -
  have l: "length (sw_bloom_values_shards F) = min (length (sw_column_idxs F)) (unat (sw_max_shards F))" using assms(1) by (simp add: sw_inv_def)
  then have l1: "inmemory \<Longrightarrow> length (sw_bloom_values_shards F) \<le> 1" using assms(2) by simp
  show "length (pt_field_bloom_values (part_of inmemory ph F)) = length (sw_bloom_values_shards (pad_shards inmemory F))"
    using l1 by (cases "sw_bloom_values_shards F") (auto simp: part_of_def pad_shards_def)
  show "length (sw_bloom_values_shards F) \<le> length (pt_field_bloom_values (part_of inmemory ph F))" using l1 by (simp add: part_of_def)
  have "unat (sw_max_shards F) < 2 ^ 64" using unsigned_less [of "sw_max_shards F", where ?'a = nat] by simp
  then show "length (pt_field_bloom_values (part_of inmemory ph F)) < 2 ^ 64" using l by (simp add: part_of_def min_def)
qed

lemma open_shards:
  assumes "sw_inv F" "inmemory \<longrightarrow> sw_max_shards F = 1" "i < length (sw_bloom_values_shards (pad_shards inmemory F))"
  shows "bsync no_shard (shard_of (pad_shards inmemory F) i) (buffer_reader True (pt_field_bloom_values (part_of inmemory ph F) ! i))"
proof -
  have "pt_field_bloom_values (part_of inmemory ph F) ! i = bw_contents (shard_of F i)"
  proof (cases inmemory)
    case True
    then have "i = 0" using assms(3) shards_count(1) [OF assms(1,2), of ph] by (simp add: part_of_def)
    then show ?thesis using True by (simp add: part_of_def shard_of_def no_shard_def bw_contents_def contents_def writer_init_def)
  qed (use assms(3) in \<open>simp add: part_of_def pad_shards_def shard_of_def\<close>)
  moreover have "bw_ok (shard_of F i)" using assms(1) by (simp add: sw_inv_def shard_of_ok)
  ultimately show ?thesis using bsync_new by (simp add: pad_shard_of)
qed

lemma sw_init_fields:
  "sw_message_bloom_values_writer (sw_init f m) = no_shard" "shard_of (sw_init f m) i = no_shard"
  "sw_timestamps_writer (sw_init f m) = writer_init []" "sw_columns_header_writer (sw_init f m) = writer_init []"
  "sw_columns_header_index_writer (sw_init f m) = writer_init []"
  by (simp_all add: sw_init_def shard_of_def no_shard_def)

lemma pad_fields:
  "sw_message_bloom_values_writer (pad_shards b F) = sw_message_bloom_values_writer F" "sw_generator (pad_shards b F) = sw_generator F"
  "sw_timestamps_writer (pad_shards b F) = sw_timestamps_writer F" "sw_columns_header_writer (pad_shards b F) = sw_columns_header_writer F"
  "sw_columns_header_index_writer (pad_shards b F) = sw_columns_header_index_writer F" "sw_column_idxs (pad_shards b F) = sw_column_idxs F"
  by (simp_all add: pad_shards_def)

lemma open_finished:
  assumes fin: "finished e (sw_init f m) bds gs ph F" and z: "zstd_ok (e_zstd e)" and o: "order_ok e" and fit: "blocks_fit bds"
    and m: "inmemory \<longrightarrow> m = 1"
  shows "\<exists>bsr. bsr_init (e_zstd e) inmemory (part_of inmemory ph F) = Ok bsr \<and> reader_rel e ph (pad_shards inmemory F) F bsr bds gs []"
proof -
  let ?z = "e_zstd e" and ?pt = "part_of inmemory ph F" and ?G = "pad_shards inmemory F" and ?bhs = "concat (map snd gs)"
  have f: "sw_inv F" "sw_max_shards F = m" "groups_at ?z 0 gs" "sorted_wrt bh_le (bh_default # ?bhs)" "list_all bh_valid ?bhs" "list_all2 describes ?bhs bds"
      "sw_index_writer F = \<lparr>w_data = Some (index_contents ?z gs), bytes_written = of_nat (length (index_contents ?z gs))\<rparr>"
      "must_write (writer_init []) (compress_zstd_level ?z [] (concat (map (ih_marshal [] \<circ> fst) gs)) 1) = Ok (sw_metaindex_writer F)"
      "must_write (writer_init []) (marshal_column_names ?z [] (column_names (sw_generator F))) = Ok (sw_column_names_writer F)"
      "must_write (writer_init []) (marshal_column_idxs [] (e_order e (sw_column_idxs F))) = Ok (sw_column_idxs_writer F)"
      "length (column_names (sw_generator F)) \<le> 2 * MAX_COLUMNS_PER_BLOCK * length bds" "\<forall>n \<in> set (column_names (sw_generator F)). length n < 2 ^ 64"
      "\<And>G. sw_le F G \<Longrightarrow> reads_back (e_xxh64 e) G (sw_init f m) ?bhs bds F"
      "ph_format_version ph = PART_FORMAT_LATEST_VERSION" "ph_uncompressed_size_bytes ph = sum_list (map bh_uncompressed_size_bytes ?bhs)"
      "ph_rows_count ph = sum_list (map bh_rows_count ?bhs)" "ph_blocks_count ph = of_nat (length ?bhs)"
      "?bhs \<noteq> [] \<Longrightarrow> ts_bounds (ph_min_timestamp ph) (ph_max_timestamp ph) ?bhs"
    using fin by (auto simp: finished_def Let_def sw_init_def)
  have nl: "length (column_names (sw_generator F)) < 2 ^ 63" using f(11) fit by (simp add: blocks_fit_def MAX_COLUMNS_PER_BLOCK_def)
  have io: "idxs_ok F" using f(1) by (simp add: sw_inv_def)
  have gi: "gen_inv (sw_generator F)" using io by (simp add: idxs_ok_def)
  have mx: "inmemory \<longrightarrow> sw_max_shards F = 1" using m f(2) by simp
  note sc = shards_count [OF f(1) mx, of ph]
  let ?opn = "open_readers (ph_format_version ph) inmemory ?pt"
  have c: "contents (sw_metaindex_writer F) = compress_zstd_level ?z [] (concat (map (ih_marshal [] \<circ> fst) gs)) 1"
      "contents (sw_column_names_writer F) = marshal_column_names ?z [] (column_names (sw_generator F))"
      "contents (sw_column_idxs_writer F) = marshal_column_idxs [] (e_order e (sw_column_idxs F))"
    using written_contents f(8-10) by blast+
  have bw: "bytes_written (sw_metaindex_writer F) = of_nat (length (compress_zstd_level ?z [] (concat (map (ih_marshal [] \<circ> fst) gs)) 1))"
      "bytes_written (sw_column_names_writer F) = of_nat (length (marshal_column_names ?z [] (column_names (sw_generator F))))"
      "bytes_written (sw_column_idxs_writer F) = of_nat (length (marshal_column_idxs [] (e_order e (sw_column_idxs F))))"
    using written_contents f(8-10) by blast+
  obtain mp where mp: "must_read_column_idxs (new_reader (marshal_column_idxs [] (e_order e (sw_column_idxs F)))) (column_names (sw_generator F)) (of_nat (length (pt_field_bloom_values ?pt))) =
        Ok (mp, \<lparr>r_rest = Some [], bytes_read = of_nat (length (marshal_column_idxs [] (e_order e (sw_column_idxs F))))\<rparr>)"
      "\<forall>(c, s) \<in> set (sw_column_idxs F). \<forall>name. names_at (column_names (sw_generator F)) c name \<longrightarrow> mp name = Some s"
    using idxs_read [OF o io nl sc(2,3)] by blast
  let ?sr = "?opn\<lparr>sr_column_names := column_names (sw_generator F),
      sr_column_names_reader := \<lparr>r_rest = Some [], bytes_read = of_nat (length (marshal_column_names ?z [] (column_names (sw_generator F))))\<rparr>,
      sr_column_idxs := mp, sr_column_idxs_reader := \<lparr>r_rest = Some [], bytes_read = of_nat (length (marshal_column_idxs [] (e_order e (sw_column_idxs F))))\<rparr>\<rparr>"
  have rd: "sr_column_names_reader ?opn = new_reader (contents (sw_column_names_writer F))" "sr_column_idxs_reader ?opn = new_reader (contents (sw_column_idxs_writer F))"
      "sr_bloom_values_shards ?opn = map (buffer_reader True) (pt_field_bloom_values ?pt)" "sr_part_format_version ?opn = 3"
    using f(14) by (simp_all add: open_readers_def reader_if_def PART_FORMAT_LATEST_VERSION_def part_of_def)
  have sri: "sr_init ?z ?opn = Ok ?sr"
    using names_read [OF z gi nl f(12)] mp(1) rd unfolding sr_init_def c by simp
  have "unmarshal_index_block_headers [] (concat (map (ih_marshal []) (map fst gs))) = Ok ([] @ map fst gs)"
    by (rule unmarshal_index_block_headers_marshal) (use group_headers_sorted [OF f(3)] f(4) in simp)
  then have mi: "must_read_index_block_headers ?z (sr_metaindex_reader ?sr) = Ok (map fst gs, \<lparr>r_rest = Some [], bytes_read = bytes_written (sw_metaindex_writer F)\<rparr>)"
    using z c(1) bw(1) by (simp add: must_read_index_block_headers_def read_all_def open_readers_def part_of_def new_reader_def compress_zstd_level_def zstd_ok_def comp_def)
  let ?bsr = "\<lparr>bsr_block_data = bd_default, bsr_ph = ph, bsr_stream_readers = ?sr\<lparr>sr_metaindex_reader := \<lparr>r_rest = Some [], bytes_read = bytes_written (sw_metaindex_writer F)\<rparr>\<rparr>,
        bsr_index_block_headers = map fst gs, bsr_block_headers = [], bsr_next_index_block_idx = 0, bsr_next_block_idx = 0,
        bsr_global_uncompressed_size_bytes = 0, bsr_global_rows_count = 0, bsr_global_blocks_count = 0,
        bsr_sid_last = stream_id_zero, bsr_min_timestamp_last = 0\<rparr>"
  have ph: "pt_ph ?pt = ph" by (simp add: part_of_def)
  have ini: "bsr_init ?z inmemory ?pt = Ok ?bsr" using sri mi unfolding bsr_init_def ph by simp
  have ws: "writer_ok (sw_timestamps_writer F)" "writer_ok (sw_columns_header_writer F)" "writer_ok (sw_columns_header_index_writer F)" "bw_ok (sw_message_bloom_values_writer F)"
    using f(1) by (simp_all add: sw_inv_def)
  have ns: "names_sync ?G ?sr" using mp(2) rd sc(1) f(14) by (simp add: names_sync_def pad_fields PART_FORMAT_LATEST_VERSION_def)
  have "values_sync (sw_init f m) ?G ?sr"
    using bsync_new [OF ws(4)] open_shards [OF f(1) mx, of _ ph] rd(3) sc(1)
    by (simp add: values_sync_def sw_init_fields pad_fields) (simp add: open_readers_def part_of_def)
  moreover have "sync (writer_init []) (sw_timestamps_writer F) (sr_timestamps_reader ?sr)" "sync (writer_init []) (sw_columns_header_writer F) (sr_columns_header_reader ?sr)"
      "sync (writer_init []) (sw_columns_header_index_writer F) (sr_columns_header_index_reader ?sr)"
    using sync_new ws f(14) by (simp_all add: open_readers_def part_of_def reader_if_def PART_FORMAT_LATEST_VERSION_def)
  ultimately have is1: "in_sync (sw_init f m) ?G ?sr" using ns by (simp add: in_sync_def sw_init_fields pad_fields)
  have rb: "reads_back (e_xxh64 e) ?G (sw_init f m) ?bhs bds F" by (rule f(13) [OF pad_le [OF f(1)]])
  have u: "unat (ph_uncompressed_size_bytes ph) = sum_list (map (\<lambda>bh. unat (bh_uncompressed_size_bytes bh)) ?bhs)"
      "unat (ph_rows_count ph) = sum_list (map (\<lambda>bh. unat (bh_rows_count bh)) ?bhs)" "unat (ph_blocks_count ph) = length ?bhs"
  proof -
    show "unat (ph_uncompressed_size_bytes ph) = sum_list (map (\<lambda>bh. unat (bh_uncompressed_size_bytes bh)) ?bhs)"
      "unat (ph_rows_count ph) = sum_list (map (\<lambda>bh. unat (bh_rows_count bh)) ?bhs)"
      using unat_sum_list [of bd_uncompressed_size_bytes bds] unat_sum_list [of bd_rows_count bds] fit
      unfolding f(15,16) described_sums [OF f(6)] described_maps [OF f(6)] by (simp_all add: blocks_fit_def)
    show "unat (ph_blocks_count ph) = length ?bhs"
      using f(17) fit list_all2_lengthD [OF f(6)] by (simp add: blocks_fit_def unat_of_nat take_bit_nat_eq_self)
  qed
  have gb: "\<not> ih_min_timestamp ih <s ph_min_timestamp ph \<and> \<not> ph_max_timestamp ph <s ih_max_timestamp ih" if g: "(ih, bhs) \<in> set gs" for ih bhs
  proof -
    note b = groups_bounds [OF f(3) g]
    have sub: "set bhs \<subseteq> set ?bhs" using g by force
    then have "?bhs \<noteq> []" using b by force
    then show ?thesis using ts_bounds_sub [OF f(18) _ sub] b by blast
  qed
  have ix: "contents (sw_index_writer F) = index_contents ?z gs" using f(7) by (simp add: contents_def)
  have "reader_rel e ph ?G F ?bsr bds gs []"
    unfolding reader_rel_def Let_def
  proof (intro conjI)
    show "\<exists>sw. in_sync sw ?G (bsr_stream_readers ?bsr) \<and> reads_back (e_xxh64 e) ?G sw ([] @ ?bhs) bds F"
      using is1 rb by auto
    show "\<exists>h. bsr_sid_last ?bsr = bh_stream_id h \<and> bsr_min_timestamp_last ?bsr = th_min_timestamp (bh_timestamps_header h) \<and> sorted_wrt bh_le (h # [] @ ?bhs)"
      using f(4) by (intro exI [of _ bh_default]) (simp add: bh_default_def th_default_def)
    show "\<forall>(ih, g) \<in> set gs. \<not> ih_min_timestamp ih <s ph_min_timestamp ph \<and> \<not> ph_max_timestamp ph <s ih_max_timestamp ih"
      using gb by blast
  qed (use f(3,5,7) u bw ix in \<open>simp_all add: open_readers_def part_of_def new_reader_def buffer_reader_def reader_if_def no_reader_def br_total_bytes_read_def PART_FORMAT_LATEST_VERSION_def f(14)\<close>)
  then show ?thesis using ini by blast
qed

subsection \<open>Reading on\<close>

lemma drop_eq_ConsD:
  assumes "drop i xs = y # ys"
  shows "i < length xs" "xs ! i = y" "drop (Suc i) xs = ys"
proof -
  show l: "i < length xs" using assms by (metis drop_eq_Nil list.discI not_less)
  show "xs ! i = y" "drop (Suc i) xs = ys" using assms Cons_nth_drop_Suc [OF l] by simp_all
qed

lemma index_block_read:
  assumes r: "reader_rel e ph G T bsr bds ((ih, bhs) # gs) []" and z: "zstd_ok (e_zstd e)" and v: "ph_format_version ph = PART_FORMAT_LATEST_VERSION"
  shows "\<exists>bsr'. next_index_block (e_zstd e) bsr = Ok (True, bsr') \<and> reader_rel e ph G T bsr' bds gs bhs"
proof -
  let ?z = "e_zstd e" and ?sr = "bsr_stream_readers bsr" and ?ir = "sr_index_reader (bsr_stream_readers bsr)" and ?b = "index_bytes (e_zstd e) bhs"
  have ix: "drop (bsr_next_index_block_idx bsr) (bsr_index_block_headers bsr) = ih # map fst gs" "bsr_ph bsr = ph" using r by (simp_all add: reader_rel_def Let_def)
  have g: "bhs \<noteq> []" "ts_bounds (ih_min_timestamp ih) (ih_max_timestamp ih) bhs" "ih_index_block_offset ih = bytes_read ?ir"
      "ih_index_block_size ih = of_nat (length ?b)" "length ?b \<le> MAX_INDEX_BLOCK_SIZE" "groups_at ?z (bytes_read ?ir + of_nat (length ?b)) gs"
      "r_rest ?ir = Some (?b @ index_contents ?z gs)"
      "\<not> ih_min_timestamp ih <s ph_min_timestamp ph" "\<not> ph_max_timestamp ph <s ih_max_timestamp ih"
    using r by (simp_all add: reader_rel_def Let_def index_contents_def)
  have hd: "sorted_wrt bh_le bhs" "list_all bh_valid bhs" using r by (auto simp: reader_rel_def Let_def sorted_wrt_append)
  have un: "unat (ih_index_block_size ih) = length ?b" "\<not> ih_index_block_size ih > of_nat MAX_INDEX_BLOCK_SIZE"
    using g(4,5) by (simp_all add: MAX_INDEX_BLOCK_SIZE_def unat_of_nat take_bit_nat_eq_self word_less_nat_alt)
  let ?r = "?ir\<lparr>r_rest := Some (index_contents ?z gs), bytes_read := bytes_read ?ir + of_nat (length ?b)\<rparr>"
  have rd: "must_read_next_index_block ?z ih ?sr = Ok (concat (map (bh_marshal []) bhs), ?sr\<lparr>sr_index_reader := ?r\<rparr>)"
    using un g(3,7) z by (simp add: must_read_next_index_block_def must_read_full_def Let_def zstd_ok_def index_bytes_def)
  have "unmarshal_block_headers [] (concat (map (bh_marshal []) bhs)) (ph_format_version ph) = Ok bhs"
    using read_block_headers_marshal [OF hd(2), of "ph_format_version ph"] validate_block_headers_iff [of 1 bhs] hd(1) v
    by (simp add: unmarshal_block_headers_def PART_FORMAT_LATEST_VERSION_def)
  then have n: "next_index_block ?z bsr = Ok (True, bsr\<lparr>bsr_stream_readers := ?sr\<lparr>sr_index_reader := ?r\<rparr>, bsr_block_headers := bhs,
      bsr_next_index_block_idx := bsr_next_index_block_idx bsr + 1, bsr_next_block_idx := 0\<rparr>)"
    using drop_eq_ConsD [OF ix(1)] ix(2) rd g(8,9) by (simp add: next_index_block_def Let_def)
  moreover have "reader_rel e ph G T (bsr\<lparr>bsr_stream_readers := ?sr\<lparr>sr_index_reader := ?r\<rparr>, bsr_block_headers := bhs,
      bsr_next_index_block_idx := bsr_next_index_block_idx bsr + 1, bsr_next_block_idx := 0\<rparr>) bds gs bhs"
    using r drop_eq_ConsD [OF ix(1)] g(2,6) by (simp add: reader_rel_def Let_def ts_bounds_def index_contents_def add.assoc)
  ultimately show ?thesis by blast
qed

lemma sync_totals:
  assumes "in_sync T G sr" "length (sw_bloom_values_shards G) = length (sr_bloom_values_shards sr)" "\<forall>i \<ge> length (sw_bloom_values_shards T). shard_of T i = no_shard"
  shows "bytes_read (sr_columns_header_index_reader sr) = bytes_written (sw_columns_header_index_writer T)"
    "bytes_read (sr_columns_header_reader sr) = bytes_written (sw_columns_header_writer T)"
    "bytes_read (sr_timestamps_reader sr) = bytes_written (sw_timestamps_writer T)"
    "br_total_bytes_read (sr_message_bloom_values_reader sr) = bw_total_bytes_written (sw_message_bloom_values_writer T)"
    "map br_total_bytes_read (sr_bloom_values_shards sr) = map (\<lambda>i. bw_total_bytes_written (shard_of T i)) [0..<length (sw_bloom_values_shards G)]"
proof -
  have b: "bsync w F r \<Longrightarrow> br_total_bytes_read r = bw_total_bytes_written w" for w F r
    using sync_bytes by (fastforce simp: bsync_def br_total_bytes_read_def bw_total_bytes_written_def)
  show "bytes_read (sr_columns_header_index_reader sr) = bytes_written (sw_columns_header_index_writer T)"
    "bytes_read (sr_columns_header_reader sr) = bytes_written (sw_columns_header_writer T)"
    "bytes_read (sr_timestamps_reader sr) = bytes_written (sw_timestamps_writer T)"
    using assms(1) sync_bytes by (auto simp: in_sync_def)
  show "br_total_bytes_read (sr_message_bloom_values_reader sr) = bw_total_bytes_written (sw_message_bloom_values_writer T)"
    using assms(1) b by (auto simp: in_sync_def values_sync_def)
  show "map br_total_bytes_read (sr_bloom_values_shards sr) = map (\<lambda>i. bw_total_bytes_written (shard_of T i)) [0..<length (sw_bloom_values_shards G)]"
    using assms(1,2) b by (auto simp: in_sync_def values_sync_def intro!: nth_equalityI)
qed

lemma index_end:
  assumes r: "reader_rel e ph (pad_shards inmemory F) F bsr [] [] []" and c: "ph_compressed_size_bytes ph = sw_total_bytes_written F"
  shows "next_index_block (e_zstd e) bsr = Ok (False, bsr)"
proof -
  let ?sr = "bsr_stream_readers bsr" and ?G = "pad_shards inmemory F"
  have s: "in_sync F ?G ?sr" using r by (auto simp: reader_rel_def Let_def)
  have l: "length (sw_bloom_values_shards ?G) = length (sr_bloom_values_shards ?sr)" using s by (simp add: in_sync_def names_sync_def)
  have nz: "\<forall>i \<ge> length (sw_bloom_values_shards F). shard_of F i = no_shard" by (simp add: shard_of_def)
  note t = sync_totals [OF s l nz]
  have sh: "sum_list (map br_total_bytes_read (sr_bloom_values_shards ?sr)) = sum_list (map bw_total_bytes_written (sw_bloom_values_shards F))"
  proof -
    have "map (\<lambda>i. bw_total_bytes_written (shard_of F i)) [0..<length (sw_bloom_values_shards F)] = map bw_total_bytes_written (sw_bloom_values_shards F)"
      by (auto simp: shard_of_def intro!: nth_equalityI)
    moreover have "bw_total_bytes_written no_shard = 0" by (simp add: bw_total_bytes_written_def no_shard_def writer_init_def)
    ultimately show ?thesis unfolding t(5) by (auto simp: pad_shards_def shard_of_def)
  qed
  have "bytes_read (sr_index_reader ?sr) = bytes_written (sw_index_writer F)" "br_total_bytes_read (sr_old_bloom_values_reader ?sr) = 0"
      "bytes_read (sr_column_names_reader ?sr) = bytes_written (sw_column_names_writer F)" "bytes_read (sr_column_idxs_reader ?sr) = bytes_written (sw_column_idxs_writer F)"
      "bytes_read (sr_metaindex_reader ?sr) = bytes_written (sw_metaindex_writer F)"
    using r by (simp_all add: reader_rel_def Let_def index_contents_def)
  then have tot: "sr_total_bytes_read ?sr = sw_total_bytes_written F" using t(1-4) sh by (simp add: sr_total_bytes_read_def sw_total_bytes_written_def)
  have "bsr_ph bsr = ph" "bsr_next_index_block_idx bsr \<ge> length (bsr_index_block_headers bsr)"
      "ph_uncompressed_size_bytes ph = bsr_global_uncompressed_size_bytes bsr" "ph_rows_count ph = bsr_global_rows_count bsr" "ph_blocks_count ph = bsr_global_blocks_count bsr"
    using r by (simp_all add: reader_rel_def Let_def word_unat_eq_iff)
  then show ?thesis using tot c by (simp add: next_index_block_def Let_def)
qed

lemma bh_leD:
  assumes "bh_le a b"
  shows "\<not> bh_stream_id b < bh_stream_id a" "\<not> (bh_stream_id b = bh_stream_id a \<and> th_min_timestamp (bh_timestamps_header b) <s th_min_timestamp (bh_timestamps_header a))"
proof -
  have s: "(x \<le>s y) \<Longrightarrow> \<not> y <s x" for x y :: i64 by (simp add: word_sless_alt word_sle_eq)
  consider "bh_stream_id a < bh_stream_id b" | "bh_stream_id a = bh_stream_id b" "th_min_timestamp (bh_timestamps_header a) \<le>s th_min_timestamp (bh_timestamps_header b)"
    using assms unfolding bh_le_def by blast
  note c = this
  show "\<not> bh_stream_id b < bh_stream_id a" using c by cases (simp_all add: order.asym)
  show "\<not> (bh_stream_id b = bh_stream_id a \<and> th_min_timestamp (bh_timestamps_header b) <s th_min_timestamp (bh_timestamps_header a))"
    using c s by cases auto
qed

lemma block_read:
  assumes r: "reader_rel e ph G T bsr (bd # bds) gs (bh # cur)"
  shows "\<exists>bsr'. next_block e bsr = Ok (True, bsr') \<and> bsr_block_data bsr' = bd \<and> reader_rel e ph G T bsr' bds gs cur"
proof -
  let ?sr = "bsr_stream_readers bsr" and ?bhs = "cur @ concat (map snd gs)" and ?th = "bh_timestamps_header bh"
  let ?ih = "bsr_index_block_headers bsr ! (bsr_next_index_block_idx bsr - 1)"
  have d: "drop (bsr_next_block_idx bsr) (bsr_block_headers bsr) = bh # cur" and phb: "bsr_ph bsr = ph" using r by (simp_all add: reader_rel_def Let_def)
  note ix = drop_eq_ConsD [OF d]
  have seek: "seek_block (e_zstd e) bsr = Ok (True, bsr)" using ix(1) by (simp add: seek_block.simps)
  obtain sw sw1 where s: "in_sync sw G ?sr" "reads_one (e_xxh64 e) G sw bh bd sw1" "reads_back (e_xxh64 e) G sw1 ?bhs bds T"
    using r by (auto simp: reader_rel_def Let_def)
  obtain sr' where sr': "bd_must_read_from (e_xxh64 e) bh ?sr = Ok (bd, sr')" "in_sync sw1 G sr'" "index_readers sr' = index_readers ?sr"
    using s(1,2) by (auto simp: reads_one_def)
  obtain h where h: "bsr_sid_last bsr = bh_stream_id h" "bsr_min_timestamp_last bsr = th_min_timestamp (bh_timestamps_header h)" "sorted_wrt bh_le (h # bh # ?bhs)"
    using r by (auto simp: reader_rel_def Let_def)
  have le: "bh_le h bh" using h(3) by simp
  have o: "\<not> stream_id_less (bh_stream_id bh) (bsr_sid_last bsr)" "\<not> (stream_id_equal (bh_stream_id bh) (bsr_sid_last bsr) \<and> th_min_timestamp ?th <s bsr_min_timestamp_last bsr)"
    unfolding stream_id_less_iff stream_id_equal_iff h(1,2) using bh_leD [OF le] by simp_all
  have b: "\<not> th_min_timestamp ?th <s ih_min_timestamp ?ih" "\<not> ih_max_timestamp ?ih <s th_max_timestamp ?th"
  proof -
    have "ih_min_timestamp ?ih \<le>s th_min_timestamp ?th \<and> th_max_timestamp ?th \<le>s ih_max_timestamp ?ih" using r by (simp add: reader_rel_def Let_def)
    then show "\<not> th_min_timestamp ?th <s ih_min_timestamp ?ih" "\<not> ih_max_timestamp ?ih <s th_max_timestamp ?th" by (simp_all add: word_sless_alt word_sle_eq)
  qed
  have q: "unat (bsr_global_uncompressed_size_bytes bsr) + unat (bh_uncompressed_size_bytes bh) + sum_list (map (\<lambda>bh. unat (bh_uncompressed_size_bytes bh)) ?bhs) = unat (ph_uncompressed_size_bytes ph)"
      "unat (bsr_global_rows_count bsr) + unat (bh_rows_count bh) + sum_list (map (\<lambda>bh. unat (bh_rows_count bh)) ?bhs) = unat (ph_rows_count ph)"
      "unat (bsr_global_blocks_count bsr) + 1 + length ?bhs = unat (ph_blocks_count ph)"
    using r by (simp_all add: reader_rel_def Let_def)
  have u: "unat (bsr_global_uncompressed_size_bytes bsr + bh_uncompressed_size_bytes bh) = unat (bsr_global_uncompressed_size_bytes bsr) + unat (bh_uncompressed_size_bytes bh)"
      "unat (bsr_global_rows_count bsr + bh_rows_count bh) = unat (bsr_global_rows_count bsr) + unat (bh_rows_count bh)"
      "unat (bsr_global_blocks_count bsr + 1) = unat (bsr_global_blocks_count bsr) + 1"
    using q unsigned_less [of "ph_uncompressed_size_bytes ph", where ?'a = nat] unsigned_less [of "ph_rows_count ph", where ?'a = nat] unsigned_less [of "ph_blocks_count ph", where ?'a = nat]
    unat_add_lem [of "bsr_global_uncompressed_size_bytes bsr" "bh_uncompressed_size_bytes bh"] unat_add_lem [of "bsr_global_rows_count bsr" "bh_rows_count bh"]
      unat_add_lem [of "bsr_global_blocks_count bsr" 1]
    by simp_all
  have lim: "\<not> bsr_global_uncompressed_size_bytes bsr + bh_uncompressed_size_bytes bh > ph_uncompressed_size_bytes ph"
      "\<not> bsr_global_rows_count bsr + bh_rows_count bh > ph_rows_count ph" "\<not> bsr_global_blocks_count bsr + 1 > ph_blocks_count ph"
    using q u by (simp_all add: word_less_nat_alt)
  let ?bsr' = "bsr\<lparr>bsr_min_timestamp_last := th_min_timestamp ?th, bsr_sid_last := bh_stream_id bh, bsr_block_data := bd, bsr_stream_readers := sr',
      bsr_global_uncompressed_size_bytes := bsr_global_uncompressed_size_bytes bsr + bh_uncompressed_size_bytes bh,
      bsr_global_rows_count := bsr_global_rows_count bsr + bh_rows_count bh, bsr_global_blocks_count := bsr_global_blocks_count bsr + 1,
      bsr_next_block_idx := bsr_next_block_idx bsr + 1\<rparr>"
  have nb: "next_block e bsr = Ok (True, ?bsr')"
    using seek ix(2) o b sr'(1) lim phb by (simp add: next_block_def Let_def panic_if_def)
  have ir: "sr_index_reader sr' = sr_index_reader ?sr" "sr_metaindex_reader sr' = sr_metaindex_reader ?sr" "sr_column_names_reader sr' = sr_column_names_reader ?sr"
      "sr_column_idxs_reader sr' = sr_column_idxs_reader ?sr" "sr_old_bloom_values_reader sr' = sr_old_bloom_values_reader ?sr"
    using sr'(3) by (simp_all add: index_readers_def)
  have "reader_rel e ph G T ?bsr' bds gs cur"
    using r ix(3) ir sr'(2) s(3) h(3) q u unfolding reader_rel_def Let_def by auto
  then show ?thesis using nb by (intro exI [of _ ?bsr']) simp
qed

lemma blocks_read:
  assumes "reader_rel e ph (pad_shards inmemory F) F bsr bds gs cur" "zstd_ok (e_zstd e)" "ph_format_version ph = PART_FORMAT_LATEST_VERSION"
    and "ph_compressed_size_bytes ph = sw_total_bytes_written F" "length bds < n"
  shows "read_blocks e n bsr = Ok bds"
  using assms(1,5)
proof (induction n arbitrary: bsr bds gs cur)
  case (Suc n)
  have step: "read_blocks e (Suc n) bsr' = Ok bds" if r: "reader_rel e ph (pad_shards inmemory F) F bsr' bds gs' (bh # cur')" for bsr' gs' bh cur'
  proof -
    obtain bd bds' where bds: "bds = bd # bds'" using r by (cases bds) (auto simp: reader_rel_def Let_def)
    then show ?thesis using block_read [of e ph _ F bsr' bd bds' gs' bh cur'] r Suc by fastforce
  qed
  show ?case
  proof (cases cur)
    case (Cons bh cur')
    then show ?thesis using step Suc.prems(1) by simp
  next
    case Nil
    then have d: "drop (bsr_next_block_idx bsr) (bsr_block_headers bsr) = []" using Suc.prems(1) by (simp add: reader_rel_def Let_def)
    show ?thesis
    proof (cases gs)
      case gn: Nil
      then have "bds = []" using Suc.prems(1) \<open>cur = []\<close> by (cases bds) (auto simp: reader_rel_def Let_def)
      then have "next_index_block (e_zstd e) bsr = Ok (False, bsr)" using index_end [OF _ assms(4)] Suc.prems(1) gn \<open>cur = []\<close> by simp
      then show ?thesis using d \<open>bds = []\<close> by (simp add: next_block_def seek_block.simps [of _ bsr])
    next
      case (Cons g gs')
      obtain ih bhs where g: "g = (ih, bhs)" by (cases g)
      then obtain bsr1 where b1: "next_index_block (e_zstd e) bsr = Ok (True, bsr1)" "reader_rel e ph (pad_shards inmemory F) F bsr1 bds gs' bhs"
        using index_block_read [OF _ assms(2,3)] Suc.prems(1) Cons \<open>cur = []\<close> by blast
      obtain bh bhs' where "bhs = bh # bhs'" using Suc.prems(1) Cons g by (cases bhs) (auto simp: reader_rel_def Let_def)
      then have "read_blocks e (Suc n) bsr1 = Ok bds" using step b1(2) by simp
      moreover have "seek_block (e_zstd e) bsr = seek_block (e_zstd e) bsr1" using b1(1) d by (simp add: seek_block.simps [of _ bsr])
      ultimately show ?thesis by (simp add: next_block_def)
    qed
  qed
qed simp

subsection \<open>Parts are read as they were written\<close>

lemma fresh_writer_rel:
  assumes "f = FileFactory \<and> 0 < m \<or> f = Inmemory True \<and> m = 1"
  shows "writer_rel e (sw_init f m) (bsw_reset (sw_init f m)) [] [] []"
proof -
  have "index_rel (e_zstd e) (bsw_reset (sw_init f m)) [] []"
    by (simp add: index_rel_def bsw_reset_def index_contents_def sw_init_def writer_init_def)
  moreover have "totals_rel (bsw_reset (sw_init f m)) []"
    by (simp add: totals_rel_def bsw_reset_def bh_default_def th_default_def)
  ultimately show ?thesis
    using sw_init_inv [OF assms]
    by (simp add: writer_rel_def Let_def all_headers_def bsw_reset_def idle_def) (simp add: sw_init_def generator_default_def)
qed

lemma finished_metadata:
  assumes "finished e sw0 bds gs ph F" "list_all (storable e) bds" "blocks_fit bds"
  shows "check_metadata ph = Ok ph" "unat (ph_bloom_values_shards_count ph) = length (sw_bloom_values_shards F)"
proof -
  let ?bhs = "concat (map snd gs)"
  have f: "ph_format_version ph = 3" "ph_rows_count ph = sum_list (map bd_rows_count bds)" "ph_blocks_count ph = of_nat (length bds)"
      "?bhs = [] \<Longrightarrow> ph_min_timestamp ph = 0 \<and> ph_max_timestamp ph = 0" "?bhs \<noteq> [] \<Longrightarrow> ts_bounds (ph_min_timestamp ph) (ph_max_timestamp ph) ?bhs"
      "ph_bloom_values_shards_count ph = of_nat (length (sw_bloom_values_shards F))" "list_all2 describes ?bhs bds" "sw_inv F"
    using assms(1) described_maps(1) [of ?bhs bds] list_all2_lengthD [of describes ?bhs bds]
    by (auto simp: finished_def Let_def PART_FORMAT_LATEST_VERSION_def)
  have rows: "length bds \<le> sum_list (map (\<lambda>bd. unat (bd_rows_count bd)) bds)"
    using assms(2)
  proof (induction bds)
    case (Cons bd bds)
    then have "0 < unat (bd_rows_count bd)" by (simp add: storable_def unat_gt_0)
    then show ?case using Cons by simp
  qed simp
  have "unat (ph_rows_count ph) = sum_list (map (\<lambda>bd. unat (bd_rows_count bd)) bds)"
    unfolding f(2) using assms(3) by (intro unat_sum_list) (simp add: blocks_fit_def)
  moreover have "unat (ph_blocks_count ph) = length bds" using f(3) assms(3) by (simp add: blocks_fit_def unat_of_nat take_bit_nat_eq_self)
  ultimately have b: "\<not> ph_blocks_count ph > ph_rows_count ph" using rows by (simp add: word_less_nat_alt)
  have t: "\<not> ph_max_timestamp ph <s ph_min_timestamp ph"
  proof (cases "?bhs = []")
    case False
    then obtain bh bd where m: "bh \<in> set ?bhs" "bd \<in> set bds" "describes bh bd"
      using f(7) by (cases ?bhs; cases bds) auto
    then have "th_min_timestamp (bh_timestamps_header bh) \<le>s th_max_timestamp (bh_timestamps_header bh)"
      using assms(2) by (auto simp: list_all_iff storable_def describes_def)
    moreover have "ph_min_timestamp ph \<le>s th_min_timestamp (bh_timestamps_header bh)" "th_max_timestamp (bh_timestamps_header bh) \<le>s ph_max_timestamp ph"
      using f(5) [OF False] m(1) by (auto simp: ts_bounds_def)
    ultimately show ?thesis by (simp add: word_sless_alt word_sle_eq)
  qed (use f(4) in simp)
  show "check_metadata ph = Ok ph" using f(1) b t by (simp add: check_metadata_def PART_FORMAT_LATEST_VERSION_def)
  have "length (sw_bloom_values_shards F) \<le> unat (sw_max_shards F)" using f(8) by (simp add: sw_inv_def)
  then show "unat (ph_bloom_values_shards_count ph) = length (sw_bloom_values_shards F)"
    unfolding f(6) using unsigned_less [of "sw_max_shards F", where ?'a = nat] by (simp add: unat_of_nat take_bit_nat_eq_self)
qed

lemma part_written_read:
  assumes "zstd_ok (e_zstd e)" "order_ok e" "list_all (storable e) bds" "sorted_wrt bd_le (bd_default # bds)" "blocks_fit bds"
  shows "\<exists>bsw ph sw bsr.
    write_blocks e bds (if inmemory then must_init_for_inmemory_part else must_init_for_file_part) = Ok bsw \<and> finalize e bsw = Ok (ph, sw) \<and>
    (if inmemory then must_init_from_inmemory_part else must_init_from_file_part) (e_zstd e) (part_of inmemory ph sw) = Ok bsr \<and>
    (\<forall>n > length bds. read_blocks e n bsr = Ok bds) \<and>
    ph_blocks_count ph = of_nat (length bds) \<and> ph_rows_count ph = sum_list (map bd_rows_count bds)"
proof -
  define f where "f = (if inmemory then Inmemory True else FileFactory)"
  define m :: u64 where "m = (if inmemory then 1 else of_nat BLOOM_VALUES_MAX_SHARDS_COUNT)"
  have fm: "f = FileFactory \<and> 0 < m \<or> f = Inmemory True \<and> m = 1" by (simp add: f_def m_def BLOOM_VALUES_MAX_SHARDS_COUNT_def)
  have start: "(if inmemory then must_init_for_inmemory_part else must_init_for_file_part) = bsw_reset (sw_init f m)"
    by (simp add: must_init_for_inmemory_part_def must_init_for_file_part_def f_def m_def)
  obtain bsw gs pend where w: "write_blocks e bds (bsw_reset (sw_init f m)) = Ok bsw" "writer_rel e (sw_init f m) bsw bds gs pend"
    using write_blocks_rel [OF fresh_writer_rel [OF fm] assms(1,3)] assms(4,5) by auto
  obtain ph F gs' where fin: "finalize e bsw = Ok (ph, F)" "finished e (sw_init f m) bds gs' ph F"
    using finalize_finished [OF w(2) assms(1)] by blast
  have m1: "inmemory \<longrightarrow> m = 1" by (simp add: m_def)
  obtain bsr where r: "bsr_init (e_zstd e) inmemory (part_of inmemory ph F) = Ok bsr" "reader_rel e ph (pad_shards inmemory F) F bsr bds gs' []"
    using open_finished [OF fin(2) assms(1,2,5) m1] by blast
  note md = finished_metadata [OF fin(2) assms(3,5)]
  have "(if inmemory then must_init_from_inmemory_part else must_init_from_file_part) (e_zstd e) (part_of inmemory ph F) = Ok bsr"
    using r(1) md by (cases inmemory) (simp_all add: must_init_from_inmemory_part_def must_init_from_file_part_def part_of_def)
  moreover have ph: "ph_format_version ph = PART_FORMAT_LATEST_VERSION" "ph_compressed_size_bytes ph = sw_total_bytes_written F"
      "ph_blocks_count ph = of_nat (length bds)" "ph_rows_count ph = sum_list (map bd_rows_count bds)"
    using fin(2) list_all2_lengthD [of describes "concat (map snd gs')" bds] described_maps(1) [of "concat (map snd gs')" bds]
    by (auto simp: finished_def Let_def)
  moreover have "read_blocks e n bsr = Ok bds" if "n > length bds" for n
    by (rule blocks_read [OF r(2) assms(1) ph(1,2) that])
  ultimately show ?thesis using w(1) fin(1) unfolding start by blast
qed

text \<open>C7: A part is read as it was written. Any sequence of valid blocks, ordered by stream and first
  timestamp, that is written to a fresh part (in memory, with one shard of values and bloom filters,
  or in files, with up to 128) and finalized, can be opened again; reading it gives exactly the
  blocks that were written, in order, and then the end. No check of the writer or the reader panics:
  offsets, sizes, orders, time ranges of index blocks and the totals of the part header all agree.
  This holds for every lawful zstd library, hash function and iteration order of the hash map. Two limits: a block of the
  all-zero stream does not start before the epoch (a fresh writer takes it for out of order and panics),
  and the part header is handed from the writer to the reader as a record, without its JSON form.\<close>

theorem part_roundtrip:
  assumes "zstd_ok (e_zstd e)" "order_ok e" "list_all (storable e) bds" "sorted_wrt bd_le (bd_default # bds)" "blocks_fit bds"
  shows "\<exists>bsw ph sw bsr.
    write_blocks e bds (if inmemory then must_init_for_inmemory_part else must_init_for_file_part) = Ok bsw \<and> finalize e bsw = Ok (ph, sw) \<and>
    (if inmemory then must_init_from_inmemory_part else must_init_from_file_part) (e_zstd e) (part_of inmemory ph sw) = Ok bsr \<and>
    (\<forall>n > length bds. read_blocks e n bsr = Ok bds) \<and>
    ph_blocks_count ph = of_nat (length bds) \<and> ph_rows_count ph = sum_list (map bd_rows_count bds)"
  using part_written_read [OF assms] .

definition env_demo :: "u64 env" where
  "env_demo = \<lparr>e_zstd = stored, e_f64 = demo_f64, e_xxh64 = (\<lambda>b. from_be_bytes b), e_letter_or_digit = (\<lambda>_. False), e_order = (\<lambda>es. es)\<rparr>"

definition bd_demo :: "i64 \<Rightarrow> BlockData" where
  "bd_demo t = bd_default\<lparr>bd_rows_count := 2, bd_uncompressed_size_bytes := 90,
     bd_timestamps_data := \<lparr>td_data = [1, 2], td_marshal_type = 1, td_min_timestamp = t, td_max_timestamp = t + 1\<rparr>,
     bd_columns_data := [\<lparr>cd_name = [97], cd_value_type = UINT16, cd_min_value = 5, cd_max_value = 700, cd_values_dict = \<lparr>dict_values = []\<rparr>,
       cd_values_data = [0, 5, 2, 188], cd_bloom_filter_data = [9]\<rparr>], bd_const_columns := [Field [98] [99]]\<rparr>"

lemma bd_demo_storable: "t = 0 \<or> t = 5 \<Longrightarrow> storable env_demo (bd_demo t)"
  by (auto simp: storable_def bd_valid_def td_valid_def cd_valid_def cd_header_def ch_valid_def bd_demo_def bd_default_def env_demo_def VALUE_TYPES_def ch_default_def
      min_above_max_def bounds_width_def field_small_def const_bytes_def bd_names_def marshal_bytes_def codec_simps varint_bytes_small value_type_defs MAX_VALUES_BLOCK_SIZE_def
      MAX_BLOOM_FILTER_BLOCK_SIZE_def MAX_COLUMNS_PER_BLOCK_def MAX_TIMESTAMPS_BLOCK_SIZE_def MAX_ROWS_PER_BLOCK_def word_sle_eq)

theorem part_roundtrip_witness:
  "\<exists>bsw ph sw bsr. write_blocks env_demo [bd_demo 0, bd_demo 5] must_init_for_file_part = Ok bsw \<and> finalize env_demo bsw = Ok (ph, sw) \<and>
    must_init_from_file_part stored (part_of False ph sw) = Ok bsr \<and> read_blocks env_demo 3 bsr = Ok [bd_demo 0, bd_demo 5]"
proof -
  have s: "list_all (storable env_demo) [bd_demo 0, bd_demo 5]" by (simp add: bd_demo_storable)
  have o: "sorted_wrt bd_le [bd_default, bd_demo 0, bd_demo 5]" by (simp add: bd_le_def bd_demo_def bd_default_def word_sle_eq)
  have f: "blocks_fit [bd_demo 0, bd_demo 5]" by (simp add: blocks_fit_def bd_demo_def)
  have z: "zstd_ok (e_zstd env_demo)" "order_ok env_demo" "e_zstd env_demo = stored" by (simp_all add: env_demo_def order_ok_def)
  show ?thesis using part_roundtrip [OF z(1,2) s o f, of False] z(3) by auto
qed
end
