(* ===== verification/Row_Parts.thy ===== *)
theory Row_Parts
  imports Parts "HOL-Library.Product_Lexorder"
begin

text \<open>
  From rows to parts and back: \<open>LogRowsInternal\<close> of \<^verbatim>\<open>log_rows.rs\<close> (the rows collected for a part, their sort) and
  \<open>InmemoryPart::must_init_from_rows\<close> of \<^verbatim>\<open>inmemory_part.rs\<close>, which cuts the sorted rows into blocks by stream and size.
  The lemmas show that writing a block is writing its packed form, that the column headers the
  encoder produces pass the checks of the reader, and that unpacking gives the block back; together
  with the round trip of parts this gives the theorem that an in-memory part holds exactly the rows it
  was filled with.

  The size of the arena is the \<open>usize\<close> counter \<open>a_size_bytes\<close>, here a natural number; the three vectors of a
  \<open>LogRowsInternal\<close> have the same length (\<open>lri_wf\<close>).
\<close>

subsection \<open>Definitions: rows collected for a part\<close>

record LogRowsInternal =
  lri_a_size_bytes :: nat
  lri_stream_ids :: "StreamID list"
  lri_timestamps :: "i64 list"
  lri_rows :: "row list"

definition MAX_UNCOMPRESSED_BLOCK_SIZE :: nat where "MAX_UNCOMPRESSED_BLOCK_SIZE = 2 * 1024 * 1024"

definition lri_default :: LogRowsInternal where
  "lri_default = \<lparr>lri_a_size_bytes = 0, lri_stream_ids = [], lri_timestamps = [], lri_rows = []\<rparr>"

definition lri_reset :: "LogRowsInternal \<Rightarrow> LogRowsInternal" where
  "lri_reset lr = lr\<lparr>lri_a_size_bytes := 0, lri_stream_ids := [], lri_timestamps := [], lri_rows := []\<rparr>"

definition lri_need_flush :: "LogRowsInternal \<Rightarrow> bool" where
  "lri_need_flush lr \<longleftrightarrow> lri_a_size_bytes lr > (MAX_UNCOMPRESSED_BLOCK_SIZE div 8) * 7"

definition get_canonical_field_name_bytes :: "bytes \<Rightarrow> bytes" where
  "get_canonical_field_name_bytes name = (if name = ascii ''_msg'' then [] else name)"

text \<open>One step of the loop over the fields: \<open>dst\<close> is the row being built, \<open>n\<close> the size of the arena.\<close>

definition lri_add_field :: "Field \<Rightarrow> row \<times> nat \<Rightarrow> row \<times> nat" where
  "lri_add_field f = (\<lambda>(dst, n).
    let name = get_canonical_field_name_bytes (field_name f);
        (prev_name_eq, prev_value_eq) =
          (case dst of prev # _ \<Rightarrow> (field_name prev = name, field_value prev = field_value f) | [] \<Rightarrow> (name = [], field_value f = []));
        n = (if \<not> prev_name_eq then n + length name else n);
        n = (if \<not> prev_value_eq then n + length (field_value f) else n)
    in (dst @ [Field name (field_value f)], n))"

definition lri_must_add_row :: "StreamID \<Rightarrow> i64 \<Rightarrow> row \<Rightarrow> LogRowsInternal \<Rightarrow> LogRowsInternal" where
  "lri_must_add_row stream_id timestamp flds lr =
    (let (dst, n) = fold lri_add_field flds ([], lri_a_size_bytes lr)
     in lr\<lparr>lri_stream_ids := lri_stream_ids lr @ [stream_id], lri_timestamps := lri_timestamps lr @ [timestamp],
          lri_a_size_bytes := n, lri_rows := lri_rows lr @ [dst]\<rparr>)"

definition lri_len :: "LogRowsInternal \<Rightarrow> nat" where
  "lri_len lr = length (lri_stream_ids lr)"

definition lri_is_empty :: "LogRowsInternal \<Rightarrow> bool" where
  "lri_is_empty lr \<longleftrightarrow> lri_stream_ids lr = []"

text \<open>
  \<open>sort\<close>. The comparison of two rows, and the unstable library sort: \<open>srt\<close> gives the indexes of the keys in
  some sorted order.
\<close>

type_synonym row_key = "StreamID \<times> i64"

definition row_less :: "row_key \<Rightarrow> row_key \<Rightarrow> bool" where
  "row_less a b = (if \<not> stream_id_equal (fst a) (fst b) then stream_id_less (fst a) (fst b) else snd a <s snd b)"

definition sort_unstable_ok :: "(row_key list \<Rightarrow> nat list) \<Rightarrow> bool" where
  "sort_unstable_ok srt \<longleftrightarrow> (\<forall>keys. mset (srt keys) = mset [0..<length keys] \<and> sorted_wrt (\<lambda>i j. \<not> row_less (keys ! j) (keys ! i)) (srt keys))"

definition lri_sort :: "(row_key list \<Rightarrow> nat list) \<Rightarrow> LogRowsInternal \<Rightarrow> LogRowsInternal" where
  "lri_sort srt lr =
    (let indexes = srt (zip (lri_stream_ids lr) (lri_timestamps lr))
     in lr\<lparr>lri_stream_ids := map (\<lambda>i. lri_stream_ids lr ! i) indexes, lri_timestamps := map (\<lambda>i. lri_timestamps lr ! i) indexes,
          lri_rows := map (\<lambda>i. lri_rows lr ! i) indexes\<rparr>)"

definition sort_fields_in_rows :: "LogRowsInternal \<Rightarrow> LogRowsInternal" where
  "sort_fields_in_rows lr = lr\<lparr>lri_rows := map sort_fields_by_name (lri_rows lr)\<rparr>"

subsection \<open>Definitions: filling an in-memory part\<close>

text \<open>
  The loop of \<open>InmemoryPart::must_init_from_rows\<close> over the indexes \<open>is\<close>: \<open>start\<close> is the first row of the
  pending block and \<open>n\<close> its size. Indexing past the end of a vector panics.
\<close>

primrec init_rows_loop ::
  "'f env \<Rightarrow> LogRowsInternal \<Rightarrow> nat list \<Rightarrow> nat \<Rightarrow> u64 \<Rightarrow> BlockStreamWriter \<Rightarrow> (nat \<times> BlockStreamWriter, unit) outcome" where
  "init_rows_loop e lr [] start n bsw = Ok (start, bsw)"
| "init_rows_loop e lr (i # is) start n bsw =
    (if i \<ge> length (lri_stream_ids lr) \<or> i \<ge> length (lri_rows lr) then Panic
     else
       obind (if n \<ge> of_nat MAX_UNCOMPRESSED_BLOCK_SIZE \<or> \<not> stream_id_equal (lri_stream_ids lr ! i) (lri_stream_ids lr ! start) then
                obind (must_write_rows e (lri_stream_ids lr ! start) (drop start (take i (lri_timestamps lr))) (drop start (take i (lri_rows lr))) bsw) (\<lambda>bsw.
                Ok (i, 0, bsw))
              else Ok (start, n, bsw)) (\<lambda>(start, n, bsw).
       init_rows_loop e lr is start (n + of_nat (estimated_json_row_len (lri_rows lr ! i))) bsw))"

definition mp_must_init_from_rows :: "'f env \<Rightarrow> (row_key list \<Rightarrow> nat list) \<Rightarrow> LogRowsInternal \<Rightarrow> (Part, unit) outcome" where
  "mp_must_init_from_rows e srt lr =
    (let lr = sort_fields_in_rows (lri_sort srt lr);
         ts = lri_timestamps lr
     in obind (init_rows_loop e lr [0..<length ts] 0 0 must_init_for_inmemory_part) (\<lambda>(start, bsw).
        obind (if ts \<noteq> [] then must_write_rows e (lri_stream_ids lr ! start) (drop start ts) (drop start (lri_rows lr)) bsw else Ok bsw) (\<lambda>bsw.
        obind (finalize e bsw) (\<lambda>(ph, sw). Ok (part_of True ph sw)))))"


subsection \<open>Packing a block\<close>

text \<open>
  The packed form of a block: the data \<open>block_must_write_to\<close> puts into the streams, as a \<open>BlockData\<close>. Panics of the
  encoders are kept.
\<close>

definition pack_column :: "'f env \<Rightarrow> Column \<Rightarrow> (ColumnData, unit) outcome" where
  "pack_column e c =
    (case encode (e_f64 e) ve_empty (col_values c) dict_empty of (ve, dict, vt, mn, mx) \<Rightarrow>
     obind (column_bloom e vt (col_values c)) (\<lambda>bloom.
     Ok \<lparr>cd_name = col_name c, cd_value_type = vt, cd_min_value = mn, cd_max_value = mx, cd_values_dict = dict,
         cd_values_data = marshal_strings_block (e_zstd e) [] (ve_values ve), cd_bloom_filter_data = bloom\<rparr>))"

primrec pack_columns :: "'f env \<Rightarrow> Column list \<Rightarrow> (ColumnData list, unit) outcome" where
  "pack_columns e [] = Ok []"
| "pack_columns e (c # cs) = obind (pack_column e c) (\<lambda>cd. obind (pack_columns e cs) (\<lambda>cds. Ok (cd # cds)))"

definition pack_block :: "'f env \<Rightarrow> StreamID \<Rightarrow> Block \<Rightarrow> (BlockData, unit) outcome" where
  "pack_block e s b =
    (if b_timestamps b = [] then Panic
     else
       obind (or_panic (marshal_timestamps (e_zstd e) [] (b_timestamps b) 64)) (\<lambda>(data, mt, t).
       obind (pack_columns e (b_columns b)) (\<lambda>cds.
       Ok \<lparr>bd_stream_id = s, bd_uncompressed_size_bytes = of_nat (uncompressed_size_bytes b),
           bd_rows_count = of_nat (length (b_timestamps b)),
           bd_timestamps_data = \<lparr>td_data = data, td_marshal_type = mt, td_min_timestamp = t,
             td_max_timestamp = b_timestamps b ! (length (b_timestamps b) - 1)\<rparr>,
           bd_columns_data = cds, bd_const_columns = b_const_columns b\<rparr>)))"

lemma pack_column_write:
  "pack_column e c = Ok cd \<Longrightarrow> column_must_write_to e c sw = cd_must_write_to cd sw"
  by (auto simp: pack_column_def column_must_write_to_def cd_must_write_to_def Let_def obind_Ok_iff ch_default_def split: prod.splits)

lemma pack_columns_write:
  "pack_columns e cs = Ok cds \<Longrightarrow> columns_must_write_to e cs sw = cds_must_write_to cds sw"
  by (induction cs arbitrary: cds sw) (auto simp: obind_Ok_iff pack_column_write)

text \<open>Writing a block and writing its packed form are the same.\<close>

lemma pack_block_write:
  assumes "pack_block e s b = Ok bd" "assert_valid b = Ok ()" "td_valid (bd_timestamps_data bd)"
  shows "block_must_write_to e b s sw = bd_must_write_to e bd sw"
proof -
  obtain data mt t cds where p: "b_timestamps b \<noteq> []" "or_panic (marshal_timestamps (e_zstd e) [] (b_timestamps b) 64) = Ok (data, mt, t)"
      "pack_columns e (b_columns b) = Ok cds" and bd: "bd = \<lparr>bd_stream_id = s, bd_uncompressed_size_bytes = of_nat (uncompressed_size_bytes b),
           bd_rows_count = of_nat (length (b_timestamps b)),
           bd_timestamps_data = \<lparr>td_data = data, td_marshal_type = mt, td_min_timestamp = t,
             td_max_timestamp = b_timestamps b ! (length (b_timestamps b) - 1)\<rparr>,
           bd_columns_data = cds, bd_const_columns = b_const_columns b\<rparr>"
    using assms(1) by (auto simp: pack_block_def obind_Ok_iff split: if_splits)
  have l: "length data \<le> MAX_TIMESTAMPS_BLOCK_SIZE" using assms(3) by (simp add: bd td_valid_def)
  then have "\<not> (of_nat (length data) :: u64) > of_nat MAX_TIMESTAMPS_BLOCK_SIZE"
    by (simp add: MAX_TIMESTAMPS_BLOCK_SIZE_def word_less_nat_alt unat_of_small)
  then have "must_write_timestamps_to e (b_timestamps b) sw = td_must_write_to (bd_timestamps_data bd) sw" for sw
    using p(1,2) l by (simp add: must_write_timestamps_to_def td_must_write_to_def bd Let_def)
  then show ?thesis using assms(2) pack_columns_write [OF p(3)]
    by (simp add: block_must_write_to_def bd_must_write_to_def bd Let_def)
qed

subsection \<open>The column header of an encoded column is valid\<close>

text \<open>What is assumed of the floating-point operations: the bits are kept and \<open>f_less\<close> is a strict order.\<close>

definition f64_laws :: "'f f64_ops \<Rightarrow> bool" where
  "f64_laws f64 \<longleftrightarrow> (\<forall>f. f_from_bits f64 (f_to_bits f64 f) = f) \<and> (\<forall>f. \<not> f_less f64 f f) \<and>
    (\<forall>f g h. f_less f64 f g \<longrightarrow> f_less f64 g h \<longrightarrow> f_less f64 f h)"

lemma parse_values_min_max:
  assumes "parse_values parse lt first mn mx vs = Some (ns, x, y)" "\<And>a. \<not> lt a a" "\<And>a b c. lt a b \<Longrightarrow> lt b c \<Longrightarrow> lt a c"
    and "first \<or> \<not> lt mx mn" "vs \<noteq> [] \<or> \<not> first"
  shows "\<not> lt y x"
  using assms(1,4,5)
proof (induction vs arbitrary: first mn mx ns)
  case (Cons v vs)
  obtain n where n: "parse v = Some n" using Cons.prems(1) by (auto split: bind_splits)
  let ?mn = "if first \<or> lt n mn then n else mn" and ?mx = "if first \<or> lt mx n then n else mx"
  obtain ns' where r: "parse_values parse lt False ?mn ?mx vs = Some (ns', x, y)"
    using Cons.prems(1) n by (auto simp: Let_def)
  have "\<not> lt ?mx ?mn" using Cons.prems(2) assms(2,3) by (auto split: if_splits)
  then show ?case using Cons.IH [OF r] by simp
qed simp

definition encodes_to :: "'f f64_ops \<Rightarrow> bytes list \<Rightarrow> ValuesEncoder \<Rightarrow> ValueType \<Rightarrow> u64 \<Rightarrow> u64 \<Rightarrow> bool" where
  "encodes_to f64 vs ve vt mn mx \<longleftrightarrow>
    vt \<in> set VALUE_TYPES \<and> vt \<noteq> STRING \<and> vt \<noteq> DICT \<and>
    \<not> min_above_max f64 (ch_default\<lparr>ch_value_type := vt, ch_min_value := mn, ch_max_value := mx\<rparr>) \<and>
    unat mn < 2 ^ bounds_width vt \<and> unat mx < 2 ^ bounds_width vt \<and>
    length (ve_values ve) = length vs \<and> list_all (\<lambda>b. length b \<le> 8) (ve_values ve)"

lemma bit_size_bound: "bit_size m \<le> k \<Longrightarrow> n \<le> m \<Longrightarrow> unat n < 2 ^ k"
proof -
  assume "bit_size m \<le> k" "n \<le> m"
  then have "unat m < 2 ^ bit_size m" by (simp add: bit_size_def less_exp_bit_len)
  also have "\<dots> \<le> 2 ^ k" using \<open>bit_size m \<le> k\<close> by simp
  finally show ?thesis using \<open>n \<le> m\<close> by (simp add: word_le_nat_alt)
qed

lemma parsed_length: "parse_values parse lt first mn mx vs = Some (ns, x, y) \<Longrightarrow> length ns = length vs"
  by (metis length_map parse_values_parse)

lemma uint_encodes_to:
  assumes "try_uint_encoding ve vs = (ve', vt, mn, mx)" "vt \<noteq> UNKNOWN" "ve_inv ve" "ve_values ve = []" "vs \<noteq> []"
  shows "encodes_to f64 vs ve' vt mn mx"
proof -
  obtain ns where p: "parse_values try_parse_uint64_bytes (<) True 0 0 vs = Some (ns, mn, mx)"
    using assms(1,2) by (auto simp: try_uint_encoding_def Let_def split: option.splits if_splits)
  note l = parsed_length [OF p]
  have "\<not> mx < mn" by (rule parse_values_min_max [OF p]) (use assms(5) in auto)
  then have le: "mn \<le> mx" by simp
  have v: "ve_values (fold (\<lambda>n. push_value (g n)) ns ve) = map g ns" for g
    using fold_push_values [OF assms(3), of g ns] assms(4) by simp
  have u: "unat m < 2 ^ 64" for m :: u64 using unsigned_less [of m, where ?'a = nat] by simp
  note b = bit_size_bound [OF _ order_refl, of mx] bit_size_bound [OF _ le]
  consider "bit_size mx \<le> 8" "vt = UINT8" "ve' = fold (\<lambda>n. push_value [ucast n]) ns ve"
    | "bit_size mx \<le> 16" "vt = UINT16" "ve' = fold (\<lambda>n. push_value (marshal_uint16 [] (ucast n))) ns ve"
    | "bit_size mx \<le> 32" "vt = UINT32" "ve' = fold (\<lambda>n. push_value (marshal_uint32 [] (ucast n))) ns ve"
    | "vt = UINT64" "ve' = fold (\<lambda>n. push_value (marshal_uint64 [] n)) ns ve"
    using assms(1) p by (auto simp: try_uint_encoding_def Let_def split: if_splits)
  then show ?thesis
  proof cases
    case 1
    then show ?thesis using b [of 8] le l
      by (simp add: encodes_to_def v VALUE_TYPES_def min_above_max_def bounds_width_def value_type_defs list_all_iff)
  next
    case 2
    then show ?thesis using b [of 16] le l
      by (simp add: encodes_to_def v VALUE_TYPES_def min_above_max_def bounds_width_def value_type_defs list_all_iff marshal_uint16_def)
  next
    case 3
    then show ?thesis using b [of 32] le l
      by (simp add: encodes_to_def v VALUE_TYPES_def min_above_max_def bounds_width_def value_type_defs list_all_iff marshal_uint32_def)
  next
    case 4
    then show ?thesis using u le l
      by (simp add: encodes_to_def v VALUE_TYPES_def min_above_max_def bounds_width_def value_type_defs list_all_iff marshal_uint64_def)
  qed
qed

lemma typed_encodes_to:
  assumes "ve_inv ve" "ve_values ve = []" "vs \<noteq> []" "vt \<noteq> UNKNOWN" "f64_laws f64"
  shows
    "try_int_encoding ve vs = (ve', vt, mn, mx) \<Longrightarrow> encodes_to f64 vs ve' vt mn mx"
    "try_float64_encoding f64 ve vs = (ve', vt, mn, mx) \<Longrightarrow> encodes_to f64 vs ve' vt mn mx"
    "try_ipv4_encoding ve vs = (ve', vt, mn, mx) \<Longrightarrow> encodes_to f64 vs ve' vt mn mx"
    "try_timestamp_iso8601_encoding ve vs = (ve', vt, mn, mx) \<Longrightarrow> encodes_to f64 vs ve' vt mn mx"
proof -
  have v: "ve_values (fold (\<lambda>n. push_value (g n)) ns ve) = map g ns" for g and ns :: "'n list"
    using fold_push_values [OF assms(1), of g ns] assms(2) by simp
  have v32: "ve_values (fold (\<lambda>n. push_value (g n)) ns ve) = map g ns" for g and ns :: "u32 list"
    using fold_push_values [OF assms(1), of g ns] assms(2) by simp
  have vf: "ve_values (fold (\<lambda>n. push_value (g n)) ns ve) = map g ns" for g and ns :: "'b list"
    using fold_push_values [OF assms(1), of g ns] assms(2) by simp
  have v64: "ve_values (fold (\<lambda>n. push_value (g n)) ns ve) = map g ns" for g and ns :: "u64 list"
    using fold_push_values [OF assms(1), of g ns] assms(2) by simp
  have u: "unat m < 2 ^ 64" for m :: u64 using unsigned_less [of m, where ?'a = nat] by simp
  note defs = VALUE_TYPES_def min_above_max_def bounds_width_def value_type_defs list_all_iff marshal_uint64_def marshal_int64_def marshal_uint32_def
  have s: "\<not> (y :: i64) <s x" if "parse_values parse (<s) True 0 0 vs = Some (ns, x, y)" for parse ns x y
    by (rule parse_values_min_max [OF that]) (use assms(3) in \<open>auto simp: word_sless_alt\<close>)
  show "encodes_to f64 vs ve' vt mn mx" if t: "try_int_encoding ve vs = (ve', vt, mn, mx)"
  proof -
    obtain ns where p: "parse_values try_parse_int64_bytes (<s) True 0 0 vs = Some (ns, mn, mx)" "vt = INT64"
        "ve' = fold (\<lambda>n. push_value (marshal_int64 [] n)) ns ve"
      using t assms(4) by (auto simp: try_int_encoding_def split: option.splits)
    then show ?thesis using s [OF p(1)] parsed_length [OF p(1)] u by (simp add: encodes_to_def v64 defs)
  qed
  show "encodes_to f64 vs ve' vt mn mx" if t: "try_timestamp_iso8601_encoding ve vs = (ve', vt, mn, mx)"
  proof -
    obtain ns where p: "parse_values try_parse_timestamp_iso8601_bytes (<s) True 0 0 vs = Some (ns, mn, mx)" "vt = TIMESTAMP_ISO8601"
        "ve' = fold (\<lambda>n. push_value (marshal_uint64 [] n)) ns ve"
      using t assms(4) by (auto simp: try_timestamp_iso8601_encoding_def split: option.splits)
    then show ?thesis using s [OF p(1)] parsed_length [OF p(1)] u by (simp add: encodes_to_def v64 defs)
  qed
  show "encodes_to f64 vs ve' vt mn mx" if t: "try_ipv4_encoding ve vs = (ve', vt, mn, mx)"
  proof -
    obtain ns x y where p: "parse_values try_parse_ipv4_bytes (<) True 0 0 vs = Some (ns, x, y)" "vt = IPV4" "mn = ucast x" "mx = ucast y"
        "ve' = fold (\<lambda>n. push_value (marshal_uint32 [] n)) ns ve"
      using t assms(4) by (auto simp: try_ipv4_encoding_def split: option.splits)
    have "\<not> y < x" by (rule parse_values_min_max [OF p(1)]) (use assms(3) in auto)
    then have "\<not> (ucast y :: u64) < ucast x" using ucast_mono [of x y] by (simp only: not_less)
    moreover have "unat (ucast m :: u64) < 2 ^ 32" for m :: u32 using unsigned_less [of m, where ?'a = nat] by (simp add: unsigned_ucast_eq take_bit_nat_eq_self)
    ultimately show ?thesis using parsed_length [OF p(1)] p(2-5) by (simp add: encodes_to_def v32 defs)
  qed
  show "encodes_to f64 vs ve' vt mn mx" if t: "try_float64_encoding f64 ve vs = (ve', vt, mn, mx)"
  proof -
    obtain ns x y where p: "parse_values (try_parse_float64_exact_bytes f64) (f_less f64) True (f_zero f64) (f_zero f64) vs = Some (ns, x, y)"
        "vt = FLOAT64" "mn = f_to_bits f64 x" "mx = f_to_bits f64 y" "ve' = fold (\<lambda>f. push_value (marshal_uint64 [] (f_to_bits f64 f))) ns ve"
      using t assms(4) by (auto simp: try_float64_encoding_def split: option.splits)
    have "\<not> f_less f64 y x" by (rule parse_values_min_max [OF p(1)]) (use assms(3,5) in \<open>auto simp: f64_laws_def\<close>)
    then show ?thesis using parsed_length [OF p(1)] p(2-5) u assms(5) by (simp add: encodes_to_def vf defs f64_laws_def)
  qed
qed

lemma dict_loop_sizes:
  "dict_loop ve d vs = Some (ve', d') \<Longrightarrow> ve_inv ve \<Longrightarrow>
   length (ve_values ve') = length (ve_values ve) + length vs \<and> (list_all (\<lambda>b. length b \<le> 8) (ve_values ve) \<longrightarrow> list_all (\<lambda>b. length b \<le> 8) (ve_values ve'))"
  by (induction vs arbitrary: ve d) (auto simp: push_value_values push_value_inv split: prod.splits option.splits)

text \<open>All outcomes of \<open>encode\<close>, with the bounds and the dictionary.\<close>

lemma encode_shape:
  assumes "encode f64 ve vs d = (ve', d', vt, mn, mx)" "vs \<noteq> []" "f64_laws f64"
  shows "vt = DICT \<and> dict_inv d' \<and> mn = 0 \<and> mx = 0 \<and> length (ve_values ve') = length vs \<and> list_all (\<lambda>b. length b \<le> 8) (ve_values ve') \<or>
    vt = STRING \<and> d' = dict_reset d \<and> mn = 0 \<and> mx = 0 \<and> ve_values ve' = vs \<or>
    d' = dict_reset d \<and> encodes_to f64 vs ve' vt mn mx"
proof (cases "dict_loop (ve_reset ve) (dict_reset d) vs")
  case None
  then have d: "d' = dict_reset d" and t: "try_encodings [try_uint_encoding, try_int_encoding, try_float64_encoding f64, try_ipv4_encoding,
      try_timestamp_iso8601_encoding] (ve_reset ve) vs = (ve', vt, mn, mx)"
    using assms(1,2) by (auto simp: encode_def Let_def try_dict_encoding_def split: prod.splits)
  have st: "mn = 0 \<and> mx = 0" if "vt = STRING"
  proof -
    have "\<not> (t ve0 vs = (ve', STRING, mn, mx))" if "t \<in> {try_uint_encoding, try_int_encoding, try_float64_encoding f64, try_ipv4_encoding,
        try_timestamp_iso8601_encoding}" for t ve0
      using that uint_encodes_to [of ve0] by (auto simp: try_uint_encoding_def try_int_encoding_def try_float64_encoding_def try_ipv4_encoding_def
          try_timestamp_iso8601_encoding_def Let_def vt_defs split: option.splits if_splits)
    then show ?thesis using t that by (auto simp: Let_def split: prod.splits if_splits)
  qed
  from try_encodings_pick [OF t] show ?thesis
  proof
    assume "vt = STRING \<and> ve_values ve' = vs"
    then show ?thesis using d st by blast
  next
    assume "\<exists>t\<in>set [try_uint_encoding, try_int_encoding, try_float64_encoding f64, try_ipv4_encoding, try_timestamp_iso8601_encoding].
       \<exists>ve0. ve_inv ve0 \<and> ve_values ve0 = [] \<and> t ve0 vs = (ve', vt, mn, mx) \<and> vt \<noteq> UNKNOWN"
    then obtain t ve0 where t: "t \<in> {try_uint_encoding, try_int_encoding, try_float64_encoding f64, try_ipv4_encoding, try_timestamp_iso8601_encoding}"
        "ve_inv ve0" "ve_values ve0 = []" "t ve0 vs = (ve', vt, mn, mx)" "vt \<noteq> UNKNOWN" by auto
    have "encodes_to f64 vs ve' vt mn mx"
      using typed_encodes_to [OF t(2,3) assms(2) t(5) assms(3)] uint_encodes_to [OF _ t(5,2,3) assms(2), of ve' mn mx f64] t(1,4) by blast
    then show ?thesis using d by blast
  qed
next
  case (Some r)
  then have r: "vt = DICT" "r = (ve', d')" "mn = 0" "mx = 0"
    using assms(1,2) by (auto simp: encode_def Let_def try_dict_encoding_def vt_defs split: prod.splits)
  then show ?thesis using dict_loop_sizes [of "ve_reset ve" "dict_reset d" vs ve' d'] dict_loop_decode [of "ve_reset ve" "dict_reset d" vs ve' d' f64] Some
    by auto
qed

subsection \<open>Packed blocks can be stored and unpacked\<close>

text \<open>The limits a packed column has to keep; everything else follows from the encoders.\<close>

definition column_fits :: "ColumnData \<Rightarrow> bool" where
  "column_fits cd \<longleftrightarrow> length (cd_values_data cd) \<le> MAX_VALUES_BLOCK_SIZE \<and> length (cd_bloom_filter_data cd) \<le> MAX_BLOOM_FILTER_BLOCK_SIZE"

lemma pack_column_valid:
  assumes "pack_column e c = Ok cd" "col_values c \<noteq> []" "f64_laws (e_f64 e)" "column_fits cd"
  shows "cd_valid (e_f64 e) cd \<and> cd_name cd = col_name c"
proof -
  obtain ve dict vt mn mx where en: "encode (e_f64 e) ve_empty (col_values c) dict_empty = (ve, dict, vt, mn, mx)" by (metis prod_cases5)
  obtain bloom where b: "column_bloom e vt (col_values c) = Ok bloom" and cd: "cd = \<lparr>cd_name = col_name c, cd_value_type = vt, cd_min_value = mn,
      cd_max_value = mx, cd_values_dict = dict, cd_values_data = marshal_strings_block (e_zstd e) [] (ve_values ve), cd_bloom_filter_data = bloom\<rparr>"
    using assms(1) en by (auto simp: pack_column_def obind_Ok_iff)
  have bd: "vt = DICT \<Longrightarrow> bloom = []" using b by (simp add: column_bloom_def)
  have d: "dict_reset dict_empty = \<lparr>dict_values = []\<rparr>" by (simp add: dict_reset_def dict_empty_def)
  note defs = cd_valid_def cd_header_def ch_valid_def ch_default_def MAX_VALUES_BLOCK_SIZE_def MAX_BLOOM_FILTER_BLOCK_SIZE_def cd
  have f: "length (cd_values_data cd) \<le> MAX_VALUES_BLOCK_SIZE" "length (cd_bloom_filter_data cd) \<le> MAX_BLOOM_FILTER_BLOCK_SIZE"
    using assms(4) by (simp_all add: column_fits_def)
  from encode_shape [OF en assms(2,3)] have "cd_valid (e_f64 e) cd"
  proof (elim disjE conjE)
    assume "vt = DICT" "dict_inv dict" "mn = 0" "mx = 0"
    then show ?thesis using f bd by (simp add: defs VALUE_TYPES_def min_above_max_def value_type_defs)
  next
    assume "vt = STRING" "dict = dict_reset dict_empty" "mn = 0" "mx = 0"
    then show ?thesis using f bd d by (simp add: defs VALUE_TYPES_def min_above_max_def value_type_defs)
  next
    assume "dict = dict_reset dict_empty" "encodes_to (e_f64 e) (col_values c) ve vt mn mx"
    moreover have "min_above_max (e_f64 e) (cd_header cd) =
        min_above_max (e_f64 e) (ch_default\<lparr>ch_value_type := vt, ch_min_value := mn, ch_max_value := mx\<rparr>)"
      by (simp add: min_above_max_def cd_header_def cd)
    moreover have "ch_value_type (cd_header cd) = vt" "ch_min_value (cd_header cd) = mn" "ch_max_value (cd_header cd) = mx"
        "ch_values_size (cd_header cd) = 0" "ch_bloom_filter_size (cd_header cd) = 0"
      by (simp_all add: cd_header_def ch_default_def cd)
    ultimately show ?thesis using f d by (simp add: cd_valid_def ch_valid_def encodes_to_def cd)
  qed
  then show ?thesis by (simp add: cd)
qed

text \<open>The rows a block can hold are few enough for the length codecs.\<close>

definition column_small :: "Column \<Rightarrow> bool" where
  "column_small c \<longleftrightarrow> length (concat (col_values c)) < 2 ^ 61"

lemma concat_le: "list_all (\<lambda>b. length b \<le> 8) bs \<Longrightarrow> length (concat bs) \<le> 8 * length bs"
  by (induction bs) auto

lemma pack_column_unpack:
  assumes "pack_column e c = Ok cd" "length (col_values c) = n" "0 < n" "n \<le> MAX_ROWS_PER_BLOCK" "f64_laws (e_f64 e)" "zstd_ok (e_zstd e)"
    and "column_small c"
  shows "\<exists>sbu' vs. sbu_unmarshal (e_zstd e) sbu [] (cd_values_data cd) (of_nat n) = Ok (sbu', vs) \<and>
    decode_inplace (e_f64 e) vs (cd_value_type cd) (dict_values (cd_values_dict cd)) = Ok (map (stored_form (e_f64 e) (cd_value_type cd)) (col_values c))"
proof -
  obtain ve dict vt mn mx where en: "encode (e_f64 e) ve_empty (col_values c) dict_empty = (ve, dict, vt, mn, mx)" by (metis prod_cases5)
  have cd: "cd_value_type cd = vt" "cd_values_dict cd = dict" "cd_values_data cd = marshal_strings_block (e_zstd e) [] (ve_values ve)"
    using assms(1) en by (auto simp: pack_column_def obind_Ok_iff)
  have ne: "col_values c \<noteq> []" using assms(2,3) by auto
  have n: "n < 2 ^ 57" using assms(4) by (simp add: MAX_ROWS_PER_BLOCK_def)
  have l: "length (ve_values ve) = n \<and> length (concat (ve_values ve)) < 2 ^ 62"
    using encode_shape [OF en ne assms(5)] concat_le [of "ve_values ve"] assms(2,7) n
    by (auto simp: encodes_to_def column_small_def)
  have "length (ve_values ve) < 2 ^ 58" "length (concat (ve_values ve)) < 2 ^ 62" using l n by simp_all
  from strings_block_roundtrip [OF assms(6) this, of sbu "[]"]
  have "\<exists>sbu'. sbu_unmarshal (e_zstd e) sbu [] (cd_values_data cd) (of_nat n) = Ok (sbu', ve_values ve)" using l by (simp add: cd(3))
  moreover have "decode_inplace (e_f64 e) (ve_values ve) vt (dict_values dict) = Ok (map (stored_form (e_f64 e) vt) (col_values c))"
    using encode_decode [OF en] assms(5) by (simp add: f64_laws_def)
  ultimately show ?thesis by (auto simp: cd)
qed

lemma pack_columns_unpack:
  assumes "pack_columns e cs = Ok cds" "list_all (\<lambda>c. length (col_values c) = n \<and> column_small c) cs" "0 < n" "n \<le> MAX_ROWS_PER_BLOCK"
    and "f64_laws (e_f64 e)" "zstd_ok (e_zstd e)" "list_all (\<lambda>c. list_all (canonical (e_f64 e)) (col_values c)) cs"
  shows "\<exists>sbu'. unpack_columns e i (of_nat n) cds sbu = Ok (cs, sbu')"
  using assms(1,2,7)
proof (induction cs arbitrary: cds sbu i)
  case (Cons c cs)
  obtain cd cds' where p: "pack_column e c = Ok cd" "pack_columns e cs = Ok cds'" "cds = cd # cds'"
    using Cons.prems(1) by (auto simp: obind_Ok_iff)
  have c: "length (col_values c) = n" "column_small c" "list_all (canonical (e_f64 e)) (col_values c)" using Cons.prems by auto
  have "map (stored_form (e_f64 e) (cd_value_type cd)) (col_values c) = col_values c"
    using c(3) by (simp add: map_idI canonical_stored list_all_iff)
  then obtain sbu1 vs where u: "sbu_unmarshal (e_zstd e) sbu [] (cd_values_data cd) (of_nat n) = Ok (sbu1, vs)"
      "decode_inplace (e_f64 e) vs (cd_value_type cd) (dict_values (cd_values_dict cd)) = Ok (col_values c)"
    using pack_column_unpack [OF p(1) c(1) assms(3-6) c(2), of sbu] by auto
  obtain sbu' where "unpack_columns e (Suc i) (of_nat n) cds' sbu1 = Ok (cs, sbu')" using Cons.IH [OF p(2)] Cons.prems by fastforce
  moreover have "cd_name cd = col_name c" using p(1) by (auto simp: pack_column_def obind_Ok_iff split: prod.splits)
  ultimately show ?case using u by (simp add: p(3))
qed simp

lemma marshal_first:
  "marshal_timestamps z dst a 64 = Ok (b, mt, v) \<Longrightarrow> a \<noteq> [] \<and> v = a ! 0"
  by (cases a) (auto simp: marshal_timestamps_def marshal_int64_array_def marshal_int64_nearest_delta_def marshal_int64_nearest_delta2_def
      Let_def obind_Ok_iff split: if_splits list.splits)

text \<open>
  The limits on a block and on its packed form: number of rows, size of the values and, after
  compression, of the streams.
\<close>

definition block_small :: "Block \<Rightarrow> bool" where
  "block_small b \<longleftrightarrow> length (b_timestamps b) \<le> MAX_ROWS_PER_BLOCK \<and> list_all column_small (b_columns b)"

definition packed_fits :: "BlockData \<Rightarrow> bool" where
  "packed_fits bd \<longleftrightarrow> td_valid (bd_timestamps_data bd) \<and> list_all column_fits (bd_columns_data bd) \<and>
    length (const_bytes (bd_const_columns bd)) \<le> 4 * 1024 * 1024 \<and> (\<forall>n \<in> bd_names bd. length n < 2 ^ 64)"

text \<open>Blocks in the form \<open>must_init_from_rows\<close> gives them.\<close>

definition block_wf :: "Block \<Rightarrow> bool" where
  "block_wf b \<longleftrightarrow> b_timestamps b \<noteq> [] \<and> timestamps_sorted (b_timestamps b) \<and>
    list_all (\<lambda>c. length (col_values c) = length (b_timestamps b)) (b_columns b) \<and>
    length (b_columns b) + length (b_const_columns b) \<le> MAX_COLUMNS_PER_BLOCK \<and>
    list_all (\<lambda>f. length (field_value f) \<le> MAX_CONST_COLUMN_VALUE_SIZE) (b_const_columns b)"

lemma block_of_rows_wf:
  "block_of_rows b ts rows \<Longrightarrow> timestamps_sorted ts \<Longrightarrow> ts \<noteq> [] \<Longrightarrow> block_wf b"
  by (auto simp: block_of_rows_def block_wf_def represents_def list_all_iff)

lemma block_wf_valid: "block_wf b \<Longrightarrow> assert_valid b = Ok ()"
  by (simp add: block_wf_def assert_valid_def)

lemma packE:
  assumes "pack_block e s b = Ok bd"
  obtains data mt cds where "b_timestamps b \<noteq> []" "marshal_timestamps (e_zstd e) [] (b_timestamps b) 64 = Ok (data, mt, b_timestamps b ! 0)"
    "pack_columns e (b_columns b) = Ok cds"
    "bd = \<lparr>bd_stream_id = s, bd_uncompressed_size_bytes = of_nat (uncompressed_size_bytes b), bd_rows_count = of_nat (length (b_timestamps b)),
       bd_timestamps_data = \<lparr>td_data = data, td_marshal_type = mt, td_min_timestamp = b_timestamps b ! 0,
         td_max_timestamp = b_timestamps b ! (length (b_timestamps b) - 1)\<rparr>,
       bd_columns_data = cds, bd_const_columns = b_const_columns b\<rparr>"
proof -
  obtain data mt t cds where p: "b_timestamps b \<noteq> []" "or_panic (marshal_timestamps (e_zstd e) [] (b_timestamps b) 64) = Ok (data, mt, t)"
      "pack_columns e (b_columns b) = Ok cds" and bd: "bd = \<lparr>bd_stream_id = s, bd_uncompressed_size_bytes = of_nat (uncompressed_size_bytes b),
           bd_rows_count = of_nat (length (b_timestamps b)),
           bd_timestamps_data = \<lparr>td_data = data, td_marshal_type = mt, td_min_timestamp = t,
             td_max_timestamp = b_timestamps b ! (length (b_timestamps b) - 1)\<rparr>,
           bd_columns_data = cds, bd_const_columns = b_const_columns b\<rparr>"
    using assms by (auto simp: pack_block_def obind_Ok_iff split: if_splits)
  have m: "marshal_timestamps (e_zstd e) [] (b_timestamps b) 64 = Ok (data, mt, t)"
    using p(2) by (auto simp: or_panic_def split: outcome.splits)
  then have "t = b_timestamps b ! 0" using marshal_first by blast
  then show ?thesis using that p(1,3) m bd by blast
qed

lemma pack_columns_valid:
  assumes "pack_columns e cs = Ok cds" "list_all (\<lambda>c. col_values c \<noteq> []) cs" "f64_laws (e_f64 e)" "list_all column_fits cds"
  shows "list_all (cd_valid (e_f64 e)) cds \<and> map cd_name cds = map col_name cs"
  using assms(1,2,4)
  by (induction cs arbitrary: cds) (auto simp: obind_Ok_iff dest!: pack_column_valid [OF _ _ assms(3)])

lemma pack_block_storable:
  assumes "pack_block e s b = Ok bd" "block_wf b" "block_small b" "packed_fits bd" "f64_laws (e_f64 e)"
  shows "storable e bd" "bd_stream_id bd = s" "td_min_timestamp (bd_timestamps_data bd) = b_timestamps b ! 0"
    "unat (bd_rows_count bd) = length (b_timestamps b)"
proof -
  obtain data mt cds where p: "b_timestamps b \<noteq> []" "pack_columns e (b_columns b) = Ok cds"
    and bd: "bd = \<lparr>bd_stream_id = s, bd_uncompressed_size_bytes = of_nat (uncompressed_size_bytes b), bd_rows_count = of_nat (length (b_timestamps b)),
       bd_timestamps_data = \<lparr>td_data = data, td_marshal_type = mt, td_min_timestamp = b_timestamps b ! 0,
         td_max_timestamp = b_timestamps b ! (length (b_timestamps b) - 1)\<rparr>,
       bd_columns_data = cds, bd_const_columns = b_const_columns b\<rparr>"
    using packE [OF assms(1)] by metis
  have n: "length (b_timestamps b) \<le> 8388608" "0 < length (b_timestamps b)" using assms(3) p(1) by (auto simp: block_small_def MAX_ROWS_PER_BLOCK_def)
  have u: "unat (bd_rows_count bd) = length (b_timestamps b)" using n(1) by (simp add: bd unat_of_small)
  have c: "list_all (cd_valid (e_f64 e)) cds \<and> map cd_name cds = map col_name (b_columns b)"
  proof (rule pack_columns_valid [OF p(2) _ assms(5)])
    show "list_all (\<lambda>c. col_values c \<noteq> []) (b_columns b)" using assms(2) p(1) by (auto simp: block_wf_def list_all_iff)
    show "list_all column_fits cds" using assms(4) by (simp add: packed_fits_def bd)
  qed
  have len: "length cds = length (b_columns b)" using c by (metis length_map)
  have so: "b_timestamps b ! 0 \<le>s b_timestamps b ! (length (b_timestamps b) - 1)"
    using sorted_head [of "b_timestamps b"] n(2) assms(2) by (simp add: block_wf_def timestamps_sorted_iff)
  have "bd_rows_count bd \<le> of_nat MAX_ROWS_PER_BLOCK"
    using assms(3) by (simp add: word_le_nat_alt u block_small_def MAX_ROWS_PER_BLOCK_def)
  moreover have "bd_rows_count bd \<noteq> 0" using u n(2) by auto
  moreover have "list_all field_small (b_const_columns b)"
    using assms(2,4) by (force simp: block_wf_def packed_fits_def bd bd_names_def field_small_def list_all_iff MAX_CONST_COLUMN_VALUE_SIZE_def)
  ultimately show "storable e bd" using assms(2,4) c len so
    by (simp add: storable_def bd_valid_def packed_fits_def block_wf_def bd)
  show "bd_stream_id bd = s" "td_min_timestamp (bd_timestamps_data bd) = b_timestamps b ! 0" "unat (bd_rows_count bd) = length (b_timestamps b)"
    using u by (simp_all add: bd)
qed

text \<open>Unpacking gives the block back, when its values are printed forms.\<close>

lemma pack_block_unpack:
  assumes "pack_block e s b = Ok bd" "block_wf b" "block_small b" "f64_laws (e_f64 e)" "zstd_ok (e_zstd e)"
    and "list_all (\<lambda>c. list_all (canonical (e_f64 e)) (col_values c)) (b_columns b)"
  shows "\<exists>sbu'. init_from_block_data e bd sbu = Ok (b, sbu')"
proof -
  obtain data mt cds where p: "b_timestamps b \<noteq> []" "marshal_timestamps (e_zstd e) [] (b_timestamps b) 64 = Ok (data, mt, b_timestamps b ! 0)"
      "pack_columns e (b_columns b) = Ok cds"
    and bd: "bd = \<lparr>bd_stream_id = s, bd_uncompressed_size_bytes = of_nat (uncompressed_size_bytes b), bd_rows_count = of_nat (length (b_timestamps b)),
       bd_timestamps_data = \<lparr>td_data = data, td_marshal_type = mt, td_min_timestamp = b_timestamps b ! 0,
         td_max_timestamp = b_timestamps b ! (length (b_timestamps b) - 1)\<rparr>,
       bd_columns_data = cds, bd_const_columns = b_const_columns b\<rparr>"
    using packE [OF assms(1)] by metis
  have n: "length (b_timestamps b) \<le> MAX_ROWS_PER_BLOCK" "0 < length (b_timestamps b)" using assms(3) p(1) by (auto simp: block_small_def)
  then have u: "unat (of_nat (length (b_timestamps b)) :: u64) = length (b_timestamps b)" by (simp add: MAX_ROWS_PER_BLOCK_def unat_of_small)
  have "unmarshal_timestamps (e_zstd e) [] data mt (b_timestamps b ! 0) (length (b_timestamps b)) = Ok (b_timestamps b)"
    using int64_array_lossless [OF assms(5) p(1), of "[]" "[]"] p(2) by (auto simp: marshal_timestamps_def unmarshal_timestamps_def)
  moreover have "\<exists>sbu'. unpack_columns e 0 (of_nat (length (b_timestamps b))) cds sbu = Ok (b_columns b, sbu')"
    by (rule pack_columns_unpack [OF p(3) _ n(2,1) assms(4,5,6)]) (use assms(2,3) in \<open>simp add: block_wf_def block_small_def list_all_iff\<close>)
  moreover have "\<not> (of_nat (length (b_timestamps b)) :: u64) > of_nat MAX_ROWS_PER_BLOCK"
    using n(1) by (simp add: word_less_nat_alt u MAX_ROWS_PER_BLOCK_def)
  ultimately show ?thesis by (auto simp: init_from_block_data_def bd u Let_def)
qed

subsection \<open>Writing rows is writing the packed block\<close>

definition no_block :: Block where
  "no_block = \<lparr>b_timestamps = [], b_columns = [], b_const_columns = []\<rparr>"

text \<open>The packed block of some rows, if it keeps the limits.\<close>

definition rows_pack :: "'f env \<Rightarrow> StreamID \<Rightarrow> i64 list \<Rightarrow> row list \<Rightarrow> BlockData option" where
  "rows_pack e s ts rows =
    (case must_init_from_rows ts rows no_block of
       Ok b \<Rightarrow> (case pack_block e s b of Ok bd \<Rightarrow> if block_small b \<and> packed_fits bd then Some bd else None | _ \<Rightarrow> None)
     | _ \<Rightarrow> None)"

text \<open>Rows that one block takes without loss: distinct names, few enough columns, sorted, printed values.\<close>

definition rows_lossless :: "'f f64_ops \<Rightarrow> i64 list \<Rightarrow> row list \<Rightarrow> bool" where
  "rows_lossless f64 ts rows \<longleftrightarrow> rows \<noteq> [] \<and> length ts = length rows \<and> timestamps_sorted ts \<and> list_all row_wf rows \<and>
    rows_taken rows = length rows \<and> list_all (list_all (\<lambda>f. canonical f64 (field_value f))) rows"

text \<open>The rows stored in a packed block, with their timestamps.\<close>

definition stored_rows :: "'f env \<Rightarrow> BlockData \<Rightarrow> (i64 \<times> row) list option" where
  "stored_rows e bd =
    (case unmarshal_rows e bd \<lparr>rs_timestamps = [], rs_rows = []\<rparr> \<lparr>sbu_data = []\<rparr> of Ok (rs, _) \<Rightarrow> Some (rows_of rs) | _ \<Rightarrow> None)"

text \<open>What a row says: its value for every field name.\<close>

definition row_values :: "row \<Rightarrow> bytes \<Rightarrow> bytes" where
  "row_values r = get_field_value_by_name r"

definition timed_values :: "(i64 \<times> row) list \<Rightarrow> (i64 \<times> (bytes \<Rightarrow> bytes)) list" where
  "timed_values rs = map (\<lambda>(t, r). (t, row_values r)) rs"

lemma canonical_Nil: "canonical f64 []"
  by (simp add: canonical_def stored_form_def vt_defs try_parse_uint64_bytes_def try_parse_int64_bytes_def try_parse_float64_exact_bytes_def
      try_parse_float64_internal_def try_parse_ipv4_bytes_def try_parse_timestamp_iso8601_bytes_def)

lemma get_field_value_elem: "get_field_value_by_name r n = [] \<or> (\<exists>f \<in> set r. field_value f = get_field_value_by_name r n)"
  by (induction r) auto

lemma rows_pack_block:
  assumes "rows_pack e s ts rows = Some bd" "rows_lossless (e_f64 e) ts rows"
  obtains b where "must_init_from_rows ts rows no_block = Ok b" "pack_block e s b = Ok bd" "block_of_rows b ts rows" "block_wf b"
    "block_small b" "packed_fits bd" "list_all (\<lambda>c. list_all (canonical (e_f64 e)) (col_values c)) (b_columns b)"
proof -
  obtain b where b: "must_init_from_rows ts rows no_block = Ok b" "pack_block e s b = Ok bd" "block_small b" "packed_fits bd"
    using assms(1) by (auto simp: rows_pack_def split: outcome.splits if_splits)
  have r: "rows \<noteq> []" "length ts = length rows" "timestamps_sorted ts" "list_all row_wf rows" "rows_taken rows = length rows"
      "list_all (list_all (\<lambda>f. canonical (e_f64 e) (field_value f))) rows"
    using assms(2) by (simp_all add: rows_lossless_def)
  have bo: "block_of_rows b ts rows" using must_init_of_rows [OF r(1,4) b(1)] r(2,5) by simp
  have "ts \<noteq> []" using r(1,2) by auto
  then have wf: "block_wf b" using block_of_rows_wf [OF bo r(3)] by simp
  have "canonical (e_f64 e) v" if c: "c \<in> set (b_columns b)" and v: "v \<in> set (col_values c)" for c v
  proof -
    obtain k where k: "k < length (col_values c)" "v = col_values c ! k" using v by (auto simp: in_set_conv_nth)
    have "length (col_values c) = length rows" "col_values c ! k = cell_of rows (col_name c) k"
      using bo c k(1) by (auto simp: block_of_rows_def represents_def list_all_iff)
    then have "v = get_field_value_by_name (rows ! k) (col_name c)" "rows ! k \<in> set rows" using k by (simp_all add: cell_of_def)
    then show ?thesis using get_field_value_elem [of "rows ! k" "col_name c"] r(6) canonical_Nil unfolding list_all_iff by metis
  qed
  then have "list_all (\<lambda>c. list_all (canonical (e_f64 e)) (col_values c)) (b_columns b)" by (simp add: list_all_iff)
  then show ?thesis using that b bo wf by blast
qed

lemma rows_pack_stored:
  assumes "rows_pack e s ts rows = Some bd" "rows_lossless (e_f64 e) ts rows" "f64_laws (e_f64 e)" "zstd_ok (e_zstd e)"
  shows "storable e bd" "bd_stream_id bd = s" "td_min_timestamp (bd_timestamps_data bd) = ts ! 0"
    "\<exists>rs. stored_rows e bd = Some rs \<and> timed_values rs = timed_values (zip ts rows)"
proof -
  obtain b where b: "pack_block e s b = Ok bd" "block_of_rows b ts rows" "block_wf b" "block_small b" "packed_fits bd"
      "list_all (\<lambda>c. list_all (canonical (e_f64 e)) (col_values c)) (b_columns b)"
    using rows_pack_block [OF assms(1,2)] by metis
  have ts: "b_timestamps b = ts" "length ts = length rows" using b(2) by (simp_all add: block_of_rows_def)
  note st = pack_block_storable [OF b(1,3,4,5) assms(3)]
  show "storable e bd" "bd_stream_id bd = s" "td_min_timestamp (bd_timestamps_data bd) = ts ! 0" using st by (simp_all add: ts)
  obtain sbu' where u: "init_from_block_data e bd \<lparr>sbu_data = []\<rparr> = Ok (b, sbu')"
    using pack_block_unpack [OF b(1,3,4) assms(3,4) b(6)] by blast
  let ?rs = "append_rows_to b \<lparr>rs_timestamps = [], rs_rows = []\<rparr>"
  have l: "rs_timestamps ?rs = ts" "length (rs_rows ?rs) = length ts" by (simp_all add: append_rows_to_def append_rows_def ts)
  have "row_values (rs_rows ?rs ! k) = row_values (rows ! k)" if "k < length rows" for k
    using block_of_rows_back [OF b(2) that] by (auto simp: row_values_def)
  then have "timed_values (rows_of ?rs) = timed_values (zip ts rows)"
    using l ts(2) by (intro nth_equalityI) (simp_all add: timed_values_def rows_of_def)
  then show "\<exists>rs. stored_rows e bd = Some rs \<and> timed_values rs = timed_values (zip ts rows)"
    by (simp add: stored_rows_def unmarshal_rows_def u)
qed

lemma rows_pack_write:
  assumes "rows_pack e s ts rows = Some bd" "rows_lossless (e_f64 e) ts rows" "f64_laws (e_f64 e)"
  shows "must_write_rows e s ts rows bsw = must_write_block_data e bd bsw"
proof -
  obtain b where b: "must_init_from_rows ts rows no_block = Ok b" "pack_block e s b = Ok bd" "block_of_rows b ts rows" "block_wf b" "block_small b" "packed_fits bd"
    using rows_pack_block [OF assms(1,2)] by metis
  have ts: "b_timestamps b = ts" "ts \<noteq> []" using b(3,4) by (auto simp: block_of_rows_def block_wf_def)
  have st: "bd_rows_count bd \<noteq> 0" "bd_stream_id bd = s" using pack_block_storable [OF b(2,4,5,6) assms(3)] by (auto simp: storable_def)
  have "block_must_write_to e b s sw = bd_must_write_to e bd sw" for sw
    by (rule pack_block_write [OF b(2) block_wf_valid [OF b(4)]]) (use b(6) in \<open>simp add: packed_fits_def\<close>)
  then show ?thesis using b(1) ts st
    by (simp add: must_write_rows_def must_write_block_def must_write_block_data_def must_write_block_internal_def Let_def no_block_def)
qed

subsection \<open>The blocks of an in-memory part\<close>

text \<open>
  A chunk is a stream with its rows. \<open>chunks\<close> splits sorted rows the way the loop does: \<open>cur\<close> is the pending
  chunk and \<open>n\<close> its size.
\<close>

type_synonym chunk = "StreamID \<times> (i64 \<times> row) list"

fun chunks :: "StreamID \<Rightarrow> (i64 \<times> row) list \<Rightarrow> u64 \<Rightarrow> (StreamID \<times> i64 \<times> row) list \<Rightarrow> chunk list" where
  "chunks s cur n [] = [(s, cur)]"
| "chunks s cur n ((s', t, r) # rest) =
    (if n \<ge> of_nat MAX_UNCOMPRESSED_BLOCK_SIZE \<or> s' \<noteq> s
     then (s, cur) # chunks s' [(t, r)] (of_nat (estimated_json_row_len r)) rest
     else chunks s (cur @ [(t, r)]) (n + of_nat (estimated_json_row_len r)) rest)"

primrec write_chunks :: "'f env \<Rightarrow> chunk list \<Rightarrow> BlockStreamWriter \<Rightarrow> (BlockStreamWriter, unit) outcome" where
  "write_chunks e [] bsw = Ok bsw"
| "write_chunks e (c # cs) bsw = obind (must_write_rows e (fst c) (map fst (snd c)) (map snd (snd c)) bsw) (write_chunks e cs)"

definition lri_wf :: "LogRowsInternal \<Rightarrow> bool" where
  "lri_wf lr \<longleftrightarrow> length (lri_stream_ids lr) = length (lri_rows lr) \<and> length (lri_timestamps lr) = length (lri_rows lr)"

definition lri_items :: "LogRowsInternal \<Rightarrow> (StreamID \<times> i64 \<times> row) list" where
  "lri_items lr = zip (lri_stream_ids lr) (zip (lri_timestamps lr) (lri_rows lr))"

definition slice :: "nat \<Rightarrow> nat \<Rightarrow> 'a list \<Rightarrow> 'a list" where
  "slice i j xs = drop i (take j xs)"

lemma slice_snoc: "i \<le> j \<Longrightarrow> j < length xs \<Longrightarrow> slice i (Suc j) xs = slice i j xs @ [xs ! j]"
  by (simp add: slice_def take_Suc_conv_app_nth)

lemma slice_all: "length xs \<le> n \<Longrightarrow> slice i n xs = drop i xs"
  by (simp add: slice_def)

lemma obind_Ok [simp]: "obind m Ok = m"
  by (cases m) simp_all

lemma obind_assoc: "obind (obind m f) g = obind m (\<lambda>x. obind (f x) g)"
  by (cases m) simp_all

lemma write_chunks_Nil [simp]: "write_chunks e [] = Ok"
  by (rule ext) simp

lemma init_rows_loop_chunks:
  assumes "lri_wf lr" "start < i" "i \<le> length (lri_rows lr)"
  shows "obind (init_rows_loop e lr [i..<length (lri_rows lr)] start n bsw) (\<lambda>(start, bsw).
      must_write_rows e (lri_stream_ids lr ! start) (drop start (lri_timestamps lr)) (drop start (lri_rows lr)) bsw) =
    write_chunks e (chunks (lri_stream_ids lr ! start) (slice start i (zip (lri_timestamps lr) (lri_rows lr))) n (drop i (lri_items lr))) bsw"
  using assms(2,3)
proof (induction "length (lri_rows lr) - i" arbitrary: i start n bsw)
  case 0
  let ?z = "zip (lri_timestamps lr) (lri_rows lr)"
  have l: "length (lri_timestamps lr) = length (lri_rows lr)" using assms(1) by (simp add: lri_wf_def)
  have "i = length (lri_rows lr)" using 0 by simp
  moreover have "map fst (slice start (length (lri_rows lr)) ?z) = drop start (lri_timestamps lr)"
      "map snd (slice start (length (lri_rows lr)) ?z) = drop start (lri_rows lr)"
    using l by (simp_all add: slice_all flip: drop_map)
  moreover have "drop (length (lri_rows lr)) (lri_items lr) = []" by (simp add: lri_items_def)
  ultimately show ?case by simp
next
  case (Suc k)
  let ?z = "zip (lri_timestamps lr) (lri_rows lr)" and ?s = "lri_stream_ids lr" and ?n = "length (lri_rows lr)"
  let ?m = "of_nat (estimated_json_row_len (lri_rows lr ! i)) :: u64"
  have l: "length (lri_timestamps lr) = ?n" "length ?s = ?n" using assms(1) by (simp_all add: lri_wf_def)
  have i: "i < ?n" using Suc(2) by simp
  have up: "[i..<?n] = i # [Suc i..<?n]" using i by (simp add: upt_conv_Cons)
  have d: "drop i (lri_items lr) = (?s ! i, lri_timestamps lr ! i, lri_rows lr ! i) # drop (Suc i) (lri_items lr)"
    using i l by (subst Cons_nth_drop_Suc [symmetric]) (simp_all add: lri_items_def)
  have sl: "map fst (slice start i ?z) = drop start (take i (lri_timestamps lr))" "map snd (slice start i ?z) = drop start (take i (lri_rows lr))"
    using l i by (simp_all add: slice_def flip: drop_map take_map)
  have z: "?z ! i = (lri_timestamps lr ! i, lri_rows lr ! i)" using i l by simp
  have one: "slice i (Suc i) ?z = [?z ! i]" using slice_snoc [of i i ?z] i l by (simp add: slice_def)
  have more_z: "slice start (Suc i) ?z = slice start i ?z @ [?z ! i]" using slice_snoc [of start i ?z] i l Suc(3) by simp
  have k: "k = ?n - Suc i" using Suc(2) by simp
  show ?case
  proof (cases "n \<ge> of_nat MAX_UNCOMPRESSED_BLOCK_SIZE \<or> ?s ! i \<noteq> ?s ! start")
    case True
    have "obind (init_rows_loop e lr [i..<?n] start n bsw) (\<lambda>(start, bsw). must_write_rows e (?s ! start) (drop start (lri_timestamps lr)) (drop start (lri_rows lr)) bsw) =
      obind (must_write_rows e (?s ! start) (drop start (take i (lri_timestamps lr))) (drop start (take i (lri_rows lr))) bsw) (\<lambda>bsw.
      obind (init_rows_loop e lr [Suc i..<?n] i ?m bsw) (\<lambda>(start, bsw). must_write_rows e (?s ! start) (drop start (lri_timestamps lr)) (drop start (lri_rows lr)) bsw))"
      using True i l unfolding up by (simp add: stream_id_equal_iff obind_assoc)
    also have "\<dots> = obind (must_write_rows e (?s ! start) (drop start (take i (lri_timestamps lr))) (drop start (take i (lri_rows lr))) bsw)
        (write_chunks e (chunks (?s ! i) [?z ! i] ?m (drop (Suc i) (lri_items lr))))"
      using Suc(1) [OF k, of i ?m] i one by simp
    finally show ?thesis using True by (simp add: d sl z)
  next
    case False
    have "obind (init_rows_loop e lr [i..<?n] start n bsw) (\<lambda>(start, bsw). must_write_rows e (?s ! start) (drop start (lri_timestamps lr)) (drop start (lri_rows lr)) bsw) =
      obind (init_rows_loop e lr [Suc i..<?n] start (n + ?m) bsw) (\<lambda>(start, bsw). must_write_rows e (?s ! start) (drop start (lri_timestamps lr)) (drop start (lri_rows lr)) bsw)"
      using False i l unfolding up by (simp add: stream_id_equal_iff)
    also have "\<dots> = write_chunks e (chunks (?s ! start) (slice start i ?z @ [?z ! i]) (n + ?m) (drop (Suc i) (lri_items lr))) bsw"
      using Suc(1) [OF k, of start "n + ?m" bsw] i Suc(3) by (simp add: more_z)
    finally show ?thesis using False by (simp add: d z)
  qed
qed

definition row_chunks :: "(StreamID \<times> i64 \<times> row) list \<Rightarrow> chunk list" where
  "row_chunks xs = (case xs of [] \<Rightarrow> [] | (s, t, r) # rest \<Rightarrow> chunks s [(t, r)] (of_nat (estimated_json_row_len r)) rest)"

lemma mp_init_chunks:
  assumes "lri_wf (sort_fields_in_rows (lri_sort srt lr))"
  shows "mp_must_init_from_rows e srt lr =
    obind (write_chunks e (row_chunks (lri_items (sort_fields_in_rows (lri_sort srt lr)))) must_init_for_inmemory_part) (\<lambda>bsw.
    obind (finalize e bsw) (\<lambda>(ph, sw). Ok (part_of True ph sw)))"
proof (cases "lri_rows (sort_fields_in_rows (lri_sort srt lr)) = []")
  case True
  then have "lri_timestamps (sort_fields_in_rows (lri_sort srt lr)) = []" using assms by (simp add: lri_wf_def)
  then show ?thesis by (simp add: mp_must_init_from_rows_def row_chunks_def lri_items_def Let_def)
next
  case False
  define lr' where "lr' = sort_fields_in_rows (lri_sort srt lr)"
  have l: "lri_wf lr'" "0 < length (lri_rows lr')" "length (lri_timestamps lr') = length (lri_rows lr')" "length (lri_stream_ids lr') = length (lri_rows lr')"
    using assms False by (simp_all add: lr'_def lri_wf_def)
  have ne: "lri_timestamps lr' \<noteq> []" using l(2,3) by auto
  let ?r = "of_nat (estimated_json_row_len (lri_rows lr' ! 0)) :: u64"
  have up: "[0..<length (lri_rows lr')] = 0 # [1..<length (lri_rows lr')]" using l(2) by (simp add: upt_conv_Cons)
  have first: "init_rows_loop e lr' [0..<length (lri_rows lr')] 0 0 bsw = init_rows_loop e lr' [1..<length (lri_rows lr')] 0 ?r bsw" for bsw
    using l unfolding up by (simp add: stream_id_equal_iff MAX_UNCOMPRESSED_BLOCK_SIZE_def word_le_nat_alt)
  have it: "lri_items lr' = (lri_stream_ids lr' ! 0, lri_timestamps lr' ! 0, lri_rows lr' ! 0) # drop 1 (lri_items lr')"
    using l(2-4) Cons_nth_drop_Suc [of 0 "lri_items lr'"] by (simp add: lri_items_def)
  have sl: "slice 0 1 (zip (lri_timestamps lr') (lri_rows lr')) = [(lri_timestamps lr' ! 0, lri_rows lr' ! 0)]"
    using l(2,3) by (simp add: slice_def take_Suc_conv_app_nth)
  have "mp_must_init_from_rows e srt lr = obind (obind (init_rows_loop e lr' [0..<length (lri_rows lr')] 0 0 must_init_for_inmemory_part) (\<lambda>(start, bsw).
      must_write_rows e (lri_stream_ids lr' ! start) (drop start (lri_timestamps lr')) (drop start (lri_rows lr')) bsw)) (\<lambda>bsw.
      obind (finalize e bsw) (\<lambda>(ph, sw). Ok (part_of True ph sw)))"
    unfolding mp_must_init_from_rows_def lr'_def [symmetric] Let_def using ne l(3) by (simp add: obind_assoc case_prod_unfold)
  also have "obind (init_rows_loop e lr' [0..<length (lri_rows lr')] 0 0 must_init_for_inmemory_part) (\<lambda>(start, bsw).
      must_write_rows e (lri_stream_ids lr' ! start) (drop start (lri_timestamps lr')) (drop start (lri_rows lr')) bsw) =
    write_chunks e (row_chunks (lri_items lr')) must_init_for_inmemory_part"
  proof -
    have "row_chunks (lri_items lr') = chunks (lri_stream_ids lr' ! 0) [(lri_timestamps lr' ! 0, lri_rows lr' ! 0)] ?r (drop 1 (lri_items lr'))"
      unfolding row_chunks_def by (subst it) simp
    then show ?thesis
      unfolding first using init_rows_loop_chunks [OF l(1), of 0 1 e ?r must_init_for_inmemory_part] l(2) sl by simp
  qed
  finally show ?thesis by (simp add: lr'_def)
qed

lemma chunks_concat: "concat (map (\<lambda>(s, c). map (Pair s) c) (chunks s cur n rest)) = map (Pair s) cur @ rest"
  by (induction s cur n rest rule: chunks.induct) auto

lemma chunks_nonempty: "cur \<noteq> [] \<Longrightarrow> list_all (\<lambda>(s, c). c \<noteq> []) (chunks s cur n rest)"
  by (induction s cur n rest rule: chunks.induct) auto

lemma row_chunks_concat: "concat (map (\<lambda>(s, c). map (Pair s) c) (row_chunks xs)) = xs"
  by (auto simp: row_chunks_def chunks_concat split: list.splits)

lemma row_chunks_nonempty: "list_all (\<lambda>(s, c). c \<noteq> []) (row_chunks xs)"
  by (auto simp: row_chunks_def chunks_nonempty split: list.splits)

subsection \<open>Order and values of the rows of a part\<close>

text \<open>Rows are ordered by stream, then by timestamp.\<close>

definition item_le :: "StreamID \<times> i64 \<times> 'r \<Rightarrow> StreamID \<times> i64 \<times> 'r \<Rightarrow> bool" where
  "item_le a b \<longleftrightarrow> fst a < fst b \<or> fst a = fst b \<and> fst (snd a) \<le>s fst (snd b)"

definition item_says :: "StreamID \<times> i64 \<times> row \<Rightarrow> StreamID \<times> i64 \<times> (bytes \<Rightarrow> bytes)" where
  "item_says = (\<lambda>(s, t, r). (s, t, row_values r))"

primrec blocks_rows :: "'f env \<Rightarrow> BlockData list \<Rightarrow> (StreamID \<times> i64 \<times> row) list option" where
  "blocks_rows e [] = Some []"
| "blocks_rows e (bd # bds) =
    Option.bind (stored_rows e bd) (\<lambda>rs. map_option (\<lambda>xs. map (Pair (bd_stream_id bd)) rs @ xs) (blocks_rows e bds))"

lemma row_less_iff: "\<not> row_less (s', t') (s, t) \<longleftrightarrow> item_le (s, t, r) (s', t', r')"
  by (auto simp: row_less_def item_le_def stream_id_equal_iff stream_id_less_iff word_sless_alt word_sle_eq)

lemma lri_sort_items:
  assumes "sort_unstable_ok srt" "lri_wf lr"
  shows "lri_wf (lri_sort srt lr)" "mset (lri_items (lri_sort srt lr)) = mset (lri_items lr)" "sorted_wrt item_le (lri_items (lri_sort srt lr))"
proof -
  let ?keys = "zip (lri_stream_ids lr) (lri_timestamps lr)"
  define idx where "idx = srt ?keys"
  have l: "length (lri_stream_ids lr) = length (lri_rows lr)" "length (lri_timestamps lr) = length (lri_rows lr)" using assms(2) by (simp_all add: lri_wf_def)
  have i: "mset idx = mset [0..<length (lri_rows lr)]" "sorted_wrt (\<lambda>i j. \<not> row_less (?keys ! j) (?keys ! i)) idx"
    using assms(1) l by (simp_all add: sort_unstable_ok_def idx_def)
  have ib: "i < length (lri_rows lr)" if "i \<in> set idx" for i using that mset_eq_setD [OF i(1)] by simp
  show "lri_wf (lri_sort srt lr)" by (simp add: lri_wf_def lri_sort_def Let_def)
  have it: "lri_items (lri_sort srt lr) = map (\<lambda>i. lri_items lr ! i) idx"
    using ib l by (intro nth_equalityI) (simp_all add: lri_items_def lri_sort_def Let_def flip: idx_def)
  have "mset (map (\<lambda>i. lri_items lr ! i) idx) = image_mset (\<lambda>i. lri_items lr ! i) (mset [0..<length (lri_rows lr)])"
    by (simp only: mset_map i(1))
  also have "\<dots> = mset (map (\<lambda>i. lri_items lr ! i) [0..<length (lri_items lr)])" using l by (simp only: mset_map) (simp add: lri_items_def)
  also have "\<dots> = mset (lri_items lr)" by (simp only: map_nth)
  finally show "mset (lri_items (lri_sort srt lr)) = mset (lri_items lr)" by (simp only: it)
  show "sorted_wrt item_le (lri_items (lri_sort srt lr))"
    unfolding it sorted_wrt_map
  proof (rule sorted_wrt_mono_rel [OF _ i(2)])
    fix i j assume "i \<in> set idx" "j \<in> set idx" "\<not> row_less (?keys ! j) (?keys ! i)"
    then show "item_le (lri_items lr ! i) (lri_items lr ! j)" using ib l by (simp add: lri_items_def flip: row_less_iff)
  qed
qed

lemma row_values_perm:
  assumes "distinct (map field_name r)" "mset r = mset r'"
  shows "row_values r = row_values r'"
proof
  fix n
  have d: "distinct (map field_name r')" using assms by (metis mset_eq_imp_distinct_iff mset_map)
  have s: "set r = set r'" using assms(2) by (rule mset_eq_setD)
  show "row_values r n = row_values r' n"
  proof (cases "\<exists>f \<in> set r. field_name f = n")
    case True
    then obtain f where f: "f \<in> set r" "field_name f = n" by blast
    have "get_field_value_by_name q n = field_value f" if "f \<in> set q" "distinct (map field_name q)" for q
      using that f(2) by (induction q) force+
    then show ?thesis using f s d assms(1) by (simp add: row_values_def)
  next
    case False
    then have "get_field_value_by_name q n = []" if "set q = set r" for q
      using get_field_value_in [of q n] that by force
    then show ?thesis using s by (simp add: row_values_def)
  qed
qed

lemma sort_fields_row:
  assumes "row_wf r"
  shows "row_wf (sort_fields_by_name r)" "row_values (sort_fields_by_name r) = row_values r" "set (sort_fields_by_name r) = set r"
proof -
  have m: "mset (sort_fields_by_name r) = mset r" by (simp add: sort_fields_by_name_def)
  have "distinct (map field_name (sort_fields_by_name r)) = distinct (map field_name r)"
    using m by (metis mset_eq_imp_distinct_iff mset_map)
  then show "row_wf (sort_fields_by_name r)" using assms mset_eq_length [OF m] by (simp add: row_wf_def)
  show "row_values (sort_fields_by_name r) = row_values r" using row_values_perm [of r "sort_fields_by_name r"] assms m by (simp add: row_wf_def)
  show "set (sort_fields_by_name r) = set r" using m by (rule mset_eq_setD)
qed

definition says_chunk :: "chunk \<Rightarrow> (StreamID \<times> i64 \<times> row) list" where
  "says_chunk c = map (Pair (fst c)) (snd c)"

lemma chunks_sorted:
  assumes "sorted_wrt item_le (concat (map says_chunk cs))" "list_all (\<lambda>c. snd c \<noteq> []) cs"
  shows "list_all (\<lambda>c. sorted_wrt (\<le>s) (map fst (snd c))) cs"
    "sorted_wrt (\<lambda>c d. item_le (fst c, hd (snd c)) (fst d, hd (snd d))) cs"
proof -
  have "list_all (\<lambda>c. sorted_wrt (\<le>s) (map fst (snd c))) cs \<and> sorted_wrt (\<lambda>c d. item_le (fst c, hd (snd c)) (fst d, hd (snd d))) cs"
    using assms
  proof (induction cs)
    case (Cons c cs)
    have i: "sorted_wrt item_le (says_chunk c)" "sorted_wrt item_le (concat (map says_chunk cs))"
        "\<And>x y. x \<in> set (says_chunk c) \<Longrightarrow> y \<in> set (concat (map says_chunk cs)) \<Longrightarrow> item_le x y"
      using Cons.prems(1) by (auto simp: sorted_wrt_append)
    have "sorted_wrt (\<le>s) (map fst (snd c))"
      using i(1) by (auto simp: says_chunk_def sorted_wrt_map item_le_def elim: sorted_wrt_mono_rel [rotated])
    moreover have "item_le (fst c, hd (snd c)) (fst d, hd (snd d))" if "d \<in> set cs" for d
    proof (rule i(3))
      show "(fst c, hd (snd c)) \<in> set (says_chunk c)" using Cons.prems(2) by (simp add: says_chunk_def)
      have "snd d \<noteq> []" using Cons.prems(2) that by (simp add: list_all_iff)
      then show "(fst d, hd (snd d)) \<in> set (concat (map says_chunk cs))" using that by (force simp: says_chunk_def)
    qed
    ultimately show ?case using Cons.IH [OF i(2)] Cons.prems(2) by simp
  qed simp
  then show "list_all (\<lambda>c. sorted_wrt (\<le>s) (map fst (snd c))) cs" "sorted_wrt (\<lambda>c d. item_le (fst c, hd (snd c)) (fst d, hd (snd d))) cs" by simp_all
qed

text \<open>The packed blocks of a list of chunks.\<close>

definition chunk_packs :: "'f env \<Rightarrow> chunk \<Rightarrow> BlockData \<Rightarrow> bool" where
  "chunk_packs e c bd \<longleftrightarrow> rows_pack e (fst c) (map fst (snd c)) (map snd (snd c)) = Some bd"

definition chunk_lossless :: "'f f64_ops \<Rightarrow> chunk \<Rightarrow> bool" where
  "chunk_lossless f64 c \<longleftrightarrow> rows_lossless f64 (map fst (snd c)) (map snd (snd c))"

lemma chunks_written:
  assumes "list_all2 (chunk_packs e) cs bds" "list_all (chunk_lossless (e_f64 e)) cs" "f64_laws (e_f64 e)" "zstd_ok (e_zstd e)"
  shows "write_chunks e cs bsw = write_blocks e bds bsw" "list_all (storable e) bds"
    "\<exists>xs. blocks_rows e bds = Some xs \<and> map item_says xs = map item_says (concat (map says_chunk cs))"
    "map (\<lambda>bd. (bd_stream_id bd, td_min_timestamp (bd_timestamps_data bd))) bds = map (\<lambda>c. (fst c, fst (hd (snd c)))) cs"
proof -
  have "(\<forall>bsw. write_chunks e cs bsw = write_blocks e bds bsw) \<and> list_all (storable e) bds \<and>
    (\<exists>xs. blocks_rows e bds = Some xs \<and> map item_says xs = map item_says (concat (map says_chunk cs))) \<and>
    map (\<lambda>bd. (bd_stream_id bd, td_min_timestamp (bd_timestamps_data bd))) bds = map (\<lambda>c. (fst c, fst (hd (snd c)))) cs"
    using assms(1,2)
  proof (induction rule: list_all2_induct)
    case (Cons c cs bd bds)
    have p: "rows_pack e (fst c) (map fst (snd c)) (map snd (snd c)) = Some bd" "rows_lossless (e_f64 e) (map fst (snd c)) (map snd (snd c))"
      using Cons(1) Cons.prems by (simp_all add: chunk_packs_def chunk_lossless_def)
    note st = rows_pack_stored [OF p assms(3,4)]
    obtain rs where rs: "stored_rows e bd = Some rs" "timed_values rs = timed_values (zip (map fst (snd c)) (map snd (snd c)))" using st(4) by blast
    have "map item_says (map (Pair (fst c)) rs) = map (Pair (fst c)) (timed_values rs)" by (simp add: timed_values_def item_says_def case_prod_unfold)
    also have "\<dots> = map item_says (says_chunk c)" using rs(2) by (simp add: says_chunk_def timed_values_def item_says_def zip_map_fst_snd case_prod_unfold)
    finally have v: "map item_says (map (Pair (fst c)) rs) = map item_says (says_chunk c)" .
    have ne: "snd c \<noteq> []" using p(2) by (auto simp: rows_lossless_def)
    obtain xs where xs: "blocks_rows e bds = Some xs" "map item_says xs = map item_says (concat (map says_chunk cs))" using Cons by auto
    then have r: "\<exists>ys. blocks_rows e (bd # bds) = Some ys \<and> map item_says ys = map item_says (concat (map says_chunk (c # cs)))"
      using rs(1) v st(2) by simp
    have w: "write_chunks e (c # cs) bsw = write_blocks e (bd # bds) bsw" for bsw
    proof -
      have f: "write_chunks e cs = write_blocks e bds" using Cons by auto
      show ?thesis using rows_pack_write [OF p assms(3), of bsw] by (simp add: f)
    qed
    show ?case using w r Cons st(1-3) ne by (simp add: hd_conv_nth nth_map)
  qed auto
  then show "write_chunks e cs bsw = write_blocks e bds bsw" "list_all (storable e) bds"
    "\<exists>xs. blocks_rows e bds = Some xs \<and> map item_says xs = map item_says (concat (map says_chunk cs))"
    "map (\<lambda>bd. (bd_stream_id bd, td_min_timestamp (bd_timestamps_data bd))) bds = map (\<lambda>c. (fst c, fst (hd (snd c)))) cs"
    by blast+
qed

lemma sort_fields_items:
  "lri_items (sort_fields_in_rows lr) = map (\<lambda>(s, t, r). (s, t, sort_fields_by_name r)) (lri_items lr)"
  by (simp add: lri_items_def sort_fields_in_rows_def zip_map2 case_prod_unfold)

lemma items_rows: "(s, t, r) \<in> set (lri_items lr) \<Longrightarrow> r \<in> set (lri_rows lr)"
  by (auto simp: lri_items_def dest: set_zip_rightD)

text \<open>The blocks of a part are in the order the reader checks, when the rows are.\<close>

lemma chunk_blocks_ordered:
  fixes cs :: "chunk list"
  assumes "sorted_wrt (\<lambda>c d. item_le (fst c, hd (snd c)) (fst d, hd (snd d))) cs"
    and "map (\<lambda>bd. (bd_stream_id bd, td_min_timestamp (bd_timestamps_data bd))) bds = map (\<lambda>c. (fst c, fst (hd (snd c)))) cs"
    and "\<And>c. c \<in> set cs \<Longrightarrow> fst c = stream_id_zero \<Longrightarrow> 0 \<le>s fst (hd (snd c))"
  shows "sorted_wrt bd_le (bd_default # bds)"
proof -
  have le: "bd_le a b = item_le (fst c, hd (snd c)) (fst d, hd (snd d))"
    if "(bd_stream_id a, td_min_timestamp (bd_timestamps_data a)) = (fst c, fst (hd (snd c)))"
      "(bd_stream_id b, td_min_timestamp (bd_timestamps_data b)) = (fst d, fst (hd (snd d)))" for a b and c d :: chunk
    using that by (auto simp: bd_le_def item_le_def)
  have len: "length bds = length cs" using arg_cong [OF assms(2), of length] by simp
  have k: "(bd_stream_id (bds ! i), td_min_timestamp (bd_timestamps_data (bds ! i))) = (fst (cs ! i), fst (hd (snd (cs ! i))))" if "i < length bds" for i
    using arg_cong [OF assms(2), of "\<lambda>xs. xs ! i"] that len by simp
  have "sorted_wrt bd_le bds"
    using assms(1) len le [OF k k] by (simp add: sorted_wrt_iff_nth_less)
  moreover have "bd_le bd_default bd" if m: "bd \<in> set bds" for bd
  proof -
    obtain i where i: "i < length bds" "bd = bds ! i" using m by (auto simp: in_set_conv_nth)
    have "\<not> stream_id_less s stream_id_zero" for s
      by (simp add: stream_id_zero_def stream_id_less_def tenant_id_less_def u128_less_def)
    then have "stream_id_zero \<le> s" for s by (metis stream_id_less_iff not_less)
    then have "stream_id_zero < bd_stream_id bd \<or> stream_id_zero = bd_stream_id bd" by (metis order_le_less)
    moreover have "bd_stream_id bd = fst (cs ! i)" "td_min_timestamp (bd_timestamps_data bd) = fst (hd (snd (cs ! i)))" "cs ! i \<in> set cs"
      using k [OF i(1)] i len by simp_all
    ultimately show ?thesis using assms(3) [of "cs ! i"] by (auto simp: bd_le_def bd_default_def)
  qed
  ultimately show ?thesis by simp
qed

text \<open>C9: filling an in-memory part loses no row. Whatever rows are collected (names distinct within a row, at
  most 2000 fields, every value equal to its printed form, and every chunk packed with success within the size and column
  limits, with no row of the all-zero stream before the epoch), the part that \<open>must_init_from_rows\<close> builds can be opened and read; unpacking its blocks gives the same
  multiset of rows (stream, timestamp and the value of every field name), sorted by stream and
  timestamp. No step panics. The library sort may order equal keys in any way.\<close>

theorem inmemory_part_keeps_rows:
  assumes "zstd_ok (e_zstd e)" "order_ok e" "f64_laws (e_f64 e)" "sort_unstable_ok srt" "lri_wf lr"
    and "\<forall>r \<in> set (lri_rows lr). row_wf r \<and> (\<forall>f \<in> set r. canonical (e_f64 e) (field_value f))"
    and "\<forall>(s, t, r) \<in> set (lri_items lr). s = stream_id_zero \<longrightarrow> 0 \<le>s t"
    and "cs = row_chunks (lri_items (sort_fields_in_rows (lri_sort srt lr)))"
    and "\<forall>c \<in> set cs. rows_taken (map snd (snd c)) = length (snd c)" "list_all2 (chunk_packs e) cs bds" "blocks_fit bds"
  shows "\<exists>pt bsr xs. mp_must_init_from_rows e srt lr = Ok pt \<and> must_init_from_inmemory_part (e_zstd e) pt = Ok bsr \<and>
    (\<forall>n > length bds. read_blocks e n bsr = Ok bds) \<and> blocks_rows e bds = Some xs \<and> sorted_wrt item_le xs \<and>
    mset (map item_says xs) = mset (map item_says (lri_items lr))"
proof -
  define items where "items = lri_items (sort_fields_in_rows (lri_sort srt lr))"
  note so = lri_sort_items [OF assms(4,5)]
  have wf: "lri_wf (sort_fields_in_rows (lri_sort srt lr))" using so(1) by (simp add: lri_wf_def sort_fields_in_rows_def)
  have it: "items = map (\<lambda>(s, t, r). (s, t, sort_fields_by_name r)) (lri_items (lri_sort srt lr))" by (simp add: items_def sort_fields_items)
  have orig: "\<exists>r'. (s, t, r') \<in> set (lri_items lr) \<and> r = sort_fields_by_name r'" if "(s, t, r) \<in> set items" for s t r
    using that mset_eq_setD [OF so(2)] by (auto simp: it)
  have conc: "concat (map says_chunk cs) = items"
    using row_chunks_concat [of items] by (simp add: assms(8) items_def says_chunk_def [abs_def] case_prod_unfold)
  have ne: "list_all (\<lambda>c. snd c \<noteq> []) cs" using row_chunks_nonempty [of items] by (simp add: assms(8) items_def case_prod_unfold)
  have srt: "sorted_wrt item_le items" using so(3) by (simp add: it sorted_wrt_map item_le_def [abs_def] case_prod_unfold)
  note cso = chunks_sorted [OF srt [folded conc] ne]
  have mem: "(fst c, t, r) \<in> set items" if "c \<in> set cs" "(t, r) \<in> set (snd c)" for c t r
    unfolding conc [symmetric] using that by (force simp: says_chunk_def)
  have rows: "row_wf r \<and> (\<forall>f \<in> set r. canonical (e_f64 e) (field_value f))" if "c \<in> set cs" "(t, r) \<in> set (snd c)" for c t r
    using orig [OF mem [OF that]] assms(6) items_rows sort_fields_row by blast
  have "chunk_lossless (e_f64 e) c" if "c \<in> set cs" for c
    using that ne cso(1) rows [OF that] assms(9) unfolding chunk_lossless_def rows_lossless_def list_all_iff timestamps_sorted_iff by force
  then have ll: "list_all (chunk_lossless (e_f64 e)) cs" by (simp add: list_all_iff)
  note w = chunks_written [OF assms(10) ll assms(3,1)]
  have "0 \<le>s fst (hd (snd c))" if c: "c \<in> set cs" "fst c = stream_id_zero" for c
  proof -
    have "(fst c, fst (hd (snd c)), snd (hd (snd c))) \<in> set items" using mem [OF c(1), of "fst (hd (snd c))" "snd (hd (snd c))"] ne c(1) by (simp add: list_all_iff)
    then show ?thesis using orig assms(7) c(2) by fastforce
  qed
  then have ord: "sorted_wrt bd_le (bd_default # bds)" by (rule chunk_blocks_ordered [OF cso(2) w(4)])
  obtain bsw ph sw bsr where p: "write_blocks e bds must_init_for_inmemory_part = Ok bsw" "finalize e bsw = Ok (ph, sw)"
      "must_init_from_inmemory_part (e_zstd e) (part_of True ph sw) = Ok bsr" "\<forall>n > length bds. read_blocks e n bsr = Ok bds"
    using part_written_read [OF assms(1,2) w(2) ord assms(11), of True] by auto
  obtain xs where xs: "blocks_rows e bds = Some xs" "map item_says xs = map item_says items" using w(3) conc by auto
  have "sorted_wrt item_le xs"
  proof -
    have "sorted_wrt (\<lambda>a b. item_le (item_says a) (item_says b)) items" using srt by (simp add: item_le_def [abs_def] item_says_def case_prod_unfold)
    then have "sorted_wrt item_le (map item_says xs)" unfolding xs(2) sorted_wrt_map .
    then show ?thesis by (simp add: sorted_wrt_map item_le_def [abs_def] item_says_def case_prod_unfold)
  qed
  moreover have "mset (map item_says xs) = mset (map item_says (lri_items lr))"
  proof -
    have "map item_says items = map item_says (lri_items (lri_sort srt lr))"
      unfolding it map_map
    proof (rule map_cong [OF refl])
      fix x assume "x \<in> set (lri_items (lri_sort srt lr))"
      then have "row_wf (snd (snd x))" using mset_eq_setD [OF so(2)] items_rows [of "fst x" "fst (snd x)" "snd (snd x)" lr] assms(6) by simp
      then show "(item_says \<circ> (\<lambda>(s, t, r). (s, t, sort_fields_by_name r))) x = item_says x"
        by (simp add: item_says_def case_prod_unfold sort_fields_row)
    qed
    then show ?thesis unfolding xs(2) by (simp add: so(2))
  qed
  moreover have "mp_must_init_from_rows e srt lr = Ok (part_of True ph sw)"
    unfolding mp_init_chunks [OF wf] assms(8) [symmetric] by (simp add: w(1) p)
  ultimately show ?thesis using p(3,4) xs(1) by blast
qed

definition lr_demo :: LogRowsInternal where
  "lr_demo = lri_must_add_row (StreamID (TenantID 0 0) (U128 0 1)) 7 [Field [98] [120], Field [97] [99]]
    (lri_must_add_row (StreamID (TenantID 0 0) (U128 0 1)) 5 [Field [98] [121], Field [97] [99]] lri_default)"

definition srt_demo :: "row_key list \<Rightarrow> nat list" where
  "srt_demo keys = sort_key (\<lambda>i. (fst (keys ! i), sint (snd (keys ! i)))) [0..<length keys]"

lemma srt_demo_ok: "sort_unstable_ok srt_demo"
  unfolding sort_unstable_ok_def srt_demo_def
proof (intro allI conjI)
  fix keys :: "row_key list"
  let ?k = "\<lambda>i. (fst (keys ! i), sint (snd (keys ! i)))"
  have "sorted_wrt (\<lambda>i j. ?k i \<le> ?k j) (sort_key ?k [0..<length keys])"
    using sorted_sort_key [of ?k "[0..<length keys]"] by (simp add: sorted_map)
  then show "sorted_wrt (\<lambda>i j. \<not> row_less (keys ! j) (keys ! i)) (sort_key ?k [0..<length keys])"
    by (rule sorted_wrt_mono_rel [rotated])
      (auto simp: row_less_def stream_id_equal_iff stream_id_less_iff less_eq_prod_simp word_sless_alt)
qed simp

lemma lr_demo_items:
  "lri_items (sort_fields_in_rows (lri_sort srt_demo lr_demo)) =
    [(StreamID (TenantID 0 0) (U128 0 1), 5, [Field [97] [99], Field [98] [121]]), (StreamID (TenantID 0 0) (U128 0 1), 7, [Field [97] [99], Field [98] [120]])]"
  by (simp add: lri_items_def sort_fields_in_rows_def lri_sort_def srt_demo_def lr_demo_def lri_must_add_row_def lri_default_def lri_add_field_def
      get_canonical_field_name_bytes_def ascii_def sort_fields_by_name_def Let_def upt_conv_Cons less_eq_prod_simp)

definition b_demo :: Block where
  "b_demo = \<lparr>b_timestamps = [5, 7], b_columns = [\<lparr>col_name = [98], col_values = [[121], [120]]\<rparr>], b_const_columns = [Field [97] [99]]\<rparr>"

lemma b_demo_built: "must_init_from_rows [5, 7] [[Field [97] [99], Field [98] [121]], [Field [97] [99], Field [98] [120]]] no_block = Ok b_demo"
  by code_simp

definition bd_demo_rows :: BlockData where
  "bd_demo_rows = \<lparr>bd_stream_id = StreamID (TenantID 0 0) (U128 0 1), bd_uncompressed_size_bytes = of_nat (uncompressed_size_bytes b_demo), bd_rows_count = 2,
     bd_timestamps_data = \<lparr>td_data = [4], td_marshal_type = DELTA_CONST, td_min_timestamp = 5, td_max_timestamp = 7\<rparr>,
     bd_columns_data = [\<lparr>cd_name = [98], cd_value_type = DICT, cd_min_value = 0, cd_max_value = 0, cd_values_dict = \<lparr>dict_values = [[121], [120]]\<rparr>,
       cd_values_data = marshal_strings_block stored [] [[0], [1]], cd_bloom_filter_data = []\<rparr>], bd_const_columns = [Field [97] [99]]\<rparr>"

lemma b_demo_packed: "pack_block env_demo (StreamID (TenantID 0 0) (U128 0 1)) b_demo = Ok bd_demo_rows"
proof -
  have t: "marshal_timestamps stored [] [5, 7] 64 = Ok ([4], DELTA_CONST, 5)" by code_simp
  have "case encode demo_f64 ve_empty [[121], [120]] dict_empty of (ve, dict, vt, mn, mx) \<Rightarrow>
      ve_values ve = [[0], [1]] \<and> dict = \<lparr>dict_values = [[121], [120]]\<rparr> \<and> vt = DICT \<and> mn = 0 \<and> mx = 0" by code_simp
  then have "pack_column env_demo \<lparr>col_name = [98], col_values = [[121], [120]]\<rparr> = Ok (hd (bd_columns_data bd_demo_rows))"
    by (auto simp: pack_column_def env_demo_def column_bloom_def bd_demo_rows_def)
  then show ?thesis using t by (simp add: pack_block_def b_demo_def env_demo_def bd_demo_rows_def)
qed

lemma b_demo_pack: "rows_pack env_demo (StreamID (TenantID 0 0) (U128 0 1)) [5, 7] [[Field [97] [99], Field [98] [121]], [Field [97] [99], Field [98] [120]]] = Some bd_demo_rows"
proof -
  have "length (marshal_strings_block stored [] [[0], [1]]) = 8" by code_simp
  then have "packed_fits bd_demo_rows"
    by (simp add: packed_fits_def bd_demo_rows_def td_valid_def column_fits_def bd_names_def const_bytes_def marshal_bytes_def codec_simps varint_bytes_small
        MAX_TIMESTAMPS_BLOCK_SIZE_def MAX_VALUES_BLOCK_SIZE_def MAX_BLOOM_FILTER_BLOCK_SIZE_def)
  moreover have "block_small b_demo" by (simp add: block_small_def b_demo_def column_small_def MAX_ROWS_PER_BLOCK_def)
  ultimately show ?thesis by (simp add: rows_pack_def b_demo_built b_demo_packed)
qed

theorem inmemory_part_keeps_rows_witness:
  "\<exists>pt bsr xs. mp_must_init_from_rows env_demo srt_demo lr_demo = Ok pt \<and> must_init_from_inmemory_part stored pt = Ok bsr \<and>
    read_blocks env_demo 2 bsr = Ok [bd_demo_rows] \<and> blocks_rows env_demo [bd_demo_rows] = Some xs \<and>
    mset (map item_says xs) = mset (map item_says (lri_items lr_demo))"
proof -
  let ?s = "StreamID (TenantID 0 0) (U128 0 1)"
  let ?cs = "[(?s, [(5, [Field [97] [99], Field [98] [121]]), (7, [Field [97] [99], Field [98] [120]])])] :: chunk list"
  have z: "zstd_ok (e_zstd env_demo)" "order_ok env_demo" "e_zstd env_demo = stored" by (simp_all add: env_demo_def order_ok_def)
  have f: "f64_laws (e_f64 env_demo)" by (auto simp: f64_laws_def env_demo_def demo_f64_def)
  have w: "lri_wf lr_demo" "lri_rows lr_demo = [[Field [98] [121], Field [97] [99]], [Field [98] [120], Field [97] [99]]]"
      "lri_items lr_demo = [(?s, 5, [Field [98] [121], Field [97] [99]]), (?s, 7, [Field [98] [120], Field [97] [99]])]"
    by (simp_all add: lri_wf_def lri_items_def lr_demo_def lri_must_add_row_def lri_default_def lri_add_field_def get_canonical_field_name_bytes_def ascii_def Let_def)
  have cs: "?cs = row_chunks (lri_items (sort_fields_in_rows (lri_sort srt_demo lr_demo)))"
    unfolding lr_demo_items by (simp add: row_chunks_def MAX_UNCOMPRESSED_BLOCK_SIZE_def estimated_json_row_len_def estimated_json_field_len_def
        get_canonical_column_name_bytes_def TIME_RFC3339_NANO_LEN_def word_le_nat_alt)
  have r: "\<forall>r \<in> set (lri_rows lr_demo). row_wf r \<and> (\<forall>f \<in> set r. canonical (e_f64 env_demo) (field_value f))"
  proof -
    have "list_all row_wf [[Field [98] [121], Field [97] [99]], [Field [98] [120], Field [97] [99]]]" "list_all (canonical demo_f64) [[121], [120], [99]]"
      by code_simp+
    then show ?thesis by (simp add: w(2) env_demo_def)
  qed
  have tk: "\<forall>c \<in> set ?cs. rows_taken (map snd (snd c)) = length (snd c)" by code_simp
  have pk: "list_all2 (chunk_packs env_demo) ?cs [bd_demo_rows]" by (simp add: chunk_packs_def b_demo_pack)
  have ft: "blocks_fit [bd_demo_rows]" using unsigned_less [of "bd_uncompressed_size_bytes bd_demo_rows", where ?'a = nat] by (simp add: blocks_fit_def bd_demo_rows_def)
  show ?thesis
    using inmemory_part_keeps_rows [OF z(1,2) f srt_demo_ok w(1) r _ cs tk pk ft] z(3) w(3) by (auto simp: stream_id_zero_def)
qed
end
