(* ===== verification/Merger.thy ===== *)
theory Merger
  imports Row_Parts Topk
begin

text \<open>
  The merge of block streams (\<^verbatim>\<open>block_stream_merger.rs\<close>): the index heap of readers, the merger with its
  pending rows or pending block, and the loop that takes the block of the smallest reader until all
  readers are at their end. \<open>match_stream_id\<close> and \<open>match_time_range\<close> are those of \<open>PartitionSearchOptions\<close> in \<^verbatim>\<open>block_search.rs\<close>.

  The loop is a total function: every step moves a reader or takes one off the heap, so the multiset
  of reader positions and the size of the heap decrease. \<open>merge_streams_seq\<close> shows that the merge of ordered
  streams is the merger run on all their blocks in one order: by stream, then by first timestamp. The
  heap lemmas come from the interface \<open>topk_order\<close>, interpreted here on the readers.

  Messages of panics and the pool of mergers (a pooled merger is reset before use) are left out.
\<close>

text \<open>The recursion of the merge loop goes through \<open>obind\<close>.\<close>

lemma obind_cong [fundef_cong]: "m = m' \<Longrightarrow> (\<And>x. m' = Ok x \<Longrightarrow> f x = g x) \<Longrightarrow> obind m f = obind m' g"
  by (cases m') auto

subsection \<open>Definitions: search options of a drop filter\<close>

text \<open>
  \<open>DropFilterCtx\<close>: the part of \<open>PartitionSearchOptions\<close> the merge reads, and the index that renders the \<open>_stream\<close> value
  of a stream (\<open>append_stream_string\<close>), which is a parameter.
\<close>

record DropFilterCtx =
  pso_tenant_ids :: "TenantID list"
  pso_stream_ids :: "StreamID list"
  pso_filter :: drop_filter
  idb_stream_string :: "StreamID \<Rightarrow> bytes"

definition match_stream_id :: "DropFilterCtx \<Rightarrow> StreamID \<Rightarrow> bool" where
  "match_stream_id d s =
    (if pso_tenant_ids d \<noteq> [] then tenant_id s \<in> set (pso_tenant_ids d) else s \<in> set (pso_stream_ids d))"

definition match_time_range :: "DropFilterCtx \<Rightarrow> i64 \<Rightarrow> i64 \<Rightarrow> bool" where
  "match_time_range d mn mx \<longleftrightarrow> mn \<le>s df_max (pso_filter d) \<and> df_min (pso_filter d) \<le>s mx"

subsection \<open>Definitions: the heap of readers\<close>

definition reader_less :: "BlockStreamReader list \<Rightarrow> nat \<Rightarrow> nat \<Rightarrow> bool" where
  "reader_less bsrs i j =
    (let a = bsr_block_data (bsrs ! i); b = bsr_block_data (bsrs ! j)
     in if \<not> stream_id_equal (bd_stream_id a) (bd_stream_id b) then stream_id_less (bd_stream_id a) (bd_stream_id b)
        else td_min_timestamp (bd_timestamps_data a) <s td_min_timestamp (bd_timestamps_data b))"

function sift_down :: "nat list \<Rightarrow> nat \<Rightarrow> BlockStreamReader list \<Rightarrow> nat list" where
  "sift_down h i bsrs =
    (let n = length h; left = 2 * i + 1 in
     if left \<ge> n then h
     else
       let right = left + 1; j = (if right < n \<and> reader_less bsrs (h ! right) (h ! left) then right else left) in
       if \<not> reader_less bsrs (h ! j) (h ! i) then h else sift_down (swap h i j) j bsrs)"
  by pat_completeness auto
termination
  by (relation "measure (\<lambda>(h, i, _). length h - i)") (auto simp: Let_def swap_def)

declare sift_down.simps [simp del]

text \<open>\<open>heap_init\<close> sifts the positions below \<open>k\<close>, the last one first.\<close>

primrec heap_init_loop :: "nat \<Rightarrow> nat list \<Rightarrow> BlockStreamReader list \<Rightarrow> nat list" where
  "heap_init_loop 0 h bsrs = h"
| "heap_init_loop (Suc k) h bsrs = heap_init_loop k (sift_down h k bsrs) bsrs"

definition heap_init :: "nat list \<Rightarrow> BlockStreamReader list \<Rightarrow> nat list" where
  "heap_init h bsrs = heap_init_loop (length h div 2) h bsrs"

definition heap_fix :: "nat list \<Rightarrow> nat \<Rightarrow> BlockStreamReader list \<Rightarrow> nat list" where
  "heap_fix h i bsrs = sift_down h i bsrs"

definition heap_pop :: "nat list \<Rightarrow> BlockStreamReader list \<Rightarrow> nat list" where
  "heap_pop h bsrs = sift_down (butlast (swap h 0 (length h - 1))) 0 bsrs"

subsection \<open>Definitions: the merger\<close>

text \<open>
  The decoder \<open>vd\<close> keeps no state that matters and the arena \<open>a\<close> is always empty in this port; both are left
  out. The fields of the drop filter are part of the filter.
\<close>

record BlockStreamMerger =
  bsm_readers_heap :: "nat list"
  bsm_stream_id :: StreamID
  bsm_stream_buf :: bytes
  bsm_stream_id_buf :: bytes
  bsm_sbu :: "StringsBlockUnmarshaler option"
  bsm_bd :: BlockData
  bsm_rows :: Rows
  bsm_rows_tmp :: Rows
  bsm_uncompressed_rows_size_bytes :: u64

definition no_rows :: Rows where
  "no_rows = \<lparr>rs_timestamps = [], rs_rows = []\<rparr>"

definition reset_rows :: "BlockStreamMerger \<Rightarrow> BlockStreamMerger" where
  "reset_rows bsm = bsm\<lparr>bsm_sbu := None, bsm_bd := bd_default, bsm_rows := rows_reset (bsm_rows bsm),
     bsm_rows_tmp := rows_reset (bsm_rows_tmp bsm), bsm_uncompressed_rows_size_bytes := 0\<rparr>"

definition bsm_reset :: "BlockStreamMerger \<Rightarrow> BlockStreamMerger" where
  "bsm_reset bsm = reset_rows (bsm\<lparr>bsm_readers_heap := [], bsm_stream_id := stream_id_zero, bsm_stream_buf := [], bsm_stream_id_buf := []\<rparr>)"

definition bsm_default :: BlockStreamMerger where
  "bsm_default = \<lparr>bsm_readers_heap = [], bsm_stream_id = stream_id_zero, bsm_stream_buf = [], bsm_stream_id_buf = [],
     bsm_sbu = None, bsm_bd = bd_default, bsm_rows = no_rows, bsm_rows_tmp = no_rows, bsm_uncompressed_rows_size_bytes = 0\<rparr>"

definition assert_no_rows :: "BlockStreamMerger \<Rightarrow> (unit, unit) outcome" where
  "assert_no_rows bsm =
    obind (panic_if (bd_rows_count (bsm_bd bsm) > 0)) (\<lambda>_.
    obind (panic_if (rs_timestamps (bsm_rows bsm) \<noteq> [])) (\<lambda>_.
    obind (panic_if (rs_timestamps (bsm_rows_tmp bsm) \<noteq> [])) (\<lambda>_.
    panic_if (bsm_uncompressed_rows_size_bytes bsm \<noteq> 0))))"

definition need_drop_rows :: "DropFilterCtx option \<Rightarrow> StreamID \<Rightarrow> i64 \<Rightarrow> i64 \<Rightarrow> bool" where
  "need_drop_rows dr s mn mx = (case dr of None \<Rightarrow> False | Some d \<Rightarrow> match_stream_id d s \<and> match_time_range d mn mx)"

text \<open>The smallest and the largest \<open>i64\<close>.\<close>

definition I64_MIN :: i64 where "I64_MIN = - (2 ^ 63)"
definition I64_MAX :: i64 where "I64_MAX = 2 ^ 63 - 1"

definition set_stream_id :: "StreamID \<Rightarrow> DropFilterCtx option \<Rightarrow> BlockStreamMerger \<Rightarrow> BlockStreamMerger" where
  "set_stream_id s dr bsm =
    (let bsm = bsm\<lparr>bsm_stream_id := s\<rparr> in
     case dr of
       Some d \<Rightarrow>
         if need_drop_rows dr s I64_MIN I64_MAX
         then bsm\<lparr>bsm_stream_buf := idb_stream_string d s, bsm_stream_id_buf := stream_id_marshal_string [] s\<rparr> else bsm
     | None \<Rightarrow> bsm)"

definition check_next_block :: "BlockStreamMerger \<Rightarrow> BlockData \<Rightarrow> (unit, unit) outcome" where
  "check_next_block bsm bd =
    obind (panic_if (rs_timestamps (bsm_rows bsm) \<noteq> [] \<and> bd_rows_count (bsm_bd bsm) > 0)) (\<lambda>_.
    obind (panic_if (stream_id_less (bd_stream_id bd) (bsm_stream_id bsm))) (\<lambda>_.
    if \<not> stream_id_equal (bd_stream_id bd) (bsm_stream_id bsm) then Ok ()
    else if bd_rows_count bd = 0 then Ok ()
    else
      let next_min_timestamp = td_min_timestamp (bd_timestamps_data bd) in
      if rs_timestamps (bsm_rows bsm) = [] then
        if bd_rows_count (bsm_bd bsm) = 0 then Ok ()
        else panic_if (next_min_timestamp <s td_min_timestamp (bd_timestamps_data (bsm_bd bsm)))
      else panic_if (next_min_timestamp <s rs_timestamps (bsm_rows bsm) ! 0)))"

definition must_unmarshal_rows :: "'f env \<Rightarrow> DropFilterCtx option \<Rightarrow> BlockData \<Rightarrow> BlockStreamMerger \<Rightarrow> (BlockStreamMerger, unit) outcome" where
  "must_unmarshal_rows e dr bd bsm =
    (let rows_len = length (rs_timestamps (bsm_rows bsm));
         sbu = (case bsm_sbu bsm of None \<Rightarrow> \<lparr>sbu_data = []\<rparr> | Some sbu \<Rightarrow> sbu)
     in obind (or_panic (unmarshal_rows e bd (bsm_rows bsm) sbu)) (\<lambda>(rows, sbu).
        let bsm = bsm\<lparr>bsm_rows := rows, bsm_sbu := Some sbu\<rparr>; td = bd_timestamps_data bd in
        obind (case dr of
            Some d \<Rightarrow>
              if need_drop_rows dr (bd_stream_id bd) (td_min_timestamp td) (td_max_timestamp td) then
                obind (panic_if (\<not> is_utf8 (bsm_stream_buf bsm))) (\<lambda>_.
                obind (panic_if (\<not> is_utf8 (bsm_stream_id_buf bsm))) (\<lambda>_.
                Ok (bsm\<lparr>bsm_rows := skip_rows_by_drop_filter (pso_filter d) rows_len (bsm_stream_buf bsm) (bsm_stream_id_buf bsm) (bsm_rows bsm)\<rparr>)))
              else Ok bsm
          | None \<Rightarrow> Ok bsm) (\<lambda>bsm.
        Ok (bsm\<lparr>bsm_uncompressed_rows_size_bytes :=
          bsm_uncompressed_rows_size_bytes bsm + of_nat (uncompressed_rows_size_bytes (drop rows_len (rs_rows (bsm_rows bsm))))\<rparr>))))"

definition must_flush_rows :: "'f env \<Rightarrow> BlockStreamMerger \<Rightarrow> BlockStreamWriter \<Rightarrow> (BlockStreamMerger \<times> BlockStreamWriter, unit) outcome" where
  "must_flush_rows e bsm bsw =
    obind (if rs_timestamps (bsm_rows bsm) = [] then must_write_block_data e (bsm_bd bsm) bsw
           else if has_non_empty_rows (bsm_rows bsm) then
             must_write_rows e (bsm_stream_id bsm) (rs_timestamps (bsm_rows bsm)) (rs_rows (bsm_rows bsm)) bsw
           else Ok bsw) (\<lambda>bsw.
    Ok (reset_rows bsm, bsw))"

text \<open>The merge of the rows before and from \<open>rows_len\<close> on, into \<open>rows_tmp\<close>, which then changes places with \<open>rows\<close>.\<close>

definition merge_pending :: "nat \<Rightarrow> BlockStreamMerger \<Rightarrow> BlockStreamMerger" where
  "merge_pending rows_len bsm =
    (let rs = bsm_rows bsm
     in bsm\<lparr>bsm_rows := merge_rows (take rows_len (rs_timestamps rs)) (drop rows_len (rs_timestamps rs))
               (take rows_len (rs_rows rs)) (drop rows_len (rs_rows rs)) (bsm_rows_tmp bsm),
           bsm_rows_tmp := rows_reset rs\<rparr>)"

definition must_merge_rows ::
  "'f env \<Rightarrow> DropFilterCtx option \<Rightarrow> BlockData \<Rightarrow> BlockStreamMerger \<Rightarrow> BlockStreamWriter \<Rightarrow> (BlockStreamMerger \<times> BlockStreamWriter, unit) outcome" where
  "must_merge_rows e dr bd bsm bsw =
    obind (if bd_rows_count (bsm_bd bsm) > 0 then
             obind (must_unmarshal_rows e dr (bsm_bd bsm) (bsm\<lparr>bsm_bd := bd_default\<rparr>)) (\<lambda>bsm. Ok (bsm\<lparr>bsm_bd := bd_default\<rparr>))
           else Ok bsm) (\<lambda>bsm.
    let rows_len = length (rs_timestamps (bsm_rows bsm)) in
    obind (must_unmarshal_rows e dr bd bsm) (\<lambda>bsm.
    let bsm = merge_pending rows_len bsm
    in if bsm_uncompressed_rows_size_bytes bsm \<ge> of_nat MAX_UNCOMPRESSED_BLOCK_SIZE then must_flush_rows e bsm bsw else Ok (bsm, bsw)))"

definition bsm_must_write_block_data ::
  "'f env \<Rightarrow> DropFilterCtx option \<Rightarrow> BlockData \<Rightarrow> BlockStreamMerger \<Rightarrow> BlockStreamWriter \<Rightarrow> (BlockStreamMerger \<times> BlockStreamWriter, unit) outcome" where
  "bsm_must_write_block_data e dr bd bsm bsw =
    obind (assert_no_rows bsm) (\<lambda>_.
    let td = bd_timestamps_data bd in
    if need_drop_rows dr (bd_stream_id bd) (td_min_timestamp td) (td_max_timestamp td) then must_merge_rows e dr bd bsm bsw
    else if bd_uncompressed_size_bytes bd \<ge> of_nat MAX_UNCOMPRESSED_BLOCK_SIZE then
      obind (must_write_block_data e bd bsw) (\<lambda>bsw. Ok (bsm, bsw))
    else Ok (bsm\<lparr>bsm_bd := bd\<rparr>, bsw))"

definition bsm_must_write_block ::
  "'f env \<Rightarrow> DropFilterCtx option \<Rightarrow> BlockData \<Rightarrow> BlockStreamMerger \<Rightarrow> BlockStreamWriter \<Rightarrow> (BlockStreamMerger \<times> BlockStreamWriter, unit) outcome" where
  "bsm_must_write_block e dr bd bsm bsw =
    obind (check_next_block bsm bd) (\<lambda>_.
    if \<not> stream_id_equal (bd_stream_id bd) (bsm_stream_id bsm) then
      obind (must_flush_rows e bsm bsw) (\<lambda>(bsm, bsw).
      bsm_must_write_block_data e dr bd (set_stream_id (bd_stream_id bd) dr bsm) bsw)
    else if bsm_uncompressed_rows_size_bytes bsm = 0 \<and> bd_rows_count (bsm_bd bsm) = 0 \<and>
            bd_uncompressed_size_bytes bd \<ge> of_nat MAX_UNCOMPRESSED_BLOCK_SIZE then
      bsm_must_write_block_data e dr bd bsm bsw
    else if bsm_uncompressed_rows_size_bytes bsm + bd_uncompressed_size_bytes (bsm_bd bsm) + bd_uncompressed_size_bytes bd
            \<ge> 2 * of_nat MAX_UNCOMPRESSED_BLOCK_SIZE then
      obind (must_flush_rows e bsm bsw) (\<lambda>(bsm, bsw). bsm_must_write_block_data e dr bd bsm bsw)
    else must_merge_rows e dr bd bsm bsw)"

primrec open_blocks :: "'f env \<Rightarrow> nat \<Rightarrow> BlockStreamReader list \<Rightarrow> (nat list \<times> BlockStreamReader list, unit) outcome" where
  "open_blocks e i [] = Ok ([], [])"
| "open_blocks e i (bsr # bsrs) =
    obind (next_block e bsr) (\<lambda>(found, bsr).
    obind (open_blocks e (Suc i) bsrs) (\<lambda>(h, bsrs).
    Ok (if found then i # h else h, bsr # bsrs)))"

definition bsm_must_init :: "'f env \<Rightarrow> BlockStreamReader list \<Rightarrow> BlockStreamMerger \<Rightarrow> (BlockStreamMerger \<times> BlockStreamReader list, unit) outcome" where
  "bsm_must_init e bsrs bsm =
    obind (open_blocks e 0 bsrs) (\<lambda>(h, bsrs).
    Ok ((bsm_reset bsm)\<lparr>bsm_readers_heap := heap_init h bsrs\<rparr>, bsrs))"

text \<open>
  The merge loop. It ends for any readers, even of broken parts: every step moves a reader forward or
  removes it from the heap. \<open>reader_pos\<close> counts the index blocks and the blocks that are left.
\<close>

definition reader_pos :: "BlockStreamReader \<Rightarrow> nat \<times> nat" where
  "reader_pos bsr = (length (bsr_index_block_headers bsr) - bsr_next_index_block_idx bsr, length (bsr_block_headers bsr) - bsr_next_block_idx bsr)"

definition pos_rel :: "((nat \<times> nat) \<times> (nat \<times> nat)) set" where
  "pos_rel = less_than <*lex*> less_than"

lemma pos_rel_trans: "trans pos_rel"
  by (auto simp: pos_rel_def intro: trans_lex_prod)

lemma seek_block_moves:
  "seek_block z bsr = Ok (found, bsr') \<Longrightarrow>
   (reader_pos bsr' = reader_pos bsr \<or> (reader_pos bsr', reader_pos bsr) \<in> pos_rel) \<and>
   (found \<longrightarrow> bsr_next_block_idx bsr' < length (bsr_block_headers bsr'))"
proof (induction z bsr arbitrary: found bsr' rule: seek_block.induct)
  case (1 z bsr)
  show ?case
  proof (cases "bsr_next_block_idx bsr \<ge> length (bsr_block_headers bsr)")
    case True
    obtain f b where n: "next_index_block z bsr = Ok (f, b)" using 1(2) True by (auto simp: seek_block.simps [of z bsr] split: outcome.splits)
    show ?thesis
    proof (cases f)
      case t: True
      then have s: "seek_block z b = Ok (found, bsr')" using 1(2) True n by (simp add: seek_block.simps [of z bsr])
      have m: "(reader_pos b, reader_pos bsr) \<in> pos_rel" using next_index_block_moves [of z bsr b] n t by (simp add: pos_rel_def reader_pos_def)
      show ?thesis using 1(1) [OF True n refl t s] m pos_rel_trans by (auto dest: transD)
    next
      case False
      then have "found = False" "bsr' = b" using 1(2) True n by (simp_all add: seek_block.simps [of z bsr])
      moreover have "b = bsr" using n False by (auto simp: next_index_block_def Let_def obind_Ok_iff split: if_splits)
      ultimately show ?thesis by simp
    qed
  next
    case False
    then show ?thesis using 1(2) by (auto simp: seek_block.simps [of z bsr])
  qed
qed

lemma next_block_moves:
  assumes "next_block e bsr = Ok (found, bsr')"
  shows "if found then (reader_pos bsr', reader_pos bsr) \<in> pos_rel else reader_pos bsr' = reader_pos bsr \<or> (reader_pos bsr', reader_pos bsr) \<in> pos_rel"
proof -
  obtain f b where s: "seek_block (e_zstd e) bsr = Ok (f, b)" using assms by (auto simp: next_block_def obind_Ok_iff)
  note m = seek_block_moves [OF s]
  show ?thesis
  proof (cases f)
    case False
    then show ?thesis using assms s m by (simp add: next_block_def)
  next
    case True
    then have "found" "reader_pos bsr' = (fst (reader_pos b), snd (reader_pos b) - 1)"
      using assms s by (auto simp: next_block_def obind_Ok_iff Let_def reader_pos_def)
    moreover have "0 < snd (reader_pos b)" using m True by (simp add: reader_pos_def)
    ultimately have "(reader_pos bsr', reader_pos b) \<in> pos_rel" "found" by (auto simp: pos_rel_def lex_prod_def)
    then show ?thesis using m pos_rel_trans by (auto dest: transD)
  qed
qed

definition readers_pos :: "BlockStreamReader list \<Rightarrow> (nat \<times> nat) multiset" where
  "readers_pos bsrs = mset (map reader_pos bsrs)"

lemma readers_pos_step:
  assumes "i < length bsrs" "(reader_pos bsr, reader_pos (bsrs ! i)) \<in> pos_rel"
  shows "(readers_pos (bsrs[i := bsr]), readers_pos bsrs) \<in> mult pos_rel"
proof -
  let ?M = "readers_pos bsrs - {#reader_pos (bsrs ! i)#}"
  have m: "reader_pos (bsrs ! i) \<in># readers_pos bsrs" using assms(1) by (simp add: readers_pos_def)
  have "(?M + {#reader_pos bsr#}, ?M + {#reader_pos (bsrs ! i)#}) \<in> mult pos_rel"
    by (rule one_step_implies_mult) (use assms(2) in auto)
  moreover have "readers_pos (bsrs[i := bsr]) = ?M + {#reader_pos bsr#}"
    using assms(1) by (simp add: readers_pos_def map_update mset_update)
  ultimately show ?thesis using m by simp
qed

lemma readers_pos_same: "i < length bsrs \<Longrightarrow> reader_pos bsr = reader_pos (bsrs ! i) \<Longrightarrow> readers_pos (bsrs[i := bsr]) = readers_pos bsrs"
  by (metis length_map list_update_id map_update nth_map readers_pos_def)

lemma length_sift_down [simp]: "length (sift_down h i bsrs) = length h"
  by (induction h i bsrs rule: sift_down.induct) (subst sift_down.simps, simp add: Let_def swap_def)

text \<open>
  \<open>stop k\<close> is what the stop flag reads before the \<open>k\<close>-th block. A reader outside the slice is an index
  panic.
\<close>

function merge_loop ::
  "'f env \<Rightarrow> DropFilterCtx option \<Rightarrow> (nat \<Rightarrow> bool) \<Rightarrow> nat \<Rightarrow> BlockStreamMerger \<Rightarrow> BlockStreamReader list \<Rightarrow> BlockStreamWriter \<Rightarrow>
   (BlockStreamMerger \<times> BlockStreamWriter, unit) outcome" where
  "merge_loop e dr stop k bsm bsrs bsw =
    (if bsm_readers_heap bsm = [] \<or> stop k then Ok (bsm, bsw)
     else
       let idx = bsm_readers_heap bsm ! 0 in
       if idx \<ge> length bsrs then Panic
       else
         obind (bsm_must_write_block e dr (bsr_block_data (bsrs ! idx)) bsm bsw) (\<lambda>(bsm', bsw').
         obind (next_block e (bsrs ! idx)) (\<lambda>(found, bsr).
         let bsrs' = bsrs[idx := bsr]; h = bsm_readers_heap bsm in
         merge_loop e dr stop (Suc k) (bsm'\<lparr>bsm_readers_heap := if found then heap_fix h 0 bsrs' else heap_pop h bsrs'\<rparr>) bsrs' bsw')))"
  by pat_completeness auto
termination
proof (relation "inv_image (mult pos_rel <*lex*> less_than) (\<lambda>(_, _, _, _, bsm, bsrs, _). (readers_pos bsrs, length (bsm_readers_heap bsm)))", goal_cases)
  case 1
  then show ?case by (auto simp: pos_rel_def intro!: wf_mult wf_lex_prod)
next
  case (2 e dr stop k bsm bsrs bsw idx x bsm' bsw' y found bsr bsrs' h)
  then have n: "next_block e (bsrs ! idx) = Ok (found, bsr)" and i: "idx < length bsrs" and h: "h \<noteq> []" by auto
  note m = next_block_moves [OF n]
  have hd: "h = bsm_readers_heap bsm" using 2 by simp
  have l: "length (heap_pop h bsrs') < length h" using h by (simp add: heap_pop_def swap_def)
  show ?case
  proof (cases found)
    case True
    then have "(readers_pos bsrs', readers_pos bsrs) \<in> mult pos_rel" using readers_pos_step [OF i] m 2 by simp
    then show ?thesis by simp
  next
    case False
    then have "readers_pos bsrs' = readers_pos bsrs \<or> (readers_pos bsrs', readers_pos bsrs) \<in> mult pos_rel"
      using readers_pos_step [OF i] readers_pos_same [OF i] m 2 by auto
    then show ?thesis using l hd False by auto
  qed
qed

declare merge_loop.simps [simp del]

definition must_merge_block_streams ::
  "'f env \<Rightarrow> DropFilterCtx option \<Rightarrow> (nat \<Rightarrow> bool) \<Rightarrow> BlockStreamWriter \<Rightarrow> BlockStreamReader list \<Rightarrow> (PartHeader \<times> StreamWriters, unit) outcome" where
  "must_merge_block_streams e dr stop bsw bsrs =
    obind (bsm_must_init e bsrs bsm_default) (\<lambda>(bsm, bsrs).
    obind (merge_loop e dr stop 0 bsm bsrs bsw) (\<lambda>(bsm, bsw).
    obind (must_flush_rows e bsm bsw) (\<lambda>(bsm, bsw).
    finalize e bsw)))"

subsection \<open>The heap holds the reader with the smallest block at its root\<close>

definition reader_key :: "BlockStreamReader list \<Rightarrow> nat \<Rightarrow> StreamID \<times> int" where
  "reader_key bsrs i = (bd_stream_id (bsr_block_data (bsrs ! i)), sint (td_min_timestamp (bd_timestamps_data (bsr_block_data (bsrs ! i)))))"

lemma reader_less_key: "reader_less bsrs i j \<longleftrightarrow> reader_key bsrs i < reader_key bsrs j"
  by (auto simp: reader_less_def reader_key_def Let_def stream_id_equal_iff stream_id_less_iff less_prod_simp word_sless_alt)

interpretation readers: topk_order "\<lambda>a b. reader_less bsrs b a" UNIV for bsrs
  by unfold_locales (auto simp: reader_less_key)

lemma sift_down_eq: "sift_down h i bsrs = heap_fix_loop (\<lambda>a b. reader_less bsrs b a) h i"
proof (induction h i bsrs rule: sift_down.induct)
  case (1 h i bsrs)
  show ?case using 1 by (subst sift_down.simps, subst heap_fix_loop.simps) (auto simp: Let_def heap_less_def)
qed

lemma sift_down_mset: "i < length h \<or> h = [] \<Longrightarrow> mset (sift_down h i bsrs) = mset h"
proof (induction h i bsrs rule: sift_down.induct)
  case (1 h i bsrs)
  show ?case
  proof (cases "2 * i + 1 < length h")
    case False
    then show ?thesis by (subst sift_down.simps) simp
  next
    case True
    then show ?thesis using 1 by (subst sift_down.simps) (auto simp: Let_def mset_swap_rows)
  qed
qed

lemma heap_init_loop_heap:
  "readers.heap_from bsrs k h \<Longrightarrow> k \<le> length h \<Longrightarrow> readers.heap bsrs (heap_init_loop k h bsrs) \<and> mset (heap_init_loop k h bsrs) = mset h"
proof (induction k arbitrary: h)
  case (Suc k)
  have "readers.down_inv bsrs k h k"
    using Suc.prems(1) par_less unfolding readers.down_inv_def readers.heap_from_def
    by (metis Suc_leI le_neq_implies_less less_le_not_le)
  then have "readers.heap_from bsrs k (sift_down h k bsrs) \<and> mset (sift_down h k bsrs) = mset h"
    using readers.heap_fix_loop_heap [of bsrs k h k] by (simp add: sift_down_eq)
  then show ?case using Suc.IH [of "sift_down h k bsrs"] Suc.prems(2) by simp
qed (simp add: readers.heap_from_0)

lemma heap_init_heap: "readers.heap bsrs (heap_init h bsrs) \<and> mset (heap_init h bsrs) = mset h"
proof -
  have "readers.heap_from bsrs (length h div 2) h"
    unfolding readers.heap_from_def by (auto simp: par_def)
  then show ?thesis using heap_init_loop_heap [of bsrs "length h div 2" h] by (simp add: heap_init_def)
qed

text \<open>Moving the reader at the root forward, or removing it, keeps the heap.\<close>

lemma reader_less_other: "i \<noteq> k \<Longrightarrow> j \<noteq> k \<Longrightarrow> reader_less (bsrs[k := bsr]) i j = reader_less bsrs i j"
  by (simp add: reader_less_def)

lemma heap_fix_heap:
  assumes "readers.heap bsrs h" "distinct h" "h \<noteq> []"
  shows "readers.heap (bsrs[h ! 0 := bsr]) (heap_fix h 0 (bsrs[h ! 0 := bsr])) \<and> mset (heap_fix h 0 (bsrs[h ! 0 := bsr])) = mset h"
proof -
  have "readers.down_inv (bsrs[h ! 0 := bsr]) 0 h 0"
    unfolding readers.down_inv_def readers.holds_def
  proof (intro conjI allI impI)
    fix c assume c: "c < length h" "0 < c \<and> 0 \<le> par c \<and> par c \<noteq> 0"
    then have p: "par c < length h" using par_less [of c] by linarith
    then have "h ! c \<noteq> h ! 0" "h ! par c \<noteq> h ! 0" using c assms(2,3) by (simp_all add: nth_eq_iff_index_eq)
    then show "\<not> reader_less (bsrs[h ! 0 := bsr]) (h ! c) (h ! par c)"
      using assms(1) c by (simp add: reader_less_other readers.heap_def readers.holds_def)
  qed simp
  then show ?thesis using readers.heap_fix_loop_heap [of _ 0 h 0] by (simp add: heap_fix_def sift_down_eq readers.heap_from_0)
qed

lemma heap_pop_heap:
  assumes "readers.heap bsrs h" "distinct h" "h \<noteq> []"
  shows "readers.heap (bsrs[h ! 0 := bsr]) (heap_pop h (bsrs[h ! 0 := bsr])) \<and> mset (heap_pop h (bsrs[h ! 0 := bsr])) = mset h - {#h ! 0#}"
proof -
  let ?n = "length h - 1" and ?b = "bsrs[h ! 0 := bsr]"
  define g where "g = butlast (swap h 0 ?n)"
  have n: "?n < length h" "0 < length h" using assms(3) by auto
  have sw: "swap h 0 ?n \<noteq> []" "last (swap h 0 ?n) = h ! 0" "length g = ?n"
    using nth_swap [of 0 h ?n ?n] n by (auto simp: g_def last_conv_nth simp flip: length_greater_0_conv)
  have g: "g ! k = (if k = 0 then h ! ?n else h ! k)" if "k < length g" for k
    using that nth_swap [of 0 h ?n k] n sw(3) by (simp add: g_def nth_butlast)
  have m: "mset g = mset h - {#h ! 0#}"
  proof -
    have "mset (swap h 0 ?n) = mset g + {#h ! 0#}" using append_butlast_last_id [OF sw(1)] sw(2) by (metis g_def mset.simps(1,2) mset_append)
    then have "mset h = add_mset (h ! 0) (mset g)" using mset_swap_rows [of 0 h ?n] n by simp
    then show ?thesis by (metis add_mset_remove_trivial)
  qed
  have "readers.down_inv ?b 0 g 0"
    unfolding readers.down_inv_def readers.holds_def
  proof (intro conjI allI impI)
    fix c assume c: "c < length g" "0 < c \<and> 0 \<le> par c \<and> par c \<noteq> 0"
    then have p: "par c < length g" using par_less [of c] by linarith
    have e: "g ! c = h ! c" "g ! par c = h ! par c" using c p by (simp_all add: g)
    have "h ! c \<noteq> h ! 0" "h ! par c \<noteq> h ! 0" using c p sw(3) n assms(2) by (simp_all add: nth_eq_iff_index_eq)
    then show "\<not> reader_less ?b (g ! c) (g ! par c)"
      using assms(1) c sw(3) unfolding e by (simp add: reader_less_other readers.heap_def readers.holds_def)
  qed simp
  moreover have "heap_pop h ?b = sift_down g 0 ?b" by (simp add: heap_pop_def g_def)
  ultimately show ?thesis using readers.heap_fix_loop_heap [of ?b 0 g 0] m by (simp add: sift_down_eq readers.heap_from_0)
qed

lemma heap_root_least:
  "readers.heap bsrs h \<Longrightarrow> i \<in> set h \<Longrightarrow> reader_key bsrs (h ! 0) \<le> reader_key bsrs i"
  using readers.heap_root_best [of bsrs h i] by (simp add: reader_less_key)

subsection \<open>The order in which blocks are merged\<close>

text \<open>\<open>rest_of e bsr bds\<close>: the blocks that the reader still gives, and then the end.\<close>

fun rest_of :: "'f env \<Rightarrow> BlockStreamReader \<Rightarrow> BlockData list \<Rightarrow> bool" where
  "rest_of e bsr [] \<longleftrightarrow> (\<exists>bsr'. next_block e bsr = Ok (False, bsr'))"
| "rest_of e bsr (bd # bds) \<longleftrightarrow> (\<exists>bsr'. next_block e bsr = Ok (True, bsr') \<and> bsr_block_data bsr' = bd \<and> rest_of e bsr' bds)"

lemma read_blocks_rest: "read_blocks e (Suc (length bds)) bsr = Ok bds \<Longrightarrow> rest_of e bsr bds"
proof (induction bds arbitrary: bsr)
  case Nil
  then show ?case by (auto simp: obind_Ok_iff split: if_splits)
next
  case (Cons bd bds)
  then obtain found bsr' where n: "next_block e bsr = Ok (found, bsr')" by (auto simp: obind_Ok_iff)
  then have "found" using Cons.prems by (auto split: if_splits)
  moreover have "read_blocks e (Suc (Suc (length bds))) bsr = obind (next_block e bsr) (\<lambda>(found, bsr).
      if found then obind (read_blocks e (Suc (length bds)) bsr) (\<lambda>bds. Ok (bsr_block_data bsr # bds)) else Ok [])" by simp
  ultimately have "read_blocks e (Suc (length bds)) bsr' = Ok bds" "bsr_block_data bsr' = bd"
    using Cons.prems n by (auto simp: obind_Ok_iff simp del: read_blocks.simps)
  then show ?case using Cons.IH n \<open>found\<close> by auto
qed

text \<open>The merger on a sequence of blocks. It neither reads nor changes the heap.\<close>

primrec write_seq :: "'f env \<Rightarrow> DropFilterCtx option \<Rightarrow> BlockData list \<Rightarrow> BlockStreamMerger \<Rightarrow> BlockStreamWriter \<Rightarrow>
    (BlockStreamMerger \<times> BlockStreamWriter, unit) outcome" where
  "write_seq e dr [] bsm bsw = Ok (bsm, bsw)"
| "write_seq e dr (bd # bds) bsm bsw = obind (bsm_must_write_block e dr bd bsm bsw) (\<lambda>(bsm, bsw). write_seq e dr bds bsm bsw)"

definition with_heap :: "nat list \<Rightarrow> (BlockStreamMerger \<times> BlockStreamWriter, unit) outcome \<Rightarrow> (BlockStreamMerger \<times> BlockStreamWriter, unit) outcome" where
  "with_heap h m = obind m (\<lambda>(bsm, bsw). Ok (bsm\<lparr>bsm_readers_heap := h\<rparr>, bsw))"

lemma with_heap_simps [simp]:
  "with_heap h (Ok (bsm, bsw)) = Ok (bsm\<lparr>bsm_readers_heap := h\<rparr>, bsw)" "with_heap h Panic = Panic" "with_heap h (Err er) = Err er"
  by (simp_all add: with_heap_def)

lemma with_heap_if: "with_heap h (if b then x else y) = (if b then with_heap h x else with_heap h y)"
  by simp

lemma with_heap_obind: "with_heap h (obind m f) = obind m (\<lambda>x. with_heap h (f x))"
  by (cases m) simp_all

lemma heap_last:
  "bsm\<lparr>bsm_readers_heap := h, bsm_bd := x\<rparr> = bsm\<lparr>bsm_bd := x, bsm_readers_heap := h\<rparr>"
  "bsm\<lparr>bsm_readers_heap := h, bsm_rows := y\<rparr> = bsm\<lparr>bsm_rows := y, bsm_readers_heap := h\<rparr>"
  "bsm\<lparr>bsm_readers_heap := h, bsm_rows_tmp := y\<rparr> = bsm\<lparr>bsm_rows_tmp := y, bsm_readers_heap := h\<rparr>"
  by simp_all

lemma reset_rows_heap: "reset_rows (bsm\<lparr>bsm_readers_heap := h\<rparr>) = (reset_rows bsm)\<lparr>bsm_readers_heap := h\<rparr>"
  by (simp add: reset_rows_def)

lemma must_flush_rows_heap: "must_flush_rows e (bsm\<lparr>bsm_readers_heap := h\<rparr>) bsw = with_heap h (must_flush_rows e bsm bsw)"
  by (simp add: must_flush_rows_def reset_rows_heap with_heap_obind)

lemma must_unmarshal_rows_heap:
  "must_unmarshal_rows e dr bd (bsm\<lparr>bsm_readers_heap := h\<rparr>) = obind (must_unmarshal_rows e dr bd bsm) (\<lambda>bsm. Ok (bsm\<lparr>bsm_readers_heap := h\<rparr>))"
  by (cases dr; cases "or_panic (unmarshal_rows e bd (bsm_rows bsm) (case bsm_sbu bsm of None \<Rightarrow> \<lparr>sbu_data = []\<rparr> | Some sbu \<Rightarrow> sbu))")
    (auto simp: must_unmarshal_rows_def Let_def panic_if_def)

lemma merge_pending_heap: "merge_pending n (bsm\<lparr>bsm_readers_heap := h\<rparr>) = (merge_pending n bsm)\<lparr>bsm_readers_heap := h\<rparr>"
  by (simp add: merge_pending_def Let_def)

lemma must_merge_rows_heap:
  "must_merge_rows e dr bd (bsm\<lparr>bsm_readers_heap := h\<rparr>) bsw = with_heap h (must_merge_rows e dr bd bsm bsw)"
  unfolding must_merge_rows_def
  by (simp add: heap_last must_unmarshal_rows_heap obind_assoc with_heap_obind Let_def with_heap_if must_flush_rows_heap merge_pending_heap cong: if_cong)

lemma bsm_must_write_block_data_heap:
  "bsm_must_write_block_data e dr bd (bsm\<lparr>bsm_readers_heap := h\<rparr>) bsw = with_heap h (bsm_must_write_block_data e dr bd bsm bsw)"
  by (simp add: bsm_must_write_block_data_def assert_no_rows_def with_heap_obind Let_def with_heap_if must_merge_rows_heap heap_last)

lemma set_stream_id_heap: "set_stream_id s dr (bsm\<lparr>bsm_readers_heap := h\<rparr>) = (set_stream_id s dr bsm)\<lparr>bsm_readers_heap := h\<rparr>"
  by (simp add: set_stream_id_def Let_def split: option.splits)

lemma bsm_must_write_block_heap:
  "bsm_must_write_block e dr bd (bsm\<lparr>bsm_readers_heap := h\<rparr>) bsw = with_heap h (bsm_must_write_block e dr bd bsm bsw)"
  unfolding bsm_must_write_block_def
  by (simp add: check_next_block_def with_heap_obind with_heap_if must_flush_rows_heap bsm_must_write_block_data_heap must_merge_rows_heap
      set_stream_id_heap with_heap_def obind_assoc case_prod_unfold cong: if_cong)

definition bd_key :: "BlockData \<Rightarrow> StreamID \<times> int" where
  "bd_key bd = (bd_stream_id bd, sint (td_min_timestamp (bd_timestamps_data bd)))"

lemma bd_le_key: "bd_le a b \<longleftrightarrow> bd_key a \<le> bd_key b"
  by (auto simp: bd_le_def bd_key_def less_eq_prod_simp word_sle_eq)

lemma reader_key_bd: "reader_key bsrs i = bd_key (bsr_block_data (bsrs ! i))"
  by (simp add: reader_key_def bd_key_def)

lemma with_heap_twice [simp]: "with_heap h (with_heap h' m) = with_heap h m"
  by (simp add: with_heap_def obind_assoc case_prod_unfold)

lemma write_seq_heap: "write_seq e dr bds (bsm\<lparr>bsm_readers_heap := h\<rparr>) bsw = with_heap h (write_seq e dr bds bsm bsw)"
  by (induction bds arbitrary: bsm bsw) (simp_all add: bsm_must_write_block_heap with_heap_obind, simp add: with_heap_def obind_assoc case_prod_unfold)

text \<open>The readers in the heap, each with its current block and the blocks that follow.\<close>

definition heap_rel :: "'f env \<Rightarrow> BlockStreamReader list \<Rightarrow> nat list \<Rightarrow> (nat \<Rightarrow> BlockData list) \<Rightarrow> bool" where
  "heap_rel e bsrs h rest \<longleftrightarrow> readers.heap bsrs h \<and> distinct h \<and> set h \<subseteq> {..<length bsrs} \<and>
    (\<forall>i \<in> set h. rest_of e (bsrs ! i) (rest i) \<and> sorted_wrt bd_le (bsr_block_data (bsrs ! i) # rest i))"

definition heap_blocks :: "BlockStreamReader list \<Rightarrow> nat list \<Rightarrow> (nat \<Rightarrow> BlockData list) \<Rightarrow> BlockData list" where
  "heap_blocks bsrs h rest = concat (map (\<lambda>i. bsr_block_data (bsrs ! i) # rest i) h)"

lemma heap_blocks_mset: "mset (heap_blocks bsrs h rest) = (\<Sum>i\<in>#mset h. mset (bsr_block_data (bsrs ! i) # rest i))"
  by (induction h) (simp_all add: heap_blocks_def)

lemma heap_blocks_least:
  assumes "heap_rel e bsrs h rest" "bd \<in> set (heap_blocks bsrs h rest)"
  shows "bd_le (bsr_block_data (bsrs ! (h ! 0))) bd"
proof -
  obtain i where i: "i \<in> set h" "bd = bsr_block_data (bsrs ! i) \<or> bd \<in> set (rest i)" using assms(2) by (auto simp: heap_blocks_def)
  have "bd_key (bsr_block_data (bsrs ! (h ! 0))) \<le> bd_key (bsr_block_data (bsrs ! i))"
    using heap_root_least [of bsrs h i] assms(1) i(1) by (simp add: heap_rel_def reader_key_bd)
  moreover have "bd_key (bsr_block_data (bsrs ! i)) \<le> bd_key bd" using assms(1) i by (auto simp: heap_rel_def bd_le_key)
  ultimately show ?thesis by (simp add: bd_le_key)
qed

lemma heap_step:
  assumes r: "heap_rel e bsrs h rest" and h: "h \<noteq> []"
  obtains found bsr rest' where "next_block e (bsrs ! (h ! 0)) = Ok (found, bsr)" "h ! 0 < length bsrs"
    "heap_rel e (bsrs[h ! 0 := bsr]) (if found then heap_fix h 0 (bsrs[h ! 0 := bsr]) else heap_pop h (bsrs[h ! 0 := bsr])) rest'"
    "mset (heap_blocks bsrs h rest) = add_mset (bsr_block_data (bsrs ! (h ! 0)))
      (mset (heap_blocks (bsrs[h ! 0 := bsr]) (if found then heap_fix h 0 (bsrs[h ! 0 := bsr]) else heap_pop h (bsrs[h ! 0 := bsr])) rest'))"
proof -
  let ?i = "h ! 0"
  have i: "?i \<in> set h" using h by simp
  have f: "readers.heap bsrs h" "distinct h" "?i < length bsrs" "rest_of e (bsrs ! ?i) (rest ?i)" "sorted_wrt bd_le (bsr_block_data (bsrs ! ?i) # rest ?i)"
    using r i by (auto simp: heap_rel_def)
  have split: "mset h = add_mset ?i (mset h - {#?i#})" using i by simp
  have tl: "mset h - {#?i#} = mset (tl h)" "?i \<notin> set (tl h)" "distinct (tl h)" "set (tl h) \<subseteq> set h" using h f(2) by (cases h; auto)+
  have keep: "bsrs[?i := bsr] ! j = bsrs ! j" if "j \<in> set (tl h)" for j bsr using that tl(2) by (metis nth_list_update_neq)
  show ?thesis
  proof (cases "rest ?i")
    case Nil
    then obtain bsr where n: "next_block e (bsrs ! ?i) = Ok (False, bsr)" using f(4) by auto
    let ?b = "bsrs[?i := bsr]"
    note p = heap_pop_heap [OF f(1,2) h, of bsr]
    have set_pop: "set (heap_pop h ?b) = set_mset (mset h - {#?i#})" using p by (metis set_mset_mset)
    have dist: "distinct (heap_pop h ?b)" using p tl by (metis mset_eq_imp_distinct_iff)
    have "heap_rel e ?b (heap_pop h ?b) rest"
      using r p set_pop dist tl keep unfolding heap_rel_def by auto
    moreover have "mset (heap_blocks bsrs h rest) = add_mset (bsr_block_data (bsrs ! ?i)) (mset (heap_blocks ?b (heap_pop h ?b) rest))"
    proof -
      have "mset (heap_blocks ?b (heap_pop h ?b) rest) = (\<Sum>j\<in>#mset h - {#?i#}. mset (bsr_block_data (bsrs ! j) # rest j))"
        unfolding heap_blocks_mset using p keep tl(1) by (auto intro!: arg_cong [of _ _ sum_mset] image_mset_cong)
      moreover have "mset (heap_blocks bsrs h rest) = mset (bsr_block_data (bsrs ! ?i) # rest ?i) + (\<Sum>j\<in>#mset h - {#?i#}. mset (bsr_block_data (bsrs ! j) # rest j))"
        unfolding heap_blocks_mset by (subst split) simp
      ultimately show ?thesis by (simp add: Nil)
    qed
    ultimately show ?thesis using that [OF n f(3), of rest] by simp
  next
    case (Cons bd bds)
    then obtain bsr where n: "next_block e (bsrs ! ?i) = Ok (True, bsr)" "bsr_block_data bsr = bd" "rest_of e bsr bds" using f(4) by auto
    let ?b = "bsrs[?i := bsr]" and ?rest = "rest(?i := bds)"
    note p = heap_fix_heap [OF f(1,2) h, of bsr]
    have dist: "distinct (heap_fix h 0 ?b)" "set (heap_fix h 0 ?b) = set h" using p f(2) by (metis mset_eq_imp_distinct_iff, metis mset_eq_setD)
    have "heap_rel e ?b (heap_fix h 0 ?b) ?rest"
      using r p dist n f(3,5) Cons unfolding heap_rel_def by (auto simp: nth_list_update)
    moreover have "mset (heap_blocks bsrs h rest) = add_mset (bsr_block_data (bsrs ! ?i)) (mset (heap_blocks ?b (heap_fix h 0 ?b) ?rest))"
    proof -
      let ?m = "\<Sum>j\<in>#mset h - {#?i#}. mset (bsr_block_data (bsrs ! j) # rest j)"
      have "mset (heap_blocks ?b (heap_fix h 0 ?b) ?rest) = mset (bd # bds) + (\<Sum>j\<in>#mset h - {#?i#}. mset (bsr_block_data (?b ! j) # ?rest j))"
        unfolding heap_blocks_mset using p n(2) f(3) by (simp, subst split) simp
      also have "(\<Sum>j\<in>#mset h - {#?i#}. mset (bsr_block_data (?b ! j) # ?rest j)) = ?m"
        using keep tl(1,2) by (auto intro!: arg_cong [of _ _ sum_mset] image_mset_cong)
      finally have "mset (heap_blocks ?b (heap_fix h 0 ?b) ?rest) = mset (bd # bds) + ?m" .
      moreover have "mset (heap_blocks bsrs h rest) = mset (bsr_block_data (bsrs ! ?i) # rest ?i) + ?m"
        unfolding heap_blocks_mset by (subst split) simp
      ultimately show ?thesis by (simp add: Cons)
    qed
    ultimately show ?thesis using that [OF n(1) f(3), of ?rest] by simp
  qed
qed

lemma merge_loop_seq:
  assumes "heap_rel e bsrs h rest"
  shows "\<exists>seq. sorted_wrt bd_le seq \<and> mset seq = mset (heap_blocks bsrs h rest) \<and>
    (\<forall>k bsm bsw. bsm_readers_heap bsm = h \<longrightarrow> merge_loop e dr (\<lambda>_. False) k bsm bsrs bsw = with_heap [] (write_seq e dr seq bsm bsw))"
  using assms
proof (induction "length (heap_blocks bsrs h rest)" arbitrary: bsrs h rest)
  case 0
  then have "h = []" by (cases h) (auto simp: heap_blocks_def)
  then show ?case by (intro exI [of _ "[]"]) (auto simp: heap_blocks_def merge_loop.simps)
next
  case (Suc n)
  then have h: "h \<noteq> []" by (auto simp: heap_blocks_def)
  let ?i = "h ! 0"
  obtain found bsr rest' where s: "next_block e (bsrs ! ?i) = Ok (found, bsr)" "?i < length bsrs"
    "heap_rel e (bsrs[?i := bsr]) (if found then heap_fix h 0 (bsrs[?i := bsr]) else heap_pop h (bsrs[?i := bsr])) rest'"
    "mset (heap_blocks bsrs h rest) = add_mset (bsr_block_data (bsrs ! ?i))
      (mset (heap_blocks (bsrs[?i := bsr]) (if found then heap_fix h 0 (bsrs[?i := bsr]) else heap_pop h (bsrs[?i := bsr])) rest'))"
    by (rule heap_step [OF Suc.prems h])
  define h' where "h' = (if found then heap_fix h 0 (bsrs[?i := bsr]) else heap_pop h (bsrs[?i := bsr]))"
  have n: "n = length (heap_blocks (bsrs[?i := bsr]) h' rest')" using Suc.hyps(2) arg_cong [OF s(4), of size] by (simp add: h'_def)
  obtain seq where seq: "sorted_wrt bd_le seq" "mset seq = mset (heap_blocks (bsrs[?i := bsr]) h' rest')"
      "\<And>k bsm bsw. bsm_readers_heap bsm = h' \<Longrightarrow> merge_loop e dr (\<lambda>_. False) k bsm (bsrs[?i := bsr]) bsw = with_heap [] (write_seq e dr seq bsm bsw)"
    using Suc.hyps(1) [OF n s(3) [folded h'_def]] by blast
  have le: "bd_le (bsr_block_data (bsrs ! ?i)) bd" if "bd \<in> set seq" for bd
  proof (rule heap_blocks_least [OF Suc.prems])
    have "set (heap_blocks bsrs h rest) = insert (bsr_block_data (bsrs ! ?i)) (set (heap_blocks (bsrs[?i := bsr]) h' rest'))"
      using arg_cong [OF s(4), of set_mset] by (simp add: h'_def)
    then show "bd \<in> set (heap_blocks bsrs h rest)" using that mset_eq_setD [OF seq(2)] by simp
  qed
  have "merge_loop e dr (\<lambda>_. False) k bsm bsrs bsw = with_heap [] (write_seq e dr (bsr_block_data (bsrs ! ?i) # seq) bsm bsw)"
    if b: "bsm_readers_heap bsm = h" for k bsm bsw
  proof -
    have "merge_loop e dr (\<lambda>_. False) k bsm bsrs bsw = obind (bsm_must_write_block e dr (bsr_block_data (bsrs ! ?i)) bsm bsw) (\<lambda>(bsm, bsw).
        merge_loop e dr (\<lambda>_. False) (Suc k) (bsm\<lparr>bsm_readers_heap := h'\<rparr>) (bsrs[?i := bsr]) bsw)"
      using h s(1,2) b by (subst merge_loop.simps) (simp add: Let_def h'_def)
    also have "\<dots> = obind (bsm_must_write_block e dr (bsr_block_data (bsrs ! ?i)) bsm bsw) (\<lambda>(bsm, bsw). with_heap [] (write_seq e dr seq bsm bsw))"
      by (simp add: seq(3) write_seq_heap)
    finally show ?thesis by (simp add: with_heap_obind case_prod_unfold)
  qed
  then show ?case using seq(1,2) le s(4) by (intro exI [of _ "bsr_block_data (bsrs ! ?i) # seq"]) (simp add: h'_def)
qed

lemma open_blocks_rel:
  assumes "list_all2 (rest_of e) bsrs bdss"
  shows "\<exists>h bsrs'. open_blocks e k bsrs = Ok (h, bsrs') \<and> length bsrs' = length bsrs \<and> distinct h \<and> set h \<subseteq> {k..<k + length bsrs} \<and>
    (\<forall>i \<in> set h. rest_of e (bsrs' ! (i - k)) (tl (bdss ! (i - k))) \<and> bdss ! (i - k) = bsr_block_data (bsrs' ! (i - k)) # tl (bdss ! (i - k))) \<and>
    concat (map (\<lambda>i. bdss ! (i - k)) h) = concat bdss"
  using assms
proof (induction arbitrary: k rule: list_all2_induct)
  case (Cons bsr bsrs bds bdss)
  obtain h bsrs' where IH: "open_blocks e (Suc k) bsrs = Ok (h, bsrs')" "length bsrs' = length bsrs" "distinct h" "set h \<subseteq> {Suc k..<Suc k + length bsrs}"
      "\<And>i. i \<in> set h \<Longrightarrow> rest_of e (bsrs' ! (i - Suc k)) (tl (bdss ! (i - Suc k))) \<and> bdss ! (i - Suc k) = bsr_block_data (bsrs' ! (i - Suc k)) # tl (bdss ! (i - Suc k))"
      "concat (map (\<lambda>i. bdss ! (i - Suc k)) h) = concat bdss"
    using Cons.IH [of "Suc k"] by auto
  have kk: "i - k = Suc (i - Suc k)" if "i \<in> set h" for i
  proof -
    have "Suc k \<le> i" using that IH(4) by auto
    then show ?thesis by simp
  qed
  have sh': "(x # xs) ! (i - k) = xs ! (i - Suc k)" if "i \<in> set h" for i x and xs :: "BlockStreamReader list"
    unfolding kk [OF that] by simp
  have sh2: "(x # xs) ! (i - k) = xs ! (i - Suc k)" if "i \<in> set h" for i x and xs :: "BlockData list list"
    unfolding kk [OF that] by simp
  have con: "concat (map (\<lambda>i. (bds # bdss) ! (i - k)) h) = concat bdss"
    using IH(6) sh2 by (metis (mono_tags, lifting) map_eq_conv)
  show ?case
  proof (cases bds)
    case Nil
    then obtain b where "next_block e bsr = Ok (False, b)" using Cons(1) by auto
    then have "open_blocks e k (bsr # bsrs) = Ok (h, b # bsrs')" using IH(1) by simp
    then show ?thesis using IH sh' sh2 con Nil by (intro exI [of _ h] exI [of _ "b # bsrs'"]) auto
  next
    case c: (Cons bd bds')
    then obtain b where b: "next_block e bsr = Ok (True, b)" "bsr_block_data b = bd" "rest_of e b bds'" using Cons(1) by auto
    then have "open_blocks e k (bsr # bsrs) = Ok (k # h, b # bsrs')" using IH(1) by simp
    moreover have "k \<notin> set h" using IH(4) by auto
    ultimately show ?thesis using IH sh' sh2 con c b by (intro exI [of _ "k # h"] exI [of _ "b # bsrs'"]) auto
  qed
qed simp

lemma bsm_reset_default: "bsm_reset bsm_default = bsm_default"
  by (simp add: bsm_reset_def reset_rows_def bsm_default_def no_rows_def rows_reset_def)

lemma with_heap_bind: "obind (with_heap h m) f = obind m (\<lambda>(bsm, bsw). f (bsm\<lparr>bsm_readers_heap := h\<rparr>, bsw))"
  by (simp add: with_heap_def obind_assoc case_prod_unfold)

text \<open>
  The merge of streams of ordered blocks is the merger run on all their blocks in order of stream and
  first timestamp.
\<close>

lemma merge_streams_seq:
  assumes "list_all2 (\<lambda>bsr bds. read_blocks e (Suc (length bds)) bsr = Ok bds) bsrs bdss" "list_all (sorted_wrt bd_le) bdss"
  shows "\<exists>seq. sorted_wrt bd_le seq \<and> mset seq = mset (concat bdss) \<and>
    must_merge_block_streams e dr (\<lambda>_. False) bsw bsrs =
      obind (write_seq e dr seq bsm_default bsw) (\<lambda>(bsm, bsw). obind (must_flush_rows e bsm bsw) (\<lambda>(bsm, bsw). finalize e bsw))"
proof -
  have r: "list_all2 (rest_of e) bsrs bdss" using assms(1) by (rule list_all2_mono) (rule read_blocks_rest)
  obtain h bsrs' where o: "open_blocks e 0 bsrs = Ok (h, bsrs')" "length bsrs' = length bsrs" "distinct h" "set h \<subseteq> {0..<length bsrs}"
      "\<And>i. i \<in> set h \<Longrightarrow> rest_of e (bsrs' ! i) (tl (bdss ! i)) \<and> bdss ! i = bsr_block_data (bsrs' ! i) # tl (bdss ! i)"
      "concat (map (\<lambda>i. bdss ! i) h) = concat bdss"
    using open_blocks_rel [OF r, of 0] by auto
  let ?h = "heap_init h bsrs'" and ?rest = "\<lambda>i. tl (bdss ! i)"
  note hi = heap_init_heap [of bsrs' h]
  have hs: "set ?h = set h" "distinct ?h" using hi o(3) by (metis mset_eq_setD, metis mset_eq_imp_distinct_iff)
  have len: "length bdss = length bsrs" using r by (simp add: list_all2_lengthD)
  have "sorted_wrt bd_le (bsr_block_data (bsrs' ! i) # ?rest i)" if "i \<in> set h" for i
  proof -
    have "bdss ! i \<in> set bdss" using that o(4) len by auto
    then show ?thesis using assms(2) o(5) [OF that] by (auto simp: list_all_iff)
  qed
  then have "heap_rel e bsrs' ?h ?rest" using hi hs o by (auto simp: heap_rel_def)
  from merge_loop_seq [OF this, of dr] obtain seq where s: "sorted_wrt bd_le seq" "mset seq = mset (heap_blocks bsrs' ?h ?rest)"
      "\<And>k bsm bsw. bsm_readers_heap bsm = ?h \<Longrightarrow> merge_loop e dr (\<lambda>_. False) k bsm bsrs' bsw = with_heap [] (write_seq e dr seq bsm bsw)" by blast
  have "mset (heap_blocks bsrs' ?h ?rest) = mset (heap_blocks bsrs' h ?rest)" using hi by (simp add: heap_blocks_mset)
  also have "heap_blocks bsrs' h ?rest = concat bdss" unfolding heap_blocks_def o(6) [symmetric] using o(5) by (metis (mono_tags, lifting) map_eq_conv)
  finally have m: "mset seq = mset (concat bdss)" using s(2) by simp
  have "must_merge_block_streams e dr (\<lambda>_. False) bsw bsrs =
      obind (write_seq e dr seq bsm_default bsw) (\<lambda>(bsm, bsw). obind (must_flush_rows e bsm bsw) (\<lambda>(bsm, bsw). finalize e bsw))"
    by (simp add: must_merge_block_streams_def bsm_must_init_def o(1) bsm_reset_default s(3) write_seq_heap with_heap_bind must_flush_rows_heap obind_assoc case_prod_unfold)
  then show ?thesis using s(1) m by blast
qed


text \<open>C10: A merge ends and takes every block once, in order. Whatever block streams are merged, each ordered by
  stream and first timestamp, the loop over the heap of readers stops after the last block of the last reader, and what it
  does is to hand all the blocks of all the streams to the merger, ordered by stream and first timestamp, then to
  flush what is pending and to finalize the part. This holds for any drop filter, writer and content of the blocks.\<close>

theorem merge_visits_blocks_in_order:
  assumes "list_all2 (\<lambda>bsr bds. read_blocks e (Suc (length bds)) bsr = Ok bds) bsrs bdss" "list_all (sorted_wrt bd_le) bdss"
  shows "\<exists>seq. sorted_wrt bd_le seq \<and> mset seq = mset (concat bdss) \<and>
    must_merge_block_streams e dr (\<lambda>_. False) bsw bsrs =
      obind (write_seq e dr seq bsm_default bsw) (\<lambda>(bsm, bsw). obind (must_flush_rows e bsm bsw) (\<lambda>(bsm, bsw). finalize e bsw))"
  using merge_streams_seq [OF assms] .

theorem merge_visits_blocks_in_order_witness:
  "\<exists>a b. read_blocks env_demo 2 a = Ok [bd_demo 0] \<and> read_blocks env_demo 2 b = Ok [bd_demo 5] \<and>
    must_merge_block_streams env_demo None (\<lambda>_. False) must_init_for_file_part [b, a] =
      obind (write_seq env_demo None [bd_demo 0, bd_demo 5] bsm_default must_init_for_file_part)
        (\<lambda>(bsm, bsw). obind (must_flush_rows env_demo bsm bsw) (\<lambda>(bsm, bsw). finalize env_demo bsw))"
proof -
  have part: "\<exists>bsr. read_blocks env_demo 2 bsr = Ok [bd_demo t]" if h: "t = 0 \<or> t = 5" for t
  proof -
    have o: "sorted_wrt bd_le [bd_default, bd_demo t]" using h by (auto simp: bd_le_def bd_demo_def bd_default_def word_sle_eq)
    have f: "blocks_fit [bd_demo t]" by (simp add: blocks_fit_def bd_demo_def)
    have z: "zstd_ok (e_zstd env_demo)" "order_ok env_demo" by (simp_all add: env_demo_def order_ok_def)
    obtain bsr where "\<forall>n > length [bd_demo t]. read_blocks env_demo n bsr = Ok [bd_demo t]"
      using part_written_read [OF z _ o f, of False] bd_demo_storable [OF h] by auto
    then show ?thesis by (intro exI [of _ bsr]) simp
  qed
  obtain a b where ab: "read_blocks env_demo 2 a = Ok [bd_demo 0]" "read_blocks env_demo 2 b = Ok [bd_demo 5]" using part by blast
  have "length [bd] = 1" for bd :: BlockData by simp
  then have h: "list_all2 (\<lambda>bsr bds. read_blocks env_demo (Suc (length bds)) bsr = Ok bds) [b, a] [[bd_demo 5], [bd_demo 0]]"
    using ab by (simp del: read_blocks.simps length_Cons list.size add: numeral_2_eq_2)
  obtain seq where s: "sorted_wrt bd_le seq" "mset seq = {#bd_demo 5, bd_demo 0#}"
      "must_merge_block_streams env_demo None (\<lambda>_. False) must_init_for_file_part [b, a] =
        obind (write_seq env_demo None seq bsm_default must_init_for_file_part)
          (\<lambda>(bsm, bsw). obind (must_flush_rows env_demo bsm bsw) (\<lambda>(bsm, bsw). finalize env_demo bsw))"
    using merge_visits_blocks_in_order [OF h, of None must_init_for_file_part] by auto
  have "seq = [bd_demo 0, bd_demo 5]"
  proof -
    have "length seq = 2" using arg_cong [OF s(2), of size_class.size] by simp
    then obtain x y where xy: "seq = [x, y]" by (auto simp: numeral_2_eq_2 length_Suc_conv)
    then have "x = bd_demo 5 \<and> y = bd_demo 0 \<or> x = bd_demo 0 \<and> y = bd_demo 5" using s(2) by (auto simp: add_eq_conv_diff split: if_splits)
    moreover have "\<not> bd_le (bd_demo 5) (bd_demo 0)" by (simp add: bd_le_def bd_demo_def bd_default_def word_sle_eq)
    ultimately show ?thesis using s(1) xy by auto
  qed
  then show ?thesis using ab s(3) by blast
qed

end
