(* ===== verification/Merge_Rows.thy ===== *)
theory Merge_Rows
  imports Merger
begin

text \<open>
  What the merge of \<^verbatim>\<open>block_stream_merger.rs\<close> does to the rows. \<open>minv\<close> is the invariant of the merger after a sequence of
  blocks: every kept row is in a block written so far or pending, the blocks are in order, nothing is beyond the last key.
  Every branch of \<open>must_write_block\<close> keeps it and never panics (\<open>must_write_block_step\<close>), and at the end the written part holds
  exactly the rows of the merged streams that the drop filter does not match.

  The definitions of this theory state what is proved; the code is modelled in \<open>Merger\<close>.
\<close>

subsection \<open>What unpacking a block contributes\<close>

lemma unmarshal_bytes_block_append:
  "unmarshal_bytes_block z dst src = obind (unmarshal_bytes_block z [] src) (\<lambda>(d, t). Ok (dst @ d, t))"
  by (simp add: unmarshal_bytes_block_def Let_def split: list.splits prod.splits option.splits)

lemma sbu_unmarshal_eq:
  "sbu_unmarshal z sbu dst src n =
    obind (map_err StringLens (unmarshal_uint64_block z [] src n)) (\<lambda>(a_lens, src).
    obind (map_err StringBytes (unmarshal_bytes_block z [] src)) (\<lambda>(d, tail).
    let sbu' = sbu\<lparr>sbu_data := sbu_data sbu @ d\<rparr> in
    if tail \<noteq> [] then Err (StringTail (length tail))
    else if length a_lens \<ge> 2 \<and> are_const_uint64s a_lens \<and> length d = unat (a_lens ! 0) then Ok (sbu', dst @ replicate (length a_lens) d)
    else obind (split_strings a_lens d) (\<lambda>ss. Ok (sbu', dst @ ss))))"
proof -
  have u: "map_err StringBytes (unmarshal_bytes_block z (sbu_data sbu) s) =
      obind (map_err StringBytes (unmarshal_bytes_block z [] s)) (\<lambda>(d, t). Ok (sbu_data sbu @ d, t))" for s
    by (subst unmarshal_bytes_block_append) (cases "unmarshal_bytes_block z [] s", auto)
  show ?thesis unfolding sbu_unmarshal_def u by (simp add: obind_assoc case_prod_unfold Let_def cong: if_cong)
qed

lemma sbu_unmarshal_any:
  "sbu_unmarshal z sbu dst src n = Ok (s1, vs) \<Longrightarrow> \<exists>s2. sbu_unmarshal z sbu' dst src n = Ok (s2, vs)"
  unfolding sbu_unmarshal_eq by (auto simp: obind_Ok_iff Let_def split: if_splits)

lemma unpack_columns_any:
  "unpack_columns e i n cds sbu = Ok (cs, s1) \<Longrightarrow> \<exists>s2. unpack_columns e i n cds sbu' = Ok (cs, s2)"
proof (induction cds arbitrary: i cs sbu sbu' s1)
  case (Cons cd cds)
  obtain s2 vals where u: "sbu_unmarshal (e_zstd e) sbu [] (cd_values_data cd) n = Ok (s2, vals)"
    using Cons.prems by (auto simp: obind_Ok_iff)
  obtain s3 where v: "sbu_unmarshal (e_zstd e) sbu' [] (cd_values_data cd) n = Ok (s3, vals)" using sbu_unmarshal_any [OF u] by blast
  show ?case using Cons.prems Cons.IH [of "Suc i" s2 _ _ s3] by (fastforce simp: obind_Ok_iff u v)
qed simp

lemma unmarshal_rows_any:
  assumes "stored_rows e bd = Some rs" "rows_wf dst"
  shows "\<exists>dst' sbu'. unmarshal_rows e bd dst sbu = Ok (dst', sbu') \<and> rows_wf dst' \<and> rows_of dst' = rows_of dst @ rs"
proof -
  obtain b s1 where i: "init_from_block_data e bd \<lparr>sbu_data = []\<rparr> = Ok (b, s1)" "rs = rows_of (append_rows_to b \<lparr>rs_timestamps = [], rs_rows = []\<rparr>)"
    using assms(1) by (auto simp: stored_rows_def unmarshal_rows_def obind_Ok_iff split: outcome.splits)
  have "\<exists>s2. init_from_block_data e bd sbu = Ok (b, s2)"
    using i(1) unpack_columns_any by (fastforce simp: init_from_block_data_def Let_def obind_Ok_iff split: if_splits)
  moreover have "rows_wf (append_rows_to b dst)" "rows_of (append_rows_to b dst) = rows_of dst @ rs"
    using assms(2) i(2) by (simp_all add: append_rows_to_def append_rows_def rows_wf_def rows_of_def)
  ultimately show ?thesis by (auto simp: unmarshal_rows_def)
qed

text \<open>
  A block as this program writes it: it can be stored and unpacked, its rows are sorted, its header
  tells the first and last timestamp and at least the size of the rows.
\<close>

definition sound_block :: "'f env \<Rightarrow> nat \<Rightarrow> BlockData \<Rightarrow> bool" where
  "sound_block e B bd \<longleftrightarrow> storable e bd \<and> unat (bd_uncompressed_size_bytes bd) \<le> B \<and>
    (case stored_rows e bd of
       None \<Rightarrow> False
     | Some rs \<Rightarrow> rs \<noteq> [] \<and> timestamps_sorted (map fst rs) \<and> fst (hd rs) = td_min_timestamp (bd_timestamps_data bd) \<and>
         fst (last rs) = td_max_timestamp (bd_timestamps_data bd) \<and>
         uncompressed_rows_size_bytes (map snd rs) \<le> unat (bd_uncompressed_size_bytes bd))"

definition block_items :: "'f env \<Rightarrow> BlockData \<Rightarrow> (StreamID \<times> i64 \<times> row) list" where
  "block_items e bd = (case stored_rows e bd of None \<Rightarrow> [] | Some rs \<Rightarrow> map (Pair (bd_stream_id bd)) rs)"

text \<open>The rows a merge with a drop filter drops.\<close>

definition dropped :: "DropFilterCtx option \<Rightarrow> StreamID \<times> i64 \<times> row \<Rightarrow> bool" where
  "dropped dr x = (case dr of None \<Rightarrow> False
     | Some d \<Rightarrow> match_stream_id d (fst x) \<and> drops_row (pso_filter d) (idb_stream_string d (fst x)) (stream_id_marshal_string [] (fst x)) (fst (snd x)) (snd (snd x)))"

definition has_fields :: "StreamID \<times> i64 \<times> row \<Rightarrow> bool" where
  "has_fields x \<longleftrightarrow> snd (snd x) \<noteq> []"

text \<open>What unpacking a block adds to the pending rows.\<close>

definition block_kept :: "'f env \<Rightarrow> DropFilterCtx option \<Rightarrow> BlockData \<Rightarrow> (i64 \<times> row) list" where
  "block_kept e dr bd =
    (let rs = the (stored_rows e bd); td = bd_timestamps_data bd; s = bd_stream_id bd
     in case dr of
          None \<Rightarrow> rs
        | Some d \<Rightarrow> if need_drop_rows dr s (td_min_timestamp td) (td_max_timestamp td)
                   then kept_rows (drops_row (pso_filter d) (idb_stream_string d s) (stream_id_marshal_string [] s)) rs else rs)"

lemma row_len_pos: "0 < estimated_json_row_len r" "estimated_json_row_len [] \<le> estimated_json_row_len r"
  by (simp_all add: estimated_json_row_len_def)

lemma kept_rows_facts:
  assumes "rs \<noteq> []" "sorted_wrt (\<le>s) (map fst rs)"
  shows "kept_rows p rs \<noteq> []" "sorted_wrt (\<le>s) (map fst (kept_rows p rs))" "fst (hd (kept_rows p rs)) = fst (hd rs)"
    "uncompressed_rows_size_bytes (map snd (kept_rows p rs)) \<le> uncompressed_rows_size_bytes (map snd rs)"
    "filter (\<lambda>x. snd x \<noteq> []) (kept_rows p rs) = filter (\<lambda>x. snd x \<noteq> []) (filter (\<lambda>(t, r). \<not> p t r) rs)"
proof -
  obtain t r xs where rs: "rs = (t, r) # xs" using assms(1) by (cases rs) auto
  have k: "kept_rows p ((t, r) # xs) = (t, if p t r then [] else r) # filter (\<lambda>(t, r). \<not> p t r) xs" by (simp add: kept_rows_def)
  show "kept_rows p rs \<noteq> []" "fst (hd (kept_rows p rs)) = fst (hd rs)" by (simp_all add: k rs)
  show "sorted_wrt (\<le>s) (map fst (kept_rows p rs))" using assms(2) by (auto simp: k rs sorted_wrt_map intro: sorted_wrt_filter)
  have "uncompressed_rows_size_bytes (map snd (filter q ys)) \<le> uncompressed_rows_size_bytes (map snd ys)" for q :: "i64 \<times> row \<Rightarrow> bool" and ys
    by (induction ys) (auto simp: uncompressed_rows_size_bytes_def)
  then show "uncompressed_rows_size_bytes (map snd (kept_rows p rs)) \<le> uncompressed_rows_size_bytes (map snd rs)"
    using row_len_pos(2) [of r] by (auto simp: k rs uncompressed_rows_size_bytes_def intro: add_mono)
  show "filter (\<lambda>x. snd x \<noteq> []) (kept_rows p rs) = filter (\<lambda>x. snd x \<noteq> []) (filter (\<lambda>(t, r). \<not> p t r) rs)"
    by (simp add: k rs)
qed

lemma sound_blockE:
  assumes "sound_block e B bd"
  obtains rs where "stored_rows e bd = Some rs" "rs \<noteq> []" "sorted_wrt (\<le>s) (map fst rs)" "fst (hd rs) = td_min_timestamp (bd_timestamps_data bd)"
    "fst (last rs) = td_max_timestamp (bd_timestamps_data bd)" "uncompressed_rows_size_bytes (map snd rs) \<le> unat (bd_uncompressed_size_bytes bd)"
    "storable e bd" "unat (bd_uncompressed_size_bytes bd) \<le> B" "bd_rows_count bd \<noteq> 0"
  using assms by (auto simp: sound_block_def timestamps_sorted_iff storable_def split: option.splits)

lemma sorted_bounds: "sorted_wrt (\<le>s) (map fst rs) \<Longrightarrow> x \<in> set rs \<Longrightarrow> fst (hd rs) \<le>s fst x \<and> fst x \<le>s fst (last rs)"
proof (induction rs)
  case (Cons a rs)
  then show ?case by (cases rs) (auto simp: word_sle_eq intro: order_trans)
qed simp

text \<open>A block outside the filter has no row to drop.\<close>

lemma not_needed_keeps:
  assumes "sound_block e B bd" "\<not> need_drop_rows dr (bd_stream_id bd) (td_min_timestamp (bd_timestamps_data bd)) (td_max_timestamp (bd_timestamps_data bd))"
  shows "block_kept e dr bd = the (stored_rows e bd)" "filter (\<lambda>x. \<not> dropped dr x) (block_items e bd) = block_items e bd"
proof -
  show "block_kept e dr bd = the (stored_rows e bd)" using assms(2) by (cases dr) (simp_all add: block_kept_def Let_def)
  obtain rs where rs: "stored_rows e bd = Some rs" "sorted_wrt (\<le>s) (map fst rs)" "fst (hd rs) = td_min_timestamp (bd_timestamps_data bd)"
      "fst (last rs) = td_max_timestamp (bd_timestamps_data bd)"
    using assms(1) by (rule sound_blockE)
  have "\<not> dropped dr (bd_stream_id bd, t, r)" if x: "(t, r) \<in> set rs" for t r
  proof (cases dr)
    case (Some d)
    have "td_min_timestamp (bd_timestamps_data bd) \<le>s t" "t \<le>s td_max_timestamp (bd_timestamps_data bd)"
      using sorted_bounds [OF rs(2) x] rs(3,4) by simp_all
    then show ?thesis using assms(2) Some
      by (auto simp: dropped_def need_drop_rows_def match_time_range_def drops_row_def word_sle_eq)
  qed (simp add: dropped_def)
  then show "filter (\<lambda>x. \<not> dropped dr x) (block_items e bd) = block_items e bd" by (auto simp: block_items_def rs(1) filter_id_conv)
qed

lemma block_kept_facts:
  assumes "sound_block e B bd"
  shows "block_kept e dr bd \<noteq> []" "sorted_wrt (\<le>s) (map fst (block_kept e dr bd))"
    "fst (hd (block_kept e dr bd)) = td_min_timestamp (bd_timestamps_data bd)"
    "uncompressed_rows_size_bytes (map snd (block_kept e dr bd)) \<le> unat (bd_uncompressed_size_bytes bd)"
    "filter has_fields (map (Pair (bd_stream_id bd)) (block_kept e dr bd)) = filter has_fields (filter (\<lambda>x. \<not> dropped dr x) (block_items e bd))"
proof -
  obtain rs where rs: "stored_rows e bd = Some rs" "rs \<noteq> []" "sorted_wrt (\<le>s) (map fst rs)" "fst (hd rs) = td_min_timestamp (bd_timestamps_data bd)"
      "uncompressed_rows_size_bytes (map snd rs) \<le> unat (bd_uncompressed_size_bytes bd)"
    using assms by (rule sound_blockE)
  let ?nd = "need_drop_rows dr (bd_stream_id bd) (td_min_timestamp (bd_timestamps_data bd)) (td_max_timestamp (bd_timestamps_data bd))"
  consider (plain) "\<not> ?nd" | (drop) d where "dr = Some d" ?nd by (cases dr) (auto simp: need_drop_rows_def)
  then have "block_kept e dr bd \<noteq> [] \<and> sorted_wrt (\<le>s) (map fst (block_kept e dr bd)) \<and>
    fst (hd (block_kept e dr bd)) = td_min_timestamp (bd_timestamps_data bd) \<and>
    uncompressed_rows_size_bytes (map snd (block_kept e dr bd)) \<le> unat (bd_uncompressed_size_bytes bd) \<and>
    filter has_fields (map (Pair (bd_stream_id bd)) (block_kept e dr bd)) = filter has_fields (filter (\<lambda>x. \<not> dropped dr x) (block_items e bd))"
  proof cases
    case plain
    then show ?thesis using not_needed_keeps [OF assms, of dr] rs by (simp add: block_items_def)
  next
    case drop
    let ?p = "drops_row (pso_filter d) (idb_stream_string d (bd_stream_id bd)) (stream_id_marshal_string [] (bd_stream_id bd))"
    have k: "block_kept e dr bd = kept_rows ?p rs" using drop rs(1) by (simp add: block_kept_def Let_def)
    have m: "match_stream_id d (bd_stream_id bd)" using drop by (simp add: need_drop_rows_def)
    have "filter has_fields (map (Pair (bd_stream_id bd)) (kept_rows ?p rs)) = map (Pair (bd_stream_id bd)) (filter (\<lambda>x. snd x \<noteq> []) (kept_rows ?p rs))"
      by (simp add: filter_map has_fields_def comp_def)
    also have "\<dots> = map (Pair (bd_stream_id bd)) (filter (\<lambda>x. snd x \<noteq> []) (filter (\<lambda>(t, r). \<not> ?p t r) rs))" by (simp add: kept_rows_facts(5) [OF rs(2,3)])
    also have "\<dots> = filter has_fields (filter (\<lambda>x. \<not> dropped dr x) (map (Pair (bd_stream_id bd)) rs))"
      by (simp add: filter_map has_fields_def dropped_def drop(1) m comp_def case_prod_unfold)
    finally show ?thesis using kept_rows_facts(1-4) [OF rs(2,3), of ?p] rs by (simp add: k block_items_def)
  qed
  then show "block_kept e dr bd \<noteq> []" "sorted_wrt (\<le>s) (map fst (block_kept e dr bd))"
    "fst (hd (block_kept e dr bd)) = td_min_timestamp (bd_timestamps_data bd)"
    "uncompressed_rows_size_bytes (map snd (block_kept e dr bd)) \<le> unat (bd_uncompressed_size_bytes bd)"
    "filter has_fields (map (Pair (bd_stream_id bd)) (block_kept e dr bd)) = filter has_fields (filter (\<lambda>x. \<not> dropped dr x) (block_items e bd))"
    by blast+
qed

text \<open>The buffers of the merger hold the rendered stream, when the drop filter asks for it.\<close>

definition bufs_ok :: "DropFilterCtx option \<Rightarrow> StreamID \<Rightarrow> BlockStreamMerger \<Rightarrow> bool" where
  "bufs_ok dr s bsm \<longleftrightarrow> (\<forall>d. dr = Some d \<and> match_stream_id d s \<longrightarrow>
    bsm_stream_buf bsm = idb_stream_string d s \<and> bsm_stream_id_buf bsm = stream_id_marshal_string [] s \<and> is_utf8 (idb_stream_string d s))"

lemma marshal_hex_ascii: "\<forall>b \<in> set (marshal_byte_hex [] b0). b < 128"
proof -
  have a: "\<forall>b \<in> set HEX_BYTE_MAP. b < 128" "length HEX_BYTE_MAP = 16" by code_simp+
  then show ?thesis using nibble_lt by (simp add: marshal_byte_hex_def)
qed

lemma stream_id_string_utf8: "is_utf8 (stream_id_marshal_string [] s)"
proof (rule is_utf8_ascii)
  show "\<forall>b \<in> set (stream_id_marshal_string [] s). b < 128"
    using marshal_hex_ascii by (auto simp: stream_id_marshal_string_def u128_marshal_string_def tenant_id_marshal_string_def marshal_uint64_hex_eq)
qed

lemma skip_rows_wf:
  assumes "rows_wf rs" "offset \<le> length (rs_timestamps rs)"
  shows "rows_wf (skip_rows_by_drop_filter df offset stream stream_id rs)"
proof -
  define p where "p = (\<lambda>t r. \<not> (t <s df_min df \<or> df_max df <s t) \<and> df_match df (row_fields_for_filter df stream stream_id t r))"
  obtain w rs' where l: "drop_loop p offset 0 offset rs = (w, rs')" by fastforce
  show ?thesis using drop_loop_spec [OF assms l] unfolding skip_rows_by_drop_filter_def Let_def p_def [symmetric] l by (simp add: rows_wf_def)
qed

lemma must_unmarshal_rows_kept:
  assumes "sound_block e B bd" "rows_wf (bsm_rows bsm)" "bufs_ok dr (bd_stream_id bd) bsm"
  obtains R sbu where "must_unmarshal_rows e dr bd bsm = Ok (bsm\<lparr>bsm_rows := R, bsm_sbu := sbu, bsm_uncompressed_rows_size_bytes :=
      bsm_uncompressed_rows_size_bytes bsm + of_nat (uncompressed_rows_size_bytes (map snd (block_kept e dr bd)))\<rparr>)"
    "rows_wf R" "rows_of R = rows_of (bsm_rows bsm) @ block_kept e dr bd"
proof -
  let ?td = "bd_timestamps_data bd" and ?n = "length (rs_timestamps (bsm_rows bsm))"
  let ?nd = "need_drop_rows dr (bd_stream_id bd) (td_min_timestamp ?td) (td_max_timestamp ?td)"
  obtain rs where rs: "stored_rows e bd = Some rs" using assms(1) by (rule sound_blockE)
  obtain dst sbu where u: "unmarshal_rows e bd (bsm_rows bsm) (case bsm_sbu bsm of None \<Rightarrow> \<lparr>sbu_data = []\<rparr> | Some sbu \<Rightarrow> sbu) = Ok (dst, sbu)"
      "rows_wf dst" "rows_of dst = rows_of (bsm_rows bsm) @ rs"
    using unmarshal_rows_any [OF rs assms(2)] by blast
  have len: "length (rows_of (bsm_rows bsm)) = ?n" using assms(2) by (simp add: rows_of_def rows_wf_def)
  have tail: "drop ?n (rs_rows R) = map snd k" if "rows_wf R" "rows_of R = rows_of (bsm_rows bsm) @ k" for R k
  proof -
    have "rs_rows R = map snd (rows_of R)" using that(1) by (simp add: rows_of_def rows_wf_def)
    then show ?thesis using that(2) len by simp
  qed
  show thesis
  proof (cases ?nd)
    case False
    then have "must_unmarshal_rows e dr bd bsm = Ok (bsm\<lparr>bsm_rows := dst, bsm_sbu := Some sbu, bsm_uncompressed_rows_size_bytes :=
        bsm_uncompressed_rows_size_bytes bsm + of_nat (uncompressed_rows_size_bytes (map snd (block_kept e dr bd)))\<rparr>)"
      using u not_needed_keeps(1) [OF assms(1) False] rs tail [OF u(2,3)]
      by (cases dr) (simp_all add: must_unmarshal_rows_def Let_def)
    then show thesis using that u(2,3) not_needed_keeps(1) [OF assms(1) False] rs by simp
  next
    case True
    then obtain d where d: "dr = Some d" "match_stream_id d (bd_stream_id bd)" by (cases dr) (auto simp: need_drop_rows_def)
    have b: "bsm_stream_buf bsm = idb_stream_string d (bd_stream_id bd)" "bsm_stream_id_buf bsm = stream_id_marshal_string [] (bd_stream_id bd)"
        "is_utf8 (idb_stream_string d (bd_stream_id bd))"
      using assms(3) d by (simp_all add: bufs_ok_def)
    define R where "R = skip_rows_by_drop_filter (pso_filter d) ?n (bsm_stream_buf bsm) (bsm_stream_id_buf bsm) dst"
    have n: "?n \<le> length (rs_timestamps dst)" using arg_cong [OF u(3), of length] u(2) len by (simp add: rows_of_def rows_wf_def)
    have k: "rows_of R = rows_of (bsm_rows bsm) @ block_kept e dr bd"
      using skip_rows_kept [OF u(2) n] u(3) len True d rs by (simp add: R_def b block_kept_def Let_def)
    have wf: "rows_wf R" unfolding R_def by (rule skip_rows_wf [OF u(2) n])
    have "must_unmarshal_rows e dr bd bsm = Ok (bsm\<lparr>bsm_rows := R, bsm_sbu := Some sbu, bsm_uncompressed_rows_size_bytes :=
        bsm_uncompressed_rows_size_bytes bsm + of_nat (uncompressed_rows_size_bytes (map snd (block_kept e dr bd)))\<rparr>)"
    proof -
      have sk: "skip_rows_by_drop_filter (pso_filter d) ?n (bsm_stream_buf bsm) (bsm_stream_id_buf bsm) dst = R" by (simp add: R_def)
      have ok: "is_utf8 (bsm_stream_buf bsm)" "is_utf8 (bsm_stream_id_buf bsm)" using b stream_id_string_utf8 by simp_all
      show ?thesis unfolding must_unmarshal_rows_def Let_def u(1) d(1) using True [unfolded d(1)] tail [OF wf k] by (simp add: ok sk d(1))
    qed
    then show thesis using that wf k by blast
  qed
qed

subsection \<open>The state of the merger\<close>

text \<open>
  Any rows of one stream out of the multiset \<open>X\<close>, of at most \<open>B\<close> bytes and not all without fields, fit into one block: together
  they have at most as many columns as a block takes, and packing the block succeeds, with sizes below the limits of the format.
\<close>

definition rows_fit :: "'f env \<Rightarrow> nat \<Rightarrow> (StreamID \<times> i64 \<times> row) multiset \<Rightarrow> bool" where
  "rows_fit e B X \<longleftrightarrow> (\<forall>s ts rows. list_ex (\<lambda>r. r \<noteq> []) rows \<and> length ts = length rows \<and> timestamps_sorted ts \<and> uncompressed_rows_size_bytes rows \<le> B \<and>
    mset (map (Pair s) (zip ts rows)) \<subseteq># X \<longrightarrow>
    rows_taken rows = length rows \<and> (\<exists>bd. rows_pack e s ts rows = Some bd \<and> unat (bd_uncompressed_size_bytes bd) \<le> 2 ^ 40))"

text \<open>A row that a block stores without loss: distinct field names, not too many, values in printed form.\<close>

definition row_plain :: "'f f64_ops \<Rightarrow> row \<Rightarrow> bool" where
  "row_plain f64 r \<longleftrightarrow> row_wf r \<and> (\<forall>f \<in> set r. canonical f64 (Field.field_value f))"

lemma row_plain_Nil [simp]: "row_plain f64 []"
  by (simp add: row_plain_def row_wf_def)

text \<open>Both together: rows that come together in one block are stored there without loss.\<close>

definition rows_store :: "'f env \<Rightarrow> nat \<Rightarrow> (StreamID \<times> i64 \<times> row) multiset \<Rightarrow> bool" where
  "rows_store e B X \<longleftrightarrow> (\<forall>s ts rows. list_ex (\<lambda>r. r \<noteq> []) rows \<and> length ts = length rows \<and> timestamps_sorted ts \<and> uncompressed_rows_size_bytes rows \<le> B \<and>
    mset (map (Pair s) (zip ts rows)) \<subseteq># X \<longrightarrow>
    rows_lossless (e_f64 e) ts rows \<and> (\<exists>bd. rows_pack e s ts rows = Some bd \<and> unat (bd_uncompressed_size_bytes bd) \<le> 2 ^ 40))"

lemma rows_storeI:
  assumes fit: "rows_fit e B X" and plain: "\<And>x. x \<in># X \<Longrightarrow> row_plain (e_f64 e) (snd (snd x))"
  shows "rows_store e B X"
  unfolding rows_store_def
proof (intro allI impI, elim conjE)
  fix s ts rows
  assume a: "list_ex (\<lambda>r. r \<noteq> []) rows" "length ts = length rows" "timestamps_sorted ts" "uncompressed_rows_size_bytes rows \<le> B"
    and m: "mset (map (Pair s) (zip ts rows)) \<subseteq># X"
  have "row_plain (e_f64 e) r" if r: "r \<in> set rows" for r
  proof -
    obtain i where i: "i < length rows" "rows ! i = r" using r by (auto simp: in_set_conv_nth)
    then have "(ts ! i, r) \<in> set (zip ts rows)" using a(2) by (auto simp: in_set_conv_nth)
    then have "(s, ts ! i, r) \<in># X" using m by (intro mset_subset_eqD [OF m]) simp
    from plain [OF this] show ?thesis by simp
  qed
  moreover have "rows \<noteq> []" using a(1) by auto
  ultimately show "rows_lossless (e_f64 e) ts rows \<and> (\<exists>bd. rows_pack e s ts rows = Some bd \<and> unat (bd_uncompressed_size_bytes bd) \<le> 2 ^ 40)"
    using fit a m unfolding rows_fit_def rows_lossless_def row_plain_def list_all_iff by blast
qed

text \<open>The blocks written so far, and the rows \<open>W\<close> they were made of.\<close>

definition out_ok :: "'f env \<Rightarrow> BlockData list \<Rightarrow> (StreamID \<times> i64 \<times> row) multiset \<Rightarrow> bool" where
  "out_ok e outs W \<longleftrightarrow> list_all (\<lambda>bd. storable e bd \<and> unat (bd_uncompressed_size_bytes bd) \<le> 2 ^ 40) outs \<and> sorted_wrt bd_le (bd_default # outs) \<and>
    (\<exists>ys. blocks_rows e outs = Some ys \<and> image_mset item_says (mset ys) = image_mset item_says W)"

lemma blocks_rows_append:
  "blocks_rows e (as @ bs) = Option.bind (blocks_rows e as) (\<lambda>xs. map_option (\<lambda>ys. xs @ ys) (blocks_rows e bs))"
proof (induction as)
  case (Cons a as)
  then show ?case by (cases "stored_rows e a"; cases "blocks_rows e as"; cases "blocks_rows e bs") auto
next
  case Nil
  then show ?case by (cases "blocks_rows e bs") auto
qed

lemma out_snoc:
  assumes "out_ok e outs W" "storable e bd" "unat (bd_uncompressed_size_bytes bd) \<le> 2 ^ 40"
    and "bd_key bd_default \<le> bd_key bd" "\<And>x. x \<in> set outs \<Longrightarrow> bd_key x \<le> bd_key bd"
    and "stored_rows e bd = Some rs" "image_mset item_says (mset (map (Pair (bd_stream_id bd)) rs)) = image_mset item_says V"
  shows "out_ok e (outs @ [bd]) (W + V)"
proof -
  obtain ys where y: "blocks_rows e outs = Some ys" "image_mset item_says (mset ys) = image_mset item_says W" using assms(1) by (auto simp: out_ok_def)
  have "blocks_rows e (outs @ [bd]) = Some (ys @ map (Pair (bd_stream_id bd)) rs)" using y(1) assms(6) by (simp add: blocks_rows_append)
  moreover have "image_mset item_says (mset (ys @ map (Pair (bd_stream_id bd)) rs)) = image_mset item_says (W + V)" using y(2) assms(7) by simp
  ultimately show ?thesis using assms(1-5) by (auto simp: out_ok_def sorted_wrt_append bd_le_key)
qed

lemma outs_fit:
  assumes "out_ok e outs W" "length outs \<le> 2 ^ 23"
  shows "blocks_fit outs"
proof -
  have s: "sum_list (map f xs) \<le> length xs * b" if "\<And>x. x \<in> set xs \<Longrightarrow> f x \<le> b" for f :: "BlockData \<Rightarrow> nat" and xs b
    using that by (induction xs) (auto intro: add_mono)
  have a: "unat (bd_uncompressed_size_bytes x) \<le> 2 ^ 40" "unat (bd_rows_count x) \<le> 2 ^ 23" if "x \<in> set outs" for x
    using assms(1) that by (auto simp: out_ok_def list_all_iff storable_def bd_valid_def word_le_nat_alt MAX_ROWS_PER_BLOCK_def)
  have "sum_list (map (\<lambda>x. unat (bd_uncompressed_size_bytes x)) outs) \<le> length outs * 2 ^ 40" using a(1) by (rule s)
  also have "\<dots> \<le> 2 ^ 23 * 2 ^ 40" using assms(2) by simp
  finally have 1: "sum_list (map (\<lambda>x. unat (bd_uncompressed_size_bytes x)) outs) < 2 ^ 64" by simp
  have "sum_list (map (\<lambda>x. unat (bd_rows_count x)) outs) \<le> length outs * 2 ^ 23" using a(2) by (rule s)
  also have "\<dots> \<le> 2 ^ 23 * 2 ^ 23" using assms(2) by simp
  finally have 2: "sum_list (map (\<lambda>x. unat (bd_rows_count x)) outs) < 2 ^ 64" by simp
  show ?thesis using 1 2 assms(2) by (simp add: blocks_fit_def)
qed

lemma write_blocks_append: "write_blocks e (as @ bs) bsw = obind (write_blocks e as bsw) (write_blocks e bs)"
proof (induction as arbitrary: bsw)
  case (Cons a as)
  then have "write_blocks e (as @ bs) = (\<lambda>bsw. obind (write_blocks e as bsw) (write_blocks e bs))" by (rule ext)
  then show ?case by (simp add: obind_assoc)
qed simp

lemma emit:
  assumes "writer_rel e sw0 bsw0 [] gs pend" "zstd_ok (e_zstd e)" "write_blocks e outs bsw0 = Ok bsw" "out_ok e (outs @ [bd]) W" "length outs < 2 ^ 23"
  shows "\<exists>bsw'. must_write_block_data e bd bsw = Ok bsw' \<and> write_blocks e (outs @ [bd]) bsw0 = Ok bsw'"
proof -
  have st: "list_all (storable e) (outs @ [bd])" "sorted_wrt bd_le (bd_default # outs @ [bd])" using assms(4) by (auto simp: out_ok_def list_all_iff)
  have f: "blocks_fit (outs @ [bd])" by (rule outs_fit [OF assms(4)]) (use assms(5) in simp)
  obtain bsw' where w: "write_blocks e (outs @ [bd]) bsw0 = Ok bsw'"
    using write_blocks_rel [OF assms(1,2) st(1)] st(2) f by auto
  have "(write_blocks e [bd] bsw) = must_write_block_data e bd bsw" by (simp flip: obind_Ok) (simp add: obind_def split: outcome.splits)
  then show ?thesis using w assms(3) by (simp add: write_blocks_append)
qed

text \<open>The rows and the block the merger holds back, and their place in the order.\<close>

definition pending :: "'f env \<Rightarrow> BlockStreamMerger \<Rightarrow> (StreamID \<times> i64 \<times> row) list" where
  "pending e bsm = map (Pair (bsm_stream_id bsm)) (rows_of (bsm_rows bsm)) @
     (if bd_rows_count (bsm_bd bsm) = 0 then [] else block_items e (bsm_bd bsm))"

definition pending_key :: "BlockStreamMerger \<Rightarrow> (StreamID \<times> int) option" where
  "pending_key bsm =
    (if rs_timestamps (bsm_rows bsm) \<noteq> [] then Some (bsm_stream_id bsm, sint (rs_timestamps (bsm_rows bsm) ! 0))
     else if bd_rows_count (bsm_bd bsm) \<noteq> 0 then Some (bd_key (bsm_bd bsm)) else None)"

definition bsm_ok :: "'f env \<Rightarrow> DropFilterCtx option \<Rightarrow> nat \<Rightarrow> BlockStreamMerger \<Rightarrow> bool" where
  "bsm_ok e dr B bsm \<longleftrightarrow> rows_wf (bsm_rows bsm) \<and> sorted_wrt (\<le>s) (rs_timestamps (bsm_rows bsm)) \<and> bsm_rows_tmp bsm = no_rows \<and>
    bsm_uncompressed_rows_size_bytes bsm = of_nat (uncompressed_rows_size_bytes (rs_rows (bsm_rows bsm))) \<and>
    uncompressed_rows_size_bytes (rs_rows (bsm_rows bsm)) \<le> B \<and>
    (bsm_bd bsm = bd_default \<or>
     rs_timestamps (bsm_rows bsm) = [] \<and> sound_block e B (bsm_bd bsm) \<and> bd_stream_id (bsm_bd bsm) = bsm_stream_id bsm \<and>
     \<not> need_drop_rows dr (bd_stream_id (bsm_bd bsm)) (td_min_timestamp (bd_timestamps_data (bsm_bd bsm))) (td_max_timestamp (bd_timestamps_data (bsm_bd bsm))))"

definition kept_items :: "'f env \<Rightarrow> DropFilterCtx option \<Rightarrow> BlockData list \<Rightarrow> (StreamID \<times> i64 \<times> row) multiset" where
  "kept_items e dr P = mset (filter (\<lambda>x. \<not> dropped dr x) (concat (map (block_items e) P)))"

text \<open>The rows that pass through the merger: a block whose first row is dropped keeps an empty row for it.\<close>

definition merge_items :: "'f env \<Rightarrow> DropFilterCtx option \<Rightarrow> BlockData list \<Rightarrow> (StreamID \<times> i64 \<times> row) list" where
  "merge_items e dr bds = concat (map (\<lambda>bd. map (Pair (bd_stream_id bd)) (block_kept e dr bd)) bds)"

lemma merge_items_row:
  assumes "list_all (\<lambda>bd. \<exists>rs. stored_rows e bd = Some rs) bds" "x \<in> set (merge_items e dr bds)"
  shows "snd (snd x) = [] \<or> x \<in> set (concat (map (block_items e) bds))"
proof -
  obtain bd t r where b: "bd \<in> set bds" "(t, r) \<in> set (block_kept e dr bd)" "x = (bd_stream_id bd, t, r)"
    using assms(2) by (auto simp: merge_items_def)
  then obtain rs where rs: "stored_rows e bd = Some rs" using assms(1) by (auto simp: list_all_iff)
  have k: "r = [] \<or> (t, r) \<in> set rs" if "(t, r) \<in> set (kept_rows P rs)" for P
    using that by (cases rs) (auto simp: kept_rows_def split: if_splits)
  have "r = [] \<or> (t, r) \<in> set rs" using b(2) k rs by (auto simp: block_kept_def Let_def split: option.splits if_splits)
  moreover have "x \<in> set (block_items e bd)" if "(t, r) \<in> set rs" using that rs b(3) by (simp add: block_items_def)
  ultimately show ?thesis using b(1,3) by auto
qed

lemma merge_items_append [simp]: "merge_items e dr (P @ Q) = merge_items e dr P @ merge_items e dr Q"
  by (simp add: merge_items_def)

text \<open>
  After the blocks \<open>P\<close>: every row is either in a written block or pending, the written blocks are in order, and
  nothing is beyond the key \<open>k\<close>.
\<close>

definition minv :: "'f env \<Rightarrow> DropFilterCtx option \<Rightarrow> nat \<Rightarrow> BlockStreamWriter \<Rightarrow> StreamID \<times> int \<Rightarrow> BlockData list \<Rightarrow> BlockStreamMerger \<Rightarrow> BlockStreamWriter \<Rightarrow> bool" where
  "minv e dr B bsw0 k P bsm bsw \<longleftrightarrow> (\<exists>outs W. write_blocks e outs bsw0 = Ok bsw \<and> out_ok e outs W \<and>
    length outs + (if pending_key bsm = None then 0 else 1) \<le> length P \<and> bsm_ok e dr B bsm \<and>
    filter_mset has_fields (W + mset (pending e bsm)) = filter_mset has_fields (kept_items e dr P) \<and>
    W + mset (pending e bsm) \<subseteq># mset (merge_items e dr P) \<and>
    (\<forall>bd \<in> set outs. bd_key bd \<le> k \<and> (\<forall>p. pending_key bsm = Some p \<longrightarrow> bd_key bd \<le> p)) \<and>
    (\<forall>p. pending_key bsm = Some p \<longrightarrow> bd_key bd_default \<le> p \<and> p \<le> k))"

lemma no_fields_filter: "\<not> has_non_empty_rows R \<Longrightarrow> filter_mset has_fields (mset (map (Pair s) (rows_of R))) = {#}"
  by (auto simp: has_non_empty_rows_def list_ex_iff rows_of_def has_fields_def filter_mset_eq_conv dest: set_zip_rightD)

lemma reset_pending: "pending e (reset_rows bsm) = []" "pending_key (reset_rows bsm) = None" "bsm_ok e dr B bsm \<Longrightarrow> bsm_ok e dr B (reset_rows bsm)"
  by (simp_all add: pending_def pending_key_def bsm_ok_def reset_rows_def rows_reset_def rows_of_def bd_default_def rows_wf_def no_rows_def
      uncompressed_rows_size_bytes_def)

lemma flush_pending:
  assumes inv: "minv e dr B bsw0 k P bsm bsw" and w: "writer_rel e sw0 bsw0 [] gs pend" and z: "zstd_ok (e_zstd e)" and f: "f64_laws (e_f64 e)"
    and fit: "rows_store e B X" and X: "mset (merge_items e dr P) \<subseteq># X" and len: "length P \<le> 2 ^ 23" and B: "B \<le> 2 ^ 40"
  shows "\<exists>bsw'. must_flush_rows e bsm bsw = Ok (reset_rows bsm, bsw') \<and> minv e dr B bsw0 k P (reset_rows bsm) bsw'"
proof -
  obtain outs W where i: "write_blocks e outs bsw0 = Ok bsw" "out_ok e outs W" "length outs + (if pending_key bsm = None then 0 else 1) \<le> length P" "bsm_ok e dr B bsm"
      "filter_mset has_fields (W + mset (pending e bsm)) = filter_mset has_fields (kept_items e dr P)"
      "\<And>bd. bd \<in> set outs \<Longrightarrow> bd_key bd \<le> k \<and> (\<forall>p. pending_key bsm = Some p \<longrightarrow> bd_key bd \<le> p)"
      "\<And>p. pending_key bsm = Some p \<Longrightarrow> bd_key bd_default \<le> p \<and> p \<le> k" "W + mset (pending e bsm) \<subseteq># mset (merge_items e dr P)"
    using inv by (auto simp: minv_def)
  let ?R = "bsm_rows bsm"
  have keep: ?thesis if "must_flush_rows e bsm bsw = Ok (reset_rows bsm, bsw)" "filter_mset has_fields (mset (pending e bsm)) = {#}"
  proof -
    have "minv e dr B bsw0 k P (reset_rows bsm) bsw"
      unfolding minv_def using i that(2) by (intro exI [of _ outs] exI [of _ W]) (auto simp: reset_pending split: if_splits dest: mset_subset_eq_add_left [THEN subset_mset.order_trans])
    then show ?thesis using that(1) by blast
  qed
  have put: ?thesis if p: "pending_key bsm = Some (bd_key bd)" "storable e bd" "unat (bd_uncompressed_size_bytes bd) \<le> 2 ^ 40" "stored_rows e bd = Some rs"
      "image_mset item_says (mset (map (Pair (bd_stream_id bd)) rs)) = image_mset item_says (mset (pending e bsm))"
      "must_flush_rows e bsm bsw = obind (must_write_block_data e bd bsw) (\<lambda>bsw. Ok (reset_rows bsm, bsw))" for bd rs
  proof -
    have o: "out_ok e (outs @ [bd]) (W + mset (pending e bsm))"
      by (rule out_snoc [OF i(2) p(2,3) _ _ p(4,5)]) (use i(6,7) p(1) in auto)
    obtain bsw' where e: "must_write_block_data e bd bsw = Ok bsw'" "write_blocks e (outs @ [bd]) bsw0 = Ok bsw'"
      using emit [OF w z i(1) o] i(3) p(1) len by auto
    have "minv e dr B bsw0 k P (reset_rows bsm) bsw'"
      unfolding minv_def using e(2) o i(3-8) p(1)
      by (intro exI [of _ "outs @ [bd]"] exI [of _ "W + mset (pending e bsm)"]) (auto simp: reset_pending)
    then show ?thesis using e(1) p(6) by simp
  qed
  have wf: "rows_wf ?R" using i(4) by (simp add: bsm_ok_def)
  consider (none) "rs_timestamps ?R = []" "bsm_bd bsm = bd_default"
    | (block) "rs_timestamps ?R = []" "sound_block e B (bsm_bd bsm)"
    | (rows) "rs_timestamps ?R \<noteq> []" "bsm_bd bsm = bd_default" "has_non_empty_rows ?R"
    | (void) "rs_timestamps ?R \<noteq> []" "bsm_bd bsm = bd_default" "\<not> has_non_empty_rows ?R"
    using i(4) by (auto simp: bsm_ok_def)
  then show ?thesis
  proof cases
    case none
    then show ?thesis by (intro keep) (simp_all add: must_flush_rows_def must_write_block_data_def bd_default_def pending_def rows_of_def)
  next
    case block
    obtain rs where rs: "stored_rows e (bsm_bd bsm) = Some rs" "storable e (bsm_bd bsm)" "unat (bd_uncompressed_size_bytes (bsm_bd bsm)) \<le> B" "bd_rows_count (bsm_bd bsm) \<noteq> 0"
      using block(2) by (rule sound_blockE)
    show ?thesis
      by (rule put [of "bsm_bd bsm" rs]) (use block(1) rs B in \<open>simp_all add: pending_key_def pending_def rows_of_def block_items_def must_flush_rows_def\<close>)
  next
    case rows
    let ?s = "bsm_stream_id bsm"
    have pe: "pending e bsm = map (Pair ?s) (zip (rs_timestamps ?R) (rs_rows ?R))" using rows(2) by (simp add: pending_def rows_of_def bd_default_def)
    have "mset (pending e bsm) \<subseteq># W + mset (pending e bsm)" by simp
    also note i(8)
    also note X
    finally have sub: "mset (pending e bsm) \<subseteq># X" .
    have ok: "list_ex (\<lambda>r. r \<noteq> []) (rs_rows ?R)" "length (rs_timestamps ?R) = length (rs_rows ?R)" "timestamps_sorted (rs_timestamps ?R)" "uncompressed_rows_size_bytes (rs_rows ?R) \<le> B"
      using rows(3) i(4) by (auto simp: bsm_ok_def rows_wf_def timestamps_sorted_iff has_non_empty_rows_def)
    obtain bd where bd: "rows_lossless (e_f64 e) (rs_timestamps ?R) (rs_rows ?R)" "rows_pack e ?s (rs_timestamps ?R) (rs_rows ?R) = Some bd"
        "unat (bd_uncompressed_size_bytes bd) \<le> 2 ^ 40"
      using fit ok sub unfolding rows_store_def pe by blast
    note st = rows_pack_stored [OF bd(2,1) f z]
    obtain rs where rs: "stored_rows e bd = Some rs" "timed_values rs = timed_values (zip (rs_timestamps ?R) (rs_rows ?R))" using st(4) by blast
    have "map item_says (map (Pair ?s) rs) = map (Pair ?s) (timed_values rs)" by (simp add: timed_values_def item_says_def case_prod_unfold)
    also have "\<dots> = map item_says (pending e bsm)" unfolding rs(2) pe by (simp add: timed_values_def item_says_def case_prod_unfold)
    finally have v: "image_mset item_says (mset (map (Pair (bd_stream_id bd)) rs)) = image_mset item_says (mset (pending e bsm))"
      unfolding st(2) by (metis mset_map)
    have fl: "must_flush_rows e bsm bsw = obind (must_write_block_data e bd bsw) (\<lambda>bsw. Ok (reset_rows bsm, bsw))"
      using rows(1,3) rows_pack_write [OF bd(2,1) f, of bsw] by (simp add: must_flush_rows_def)
    show ?thesis by (rule put [OF _ st(1) bd(3) rs(1) v fl]) (use rows(1) st(2,3) in \<open>simp add: pending_key_def bd_key_def\<close>)
  next
    case void
    then show ?thesis
      using no_fields_filter [OF void(3)] by (intro keep) (simp_all add: must_flush_rows_def pending_def bd_default_def)
  qed
qed

lemma size_mset: "mset rows = mset rows' \<Longrightarrow> uncompressed_rows_size_bytes rows = uncompressed_rows_size_bytes rows'"
  by (simp add: uncompressed_rows_size_bytes_def flip: sum_mset_sum_list)

lemma size_append: "uncompressed_rows_size_bytes (a @ b) = uncompressed_rows_size_bytes a + uncompressed_rows_size_bytes b"
  by (simp add: uncompressed_rows_size_bytes_def)

lemma rows_of_parts: "rows_wf R \<Longrightarrow> rs_timestamps R = map fst (rows_of R) \<and> rs_rows R = map snd (rows_of R)"
  by (simp add: rows_of_def rows_wf_def)

lemma merge_pending_spec:
  assumes "bsm_rows_tmp bsm = no_rows" "rows_wf (bsm_rows bsm)" "rows_of (bsm_rows bsm) = a @ k" "k \<noteq> []"
    and "sorted_wrt (\<le>s) (map fst a)" "sorted_wrt (\<le>s) (map fst k)" "a \<noteq> [] \<Longrightarrow> fst (hd a) \<le>s fst (hd k)"
  obtains M where "merge_pending (length a) bsm = bsm\<lparr>bsm_rows := M\<rparr>" "rows_wf M" "sorted_wrt (\<le>s) (rs_timestamps M)"
    "mset (rows_of M) = mset (a @ k)" "rs_timestamps M \<noteq> []" "rs_timestamps M ! 0 = fst (hd (a @ k))"
    "uncompressed_rows_size_bytes (rs_rows M) = uncompressed_rows_size_bytes (map snd a) + uncompressed_rows_size_bytes (map snd k)"
proof -
  note p = rows_of_parts [OF assms(2)]
  define M where "M = merge_rows (map fst a) (map fst k) (map snd a) (map snd k) no_rows"
  have "merge_pending (length a) bsm = bsm\<lparr>bsm_rows := M, bsm_rows_tmp := rows_reset (bsm_rows bsm)\<rparr>"
    using p assms(1,3) by (simp add: merge_pending_def Let_def M_def)
  moreover have "rows_reset (bsm_rows bsm) = bsm_rows_tmp bsm" using assms(1) by (simp add: rows_reset_def no_rows_def)
  ultimately have mp: "merge_pending (length a) bsm = bsm\<lparr>bsm_rows := M\<rparr>" by simp
  have M: "rows_wf M" "sorted_wrt (\<le>s) (rs_timestamps M)" "mset (rows_of M) = mset (a @ k)"
    using merge_rows_spec [of "map fst a" "map snd a" "map fst k" "map snd k" no_rows] assms(5,6)
    by (simp_all add: M_def no_rows_def rows_wf_def rows_of_def zip_map_fst_snd)
  note q = rows_of_parts [OF M(1)]
  have ms: "mset (rs_timestamps M) = mset (map fst (a @ k))" "mset (rs_rows M) = mset (map snd (a @ k))" using q M(3) by (metis mset_map)+
  then have ne: "rs_timestamps M \<noteq> []" using assms(4) by auto
  have hd: "rs_timestamps M ! 0 = fst (hd (a @ k))"
  proof -
    let ?h = "fst (hd (a @ k))"
    have all: "?h \<le>s t" if "t \<in> set (map fst (a @ k))" for t
    proof (cases "a = []")
      case True
      then show ?thesis using sorted_head [OF assms(6), of t] that assms(4) by (simp add: hd_conv_nth nth_map)
    next
      case False
      have "fst (hd a) \<le>s fst x" if "x \<in> set k" for x
        using assms(7) [OF False] sorted_head [OF assms(6), of "fst x"] that assms(4) by (simp add: hd_conv_nth nth_map word_sle_eq)
      moreover have "fst (hd a) \<le>s fst x" if "x \<in> set a" for x
        using sorted_head [OF assms(5), of "fst x"] that False by (simp add: hd_conv_nth nth_map)
      ultimately show ?thesis using that False by auto
    qed
    have "rs_timestamps M ! 0 \<in> set (map fst (a @ k))" using ne mset_eq_setD [OF ms(1)] by (metis length_greater_0_conv nth_mem)
    then have "?h \<le>s rs_timestamps M ! 0" by (rule all)
    moreover have "?h \<in> set (map fst (a @ k))" using assms(4) by (cases a) auto
    then have "rs_timestamps M ! 0 \<le>s ?h" using sorted_head [OF M(2), of ?h] mset_eq_setD [OF ms(1)] by metis
    ultimately have "sint (rs_timestamps M ! 0) = sint ?h" by (simp add: word_sle_eq)
    then show ?thesis by (rule signed_word_eqI)
  qed
  have "uncompressed_rows_size_bytes (rs_rows M) = uncompressed_rows_size_bytes (map snd a) + uncompressed_rows_size_bytes (map snd k)"
    using size_mset [OF ms(2)] by (simp add: size_append)
  then show ?thesis using that mp M ne hd by blast
qed

text \<open>The pending rows as one list, after the pending block is unpacked.\<close>

lemma unpack_pending:
  assumes ok: "bsm_ok e dr B bsm" and bufs: "bufs_ok dr (bsm_stream_id bsm) bsm"
  obtains a b where "(if bd_rows_count (bsm_bd bsm) > 0 then
             obind (must_unmarshal_rows e dr (bsm_bd bsm) (bsm\<lparr>bsm_bd := bd_default\<rparr>)) (\<lambda>bsm. Ok (bsm\<lparr>bsm_bd := bd_default\<rparr>))
           else Ok bsm) = Ok b"
    "rows_wf (bsm_rows b)" "rows_of (bsm_rows b) = a" "sorted_wrt (\<le>s) (map fst a)" "bsm_rows_tmp b = no_rows" "bsm_bd b = bd_default"
    "bsm_uncompressed_rows_size_bytes b = of_nat (uncompressed_rows_size_bytes (map snd a))"
    "bsm_stream_id b = bsm_stream_id bsm" "bsm_stream_buf b = bsm_stream_buf bsm" "bsm_stream_id_buf b = bsm_stream_id_buf bsm"
    "pending e bsm = map (Pair (bsm_stream_id bsm)) a" "pending_key bsm = (if a = [] then None else Some (bsm_stream_id bsm, sint (fst (hd a))))"
    "uncompressed_rows_size_bytes (map snd a) \<le> uncompressed_rows_size_bytes (rs_rows (bsm_rows bsm)) + unat (bd_uncompressed_size_bytes (bsm_bd bsm))"
proof (cases "bsm_bd bsm = bd_default")
  case True
  have wf: "rows_wf (bsm_rows bsm)" using ok by (simp add: bsm_ok_def)
  note p = rows_of_parts [OF wf]
  have "bd_rows_count (bsm_bd bsm) = 0" using True by (simp add: bd_default_def)
  then show ?thesis using that [of bsm "rows_of (bsm_rows bsm)"] ok True p
    by (auto simp: bsm_ok_def pending_def pending_key_def hd_conv_nth)
next
  case False
  let ?bd = "bsm_bd bsm" and ?b = "bsm\<lparr>bsm_bd := bd_default\<rparr>"
  have f: "rs_timestamps (bsm_rows bsm) = []" "sound_block e B ?bd" "bd_stream_id ?bd = bsm_stream_id bsm" "rows_wf (bsm_rows bsm)" "bsm_rows_tmp bsm = no_rows"
      "\<not> need_drop_rows dr (bd_stream_id ?bd) (td_min_timestamp (bd_timestamps_data ?bd)) (td_max_timestamp (bd_timestamps_data ?bd))"
      "bsm_uncompressed_rows_size_bytes bsm = of_nat (uncompressed_rows_size_bytes (rs_rows (bsm_rows bsm)))"
    using ok False by (auto simp: bsm_ok_def)
  have nil: "rs_rows (bsm_rows bsm) = []" using f(1,4) by (simp add: rows_wf_def)
  obtain rs where rs: "stored_rows e ?bd = Some rs" "rs \<noteq> []" "fst (hd rs) = td_min_timestamp (bd_timestamps_data ?bd)" "bd_rows_count ?bd \<noteq> 0"
      "sorted_wrt (\<le>s) (map fst rs)" "uncompressed_rows_size_bytes (map snd rs) \<le> unat (bd_uncompressed_size_bytes ?bd)"
    using f(2) by (rule sound_blockE)
  have kept: "block_kept e dr ?bd = rs" using not_needed_keeps(1) [OF f(2,6)] rs(1) by simp
  have bb: "bufs_ok dr (bd_stream_id ?bd) ?b" using bufs f(3) by (auto simp: bufs_ok_def)
  obtain R sbu where u: "must_unmarshal_rows e dr ?bd ?b = Ok (?b\<lparr>bsm_rows := R, bsm_sbu := sbu, bsm_uncompressed_rows_size_bytes :=
      bsm_uncompressed_rows_size_bytes ?b + of_nat (uncompressed_rows_size_bytes (map snd (block_kept e dr ?bd)))\<rparr>)"
    "rows_wf R" "rows_of R = rows_of (bsm_rows ?b) @ block_kept e dr ?bd"
    by (rule must_unmarshal_rows_kept [OF f(2) _ bb]) (use f(4) in simp_all)
  have R: "rows_of R = rs" using u(3) f(1) kept by (simp add: rows_of_def)
  have "0 < bd_rows_count ?bd" using rs(4) by (simp add: word_gt_0)
  then show ?thesis
    using that [of "?b\<lparr>bsm_rows := R, bsm_sbu := sbu, bsm_uncompressed_rows_size_bytes := of_nat (uncompressed_rows_size_bytes (map snd rs))\<rparr>" rs] u(1,2) R rs f nil kept
    by (simp add: pending_def pending_key_def rows_of_def block_items_def uncompressed_rows_size_bytes_def bd_key_def)
qed

lemma kept_items_snoc: "kept_items e dr (P @ [bd]) = kept_items e dr P + mset (filter (\<lambda>x. \<not> dropped dr x) (block_items e bd))"
  by (simp add: kept_items_def)

lemma unat_size: "n \<le> B \<Longrightarrow> B \<le> 2 ^ 40 \<Longrightarrow> unat (of_nat n :: u64) = n"
  by (simp add: unat_of_nat take_bit_nat_eq_self)

lemma merge_block:
  assumes inv: "minv e dr B bsw0 k P bsm bsw" and w: "writer_rel e sw0 bsw0 [] gs pend" and z: "zstd_ok (e_zstd e)" and f: "f64_laws (e_f64 e)"
    and fit: "rows_store e B X" and X: "mset (merge_items e dr (P @ [bd])) \<subseteq># X" and len: "length P < 2 ^ 23" and B: "B \<le> 2 ^ 40"
    and bd: "sound_block e B bd" "bd_stream_id bd = bsm_stream_id bsm" "bufs_ok dr (bsm_stream_id bsm) bsm" "k \<le> bd_key bd" "bd_key bd_default \<le> bd_key bd"
    and size: "uncompressed_rows_size_bytes (rs_rows (bsm_rows bsm)) + unat (bd_uncompressed_size_bytes (bsm_bd bsm)) + unat (bd_uncompressed_size_bytes bd) \<le> B"
  shows "\<exists>bsm' bsw'. must_merge_rows e dr bd bsm bsw = Ok (bsm', bsw') \<and> minv e dr B bsw0 (bd_key bd) (P @ [bd]) bsm' bsw' \<and>
    uncompressed_rows_size_bytes (rs_rows (bsm_rows bsm')) < MAX_UNCOMPRESSED_BLOCK_SIZE \<and>
    bsm_stream_id bsm' = bsm_stream_id bsm \<and> bsm_stream_buf bsm' = bsm_stream_buf bsm \<and> bsm_stream_id_buf bsm' = bsm_stream_id_buf bsm"
proof -
  obtain outs W where i: "write_blocks e outs bsw0 = Ok bsw" "out_ok e outs W" "length outs + (if pending_key bsm = None then 0 else 1) \<le> length P" "bsm_ok e dr B bsm"
      "filter_mset has_fields (W + mset (pending e bsm)) = filter_mset has_fields (kept_items e dr P)"
      "\<And>bd. bd \<in> set outs \<Longrightarrow> bd_key bd \<le> k \<and> (\<forall>p. pending_key bsm = Some p \<longrightarrow> bd_key bd \<le> p)"
      "\<And>p. pending_key bsm = Some p \<Longrightarrow> bd_key bd_default \<le> p \<and> p \<le> k" "W + mset (pending e bsm) \<subseteq># mset (merge_items e dr P)"
    using inv by (auto simp: minv_def)
  let ?s = "bsm_stream_id bsm" and ?K = "block_kept e dr bd"
  obtain a b where b: "(if bd_rows_count (bsm_bd bsm) > 0 then
             obind (must_unmarshal_rows e dr (bsm_bd bsm) (bsm\<lparr>bsm_bd := bd_default\<rparr>)) (\<lambda>bsm. Ok (bsm\<lparr>bsm_bd := bd_default\<rparr>))
           else Ok bsm) = Ok b"
      "rows_wf (bsm_rows b)" "rows_of (bsm_rows b) = a" "sorted_wrt (\<le>s) (map fst a)" "bsm_rows_tmp b = no_rows" "bsm_bd b = bd_default"
      "bsm_uncompressed_rows_size_bytes b = of_nat (uncompressed_rows_size_bytes (map snd a))"
      "bsm_stream_id b = ?s" "bsm_stream_buf b = bsm_stream_buf bsm" "bsm_stream_id_buf b = bsm_stream_id_buf bsm"
      "pending e bsm = map (Pair ?s) a" "pending_key bsm = (if a = [] then None else Some (?s, sint (fst (hd a))))"
      "uncompressed_rows_size_bytes (map snd a) \<le> uncompressed_rows_size_bytes (rs_rows (bsm_rows bsm)) + unat (bd_uncompressed_size_bytes (bsm_bd bsm))"
    by (rule unpack_pending [OF i(4) bd(3)])
  have la: "length (rs_timestamps (bsm_rows b)) = length a" using rows_of_parts [OF b(2)] b(3) by simp
  have bb: "bufs_ok dr (bd_stream_id bd) b" using bd(2,3) b(9,10) by (auto simp: bufs_ok_def)
  obtain R sbu where u: "must_unmarshal_rows e dr bd b = Ok (b\<lparr>bsm_rows := R, bsm_sbu := sbu, bsm_uncompressed_rows_size_bytes :=
      bsm_uncompressed_rows_size_bytes b + of_nat (uncompressed_rows_size_bytes (map snd ?K))\<rparr>)" "rows_wf R" "rows_of R = rows_of (bsm_rows b) @ ?K"
    by (rule must_unmarshal_rows_kept [OF bd(1) b(2) bb])
  let ?b2 = "b\<lparr>bsm_rows := R, bsm_sbu := sbu, bsm_uncompressed_rows_size_bytes := bsm_uncompressed_rows_size_bytes b + of_nat (uncompressed_rows_size_bytes (map snd ?K))\<rparr>"
  note K = block_kept_facts [OF bd(1), of dr]
  have le: "fst (hd a) \<le>s fst (hd ?K)" if "a \<noteq> []"
  proof -
    have "(?s, sint (fst (hd a))) \<le> bd_key bd" using i(7) [of "(?s, sint (fst (hd a)))"] b(12) that bd(4) by (auto intro: order_trans)
    then show ?thesis using bd(2) K(3) by (simp add: bd_key_def less_eq_prod_simp word_sle_eq)
  qed
  have two: "bsm_rows_tmp ?b2 = no_rows" "rows_wf (bsm_rows ?b2)" "rows_of (bsm_rows ?b2) = a @ ?K" using b(3,5) u(2,3) by simp_all
  obtain M where M: "merge_pending (length a) ?b2 = ?b2\<lparr>bsm_rows := M\<rparr>" "rows_wf M" "sorted_wrt (\<le>s) (rs_timestamps M)"
      "mset (rows_of M) = mset (a @ ?K)" "rs_timestamps M \<noteq> []" "rs_timestamps M ! 0 = fst (hd (a @ ?K))"
      "uncompressed_rows_size_bytes (rs_rows M) = uncompressed_rows_size_bytes (map snd a) + uncompressed_rows_size_bytes (map snd ?K)"
    by (rule merge_pending_spec [OF two K(1) b(4) K(2) le])
  let ?b3 = "?b2\<lparr>bsm_rows := M\<rparr>"
  have sz: "uncompressed_rows_size_bytes (rs_rows M) \<le> B" using M(7) K(4) b(13) size by simp
  have key: "pending_key ?b3 = Some (?s, sint (fst (hd (a @ ?K))))" using M(5,6) b(8) by (simp add: pending_key_def)
  have pk: "pending_key ?b3 = (if a = [] then Some (bd_key bd) else pending_key bsm)"
    unfolding key using b(12) K(3) bd(2) by (simp add: bd_key_def)
  have pend: "pending e ?b3 = map (Pair ?s) (rows_of M)" using b(6,8) by (simp add: pending_def bd_default_def)
  have acc: "filter_mset has_fields (W + mset (pending e ?b3)) = filter_mset has_fields (kept_items e dr (P @ [bd]))"
  proof -
    have "mset (pending e ?b3) = mset (pending e bsm) + mset (map (Pair ?s) ?K)" unfolding pend b(11) using M(4) by simp
    moreover have "filter_mset has_fields (mset (map (Pair ?s) ?K)) = filter_mset has_fields (mset (filter (\<lambda>x. \<not> dropped dr x) (block_items e bd)))"
      using K(5) bd(2) by (metis mset_filter)
    ultimately show ?thesis using i(5) by (simp add: kept_items_snoc)
  qed
  have sub: "W + mset (pending e ?b3) \<subseteq># mset (merge_items e dr (P @ [bd]))"
  proof -
    have "mset (pending e ?b3) = mset (pending e bsm) + mset (map (Pair ?s) ?K)" unfolding pend b(11) using M(4) by simp
    then show ?thesis using i(8) bd(2) by (simp add: merge_items_def flip: add.assoc)
  qed
  have minv3: "minv e dr B bsw0 (bd_key bd) (P @ [bd]) ?b3 bsw"
    unfolding minv_def
  proof (intro exI [of _ outs] exI [of _ W] conjI)
    show "write_blocks e outs bsw0 = Ok bsw" "out_ok e outs W" by (rule i(1), rule i(2))
    show "length outs + (if pending_key ?b3 = None then 0 else 1) \<le> length (P @ [bd])" using i(3) by (simp split: if_splits)
    show "bsm_ok e dr B ?b3" using M(2,3,7) b(5,6,7) sz by (simp add: bsm_ok_def)
    show "filter_mset has_fields (W + mset (pending e ?b3)) = filter_mset has_fields (kept_items e dr (P @ [bd]))" by (rule acc)
    show "W + mset (pending e ?b3) \<subseteq># mset (merge_items e dr (P @ [bd]))" by (rule sub)
    have o: "bd_key x \<le> bd_key bd" if "x \<in> set outs" for x using i(6) [OF that] bd(4) order_trans by blast
    then show "\<forall>x \<in> set outs. bd_key x \<le> bd_key bd \<and> (\<forall>p. pending_key ?b3 = Some p \<longrightarrow> bd_key x \<le> p)"
      unfolding pk using i(6) by (simp del: split_paired_All)
    have "p \<le> bd_key bd" if "pending_key bsm = Some p" for p using i(7) [OF that] bd(4) order_trans by blast
    then show "\<forall>p. pending_key ?b3 = Some p \<longrightarrow> bd_key bd_default \<le> p \<and> p \<le> bd_key bd"
      unfolding pk using i(7) bd(5) by (simp del: split_paired_All)
  qed
  have us: "bsm_uncompressed_rows_size_bytes ?b3 = of_nat (uncompressed_rows_size_bytes (rs_rows M))" using M(7) b(7) by simp
  have big: "of_nat MAX_UNCOMPRESSED_BLOCK_SIZE \<le> bsm_uncompressed_rows_size_bytes ?b3 \<longleftrightarrow> MAX_UNCOMPRESSED_BLOCK_SIZE \<le> uncompressed_rows_size_bytes (rs_rows M)"
    unfolding us word_le_nat_alt using unat_size [OF sz B] by (simp add: MAX_UNCOMPRESSED_BLOCK_SIZE_def)
  have mm: "must_merge_rows e dr bd bsm bsw = (if of_nat MAX_UNCOMPRESSED_BLOCK_SIZE \<le> bsm_uncompressed_rows_size_bytes ?b3 then must_flush_rows e ?b3 bsw else Ok (?b3, bsw))"
    unfolding must_merge_rows_def b(1) by (simp add: la u(1) M(1) Let_def)
  show ?thesis
  proof (cases "MAX_UNCOMPRESSED_BLOCK_SIZE \<le> uncompressed_rows_size_bytes (rs_rows M)")
    case True
    have "length (P @ [bd]) \<le> 2 ^ 23" using len by simp
    from flush_pending [OF minv3 w z f fit X this B] obtain bsw' where
      "must_flush_rows e ?b3 bsw = Ok (reset_rows ?b3, bsw')" "minv e dr B bsw0 (bd_key bd) (P @ [bd]) (reset_rows ?b3) bsw'" by blast
    then show ?thesis using mm big True b(8-10)
      by (intro exI [of _ "reset_rows ?b3"] exI [of _ bsw'])
        (simp add: reset_rows_def rows_reset_def uncompressed_rows_size_bytes_def MAX_UNCOMPRESSED_BLOCK_SIZE_def)
  next
    case False
    then show ?thesis using mm big minv3 b(8-10) by (intro exI [of _ ?b3] exI [of _ bsw]) simp
  qed
qed


text \<open>A state with nothing pending.\<close>

lemma empty_state:
  assumes "bsm_ok e dr B bsm" "pending_key bsm = None"
  shows "rs_timestamps (bsm_rows bsm) = []" "rs_rows (bsm_rows bsm) = []" "bsm_bd bsm = bd_default" "pending e bsm = []" "assert_no_rows bsm = Ok ()"
proof -
  show ts: "rs_timestamps (bsm_rows bsm) = []" using assms(2) by (simp add: pending_key_def split: if_splits)
  then show rows: "rs_rows (bsm_rows bsm) = []" using assms(1) by (simp add: bsm_ok_def rows_wf_def)
  have "bd_rows_count (bsm_bd bsm) = 0" using assms(2) ts by (simp add: pending_key_def split: if_splits)
  then show bd: "bsm_bd bsm = bd_default" using assms(1) sound_blockE [of e B "bsm_bd bsm"] by (auto simp: bsm_ok_def)
  show "pending e bsm = []" by (simp add: pending_def ts rows_of_def bd bd_default_def)
  show "assert_no_rows bsm = Ok ()" using assms(1) ts rows
    by (simp add: assert_no_rows_def bd bd_default_def bsm_ok_def no_rows_def uncompressed_rows_size_bytes_def panic_if_def)
qed

lemma write_data_step:
  assumes inv: "minv e dr B bsw0 k P bsm bsw" and w: "writer_rel e sw0 bsw0 [] gs pend" and z: "zstd_ok (e_zstd e)" and f: "f64_laws (e_f64 e)"
    and fit: "rows_store e B X" and X: "mset (merge_items e dr (P @ [bd])) \<subseteq># X" and len: "length P < 2 ^ 23" and B: "B \<le> 2 ^ 40"
    and bd: "sound_block e B bd" "bd_stream_id bd = bsm_stream_id bsm" "bufs_ok dr (bsm_stream_id bsm) bsm" "k \<le> bd_key bd" "bd_key bd_default \<le> bd_key bd"
    and none: "pending_key bsm = None"
  shows "\<exists>bsm' bsw'. bsm_must_write_block_data e dr bd bsm bsw = Ok (bsm', bsw') \<and> minv e dr B bsw0 (bd_key bd) (P @ [bd]) bsm' bsw' \<and>
    bsm_stream_id bsm' = bsm_stream_id bsm \<and> bufs_ok dr (bsm_stream_id bsm) bsm'"
proof -
  obtain outs W where i: "write_blocks e outs bsw0 = Ok bsw" "out_ok e outs W" "length outs \<le> length P" "bsm_ok e dr B bsm"
      "filter_mset has_fields (W + mset (pending e bsm)) = filter_mset has_fields (kept_items e dr P)"
      "\<And>x. x \<in> set outs \<Longrightarrow> bd_key x \<le> k" "W + mset (pending e bsm) \<subseteq># mset (merge_items e dr P)"
    using inv none by (auto simp: minv_def)
  note em = empty_state [OF i(4) none]
  have o: "bd_key x \<le> bd_key bd" if "x \<in> set outs" for x using i(6) [OF that] bd(4) order_trans by blast
  let ?td = "bd_timestamps_data bd"
  show ?thesis
  proof (cases "need_drop_rows dr (bd_stream_id bd) (td_min_timestamp ?td) (td_max_timestamp ?td)")
    case True
    have "uncompressed_rows_size_bytes (rs_rows (bsm_rows bsm)) + unat (bd_uncompressed_size_bytes (bsm_bd bsm)) + unat (bd_uncompressed_size_bytes bd) \<le> B"
      using em(2,3) bd(1) by (simp add: uncompressed_rows_size_bytes_def bd_default_def sound_block_def)
    from merge_block [OF inv w z f fit X len B bd this] show ?thesis
      using True em(5) bd(3) by (auto simp: bsm_must_write_block_data_def Let_def bufs_ok_def)
  next
    case False
    obtain rs where rs: "stored_rows e bd = Some rs" "storable e bd" "unat (bd_uncompressed_size_bytes bd) \<le> B" "bd_rows_count bd \<noteq> 0"
      using bd(1) by (rule sound_blockE)
    have kept: "map (Pair (bd_stream_id bd)) (block_kept e dr bd) = block_items e bd"
      using not_needed_keeps(1) [OF bd(1) False] rs(1) by (simp add: block_items_def)
    have "filter has_fields (block_items e bd) = filter has_fields (filter (\<lambda>x. \<not> dropped dr x) (block_items e bd))"
      using block_kept_facts(5) [OF bd(1), of dr] kept by simp
    then have "filter_mset has_fields (mset (block_items e bd)) = filter_mset has_fields (mset (filter (\<lambda>x. \<not> dropped dr x) (block_items e bd)))"
      by (metis mset_filter)
    then have acc: "filter_mset has_fields (W + mset (block_items e bd)) = filter_mset has_fields (kept_items e dr (P @ [bd]))"
      using i(5) em(4) by (simp add: kept_items_snoc)
    have sub: "W + mset (block_items e bd) \<subseteq># mset (merge_items e dr (P @ [bd]))"
      using i(7) em(4) kept by (simp add: merge_items_def)
    show ?thesis
    proof (cases "of_nat MAX_UNCOMPRESSED_BLOCK_SIZE \<le> bd_uncompressed_size_bytes bd")
      case full: True
      have ok: "out_ok e (outs @ [bd]) (W + mset (block_items e bd))"
        by (rule out_snoc [OF i(2) rs(2) _ bd(5) o rs(1)]) (use rs B in \<open>simp_all add: block_items_def\<close>)
      obtain bsw' where e: "must_write_block_data e bd bsw = Ok bsw'" "write_blocks e (outs @ [bd]) bsw0 = Ok bsw'"
        using emit [OF w z i(1) ok] i(3) len by auto
      have "minv e dr B bsw0 (bd_key bd) (P @ [bd]) bsm bsw'"
        unfolding minv_def using e(2) ok i(3,4) acc sub o none em(4)
        by (intro exI [of _ "outs @ [bd]"] exI [of _ "W + mset (block_items e bd)"]) auto
      then show ?thesis using False full em(5) e(1) bd(3) by (simp add: bsm_must_write_block_data_def Let_def)
    next
      case small: False
      let ?b = "bsm\<lparr>bsm_bd := bd\<rparr>"
      have k: "pending_key ?b = Some (bd_key bd)" using em(1) rs(4) by (simp add: pending_key_def)
      have p: "pending e ?b = block_items e bd" using em(1) rs(4) by (simp add: pending_def rows_of_def)
      have "bsm_ok e dr B ?b" using i(4) em(1,2) bd(1,2) False by (simp add: bsm_ok_def)
      then have "minv e dr B bsw0 (bd_key bd) (P @ [bd]) ?b bsw"
        unfolding minv_def using i(1-3) acc sub o k p bd(5)
        by (intro exI [of _ outs] exI [of _ W]) auto
      then show ?thesis using False small em(5) bd(3) by (auto simp: bsm_must_write_block_data_def Let_def bufs_ok_def)
    qed
  qed
qed

lemma full_range: "match_time_range d I64_MIN I64_MAX"
proof -
  have "sint I64_MIN = - (2 ^ 63)" "sint I64_MAX = 2 ^ 63 - 1" by (simp_all add: I64_MIN_def I64_MAX_def)
  then show ?thesis using sint_range_size [of "df_max (pso_filter d)"] sint_range_size [of "df_min (pso_filter d)"]
    by (simp add: match_time_range_def word_sle_eq word_size)
qed

lemma set_stream_id_state:
  assumes "minv e dr B bsw0 k P bsm bsw" "pending_key bsm = None" "\<And>d. dr = Some d \<Longrightarrow> is_utf8 (idb_stream_string d s)"
  shows "minv e dr B bsw0 k P (set_stream_id s dr bsm) bsw" "pending_key (set_stream_id s dr bsm) = None"
    "bsm_stream_id (set_stream_id s dr bsm) = s" "bufs_ok dr s (set_stream_id s dr bsm)"
proof -
  have e: "bsm_ok e dr B bsm" using assms(1) by (auto simp: minv_def)
  note em = empty_state [OF e assms(2)]
  have same: "bsm_rows (set_stream_id s dr bsm) = bsm_rows bsm" "bsm_bd (set_stream_id s dr bsm) = bsm_bd bsm" "bsm_rows_tmp (set_stream_id s dr bsm) = bsm_rows_tmp bsm"
      "bsm_uncompressed_rows_size_bytes (set_stream_id s dr bsm) = bsm_uncompressed_rows_size_bytes bsm"
    by (auto simp: set_stream_id_def Let_def split: option.splits)
  show none: "pending_key (set_stream_id s dr bsm) = None" using em(1,3) by (simp add: pending_key_def same bd_default_def)
  have ok: "bsm_ok e dr B (set_stream_id s dr bsm)" using e em(3) by (simp add: bsm_ok_def same)
  show "minv e dr B bsw0 k P (set_stream_id s dr bsm) bsw"
    using assms(1) unfolding minv_def by (auto simp: none ok assms(2) em(4) empty_state(4) [OF ok none])
  show "bsm_stream_id (set_stream_id s dr bsm) = s" by (auto simp: set_stream_id_def Let_def split: option.splits)
  show "bufs_ok dr s (set_stream_id s dr bsm)"
    using assms(3) full_range by (auto simp: bufs_ok_def set_stream_id_def Let_def need_drop_rows_def)
qed

lemma check_next_block_ok:
  assumes "minv e dr B bsw0 k P bsm bsw" "bsm_stream_id bsm = fst k" "k \<le> bd_key bd"
  shows "check_next_block bsm bd = Ok ()"
proof -
  have i: "bsm_ok e dr B bsm" "\<And>p. pending_key bsm = Some p \<Longrightarrow> p \<le> bd_key bd"
    using assms(1,3) by (auto simp: minv_def simp del: split_paired_All dest: order_trans)
  have one: "\<not> (rs_timestamps (bsm_rows bsm) \<noteq> [] \<and> bd_rows_count (bsm_bd bsm) > 0)"
    using i(1) by (auto simp: bsm_ok_def bd_default_def)
  have two: "\<not> stream_id_less (bd_stream_id bd) (bsm_stream_id bsm)"
    using assms(2,3) by (cases k) (auto simp: stream_id_less_iff bd_key_def less_eq_prod_simp not_less)
  have r: "\<not> td_min_timestamp (bd_timestamps_data bd) <s rs_timestamps (bsm_rows bsm) ! 0"
    if "rs_timestamps (bsm_rows bsm) \<noteq> []" "bd_stream_id bd = bsm_stream_id bsm"
    using i(2) [of "(bsm_stream_id bsm, sint (rs_timestamps (bsm_rows bsm) ! 0))"] that
    by (simp add: pending_key_def bd_key_def less_eq_prod_simp word_sless_alt)
  have b: "\<not> td_min_timestamp (bd_timestamps_data bd) <s td_min_timestamp (bd_timestamps_data (bsm_bd bsm))"
    if "rs_timestamps (bsm_rows bsm) = []" "bd_rows_count (bsm_bd bsm) \<noteq> 0" "bd_stream_id bd = bsm_stream_id bsm"
  proof -
    have "bd_stream_id (bsm_bd bsm) = bsm_stream_id bsm" using i(1) that(2) by (auto simp: bsm_ok_def bd_default_def)
    then show ?thesis using i(2) [of "bd_key (bsm_bd bsm)"] that by (simp add: pending_key_def bd_key_def less_eq_prod_simp word_sless_alt)
  qed
  show ?thesis using one two r b by (auto simp: check_next_block_def Let_def panic_if_def stream_id_equal_iff)
qed


lemma must_write_block_step:
  assumes inv: "minv e dr B bsw0 k P bsm bsw" and w: "writer_rel e sw0 bsw0 [] gs pend" and z: "zstd_ok (e_zstd e)" and f: "f64_laws (e_f64 e)"
    and fit: "rows_store e B X" and X: "mset (merge_items e dr (P @ [bd])) \<subseteq># X" and len: "length P < 2 ^ 23"
    and B: "2 * MAX_UNCOMPRESSED_BLOCK_SIZE \<le> B" "B \<le> 2 ^ 40"
    and bd: "sound_block e B bd" "k \<le> bd_key bd" "bd_key bd_default \<le> bd_key bd"
    and st: "bsm_stream_id bsm = fst k" "bd_stream_id bd = bsm_stream_id bsm \<Longrightarrow> bufs_ok dr (bsm_stream_id bsm) bsm"
    and utf: "\<And>d. dr = Some d \<Longrightarrow> is_utf8 (idb_stream_string d (bd_stream_id bd))"
  shows "\<exists>bsm' bsw'. bsm_must_write_block e dr bd bsm bsw = Ok (bsm', bsw') \<and> minv e dr B bsw0 (bd_key bd) (P @ [bd]) bsm' bsw' \<and>
    bsm_stream_id bsm' = bd_stream_id bd \<and> bufs_ok dr (bd_stream_id bd) bsm'"
proof -
  note ck = check_next_block_ok [OF inv st(1) bd(2)]
  have X0: "mset (merge_items e dr P) \<subseteq># X" using X by (simp add: subset_mset.order_trans [OF _ X])
  obtain bsw1 where fl: "must_flush_rows e bsm bsw = Ok (reset_rows bsm, bsw1)" "minv e dr B bsw0 k P (reset_rows bsm) bsw1"
    using flush_pending [OF inv w z f fit X0 _ B(2)] len by auto
  note none = reset_pending(2) [of bsm]
  have ok: "bsm_ok e dr B bsm" using inv by (auto simp: minv_def)
  let ?r = "uncompressed_rows_size_bytes (rs_rows (bsm_rows bsm))" and ?p = "unat (bd_uncompressed_size_bytes (bsm_bd bsm))" and ?n = "unat (bd_uncompressed_size_bytes bd)"
  have sizes: "?r \<le> B" "?p \<le> B" "?n \<le> B" "unat (bsm_uncompressed_rows_size_bytes bsm) = ?r"
    using ok bd(1) unat_size [OF _ B(2)] by (auto simp: bsm_ok_def sound_block_def bd_default_def)
  show ?thesis
  proof (cases "bd_stream_id bd = bsm_stream_id bsm")
    case False
    note s = set_stream_id_state [OF fl(2) none utf]
    have "\<exists>bsm' bsw'. bsm_must_write_block_data e dr bd (set_stream_id (bd_stream_id bd) dr (reset_rows bsm)) bsw1 = Ok (bsm', bsw') \<and>
        minv e dr B bsw0 (bd_key bd) (P @ [bd]) bsm' bsw' \<and> bsm_stream_id bsm' = bd_stream_id bd \<and> bufs_ok dr (bd_stream_id bd) bsm'"
      using write_data_step [OF s(1) w z f fit X len B(2) bd(1) _ _ bd(2,3) s(2)] s(3,4) by simp
    then show ?thesis using False ck fl(1) by (simp add: bsm_must_write_block_def stream_id_equal_iff)
  next
    case same: True
    note bufs = st(2) [OF same]
    have bufs': "bufs_ok dr (bsm_stream_id (reset_rows bsm)) (reset_rows bsm)" "bd_stream_id bd = bsm_stream_id (reset_rows bsm)"
      using bufs same by (auto simp: bufs_ok_def reset_rows_def)
    have flushed: "\<exists>bsm' bsw'. bsm_must_write_block_data e dr bd (reset_rows bsm) bsw1 = Ok (bsm', bsw') \<and>
        minv e dr B bsw0 (bd_key bd) (P @ [bd]) bsm' bsw' \<and> bsm_stream_id bsm' = bd_stream_id bd \<and> bufs_ok dr (bd_stream_id bd) bsm'"
      using write_data_step [OF fl(2) w z f fit X len B(2) bd(1) bufs'(2,1) bd(2,3) none] bufs'(2) by simp
    let ?c1 = "bsm_uncompressed_rows_size_bytes bsm = 0 \<and> bd_rows_count (bsm_bd bsm) = 0 \<and> bd_uncompressed_size_bytes bd \<ge> of_nat MAX_UNCOMPRESSED_BLOCK_SIZE"
    let ?c2 = "bsm_uncompressed_rows_size_bytes bsm + bd_uncompressed_size_bytes (bsm_bd bsm) + bd_uncompressed_size_bytes bd \<ge> 2 * of_nat MAX_UNCOMPRESSED_BLOCK_SIZE"
    consider (full) ?c1 | (big) "\<not> ?c1" ?c2 | (merge) "\<not> ?c1" "\<not> ?c2" by blast
    then show ?thesis
    proof cases
      case full
      then have "?r = 0" using sizes(4) by simp
      then have "rs_rows (bsm_rows bsm) = []" by (cases "rs_rows (bsm_rows bsm)") (simp_all add: uncompressed_rows_size_bytes_def row_len_pos(1) [THEN less_imp_neq, symmetric])
      then have "pending_key bsm = None" using ok full by (simp add: pending_key_def bsm_ok_def rows_wf_def)
      from write_data_step [OF inv w z f fit X len B(2) bd(1) same bufs bd(2,3) this] show ?thesis
        using full same ck by (simp add: bsm_must_write_block_def stream_id_equal_iff)
    next
      case big
      then show ?thesis using flushed same ck fl(1) by (simp add: bsm_must_write_block_def stream_id_equal_iff del: de_Morgan_conj)
    next
      case merge
      have "unat (bsm_uncompressed_rows_size_bytes bsm + bd_uncompressed_size_bytes (bsm_bd bsm)) = ?r + ?p" using sizes B(2) by (simp add: unat_word_ariths(1))
      then have "unat (bsm_uncompressed_rows_size_bytes bsm + bd_uncompressed_size_bytes (bsm_bd bsm) + bd_uncompressed_size_bytes bd) = ?r + ?p + ?n"
        using sizes B(2) by (subst unat_word_ariths(1)) simp
      then have "?r + ?p + ?n \<le> B" using merge(2) B(1) by (simp add: word_le_nat_alt MAX_UNCOMPRESSED_BLOCK_SIZE_def)
      from merge_block [OF inv w z f fit X len B(2) bd(1) same bufs bd(2,3) this] show ?thesis
        using merge same ck bufs by (auto simp: bsm_must_write_block_def stream_id_equal_iff bufs_ok_def)
    qed
  qed
qed

lemma write_seq_rows:
  assumes inv: "minv e dr B bsw0 k P bsm bsw" and w: "writer_rel e sw0 bsw0 [] gs pend" and z: "zstd_ok (e_zstd e)" and f: "f64_laws (e_f64 e)"
    and fit: "rows_store e B X" and X: "mset (merge_items e dr (P @ seq)) \<subseteq># X" and len: "length (P @ seq) \<le> 2 ^ 23"
    and B: "2 * MAX_UNCOMPRESSED_BLOCK_SIZE \<le> B" "B \<le> 2 ^ 40"
    and seq: "list_all (sound_block e B) seq" "sorted_wrt bd_le seq" "\<And>bd. bd \<in> set seq \<Longrightarrow> bd_key bd_default \<le> bd_key bd \<and> k \<le> bd_key bd"
    and st: "bsm_stream_id bsm = fst k" "\<And>bd. bd \<in> set seq \<Longrightarrow> bd_stream_id bd = bsm_stream_id bsm \<Longrightarrow> bufs_ok dr (bsm_stream_id bsm) bsm"
    and utf: "\<And>d s. dr = Some d \<Longrightarrow> is_utf8 (idb_stream_string d s)"
  shows "\<exists>k' bsm' bsw'. write_seq e dr seq bsm bsw = Ok (bsm', bsw') \<and> minv e dr B bsw0 k' (P @ seq) bsm' bsw'"
  using inv X len seq st
proof (induction seq arbitrary: k P bsm bsw)
  case Nil
  then show ?case by (intro exI [of _ k] exI [of _ bsm] exI [of _ bsw]) simp
next
  case (Cons bd seq)
  have X1: "mset (merge_items e dr (P @ [bd])) \<subseteq># X" 
  proof -
    have "mset (merge_items e dr (P @ [bd])) \<subseteq># mset (merge_items e dr (P @ bd # seq))" by (simp add: merge_items_def)
    then show ?thesis using Cons.prems(2) by (rule subset_mset.order_trans)
  qed
  have b: "sound_block e B bd" "k \<le> bd_key bd" "bd_key bd_default \<le> bd_key bd" using Cons.prems(4,6) by simp_all
  have l: "length P < 2 ^ 23" using Cons.prems(3) by simp
  obtain bsm1 bsw1 where s: "bsm_must_write_block e dr bd bsm bsw = Ok (bsm1, bsw1)" "minv e dr B bsw0 (bd_key bd) (P @ [bd]) bsm1 bsw1"
      "bsm_stream_id bsm1 = bd_stream_id bd" "bufs_ok dr (bd_stream_id bd) bsm1"
    using must_write_block_step [OF Cons.prems(1) w z f fit X1 l B b Cons.prems(7) _ utf] Cons.prems(8) by auto
  have "\<exists>k' bsm' bsw'. write_seq e dr seq bsm1 bsw1 = Ok (bsm', bsw') \<and> minv e dr B bsw0 k' ((P @ [bd]) @ seq) bsm' bsw'"
    by (rule Cons.IH [OF s(2)]) (use Cons.prems(2-6) s(3,4) in \<open>auto simp: bd_le_key bd_key_def\<close>)
  then show ?case using s(1) by simp
qed


text \<open>A row with a value: its fields are not all empty.\<close>

definition says_something :: "StreamID \<times> i64 \<times> (bytes \<Rightarrow> bytes) \<Rightarrow> bool" where
  "says_something y \<longleftrightarrow> snd (snd y) \<noteq> (\<lambda>_. [])"

lemma says_has_fields: "says_something (item_says x) \<Longrightarrow> has_fields x"
  by (auto simp: says_something_def item_says_def has_fields_def row_values_def get_field_value_by_name_def case_prod_unfold fun_eq_iff)

lemma filter_says: "filter_mset says_something (image_mset item_says M) = image_mset item_says (filter_mset (says_something \<circ> item_says) (filter_mset has_fields M))"
proof -
  have "filter_mset (says_something \<circ> item_says) M = filter_mset (says_something \<circ> item_says) (filter_mset has_fields M)"
    by (simp add: filter_filter_mset) (rule filter_mset_cong, use says_has_fields in auto)
  then show ?thesis by (simp add: filter_mset_image_mset comp_def)
qed

lemma block_items_all: "blocks_rows e bds = Some xs \<Longrightarrow> concat (map (block_items e) bds) = xs"
proof (induction bds arbitrary: xs)
  case (Cons bd bds)
  then show ?case by (cases "stored_rows e bd"; cases "blocks_rows e bds") (auto simp: block_items_def)
qed simp

lemma mset_concat_map: "mset bds = mset bds' \<Longrightarrow> mset (concat (map f bds)) = mset (concat (map f bds'))"
proof -
  have "mset (concat (map f zs)) = (\<Sum>x \<in># mset zs. mset (f x))" for zs by (induction zs) auto
  then show "mset bds = mset bds' \<Longrightarrow> ?thesis" by simp
qed

lemma start_state: "minv e dr B bsw0 (bd_key bd_default) [] bsm_default bsw0"
  by (auto simp: minv_def out_ok_def pending_key_def pending_def bsm_default_def bsm_ok_def kept_items_def merge_items_def no_rows_def rows_of_def rows_wf_def
      bd_default_def uncompressed_rows_size_bytes_def)


text \<open>The merger writes a part of the kept rows.\<close>

lemma merge_seq_written:
  assumes z: "zstd_ok (e_zstd e)" "order_ok e" and f: "f64_laws (e_f64 e)" and fit: "rows_store e B (mset (merge_items e dr seq))"
    and B: "2 * MAX_UNCOMPRESSED_BLOCK_SIZE \<le> B" "B \<le> 2 ^ 40" and len: "length seq \<le> 2 ^ 23"
    and seq: "list_all (sound_block e B) seq" "sorted_wrt bd_le (bd_default # seq)"
    and dr: "case dr of None \<Rightarrow> True | Some d \<Rightarrow> (\<forall>s. is_utf8 (idb_stream_string d s)) \<and> (\<forall>bd \<in> set seq. bd_stream_id bd \<noteq> stream_id_zero)"
    and bsw0: "bsw0 = (if inmemory then must_init_for_inmemory_part else must_init_for_file_part)"
  shows "\<exists>ph sw outs bsr ys. obind (write_seq e dr seq bsm_default bsw0) (\<lambda>(bsm, bsw). obind (must_flush_rows e bsm bsw) (\<lambda>(bsm, bsw). finalize e bsw)) = Ok (ph, sw) \<and>
    (if inmemory then must_init_from_inmemory_part else must_init_from_file_part) (e_zstd e) (part_of inmemory ph sw) = Ok bsr \<and>
    (\<forall>n > length outs. read_blocks e n bsr = Ok outs) \<and> sorted_wrt bd_le outs \<and> blocks_rows e outs = Some ys \<and>
    filter_mset says_something (mset (map item_says ys)) = filter_mset says_something (image_mset item_says (kept_items e dr seq))"
proof -
  define fc where "fc = (if inmemory then Inmemory True else FileFactory)"
  define m :: u64 where "m = (if inmemory then 1 else of_nat BLOOM_VALUES_MAX_SHARDS_COUNT)"
  have fm: "fc = FileFactory \<and> 0 < m \<or> fc = Inmemory True \<and> m = 1" by (simp add: fc_def m_def BLOOM_VALUES_MAX_SHARDS_COUNT_def)
  have start: "bsw0 = bsw_reset (sw_init fc m)"
    by (simp add: bsw0 must_init_for_inmemory_part_def must_init_for_file_part_def fc_def m_def)
  note w = fresh_writer_rel [OF fm, of e, folded start]
  have sid: "bsm_stream_id bsm_default = fst (bd_key bd_default)" by (simp add: bsm_default_def bd_key_def bd_default_def)
  have key: "bd_key bd_default \<le> bd_key bd" if "bd \<in> set seq" for bd using seq(2) that by (simp add: bd_le_key)
  have bufs: "bufs_ok dr (bsm_stream_id bsm_default) bsm_default" if "bd \<in> set seq" "bd_stream_id bd = bsm_stream_id bsm_default" for bd
    using dr that by (cases dr) (auto simp: bufs_ok_def bsm_default_def)
  obtain k bsm bsw where s: "write_seq e dr seq bsm_default bsw0 = Ok (bsm, bsw)" "minv e dr B bsw0 k seq bsm bsw"
  proof -
    have "\<exists>k bsm bsw. write_seq e dr seq bsm_default bsw0 = Ok (bsm, bsw) \<and> minv e dr B bsw0 k ([] @ seq) bsm bsw"
      by (rule write_seq_rows [OF start_state w z(1) f fit _ _ B seq(1) _ _ sid bufs]) (use len seq(2) key dr in auto)
    then show thesis using that by auto
  qed
  obtain bsw1 where fl: "must_flush_rows e bsm bsw = Ok (reset_rows bsm, bsw1)" "minv e dr B bsw0 k seq (reset_rows bsm) bsw1"
    using flush_pending [OF s(2) w z(1) f fit _ len B(2)] by auto
  obtain outs W where o: "write_blocks e outs bsw0 = Ok bsw1" "out_ok e outs W" "length outs \<le> length seq"
      "filter_mset has_fields W = filter_mset has_fields (kept_items e dr seq)"
    using fl(2) by (auto simp: minv_def reset_pending)
  obtain ys where ys: "blocks_rows e outs = Some ys" "image_mset item_says (mset ys) = image_mset item_says W"
      "list_all (storable e) outs" "sorted_wrt bd_le (bd_default # outs)"
    using o(2) by (auto simp: out_ok_def list_all_iff)
  have fits: "blocks_fit outs" by (rule outs_fit [OF o(2)]) (use o(3) len in simp)
  obtain ph sw bsr where r: "finalize e bsw1 = Ok (ph, sw)"
      "(if inmemory then must_init_from_inmemory_part else must_init_from_file_part) (e_zstd e) (part_of inmemory ph sw) = Ok bsr"
      "\<forall>n > length outs. read_blocks e n bsr = Ok outs"
    using part_written_read [OF z ys(3,4) fits, of inmemory] o(1) bsw0 by auto
  have "filter_mset says_something (mset (map item_says ys)) = filter_mset says_something (image_mset item_says (kept_items e dr seq))"
    unfolding mset_map ys(2) filter_says o(4) ..
  moreover have "sorted_wrt bd_le outs" using ys(4) by simp
  ultimately show ?thesis using s(1) fl(1) r ys(1) by (intro exI [of _ ph] exI [of _ sw] exI [of _ outs] exI [of _ bsr] exI [of _ ys]) simp
qed

text \<open>C8: merging parts loses no row. Whatever block streams are merged, each in order, into a fresh part (in memory
  or in files), with or without a drop filter: the merge ends without a panic, the new part can be opened and read, its
  blocks are ordered by stream and first timestamp, and its rows with a non-empty value are exactly the
  rows of the merged streams the filter does not drop (stream, timestamp and the value of every field name).
  It is stated for a merge that is not stopped, of at most \<open>2 ^ 23\<close> blocks as this program writes them, of at most \<open>B\<close> bytes each; for rows with distinct field names, at most 2000, and
  values in printed form (a merge re-encodes columns, and a column of other values can come back changed); where
  packing any rows of one stream that come together in a block succeeds within the limits on columns and sizes of the format; and for no block of
  the all-zero stream that starts before the epoch. With a drop filter, the stream strings of the index are
  valid UTF-8 and no block is of the all-zero stream.\<close>

theorem merge_keeps_rows:
  assumes "zstd_ok (e_zstd e)" "order_ok e" "f64_laws (e_f64 e)"
    and "list_all2 (\<lambda>bsr bds. read_blocks e (Suc (length bds)) bsr = Ok bds) bsrs bdss" "list_all (sorted_wrt bd_le) bdss"
    and "list_all (sound_block e B) (concat bdss)" "\<forall>bd \<in> set (concat bdss). bd_le bd_default bd" "blocks_rows e (concat bdss) = Some xs"
    and "\<forall>x \<in> set xs. row_plain (e_f64 e) (snd (snd x))" "rows_fit e B (mset (merge_items e dr (concat bdss)))" "2 * MAX_UNCOMPRESSED_BLOCK_SIZE \<le> B" "B \<le> 2 ^ 40" "length (concat bdss) \<le> 2 ^ 23"
    and "case dr of None \<Rightarrow> True | Some d \<Rightarrow> (\<forall>s. is_utf8 (idb_stream_string d s)) \<and> (\<forall>bd \<in> set (concat bdss). bd_stream_id bd \<noteq> stream_id_zero)"
  shows "\<exists>ph sw outs bsr ys.
    must_merge_block_streams e dr (\<lambda>_. False) (if inmemory then must_init_for_inmemory_part else must_init_for_file_part) bsrs = Ok (ph, sw) \<and>
    (if inmemory then must_init_from_inmemory_part else must_init_from_file_part) (e_zstd e) (part_of inmemory ph sw) = Ok bsr \<and>
    (\<forall>n > length outs. read_blocks e n bsr = Ok outs) \<and> sorted_wrt bd_le outs \<and> blocks_rows e outs = Some ys \<and>
    filter_mset says_something (mset (map item_says ys)) =
      filter_mset says_something (mset (map item_says (filter (\<lambda>x. \<not> dropped dr x) xs)))"
proof -
  let ?bsw = "if inmemory then must_init_for_inmemory_part else must_init_for_file_part"
  obtain seq where s: "sorted_wrt bd_le seq" "mset seq = mset (concat bdss)"
      "must_merge_block_streams e dr (\<lambda>_. False) ?bsw bsrs =
        obind (write_seq e dr seq bsm_default ?bsw) (\<lambda>(bsm, bsw). obind (must_flush_rows e bsm bsw) (\<lambda>(bsm, bsw). finalize e bsw))"
    using merge_streams_seq [OF assms(4,5), of dr ?bsw] by blast
  note p = mset_concat_map [OF s(2)] mset_eq_setD [OF s(2)] mset_eq_length [OF s(2)]
  have kept: "kept_items e dr seq = mset (filter (\<lambda>x. \<not> dropped dr x) xs)"
    using p(1) [of "block_items e"] block_items_all [OF assms(8)] by (simp add: kept_items_def)
  have "\<exists>rs. stored_rows e bd = Some rs" if "sound_block e B bd" for bd using that by (rule sound_blockE) (rule exI)
  then have ne: "list_all (\<lambda>bd. \<exists>rs. stored_rows e bd = Some rs) (concat bdss)" using assms(6) unfolding list_all_iff by blast
  have "row_plain (e_f64 e) (snd (snd x))" if "x \<in> set (merge_items e dr (concat bdss))" for x
    using merge_items_row [OF ne that] assms(9) unfolding block_items_all [OF assms(8)] by auto
  then have "rows_store e B (mset (merge_items e dr (concat bdss)))" by (intro rows_storeI [OF assms(10)]) simp
  then have fit: "rows_store e B (mset (merge_items e dr seq))" using p(1) unfolding merge_items_def by metis
  have seq: "list_all (sound_block e B) seq" "sorted_wrt bd_le (bd_default # seq)" "length seq \<le> 2 ^ 23"
    using assms(6,7,13) s(1) p(2,3) by (auto simp: list_all_iff)
  have dr: "case dr of None \<Rightarrow> True | Some d \<Rightarrow> (\<forall>s. is_utf8 (idb_stream_string d s)) \<and> (\<forall>bd \<in> set seq. bd_stream_id bd \<noteq> stream_id_zero)"
    unfolding p(2) by (rule assms(14))
  show ?thesis unfolding s(3) mset_map [of _ "filter _ _"] kept [symmetric] by (rule merge_seq_written [OF assms(1-3) fit assms(11,12) seq(3,1,2) dr refl])
qed


lemma rows_pack_unpacked:
  assumes "rows_pack e s ts rows = Some bd" "rows_lossless (e_f64 e) ts rows" "f64_laws (e_f64 e)" "zstd_ok (e_zstd e)" "must_init_from_rows ts rows no_block = Ok b"
  shows "stored_rows e bd = Some (rows_of (append_rows_to b no_rows))"
proof -
  obtain b' where b: "must_init_from_rows ts rows no_block = Ok b'" "pack_block e s b' = Ok bd" "block_wf b'" "block_small b'"
      "list_all (\<lambda>c. list_all (canonical (e_f64 e)) (col_values c)) (b_columns b')"
    using rows_pack_block [OF assms(1,2)] by metis
  obtain sbu' where "init_from_block_data e bd \<lparr>sbu_data = []\<rparr> = Ok (b', sbu')"
    using pack_block_unpack [OF b(2-4) assms(3,4) b(5)] by blast
  then show ?thesis using assms(5) b(1) by (simp add: stored_rows_def unmarshal_rows_def no_rows_def)
qed

text \<open>Two parts with one row each are merged under a drop filter that drops the second row.\<close>

definition sid_demo :: StreamID where "sid_demo = StreamID (TenantID 0 0) (U128 0 1)"

definition row_demo :: "u8 \<Rightarrow> row" where "row_demo v = [Field [97] [99], Field [98] [v]]"

definition b_one :: "i64 \<Rightarrow> u8 \<Rightarrow> Block" where
  "b_one t v = \<lparr>b_timestamps = [t], b_columns = [], b_const_columns = row_demo v\<rparr>"

definition bd_one :: "i64 \<Rightarrow> u8 \<Rightarrow> BlockData" where
  "bd_one t v = \<lparr>bd_stream_id = sid_demo, bd_uncompressed_size_bytes = 64, bd_rows_count = 1,
     bd_timestamps_data = \<lparr>td_data = [], td_marshal_type = MT_CONST, td_min_timestamp = t, td_max_timestamp = t\<rparr>,
     bd_columns_data = [], bd_const_columns = row_demo v\<rparr>"

definition b_mixed :: Block where
  "b_mixed = \<lparr>b_timestamps = [5, 7], b_columns = [\<lparr>col_name = [97], col_values = [[99], []]\<rparr>, \<lparr>col_name = [98], col_values = [[121], []]\<rparr>], b_const_columns = []\<rparr>"

definition dr_demo :: DropFilterCtx where
  "dr_demo = \<lparr>pso_tenant_ids = [TenantID 0 0], pso_stream_ids = [],
     pso_filter = \<lparr>df_min = 0, df_max = 100, df_match = (\<lambda>fs. get_field_value_by_name fs [98] = [120]), df_fields = (\<lambda>n. n = [98])\<rparr>,
     idb_stream_string = (\<lambda>_. ascii ''{}'')\<rparr>"

lemma demo_built:
  "must_init_from_rows [5] [row_demo 121] no_block = Ok (b_one 5 121)" "must_init_from_rows [7] [row_demo 120] no_block = Ok (b_one 7 120)"
  "must_init_from_rows [5, 7] [row_demo 121, []] no_block = Ok b_mixed"
  by code_simp+

lemma demo_unpacked:
  "rows_of (append_rows_to (b_one 5 121) no_rows) = [(5, row_demo 121)]" "rows_of (append_rows_to (b_one 7 120) no_rows) = [(7, row_demo 120)]"
  by code_simp+

lemma demo_lossless:
  "rows_lossless demo_f64 [5] [row_demo 121]" "rows_lossless demo_f64 [7] [row_demo 120]" "rows_lossless demo_f64 [5, 7] [row_demo 121, []]"
  by code_simp+

lemma b_one_size: "uncompressed_size_bytes (b_one 5 121) = 64" "uncompressed_size_bytes (b_one 7 120) = 64" "uncompressed_size_bytes b_mixed \<le> 1000"
    "uncompressed_rows_size_bytes [row_demo 121] = 64" "uncompressed_rows_size_bytes [row_demo 120] = 64"
  by code_simp+

lemma demo_timestamps: "marshal_timestamps stored [] [5] 64 = Ok ([], MT_CONST, 5)" "marshal_timestamps stored [] [7] 64 = Ok ([], MT_CONST, 7)"
    "marshal_timestamps stored [] [5, 7] 64 = Ok ([4], DELTA_CONST, 5)"
  by code_simp+


lemma bd_one_pack:
  "rows_pack env_demo sid_demo [5] [row_demo 121] = Some (bd_one 5 121)" "rows_pack env_demo sid_demo [7] [row_demo 120] = Some (bd_one 7 120)"
proof -
  have p: "pack_block env_demo sid_demo (b_one t v) = Ok (bd_one t v)" if "uncompressed_size_bytes (b_one t v) = 64" "marshal_timestamps stored [] [t] 64 = Ok ([], MT_CONST, t)" for t v
    using that(1) unfolding pack_block_def by (simp add: b_one_def that(2) env_demo_def bd_one_def)
  have "packed_fits (bd_one t v)" "block_small (b_one t v)" for t v
    by (simp_all add: packed_fits_def bd_one_def td_valid_def bd_names_def const_bytes_def marshal_bytes_def codec_simps varint_bytes_small
        MAX_TIMESTAMPS_BLOCK_SIZE_def row_demo_def block_small_def b_one_def MAX_ROWS_PER_BLOCK_def)
  then show "rows_pack env_demo sid_demo [5] [row_demo 121] = Some (bd_one 5 121)" "rows_pack env_demo sid_demo [7] [row_demo 120] = Some (bd_one 7 120)"
    using p b_one_size(1,2) demo_timestamps by (simp_all add: rows_pack_def demo_built)
qed

definition bd_mixed :: BlockData where
  "bd_mixed = \<lparr>bd_stream_id = sid_demo, bd_uncompressed_size_bytes = of_nat (uncompressed_size_bytes b_mixed), bd_rows_count = 2,
     bd_timestamps_data = \<lparr>td_data = [4], td_marshal_type = DELTA_CONST, td_min_timestamp = 5, td_max_timestamp = 7\<rparr>,
     bd_columns_data = map (\<lambda>(n, v). \<lparr>cd_name = [n], cd_value_type = DICT, cd_min_value = 0, cd_max_value = 0, cd_values_dict = \<lparr>dict_values = [[v], []]\<rparr>,
       cd_values_data = marshal_strings_block stored [] [[0], [1]], cd_bloom_filter_data = []\<rparr>) [(97, 99), (98, 121)], bd_const_columns = []\<rparr>"

lemma b_mixed_packed: "pack_block env_demo sid_demo b_mixed = Ok bd_mixed"
proof -
  have "case encode demo_f64 ve_empty [[99], []] dict_empty of (ve, dict, vt, mn, mx) \<Rightarrow>
      ve_values ve = [[0], [1]] \<and> dict = \<lparr>dict_values = [[99], []]\<rparr> \<and> vt = DICT \<and> mn = 0 \<and> mx = 0"
    "case encode demo_f64 ve_empty [[121], []] dict_empty of (ve, dict, vt, mn, mx) \<Rightarrow>
      ve_values ve = [[0], [1]] \<and> dict = \<lparr>dict_values = [[121], []]\<rparr> \<and> vt = DICT \<and> mn = 0 \<and> mx = 0" by code_simp+
  then have "pack_columns env_demo (b_columns b_mixed) = Ok (bd_columns_data bd_mixed)"
    by (auto simp: b_mixed_def pack_column_def env_demo_def column_bloom_def bd_mixed_def)
  moreover have "b_timestamps b_mixed = [5, 7]" "b_const_columns b_mixed = []" by (simp_all add: b_mixed_def)
  ultimately show ?thesis by (simp add: pack_block_def demo_timestamps bd_mixed_def env_demo_def)
qed

lemma b_mixed_pack: "rows_pack env_demo sid_demo [5, 7] [row_demo 121, []] = Some bd_mixed"
proof -
  have "length (marshal_strings_block stored [] [[0], [1]]) = 8" by code_simp
  then have "packed_fits bd_mixed"
    by (simp add: packed_fits_def bd_mixed_def td_valid_def column_fits_def bd_names_def const_bytes_def marshal_bytes_def codec_simps varint_bytes_small
        MAX_TIMESTAMPS_BLOCK_SIZE_def MAX_VALUES_BLOCK_SIZE_def MAX_BLOOM_FILTER_BLOCK_SIZE_def)
  moreover have "block_small b_mixed" by (simp add: block_small_def b_mixed_def column_small_def MAX_ROWS_PER_BLOCK_def)
  ultimately show ?thesis by (simp add: rows_pack_def demo_built b_mixed_packed)
qed

lemma demo_laws: "zstd_ok (e_zstd env_demo)" "order_ok env_demo" "e_zstd env_demo = stored" "f64_laws (e_f64 env_demo)" "e_f64 env_demo = demo_f64"
  by (auto simp: env_demo_def order_ok_def f64_laws_def demo_f64_def)

lemma bd_one_stored:
  "stored_rows env_demo (bd_one 5 121) = Some [(5, row_demo 121)]" "stored_rows env_demo (bd_one 7 120) = Some [(7, row_demo 120)]"
  using rows_pack_unpacked [OF bd_one_pack(1) _ demo_laws(4,1) demo_built(1)] rows_pack_unpacked [OF bd_one_pack(2) _ demo_laws(4,1) demo_built(2)]
    demo_lossless demo_unpacked by (simp_all add: demo_laws)

lemma bd_one_sound: "sound_block env_demo (2 * MAX_UNCOMPRESSED_BLOCK_SIZE) (bd_one 5 121)" "sound_block env_demo (2 * MAX_UNCOMPRESSED_BLOCK_SIZE) (bd_one 7 120)"
  using rows_pack_stored(1) [OF bd_one_pack(1) _ demo_laws(4,1)] rows_pack_stored(1) [OF bd_one_pack(2) _ demo_laws(4,1)] demo_lossless b_one_size
  unfolding sound_block_def bd_one_stored by (simp_all add: demo_laws bd_one_def MAX_UNCOMPRESSED_BLOCK_SIZE_def timestamps_sorted_iff)

lemma mset_sub_pair: "mset xs \<subseteq># {#a, b#} \<Longrightarrow> xs \<in> {[], [a], [b], [a, b], [b, a]}"
proof -
  assume s: "mset xs \<subseteq># {#a, b#}"
  then have "length xs \<le> 2" using size_mset_mono by fastforce
  then consider "xs = []" | x where "xs = [x]" | x y where "xs = [x, y]"
    by (cases xs; cases "tl xs"; cases "tl (tl xs)") auto
  then show ?thesis
  proof cases
    case (2 x)
    then show ?thesis using s by (auto dest: mset_subset_eqD)
  next
    case (3 x y)
    then have "{#x, y#} = {#a, b#}" using s by (metis mset.simps(1,2) mset_subset_size nat_less_le size_add_mset size_empty subset_mset.le_neq_trans)
    then show ?thesis using 3 by (auto simp: add_eq_conv_diff split: if_splits)
  qed simp
qed

lemma demo_fit: "rows_fit env_demo B {#(sid_demo, 5, row_demo 121), (sid_demo, 7, [])#}"
  unfolding rows_fit_def
proof (intro allI impI, elim conjE)
  fix s ts rows
  assume a: "list_ex (\<lambda>r. r \<noteq> []) rows" "length ts = length rows" "timestamps_sorted ts"
    and m: "mset (map (Pair s) (zip ts rows)) \<subseteq># {#(sid_demo, 5, row_demo 121), (sid_demo, 7, [])#}"
  define xs where "xs = map (Pair s) (zip ts rows)"
  have p: "ts = map (fst \<circ> snd) xs" "rows = map (snd \<circ> snd) xs" "xs \<noteq> [] \<Longrightarrow> fst (hd xs) = s"
    using a(2) by (auto simp: xs_def comp_def hd_map)
  have "xs \<in> {[(sid_demo, 5, row_demo 121)], [(sid_demo, 5, row_demo 121), (sid_demo, 7, [])]}"
    using mset_sub_pair [OF m [folded xs_def]] a(1,3) unfolding p by (auto simp: timestamps_sorted_iff word_sle_eq)
  then have "s = sid_demo \<and> (ts = [5] \<and> rows = [row_demo 121] \<or> ts = [5, 7] \<and> rows = [row_demo 121, []])" using p by auto
  then show "rows_taken rows = length rows \<and> (\<exists>bd. rows_pack env_demo s ts rows = Some bd \<and> unat (bd_uncompressed_size_bytes bd) \<le> 2 ^ 40)"
    using demo_lossless [unfolded rows_lossless_def] bd_one_pack(1) b_mixed_pack b_one_size(3) by (auto simp: demo_laws bd_one_def bd_mixed_def unat_of_nat take_bit_nat_eq_self)
qed


lemma demo_drops: "drops_row (pso_filter dr_demo) s i 7 (row_demo 120)" "\<not> drops_row (pso_filter dr_demo) s i 5 (row_demo 121)"
  by (simp_all add: dr_demo_def word_sle_eq drops_row_def row_fields_for_filter_def Let_def add_field_if_needed_def get_canonical_column_name_bytes_def row_demo_def ascii_def)

lemma demo_items:
  "merge_items env_demo (Some dr_demo) [bd_one 7 120, bd_one 5 121] = [(sid_demo, 7, []), (sid_demo, 5, row_demo 121)]"
proof -
  have "need_drop_rows (Some dr_demo) sid_demo 5 5" "need_drop_rows (Some dr_demo) sid_demo 7 7"
    by (simp_all add: need_drop_rows_def dr_demo_def match_stream_id_def match_time_range_def sid_demo_def word_sle_eq)
  moreover have "bd_stream_id (bd_one t v) = sid_demo" "td_min_timestamp (bd_timestamps_data (bd_one t v)) = t" "td_max_timestamp (bd_timestamps_data (bd_one t v)) = t" for t v
    by (simp_all add: bd_one_def)
  ultimately show ?thesis by (simp add: merge_items_def block_kept_def bd_one_stored Let_def kept_rows_def demo_drops)
qed

theorem merge_keeps_rows_witness:
  "\<exists>a b ph sw outs bsr ys. read_blocks env_demo 2 a = Ok [bd_one 5 121] \<and> read_blocks env_demo 2 b = Ok [bd_one 7 120] \<and>
    must_merge_block_streams env_demo (Some dr_demo) (\<lambda>_. False) must_init_for_file_part [b, a] = Ok (ph, sw) \<and>
    must_init_from_file_part stored (part_of False ph sw) = Ok bsr \<and> read_blocks env_demo (Suc (length outs)) bsr = Ok outs \<and>
    blocks_rows env_demo outs = Some ys \<and> filter_mset says_something (mset (map item_says ys)) = {#item_says (sid_demo, 5, row_demo 121)#}"
proof -
  let ?a = "bd_one 5 121" and ?b = "bd_one 7 120" and ?B = "2 * MAX_UNCOMPRESSED_BLOCK_SIZE"
  have part: "\<exists>bsr. read_blocks env_demo 2 bsr = Ok [bd]" if h: "sound_block env_demo ?B bd" "bd_le bd_default bd" for bd
  proof -
    have "unat (bd_uncompressed_size_bytes bd) < 2 ^ 64" "unat (bd_rows_count bd) < 2 ^ 64" using unsigned_less [where ?'a = nat and ?'b = 64] by auto
    then have "blocks_fit [bd]" by (simp add: blocks_fit_def)
    then obtain bsr where "\<forall>n > length [bd]. read_blocks env_demo n bsr = Ok [bd]"
      using part_written_read [OF demo_laws(1,2), of "[bd]" False] h by (auto simp: sound_block_def)
    then show ?thesis by (intro exI [of _ bsr]) simp
  qed
  have le: "bd_le bd_default ?a" "bd_le bd_default ?b" by (simp_all add: bd_le_def bd_one_def bd_default_def sid_demo_def less_StreamID_def stream_id_less_def stream_id_zero_def u128_less_def word_sle_eq)
  obtain a b where ab: "read_blocks env_demo 2 a = Ok [?a]" "read_blocks env_demo 2 b = Ok [?b]" using part [OF bd_one_sound(1) le(1)] part [OF bd_one_sound(2) le(2)] by blast
  have rows: "blocks_rows env_demo (concat [[?b], [?a]]) = Some [(sid_demo, 7, row_demo 120), (sid_demo, 5, row_demo 121)]"
    using bd_one_stored by simp (simp add: bd_one_def)
  have drop: "dropped (Some dr_demo) (sid_demo, 7, row_demo 120)" "\<not> dropped (Some dr_demo) (sid_demo, 5, row_demo 121)"
    by (simp_all add: dropped_def demo_drops) (simp_all add: dr_demo_def match_stream_id_def sid_demo_def)
  have some: "says_something (item_says (sid_demo, 5, row_demo 121))"
    by (auto simp: says_something_def item_says_def row_values_def row_demo_def fun_eq_iff intro: exI [of _ "[97]"])
  have utf: "is_utf8 (ascii ''{}'')" by (rule is_utf8_ascii) (simp add: ascii_def)
  have plain: "\<forall>x \<in> set [(sid_demo, 7, row_demo 120), (sid_demo, 5, row_demo 121)]. row_plain (e_f64 env_demo) (snd (snd x))"
    using demo_lossless(1,2) by (simp add: rows_lossless_def row_plain_def demo_laws(5) list_all_iff)
  have fit: "rows_fit env_demo ?B (mset (merge_items env_demo (Some dr_demo) (concat [[?b], [?a]])))"
    using demo_fit [of ?B] demo_items by (simp add: add_mset_commute)
  let ?bdss = "[[?b], [?a]]"
  have "length [bd] = 1" for bd :: BlockData by simp
  then have h: "list_all2 (\<lambda>bsr bds. read_blocks env_demo (Suc (length bds)) bsr = Ok bds) [b, a] ?bdss"
    using ab by (simp del: read_blocks.simps length_Cons list.size add: numeral_2_eq_2)
  have hyps: "list_all (sorted_wrt bd_le) ?bdss" "list_all (sound_block env_demo ?B) (concat ?bdss)" "\<forall>bd \<in> set (concat ?bdss). bd_le bd_default bd"
      "?B \<le> ?B" "?B \<le> 2 ^ 40" "length (concat ?bdss) \<le> 2 ^ 23"
    using bd_one_sound le by (simp_all add: MAX_UNCOMPRESSED_BLOCK_SIZE_def)
  have dr: "case Some dr_demo of None \<Rightarrow> True | Some d \<Rightarrow> (\<forall>s. is_utf8 (idb_stream_string d s)) \<and> (\<forall>bd \<in> set (concat ?bdss). bd_stream_id bd \<noteq> stream_id_zero)"
    using utf by (simp add: dr_demo_def bd_one_def sid_demo_def stream_id_zero_def)
  obtain ph sw outs bsr ys where "must_merge_block_streams env_demo (Some dr_demo) (\<lambda>_. False) must_init_for_file_part [b, a] = Ok (ph, sw)"
      "must_init_from_file_part stored (part_of False ph sw) = Ok bsr" "\<forall>n > length outs. read_blocks env_demo n bsr = Ok outs" "blocks_rows env_demo outs = Some ys"
      "filter_mset says_something (mset (map item_says ys)) = {#item_says (sid_demo, 5, row_demo 121)#}"
    using merge_keeps_rows [OF demo_laws(1,2,4) h hyps(1,2,3) rows plain fit hyps(4-6) dr, of False] demo_laws(3) drop some by auto
  then show ?thesis using ab by blast
qed

end
