(* ===== verification/Spec2Isabelle.thy ===== *)
theory Spec2Isabelle
  imports Block_Encoding Filters Topk Bloom_Filter Tokenizer Duration_Format Blocks Merge_Rows
begin

text \<open>
  \<^bold>\<open>EsLogs, a log database: verification development.\<close>

  The program stores log rows in columnar blocks and answers LogsQL queries over them. Its core is
  the crate \<^verbatim>\<open>esl-logstorage\<close> on top of \<^verbatim>\<open>esl-common\<close>. Rows of one stream are cut into blocks; a block
  keeps its timestamps and columns in compressed encodings, and per column a bloom filter of the
  word tokens of its values. A query is a tree of filters and a list of pipes. The search skips a
  block when a bloom filter rules it out, narrows a bitmap of candidate rows through the filter
  tree, and hands the remaining rows to a chain of pipe processors.

  \<^bold>\<open>Theories and sources\<close> (paths below \<^verbatim>\<open>src/crates\<close>).

  \<^item> \<open>Prelude\<close>: machine types, the outcome of fallible code (value, error, panic), byte views, UTF-8,
    shared lemmas; \<open>set_length\<close> of \<^verbatim>\<open>esl-common/src/slicesutil.rs\<close>.
  \<^item> \<open>Codec_Spec\<close>: the contract of a self-delimiting codec as the locales \<open>codec\<close> and \<open>codec_progress\<close>,
    with prefix-freeness and injectivity of concatenated encodings proved from it. It is interpreted
    by the integer, byte-string, identifier and cache-key codecs.
  \<^item> \<open>Int_Encoding\<close>: the integer section of \<^verbatim>\<open>esl-common/src/encoding.rs\<close>. The branch chains of the
    variable-length encoders are shown equal to one reference encoding \<open>varint_bytes\<close>, the batch
    decoders to the single-value decoder \<open>uvarint\<close>, up to one ten-byte input on which they differ.
  \<^item> \<open>Array_Encoding\<close>: the rest of that file and the level table of \<^verbatim>\<open>encoding/zstd.rs\<close>. The lossless
    round trip at 64 precision bits, the error bound of the lossy encoding, repaired timestamps.
  \<^item> \<open>Block_Encoding\<close>: \<^verbatim>\<open>esl-logstorage/src/encoding.rs\<close>, blocks of bytes, integers and strings.
  \<^item> \<open>Ids\<close>: \<^verbatim>\<open>u128.rs\<close>, \<^verbatim>\<open>hash128.rs\<close>, \<^verbatim>\<open>tenant_id.rs\<close>, \<^verbatim>\<open>stream_id.rs\<close>; round trips, \<open>linorder\<close>
    instances, agreement of the order with the byte order of the encoded form.
  \<^item> \<open>Bitmap\<close>: \<^verbatim>\<open>bitmap.rs\<close> with its pool. The word-level operations are set operations on row numbers;
    the locale \<open>row_set\<close> is the interface the filters rely on.
  \<^item> \<open>Filters\<close>: the filter combinators, the time filter, the stream filter, what makes a leaf a match-all filter and the rewriting passes of
    \<^verbatim>\<open>parser/query.rs\<close>. Applying a tree agrees with matching row by row; rewriting keeps the matches.
  \<^item> \<open>Pipes\<close>: \<^verbatim>\<open>pipe_limit.rs\<close>, \<^verbatim>\<open>pipe_offset.rs\<close>, the window of \<^verbatim>\<open>pipe_sort.rs\<close>, \<open>run_pipes\<close> of
    \<^verbatim>\<open>storage_search.rs\<close> and the pipe rewriting passes; \<open>Topk\<close>: the heap of \<^verbatim>\<open>pipe_sort_topk.rs\<close>, whose
    needs of the row comparison are the locale \<open>topk_order\<close>.
  \<^item> \<open>Bloom_Filter\<close> and \<open>Tokenizer\<close>: \<^verbatim>\<open>bloomfilter.rs\<close>, \<^verbatim>\<open>tokenizer.rs\<close>, \<^verbatim>\<open>hash_tokenizer.rs\<close>.
  \<^item> \<open>Time_Format\<close>, \<open>Values_Encoder\<close>, \<open>Duration_Format\<close>: \<^verbatim>\<open>values_encoder.rs\<close>. Calendar arithmetic and timestamp
    formats; the value types of a column, how a column chooses its encoding, and decoding it; sizes and
    durations. What is stored comes back for values in printed form; the lossy cases are stated.
  \<^item> \<open>Blocks\<close>: \<^verbatim>\<open>rows.rs\<close> and the in-memory side of \<^verbatim>\<open>block.rs\<close>. Rows become columns and constant columns
    and come back; merging and dropping rows.
  \<^item> \<open>Block_Headers\<close>: \<^verbatim>\<open>block_header.rs\<close>, \<^verbatim>\<open>column_names.rs\<close> and the index block headers of
    \<^verbatim>\<open>block_stream_reader.rs\<close>.
  \<^item> \<open>Part_Streams\<close>: writing blocks and packed blocks (\<^verbatim>\<open>block_data.rs\<close>) to the streams of a part and
    reading them back. \<open>sw_inv\<close> is the invariant of the writers, \<open>in_sync\<close> relates a reader to the state of
    the writers when a block was written, \<open>block_written\<close> is the contract of writing one block.
  \<^item> \<open>Parts\<close>: the block stream writer and reader over whole parts (\<^verbatim>\<open>block_stream_writer.rs\<close>,
    \<^verbatim>\<open>block_stream_reader.rs\<close>, \<^verbatim>\<open>part_header.rs\<close>, \<^verbatim>\<open>inmemory_part.rs\<close>). \<open>writer_rel\<close> and \<open>reader_rel\<close> are the two
    simulation relations; together they give the round trip of a part.
  \<^item> \<open>Row_Parts\<close>: \<open>LogRowsInternal\<close> of \<^verbatim>\<open>log_rows.rs\<close> and \<open>InmemoryPart::must_init_from_rows\<close>. \<open>rows_pack\<close> is the packed block of some rows;
    writing rows is writing it (\<open>rows_pack_write\<close>) and unpacking it gives the rows (\<open>rows_pack_stored\<close>), so an in-memory part holds the
    rows it was filled with.
  \<^item> \<open>Merger\<close>: \<^verbatim>\<open>block_stream_merger.rs\<close>, the heap of readers and the merger. The merge of ordered streams ends and
    is the merger run on all blocks in order. The heap lemmas are those of the locale \<open>topk_order\<close>, interpreted on the readers.
  \<^item> \<open>Merge_Rows\<close>: the invariant \<open>minv\<close> of the merger; a merge keeps exactly the rows the drop filter does not match.
  \<^item> This theory: the properties that span components.

  \<^bold>\<open>Correspondence.\<close> A \<open>&mut\<close> argument is an argument and a result; a pool is a list whose elements are
  returned by \<open>get\<close> and \<open>put\<close>; an \<open>Err\<close> is a constructor of an error datatype with what the message
  prints; a panic, an index out of range included, is the outcome \<open>Panic\<close>. Integers keep their width
  where the code can overflow and wrap as in the release profile; lengths and indices are natural
  numbers. Loops are recursive functions with a termination proof; no definition uses fuel.

  \<^bold>\<open>Parameters.\<close> Code outside the repository is an argument: the compressor and decompressor of the
  zstd crate (\<open>zstd_ok\<close>: decompressing inverts compressing, and the output is within the documented
  bound), the 64-bit xxHash, regular expressions, the Unicode letter and digit classes, \<open>f64\<close> arithmetic
  and formatting (\<open>f64_ops\<close>), the offset of the local time zone and the iteration order of a hash map
  (\<open>order_ok\<close>: every entry once), the unstable sort of the library (\<open>sort_unstable_ok\<close>: a permutation in order), what the index
  renders for a stream (\<open>idb_stream_string\<close>), the streams the index finds for a stream filter (\<open>ids\<close>) and what the stop flag of a
  merge reads. Leaf filters and row operations that are not modelled are arguments as well (\<open>leaf_ok\<close>,
  \<open>pipe_ops\<close>); the sort of all rows (\<open>srt\<close>) and the bounded heap of a sort with a limit (\<open>top_rows\<close>) are two of them, since
  the code compares rows differently in the two, and \<open>sorts_agree\<close> says where they agree. Size bounds
  such as \<open>length a < 2 ^ 58\<close> keep byte counts below the address space; no reachable value exceeds them.

  \<^bold>\<open>Findings proved here.\<close> Batch decoders misread a zero tenth byte; \<open>limit + offset\<close> wraps in the pipe
  optimizer; \<open>uniq | limit 0\<close> becomes unlimited; a limit in front of a sort empties the result; a
  distributed sort with an offset and no limit is empty; the unit parsers panic on a three-byte
  character; columns of values that parse but are not in printed form come back changed; some
  durations do not print and parse; the size of a block and of its rows differ on empty constant
  columns. Stated as provisos of the properties: the optimizer takes \<open>*\<close> for a filter that matches every row, and a limit
  folded into a sort changes how rows are compared.

  \<^bold>\<open>Not modelled.\<close> Files, threads, memory budgets, metrics and network services; the LogsQL parser; the
  rendering of filters and pipes; the remaining leaf filters, pipes and statistics; the inverted index,
  the scheduling of merges, retention and partitions. Concurrency is left out: the pipe chain is run
  by one worker, so the properties of \<open>limit\<close> and \<open>offset\<close> are about the order in which blocks reach the
  chain.
\<close>

subsection \<open>Skipping blocks by their bloom filter\<close>

text \<open>C1: Searching never skips a block that holds the searched words. When a block is written, the
  tokens of a column's values are hashed and put into the stored bloom filter; when a query is run,
  the hashes of its tokens are looked up in the stored bytes. If every token of the query occurs in
  some value of the column, the lookup answers yes, for every hash function. The pools of tokenizers and
  filters hold reset objects, as every return to a pool leaves them.\<close>

theorem bloom_never_skips_matching_block:
  assumes "tok_pool_ok tpool" "\<forall>bf \<in> set bpool. bf_bits bf = []"
    and "length (all_hashes xxh64 lod vals) < 2 ^ 58"
    and "set tokens \<subseteq> (\<Union>s \<in> set vals. set (tokens_of lod s))"
  shows "\<exists>hs tpool' raw bpool'. tokenize_hashes xxh64 lod tpool [] vals = Ok (hs, tpool') \<and>
    bloom_filter_marshal_hashes xxh64 bpool dst hs = Ok (dst @ raw, bpool') \<and>
    bytes_contain_all raw (append_tokens_hashes xxh64 [] tokens) = Ok True"
proof -
  let ?hs = "new_hashes {} (all_hashes xxh64 lod vals)"
  obtain tpool' where t: "tokenize_hashes xxh64 lod tpool [] vals = Ok (?hs, tpool')"
    using tokenize_hashes_spec [OF assms(1), of xxh64 lod "[]" vals] by auto
  have len: "length ?hs < 2 ^ 58" using length_new_hashes [of "{}"] assms(3) le_less_trans by blast
  obtain bf bpool1 where g: "get_bloom_filter bpool = (bf, bpool1)" by fastforce
  then have bf: "bf_bits bf = []"
    using assms(2) last_in_set by (auto simp: get_bloom_filter_def bf_default_def split: if_splits)
  have sub: "set (map xxh64 tokens) \<subseteq> set ?hs" using assms(4) by (fastforce simp: set_new_hashes all_hashes_def)
  obtain bf' where i: "must_init_hashes xxh64 bf ?hs = Ok bf'"
    using must_init_hashes_spec [OF bf len, of xxh64] by (elim exE conjE)
  have c: "contains_all bf' (append_hashes_hashes xxh64 [] (map xxh64 tokens)) = Ok True"
    by (rule no_false_negative [OF bf len sub i])
  have l: "length (bf_bits bf') < 2 ^ 58" by (rule must_init_hashes_length [OF bf len i])
  have "bytes_contain_all (bf_marshal [] bf') (append_tokens_hashes xxh64 [] tokens) = Ok True"
    using c stored_probe [OF l] by (simp add: append_tokens_hashes_eq append_hashes_hashes_eq)
  moreover have "bloom_filter_marshal_hashes xxh64 bpool dst ?hs =
      Ok (dst @ bf_marshal [] bf', put_bloom_filter bpool1 bf')"
    by (simp add: bloom_filter_marshal_hashes_def g i bf_marshal_eq)
  ultimately show ?thesis using t by blast
qed

theorem bloom_never_skips_matching_block_witness:
  "\<exists>hs tpool' raw bpool'. tokenize_hashes (\<lambda>b. from_be_bytes b) (\<lambda>_. False) [] [] [[97, 32, 98]] = Ok (hs, tpool') \<and>
    bloom_filter_marshal_hashes (\<lambda>b. from_be_bytes b) [] [] hs = Ok ([] @ raw, bpool') \<and>
    bytes_contain_all raw (append_tokens_hashes (\<lambda>b. from_be_bytes b) [] [[98]]) = Ok True"
proof -
  have "tokens_of (\<lambda>_. False) [97, 32, 98] = [[97], [98]]" by code_simp
  then show ?thesis
    using bloom_never_skips_matching_block [of "[]" "[]" "\<lambda>b. from_be_bytes b" "\<lambda>_. False" "[[97, 32, 98]]" "[[98]]" "[]"]
    by (simp add: tok_pool_ok_def all_hashes_def)
qed

subsection \<open>Running an optimized filter\<close>

text \<open>C2: Among the rows of a block that have a message, the search selects exactly the rows on which the
  filter of the query, as written, is true: flattening, removing the \<open>*\<close> filters and merging the stream
  filters, and then applying the tree to the block with the bitmap operations, changes nothing. Rows
  without a message are left out, because the optimizer takes \<open>*\<close> for a filter that matches every row while it
  matches only rows whose message is not empty. The stream filters of the query are not empty and well
  formed, the index finds the stream of the block exactly for the stream filters that match it, and every
  other leaf filter selects the rows it matches.\<close>

theorem optimized_filter_selects:
  assumes "leaf_ok leaf (leaf_matches msg lm) n"
    and "\<forall>sf. \<not> stream_filter_is_empty sf \<longrightarrow> (blk \<in> ids sf \<longleftrightarrow> match_stream_name re_match sf tags = Ok True)"
    and "\<forall>sf \<in> set (stream_filters f). stream_filter_ok sf \<and> \<not> stream_filter_is_empty sf"
    and "bitmap_wf bm" "bits_len bm = n" "pool_ok pool"
  shows "\<exists>bm' pool'. apply_filter leaf (filter_stream_apply ids blk) (optimize_filters leaf_is_match_all f) bm pool = Ok (bm', pool') \<and>
    set_rows bm' \<subseteq> set_rows bm \<and>
    {r \<in> set_rows bm'. msg r \<noteq> []} = {r \<in> set_rows bm. msg r \<noteq> [] \<and>
      match_row (\<lambda>l. leaf_matches msg lm l r) (\<lambda>sf. match_stream_name re_match sf tags = Ok True) f}"
proof -
  let ?sm = "\<lambda>sf. stream_filter_is_empty sf \<or> blk \<in> ids sf" and ?ms = "\<lambda>sf. match_stream_name re_match sf tags = Ok True"
  let ?g = "optimize_filters leaf_is_match_all f"
  have "leaf_ok (filter_stream_apply ids blk) (\<lambda>sf r. ?sm sf) n"
    by (auto simp: leaf_ok_def filter_stream_apply_def bm.restricts_def reset_bits_spec)
  then have "applies leaf (filter_stream_apply ids blk) (leaf_matches msg lm) (\<lambda>sf r. ?sm sf) n ?g"
    by (rule apply_filter_correct [OF assms(1)])
  then obtain bm' pool' where
    a: "apply_filter leaf (filter_stream_apply ids blk) ?g bm pool = Ok (bm', pool')"
      "bm.restricts bm (\<lambda>r. match_row (\<lambda>l. leaf_matches msg lm l r) ?sm ?g) bm'" by (rule appliesE [OF _ assms(4-6)])
  have "match_row (\<lambda>l. leaf_matches msg lm l r) ?sm ?g = match_row (\<lambda>l. leaf_matches msg lm l r) ?ms f" if "msg r \<noteq> []" for r
  proof -
    have "match_row (\<lambda>l. leaf_matches msg lm l r) ?sm ?g = match_row (\<lambda>l. leaf_matches msg lm l r) ?ms ?g"
      using stream_filters_optimize [of f] assms(2,3) by (intro match_row_stream_cong) blast
    also have "\<dots> = match_row (\<lambda>l. leaf_matches msg lm l r) ?ms f"
      by (rule match_optimize_filters [OF _ _ refl]) (use that assms(3) in \<open>simp_all add: leaf_matches_def\<close>)
    finally show ?thesis .
  qed
  with a show ?thesis by (auto simp: bm.restricts_def)
qed

text \<open>A block of three rows, the last without a message, and a query \<open>{a="b"} *\<close> with a time range.\<close>

definition demo_leaf :: "(unit, FilterTime) LeafFilter \<Rightarrow> Bitmap \<Rightarrow> (Bitmap, unit) outcome" where
  "demo_leaf l bm = (case l of
     OtherLeaf ft \<Rightarrow> filter_time_apply demo_block ft bm
   | FilterGeneric n w f \<Rightarrow> (if leaf_is_match_all l then Ok (fst (for_each_set_bit (\<lambda>r (s :: unit). (r < 2, s)) bm ())) else Ok bm))"

definition demo_msg :: "nat \<Rightarrow> bytes" where "demo_msg r = (if r < 2 then [120] else [])"

definition demo_lm :: "(unit, FilterTime) LeafFilter \<Rightarrow> nat \<Rightarrow> bool" where
  "demo_lm l r = (case l of OtherLeaf ft \<Rightarrow> match_timestamp_value ft (timestamps demo_block ! r) | _ \<Rightarrow> True)"

definition demo_query :: "((unit, FilterTime) LeafFilter, unit) Filter" where
  "demo_query = FilterAnd [FilterStream (demo_sf ''a'' ''b''), FilterLeaf (FilterGeneric [] False (FilterPrefix [])),
     FilterLeaf (OtherLeaf \<lparr>min_timestamp = 15, max_timestamp = 35\<rparr>)]"

lemma demo_leaf_ok: "leaf_ok demo_leaf (leaf_matches demo_msg demo_lm) 3"
proof -
  have "\<exists>bm'. demo_leaf l bm = Ok bm' \<and> bm.restricts bm (leaf_matches demo_msg demo_lm l) bm'"
    if bm: "bitmap_wf bm" "bits_len bm = 3" for l bm
  proof (cases l)
    case (OtherLeaf ft)
    have "leaf_matches demo_msg demo_lm l = (\<lambda>r. match_timestamp_value ft (timestamps demo_block ! r))"
      by (rule ext) (simp add: OtherLeaf leaf_matches_def demo_lm_def)
    then show ?thesis using demo_time_leaf bm by (simp add: leaf_ok_def demo_leaf_def OtherLeaf)
  next
    case (FilterGeneric n w f)
    show ?thesis
    proof (cases "leaf_is_match_all l")
      case True
      obtain bm' u where b: "for_each_set_bit (\<lambda>r (s :: unit). (r < 2, s)) bm () = (bm', u)" by (rule prod.exhaust)
      note r = for_each_set_bit_filter(1) [OF bm(1) b] for_each_set_bit_refines(2,3) [OF bm(1) b]
      have "demo_leaf l bm = Ok bm'" using True by (simp add: demo_leaf_def FilterGeneric b)
      moreover have "leaf_matches demo_msg demo_lm l = (\<lambda>r. r < 2)" using True by (intro ext) (simp add: leaf_matches_def demo_msg_def)
      ultimately show ?thesis using r by (simp add: bm.restricts_def)
    next
      case False
      then show ?thesis using bm
        by (auto simp: demo_leaf_def FilterGeneric leaf_matches_def demo_lm_def bm.restricts_def)
    qed
  qed
  then show ?thesis by (simp add: leaf_ok_def)
qed

definition demo_stream :: StreamID where "demo_stream = StreamID (TenantID 0 0) (U128 0 1)"

definition demo_ids :: "unit StreamFilter \<Rightarrow> StreamID set" where
  "demo_ids sf = (if match_stream_name (\<lambda>_ _. False) sf (Some [(ascii ''a'', ascii ''b'')]) = Ok True then {demo_stream} else {})"

theorem optimized_filter_selects_witness:
  "\<exists>bm' pool'. apply_filter demo_leaf (filter_stream_apply demo_ids demo_stream)
      (optimize_filters leaf_is_match_all demo_query) demo_rows [] = Ok (bm', pool') \<and>
    {r \<in> set_rows bm'. demo_msg r \<noteq> []} = {1}"
proof -
  let ?tags = "Some [(ascii ''a'', ascii ''b'')]"
  have sf: "\<forall>sf \<in> set (stream_filters demo_query). stream_filter_ok sf \<and> \<not> stream_filter_is_empty sf"
    by (simp add: demo_query_def demo_sf_def stream_filter_ok_def tag_filter_ok_def stream_filter_is_empty_iff)
  have ids: "\<forall>sf. \<not> stream_filter_is_empty sf \<longrightarrow> (demo_stream \<in> demo_ids sf \<longleftrightarrow> match_stream_name (\<lambda>_ _. False) sf ?tags = Ok True)"
    by (simp add: demo_ids_def)
  have p: "pool_ok []" by (simp add: pool_ok_def)
  have "set_rows demo_rows = {0, 1, 2}" by code_simp
  moreover have "match_stream_name (\<lambda>_ _. False) (demo_sf ''a'' ''b'') ?tags = Ok True" by code_simp
  ultimately have "{r \<in> set_rows demo_rows. demo_msg r \<noteq> [] \<and>
      match_row (\<lambda>l. leaf_matches demo_msg demo_lm l r) (\<lambda>sf. match_stream_name (\<lambda>_ _. False) sf ?tags = Ok True) demo_query} = {1}"
    by (auto simp: demo_query_def demo_msg_def demo_lm_def leaf_matches_def match_timestamp_value_def demo_block_def is_msg_field_name_def)
  then show ?thesis
    using optimized_filter_selects [OF demo_leaf_ok ids sf demo_ok(1,2) p] by auto
qed

end
